(* ===== verification/PIM_Prelude.thy ===== *)
theory PIM_Prelude
  imports Main "HOL-Library.Word"
begin

text \<open>
  Shared vocabulary of the development. The simulator is written in C++ and stops on a failed
  \<^verbatim>\<open>assert\<close>, on \<^verbatim>\<open>panic\<close> and on \<^verbatim>\<open>fatal\<close>; reading a vector out of range or following a null
  pointer is undefined. Each of these is a value of \<open>fault\<close>, and an operation that may stop
  returns \<open>fault + 'a\<close>. This theory holds that result type with its sequencing operator, the
  names of the machine integers, and the lemmas on lists and words the components share.
\<close>

unbundle bit_operations_syntax

section \<open>Machine integers\<close>

type_synonym u8 = "8 word"
type_synonym u32 = "32 word"
type_synonym u64 = "64 word"

text \<open>\<^verbatim>\<open>Addr\<close> and \<^verbatim>\<open>Tick\<close> of \<^verbatim>\<open>base/types.hh\<close> are both \<^verbatim>\<open>uint64_t\<close>.\<close>

type_synonym Addr = u64
type_synonym Tick = u64

definition MaxTick :: Tick where "MaxTick = 0xffffffffffffffff"

section \<open>Operations that may stop\<close>

datatype fault =
    AssertFailed
  | Panicked
  | FatalError
  | OutOfRange
  | NullPointer
  | DivisionByZero

type_synonym 'a res = "fault + 'a"

abbreviation ok :: "'a \<Rightarrow> 'a res" where
  "ok \<equiv> Inr"

abbreviation fail :: "fault \<Rightarrow> 'a res" where
  "fail \<equiv> Inl"

definition bindR :: "'a res \<Rightarrow> ('a \<Rightarrow> 'b res) \<Rightarrow> 'b res" where
  "bindR m k = (case m of Inl e \<Rightarrow> Inl e | Inr x \<Rightarrow> k x)"

text \<open>\<^verbatim>\<open>assert(b)\<close> before the rest of the function.\<close>

definition assertR :: "bool \<Rightarrow> 'a res \<Rightarrow> 'a res" where
  "assertR b m = (if b then m else fail AssertFailed)"

text \<open>\<^verbatim>\<open>v[i]\<close> on a \<^verbatim>\<open>std::vector\<close> and \<^verbatim>\<open>v[i] = x\<close>.\<close>

definition vec_at :: "'a list \<Rightarrow> nat \<Rightarrow> 'a res" where
  "vec_at xs i = (if i < length xs then ok (xs ! i) else fail OutOfRange)"

definition vec_set :: "'a list \<Rightarrow> nat \<Rightarrow> 'a \<Rightarrow> 'a list res" where
  "vec_set xs i x = (if i < length xs then ok (xs[i := x]) else fail OutOfRange)"

named_theorems res_simps \<open>rewriting of operations that may stop\<close>

lemma bindR_simps [simp]:
  "bindR (Inr x) k = k x"
  "bindR (Inl e) k = Inl e"
  by (simp_all add: bindR_def)

lemma bindR_eq_Inr [res_simps]: "bindR m k = Inr y \<longleftrightarrow> (\<exists>x. m = Inr x \<and> k x = Inr y)"
  by (cases m) auto

lemma bindR_assoc: "bindR (bindR m f) g = bindR m (\<lambda>x. bindR (f x) g)"
  by (cases m) auto

lemma assertR_eq_Inr [res_simps]: "assertR b m = Inr y \<longleftrightarrow> b \<and> m = Inr y"
  by (simp add: assertR_def)

lemma assertR_simps [simp]:
  "assertR True m = m"
  "assertR False m = Inl AssertFailed"
  by (simp_all add: assertR_def)

lemma vec_at_eq_Inr [res_simps]: "vec_at xs i = Inr y \<longleftrightarrow> i < length xs \<and> y = xs ! i"
  by (auto simp: vec_at_def)

lemma vec_set_eq_Inr [res_simps]: "vec_set xs i x = Inr ys \<longleftrightarrow> i < length xs \<and> ys = xs[i := x]"
  by (auto simp: vec_set_def)

lemma vec_at_in [simp]: "i < length xs \<Longrightarrow> vec_at xs i = Inr (xs ! i)"
  by (simp add: vec_at_def)

lemma vec_set_in [simp]: "i < length xs \<Longrightarrow> vec_set xs i x = Inr (xs[i := x])"
  by (simp add: vec_set_def)

lemma res_exhaust_Inr: "(\<And>x. m = Inr x \<Longrightarrow> P) \<Longrightarrow> (\<And>e. m = Inl e \<Longrightarrow> P) \<Longrightarrow> P"
  by (cases m) auto

section \<open>Words\<close>

lemma ucast_u8_u64 [simp]: "(ucast (ucast (x::u8) :: u64) :: u8) = x"
  by (rule bit_word_eqI) (simp add: bit_unsigned_iff)

lemma ucast_u8_inj: "(ucast (x::u8) :: u64) = ucast y \<Longrightarrow> x = y"
  by (metis ucast_u8_u64)

lemma unat_power: "unat ((x::u64) ^ k) = unat x ^ k mod 2 ^ 64"
proof (induction k)
  case (Suc k)
  then show ?case by (simp add: unat_word_ariths mod_mult_right_eq)
qed simp

lemma unat_pow2: "k < 64 \<Longrightarrow> unat (2 ^ k :: u64) = 2 ^ k"
  using power_strict_increasing [of k 64 "2::nat"] unat_power [of 2 k] by simp

lemma bit_of_drop_bit:
  assumes "drop_bit g a = drop_bit g (b::u64)" "g \<le> i"
  shows "bit a i \<longleftrightarrow> bit b i"
proof -
  have "bit (drop_bit g a) (i - g) \<longleftrightarrow> bit (drop_bit g b) (i - g)" using assms(1) by simp
  then show ?thesis using assms(2) by (simp add: bit_drop_bit_eq)
qed

section \<open>Byte buffers\<close>

text \<open>\<^verbatim>\<open>memcpy(dst + d, src + o, n)\<close> between two buffers that do not overlap.\<close>

definition memcpy :: "'a list \<Rightarrow> nat \<Rightarrow> 'a list \<Rightarrow> nat \<Rightarrow> nat \<Rightarrow> 'a list res" where
  "memcpy dst d src so n =
     (if d + n \<le> length dst \<and> so + n \<le> length src
      then ok (take d dst @ take n (drop so src) @ drop (d + n) dst)
      else fail OutOfRange)"

lemma memcpy_ok [res_simps]:
  "memcpy dst d src so n = Inr r \<longleftrightarrow> d + n \<le> length dst \<and> so + n \<le> length src \<and>
     r = take d dst @ take n (drop so src) @ drop (d + n) dst"
  by (auto simp: memcpy_def)

lemma length_memcpy: "memcpy dst d src so n = Inr r \<Longrightarrow> length r = length dst"
  by (auto simp: memcpy_ok)

lemma nth_memcpy:
  assumes "memcpy dst d src so n = Inr r" "i < length dst"
  shows "r ! i = (if d \<le> i \<and> i < d + n then src ! (so + (i - d)) else dst ! i)"
proof -
  have r: "r = take d dst @ take n (drop so src) @ drop (d + n) dst" "d + n \<le> length dst" "so + n \<le> length src"
    using assms(1) by (auto simp: memcpy_ok)
  have l: "length (take n (drop so src)) = n" using r(3) by simp
  show ?thesis
    unfolding r(1) nth_append l using r(2,3) assms(2) by auto
qed

lemma memcpy_whole:
  assumes "length dst = n" "length src = n"
  shows "memcpy dst 0 src 0 n = Inr src"
  using assms by (simp add: memcpy_def)

text \<open>The bytes of a number, least significant first, and back.\<close>

fun le_bytes :: "nat \<Rightarrow> u64 \<Rightarrow> u8 list" where
  "le_bytes 0 w = []"
| "le_bytes (Suc n) w = ucast w # le_bytes n (drop_bit 8 w)"

fun of_le_bytes :: "u8 list \<Rightarrow> u64" where
  "of_le_bytes [] = 0"
| "of_le_bytes (b # bs) = ucast b OR push_bit 8 (of_le_bytes bs)"

lemma length_le_bytes [simp]: "length (le_bytes n w) = n"
  by (induction n arbitrary: w) auto

lemma nth_le_bytes: "i < n \<Longrightarrow> le_bytes n w ! i = ucast (drop_bit (8 * i) w)"
proof (induction n arbitrary: w i)
  case (Suc n)
  then show ?case by (cases i) (auto simp: drop_bit_drop_bit add.commute)
qed simp

lemma bit_of_le_bytes:
  "bit (of_le_bytes bs) k \<longleftrightarrow> k < 64 \<and> k div 8 < length bs \<and> bit (bs ! (k div 8)) (k mod 8)"
proof (induction bs arbitrary: k)
  case (Cons b bs)
  show ?case
  proof (cases "k < 8")
    case True
    then show ?thesis by (auto simp: bit_simps)
  next
    case False
    then obtain j where j: "k = 8 + j" by (metis le_Suc_ex not_less)
    have d: "(8 + j) div 8 = Suc (j div 8)" by simp
    have "\<not> bit b k" using False bit_imp_le_length [of b k] by auto
    then show ?thesis
      using j Cons.IH [of j] by (auto simp: bit_simps d)
  qed
qed simp

lemma of_le_bytes_le_bytes: "of_le_bytes (le_bytes n w) = take_bit (8 * n) w"
proof (rule bit_word_eqI)
  fix k assume k: "k < LENGTH(64)"
  show "bit (of_le_bytes (le_bytes n w)) k \<longleftrightarrow> bit (take_bit (8 * n) w) k"
  proof (cases "k div 8 < n")
    case True
    then have "8 * (k div 8) + k mod 8 = k" "k < 8 * n" by auto
    then show ?thesis using True k by (auto simp: bit_of_le_bytes nth_le_bytes bit_simps)
  next
    case False
    then have "\<not> k < 8 * n" by auto
    with False show ?thesis by (simp add: bit_of_le_bytes bit_simps)
  qed
qed

lemma of_le_bytes_8 [simp]: "of_le_bytes (le_bytes 8 w) = w"
  by (simp add: of_le_bytes_le_bytes take_bit_word_eq_self)

lemma le_bytes_of_le_bytes:
  assumes "length bs \<le> 8"
  shows "le_bytes (length bs) (of_le_bytes bs) = bs"
proof (rule nth_equalityI)
  fix i assume "i < length (le_bytes (length bs) (of_le_bytes bs))"
  then have i: "i < length bs" by simp
  show "le_bytes (length bs) (of_le_bytes bs) ! i = bs ! i"
  proof (rule bit_word_eqI)
    fix k assume k: "k < LENGTH(8)"
    then have "(8 * i + k) div 8 = i" "(8 * i + k) mod 8 = k" "8 * i + k < 64" using i assms by auto
    with i k show "bit (le_bytes (length bs) (of_le_bytes bs) ! i) k \<longleftrightarrow> bit (bs ! i) k"
      by (simp add: nth_le_bytes bit_simps bit_of_le_bytes)
  qed
qed simp

end
