(* ===== verification/Mem_Cmd.thy ===== *)
theory Mem_Cmd
  imports PIM_Prelude
begin

text \<open>
  The memory commands of \<^verbatim>\<open>src/mem/packet.hh\<close> and the table of their attributes in
  \<^verbatim>\<open>src/mem/packet.cc\<close>. A command is an index into \<^verbatim>\<open>MemCmd::commandInfo\<close>; the model keeps the
  table as the list it is in the source, in the order of the source, and looks a command up by its
  position in the enumeration, so that the correspondence of the two orders is a lemma and not an
  assumption. The lemmas say which commands answer which requests, the protocol the memory and the
  PIM kernels rely on.
\<close>

section \<open>Commands and attributes\<close>

datatype Command =
    InvalidCmd | ReadReq | ReadResp | ReadRespWithInvalidate | WriteReq | WriteResp
  | WritebackDirty | WritebackClean | WriteClean | CleanEvict | SoftPFReq | SoftPFExReq
  | HardPFReq | SoftPFResp | HardPFResp | WriteLineReq | UpgradeReq | SCUpgradeReq
  | UpgradeResp | SCUpgradeFailReq | UpgradeFailResp | ReadExReq | ReadExResp | ReadCleanReq
  | ReadSharedReq | LoadLockedReq | StoreCondReq | StoreCondFailReq | StoreCondResp | SwapReq
  | SwapResp | MessageReq | MessageResp | MemFenceReq | MemFenceResp | CleanSharedReq
  | CleanSharedResp | CleanInvalidReq | CleanInvalidResp | InvalidDestError | BadAddressError
  | FunctionalReadError | FunctionalWriteError | PrintReq | FlushReq | InvalidateReq
  | InvalidateResp | PIM | PIMRead | PIMWrite | PIMReadResp | PIMWriteResp

datatype Attribute =
    IsRead | IsWrite | IsUpgrade | IsInvalidate | IsClean | NeedsWritable | IsRequest
  | IsResponse | NeedsResponse | IsEviction | IsSWPrefetch | IsHWPrefetch | IsLlsc | HasData
  | IsError | IsPrint | IsFlush | FromCache | IsPIM | IsPIMRead | IsPIMWrite | IsPIMReadResp
  | IsPIMWriteResp

record CommandInfo =
  attributes :: "Attribute list"
  response :: Command
  str :: string

text \<open>\<^verbatim>\<open>toInt\<close>: the value of the enumerator.\<close>

primrec toInt :: "Command \<Rightarrow> nat" where
  "toInt InvalidCmd = 0"
| "toInt ReadReq = 1"
| "toInt ReadResp = 2"
| "toInt ReadRespWithInvalidate = 3"
| "toInt WriteReq = 4"
| "toInt WriteResp = 5"
| "toInt WritebackDirty = 6"
| "toInt WritebackClean = 7"
| "toInt WriteClean = 8"
| "toInt CleanEvict = 9"
| "toInt SoftPFReq = 10"
| "toInt SoftPFExReq = 11"
| "toInt HardPFReq = 12"
| "toInt SoftPFResp = 13"
| "toInt HardPFResp = 14"
| "toInt WriteLineReq = 15"
| "toInt UpgradeReq = 16"
| "toInt SCUpgradeReq = 17"
| "toInt UpgradeResp = 18"
| "toInt SCUpgradeFailReq = 19"
| "toInt UpgradeFailResp = 20"
| "toInt ReadExReq = 21"
| "toInt ReadExResp = 22"
| "toInt ReadCleanReq = 23"
| "toInt ReadSharedReq = 24"
| "toInt LoadLockedReq = 25"
| "toInt StoreCondReq = 26"
| "toInt StoreCondFailReq = 27"
| "toInt StoreCondResp = 28"
| "toInt SwapReq = 29"
| "toInt SwapResp = 30"
| "toInt MessageReq = 31"
| "toInt MessageResp = 32"
| "toInt MemFenceReq = 33"
| "toInt MemFenceResp = 34"
| "toInt CleanSharedReq = 35"
| "toInt CleanSharedResp = 36"
| "toInt CleanInvalidReq = 37"
| "toInt CleanInvalidResp = 38"
| "toInt InvalidDestError = 39"
| "toInt BadAddressError = 40"
| "toInt FunctionalReadError = 41"
| "toInt FunctionalWriteError = 42"
| "toInt PrintReq = 43"
| "toInt FlushReq = 44"
| "toInt InvalidateReq = 45"
| "toInt InvalidateResp = 46"
| "toInt PIM = 47"
| "toInt PIMRead = 48"
| "toInt PIMWrite = 49"
| "toInt PIMReadResp = 50"
| "toInt PIMWriteResp = 51"

text \<open>One row of the table: \<^verbatim>\<open>{ SETn(...), response, name }\<close>.\<close>

definition row :: "Attribute list \<Rightarrow> Command \<Rightarrow> string \<Rightarrow> CommandInfo" where
  "row as r s = \<lparr>attributes = as, response = r, str = s\<rparr>"

definition commandInfo_table :: "CommandInfo list" where
  "commandInfo_table = [
   row []
     InvalidCmd ''InvalidCmd'',
   row [IsRead, IsRequest, NeedsResponse]
     ReadResp ''ReadReq'',
   row [IsRead, IsResponse, HasData]
     InvalidCmd ''ReadResp'',
   row [IsRead, IsResponse, HasData, IsInvalidate]
     InvalidCmd ''ReadRespWithInvalidate'',
   row [IsWrite, NeedsWritable, IsRequest, NeedsResponse, HasData]
     WriteResp ''WriteReq'',
   row [IsWrite, IsResponse]
     InvalidCmd ''WriteResp'',
   row [IsWrite, IsRequest, IsEviction, HasData, FromCache]
     InvalidCmd ''WritebackDirty'',
   row [IsWrite, IsRequest, IsEviction, HasData, FromCache]
     InvalidCmd ''WritebackClean'',
   row [IsWrite, IsRequest, HasData, FromCache]
     InvalidCmd ''WriteClean'',
   row [IsRequest, IsEviction, FromCache]
     InvalidCmd ''CleanEvict'',
   row [IsRead, IsRequest, IsSWPrefetch, NeedsResponse]
     SoftPFResp ''SoftPFReq'',
   row [IsRead, NeedsWritable, IsInvalidate, IsRequest, IsSWPrefetch, NeedsResponse]
     SoftPFResp ''SoftPFExReq'',
   row [IsRead, IsRequest, IsHWPrefetch, NeedsResponse, FromCache]
     HardPFResp ''HardPFReq'',
   row [IsRead, IsResponse, IsSWPrefetch, HasData]
     InvalidCmd ''SoftPFResp'',
   row [IsRead, IsResponse, IsHWPrefetch, HasData]
     InvalidCmd ''HardPFResp'',
   row [IsWrite, NeedsWritable, IsRequest, NeedsResponse, HasData]
     WriteResp ''WriteLineReq'',
   row [IsInvalidate, NeedsWritable, IsUpgrade, IsRequest, NeedsResponse, FromCache]
     UpgradeResp ''UpgradeReq'',
   row [IsInvalidate, NeedsWritable, IsUpgrade, IsLlsc, IsRequest, NeedsResponse, FromCache]
     UpgradeResp ''SCUpgradeReq'',
   row [IsUpgrade, IsResponse]
     InvalidCmd ''UpgradeResp'',
   row [IsRead, NeedsWritable, IsInvalidate, IsLlsc, IsRequest, NeedsResponse, FromCache]
     UpgradeFailResp ''SCUpgradeFailReq'',
   row [IsRead, IsResponse, HasData]
     InvalidCmd ''UpgradeFailResp'',
   row [IsRead, NeedsWritable, IsInvalidate, IsRequest, NeedsResponse, FromCache]
     ReadExResp ''ReadExReq'',
   row [IsRead, IsResponse, HasData]
     InvalidCmd ''ReadExResp'',
   row [IsRead, IsRequest, NeedsResponse, FromCache]
     ReadResp ''ReadCleanReq'',
   row [IsRead, IsRequest, NeedsResponse, FromCache]
     ReadResp ''ReadSharedReq'',
   row [IsRead, IsLlsc, IsRequest, NeedsResponse]
     ReadResp ''LoadLockedReq'',
   row [IsWrite, NeedsWritable, IsLlsc, IsRequest, NeedsResponse, HasData]
     StoreCondResp ''StoreCondReq'',
   row [IsWrite, NeedsWritable, IsLlsc, IsRequest, NeedsResponse, HasData]
     StoreCondResp ''StoreCondFailReq'',
   row [IsWrite, IsLlsc, IsResponse]
     InvalidCmd ''StoreCondResp'',
   row [IsRead, IsWrite, NeedsWritable, IsRequest, HasData, NeedsResponse]
     SwapResp ''SwapReq'',
   row [IsRead, IsWrite, IsResponse, HasData]
     InvalidCmd ''SwapResp'',
   row [IsWrite, IsRequest, NeedsResponse, HasData]
     MessageResp ''MessageReq'',
   row [IsWrite, IsResponse]
     InvalidCmd ''MessageResp'',
   row [IsRequest, NeedsResponse]
     MemFenceResp ''MemFenceReq'',
   row [IsResponse]
     InvalidCmd ''MemFenceResp'',
   row [IsRequest, IsClean, NeedsResponse, FromCache]
     CleanSharedResp ''CleanSharedReq'',
   row [IsResponse, IsClean]
     InvalidCmd ''CleanSharedResp'',
   row [IsRequest, IsInvalidate, IsClean, NeedsResponse, FromCache]
     CleanInvalidResp ''CleanInvalidReq'',
   row [IsResponse, IsInvalidate, IsClean]
     InvalidCmd ''CleanInvalidResp'',
   row [IsResponse, IsError]
     InvalidCmd ''InvalidDestError'',
   row [IsResponse, IsError]
     InvalidCmd ''BadAddressError'',
   row [IsRead, IsResponse, IsError]
     InvalidCmd ''FunctionalReadError'',
   row [IsWrite, IsResponse, IsError]
     InvalidCmd ''FunctionalWriteError'',
   row [IsRequest, IsPrint]
     InvalidCmd ''PrintReq'',
   row [IsRequest, IsFlush, NeedsWritable]
     InvalidCmd ''FlushReq'',
   row [IsInvalidate, IsRequest, NeedsWritable, NeedsResponse, FromCache]
     InvalidateResp ''InvalidateReq'',
   row [IsInvalidate, IsResponse]
     InvalidCmd ''InvalidateResp'',
   row [IsRequest, IsPIM]
     InvalidCmd ''PIM'',
   row [IsRequest, NeedsResponse, IsPIM, IsRead, IsPIMRead, IsEviction]
     PIMReadResp ''PIMRead'',
   row [IsRequest, NeedsResponse, IsPIM, IsWrite, HasData, NeedsWritable, IsPIMWrite, IsEviction]
     PIMWriteResp ''PIMWrite'',
   row [IsRead, IsResponse, HasData, IsInvalidate, NeedsResponse, IsPIM, IsPIMRead]
     InvalidCmd ''PIMReadResp'',
   row [IsWrite, IsResponse, IsInvalidate, IsPIM, IsPIMWrite]
     InvalidCmd ''PIMWriteResp'']"

definition testCmdAttrib :: "Command \<Rightarrow> Attribute \<Rightarrow> bool" where
  "testCmdAttrib c a \<longleftrightarrow> a \<in> set (attributes (commandInfo_table ! toInt c))"

section \<open>Predicates\<close>

definition isRead :: "Command \<Rightarrow> bool" where "isRead c = testCmdAttrib c IsRead"
definition isWrite :: "Command \<Rightarrow> bool" where "isWrite c = testCmdAttrib c IsWrite"
definition isUpgrade :: "Command \<Rightarrow> bool" where "isUpgrade c = testCmdAttrib c IsUpgrade"
definition isRequest :: "Command \<Rightarrow> bool" where "isRequest c = testCmdAttrib c IsRequest"
definition isResponse :: "Command \<Rightarrow> bool" where "isResponse c = testCmdAttrib c IsResponse"
definition needsWritable :: "Command \<Rightarrow> bool" where "needsWritable c = testCmdAttrib c NeedsWritable"
definition needsResponse :: "Command \<Rightarrow> bool" where "needsResponse c = testCmdAttrib c NeedsResponse"
definition isInvalidate :: "Command \<Rightarrow> bool" where "isInvalidate c = testCmdAttrib c IsInvalidate"
definition isEviction :: "Command \<Rightarrow> bool" where "isEviction c = testCmdAttrib c IsEviction"
definition isClean :: "Command \<Rightarrow> bool" where "isClean c = testCmdAttrib c IsClean"
definition fromCache :: "Command \<Rightarrow> bool" where "fromCache c = testCmdAttrib c FromCache"
definition isPIM :: "Command \<Rightarrow> bool" where "isPIM c = testCmdAttrib c IsPIM"
definition isPIMRead :: "Command \<Rightarrow> bool" where "isPIMRead c = testCmdAttrib c IsPIMRead"
definition isPIMWrite :: "Command \<Rightarrow> bool" where "isPIMWrite c = testCmdAttrib c IsPIMWrite"
definition isPIMReadResp :: "Command \<Rightarrow> bool" where "isPIMReadResp c = testCmdAttrib c IsPIMReadResp"
definition isPIMWriteResp :: "Command \<Rightarrow> bool" where "isPIMWriteResp c = testCmdAttrib c IsPIMWriteResp"
definition hasData :: "Command \<Rightarrow> bool" where "hasData c = testCmdAttrib c HasData"
definition isLLSC :: "Command \<Rightarrow> bool" where "isLLSC c = testCmdAttrib c IsLlsc"
definition isSWPrefetch :: "Command \<Rightarrow> bool" where "isSWPrefetch c = testCmdAttrib c IsSWPrefetch"
definition isHWPrefetch :: "Command \<Rightarrow> bool" where "isHWPrefetch c = testCmdAttrib c IsHWPrefetch"
definition isError :: "Command \<Rightarrow> bool" where "isError c = testCmdAttrib c IsError"
definition isPrint :: "Command \<Rightarrow> bool" where "isPrint c = testCmdAttrib c IsPrint"
definition isFlush :: "Command \<Rightarrow> bool" where "isFlush c = testCmdAttrib c IsFlush"

definition isWriteback :: "Command \<Rightarrow> bool" where
  "isWriteback c \<longleftrightarrow> testCmdAttrib c IsEviction \<and> testCmdAttrib c HasData"

definition isPrefetch :: "Command \<Rightarrow> bool" where
  "isPrefetch c \<longleftrightarrow> testCmdAttrib c IsSWPrefetch \<or> testCmdAttrib c IsHWPrefetch"

definition responseCommand :: "Command \<Rightarrow> Command" where
  "responseCommand c = response (commandInfo_table ! toInt c)"

definition toString :: "Command \<Rightarrow> string" where
  "toString c = str (commandInfo_table ! toInt c)"

named_theorems cmd_defs \<open>the predicates on commands, as attributes of the table\<close>

lemmas cmd_preds [cmd_defs] =
  isRead_def isWrite_def isUpgrade_def isRequest_def isResponse_def needsWritable_def
  needsResponse_def isInvalidate_def isEviction_def isClean_def fromCache_def isPIM_def
  isPIMRead_def isPIMWrite_def isPIMReadResp_def isPIMWriteResp_def hasData_def isLLSC_def
  isSWPrefetch_def isHWPrefetch_def isError_def isPrint_def isFlush_def isWriteback_def
  isPrefetch_def

section \<open>Enumeration\<close>

text \<open>
  The commands are finitely many, so a statement about all of them is checked row by row. The
  library's class of enumerable types gives the quantifier its executable meaning.
\<close>

definition all_commands :: "Command list" where
  "all_commands = [
     InvalidCmd, ReadReq, ReadResp, ReadRespWithInvalidate, WriteReq, WriteResp,
     WritebackDirty, WritebackClean, WriteClean, CleanEvict, SoftPFReq, SoftPFExReq, HardPFReq,
     SoftPFResp, HardPFResp, WriteLineReq, UpgradeReq, SCUpgradeReq, UpgradeResp,
     SCUpgradeFailReq, UpgradeFailResp, ReadExReq, ReadExResp, ReadCleanReq, ReadSharedReq,
     LoadLockedReq, StoreCondReq, StoreCondFailReq, StoreCondResp, SwapReq, SwapResp,
     MessageReq, MessageResp, MemFenceReq, MemFenceResp, CleanSharedReq, CleanSharedResp,
     CleanInvalidReq, CleanInvalidResp, InvalidDestError, BadAddressError, FunctionalReadError,
     FunctionalWriteError, PrintReq, FlushReq, InvalidateReq, InvalidateResp, PIM, PIMRead,
     PIMWrite, PIMReadResp, PIMWriteResp]"

lemma all_commands_nth: "toInt c < length all_commands \<and> all_commands ! toInt c = c"
  by (cases c) (simp_all add: all_commands_def)

lemma set_all_commands: "set all_commands = UNIV"
  using all_commands_nth by (metis UNIV_eq_I nth_mem)

lemma distinct_all_commands: "distinct all_commands"
  by code_simp

instantiation Command :: enum
begin

definition enum_Command :: "Command list" where
  "enum_Command = all_commands"

definition enum_all_Command :: "(Command \<Rightarrow> bool) \<Rightarrow> bool" where
  "enum_all_Command P = list_all P all_commands"

definition enum_ex_Command :: "(Command \<Rightarrow> bool) \<Rightarrow> bool" where
  "enum_ex_Command P = list_ex P all_commands"

instance
  by standard (auto simp: enum_Command_def enum_all_Command_def enum_ex_Command_def
      set_all_commands distinct_all_commands list_all_iff list_ex_iff)

end

section \<open>The protocol of requests and responses\<close>

lemma request_xor_response: "isRequest c \<longrightarrow> \<not> isResponse c"
proof -
  have "\<forall>c. isRequest c \<longrightarrow> \<not> isResponse c" by code_simp
  then show ?thesis by blast
qed

text \<open>The attributes the memory and the kernels test on the commands of the PIM traffic.\<close>

lemma pim_commands [simp]:
  "isPIM PIM" "isPIM PIMRead" "isPIM PIMWrite" "\<not> isPIM ReadReq" "\<not> isPIM WriteReq"
  "isRead PIMRead" "\<not> isWrite PIMRead" "isWrite PIMWrite" "\<not> isRead PIMWrite"
  "isPIMRead PIMRead" "\<not> isPIMWrite PIMRead" "isPIMWrite PIMWrite" "\<not> isPIMRead PIMWrite"
  "needsResponse PIMRead" "needsResponse PIMWrite" "isRequest PIMRead" "isRequest PIMWrite"
  "\<not> isLLSC PIMRead" "\<not> isLLSC PIMWrite"
  "responseCommand PIMRead = PIMReadResp" "responseCommand PIMWrite = PIMWriteResp"
  by code_simp+

text \<open>C38: For every command that is a request needing a response, the table names a command that is a
  response and not a request, that reads and writes exactly as the request does, that carries data
  exactly when the request reads, and that belongs to the PIM traffic exactly when the request does.\<close>
theorem response_protocol:
  assumes "isRequest c" "needsResponse c"
  shows "isResponse (responseCommand c) \<and> \<not> isRequest (responseCommand c) \<and>
    isRead (responseCommand c) = isRead c \<and> isWrite (responseCommand c) = isWrite c \<and>
    hasData (responseCommand c) = isRead c \<and> isPIM (responseCommand c) = isPIM c"
proof -
  have "\<forall>c. isRequest c \<and> needsResponse c \<longrightarrow>
    isResponse (responseCommand c) \<and> \<not> isRequest (responseCommand c) \<and>
    isRead (responseCommand c) = isRead c \<and> isWrite (responseCommand c) = isWrite c \<and>
    hasData (responseCommand c) = isRead c \<and> isPIM (responseCommand c) = isPIM c"
    by code_simp
  with assms show ?thesis by blast
qed

theorem response_protocol_witness:
  "responseCommand PIMRead = PIMReadResp \<and> hasData PIMReadResp \<and> isPIM PIMReadResp"
  using response_protocol [of PIMRead] by simp

text \<open>The PIM responses are mislabelled: no command carries the attributes
  \<^verbatim>\<open>IsPIMReadResp\<close> and \<^verbatim>\<open>IsPIMWriteResp\<close>, so \<^verbatim>\<open>isPIMReadResp\<close> and
  \<^verbatim>\<open>isPIMWriteResp\<close> hold for nothing, and \<^verbatim>\<open>PIMReadResp\<close> is the one response of the
  table that itself asks for a response.\<close>
theorem pim_responses_mislabelled:
  "\<not> isPIMReadResp c \<and> \<not> isPIMWriteResp c \<and>
   (isResponse c \<and> needsResponse c \<longleftrightarrow> c = PIMReadResp)"
proof -
  have "\<forall>c. \<not> isPIMReadResp c \<and> \<not> isPIMWriteResp c \<and>
    (isResponse c \<and> needsResponse c \<longleftrightarrow> c = PIMReadResp)"
    by code_simp
  then show ?thesis by blast
qed

end
