(* ===== verification/Base_Flags.thy ===== *)
theory Base_Flags
  imports PIM_Prelude
begin

text \<open>
  The flag words of \<^verbatim>\<open>src/base/flags.hh\<close>: a word whose bits are tested, set and cleared through
  masks. The collection \<open>flag_simps\<close> reads a flag after any sequence of updates.
\<close>

section \<open>Flag words\<close>

definition isSet :: "'a::len word \<Rightarrow> 'a word \<Rightarrow> bool" where
  "isSet w f \<longleftrightarrow> w AND f \<noteq> 0"

definition allSet :: "'a::len word \<Rightarrow> 'a word \<Rightarrow> bool" where
  "allSet w f \<longleftrightarrow> w AND f = f"

definition noneSet :: "'a::len word \<Rightarrow> 'a word \<Rightarrow> bool" where
  "noneSet w f \<longleftrightarrow> w AND f = 0"

definition clear_flags :: "'a::len word \<Rightarrow> 'a word \<Rightarrow> 'a word" where
  "clear_flags f w = w AND NOT f"

definition set_flags :: "'a::len word \<Rightarrow> 'a word \<Rightarrow> 'a word" where
  "set_flags f w = w OR f"

definition update_flags :: "'a::len word \<Rightarrow> 'a word \<Rightarrow> 'a word \<Rightarrow> 'a word" where
  "update_flags f m w = (w AND NOT m) OR (f AND m)"

named_theorems flag_simps \<open>reading flag words after writing them\<close>

lemma isSet_set_flags [flag_simps]: "isSet (set_flags f w) g \<longleftrightarrow> isSet w g \<or> isSet f g"
  by (simp add: isSet_def set_flags_def bit.conj_disj_distrib2 or_eq_0_iff)

lemma isSet_clear_flags [flag_simps]: "isSet (clear_flags f w) g \<longleftrightarrow> isSet w (g AND NOT f)"
  by (simp add: isSet_def clear_flags_def and.assoc and.commute [of "NOT f" g])

lemma noneSet_not_isSet [flag_simps]: "noneSet w f \<longleftrightarrow> \<not> isSet w f"
  by (simp add: noneSet_def isSet_def)

lemma isSet_zero [flag_simps]: "\<not> isSet 0 f" "\<not> isSet w 0"
  by (simp_all add: isSet_def)

lemma isSet_numeral [flag_simps]:
  "isSet (numeral m) (numeral n :: 'a::len word) \<longleftrightarrow> numeral m AND numeral n \<noteq> (0 :: 'a word)"
  "isSet 1 (numeral n :: 'a::len word) \<longleftrightarrow> 1 AND numeral n \<noteq> (0 :: 'a word)"
  "isSet (numeral m) (1 :: 'a::len word) \<longleftrightarrow> numeral m AND 1 \<noteq> (0 :: 'a word)"
  by (simp_all add: isSet_def)

lemma isSet_or [flag_simps]: "isSet w (f OR g) \<longleftrightarrow> isSet w f \<or> isSet w g"
  by (simp add: isSet_def bit.conj_disj_distrib or_eq_0_iff)

lemma isSet_update_flags [flag_simps]:
  "isSet (update_flags f m w) g \<longleftrightarrow> isSet w (g AND NOT m) \<or> isSet f (g AND m)"
proof -
  have "update_flags f m w = set_flags (f AND m) (clear_flags m w)"
    by (simp add: update_flags_def set_flags_def clear_flags_def)
  moreover have "isSet (f AND m) g = isSet f (g AND m)"
    by (simp add: isSet_def and.assoc and.commute [of m g])
  ultimately show ?thesis by (simp add: isSet_set_flags isSet_clear_flags)
qed

end
