(* ===== verification/Mem_Request.thy ===== *)
theory Mem_Request
  imports Base_Flags
begin

text \<open>
  The class \<^verbatim>\<open>Request\<close> of \<^verbatim>\<open>src/mem/request.hh\<close>: what is asked of the memory system, independently of the packets that
  carry it. The flag fields are words of the widths of the source; an accessor with an assertion may
  stop. The stream identifiers, which share storage with the address space identifier, are left out.
  The lemmas say which fields are readable after which setter, and that splitting a request at an
  address neither loses nor duplicates a byte.
\<close>

section \<open>The request\<close>

abbreviation INST_FETCH :: u64 where "INST_FETCH \<equiv> 0x100"
abbreviation UNCACHEABLE :: u64 where "UNCACHEABLE \<equiv> 0x400"
abbreviation STRICT_ORDER :: u64 where "STRICT_ORDER \<equiv> 0x800"
abbreviation KERNEL :: u64 where "KERNEL \<equiv> 0x1000"
abbreviation MMAPPED_IPR :: u64 where "MMAPPED_IPR \<equiv> 0x2000"
abbreviation PRIVILEGED :: u64 where "PRIVILEGED \<equiv> 0x8000"
abbreviation ACQUIRE :: u64 where "ACQUIRE \<equiv> 0x20000"
abbreviation RELEASE :: u64 where "RELEASE \<equiv> 0x40000"
abbreviation LOCKED_RMW :: u64 where "LOCKED_RMW \<equiv> 0x100000"
abbreviation LLSC :: u64 where "LLSC \<equiv> 0x200000"
abbreviation MEM_SWAP :: u64 where "MEM_SWAP \<equiv> 0x400000"
abbreviation MEM_SWAP_COND :: u64 where "MEM_SWAP_COND \<equiv> 0x800000"
abbreviation PREFETCH :: u64 where "PREFETCH \<equiv> 0x1000000"
abbreviation PF_EXCLUSIVE :: u64 where "PF_EXCLUSIVE \<equiv> 0x2000000"
abbreviation SECURE :: u64 where "SECURE \<equiv> 0x10000000"
abbreviation PT_WALK :: u64 where "PT_WALK \<equiv> 0x20000000"
abbreviation ATOMIC_RETURN_OP :: u64 where "ATOMIC_RETURN_OP \<equiv> 0x40000000"
abbreviation ATOMIC_NO_RETURN_OP :: u64 where "ATOMIC_NO_RETURN_OP \<equiv> 0x80000000"
abbreviation INVALIDATE :: u64 where "INVALIDATE \<equiv> 0x100000000"
abbreviation CLEAN :: u64 where "CLEAN \<equiv> 0x200000000"
abbreviation DST_POU :: u64 where "DST_POU \<equiv> 0x1000000000"
abbreviation DST_POC :: u64 where "DST_POC \<equiv> 0x2000000000"

abbreviation REQ_VALID_SIZE :: "16 word" where "REQ_VALID_SIZE \<equiv> 0x1"
abbreviation VALID_PADDR :: "16 word" where "VALID_PADDR \<equiv> 0x2"
abbreviation VALID_VADDR :: "16 word" where "VALID_VADDR \<equiv> 0x4"
abbreviation VALID_INST_SEQ_NUM :: "16 word" where "VALID_INST_SEQ_NUM \<equiv> 0x8"
abbreviation VALID_PC :: "16 word" where "VALID_PC \<equiv> 0x10"
abbreviation VALID_CONTEXT_ID :: "16 word" where "VALID_CONTEXT_ID \<equiv> 0x20"
abbreviation VALID_EXTRA_DATA :: "16 word" where "VALID_EXTRA_DATA \<equiv> 0x80"

text \<open>An atomic operation rewrites the bytes it is applied to.\<close>

type_synonym AtomicOpFunctor = "u8 list \<Rightarrow> u8 list"

record Request =
  req_paddr :: Addr
  req_size :: u32
  req_masterId :: "16 word"
  req_flags :: u64
  privateFlags :: "16 word"
  req_time :: Tick
  req_asid :: u64
  req_vaddr :: Addr
  req_extraData :: u64
  req_contextId :: int
  req_pc :: Addr
  reqInstSeqNum :: u64
  atomicOpFunctor :: "AtomicOpFunctor option"

definition invldMasterId :: "16 word" where
  "invldMasterId = -1"

definition Request_default :: Request where
  "Request_default = \<lparr>req_paddr = 0, req_size = 0, req_masterId = invldMasterId, req_flags = 0,
     privateFlags = 0, req_time = 0, req_asid = 0, req_vaddr = 0, req_extraData = 0,
     req_contextId = 0, req_pc = 0, reqInstSeqNum = 0, atomicOpFunctor = None\<rparr>"

definition wbMasterId :: "16 word" where "wbMasterId = 0"
definition funcMasterId :: "16 word" where "funcMasterId = 1"

definition setPhys :: "Addr \<Rightarrow> u32 \<Rightarrow> u64 \<Rightarrow> 16 word \<Rightarrow> Tick \<Rightarrow> Request \<Rightarrow> Request" where
  "setPhys paddr sz fl mid time r = r\<lparr>
     req_paddr := paddr, req_size := sz, req_time := time, req_masterId := mid,
     req_flags := set_flags fl (clear_flags (NOT INST_FETCH) (req_flags r)),
     privateFlags := set_flags (VALID_PADDR OR REQ_VALID_SIZE)
       (clear_flags (NOT VALID_CONTEXT_ID) (privateFlags r))\<rparr>"

definition setVirt :: "u64 \<Rightarrow> Addr \<Rightarrow> u32 \<Rightarrow> u64 \<Rightarrow> 16 word \<Rightarrow> Addr \<Rightarrow> AtomicOpFunctor option
    \<Rightarrow> Tick \<Rightarrow> Request \<Rightarrow> Request" where
  "setVirt asid vaddr sz fl mid pc amo_op now r = r\<lparr>
     req_asid := asid, req_vaddr := vaddr, req_size := sz, req_masterId := mid, req_pc := pc,
     req_time := now,
     req_flags := set_flags fl (clear_flags (NOT INST_FETCH) (req_flags r)),
     privateFlags := set_flags (VALID_VADDR OR REQ_VALID_SIZE OR VALID_PC)
       (clear_flags (NOT VALID_CONTEXT_ID) (privateFlags r)),
     atomicOpFunctor := amo_op\<rparr>"

definition setContext :: "int \<Rightarrow> Request \<Rightarrow> Request" where
  "setContext cid r = r\<lparr>req_contextId := cid, privateFlags := set_flags VALID_CONTEXT_ID (privateFlags r)\<rparr>"

definition setPaddr :: "Addr \<Rightarrow> Request \<Rightarrow> Request" where
  "setPaddr paddr r = r\<lparr>req_paddr := paddr, privateFlags := set_flags VALID_PADDR (privateFlags r)\<rparr>"

text \<open>The constructors: a physical request, one with a context, a virtual one.\<close>

definition Request_phys :: "Addr \<Rightarrow> u32 \<Rightarrow> u64 \<Rightarrow> 16 word \<Rightarrow> Tick \<Rightarrow> Request" where
  "Request_phys paddr sz fl mid now = setPhys paddr sz fl mid now Request_default"

definition Request_phys_ctx :: "Addr \<Rightarrow> u32 \<Rightarrow> u64 \<Rightarrow> 16 word \<Rightarrow> u64 \<Rightarrow> int \<Rightarrow> Tick \<Rightarrow> Request" where
  "Request_phys_ctx paddr sz fl mid seq_num cid now =
     (let r = setContext cid (setPhys paddr sz fl mid now (Request_default\<lparr>reqInstSeqNum := seq_num\<rparr>))
      in r\<lparr>privateFlags := set_flags VALID_INST_SEQ_NUM (privateFlags r)\<rparr>)"

definition Request_virt :: "u64 \<Rightarrow> Addr \<Rightarrow> u32 \<Rightarrow> u64 \<Rightarrow> 16 word \<Rightarrow> Addr \<Rightarrow> int \<Rightarrow> Tick \<Rightarrow> Request" where
  "Request_virt asid vaddr sz fl mid pc cid now =
     setContext cid (setVirt asid vaddr sz fl mid pc None now Request_default)"

section \<open>Accessors\<close>

definition hasPaddr :: "Request \<Rightarrow> bool" where "hasPaddr r = isSet (privateFlags r) VALID_PADDR"
definition hasVaddr :: "Request \<Rightarrow> bool" where "hasVaddr r = isSet (privateFlags r) VALID_VADDR"
definition hasSize :: "Request \<Rightarrow> bool" where "hasSize r = isSet (privateFlags r) REQ_VALID_SIZE"
definition hasContextId :: "Request \<Rightarrow> bool" where "hasContextId r = isSet (privateFlags r) VALID_CONTEXT_ID"
definition hasPC :: "Request \<Rightarrow> bool" where "hasPC r = isSet (privateFlags r) VALID_PC"
definition hasInstSeqNum :: "Request \<Rightarrow> bool" where "hasInstSeqNum r = isSet (privateFlags r) VALID_INST_SEQ_NUM"
definition extraDataValid :: "Request \<Rightarrow> bool" where "extraDataValid r = isSet (privateFlags r) VALID_EXTRA_DATA"

definition getPaddr :: "Request \<Rightarrow> Addr res" where
  "getPaddr r = assertR (hasPaddr r) (ok (req_paddr r))"

definition getVaddr :: "Request \<Rightarrow> Addr res" where
  "getVaddr r = assertR (hasVaddr r) (ok (req_vaddr r))"

definition getReqSize :: "Request \<Rightarrow> u32 res" where
  "getReqSize r = assertR (hasSize r) (ok (req_size r))"

definition getTime :: "Request \<Rightarrow> Tick res" where
  "getTime r = assertR (isSet (privateFlags r) (VALID_PADDR OR VALID_VADDR)) (ok (req_time r))"

definition contextId :: "Request \<Rightarrow> int res" where
  "contextId r = assertR (hasContextId r) (ok (req_contextId r))"

definition getPC :: "Request \<Rightarrow> Addr res" where
  "getPC r = assertR (hasPC r) (ok (req_pc r))"

definition setPC :: "Addr \<Rightarrow> Request \<Rightarrow> Request" where
  "setPC pc r = r\<lparr>privateFlags := set_flags VALID_PC (privateFlags r), req_pc := pc\<rparr>"

definition getReqInstSeqNum :: "Request \<Rightarrow> u64 res" where
  "getReqInstSeqNum r = assertR (hasInstSeqNum r) (ok (reqInstSeqNum r))"

definition setReqInstSeqNum :: "u64 \<Rightarrow> Request \<Rightarrow> Request" where
  "setReqInstSeqNum n r = r\<lparr>privateFlags := set_flags VALID_INST_SEQ_NUM (privateFlags r), reqInstSeqNum := n\<rparr>"

definition getExtraData :: "Request \<Rightarrow> u64 res" where
  "getExtraData r = assertR (extraDataValid r) (ok (req_extraData r))"

definition setExtraData :: "u64 \<Rightarrow> Request \<Rightarrow> Request" where
  "setExtraData d r = r\<lparr>req_extraData := d, privateFlags := set_flags VALID_EXTRA_DATA (privateFlags r)\<rparr>"

definition getAtomicOpFunctor :: "Request \<Rightarrow> AtomicOpFunctor res" where
  "getAtomicOpFunctor r = (case atomicOpFunctor r of Some f \<Rightarrow> ok f | None \<Rightarrow> fail AssertFailed)"

definition setReqFlags :: "u64 \<Rightarrow> Request \<Rightarrow> Request res" where
  "setReqFlags fl r = assertR (isSet (privateFlags r) (VALID_PADDR OR VALID_VADDR))
     (ok (r\<lparr>req_flags := set_flags fl (req_flags r)\<rparr>))"

definition isUncacheable :: "Request \<Rightarrow> bool" where "isUncacheable r = isSet (req_flags r) UNCACHEABLE"
definition isStrictlyOrdered :: "Request \<Rightarrow> bool" where "isStrictlyOrdered r = isSet (req_flags r) STRICT_ORDER"
definition isInstFetch :: "Request \<Rightarrow> bool" where "isInstFetch r = isSet (req_flags r) INST_FETCH"
definition isPrefetchEx :: "Request \<Rightarrow> bool" where "isPrefetchEx r = isSet (req_flags r) PF_EXCLUSIVE"
definition req_isLLSC :: "Request \<Rightarrow> bool" where "req_isLLSC r = isSet (req_flags r) LLSC"
definition isPriv :: "Request \<Rightarrow> bool" where "isPriv r = isSet (req_flags r) PRIVILEGED"
definition isLockedRMW :: "Request \<Rightarrow> bool" where "isLockedRMW r = isSet (req_flags r) LOCKED_RMW"
definition isCondSwap :: "Request \<Rightarrow> bool" where "isCondSwap r = isSet (req_flags r) MEM_SWAP_COND"
definition isMmappedIpr :: "Request \<Rightarrow> bool" where "isMmappedIpr r = isSet (req_flags r) MMAPPED_IPR"
definition req_isSecure :: "Request \<Rightarrow> bool" where "req_isSecure r = isSet (req_flags r) SECURE"
definition isPTWalk :: "Request \<Rightarrow> bool" where "isPTWalk r = isSet (req_flags r) PT_WALK"
definition isAcquire :: "Request \<Rightarrow> bool" where "isAcquire r = isSet (req_flags r) ACQUIRE"
definition isRelease :: "Request \<Rightarrow> bool" where "isRelease r = isSet (req_flags r) RELEASE"
definition isKernel :: "Request \<Rightarrow> bool" where "isKernel r = isSet (req_flags r) KERNEL"
definition isAtomicReturn :: "Request \<Rightarrow> bool" where "isAtomicReturn r = isSet (req_flags r) ATOMIC_RETURN_OP"
definition isAtomicNoReturn :: "Request \<Rightarrow> bool" where "isAtomicNoReturn r = isSet (req_flags r) ATOMIC_NO_RETURN_OP"
definition isToPOU :: "Request \<Rightarrow> bool" where "isToPOU r = isSet (req_flags r) DST_POU"
definition isToPOC :: "Request \<Rightarrow> bool" where "isToPOC r = isSet (req_flags r) DST_POC"
definition isCacheClean :: "Request \<Rightarrow> bool" where "isCacheClean r = isSet (req_flags r) CLEAN"
definition isCacheInvalidate :: "Request \<Rightarrow> bool" where "isCacheInvalidate r = isSet (req_flags r) INVALIDATE"

definition req_isPrefetch :: "Request \<Rightarrow> bool" where
  "req_isPrefetch r \<longleftrightarrow> isSet (req_flags r) PREFETCH \<or> isSet (req_flags r) PF_EXCLUSIVE"

definition isSwap :: "Request \<Rightarrow> bool" where
  "isSwap r = isSet (req_flags r) (MEM_SWAP OR MEM_SWAP_COND)"

definition isAtomic :: "Request \<Rightarrow> bool" where
  "isAtomic r \<longleftrightarrow> isSet (req_flags r) ATOMIC_RETURN_OP \<or> isSet (req_flags r) ATOMIC_NO_RETURN_OP"

definition isCacheMaintenance :: "Request \<Rightarrow> bool" where
  "isCacheMaintenance r = isSet (req_flags r) (CLEAN OR INVALIDATE)"

definition splitOnVaddr :: "Addr \<Rightarrow> Request \<Rightarrow> (Request \<times> Request) res" where
  "splitOnVaddr split_addr r =
     assertR (isSet (privateFlags r) VALID_VADDR)
     (assertR (noneSet (privateFlags r) VALID_PADDR)
     (assertR (split_addr > req_vaddr r \<and> split_addr < req_vaddr r + ucast (req_size r))
       (let req1 = r\<lparr>req_size := ucast (split_addr - req_vaddr r)\<rparr>;
            req2 = r\<lparr>req_vaddr := split_addr, req_size := req_size r - req_size req1\<rparr>
        in ok (req1, req2))))"

section \<open>What a request remembers\<close>

lemmas req_flag_defs = hasPaddr_def hasVaddr_def hasSize_def hasContextId_def hasPC_def
  hasInstSeqNum_def extraDataValid_def

lemmas req_setter_defs = setPhys_def setVirt_def setContext_def setPaddr_def setPC_def
  setReqInstSeqNum_def setExtraData_def

lemma Request_phys_reads:
  "getPaddr (Request_phys a sz fl mid now) = Inr a"
  "getReqSize (Request_phys a sz fl mid now) = Inr sz"
  "getTime (Request_phys a sz fl mid now) = Inr now"
  "\<not> hasVaddr (Request_phys a sz fl mid now)"
  "\<not> hasContextId (Request_phys a sz fl mid now)"
  "req_flags (Request_phys a sz fl mid now) = fl"
  "req_masterId (Request_phys a sz fl mid now) = mid"
  "req_paddr (Request_phys a sz fl mid now) = a"
  by (simp_all add: Request_phys_def setPhys_def Request_default_def getPaddr_def getReqSize_def
      getTime_def assertR_def req_flag_defs set_flags_def clear_flags_def isSet_def)

text \<open>Reusing a request object for a new physical access: afterwards the physical address and the size
  are readable, every other optional field is invalid again except the context identifier, which
  survives exactly if it was set, and of the old flags only the instruction-fetch flag is kept.\<close>
theorem setPhys_reuse:
  "let r' = setPhys a sz fl mid t r in
    getPaddr r' = Inr a \<and> getReqSize r' = Inr sz \<and> hasContextId r' = hasContextId r \<and>
    \<not> hasVaddr r' \<and> \<not> hasPC r' \<and> \<not> hasInstSeqNum r' \<and> \<not> extraDataValid r' \<and>
    isSet (req_flags r') f = (isSet fl f \<or> isSet (req_flags r) (f AND INST_FETCH))"
  unfolding Let_def getPaddr_def getReqSize_def assertR_def req_flag_defs setPhys_def
  by (auto simp: flag_simps)

text \<open>The bytes a virtual request covers, as unbounded numbers.\<close>

definition vbytes :: "Request \<Rightarrow> nat set" where
  "vbytes r = {unat (req_vaddr r) ..< unat (req_vaddr r) + unat (req_size r)}"

lemma vaddr_end:
  assumes "unat (req_vaddr r) + unat (req_size r) < 2 ^ 64"
  shows "unat (req_vaddr r + ucast (req_size r)) = unat (req_vaddr r) + unat (req_size r)"
proof -
  have "unat (ucast (req_size r) :: u64) = unat (req_size r)"
    using unsigned_less [of "req_size r", where ?'a = nat]
    by (simp add: unsigned_ucast_eq take_bit_nat_eq_self)
  with assms show ?thesis by (simp add: unat_word_ariths)
qed

text \<open>Splitting a virtual request that does not wrap around the address space, at an address strictly
  inside it, succeeds; the two halves are not empty, are disjoint, cover exactly the bytes of the
  original, and keep its flags, requestor, context and time.\<close>
theorem splitOnVaddr_partition:
  assumes "hasVaddr r" "\<not> hasPaddr r" "unat (req_vaddr r) + unat (req_size r) < 2 ^ 64"
    and "unat split \<in> vbytes r" "split \<noteq> req_vaddr r"
  shows "\<exists>r1 r2. splitOnVaddr split r = Inr (r1, r2) \<and>
    vbytes r = vbytes r1 \<union> vbytes r2 \<and> vbytes r1 \<inter> vbytes r2 = {} \<and> vbytes r1 \<noteq> {} \<and> vbytes r2 \<noteq> {} \<and>
    req_flags r1 = req_flags r \<and> req_flags r2 = req_flags r \<and>
    privateFlags r1 = privateFlags r \<and> privateFlags r2 = privateFlags r \<and>
    req_contextId r1 = req_contextId r \<and> req_contextId r2 = req_contextId r"
proof -
  let ?n = "unat (split - req_vaddr r)"
  let ?r1 = "r\<lparr>req_size := ucast (split - req_vaddr r)\<rparr>"
  let ?r2 = "r\<lparr>req_vaddr := split, req_size := req_size r - ucast (split - req_vaddr r)\<rparr>"
  have le: "unat (req_vaddr r) \<le> unat split" "unat split < unat (req_vaddr r) + unat (req_size r)"
    using assms(4) by (auto simp: vbytes_def)
  then have gt: "req_vaddr r < split" using assms(5) by (metis le(1) order_less_le word_le_nat_alt)
  have lt: "split < req_vaddr r + ucast (req_size r)"
    unfolding word_less_nat_alt vaddr_end [OF assms(3)] by (rule le(2))
  have n: "?n = unat split - unat (req_vaddr r)" using le(1) by (simp add: unat_sub word_le_nat_alt)
  have s1: "unat (ucast (split - req_vaddr r) :: u32) = ?n"
    using n le unsigned_less [of "req_size r", where ?'a = nat]
    by (simp add: unsigned_ucast_eq take_bit_nat_eq_self)
  have s2: "unat (req_size r - ucast (split - req_vaddr r)) = unat (req_size r) - ?n"
    using s1 n le by (simp add: unat_sub word_le_nat_alt)
  have "splitOnVaddr split r = Inr (?r1, ?r2)"
    using assms(1,2) gt lt by (simp add: splitOnVaddr_def assertR_def hasVaddr_def hasPaddr_def flag_simps)
  moreover have "vbytes ?r1 = {unat (req_vaddr r) ..< unat split}"
    using n s1 le by (simp add: vbytes_def)
  moreover have "vbytes ?r2 = {unat split ..< unat (req_vaddr r) + unat (req_size r)}"
    using n s2 le by (simp add: vbytes_def add.commute)
  moreover have "unat (req_vaddr r) < unat split" using gt by (simp add: word_less_nat_alt)
  ultimately show ?thesis
    using le by (intro exI [of _ ?r1] exI [of _ ?r2]) (auto simp: vbytes_def)
qed

theorem splitOnVaddr_partition_witness:
  "\<exists>r1 r2. splitOnVaddr 0x1040 (Request_virt 0 0x103c 8 0 1 0 0 0) = Inr (r1, r2) \<and>
    vbytes r1 \<inter> vbytes r2 = {}"
proof -
  have "hasVaddr (Request_virt 0 0x103c 8 0 1 0 0 0)" "\<not> hasPaddr (Request_virt 0 0x103c 8 0 1 0 0 0)"
    "unat (0x1040 :: u64) \<in> vbytes (Request_virt 0 0x103c 8 0 1 0 0 0)"
    "unat (req_vaddr (Request_virt 0 0x103c 8 0 1 0 0 0)) +
       unat (req_size (Request_virt 0 0x103c 8 0 1 0 0 0)) < 2 ^ 64"
    "(0x1040 :: u64) \<noteq> req_vaddr (Request_virt 0 0x103c 8 0 1 0 0 0)"
    by (simp_all add: Request_virt_def setVirt_def setContext_def Request_default_def req_flag_defs
        isSet_def set_flags_def clear_flags_def vbytes_def)
  from splitOnVaddr_partition [OF this(1,2,4,3,5)] show ?thesis by blast
qed

end
