(* ===== verification/Mem_Packet.thy ===== *)
theory Mem_Packet
  imports Mem_Cmd Mem_Request
begin

text \<open>
  The class \<^verbatim>\<open>Packet\<close> of \<^verbatim>\<open>src/mem/packet.hh\<close> and \<^verbatim>\<open>src/mem/packet.cc\<close>: the
  message that carries a request through the memory system and comes back as its response. A packet
  is a value here: the data pointer is the buffer it points to, which is exact for data owned by the
  packet, and the chain of sender states linked by \<^verbatim>\<open>predecessor\<close> is a list, the current one
  first. The sender state of the PIM traffic is the record \<open>PIMSenderState\<close>; other agents' states
  are opaque. The timing annotations (delays, QoS value) and the printing of labels are left out.
  The lemmas treat the turn-around of a request into a response, the stack of sender states, the
  endian conversions, and functional accesses against a value in flight.
\<close>

section \<open>Sender states\<close>

datatype PIMCommandKind = CheckReady | Registration | Complete | DataResp | Control

record PIMSenderState =
  ps_cycle :: Tick
  ps_id :: int
  ps_pid :: int
  ps_procid :: int
  ps_threadid :: int
  ps_physical :: bool
  ps_command :: PIMCommandKind
  ps_addr :: "Addr list"

text \<open>
  The constructors. None of them initialises \<^verbatim>\<open>threadid\<close>, and the one that builds a completion
  leaves \<^verbatim>\<open>cycle\<close> unset too: the value the fields happen to have is the argument \<open>junk\<close>.
\<close>

definition PIMSenderState_vector :: "int \<Rightarrow> Tick \<Rightarrow> Addr list \<Rightarrow> int \<Rightarrow> PIMSenderState" where
  "PIMSenderState_vector junk tick addrs i = \<lparr>ps_cycle = tick, ps_id = i, ps_pid = 0, ps_procid = -1,
     ps_threadid = junk, ps_physical = True, ps_command = Control, ps_addr = addrs\<rparr>"

definition PIMSenderState_virtual :: "int \<Rightarrow> Tick \<Rightarrow> Addr \<Rightarrow> Addr \<Rightarrow> Addr \<Rightarrow> int \<Rightarrow> PIMSenderState" where
  "PIMSenderState_virtual junk tick a1 a2 a3 i = \<lparr>ps_cycle = tick, ps_id = i, ps_pid = 0,
     ps_procid = -1, ps_threadid = junk, ps_physical = False, ps_command = Control,
     ps_addr = [a1, a2, a3]\<rparr>"

definition PIMSenderState_complete :: "int \<Rightarrow> Addr \<Rightarrow> Addr \<Rightarrow> Addr \<Rightarrow> int \<Rightarrow> PIMSenderState" where
  "PIMSenderState_complete junk a1 a2 a3 i = \<lparr>ps_cycle = word_of_int junk, ps_id = i, ps_pid = 0,
     ps_procid = -1, ps_threadid = junk, ps_physical = True, ps_command = Complete,
     ps_addr = [a1, a2, a3]\<rparr>"

definition PIMSenderState_ids :: "int \<Rightarrow> int \<Rightarrow> int \<Rightarrow> PIMSenderState" where
  "PIMSenderState_ids junk pid procid = \<lparr>ps_cycle = 0, ps_id = -1, ps_pid = pid, ps_procid = procid,
     ps_threadid = junk, ps_physical = False, ps_command = Control, ps_addr = []\<rparr>"

definition setCommand :: "PIMCommandKind \<Rightarrow> PIMSenderState \<Rightarrow> PIMSenderState" where
  "setCommand c s = s\<lparr>ps_command := c\<rparr>"

definition isCheck :: "PIMSenderState \<Rightarrow> bool" where "isCheck s \<longleftrightarrow> ps_command s = CheckReady"
definition isRegistration :: "PIMSenderState \<Rightarrow> bool" where "isRegistration s \<longleftrightarrow> ps_command s = Registration"
definition isResp :: "PIMSenderState \<Rightarrow> bool" where "isResp s \<longleftrightarrow> ps_command s = DataResp"
definition isComplete :: "PIMSenderState \<Rightarrow> bool" where "isComplete s \<longleftrightarrow> ps_command s = Complete"

datatype SenderState = PIMState PIMSenderState | PrintState | OtherState nat

section \<open>The packet\<close>

abbreviation COPY_FLAGS :: u32 where "COPY_FLAGS \<equiv> 0x3F"
abbreviation HAS_SHARERS :: u32 where "HAS_SHARERS \<equiv> 0x1"
abbreviation EXPRESS_SNOOP :: u32 where "EXPRESS_SNOOP \<equiv> 0x2"
abbreviation RESPONDER_HAD_WRITABLE :: u32 where "RESPONDER_HAD_WRITABLE \<equiv> 0x4"
abbreviation CACHE_RESPONDING :: u32 where "CACHE_RESPONDING \<equiv> 0x8"
abbreviation WRITE_THROUGH :: u32 where "WRITE_THROUGH \<equiv> 0x10"
abbreviation SATISFIED :: u32 where "SATISFIED \<equiv> 0x20"
abbreviation VALID_ADDR :: u32 where "VALID_ADDR \<equiv> 0x100"
abbreviation VALID_SIZE :: u32 where "VALID_SIZE \<equiv> 0x200"
abbreviation STATIC_DATA :: u32 where "STATIC_DATA \<equiv> 0x1000"
abbreviation DYNAMIC_DATA :: u32 where "DYNAMIC_DATA \<equiv> 0x2000"
abbreviation SUPPRESS_FUNC_ERROR :: u32 where "SUPPRESS_FUNC_ERROR \<equiv> 0x8000"
abbreviation BLOCK_CACHED :: u32 where "BLOCK_CACHED \<equiv> 0x10000"

record Packet =
  pcmd :: Command
  pflags :: u32
  preq :: Request
  pdata :: "u8 list"
  paddr :: Addr
  pIsSecure :: bool
  psize :: u32
  bytesValid :: "bool list"
  senderState :: "SenderState list"

definition set_pflags :: "u32 \<Rightarrow> Packet \<Rightarrow> Packet" where
  "set_pflags f p = p\<lparr>pflags := set_flags f (pflags p)\<rparr>"

definition clear_pflags :: "u32 \<Rightarrow> Packet \<Rightarrow> Packet" where
  "clear_pflags f p = p\<lparr>pflags := clear_flags f (pflags p)\<rparr>"

subsection \<open>Construction\<close>

definition Packet_new :: "Request \<Rightarrow> Command \<Rightarrow> Packet" where
  "Packet_new req c =
     (let p = \<lparr>pcmd = c, pflags = 0, preq = req, pdata = [], paddr = 0, pIsSecure = False,
               psize = 0, bytesValid = [], senderState = []\<rparr>;
          p = (if hasPaddr req
               then set_pflags VALID_ADDR (p\<lparr>paddr := req_paddr req, pIsSecure := req_isSecure req\<rparr>)
               else p)
      in if hasSize req then set_pflags VALID_SIZE (p\<lparr>psize := req_size req\<rparr>) else p)"

definition Packet_block :: "Request \<Rightarrow> Command \<Rightarrow> int \<Rightarrow> Packet" where
  "Packet_block req c blkSize =
     (let p = \<lparr>pcmd = c, pflags = 0, preq = req, pdata = [], paddr = 0, pIsSecure = False,
               psize = 0, bytesValid = [], senderState = []\<rparr>;
          p = (if hasPaddr req
               then set_pflags VALID_ADDR
                 (p\<lparr>paddr := req_paddr req AND NOT (word_of_int (blkSize - 1)),
                    pIsSecure := req_isSecure req\<rparr>)
               else p)
      in set_pflags VALID_SIZE (p\<lparr>psize := word_of_int blkSize\<rparr>))"

definition hasRespData :: "Packet \<Rightarrow> bool" where
  "hasRespData p = hasData (responseCommand (pcmd p))"

definition getSize :: "Packet \<Rightarrow> u32 res" where
  "getSize p = assertR (isSet (pflags p) VALID_SIZE) (ok (psize p))"

text \<open>A fresh buffer has unspecified contents: the argument \<open>fill\<close> supplies them.\<close>

definition allocate :: "u8 \<Rightarrow> Packet \<Rightarrow> Packet res" where
  "allocate fill p =
     (if hasData (pcmd p) \<or> hasRespData p then
        assertR (noneSet (pflags p) (STATIC_DATA OR DYNAMIC_DATA))
          (bindR (getSize p) (\<lambda>n.
             ok ((set_pflags DYNAMIC_DATA p)\<lparr>pdata := replicate (unat n) fill\<rparr>)))
      else ok p)"

definition Packet_copy :: "u8 \<Rightarrow> Packet \<Rightarrow> bool \<Rightarrow> bool \<Rightarrow> Packet res" where
  "Packet_copy fill pkt clr alloc_data =
     (let fl = (if \<not> clr then pflags pkt AND COPY_FLAGS else 0);
          fl = set_flags (pflags pkt AND (VALID_ADDR OR VALID_SIZE)) fl;
          p = pkt\<lparr>pflags := fl, pdata := []\<rparr>
      in if alloc_data then
           (if isSet (pflags pkt) STATIC_DATA
            then ok ((set_pflags STATIC_DATA p)\<lparr>pdata := pdata pkt\<rparr>)
            else allocate fill p)
         else ok p)"

definition makeReadCmd :: "Request \<Rightarrow> Command" where
  "makeReadCmd req =
     (if req_isLLSC req then LoadLockedReq
      else if isPrefetchEx req then SoftPFExReq
      else if req_isPrefetch req then SoftPFReq
      else ReadReq)"

definition makeWriteCmd :: "Request \<Rightarrow> Command" where
  "makeWriteCmd req =
     (if req_isLLSC req then StoreCondReq
      else if isSwap req \<or> isAtomic req then SwapReq
      else if isCacheInvalidate req then (if isCacheClean req then CleanInvalidReq else InvalidateReq)
      else if isCacheClean req then CleanSharedReq
      else WriteReq)"

definition createRead :: "Request \<Rightarrow> Packet" where
  "createRead req = Packet_new req (makeReadCmd req)"

definition createWrite :: "Request \<Rightarrow> Packet" where
  "createWrite req = Packet_new req (makeWriteCmd req)"

subsection \<open>Flags\<close>

definition setCacheResponding :: "Packet \<Rightarrow> Packet res" where
  "setCacheResponding p = assertR (isRequest (pcmd p))
     (assertR (\<not> isSet (pflags p) CACHE_RESPONDING) (ok (set_pflags CACHE_RESPONDING p)))"

definition cacheResponding :: "Packet \<Rightarrow> bool" where
  "cacheResponding p = isSet (pflags p) CACHE_RESPONDING"

definition responderHadWritable :: "Packet \<Rightarrow> bool" where
  "responderHadWritable p = isSet (pflags p) RESPONDER_HAD_WRITABLE"

definition setResponderHadWritable :: "Packet \<Rightarrow> Packet res" where
  "setResponderHadWritable p = assertR (cacheResponding p)
     (assertR (\<not> responderHadWritable p) (ok (set_pflags RESPONDER_HAD_WRITABLE p)))"

definition setWriteThrough :: "Packet \<Rightarrow> Packet res" where
  "setWriteThrough p = assertR (isWrite (pcmd p) \<and> (isEviction (pcmd p) \<or> pcmd p = WriteClean))
     (ok (set_pflags WRITE_THROUGH p))"

definition setSatisfied :: "Packet \<Rightarrow> Packet res" where
  "setSatisfied p = assertR (isClean (pcmd p))
     (assertR (\<not> isSet (pflags p) SATISFIED) (ok (set_pflags SATISFIED p)))"

definition pkt_needsWritable :: "Packet \<Rightarrow> bool res" where
  "pkt_needsWritable p = assertR (isRequest (pcmd p)) (ok (needsWritable (pcmd p)))"

definition setBadAddress :: "Packet \<Rightarrow> Packet res" where
  "setBadAddress p = assertR (isResponse (pcmd p)) (ok (p\<lparr>pcmd := BadAddressError\<rparr>))"

definition copyError :: "Packet \<Rightarrow> Packet \<Rightarrow> Packet res" where
  "copyError pkt p = assertR (isError (pcmd pkt)) (ok (p\<lparr>pcmd := pcmd pkt\<rparr>))"

subsection \<open>Address and size\<close>

definition getAddr :: "Packet \<Rightarrow> Addr res" where
  "getAddr p = assertR (isSet (pflags p) VALID_ADDR) (ok (paddr p))"

definition setAddr :: "Addr \<Rightarrow> Packet \<Rightarrow> Packet res" where
  "setAddr a p = assertR (isSet (pflags p) VALID_ADDR) (ok (p\<lparr>paddr := a\<rparr>))"

definition setSize :: "u32 \<Rightarrow> Packet \<Rightarrow> Packet res" where
  "setSize n p = assertR (\<not> isSet (pflags p) VALID_SIZE) (ok (set_pflags VALID_SIZE (p\<lparr>psize := n\<rparr>)))"

definition pkt_isSecure :: "Packet \<Rightarrow> bool res" where
  "pkt_isSecure p = assertR (isSet (pflags p) VALID_ADDR) (ok (pIsSecure p))"

definition blkOffset :: "u32 \<Rightarrow> Packet \<Rightarrow> Addr res" where
  "blkOffset blk_size p = bindR (getAddr p) (\<lambda>a. ok (a AND ucast (blk_size - 1)))"

definition getBlockAddr :: "u32 \<Rightarrow> Packet \<Rightarrow> Addr res" where
  "getBlockAddr blk_size p = bindR (getAddr p) (\<lambda>a. ok (a AND NOT (ucast (blk_size - 1))))"

definition isWholeLineWrite :: "u32 \<Rightarrow> Packet \<Rightarrow> bool res" where
  "isWholeLineWrite blk_size p =
     (if pcmd p = WriteReq \<or> pcmd p = WriteLineReq then
        bindR (blkOffset blk_size p) (\<lambda>off.
          if off = 0 then bindR (getSize p) (\<lambda>n. ok (n = blk_size)) else ok False)
      else ok False)"

definition mustCheckAbove :: "Packet \<Rightarrow> bool" where
  "mustCheckAbove p \<longleftrightarrow> pcmd p = HardPFReq \<or> isEviction (pcmd p)"

definition isCleanEviction :: "Packet \<Rightarrow> bool" where
  "isCleanEviction p \<longleftrightarrow> pcmd p = CleanEvict \<or> pcmd p = WritebackClean"

subsection \<open>Changing the command\<close>

definition convertScToWrite :: "Packet \<Rightarrow> Packet res" where
  "convertScToWrite p = assertR (isLLSC (pcmd p)) (assertR (isWrite (pcmd p)) (ok (p\<lparr>pcmd := WriteReq\<rparr>)))"

definition convertLlToRead :: "Packet \<Rightarrow> Packet res" where
  "convertLlToRead p = assertR (isLLSC (pcmd p)) (assertR (isRead (pcmd p)) (ok (p\<lparr>pcmd := ReadReq\<rparr>)))"

definition makeResponse :: "Packet \<Rightarrow> Packet res" where
  "makeResponse p = assertR (needsResponse (pcmd p)) (assertR (isRequest (pcmd p))
     (ok (clear_pflags EXPRESS_SNOOP (p\<lparr>pcmd := responseCommand (pcmd p)\<rparr>))))"

definition setFunctionalResponseStatus :: "bool \<Rightarrow> Packet \<Rightarrow> Packet" where
  "setFunctionalResponseStatus success p =
     (if \<not> success then
        (if isWrite (pcmd p) then p\<lparr>pcmd := FunctionalWriteError\<rparr>
         else p\<lparr>pcmd := FunctionalReadError\<rparr>)
      else p)"

subsection \<open>Sender states\<close>

definition pushSenderState :: "SenderState \<Rightarrow> Packet \<Rightarrow> Packet" where
  "pushSenderState s p = p\<lparr>senderState := s # senderState p\<rparr>"

definition popSenderState :: "Packet \<Rightarrow> (SenderState \<times> Packet) res" where
  "popSenderState p =
     (case senderState p of [] \<Rightarrow> fail AssertFailed | s # ss \<Rightarrow> ok (s, p\<lparr>senderState := ss\<rparr>))"

text \<open>\<^verbatim>\<open>dynamic_cast<PIMSenderState*>(pkt->senderState)\<close>, and the search down the stack.\<close>

definition pimState :: "Packet \<Rightarrow> PIMSenderState option" where
  "pimState p = (case senderState p of PIMState s # _ \<Rightarrow> Some s | _ \<Rightarrow> None)"

fun findPIM :: "SenderState list \<Rightarrow> PIMSenderState option" where
  "findPIM [] = None"
| "findPIM (PIMState s # ss) = Some s"
| "findPIM (PrintState # ss) = findPIM ss"
| "findPIM (OtherState n # ss) = findPIM ss"

definition findNextSenderState :: "Packet \<Rightarrow> PIMSenderState option" where
  "findNextSenderState p = findPIM (senderState p)"

subsection \<open>Data\<close>

definition dataStatic :: "u8 list \<Rightarrow> Packet \<Rightarrow> Packet res" where
  "dataStatic d p = assertR (noneSet (pflags p) (STATIC_DATA OR DYNAMIC_DATA))
     (ok ((set_pflags STATIC_DATA p)\<lparr>pdata := d\<rparr>))"

definition dataDynamic :: "u8 list \<Rightarrow> Packet \<Rightarrow> Packet res" where
  "dataDynamic d p = assertR (noneSet (pflags p) (STATIC_DATA OR DYNAMIC_DATA))
     (ok ((set_pflags DYNAMIC_DATA p)\<lparr>pdata := d\<rparr>))"

definition deleteData :: "Packet \<Rightarrow> Packet" where
  "deleteData p = (clear_pflags (STATIC_DATA OR DYNAMIC_DATA) p)\<lparr>pdata := []\<rparr>"

definition getPtr :: "Packet \<Rightarrow> u8 list res" where
  "getPtr p = assertR (isSet (pflags p) (STATIC_DATA OR DYNAMIC_DATA)) (ok (pdata p))"

text \<open>\<^verbatim>\<open>setData(p)\<close> reads \<^verbatim>\<open>getSize()\<close> bytes at an offset of a buffer, \<^verbatim>\<open>writeData(p)\<close> writes them there.\<close>

definition setData :: "u8 list \<Rightarrow> nat \<Rightarrow> Packet \<Rightarrow> Packet res" where
  "setData buf off p =
     bindR (getPtr p) (\<lambda>d. bindR (getSize p) (\<lambda>n.
     bindR (memcpy d 0 buf off (unat n)) (\<lambda>d'. ok (p\<lparr>pdata := d'\<rparr>))))"

definition writeData :: "u8 list \<Rightarrow> nat \<Rightarrow> Packet \<Rightarrow> u8 list res" where
  "writeData buf off p =
     bindR (getPtr p) (\<lambda>d. bindR (getSize p) (\<lambda>n. memcpy buf off d 0 (unat n)))"

definition setDataFromBlock :: "u8 list \<Rightarrow> u32 \<Rightarrow> Packet \<Rightarrow> Packet res" where
  "setDataFromBlock blk blkSize p = bindR (blkOffset blkSize p) (\<lambda>off. setData blk (unat off) p)"

definition writeDataToBlock :: "u8 list \<Rightarrow> u32 \<Rightarrow> Packet \<Rightarrow> u8 list res" where
  "writeDataToBlock blk blkSize p = bindR (blkOffset blkSize p) (\<lambda>off. writeData blk (unat off) p)"

datatype ByteOrder = BigEndianByteOrder | LittleEndianByteOrder

definition getUintX :: "ByteOrder \<Rightarrow> Packet \<Rightarrow> u64 res" where
  "getUintX endian p = bindR (getSize p) (\<lambda>n.
     if unat n \<in> {1, 2, 4, 8} then
       bindR (getPtr p) (\<lambda>d.
         if unat n \<le> length d then
           (let bs = take (unat n) d in
            ok (of_le_bytes (if endian = LittleEndianByteOrder then bs else rev bs)))
         else fail OutOfRange)
     else fail Panicked)"

definition setUintX :: "u64 \<Rightarrow> ByteOrder \<Rightarrow> Packet \<Rightarrow> Packet res" where
  "setUintX w endian p = bindR (getSize p) (\<lambda>n.
     if unat n \<in> {1, 2, 4, 8} then
       bindR (getPtr p) (\<lambda>d.
         (let bs = le_bytes (unat n) w;
              bs = (if endian = LittleEndianByteOrder then bs else rev bs)
          in bindR (memcpy d 0 bs 0 (unat n)) (\<lambda>d'. ok (p\<lparr>pdata := d'\<rparr>))))
     else fail Panicked)"

subsection \<open>Functional accesses against a value in flight\<close>

text \<open>
  One loop over the tracked bytes: \<^verbatim>\<open>for (; all && i < n; ++i) all &= bytesValid[i]\<close>.
\<close>

function scan_valid :: "bool list \<Rightarrow> nat \<Rightarrow> nat \<Rightarrow> bool \<Rightarrow> bool" where
  "scan_valid bv i n all = (if all \<and> i < n then scan_valid bv (Suc i) n (bv ! i) else all)"
  by pat_completeness auto
termination by (relation "measure (\<lambda>(bv, i, n, all). n - i)") auto

declare scan_valid.simps [simp del]

fun mark_valid :: "nat \<Rightarrow> nat \<Rightarrow> bool list \<Rightarrow> bool list" where
  "mark_valid i 0 bv = bv"
| "mark_valid i (Suc n) bv = mark_valid (Suc i) n (bv[i := True])"

text \<open>
  The result is the answer, the packet, and the other packet's data after the access. A print request
  prints and answers no.
\<close>

definition trySatisfyFunctional :: "Addr \<Rightarrow> bool \<Rightarrow> int \<Rightarrow> u8 list option \<Rightarrow> Packet
    \<Rightarrow> (bool \<times> Packet \<times> u8 list option) res" where
  "trySatisfyFunctional addr is_secure sz dat p =
     bindR (getAddr p) (\<lambda>func_start. bindR (getSize p) (\<lambda>fsize.
     (let func_end = func_start + ucast fsize - 1;
          val_start = addr;
          val_end = val_start + word_of_int sz - 1
      in if is_secure \<noteq> pIsSecure p \<or> func_start > val_end \<or> val_start > func_end
         then ok (False, p, dat)
         else if isPrint (pcmd p) then assertR (dat = None) (ok (False, p, dat))
         else (case dat of
           None \<Rightarrow> ok (False, p, dat)
         | Some d \<Rightarrow>
             (let val_offset = (if func_start > val_start then func_start - val_start else 0);
                  func_offset = (if func_start < val_start then val_start - func_start else 0);
                  overlap_size = min val_end func_end + 1 - max val_start func_start;
                  fo = unat func_offset; vo = unat val_offset; n = unat overlap_size
              in if isRead (pcmd p) then
                   bindR (getPtr p) (\<lambda>buf. bindR (memcpy buf fo d vo n) (\<lambda>buf'.
                     (let bv = (if bytesValid p = [] then replicate (unat fsize) False
                                else bytesValid p);
                          all1 = scan_valid bv 0 fo True;
                          bv' = mark_valid fo n bv;
                          all2 = scan_valid bv' (fo + n) (unat fsize) all1
                      in ok (all2, p\<lparr>pdata := buf', bytesValid := bv'\<rparr>, dat))))
                 else if isWrite (pcmd p) then
                   bindR (getPtr p) (\<lambda>buf. bindR (memcpy d vo buf fo n) (\<lambda>d'.
                     ok (False, p, Some d')))
                 else fail Panicked)))))"

section \<open>Responses and the stack of sender states\<close>

lemma makeResponse_keeps:
  assumes "makeResponse p = Inr q"
  shows "paddr q = paddr p" "psize q = psize p" "pdata q = pdata p" "senderState q = senderState p"
    "preq q = preq p" "pcmd q = responseCommand (pcmd p)"
  using assms by (auto simp: makeResponse_def assertR_def clear_pflags_def split: if_splits)

lemma push_pop: "popSenderState (pushSenderState s p) = Inr (s, p)"
  by (simp add: popSenderState_def pushSenderState_def)

text \<open>A request carried through two agents that each push a sender state comes back, after it was
  turned into a response, with exactly the states that were pushed, last one first; popping both
  leaves the stack the requester had, and the requester finds its own state, the response command
  the table names, the address, the size and the data unchanged.\<close>
theorem sender_states_round_trip:
  assumes "needsResponse (pcmd p)" "isRequest (pcmd p)"
  shows "\<exists>q q1. makeResponse (pushSenderState s2 (pushSenderState s1 p)) = Inr q \<and>
    popSenderState q = Inr (s2, q1) \<and>
    (\<exists>q2. popSenderState q1 = Inr (s1, q2) \<and> senderState q2 = senderState p \<and>
      pcmd q2 = responseCommand (pcmd p) \<and> paddr q2 = paddr p \<and> psize q2 = psize p \<and>
      pdata q2 = pdata p \<and> \<not> isSet (pflags q2) EXPRESS_SNOOP)"
  using assms
  by (simp add: makeResponse_def assertR_def pushSenderState_def popSenderState_def clear_pflags_def
      flag_simps)

theorem sender_states_round_trip_witness:
  "\<exists>q q1. makeResponse (pushSenderState (OtherState 1)
      (pushSenderState (PIMState (PIMSenderState_ids 0 3 2)) (Packet_new (Request_phys 64 8 0 0 0) PIMRead))) = Inr q \<and>
    popSenderState q = Inr (OtherState 1, q1)"
  using sender_states_round_trip [of "Packet_new (Request_phys 64 8 0 0 0) PIMRead" "OtherState 1"
      "PIMState (PIMSenderState_ids 0 3 2)"]
  by (auto simp: Packet_new_def Let_def set_pflags_def)

section \<open>Endian conversion\<close>

lemma getSize_pdata [simp]: "getSize (p\<lparr>pdata := d\<rparr>) = getSize p"
  by (simp add: getSize_def)

lemma getPtr_pdata: "getPtr p = Inr d \<Longrightarrow> getPtr (p\<lparr>pdata := d'\<rparr>) = Inr d'"
  by (auto simp: getPtr_def assertR_def split: if_splits)

text \<open>A value stored in a packet of 1, 2, 4 or 8 bytes and read back in the same byte order is the
  value truncated to the size of the packet, for both byte orders.\<close>
theorem setUintX_getUintX:
  assumes "getSize p = Inr n" "unat n \<in> {1, 2, 4, 8}" "getPtr p = Inr d" "unat n \<le> length d"
  shows "\<exists>q. setUintX w e p = Inr q \<and> getUintX e q = Inr (take_bit (8 * unat n) w)"
proof -
  let ?bs = "le_bytes (unat n) w"
  let ?cs = "if e = LittleEndianByteOrder then ?bs else rev ?bs"
  let ?q = "p\<lparr>pdata := ?cs @ drop (unat n) d\<rparr>"
  have c: "length ?cs = unat n" by simp
  have cp: "memcpy d 0 ?cs 0 (unat n) = Inr (?cs @ drop (unat n) d)"
    using assms(4) c unfolding memcpy_def by simp
  have set: "setUintX w e p = Inr ?q"
    unfolding setUintX_def assms(1,3) bindR_simps Let_def cp using assms(2) by (rule if_P)
  have q: "getSize ?q = Inr n" "getPtr ?q = Inr (?cs @ drop (unat n) d)"
    by (simp_all only: getSize_pdata assms(1) getPtr_pdata [OF assms(3)])
  have t: "take (unat n) (?cs @ drop (unat n) d) = ?cs" by simp
  have "getUintX e ?q = Inr (of_le_bytes (if e = LittleEndianByteOrder then ?cs else rev ?cs))"
    unfolding getUintX_def q bindR_simps t Let_def if_P [OF assms(2)] by (rule if_P) (use assms(4) c in simp)
  also have "(if e = LittleEndianByteOrder then ?cs else rev ?cs) = ?bs" by simp
  finally have "getUintX e ?q = Inr (take_bit (8 * unat n) w)" by (simp only: of_le_bytes_le_bytes)
  with set show ?thesis by (intro exI conjI)
qed

theorem setUintX_getUintX_witness:
  "\<exists>p q. setUintX 0x1234567 BigEndianByteOrder p = Inr q \<and>
     getUintX BigEndianByteOrder q = Inr (take_bit 16 0x1234567)"
proof -
  let ?p = "(Packet_new (Request_phys 64 2 0 0 0) WriteReq)\<lparr>pflags := 0x2300, pdata := [0, 0]\<rparr>"
  have "getSize ?p = Inr 2" "getPtr ?p = Inr [0, 0]"
    by (simp_all add: getSize_def getPtr_def assertR_def isSet_def Packet_new_def Let_def
        set_pflags_def Request_phys_def setPhys_def Request_default_def hasSize_def hasPaddr_def
        set_flags_def clear_flags_def)
  from setUintX_getUintX [OF this(1) _ this(2), of "0x1234567" BigEndianByteOrder]
  obtain q where "setUintX 0x1234567 BigEndianByteOrder ?p = Inr q"
    "getUintX BigEndianByteOrder q = Inr (take_bit (8 * unat (2 :: u32)) 0x1234567)" by auto
  then show ?thesis by (intro exI [of _ ?p] exI [of _ q]) simp
qed

section \<open>Functional accesses\<close>

lemma scan_valid_spec: "scan_valid bv i n all \<longleftrightarrow> all \<and> (\<forall>j. i \<le> j \<and> j < n \<longrightarrow> bv ! j)"
proof (induction bv i n all rule: scan_valid.induct)
  case (1 bv i n all)
  show ?case
  proof (cases "all \<and> i < n")
    case True
    then have "scan_valid bv i n all \<longleftrightarrow> bv ! i \<and> (\<forall>j. Suc i \<le> j \<and> j < n \<longrightarrow> bv ! j)"
      using 1 by (simp add: scan_valid.simps [of bv i])
    then show ?thesis using True by (metis Suc_leI le_neq_implies_less order_refl Suc_leD)
  qed (auto simp: scan_valid.simps [of bv i])
qed

lemma mark_valid_spec:
  "length (mark_valid i n bv) = length bv \<and>
   (\<forall>j < length bv. mark_valid i n bv ! j \<longleftrightarrow> bv ! j \<or> (i \<le> j \<and> j < i + n))"
proof (induction n arbitrary: i bv)
  case (Suc n)
  have "bv[i := True] ! j \<longleftrightarrow> bv ! j \<or> j = i" if "j < length bv" for j
    using that by (cases "j = i") auto
  then show ?case using Suc.IH [of "Suc i" "bv[i := True]"] by auto
qed auto

text \<open>The offsets the code computes with wrapping arithmetic are the true ones.\<close>

lemma last_byte:
  assumes "0 < unat n" "unat s + unat n \<le> 2 ^ 64"
  shows "unat (s + n - 1 :: u64) = unat s + unat n - 1"
proof -
  have eq: "s + n - 1 = s + (n - 1)" by simp
  have "unat (n - 1) = unat n - 1" using assms(1) by (simp add: unat_minus_one unat_gt_0 word_neq_0_conv)
  then have "unat (s + (n - 1)) = (unat s + (unat n - 1)) mod 2 ^ 64" by (simp only: unat_word_ariths) simp
  then show ?thesis unfolding eq using assms by simp
qed

lemma overlap_len:
  assumes "s \<le> (e :: u64)" "unat e - unat s + 1 < 2 ^ 64"
  shows "unat (e + 1 - s) = unat e + 1 - unat s"
proof -
  have eq: "e + 1 - s = (e - s) + 1" by simp
  have "unat (e - s) = unat e - unat s" using assms(1) by (simp add: unat_sub)
  then have "unat ((e - s) + 1) = (unat e - unat s + 1) mod 2 ^ 64" by (simp only: unat_word_ariths) simp
  then show ?thesis unfolding eq using assms by (simp add: word_le_nat_alt)
qed

text \<open>
  A functional access and a value in flight that do not wrap around the address space. The offsets
  into the two buffers and the length of the overlap, as numbers.
\<close>

definition in_flight :: "Packet \<Rightarrow> Addr \<Rightarrow> nat \<Rightarrow> bool" where
  "in_flight p addr m \<longleftrightarrow> isSet (pflags p) VALID_ADDR \<and> isSet (pflags p) VALID_SIZE \<and>
     0 < unat (psize p) \<and> 0 < m \<and> m < 2 ^ 31 \<and>
     unat (paddr p) + unat (psize p) \<le> 2 ^ 64 \<and> unat addr + m \<le> 2 ^ 64"

definition overlaps :: "Packet \<Rightarrow> Addr \<Rightarrow> nat \<Rightarrow> bool" where
  "overlaps p addr m \<longleftrightarrow> unat (paddr p) < unat addr + m \<and> unat addr < unat (paddr p) + unat (psize p)"

lemma in_flight_ends:
  assumes "in_flight p addr m"
  shows "unat (paddr p + ucast (psize p) - 1) = unat (paddr p) + unat (psize p) - 1"
    "unat (addr + word_of_int (int m) - 1) = unat addr + m - 1"
proof -
  have "unat (ucast (psize p) :: u64) = unat (psize p)"
    using unsigned_less [of "psize p", where ?'a = nat]
    by (simp add: unsigned_ucast_eq take_bit_nat_eq_self)
  then show "unat (paddr p + ucast (psize p) - 1) = unat (paddr p) + unat (psize p) - 1"
    using last_byte [of "ucast (psize p)" "paddr p"] assms by (simp add: in_flight_def)
  have "unat (word_of_int (int m) :: u64) = m"
    using assms by (simp add: in_flight_def unsigned_of_nat take_bit_nat_eq_self)
  then show "unat (addr + word_of_int (int m) - 1) = unat addr + m - 1"
    using last_byte [of "word_of_int (int m)" addr] assms by (simp add: in_flight_def)
qed

lemma overlap_window:
  assumes "in_flight p addr m" "overlaps p addr m"
  defines "fe \<equiv> paddr p + ucast (psize p) - 1" and "ve \<equiv> addr + word_of_int (int m) - 1"
  shows "\<not> (paddr p > ve \<or> addr > fe)"
    "unat (if paddr p < addr then addr - paddr p else 0) = unat addr - unat (paddr p)"
    "unat (if paddr p > addr then paddr p - addr else 0) = unat (paddr p) - unat addr"
    "unat (min ve fe + 1 - max addr (paddr p)) =
       min (unat addr + m) (unat (paddr p) + unat (psize p)) - max (unat addr) (unat (paddr p))"
proof -
  note ends = in_flight_ends [OF assms(1), folded fe_def ve_def]
  show "\<not> (paddr p > ve \<or> addr > fe)"
    using assms(1,2) ends by (auto simp: word_less_nat_alt in_flight_def overlaps_def not_less)
  show "unat (if paddr p < addr then addr - paddr p else 0) = unat addr - unat (paddr p)"
    by (simp add: word_less_nat_alt unat_sub word_le_nat_alt)
  show "unat (if paddr p > addr then paddr p - addr else 0) = unat (paddr p) - unat addr"
    by (simp add: word_less_nat_alt unat_sub word_le_nat_alt)
  have mn: "unat (min ve fe) = min (unat ve) (unat fe)" and mx: "unat (max addr (paddr p)) = max (unat addr) (unat (paddr p))"
    by (simp_all add: min_def max_def word_le_nat_alt)
  have le: "max addr (paddr p) \<le> min ve fe"
    using assms(1,2) ends by (auto simp: word_le_nat_alt mn mx in_flight_def overlaps_def)
  have "unat (psize p) < 2 ^ 32" using unsigned_less [of "psize p", where ?'a = nat] by simp
  then have "unat (min ve fe) - unat (max addr (paddr p)) + 1 < 2 ^ 64"
    using assms(1) ends unfolding mn mx in_flight_def by simp
  from overlap_len [OF le this]
  show "unat (min ve fe + 1 - max addr (paddr p)) =
       min (unat addr + m) (unat (paddr p) + unat (psize p)) - max (unat addr) (unat (paddr p))"
    using assms(1) unfolding mn mx ends in_flight_def by (auto simp: min_def)
qed

lemma trySatisfyFunctional_read:
  assumes "in_flight p addr (length d)" "overlaps p addr (length d)" "isRead (pcmd p)" "\<not> isPrint (pcmd p)"
    and "getPtr p = Inr (pdata p)" "length (pdata p) = unat (psize p)"
  defines "fo \<equiv> unat addr - unat (paddr p)" and "vo \<equiv> unat (paddr p) - unat addr"
    and "n \<equiv> min (unat addr + length d) (unat (paddr p) + unat (psize p)) - max (unat addr) (unat (paddr p))"
    and "bv \<equiv> if bytesValid p = [] then replicate (unat (psize p)) False else bytesValid p"
  shows "trySatisfyFunctional addr (pIsSecure p) (int (length d)) (Some d) p =
    bindR (memcpy (pdata p) fo d vo n) (\<lambda>buf.
      ok (scan_valid (mark_valid fo n bv) (fo + n) (unat (psize p)) (scan_valid bv 0 fo True),
          p\<lparr>pdata := buf, bytesValid := mark_valid fo n bv\<rparr>, Some d))"
proof -
  have g: "getAddr p = Inr (paddr p)" "getSize p = Inr (psize p)"
    using assms(1) by (simp_all add: getAddr_def getSize_def assertR_def in_flight_def)
  note w = overlap_window [OF assms(1,2)]
  show ?thesis
    unfolding trySatisfyFunctional_def g bindR_simps Let_def w fo_def vo_def n_def bv_def assms(5) option.case
    using assms(3,4) w(1) by simp
qed

text \<open>Byte \<open>i\<close> of the access lies in the value in flight.\<close>

definition covered :: "Packet \<Rightarrow> Addr \<Rightarrow> nat \<Rightarrow> nat \<Rightarrow> bool" where
  "covered p addr m i \<longleftrightarrow> unat addr \<le> unat (paddr p) + i \<and> unat (paddr p) + i < unat addr + m"

lemma mark_valid_scan:
  assumes "length bv = k" "i + n \<le> k"
  shows "((\<forall>j < i. bv ! j) \<and> (\<forall>j. i + n \<le> j \<and> j < k \<longrightarrow> mark_valid i n bv ! j)) \<longleftrightarrow>
    (\<forall>j < k. mark_valid i n bv ! j)"
proof -
  have mv: "mark_valid i n bv ! j \<longleftrightarrow> bv ! j \<or> (i \<le> j \<and> j < i + n)" if "j < k" for j
    using mark_valid_spec [of i n bv] that assms(1) by blast
  show ?thesis using mv assms(2) by (metis le_add1 less_le_trans not_le)
qed

text \<open>C12: A functional read that overlaps a value in flight takes from it exactly the bytes it covers and
  leaves the others, remembers which of its bytes have been found so far, and answers yes exactly
  when every byte of the packet has been found, by this value or an earlier one.\<close>
theorem trySatisfyFunctional_read_exact:
  assumes "in_flight p addr (length d)" "overlaps p addr (length d)" "isRead (pcmd p)" "\<not> isPrint (pcmd p)"
    and "getPtr p = Inr (pdata p)" "length (pdata p) = unat (psize p)"
    and "bytesValid p = [] \<or> length (bytesValid p) = unat (psize p)"
  shows "\<exists>b q. trySatisfyFunctional addr (pIsSecure p) (int (length d)) (Some d) p = Inr (b, q, Some d) \<and>
    (\<forall>i < unat (psize p).
       pdata q ! i = (if covered p addr (length d) i then d ! (unat (paddr p) + i - unat addr) else pdata p ! i) \<and>
       bytesValid q ! i = (covered p addr (length d) i \<or> (bytesValid p \<noteq> [] \<and> bytesValid p ! i))) \<and>
    b = (\<forall>i < unat (psize p). bytesValid q ! i)"
proof -
  let ?fo = "unat addr - unat (paddr p)" and ?vo = "unat (paddr p) - unat addr"
  let ?n = "min (unat addr + length d) (unat (paddr p) + unat (psize p)) - max (unat addr) (unat (paddr p))"
  let ?bv = "if bytesValid p = [] then replicate (unat (psize p)) False else bytesValid p"
  have fit: "?fo + ?n \<le> length (pdata p)" "?vo + ?n \<le> length d"
    using assms(1,2,6) by (auto simp: in_flight_def overlaps_def)
  then obtain buf where buf: "memcpy (pdata p) ?fo d ?vo ?n = Inr buf" by (simp add: memcpy_def)
  have win: "?fo \<le> i \<and> i < ?fo + ?n \<longleftrightarrow> covered p addr (length d) i" if "i < unat (psize p)" for i
    using that assms(2) by (auto simp: covered_def overlaps_def)
  have ix: "?vo + (i - ?fo) = unat (paddr p) + i - unat addr" if "covered p addr (length d) i" for i
    using that by (auto simp: covered_def)
  have len: "length ?bv = unat (psize p)" using assms(7) by auto
  note mv = mark_valid_spec [of ?fo ?n ?bv, unfolded len]
  have ans: "scan_valid (mark_valid ?fo ?n ?bv) (?fo + ?n) (unat (psize p)) (scan_valid ?bv 0 ?fo True)
    \<longleftrightarrow> (\<forall>i < unat (psize p). mark_valid ?fo ?n ?bv ! i)"
    unfolding scan_valid_spec using mark_valid_scan [OF len, of ?fo ?n] fit(1) assms(6) by simp
  let ?q = "p\<lparr>pdata := buf, bytesValid := mark_valid ?fo ?n ?bv\<rparr>"
  have "pdata ?q ! i = (if covered p addr (length d) i then d ! (unat (paddr p) + i - unat addr) else pdata p ! i)"
    if "i < unat (psize p)" for i
    using nth_memcpy [OF buf, of i] that win [OF that] ix [of i] assms(6) by simp
  moreover have "bytesValid ?q ! i = (covered p addr (length d) i \<or> (bytesValid p \<noteq> [] \<and> bytesValid p ! i))"
    if "i < unat (psize p)" for i
    using mv that win [OF that] by auto
  ultimately show ?thesis
    unfolding trySatisfyFunctional_read [OF assms(1-6)] buf bindR_simps ans by auto
qed

lemma Packet_new_phys:
  "Packet_new (Request_phys a sz 0 mid now) c =
     \<lparr>pcmd = c, pflags = VALID_ADDR OR VALID_SIZE, preq = Request_phys a sz 0 mid now, pdata = [],
      paddr = a, pIsSecure = False, psize = sz, bytesValid = [], senderState = []\<rparr>"
  by (simp add: Packet_new_def Let_def set_pflags_def Request_phys_def setPhys_def Request_default_def
      hasSize_def hasPaddr_def req_isSecure_def set_flags_def clear_flags_def isSet_def)

theorem trySatisfyFunctional_read_exact_witness:
  "\<exists>b q. trySatisfyFunctional 0xFE False 4 (Some [1, 2, 3, 4])
      ((Packet_new (Request_phys 0x100 4 0 0 0) ReadReq)\<lparr>pflags := 0x2300, pdata := [9, 9, 9, 9]\<rparr>) =
      Inr (b, q, Some [1, 2, 3, 4]) \<and> \<not> b \<and> pdata q ! 0 = 3 \<and> pdata q ! 3 = 9"
proof -
  let ?p = "(Packet_new (Request_phys 0x100 4 0 0 0) ReadReq)\<lparr>pflags := 0x2300, pdata := [9, 9, 9, 9]\<rparr>"
  have flat: "paddr ?p = 0x100" "psize ?p = 4" "pIsSecure ?p = False" "pcmd ?p = ReadReq" "bytesValid ?p = []"
    "pflags ?p = 0x2300"
    by (simp_all add: Packet_new_phys)
  have cmds: "isRead ReadReq" "\<not> isPrint ReadReq" by code_simp+
  have "in_flight ?p 0xFE (length [1, 2, 3, 4 :: u8])" "overlaps ?p 0xFE (length [1, 2, 3, 4 :: u8])"
    "getPtr ?p = Inr (pdata ?p)" "length (pdata ?p) = unat (psize ?p)"
    by (simp_all add: in_flight_def overlaps_def getPtr_def assertR_def isSet_def flat)
  from trySatisfyFunctional_read_exact [OF this(1,2) _ _ this(3,4)]
  obtain b q where
    r: "trySatisfyFunctional 0xFE (pIsSecure ?p) (int (length [1, 2, 3, 4 :: u8])) (Some [1, 2, 3, 4]) ?p =
       Inr (b, q, Some [1, 2, 3, 4])"
    and bytes: "\<forall>i < unat (psize ?p).
       pdata q ! i = (if covered ?p 0xFE (length [1, 2, 3, 4 :: u8]) i
         then [1, 2, 3, 4] ! (unat (paddr ?p) + i - unat (0xFE :: u64)) else pdata ?p ! i) \<and>
       bytesValid q ! i = (covered ?p 0xFE (length [1, 2, 3, 4 :: u8]) i \<or>
         (bytesValid ?p \<noteq> [] \<and> bytesValid ?p ! i))"
    and b: "b = (\<forall>i < unat (psize ?p). bytesValid q ! i)"
    unfolding flat using cmds by blast
  from bytes [rule_format, of 0] bytes [rule_format, of 3] b r show ?thesis
    by (auto simp: flat covered_def)
qed

end
