(* ===== verification/Bitfield.thy ===== *)
theory Bitfield
  imports PIM_Prelude
begin

text \<open>
  Bit-field arithmetic of \<^verbatim>\<open>src/base/bitfield.hh\<close> at the type
  \<^verbatim>\<open>uint64_t\<close>, the one the memory system instantiates the templates at. Bit positions are C++
  \<^verbatim>\<open>int\<close>s. A shift by a negative amount or by 64 and more is undefined in C++; the lemmas below
  keep every position between 0 and 63. The lemmas give each routine its bit-wise meaning, the
  collection \<open>bitf_simps\<close> carries them to the address arithmetic of the other theories.
\<close>

named_theorems bitf_simps \<open>bit-wise meaning of the bit-field routines\<close>

section \<open>Masks and fields\<close>

definition mask64 :: "int \<Rightarrow> u64" where
  "mask64 nbits = (if nbits = 64 then - 1 else push_bit (nat nbits) 1 - 1)"

definition bits :: "u64 \<Rightarrow> int \<Rightarrow> int \<Rightarrow> u64" where
  "bits val first lst =
     (let nbits = first - lst + 1 in drop_bit (nat lst) val AND mask64 nbits)"

definition bits1 :: "u64 \<Rightarrow> int \<Rightarrow> u64" where
  "bits1 val b = bits val b b"

definition mbits :: "u64 \<Rightarrow> int \<Rightarrow> int \<Rightarrow> u64" where
  "mbits val first lst = val AND (mask64 (first + 1) AND NOT (mask64 lst))"

definition mask64_range :: "int \<Rightarrow> int \<Rightarrow> u64" where
  "mask64_range first lst = mbits (- 1) first lst"

definition sext :: "int \<Rightarrow> u64 \<Rightarrow> u64" where
  "sext N val =
     (let sign_bit = bits val (N - 1) (N - 1)
      in if sign_bit \<noteq> 0 then val OR NOT (mask64 N) else val)"

definition insertBits :: "u64 \<Rightarrow> int \<Rightarrow> int \<Rightarrow> u64 \<Rightarrow> u64" where
  "insertBits val first lst bit_val =
     (let bmask = push_bit (nat lst) (mask64 (first - lst + 1))
      in (push_bit (nat lst) bit_val AND bmask) OR (val AND NOT bmask))"

definition insertBit :: "u64 \<Rightarrow> int \<Rightarrow> u64 \<Rightarrow> u64" where
  "insertBit val b bit_val = insertBits val b b bit_val"

text \<open>The routines that assign through a reference return the new value of the variable.\<close>

definition replaceBits :: "u64 \<Rightarrow> int \<Rightarrow> int \<Rightarrow> u64 \<Rightarrow> u64" where
  "replaceBits val first lst bit_val = insertBits val first lst bit_val"

definition replaceBit :: "u64 \<Rightarrow> int \<Rightarrow> u64 \<Rightarrow> u64" where
  "replaceBit val b bit_val = insertBits val b b bit_val"

section \<open>Finding set bits\<close>

text \<open>One line of the binary searches: \<^verbatim>\<open>if (c) { acc += k; val >>= k; }\<close>.\<close>

definition halve :: "bool \<Rightarrow> nat \<Rightarrow> nat \<times> u64 \<Rightarrow> nat \<times> u64" where
  "halve c k s = (if c then (fst s + k, drop_bit k (snd s)) else s)"

definition findMsbSet :: "u64 \<Rightarrow> nat" where
  "findMsbSet val0 =
     (if val0 = 0 then 0 else
      let s = (0, val0);
          s = halve (bits (snd s) 63 32 \<noteq> 0) 32 s;
          s = halve (bits (snd s) 31 16 \<noteq> 0) 16 s;
          s = halve (bits (snd s) 15 8 \<noteq> 0) 8 s;
          s = halve (bits (snd s) 7 4 \<noteq> 0) 4 s;
          s = halve (bits (snd s) 3 2 \<noteq> 0) 2 s
      in if bits (snd s) 1 1 \<noteq> 0 then fst s + 1 else fst s)"

definition findLsbSet :: "u64 \<Rightarrow> nat" where
  "findLsbSet val0 =
     (if val0 = 0 then 64 else
      let s = (0, val0);
          s = halve (bits (snd s) 31 0 = 0) 32 s;
          s = halve (bits (snd s) 15 0 = 0) 16 s;
          s = halve (bits (snd s) 7 0 = 0) 8 s;
          s = halve (bits (snd s) 3 0 = 0) 4 s;
          s = halve (bits (snd s) 1 0 = 0) 2 s
      in if bits (snd s) 0 0 = 0 then fst s + 1 else fst s)"

definition isPow2 :: "u64 \<Rightarrow> bool" where
  "isPow2 v \<longleftrightarrow> v AND (v - 1) = 0"

definition smear :: "nat \<Rightarrow> u64 \<Rightarrow> u64" where
  "smear k val = val OR drop_bit k val"

definition alignToPowerOfTwo :: "u64 \<Rightarrow> u64" where
  "alignToPowerOfTwo val =
     smear 32 (smear 16 (smear 8 (smear 4 (smear 2 (smear 1 (val - 1)))))) + 1"

section \<open>Bit-wise meaning\<close>

lemma mask64_eq_mask: "0 \<le> n \<Longrightarrow> n \<le> 64 \<Longrightarrow> mask64 n = mask (nat n)"
  by (auto simp: mask64_def mask_eq_exp_minus_1 push_bit_eq_mult minus_1_eq_mask)

lemma bit_mask64 [bitf_simps]:
  "0 \<le> n \<Longrightarrow> n \<le> 64 \<Longrightarrow> bit (mask64 n) i \<longleftrightarrow> i < nat n"
  by (auto simp: mask64_eq_mask bit_mask_iff)

lemma bits_eq_take_drop:
  assumes "0 \<le> lst" "lst \<le> first + 1" "first \<le> 63"
  shows "bits val first lst = take_bit (nat (first - lst + 1)) (drop_bit (nat lst) val)"
  using assms by (simp add: bits_def Let_def mask64_eq_mask take_bit_eq_mask)

lemma bit_bits [bitf_simps]:
  assumes "0 \<le> lst" "lst \<le> first + 1" "first \<le> 63"
  shows "bit (bits val first lst) i \<longleftrightarrow> lst + int i \<le> first \<and> bit val (nat lst + i)"
  using assms(1,2) by (auto simp: bits_eq_take_drop [OF assms] bit_take_bit_iff bit_drop_bit_eq)

lemma bit_insertBits [bitf_simps]:
  assumes "0 \<le> lst" "lst \<le> first + 1" "first \<le> 63" "i < 64"
  shows "bit (insertBits val first lst x) i \<longleftrightarrow>
    (if lst \<le> int i \<and> int i \<le> first then bit x (i - nat lst) else bit val i)"
proof -
  have n: "0 \<le> first - lst + 1" "first - lst + 1 \<le> 64" using assms by auto
  show ?thesis
    using assms by (auto simp: insertBits_def Let_def bit_or_iff bit_and_iff bit_not_iff
        bit_push_bit_iff bit_mask64 [OF n] nat_le_iff)
qed

lemma bits_insertBits_same:
  assumes "0 \<le> lst" "lst \<le> first + 1" "first \<le> 63"
  shows "bits (insertBits val first lst x) first lst = take_bit (nat (first - lst + 1)) x"
proof (rule bit_word_eqI)
  fix i
  have "lst + int i \<le> first \<longleftrightarrow> i < nat (first - lst + 1)" using assms by auto
  then show "bit (bits (insertBits val first lst x) first lst) i \<longleftrightarrow>
      bit (take_bit (nat (first - lst + 1)) x) i"
    using assms by (auto simp: bitf_simps bit_take_bit_iff)
qed

lemma bits_less: 
  assumes "0 \<le> lst" "lst \<le> first + 1" "first \<le> 63"
  shows "unat (bits val first lst) < 2 ^ nat (first - lst + 1)"
  using assms by (simp add: bits_eq_take_drop unsigned_take_bit_eq)

lemma bits_one_neq_0: 
  assumes "0 \<le> n" "n \<le> 63"
  shows "bits val n n \<noteq> 0 \<longleftrightarrow> bit val (nat n)"
proof -
  have "bit (bits val n n) i \<longleftrightarrow> i = 0 \<and> bit val (nat n)" for i
    using assms by (auto simp: bit_bits)
  then show ?thesis by (auto simp: bit_eq_iff [of "bits val n n"])
qed

text \<open>C39: Sign extension: on a value that fits in its low N bits, \<^verbatim>\<open>sext<N>\<close> is two's-complement sign
  extension of those bits to 64 bits.\<close>
theorem sext_eq_signed_take_bit:
  assumes "1 \<le> N" "N \<le> 64" "take_bit (nat N) val = val"
  shows "sext N val = signed_take_bit (nat N - 1) val"
proof (rule bit_word_eqI)
  fix i assume "i < LENGTH(64)"
  then have i: "i < 64" by simp
  have sgn: "bits val (N - 1) (N - 1) \<noteq> 0 \<longleftrightarrow> bit val (nat N - 1)"
    using assms(1,2) by (simp add: bits_one_neq_0 nat_diff_distrib)
  have high: "\<not> bit val i" if "nat N \<le> i"
    using assms(3) that by (metis bit_take_bit_iff not_less)
  have cases_i: "i = nat N - 1 \<or> i < nat N - 1 \<or> nat N \<le> i" by linarith
  show "bit (sext N val) i \<longleftrightarrow> bit (signed_take_bit (nat N - 1) val) i"
    using i high assms(1,2) cases_i
    by (auto simp: sext_def Let_def sgn bit_or_iff bit_not_iff bit_mask64 bit_signed_take_bit_iff
        min_def not_less not_le split: if_splits)
qed

section \<open>Searching for a bit\<close>

text \<open>
  The searches narrow a window: \<open>acc\<close> bits of the original value have been shifted out, what is
  left is not 0 and fits in \<open>w\<close> bits. One line of the search halves the window.
\<close>

definition msb_window :: "u64 \<Rightarrow> nat \<Rightarrow> nat \<times> u64 \<Rightarrow> bool" where
  "msb_window x w s \<longleftrightarrow> snd s = drop_bit (fst s) x \<and> snd s \<noteq> 0 \<and> unat (snd s) < 2 ^ w"

lemma unat_drop_bit: "unat (drop_bit k (x::u64)) = unat x div 2 ^ k"
  using unat_drop_bit_eq [of k x] by (simp add: drop_bit_eq_div [of k "unat x"])

lemma msb_window_halve:
  assumes "msb_window x (k + k) s" and c: "c \<longleftrightarrow> 2 ^ k \<le> unat (snd s)"
  shows "msb_window x k (halve c k s)"
proof (cases c)
  case True
  let ?v = "snd s"
  have v: "?v = drop_bit (fst s) x" "unat ?v < 2 ^ k * 2 ^ k" "2 ^ k \<le> unat ?v"
    using assms True by (auto simp: msb_window_def power_add)
  have "unat (drop_bit k w) < 2 ^ k \<and> 0 < unat (drop_bit k w)"
    if "unat w < 2 ^ k * 2 ^ k" "2 ^ k \<le> unat w" for w :: u64
    using that by (simp add: unat_drop_bit div_less_iff_less_mult div_greater_zero_iff)
  from this [OF v(2,3)] have "unat (drop_bit k ?v) < 2 ^ k" "0 < unat (drop_bit k ?v)"
    by auto
  then show ?thesis
    using v True by (auto simp: msb_window_def halve_def add.commute simp flip: unat_gt_0)
next
  case False
  with assms show ?thesis by (auto simp: msb_window_def halve_def)
qed

lemma msb_window_final:
  assumes "msb_window x 1 s"
  shows "bit x (fst s) \<and> (\<forall>j. fst s < j \<longrightarrow> \<not> bit x j)"
proof -
  have "unat (drop_bit (fst s) x) = 1"
    using assms by (auto simp: msb_window_def less_Suc_eq numeral_2_eq_2 unat_eq_zero)
  then have one: "drop_bit (fst s) x = 1"
    by (metis unsigned_1 word_unat_eq_iff)
  have "bit x (fst s + i) \<longleftrightarrow> i = 0" for i
    using one by (metis bit_drop_bit_eq bit_1_iff comp_apply)
  then show ?thesis by (metis add.right_neutral less_imp_add_positive not_gr_zero)
qed

lemma bits_upper_neq_0:
  assumes "k + k \<le> 64" "0 < k" "unat v < 2 ^ (k + k)"
  shows "bits v (int (k + k) - 1) (int k) \<noteq> 0 \<longleftrightarrow> 2 ^ k \<le> unat v"
proof -
  have "bits v (int (k + k) - 1) (int k) = take_bit k (drop_bit k v)"
    using assms by (simp add: bits_eq_take_drop)
  moreover have "unat (take_bit k (drop_bit k v)) = unat v div 2 ^ k"
    using assms by (simp add: unsigned_take_bit_eq unat_drop_bit take_bit_nat_eq_self
        div_less_iff_less_mult power_add)
  ultimately show ?thesis
    by (metis div_greater_zero_iff unat_gt_0 zero_less_numeral zero_less_power)
qed

lemma msb_window_bits:
  assumes "msb_window x (k + k) s" "k + k \<le> 64" "0 < k" "first = int (k + k) - 1" "lst = int k"
  shows "msb_window x k (halve (bits (snd s) first lst \<noteq> 0) k s)"
proof (rule msb_window_halve [OF assms(1)])
  have "unat (snd s) < 2 ^ (k + k)" using assms(1) unfolding msb_window_def by blast
  from bits_upper_neq_0 [OF assms(2,3) this]
  show "bits (snd s) first lst \<noteq> 0 \<longleftrightarrow> 2 ^ k \<le> unat (snd s)"
    by (simp only: assms(4,5))
qed

lemma findMsbSet_correct:
  assumes "x \<noteq> 0"
  shows "bit x (findMsbSet x) \<and> (\<forall>j. findMsbSet x < j \<longrightarrow> \<not> bit x j)"
proof -
  define s1 where "s1 = halve (bits x 63 32 \<noteq> 0) 32 (0, x)"
  define s2 where "s2 = halve (bits (snd s1) 31 16 \<noteq> 0) 16 s1"
  define s3 where "s3 = halve (bits (snd s2) 15 8 \<noteq> 0) 8 s2"
  define s4 where "s4 = halve (bits (snd s3) 7 4 \<noteq> 0) 4 s3"
  define s5 where "s5 = halve (bits (snd s4) 3 2 \<noteq> 0) 2 s4"
  define s6 where "s6 = halve (bits (snd s5) 1 1 \<noteq> 0) 1 s5"
  have w0: "msb_window x 64 (0, x)"
    using assms unsigned_less [of x] by (auto simp: msb_window_def)
  have "msb_window x 32 s1" unfolding s1_def
    using msb_window_bits [of x 32 "(0, x)" 63 32] w0 by simp
  then have "msb_window x 16 s2" unfolding s2_def
    using msb_window_bits [of x 16 s1 31 16] by simp
  then have "msb_window x 8 s3" unfolding s3_def
    using msb_window_bits [of x 8 s2 15 8] by simp
  then have "msb_window x 4 s4" unfolding s4_def
    using msb_window_bits [of x 4 s3 7 4] by simp
  then have "msb_window x 2 s5" unfolding s5_def
    using msb_window_bits [of x 2 s4 3 2] by simp
  then have "msb_window x 1 s6" unfolding s6_def
    using msb_window_bits [of x 1 s5 1 1] by (simp add: numeral_2_eq_2)
  moreover have "findMsbSet x = fst s6"
    using assms
    by (simp add: findMsbSet_def Let_def s6_def halve_def [of _ "Suc 0"] flip: s1_def s2_def s3_def s4_def s5_def)
  ultimately show ?thesis using msb_window_final by metis
qed

text \<open>The search for the least set bit keeps: everything shifted out was 0, the window is not.\<close>

definition lsb_window :: "u64 \<Rightarrow> nat \<Rightarrow> nat \<times> u64 \<Rightarrow> bool" where
  "lsb_window x w s \<longleftrightarrow>
     snd s = drop_bit (fst s) x \<and> take_bit (fst s) x = 0 \<and> take_bit w (snd s) \<noteq> 0"

lemma bits_low: "0 < k \<Longrightarrow> k \<le> 64 \<Longrightarrow> bits v (int k - 1) 0 = take_bit k v"
  by (simp add: bits_eq_take_drop)

lemma take_bit_eq_0_iff_bits: "take_bit k (v::'a::len word) = 0 \<longleftrightarrow> (\<forall>j<k. \<not> bit v j)"
  by (auto simp: bit_eq_iff bit_take_bit_iff dest: bit_imp_le_length)

lemma take_bit_split_eq_0:
  "take_bit (m + k) (x::'a::len word) = 0 \<longleftrightarrow> take_bit m x = 0 \<and> take_bit k (drop_bit m x) = 0"
  (is "?l \<longleftrightarrow> ?r")
proof
  show "?l \<Longrightarrow> ?r" by (simp add: take_bit_eq_0_iff_bits bit_drop_bit_eq)
  assume r: ?r
  then have "\<not> bit x j" if "j < m + k" for j
  proof (cases "j < m")
    case False
    with that have "j - m < k" by simp
    with r have "\<not> bit (drop_bit m x) (j - m)" by (simp add: take_bit_eq_0_iff_bits)
    with False show ?thesis by (simp add: bit_drop_bit_eq)
  qed (use r in \<open>simp add: take_bit_eq_0_iff_bits\<close>)
  then show ?l by (simp add: take_bit_eq_0_iff_bits)
qed

lemma lsb_window_halve:
  assumes "lsb_window x (k + k) s" and "0 < k" "k \<le> 64" "first = int k - 1"
  shows "lsb_window x k (halve (bits (snd s) first 0 = 0) k s)"
  using assms take_bit_split_eq_0 [of "fst s" k x] take_bit_split_eq_0 [of k k "snd s"]
  by (cases "take_bit k (snd s) = 0")
     (auto simp: lsb_window_def halve_def bits_low add.commute)

lemma lsb_window_final:
  assumes "lsb_window x 1 s"
  shows "bit x (fst s) \<and> (\<forall>j<fst s. \<not> bit x j)"
  using assms unfolding lsb_window_def take_bit_eq_0_iff_bits by (auto simp: bit_drop_bit_eq)

text \<open>The binary search for the least set bit of a word that is not 0 finds it: that bit is set and
  none below it is.\<close>
theorem findLsbSet_correct:
  assumes "x \<noteq> 0"
  shows "bit x (findLsbSet x) \<and> (\<forall>j<findLsbSet x. \<not> bit x j)"
proof -
  define s1 where "s1 = halve (bits x 31 0 = 0) 32 (0, x)"
  define s2 where "s2 = halve (bits (snd s1) 15 0 = 0) 16 s1"
  define s3 where "s3 = halve (bits (snd s2) 7 0 = 0) 8 s2"
  define s4 where "s4 = halve (bits (snd s3) 3 0 = 0) 4 s3"
  define s5 where "s5 = halve (bits (snd s4) 1 0 = 0) 2 s4"
  define s6 where "s6 = halve (bits (snd s5) 0 0 = 0) 1 s5"
  have "lsb_window x 64 (0, x)"
    using assms by (simp add: lsb_window_def take_bit_word_eq_self)
  then have "lsb_window x 32 s1" unfolding s1_def
    using lsb_window_halve [of x 32 "(0, x)" 31] by simp
  then have "lsb_window x 16 s2" unfolding s2_def
    using lsb_window_halve [of x 16 s1 15] by simp
  then have "lsb_window x 8 s3" unfolding s3_def
    using lsb_window_halve [of x 8 s2 7] by simp
  then have "lsb_window x 4 s4" unfolding s4_def
    using lsb_window_halve [of x 4 s3 3] by simp
  then have "lsb_window x 2 s5" unfolding s5_def
    using lsb_window_halve [of x 2 s4 1] by simp
  then have "lsb_window x 1 s6" unfolding s6_def
    using lsb_window_halve [of x 1 s5 0] by (simp add: numeral_2_eq_2)
  moreover have "findLsbSet x = fst s6"
    using assms
    by (simp add: findLsbSet_def Let_def s6_def halve_def [of _ "Suc 0"]
        flip: s1_def s2_def s3_def s4_def s5_def)
  ultimately show ?thesis using lsb_window_final by metis
qed

section \<open>Rounding up to a power of two\<close>

lemma bit_smear: "bit (smear k v) i \<longleftrightarrow> bit v i \<or> bit v (i + k)"
  by (simp add: smear_def bit_or_iff bit_drop_bit_eq add.commute)

lemma bit_smear_below:
  assumes "\<And>i. bit v i \<longleftrightarrow> (\<exists>d<k. bit w (i + d))"
  shows "bit (smear k v) i \<longleftrightarrow> (\<exists>d<k + k. bit w (i + d))"
proof -
  have "(\<exists>d<k. bit w (i + d)) \<or> (\<exists>d<k. bit w (i + k + d)) \<longleftrightarrow> (\<exists>d<k + k. bit w (i + d))"
    (is "?l \<longleftrightarrow> ?r")
  proof
    show "?l \<Longrightarrow> ?r" by (metis add.assoc nat_add_left_cancel_less trans_less_add1)
    assume ?r
    then obtain d where d: "d < k + k" "bit w (i + d)" by auto
    show ?l
    proof (cases "d < k")
      case False
      with d have "d - k < k \<and> bit w (i + k + (d - k))" by simp
      then show ?thesis by blast
    qed (use d in auto)
  qed
  with assms show ?thesis by (simp add: bit_smear)
qed

lemma bit_smeared:
  "bit (smear 32 (smear 16 (smear 8 (smear 4 (smear 2 (smear 1 w)))))) i \<longleftrightarrow> (\<exists>d. bit w (i + d))"
proof -
  have s0: "bit w i \<longleftrightarrow> (\<exists>d<1. bit w (i + d))" for i by simp
  have "bit (smear 1 w) i \<longleftrightarrow> (\<exists>d<2. bit w (i + d))" for i
    using bit_smear_below [OF s0] by (simp add: numeral_2_eq_2)
  then have "bit (smear 2 (smear 1 w)) i \<longleftrightarrow> (\<exists>d<4. bit w (i + d))" for i
    using bit_smear_below [of "smear 1 w" 2 w] by simp
  then have "bit (smear 4 (smear 2 (smear 1 w))) i \<longleftrightarrow> (\<exists>d<8. bit w (i + d))" for i
    using bit_smear_below [of _ 4 w] by simp
  then have "bit (smear 8 (smear 4 (smear 2 (smear 1 w)))) i \<longleftrightarrow> (\<exists>d<16. bit w (i + d))" for i
    using bit_smear_below [of _ 8 w] by simp
  then have "bit (smear 16 (smear 8 (smear 4 (smear 2 (smear 1 w))))) i \<longleftrightarrow> (\<exists>d<32. bit w (i + d))" for i
    using bit_smear_below [of _ 16 w] by simp
  then have "bit (smear 32 (smear 16 (smear 8 (smear 4 (smear 2 (smear 1 w)))))) i
      \<longleftrightarrow> (\<exists>d<64. bit w (i + d))"
    using bit_smear_below [of _ 32 w] by simp
  also have "\<dots> \<longleftrightarrow> (\<exists>d. bit w (i + d))"
  proof -
    have "d < 64" if "bit w (i + d)" for d
      using bit_imp_le_length [OF that] by simp
    then show ?thesis by blast
  qed
  finally show ?thesis .
qed

lemma msb_unat_bounds:
  assumes "bit x m" "\<forall>j. m < j \<longrightarrow> \<not> bit x j"
  shows "2 ^ m \<le> unat (x::u64) \<and> unat x < 2 ^ Suc m \<and> m < 64"
proof (intro conjI)
  have "bit (drop_bit m x) 0" using assms(1) by (simp add: bit_drop_bit_eq)
  then have "drop_bit m x \<noteq> 0" by (cases "drop_bit m x = 0") simp_all
  then have "0 < unat x div 2 ^ m" by (metis unat_drop_bit unat_gt_0)
  then show "2 ^ m \<le> unat x" by (simp add: div_greater_zero_iff)
  have "x = take_bit (Suc m) x"
    using assms(2) by (auto intro!: bit_word_eqI simp: bit_take_bit_iff not_less_eq)
  then have "unat x = take_bit (Suc m) (unat x)" by (metis unsigned_take_bit_eq)
  then show "unat x < 2 ^ Suc m" by (metis take_bit_nat_less_exp)
  show "m < 64" using bit_imp_le_length [OF assms(1)] by simp
qed

text \<open>C40: Smearing the bits of a size between 1 and 2^63 and adding one gives the least power of two
  that is not below it.\<close>
theorem alignToPowerOfTwo_correct:
  assumes "1 \<le> unat val" "unat val \<le> 2 ^ 63"
  shows "\<exists>k\<le>63. alignToPowerOfTwo val = 2 ^ k \<and> unat val \<le> 2 ^ k \<and>
    (\<forall>j. unat val \<le> 2 ^ j \<longrightarrow> k \<le> j)"
proof -
  let ?w = "val - 1"
  have uw: "unat ?w = unat val - 1"
    using assms(1) by (metis One_nat_def unat_gt_0 unat_minus_one less_eq_Suc_le neq0_conv unat_0)
  show ?thesis
  proof (cases "?w = 0")
    case True
    then have "alignToPowerOfTwo val = 2 ^ 0" and "unat val \<le> 2 ^ 0"
      using uw by (simp_all add: alignToPowerOfTwo_def smear_def)
    then show ?thesis by (intro exI [of _ 0]) simp
  next
    case False
    define m where "m = findMsbSet ?w"
    have m: "bit ?w m" "\<forall>j. m < j \<longrightarrow> \<not> bit ?w j"
      using findMsbSet_correct [OF False] by (auto simp: m_def)
    note b = msb_unat_bounds [OF m]
    have "smear 32 (smear 16 (smear 8 (smear 4 (smear 2 (smear 1 ?w))))) = mask (Suc m)"
    proof (rule bit_word_eqI)
      fix i
      have "(\<exists>d. bit ?w (i + d)) \<longleftrightarrow> i \<le> m"
        using m by (metis le_add1 le_add_diff_inverse not_le order_trans)
      moreover have "i \<le> m \<longleftrightarrow> bit (mask (Suc m) :: u64) i"
        using b by (auto simp: bit_mask_iff)
      ultimately show "bit (smear 32 (smear 16 (smear 8 (smear 4 (smear 2 (smear 1 ?w)))))) i
          \<longleftrightarrow> bit (mask (Suc m) :: u64) i" by (simp only: bit_smeared)
    qed
    then have "alignToPowerOfTwo val = 2 ^ Suc m"
      by (simp only: alignToPowerOfTwo_def inc_mask_eq_exp)
    moreover have "unat val \<le> 2 ^ Suc m" using b uw by linarith
    moreover have "Suc m \<le> j" if "unat val \<le> 2 ^ j" for j
    proof (rule ccontr)
      assume "\<not> Suc m \<le> j"
      then have "(2::nat) ^ j \<le> 2 ^ m" by simp
      with that b uw assms(1) show False by linarith
    qed
    moreover have "(2::nat) ^ m < 2 ^ 63"
      using b uw assms by linarith
    then have "Suc m \<le> 63" by (metis Suc_le_eq nat_power_less_imp_less zero_less_numeral)
    ultimately show ?thesis by blast
  qed
qed

theorem sext_eq_signed_take_bit_witness: "sext 8 0x80 = signed_take_bit (nat 8 - 1) (0x80 :: u64)"
  by (rule sext_eq_signed_take_bit) simp_all

theorem findLsbSet_correct_witness: "bit (40 :: u64) (findLsbSet 40)"
  using findLsbSet_correct [of 40] by simp

theorem alignToPowerOfTwo_correct_witness: "\<exists>k. alignToPowerOfTwo 5 = 2 ^ k \<and> k \<le> 3 \<and> (5 :: nat) \<le> 2 ^ k"
  using alignToPowerOfTwo_correct [of 5] by auto

end
