(* ===== verification/Int_Math.thy ===== *)
theory Int_Math
  imports Bitfield
begin

text \<open>
  Integer helpers of \<^verbatim>\<open>src/base/intmath.hh\<close> at \<^verbatim>\<open>uint64_t\<close>: logarithms by binary search, powers of
  two, ceiling division and rounding to an alignment. The lemmas state what each routine computes
  over the natural numbers, where the machine arithmetic does not wrap; \<open>power_fn\<close> is stated with
  its wrap-around. \<open>isPrime\<close> is modelled as written: its answer for the first numbers is not
  primality.
\<close>

section \<open>The routines\<close>

text \<open>
  The loop of \<^verbatim>\<open>isPrime\<close> with \<^verbatim>\<open>T\<close> an unbounded integer: \<open>i\<close> takes 5, 11, 17 and so on while
  \<open>i * i \<le> n\<close>.
\<close>

function isPrime_loop :: "nat \<Rightarrow> nat \<Rightarrow> bool" where
  "isPrime_loop n i =
     (if i * i \<le> n
      then (if n mod i = 0 \<or> n mod (i + 2) = 0 then False else isPrime_loop n (i + 6))
      else True)"
  by pat_completeness auto
termination
proof (relation "measure (\<lambda>(n, i). Suc n - i)", goal_cases)
  case (2 n i)
  then have "i \<le> n" by (metis le_square le_trans)
  then show ?case by simp
qed simp

declare isPrime_loop.simps [simp del]

definition isPrime :: "nat \<Rightarrow> bool" where
  "isPrime n = (if n = 2 \<or> n = 3 then True else isPrime_loop n 5)"

definition leastSigBit :: "u64 \<Rightarrow> u64" where
  "leastSigBit n = n AND NOT (n - 1)"

definition isPowerOf2 :: "u64 \<Rightarrow> bool" where
  "isPowerOf2 n \<longleftrightarrow> n \<noteq> 0 \<and> leastSigBit n = n"

fun power_loop :: "u64 \<Rightarrow> nat \<Rightarrow> u64 \<Rightarrow> u64" where
  "power_loop n 0 result = result"
| "power_loop n (Suc x) result = power_loop n x (result * n)"

text \<open>
  \<^verbatim>\<open>power\<close>: the loop runs for \<^verbatim>\<open>x\<close> from 1 below \<^verbatim>\<open>e\<close>; the two \<^verbatim>\<open>warn\<close> calls only print.
\<close>

definition power_fn :: "u32 \<Rightarrow> u32 \<Rightarrow> u64" where
  "power_fn n e = (if e = 0 then 1 else power_loop (ucast n) (unat e - 1) (ucast n))"

definition floorLog2 :: "u64 \<Rightarrow> nat res" where
  "floorLog2 x0 = assertR (x0 > 0) (ok (
      let s = (0, x0);
          s = halve (snd s AND 0xffffffff00000000 \<noteq> 0) 32 s;
          s = halve (snd s AND 0x00000000ffff0000 \<noteq> 0) 16 s;
          s = halve (snd s AND 0x000000000000ff00 \<noteq> 0) 8 s;
          s = halve (snd s AND 0x00000000000000f0 \<noteq> 0) 4 s;
          s = halve (snd s AND 0x000000000000000c \<noteq> 0) 2 s
      in if snd s AND 0x0000000000000002 \<noteq> 0 then fst s + 1 else fst s))"

definition ceilLog2 :: "u64 \<Rightarrow> nat res" where
  "ceilLog2 n = (if n = 1 then ok 0 else bindR (floorLog2 (n - 1)) (\<lambda>y. ok (y + 1)))"

definition floorPow2 :: "u64 \<Rightarrow> u64 res" where
  "floorPow2 n = bindR (floorLog2 n) (\<lambda>y. ok (push_bit y 1))"

definition ceilPow2 :: "u64 \<Rightarrow> u64 res" where
  "ceilPow2 n = bindR (ceilLog2 n) (\<lambda>y. ok (push_bit y 1))"

definition divCeil :: "u64 \<Rightarrow> u64 \<Rightarrow> u64" where
  "divCeil a b = (a + b - 1) div b"

definition roundUp :: "u64 \<Rightarrow> u64 \<Rightarrow> u64" where
  "roundUp val align = (let m = align - 1 in (val + m) AND NOT m)"

definition roundDown :: "u64 \<Rightarrow> u64 \<Rightarrow> u64" where
  "roundDown val align = (let m = align - 1 in val AND NOT m)"

section \<open>Logarithms\<close>

text \<open>The test of one line of \<^verbatim>\<open>floorLog2\<close>: the mask selects the upper half of the window.\<close>

lemma and_upper_neq_0:
  assumes "k + k \<le> 64" "unat v < 2 ^ (k + k)" "m = push_bit k (mask k)"
  shows "v AND m \<noteq> (0::u64) \<longleftrightarrow> 2 ^ k \<le> unat v"
proof -
  have "v AND m \<noteq> 0 \<longleftrightarrow> drop_bit k v \<noteq> 0"
  proof
    assume "v AND m \<noteq> 0"
    then obtain i where "bit (v AND m) i" by (auto simp: bit_eq_iff)
    then have "k \<le> i" "bit v i" by (auto simp: assms(3) bit_and_iff bit_push_bit_iff)
    then have "bit (drop_bit k v) (i - k)" by (simp add: bit_drop_bit_eq)
    then show "drop_bit k v \<noteq> 0" by (cases "drop_bit k v = 0") simp_all
  next
    assume "drop_bit k v \<noteq> 0"
    then obtain i where i: "bit v (k + i)" by (auto simp: bit_eq_iff bit_drop_bit_eq)
    have "take_bit (k + k) (unat v) = unat v"
      using assms(2) by (simp add: take_bit_nat_eq_self)
    then have "take_bit (k + k) v = v"
      by (metis unsigned_take_bit_eq word_unat_eq_iff)
    with i have "i < k" by (metis bit_take_bit_iff nat_add_left_cancel_less)
    with i have "bit (v AND m) (k + i)"
      using bit_imp_le_length [OF i] by (simp add: assms(3) bit_and_iff bit_push_bit_iff bit_mask_iff)
    then show "v AND m \<noteq> 0" by (cases "v AND m = 0") simp_all
  qed
  also have "\<dots> \<longleftrightarrow> 0 < unat v div 2 ^ k" by (metis unat_drop_bit unat_gt_0)
  finally show ?thesis by (simp add: div_greater_zero_iff)
qed

lemma msb_window_and:
  assumes "msb_window x (k + k) s" "k + k \<le> 64" "m = push_bit k (mask k)"
  shows "msb_window x k (halve (snd s AND m \<noteq> 0) k s)"
proof (rule msb_window_halve [OF assms(1)])
  have "unat (snd s) < 2 ^ (k + k)" using assms(1) unfolding msb_window_def by blast
  from and_upper_neq_0 [OF assms(2) this assms(3)]
  show "snd s AND m \<noteq> 0 \<longleftrightarrow> 2 ^ k \<le> unat (snd s)" .
qed

lemma upper_masks:
  "(0xffffffff00000000 :: u64) = push_bit 32 (mask 32)"
  "(0x00000000ffff0000 :: u64) = push_bit 16 (mask 16)"
  "(0x000000000000ff00 :: u64) = push_bit 8 (mask 8)"
  "(0x00000000000000f0 :: u64) = push_bit 4 (mask 4)"
  "(0x000000000000000c :: u64) = push_bit 2 (mask 2)"
  "(0x0000000000000002 :: u64) = push_bit 1 (mask 1)"
  by (simp_all add: push_bit_eq_mult mask_eq_exp_minus_1)

lemma floorLog2_msb:
  assumes "x > 0"
  obtains y where "floorLog2 x = Inr y" "bit x y" "\<forall>j. y < j \<longrightarrow> \<not> bit x j"
proof -
  define s1 where "s1 = halve (x AND 0xffffffff00000000 \<noteq> 0) 32 (0, x)"
  define s2 where "s2 = halve (snd s1 AND 0x00000000ffff0000 \<noteq> 0) 16 s1"
  define s3 where "s3 = halve (snd s2 AND 0x000000000000ff00 \<noteq> 0) 8 s2"
  define s4 where "s4 = halve (snd s3 AND 0x00000000000000f0 \<noteq> 0) 4 s3"
  define s5 where "s5 = halve (snd s4 AND 0x000000000000000c \<noteq> 0) 2 s4"
  define s6 where "s6 = halve (snd s5 AND 0x0000000000000002 \<noteq> 0) 1 s5"
  have "msb_window x 64 (0, x)"
    using assms unsigned_less [of x] by (auto simp: msb_window_def)
  then have "msb_window x 32 s1" unfolding s1_def
    using msb_window_and [of x 32 "(0, x)", OF _ _ upper_masks(1)] by simp
  then have "msb_window x 16 s2" unfolding s2_def
    using msb_window_and [of x 16 s1, OF _ _ upper_masks(2)] by simp
  then have "msb_window x 8 s3" unfolding s3_def
    using msb_window_and [of x 8 s2, OF _ _ upper_masks(3)] by simp
  then have "msb_window x 4 s4" unfolding s4_def
    using msb_window_and [of x 4 s3, OF _ _ upper_masks(4)] by simp
  then have "msb_window x 2 s5" unfolding s5_def
    using msb_window_and [of x 2 s4, OF _ _ upper_masks(5)] by simp
  then have "msb_window x 1 s6" unfolding s6_def
    using msb_window_and [of x 1 s5, OF _ _ upper_masks(6)] by (simp add: numeral_2_eq_2)
  moreover have "floorLog2 x = Inr (fst s6)"
    using assms
    by (simp add: floorLog2_def Let_def s6_def halve_def [of _ "Suc 0"]
        flip: s1_def s2_def s3_def s4_def s5_def)
  ultimately show ?thesis using that msb_window_final by blast
qed

theorem floorLog2_spec:
  assumes "x > 0"
  shows "\<exists>y. floorLog2 x = Inr y \<and> y < 64 \<and> 2 ^ y \<le> unat x \<and> unat x < 2 ^ Suc y"
proof -
  obtain y where y: "floorLog2 x = Inr y" "bit x y" "\<forall>j. y < j \<longrightarrow> \<not> bit x j"
    using floorLog2_msb [OF assms] .
  with msb_unat_bounds [OF y(2,3)] show ?thesis by blast
qed

lemma unat_minus_1: "1 \<le> unat (n::u64) \<Longrightarrow> unat (n - 1) = unat n - 1"
  by (metis One_nat_def unat_gt_0 unat_minus_one less_eq_Suc_le neq0_conv unat_0)

text \<open>
  \<^verbatim>\<open>ceilLog2\<close> is the least exponent whose power of two reaches \<open>n\<close>; for 0 the subtraction wraps
  and the answer is 64.
\<close>

text \<open>The rounded-up logarithm of a positive number is defined and is the least exponent whose
  power of two reaches the number.\<close>
theorem ceilLog2_spec:
  assumes "n > 0"
  shows "\<exists>y. ceilLog2 n = Inr y \<and> unat n \<le> 2 ^ y \<and> (\<forall>j. unat n \<le> 2 ^ j \<longrightarrow> y \<le> j)"
proof (cases "n = 1")
  case True
  then have "ceilLog2 n = Inr 0 \<and> unat n \<le> 2 ^ 0" by (simp add: ceilLog2_def)
  then show ?thesis by blast
next
  case False
  have n: "1 \<le> unat n" "unat n \<noteq> 1"
    using assms False by (metis less_one linorder_not_le unat_eq_zero word_greater_zero_iff,
      metis unsigned_1 word_unat_eq_iff)
  have "0 < unat (n - 1)" using unat_minus_1 [OF n(1)] n by simp
  then have "n - 1 > 0" by (simp only: unat_gt_0 word_neq_0_conv)
  then obtain y where y: "floorLog2 (n - 1) = Inr y" "2 ^ y \<le> unat n - 1" "unat n - 1 < 2 ^ Suc y"
    using floorLog2_spec [of "n - 1"] unat_minus_1 [OF n(1)] by auto
  have "Suc y \<le> j" if "unat n \<le> 2 ^ j" for j
  proof (rule ccontr)
    assume "\<not> Suc y \<le> j"
    then have "(2::nat) ^ j \<le> 2 ^ y" by simp
    with that y n show False by linarith
  qed
  moreover have "unat n \<le> 2 ^ Suc y" using y(3) by linarith
  ultimately show ?thesis using y False by (auto simp: ceilLog2_def)
qed

section \<open>Powers, rounding and division\<close>

lemma power_loop_eq: "power_loop n x r = r * n ^ x"
  by (induction n x r rule: power_loop.induct) (simp_all add: algebra_simps)

theorem power_fn_spec: "unat (power_fn n e) = unat n ^ unat e mod 2 ^ 64"
proof (cases "e = 0")
  case False
  then obtain m where m: "unat e = Suc m" by (metis not0_implies_Suc unat_eq_zero)
  have "power_fn n e = ucast n ^ unat e"
    using False by (simp add: power_fn_def power_loop_eq m)
  moreover have "unat (ucast n :: u64) = unat n"
    using unsigned_less [of n, where ?'a = nat]
    by (simp add: unsigned_ucast_eq take_bit_nat_eq_self)
  ultimately show ?thesis by (simp add: unat_power)
qed (simp add: power_fn_def)

lemma unat_and_not_mask: "unat (v AND NOT (mask k) :: u64) = unat v - unat v mod 2 ^ k"
proof -
  have "v AND NOT (mask k) = push_bit k (drop_bit k v)"
    by (rule bit_word_eqI)
      (auto simp: bit_and_iff bit_not_iff bit_mask_iff bit_push_bit_iff bit_drop_bit_eq)
  then have "unat (v AND NOT (mask k)) = take_bit 64 (unat v div 2 ^ k * 2 ^ k)"
    using unsigned_push_bit_eq [of k "drop_bit k v", where ?'a = nat]
    by (simp add: unat_drop_bit push_bit_eq_mult [of k "_ :: nat"])
  also have "\<dots> = unat v div 2 ^ k * 2 ^ k"
    using le_less_trans [OF div_times_less_eq_dividend unsigned_less [of v, where ?'a = nat]]
    by (intro take_bit_nat_eq_self) simp
  finally show ?thesis by (simp add: minus_mod_eq_div_mult)
qed

lemma power2_minus_1: "(2 ^ k :: u64) - 1 = mask k"
  by (simp add: mask_eq_exp_minus_1)

theorem roundDown_spec: "unat (roundDown val (2 ^ k)) = unat val - unat val mod 2 ^ k"
  by (simp add: roundDown_def Let_def power2_minus_1 unat_and_not_mask)

text \<open>Rounding up to a power of two by masking gives the least multiple that is not below the value,
  whenever that multiple fits in 64 bits.\<close>
theorem roundUp_spec:
  assumes "k < 64" "unat val + 2 ^ k \<le> 2 ^ 64"
  shows "unat (roundUp val (2 ^ k)) = (unat val + 2 ^ k - 1) div 2 ^ k * 2 ^ k"
proof -
  have "unat (2 ^ k :: u64) = 2 ^ k"
    by (rule unat_pow2 [OF assms(1)])
  then have "unat (mask k :: u64) = 2 ^ k - 1"
    using unat_minus_1 [of "2 ^ k"] by (simp add: mask_eq_exp_minus_1)
  then have "unat (val + mask k) = unat val + (2 ^ k - 1)"
    using assms by (simp add: unat_word_ariths)
  then show ?thesis
    by (simp add: roundUp_def Let_def power2_minus_1 unat_and_not_mask minus_mod_eq_div_mult)
qed

lemma divCeil_ceil:
  assumes "b > 0" "unat a + unat b \<le> 2 ^ 64"
  shows "unat (divCeil a b) = (unat a + unat b - 1) div unat b"
proof -
  have b: "1 \<le> unat b" using assms(1) by (simp add: Suc_le_eq unat_gt_0 word_neq_0_conv)
  have "unat (a + (b - 1)) = (unat a + (unat b - 1)) mod 2 ^ 64"
    using unat_minus_1 [OF b] by (simp only: unat_word_ariths) simp
  then have "unat (a + b - 1) = unat a + (unat b - 1)"
    using assms b by (simp add: add_diff_eq)
  then show ?thesis using b by (simp add: divCeil_def unat_div)
qed


text \<open>\<^verbatim>\<open>isPrime\<close> accepts 4, a composite number: it tests no even divisor for small arguments, its loop
  starts at 5 and 25 already exceeds the argument.\<close>
theorem isPrime_accepts_4: "isPrime 4 \<and> (2::nat) dvd 4"
  by (simp add: isPrime_def isPrime_loop.simps [of 4 5])

lemma isPowerOf2_log:
  assumes "isPowerOf2 n"
  shows "\<exists>y < 64. floorLog2 n = Inr y \<and> n = 2 ^ y"
proof -
  have n: "n > 0" "n AND NOT (n - 1) = n" using assms by (simp_all add: isPowerOf2_def leastSigBit_def word_neq_0_conv)
  obtain y where y: "floorLog2 n = Inr y" "y < 64" "2 ^ y \<le> unat n" "unat n < 2 ^ Suc y" using floorLog2_spec [OF n(1)] by blast
  have b: "bit (w::u64) y" if "2 ^ y \<le> unat w" "unat w < 2 ^ Suc y" for w
  proof -
    have "unat w div 2 ^ y = 1" using that by (intro div_nat_eqI) simp_all
    then have "bit (unat w) y" by (simp add: bit_iff_odd)
    then show ?thesis using y(2) by (simp add: bit_unsigned_iff)
  qed
  have "unat n = 2 ^ y"
  proof (rule ccontr)
    assume "unat n \<noteq> 2 ^ y"
    then have "2 ^ y \<le> unat (n - 1)" "unat (n - 1) < 2 ^ Suc y"
      using y(3,4) unat_minus_1 [of n] one_le_power [of "2::nat" y] by simp_all
    then have "bit (n - 1) y" "bit n y" using b y(3,4) by blast+
    then have "\<not> bit (n AND NOT (n - 1)) y" by (simp add: bit_and_iff bit_not_iff)
    with n(2) \<open>bit n y\<close> show False by simp
  qed
  then have "n = 2 ^ y" using unat_pow2 [OF y(2)] by (simp add: word_unat_eq_iff)
  with y show ?thesis by blast
qed

lemma ucast_pow2: "s < 32 \<Longrightarrow> (ucast ((2::u32) ^ s) :: u64) = 2 ^ s"
  by (rule bit_word_eqI) (auto simp: bit_unsigned_iff bit_exp_iff)

lemma unat_ucast_u32: "unat (ucast (x::u32) :: u64) = unat x"
proof -
  have "unat x < 2 ^ 64" using unsigned_less [of x, where ?'a = nat] by simp
  then show ?thesis by (simp add: unsigned_ucast_eq take_bit_nat_eq_self)
qed

lemma ucast_pow2_back:
  assumes "(ucast (x::u32) :: u64) = 2 ^ k" "k < 64"
  shows "k < 32" "x = 2 ^ k"
proof -
  have u: "unat x = 2 ^ k" using assms unat_ucast_u32 [of x] unat_pow2 by metis
  then have "(2::nat) ^ k < 2 ^ 32" using unsigned_less [of x, where ?'a = nat] by simp
  then show k: "k < 32" by (simp only: power_strict_increasing_iff)
  have "(ucast x :: u64) = ucast ((2::u32) ^ k)" using assms(1) ucast_pow2 [OF k] by simp
  then show "x = 2 ^ k" by (metis unat_ucast_u32 word_unat_eq_iff)
qed

theorem ceilLog2_spec_witness: "\<exists>y. ceilLog2 (9 :: u64) = Inr y \<and> y \<le> 4 \<and> (9 :: nat) \<le> 2 ^ y"
  using ceilLog2_spec [of 9] by auto

theorem roundUp_spec_witness: "unat (roundUp 13 (2 ^ 3)) = (unat (13 :: u64) + 2 ^ 3 - 1) div 2 ^ 3 * 2 ^ 3"
  by (rule roundUp_spec) simp_all

end
