(* ===== verification/Clocked.thy ===== *)
theory Clocked
  imports Int_Math
begin

text \<open>
  The clock of a simulated object, \<^verbatim>\<open>Clocked\<close> of \<^verbatim>\<open>src/sim/clocked_object.hh\<close>. The object
  caches the next clock edge and its cycle number and brings them up to date when asked. The clock
  period belongs to the clock domain and the current tick to the event queue; both are arguments.
  Ticks and cycles are 64-bit words and wrap as in the source. The lemma of this theory says that,
  away from the end of time, the cached pair never shows: an edge is the least multiple of the period
  that is not in the past.
\<close>

record Clock =
  ck_tick :: Tick
  ck_cycle :: u64

definition Clock_init :: Clock where
  "Clock_init = \<lparr>ck_tick = 0, ck_cycle = 0\<rparr>"

definition clock_update :: "Tick \<Rightarrow> Tick \<Rightarrow> Clock \<Rightarrow> Clock" where
  "clock_update period now c =
     (if ck_tick c \<ge> now then c
      else let c1 = c\<lparr>ck_tick := ck_tick c + period, ck_cycle := ck_cycle c + 1\<rparr>
      in if ck_tick c1 \<ge> now then c1
      else let elapsedCycles = divCeil (now - ck_tick c1) period
      in c1\<lparr>ck_cycle := ck_cycle c1 + elapsedCycles, ck_tick := ck_tick c1 + elapsedCycles * period\<rparr>)"

definition clockEdge :: "Tick \<Rightarrow> Tick \<Rightarrow> u64 \<Rightarrow> Clock \<Rightarrow> Tick \<times> Clock" where
  "clockEdge period now cycles c =
     (let c' = clock_update period now c in (ck_tick c' + period * cycles, c'))"

definition curCycle :: "Tick \<Rightarrow> Tick \<Rightarrow> Clock \<Rightarrow> u64 \<times> Clock" where
  "curCycle period now c = (let c' = clock_update period now c in (ck_cycle c', c'))"

definition nextCycle :: "Tick \<Rightarrow> Tick \<Rightarrow> Clock \<Rightarrow> Tick \<times> Clock" where
  "nextCycle period now c = clockEdge period now 1 c"

definition resetClock :: "Tick \<Rightarrow> Tick \<Rightarrow> Clock \<Rightarrow> Clock" where
  "resetClock period now c =
     (let elapsedCycles = divCeil now period
      in c\<lparr>ck_cycle := elapsedCycles, ck_tick := elapsedCycles * period\<rparr>)"

definition ticksToCycles :: "Tick \<Rightarrow> Tick \<Rightarrow> u64" where
  "ticksToCycles period t = divCeil t period"

definition cyclesToTicks :: "Tick \<Rightarrow> u64 \<Rightarrow> Tick" where
  "cyclesToTicks period c = period * c"

section \<open>The edge that is meant\<close>

text \<open>The number of the first edge at or after a tick, without wrap-around.\<close>

definition edge_no :: "Tick \<Rightarrow> Tick \<Rightarrow> nat" where
  "edge_no period now = (unat now + unat period - 1) div unat period"

text \<open>The cached pair is an edge, and it was the next one at some time not later than \<open>now\<close>.\<close>

definition clock_inv :: "Tick \<Rightarrow> Tick \<Rightarrow> Clock \<Rightarrow> bool" where
  "clock_inv period now c \<longleftrightarrow> unat (ck_tick c) = unat (ck_cycle c) * unat period \<and>
     unat (ck_tick c) < unat now + unat period"

lemma ceil_unique:
  fixes k n p :: nat
  assumes "0 < p" "n \<le> k * p" "k * p < n + p"
  shows "(n + p - 1) div p = k"
proof (rule div_nat_eqI)
  show "p * k \<le> n + p - 1" using assms by (simp add: mult.commute)
  show "n + p - 1 < p * Suc k" using assms by (simp add: mult.commute)
qed

lemma ceil_bounds:
  fixes n p :: nat
  assumes "0 < p"
  shows "n \<le> (n + p - 1) div p * p" "(n + p - 1) div p * p < n + p"
proof -
  have "(n + p - 1) div p * p + (n + p - 1) mod p = n + p - 1" by (rule div_mult_mod_eq)
  moreover have "(n + p - 1) mod p < p" using assms by simp
  ultimately show "n \<le> (n + p - 1) div p * p" "(n + p - 1) div p * p < n + p" using assms by linarith+
qed

lemma clock_inv_edge:
  assumes "clock_inv period now c" "0 < unat period" "now \<le> ck_tick c"
  shows "unat (ck_cycle c) = edge_no period now" "unat (ck_tick c) = edge_no period now * unat period"
proof -
  show "unat (ck_cycle c) = edge_no period now"
    using ceil_unique [of "unat period" "unat now" "unat (ck_cycle c)"] assms
    by (simp add: clock_inv_def edge_no_def word_le_nat_alt)
  then show "unat (ck_tick c) = edge_no period now * unat period"
    using assms(1) by (simp add: clock_inv_def)
qed

lemma edge_no_less: "0 < unat period \<Longrightarrow> edge_no period now * unat period < unat now + unat period"
  unfolding edge_no_def by (rule ceil_bounds(2))

lemma unat_add_ok: "unat x + unat y < 2 ^ 64 \<Longrightarrow> unat (x + y :: u64) = unat x + unat y"
  by (simp add: unat_word_ariths)

lemma unat_mult_ok: "unat x * unat y < 2 ^ 64 \<Longrightarrow> unat (x * y :: u64) = unat x * unat y"
  by (simp add: unat_word_ariths)

lemma one_period_on:
  assumes inv: "unat (ck_tick c) = unat (ck_cycle c) * unat period" and "0 < unat period"
    and "unat (ck_tick c) < n" "n + 2 * unat period < 2 ^ 64"
  shows "unat (ck_tick c + period) = unat (ck_tick c) + unat period"
    "unat (ck_cycle c + 1) = unat (ck_cycle c) + 1" "unat (ck_cycle c) \<le> unat (ck_tick c)"
proof -
  show le: "unat (ck_cycle c) \<le> unat (ck_tick c)" using inv assms(2) by simp
  show "unat (ck_tick c + period) = unat (ck_tick c) + unat period"
    using assms by (intro unat_add_ok) simp
  have "unat (ck_cycle c) + unat (1 :: u64) < 2 ^ 64" using le assms(2-4) by simp
  from unat_add_ok [OF this] show "unat (ck_cycle c + 1) = unat (ck_cycle c) + 1" by simp
qed

lemma clock_update_correct:
  assumes inv: "clock_inv period t0 c" and "t0 \<le> now" and p: "0 < unat period"
    and room: "unat now + 2 * unat period < 2 ^ 64"
  shows "clock_inv period now (clock_update period now c) \<and> now \<le> ck_tick (clock_update period now c)"
proof (cases "ck_tick c \<ge> now")
  case True
  then show ?thesis using inv assms(2) by (simp add: clock_update_def clock_inv_def word_le_nat_alt)
next
  case False
  let ?c = "c\<lparr>ck_tick := ck_tick c + period, ck_cycle := ck_cycle c + 1\<rparr>"
  have lt: "unat (ck_tick c) < unat now" using False by (simp add: not_le word_less_nat_alt)
  have al: "unat (ck_tick c) = unat (ck_cycle c) * unat period" using inv by (simp add: clock_inv_def)
  note one = one_period_on [OF al p lt room]
  have al1: "unat (ck_tick ?c) = unat (ck_cycle ?c) * unat period" using one al by simp
  show ?thesis
  proof (cases "ck_tick ?c \<ge> now")
    case True
    then show ?thesis using False al1 one lt p
      by (simp add: clock_update_def Let_def clock_inv_def)
  next
    case False2: False
    let ?d = "now - ck_tick ?c"
    let ?e = "divCeil ?d period"
    have lt1: "unat (ck_tick ?c) < unat now" using False2 by (simp add: not_le word_less_nat_alt)
    have d: "unat ?d = unat now - unat (ck_tick ?c)"
      using lt1 by (simp only: unat_sub word_le_nat_alt less_imp_le)
    have e: "unat ?e = (unat ?d + unat period - 1) div unat period"
    proof (rule divCeil_ceil)
      show "period > 0" using p by (simp add: unat_gt_0 word_neq_0_conv [symmetric])
      show "unat ?d + unat period \<le> 2 ^ 64" using d room by simp
    qed
    have eb: "unat ?d \<le> unat ?e * unat period" "unat ?e * unat period < unat ?d + unat period"
      using ceil_bounds [OF p, of "unat ?d"] e by simp_all
    have ep: "unat (?e * period) = unat ?e * unat period"
      using eb(2) d room by (intro unat_mult_ok) simp
    have "unat ?e \<le> unat ?e * unat period" "unat (ck_cycle ?c) \<le> unat (ck_tick ?c)" using p al1 by simp_all
    then have "unat (ck_cycle ?c) + unat ?e < 2 ^ 64" using eb(2) d room lt1 by linarith
    then have cy: "unat (ck_cycle ?c + ?e) = unat (ck_cycle ?c) + unat ?e" by (rule unat_add_ok)
    have tk: "unat (ck_tick ?c + ?e * period) = unat (ck_tick ?c) + unat ?e * unat period"
      using ep eb d room lt1 by (subst unat_add_ok) simp_all
    have "clock_update period now c = ?c\<lparr>ck_cycle := ck_cycle ?c + ?e, ck_tick := ck_tick ?c + ?e * period\<rparr>"
      using False False2 by (simp add: clock_update_def Let_def)
    moreover have "unat now \<le> unat (ck_tick ?c) + unat ?e * unat period"
      "unat (ck_tick ?c) + unat ?e * unat period < unat now + unat period"
      using eb d lt1 by linarith+
    moreover have "unat (ck_tick ?c) + unat ?e * unat period = (unat (ck_cycle ?c) + unat ?e) * unat period"
      using al1 by (simp only: add_mult_distrib)
    ultimately show ?thesis using tk cy by (simp add: clock_inv_def word_le_nat_alt)
  qed
qed

lemma clockEdge_edge:
  assumes "clock_inv period t0 c" "t0 \<le> now" "0 < unat period" "unat now + 2 * unat period < 2 ^ 64"
    and "(edge_no period now + unat n) * unat period < 2 ^ 64"
  shows "\<exists>t c'. clockEdge period now n c = (t, c') \<and>
    unat t = (edge_no period now + unat n) * unat period \<and> now \<le> t \<and>
    clock_inv period now c' \<and> unat (ck_cycle c') = edge_no period now"
proof -
  let ?c = "clock_update period now c"
  have u: "clock_inv period now ?c" "now \<le> ck_tick ?c"
    using clock_update_correct [OF assms(1-4)] by blast+
  note e = clock_inv_edge [OF u(1) assms(3) u(2)]
  have split: "(edge_no period now + unat n) * unat period = unat (ck_tick ?c) + unat period * unat n"
    using e by (simp add: algebra_simps)
  have pn: "unat (period * n) = unat period * unat n"
    using assms(5) split by (intro unat_mult_ok) linarith
  have t: "unat (ck_tick ?c + period * n) = (edge_no period now + unat n) * unat period"
    using assms(5) split pn by (subst unat_add_ok) simp_all
  moreover have "now \<le> ck_tick ?c + period * n"
    using u(2) t split by (simp add: word_le_nat_alt)
  ultimately show ?thesis using u(1) e(1) by (auto simp: clockEdge_def Let_def)
qed

text \<open>An edge some cycles ahead, and a delay on top of it.\<close>

lemma clockEdge_ok:
  assumes "clock_inv p now c" "0 < unat p" "unat now + 2 * unat p + unat p * unat n + unat d < 2 ^ 64"
  shows "\<exists>t c'. clockEdge p now n c = (t, c') \<and> now \<le> t + d \<and> clock_inv p now c' \<and> now \<le> t \<and>
    unat t < unat now + unat p + unat p * unat n"
proof -
  let ?c = "clock_update p now c"
  have c: "clock_inv p now ?c" "now \<le> ck_tick ?c"
    using clock_update_correct [OF assms(1) order_refl assms(2)] assms(3) by simp_all
  have t: "unat (ck_tick ?c) < unat now + unat p" using c(1) by (simp add: clock_inv_def)
  have m: "unat (p * n) = unat p * unat n" using assms(3) by (intro unat_mult_ok) linarith
  have s: "unat (ck_tick ?c + p * n) = unat (ck_tick ?c) + unat p * unat n"
    using unat_add_ok [of "ck_tick ?c" "p * n"] m t assms(3) by linarith
  have "unat (ck_tick ?c + p * n + d) = unat (ck_tick ?c) + unat p * unat n + unat d"
    using unat_add_ok [of "ck_tick ?c + p * n" d] s t assms(3) by linarith
  then have "now \<le> ck_tick ?c + p * n + d" using c(2) by (simp add: word_le_nat_alt)
  moreover have "now \<le> ck_tick ?c + p * n" using s c(2) by (simp add: word_le_nat_alt)
  moreover have "unat (ck_tick ?c + p * n) < unat now + unat p + unat p * unat n" using s t by linarith
  ultimately show ?thesis using c(1) by (simp add: clockEdge_def Let_def)
qed

text \<open>As long as time is away from its end, \<^verbatim>\<open>clockEdge(n)\<close> is the tick of the n-th clock edge
  counted from the first edge that is not in the past, whatever the object had cached; the cached
  edge and cycle stay consistent, so the statement holds again for every later call.\<close>
theorem clockEdge_correct:
  assumes "clock_inv period t0 c" "t0 \<le> now" "0 < unat period" "unat now + 2 * unat period < 2 ^ 64"
    and "(edge_no period now + unat n) * unat period < 2 ^ 64"
  shows "\<exists>t c'. clockEdge period now n c = (t, c') \<and>
    unat t = (edge_no period now + unat n) * unat period \<and> now \<le> t \<and>
    clock_inv period now c' \<and> unat (ck_cycle c') = edge_no period now"
  by (rule clockEdge_edge [OF assms])

theorem clockEdge_correct_witness:
  "\<exists>t c'. clockEdge 500 1234 3 Clock_init = (t, c') \<and> unat t = 3000 \<and> unat (ck_cycle c') = 3"
proof -
  have "clock_inv 500 0 Clock_init" "(0 :: u64) \<le> 1234" "0 < unat (500 :: u64)"
    "unat (1234 :: u64) + 2 * unat (500 :: u64) < 2 ^ 64"
    "(edge_no 500 1234 + unat (3 :: u64)) * unat (500 :: u64) < 2 ^ 64"
    by (simp_all add: clock_inv_def Clock_init_def edge_no_def)
  from clockEdge_correct [OF this] show ?thesis by (auto simp: edge_no_def)
qed

end
