(* ===== verification/PIM_Kernel.thy ===== *)
theory PIM_Kernel
  imports Mem_Packet Clocked
begin

text \<open>
  The PIM kernel of \<^verbatim>\<open>src/pim/pim_kernel.cc\<close> with the units \<^verbatim>\<open>pim_adder.cc\<close>,
  \<^verbatim>\<open>pim_multiplier.cc\<close> and \<^verbatim>\<open>pim_divider.cc\<close>. A host command gives the kernel the addresses of
  its operands and of its result. The kernel reads the operands from memory, one request per tick,
  computes after its latency, writes the result, and tells the memory that the operation is complete.

  The record \<open>PIMKernel\<close> has the fields of the class; an event is the tick it is scheduled for, if
  it is. Every handler of the class is a definition that takes the surroundings \<open>env\<close> of the call
  (the current tick, the clock period, whether the port accepts the request it is offered, the
  contents of uninitialised memory) and returns the new state with the packets sent. A handler offers
  at most one timing request, so one flag decides its fate.
\<close>

section \<open>State\<close>

datatype Status = Idle | Ready | WaitingResp | SendRetry | Finish | Poweroff

datatype DataStatus = dataEmpty | dataReady | dataWaitingResp | dataFinish

datatype PIMUnit = BaseUnit | AdderUnit | MultiplierUnit | DividerUnit

record PIMKernel =
  unit_kind :: PIMUnit
  status :: Status
  regs :: "(u64 \<times> DataStatus) list"
  kdata :: "u64 list"
  tickEvent :: "Tick option"
  computeEvent :: "Tick option"
  finishEvent :: "Tick option"
  k_id :: int
  k_latency :: int
  k_input :: int
  k_output :: int
  pim_addr_base :: Addr
  tickid :: Tick
  retry_pkt :: "Packet option"
  recPackets :: "Packet list"
  k_clock :: Clock
  recv_pim_commands :: nat
  exec_pim_commands :: nat
  failed_pim_commands :: nat
  sent_pim_commands :: nat
  computing_counts :: nat
  read_packets :: nat
  write_packets :: nat
  read_retry :: nat
  write_retry :: nat
  retry_failed :: nat
  active_cycle :: nat
  retry_cycle :: nat

definition PIMKernel_new :: "PIMUnit \<Rightarrow> int \<Rightarrow> int \<Rightarrow> int \<Rightarrow> int \<Rightarrow> Addr \<Rightarrow> PIMKernel" where
  "PIMKernel_new u i lat inp out base = \<lparr>unit_kind = u, status = Idle,
     regs = replicate (nat (inp + out)) (0, dataEmpty), kdata = replicate (nat (inp + out)) 0,
     tickEvent = None, computeEvent = None, finishEvent = None,
     k_id = i, k_latency = lat, k_input = inp, k_output = out, pim_addr_base = base, tickid = 0,
     retry_pkt = None, recPackets = [], k_clock = Clock_init,
     recv_pim_commands = 0, exec_pim_commands = 0, failed_pim_commands = 0, sent_pim_commands = 0,
     computing_counts = 0, read_packets = 0, write_packets = 0, read_retry = 0, write_retry = 0,
     retry_failed = 0, active_cycle = 0, retry_cycle = 0\<rparr>"

record env =
  e_now :: Tick
  e_period :: Tick
  e_accept :: bool
  e_junk :: int
  e_fill :: u8

text \<open>What leaves the kernel: a timing request with the port's answer, or a functional access.\<close>

datatype kmsg = TimingReq Packet bool | FunctionalReq Packet

type_synonym kres = "(PIMKernel \<times> kmsg list) res"

section \<open>Events\<close>

text \<open>\<^verbatim>\<open>schedule(event, when)\<close>: the time is not in the past and the event not yet scheduled.\<close>

definition schedule_ev :: "env \<Rightarrow> Tick \<Rightarrow> Tick option \<Rightarrow> Tick option res" where
  "schedule_ev e t ev = assertR (t \<ge> e_now e) (assertR (ev = None) (ok (Some t)))"

definition schedule_tick :: "env \<Rightarrow> PIMKernel \<Rightarrow> PIMKernel res" where
  "schedule_tick e k =
     (let (t, c) = clockEdge (e_period e) (e_now e) 1 (k_clock k) in
      bindR (schedule_ev e t (tickEvent k)) (\<lambda>ev. ok (k\<lparr>k_clock := c, tickEvent := ev\<rparr>)))"

definition schedule_compute :: "env \<Rightarrow> u64 \<Rightarrow> PIMKernel \<Rightarrow> PIMKernel res" where
  "schedule_compute e cycles k =
     (let (t, c) = clockEdge (e_period e) (e_now e) cycles (k_clock k) in
      bindR (schedule_ev e t (computeEvent k)) (\<lambda>ev. ok (k\<lparr>k_clock := c, computeEvent := ev\<rparr>)))"

definition schedule_finish :: "env \<Rightarrow> PIMKernel \<Rightarrow> PIMKernel res" where
  "schedule_finish e k =
     (let (t, c) = clockEdge (e_period e) (e_now e) 1 (k_clock k) in
      bindR (schedule_ev e t (finishEvent k)) (\<lambda>ev. ok (k\<lparr>k_clock := c, finishEvent := ev\<rparr>)))"

section \<open>Registers and status\<close>

definition isActive :: "PIMKernel \<Rightarrow> bool" where
  "isActive k \<longleftrightarrow> status k \<noteq> Poweroff"

definition canModify :: "PIMKernel \<Rightarrow> bool" where
  "canModify k \<longleftrightarrow> status k = Idle"

definition powerOff :: "PIMKernel \<Rightarrow> bool \<times> PIMKernel" where
  "powerOff k = (if status k = Idle \<or> status k = Poweroff then (True, k\<lparr>status := Poweroff\<rparr>) else (False, k))"

definition needSchedule :: "PIMKernel \<Rightarrow> bool" where
  "needSchedule k = (if status k = Idle \<or> status k = Poweroff \<or> status k = SendRetry then False else True)"

text \<open>The loops that look for a register: all before \<open>n\<close> finished; the first that is ready.\<close>

fun all_finish :: "(u64 \<times> DataStatus) list \<Rightarrow> nat \<Rightarrow> nat \<Rightarrow> bool res" where
  "all_finish rs i 0 = ok True"
| "all_finish rs i (Suc n) = bindR (vec_at rs i) (\<lambda>r.
     if snd r \<noteq> dataFinish then ok False else all_finish rs (Suc i) n)"

definition inputReady :: "PIMKernel \<Rightarrow> bool res" where
  "inputReady k = assertR (k_input k \<ge> 0) (all_finish (regs k) 0 (nat (k_input k)))"

definition outputReady :: "PIMKernel \<Rightarrow> bool res" where
  "outputReady k = assertR (k_output k \<ge> 0) (all_finish (regs k) 0 (nat (k_input k + k_output k)))"

definition getReadyStatus :: "PIMKernel \<Rightarrow> bool res" where
  "getReadyStatus k = assertR (length (regs k) > 0)
     (bindR (inputReady k) (\<lambda>b. if b then outputReady k else ok False))"

fun first_ready :: "(u64 \<times> DataStatus) list \<Rightarrow> nat \<Rightarrow> nat \<Rightarrow> nat res" where
  "first_ready rs i 0 = ok i"
| "first_ready rs i (Suc n) = bindR (vec_at rs i) (\<lambda>r.
     if snd r = dataReady then ok i else first_ready rs (Suc i) n)"

definition locateLatest :: "PIMKernel \<Rightarrow> nat res" where
  "locateLatest k = assertR (isActive k) (first_ready (regs k) 0 (nat (k_input k + k_output k)))"

definition readReg :: "int \<Rightarrow> PIMKernel \<Rightarrow> bool res" where
  "readReg index k = assertR (index \<ge> 0 \<and> index < k_input k + k_output k) (ok (index < k_input k))"

definition set_reg_status :: "nat \<Rightarrow> DataStatus \<Rightarrow> PIMKernel \<Rightarrow> PIMKernel res" where
  "set_reg_status i s k = bindR (vec_at (regs k) i) (\<lambda>r. ok (k\<lparr>regs := (regs k)[i := (fst r, s)]\<rparr>))"

section \<open>Packets\<close>

text \<open>
  A request of the kernel: \<^verbatim>\<open>make_shared<Request>(addr, size, 0, 0)\<close>, a packet with its own buffer,
  and the kernel's sender state on top.
\<close>

definition kernel_packet :: "env \<Rightarrow> Command \<Rightarrow> Addr \<Rightarrow> u32 \<Rightarrow> u8 list \<Rightarrow> PIMSenderState \<Rightarrow> Packet res" where
  "kernel_packet e c a sz d st =
     bindR (dataDynamic d (Packet_new (Request_phys a sz 0 0 (e_now e)) c)) (\<lambda>p.
       ok (pushSenderState (PIMState st) p))"

section \<open>The computation\<close>

definition compute_op :: "PIMUnit \<Rightarrow> u64 \<Rightarrow> u64 \<Rightarrow> u64 res" where
  "compute_op u x y = (case u of
     BaseUnit \<Rightarrow> ok 0
   | AdderUnit \<Rightarrow> ok (x + y)
   | MultiplierUnit \<Rightarrow> ok (x * y)
   | DividerUnit \<Rightarrow> if y = 0 then fail DivisionByZero else ok (x div y))"

definition doCompute :: "PIMKernel \<Rightarrow> (u64 \<times> PIMKernel) res" where
  "doCompute k =
     (let k' = k\<lparr>computing_counts := computing_counts k + 1\<rparr> in
      if unit_kind k = BaseUnit then ok (0, k')
      else bindR (vec_at (kdata k) 0) (\<lambda>x. bindR (vec_at (kdata k) 1) (\<lambda>y.
           bindR (compute_op (unit_kind k) x y) (\<lambda>r. ok (r, k')))))"

definition trycompute :: "env \<Rightarrow> PIMKernel \<Rightarrow> kres" where
  "trycompute e k =
     bindR (doCompute k) (\<lambda>(r, k).
     bindR (locateLatest k) (\<lambda>toProc.
     bindR (vec_at (regs k) toProc) (\<lambda>reg.
     bindR (kernel_packet e PIMWrite (fst reg) 8 (le_bytes 8 r)
              (PIMSenderState_ids (e_junk e) (k_id k) (int toProc))) (\<lambda>pkt.
     if e_accept e then
       bindR (set_reg_status toProc dataWaitingResp (k\<lparr>status := WaitingResp\<rparr>)) (\<lambda>k.
         ok (k\<lparr>write_packets := write_packets k + 1\<rparr>, [TimingReq pkt True]))
     else
       (let k = k\<lparr>retry_pkt := Some pkt, status := SendRetry, write_retry := write_retry k + 1\<rparr> in
        bindR (if computeEvent k = None then schedule_compute e 1 k else ok k) (\<lambda>k.
          ok (k, [TimingReq pkt False])))))))"

section \<open>The tick\<close>

text \<open>
  When a full set of responses has come in, they are deleted. The loop before that,
  \<^verbatim>\<open>for (i = 0; i > regs.size(); i++)\<close>, compares the wrong way round and never runs.
\<close>

definition drop_received :: "PIMKernel \<Rightarrow> PIMKernel" where
  "drop_received k =
     (if int (length (recPackets k)) = k_input k + k_output k - 1 then k\<lparr>recPackets := []\<rparr> else k)"

text \<open>The body of the \<^verbatim>\<open>while\<close> loop; both of its branches leave the loop.\<close>

definition send_read :: "env \<Rightarrow> nat \<Rightarrow> PIMKernel \<Rightarrow> kres" where
  "send_read e toProc k =
     bindR (vec_at (regs k) toProc) (\<lambda>reg.
     bindR (kernel_packet e PIMRead (fst reg) 8 (replicate 8 (e_fill e))
              (PIMSenderState_ids (e_junk e) (k_id k) (int toProc))) (\<lambda>pkt.
     if e_accept e then
       bindR (set_reg_status toProc dataWaitingResp
                (k\<lparr>read_packets := read_packets k + 1, status := WaitingResp\<rparr>)) (\<lambda>k.
         ok (k, [TimingReq pkt True]))
     else ok (k\<lparr>retry_pkt := Some pkt, status := SendRetry, read_retry := read_retry k + 1\<rparr>,
              [TimingReq pkt False])))"

definition tick_work :: "env \<Rightarrow> PIMKernel \<Rightarrow> kres" where
  "tick_work e k0 =
     (let k = drop_received k0 in
      bindR (locateLatest k) (\<lambda>toProc.
      bindR (if int toProc < k_input k then send_read e toProc k else ok (k, [])) (\<lambda>(k, ms).
      bindR (if int toProc \<ge> k_input k \<and> int toProc < k_input k + k_output k then inputReady k
             else ok False) (\<lambda>go.
      if go then
        bindR (if computeEvent k = None then schedule_compute e (word_of_int (k_latency k)) k else ok k)
          (\<lambda>k. ok (k, ms))
      else
        bindR (bindR (inputReady k) (\<lambda>b. if b then outputReady k else ok False)) (\<lambda>fin.
          ok (if fin then k\<lparr>status := Finish\<rparr> else k, ms))))))"

definition tick :: "env \<Rightarrow> PIMKernel \<Rightarrow> kres" where
  "tick e k =
     assertR (isActive k)
     (let k = k\<lparr>active_cycle := active_cycle k + 1\<rparr> in
      bindR (case status k of
               SendRetry \<Rightarrow> ok (k, [])
             | Ready \<Rightarrow> tick_work e k
             | WaitingResp \<Rightarrow> tick_work e k
             | Idle \<Rightarrow> assertR (finishEvent k = None) (bindR (schedule_finish e k) (\<lambda>k. ok (k, [])))
             | Finish \<Rightarrow> assertR (finishEvent k = None) (bindR (schedule_finish e k) (\<lambda>k. ok (k, [])))
             | Poweroff \<Rightarrow> ok (k, [])) (\<lambda>(k, ms).
      bindR (if needSchedule k \<and> tickEvent k = None \<and> finishEvent k = None then schedule_tick e k
             else ok k) (\<lambda>k. ok (k, ms))))"

section \<open>Commands from the host\<close>

fun load_regs :: "nat \<Rightarrow> Addr list \<Rightarrow> (u64 \<times> DataStatus) list \<Rightarrow> (u64 \<times> DataStatus) list res" where
  "load_regs i [] rs = ok rs"
| "load_regs i (a # as) rs = bindR (vec_set rs i (a, dataReady)) (\<lambda>rs'. load_regs (Suc i) as rs')"

definition active :: "env \<Rightarrow> PIMKernel \<Rightarrow> kres" where
  "active e k = tick e (k\<lparr>status := Ready\<rparr>)"

definition start :: "env \<Rightarrow> Packet \<Rightarrow> PIMKernel \<Rightarrow> kres" where
  "start e pkt k =
     (case pimState pkt of
        None \<Rightarrow> fail AssertFailed
      | Some st \<Rightarrow>
          bindR (load_regs 0 (ps_addr st) (regs k)) (\<lambda>rs.
            active e (k\<lparr>regs := rs, tickid := ps_cycle st\<rparr>)))"

definition recvFunctional :: "env \<Rightarrow> Packet \<Rightarrow> PIMKernel \<Rightarrow> kres" where
  "recvFunctional e pkt k0 =
     (let k = k0\<lparr>recv_pim_commands := recv_pim_commands k0 + 1\<rparr> in
      case pimState pkt of
        None \<Rightarrow> fail NullPointer
      | Some st \<Rightarrow>
          (let dat = setCommand Registration
                 ((PIMSenderState_ids (e_junk e) (k_id k) (-1))\<lparr>ps_addr := ps_addr st\<rparr>) in
           bindR (kernel_packet e PIM (pim_addr_base k - 1) 1 [e_fill e] dat) (\<lambda>reg_pkt.
           (let k = k\<lparr>sent_pim_commands := sent_pim_commands k + 1\<rparr> in
            if \<not> isActive k \<or> canModify k then
              bindR (start e pkt (k\<lparr>exec_pim_commands := exec_pim_commands k + 1\<rparr>)) (\<lambda>(k, ms).
                ok (k, FunctionalReq reg_pkt # ms))
            else ok (k\<lparr>failed_pim_commands := failed_pim_commands k + 1\<rparr>, [FunctionalReq reg_pkt])))))"

definition recvTimingReq :: "Packet \<Rightarrow> PIMKernel \<Rightarrow> bool" where
  "recvTimingReq pkt k = False"

definition recvAtomic :: "Packet \<Rightarrow> PIMKernel \<Rightarrow> Tick res" where
  "recvAtomic pkt k = fail FatalError"

section \<open>Responses and retries\<close>

definition recvReqRetry :: "env \<Rightarrow> PIMKernel \<Rightarrow> kres" where
  "recvReqRetry e k0 =
     (let k = k0\<lparr>retry_cycle := retry_cycle k0 + 1\<rparr> in
      case (status k, retry_pkt k) of
        (SendRetry, Some rp) \<Rightarrow>
          (case pimState rp of
             None \<Rightarrow> fail AssertFailed
           | Some st \<Rightarrow>
               bindR (readReg (ps_procid st) k) (\<lambda>ifread.
               bindR (if e_accept e then
                        bindR (set_reg_status (nat (ps_procid st)) dataWaitingResp (k\<lparr>status := WaitingResp\<rparr>)) (\<lambda>k.
                          ok (if isRead (pcmd rp) then k\<lparr>read_retry := read_retry k + 1\<rparr>
                              else k\<lparr>write_retry := write_retry k + 1\<rparr>))
                      else ok (k\<lparr>retry_failed := retry_failed k + 1\<rparr>)) (\<lambda>k.
               bindR (if needSchedule k \<and> tickEvent k = None \<and> finishEvent k = None then schedule_tick e k
                      else ok k) (\<lambda>k. ok (k, [TimingReq rp (e_accept e)])))))
      | _ \<Rightarrow> fail AssertFailed)"

definition doDataCallback :: "Packet \<Rightarrow> PIMKernel \<Rightarrow> PIMKernel res" where
  "doDataCallback pkt k =
     (case pimState pkt of
        None \<Rightarrow> fail AssertFailed
      | Some st \<Rightarrow>
          assertR (ps_procid st < k_output k + k_input k)
          (bindR (getPtr pkt) (\<lambda>d.
           if ps_procid st < 0 \<or> length d < 8 then fail OutOfRange else
           (let i = nat (ps_procid st) in
            bindR (vec_set (kdata k) i (of_le_bytes (take 8 d))) (\<lambda>dat.
            bindR (set_reg_status i dataFinish (k\<lparr>kdata := dat\<rparr>)) (\<lambda>k.
            bindR (getReadyStatus k) (\<lambda>fin.
            (let k = (if fin then k\<lparr>status := Finish\<rparr> else k) in
             ok (k\<lparr>recPackets := recPackets k @ [pkt]\<rparr>)))))))))"

definition recvTimingResp :: "env \<Rightarrow> Packet \<Rightarrow> PIMKernel \<Rightarrow> kres" where
  "recvTimingResp e pkt k =
     bindR (doDataCallback pkt k) (\<lambda>k.
     bindR (if tickEvent k = None then schedule_tick e k else ok k) (\<lambda>k. ok (k, [])))"

text \<open>The end of the operation: the memory is told, and the kernel is idle again.\<close>

definition finish :: "env \<Rightarrow> PIMKernel \<Rightarrow> kres" where
  "finish e k =
     assertR (tickEvent k = None)
     (bindR (vec_at (regs k) 0) (\<lambda>r0. bindR (vec_at (regs k) 1) (\<lambda>r1. bindR (vec_at (regs k) 2) (\<lambda>r2.
      bindR (kernel_packet e PIM (pim_addr_base k - 1) 1 [e_fill e]
               (setCommand Complete
                 (PIMSenderState_complete (e_junk e) (fst r0) (fst r1) (fst r2) (k_id k)))) (\<lambda>pkt.
        ok (k\<lparr>status := Idle\<rparr>, [FunctionalReq pkt]))))))"

section \<open>Scheduling never fails away from the end of time\<close>

text \<open>The kernel's clock is consistent, and the compute latency still fits before the end of time.\<close>

definition clock_ok :: "env \<Rightarrow> PIMKernel \<Rightarrow> bool" where
  "clock_ok e k \<longleftrightarrow> 0 < unat (e_period e) \<and> (\<exists>t0 \<le> e_now e. clock_inv (e_period e) t0 (k_clock k)) \<and>
     unat (e_now e) + (unat (word_of_int (k_latency k) :: u64) + 3) * unat (e_period e) < 2 ^ 64"

lemma edge_ok:
  assumes "clock_ok e k" "unat n \<le> 1 \<or> n = word_of_int (k_latency k)"
  shows "\<exists>t c. clockEdge (e_period e) (e_now e) n (k_clock k) = (t, c) \<and> e_now e \<le> t \<and>
    clock_inv (e_period e) (e_now e) c"
proof -
  let ?P = "e_period e" and ?N = "e_now e" and ?L = "unat (word_of_int (k_latency k) :: u64)"
  obtain t0 where t0: "t0 \<le> ?N" "clock_inv ?P t0 (k_clock k)" and p: "0 < unat ?P"
    and room: "unat ?N + (?L + 3) * unat ?P < 2 ^ 64" using assms(1) by (auto simp: clock_ok_def)
  have "unat n \<le> ?L + 1" using assms(2) by auto
  then have "unat n * unat ?P \<le> (?L + 1) * unat ?P" by (rule mult_le_mono1)
  moreover have "edge_no ?P ?N * unat ?P < unat ?N + unat ?P" by (rule edge_no_less [OF p])
  ultimately have "(edge_no ?P ?N + unat n) * unat ?P < 2 ^ 64"
    using room by (simp add: algebra_simps)
  moreover have "unat ?N + 2 * unat ?P < 2 ^ 64" using room by (simp add: algebra_simps)
  ultimately show ?thesis using clockEdge_edge [OF t0(2,1) p] by blast
qed

lemma schedule_tick_ok:
  assumes "clock_ok e k" "tickEvent k = None"
  shows "\<exists>t c. schedule_tick e k = Inr (k\<lparr>k_clock := c, tickEvent := Some t\<rparr>) \<and> clock_inv (e_period e) (e_now e) c"
  using edge_ok [OF assms(1), of 1] assms(2) by (auto simp: schedule_tick_def schedule_ev_def assertR_def) blast

lemma schedule_finish_ok:
  assumes "clock_ok e k" "finishEvent k = None"
  shows "\<exists>t c. schedule_finish e k = Inr (k\<lparr>k_clock := c, finishEvent := Some t\<rparr>) \<and> clock_inv (e_period e) (e_now e) c"
  using edge_ok [OF assms(1), of 1] assms(2) by (auto simp: schedule_finish_def schedule_ev_def assertR_def) blast

lemma schedule_compute_ok:
  assumes "clock_ok e k" "computeEvent k = None" "unat n \<le> 1 \<or> n = word_of_int (k_latency k)"
  shows "\<exists>t c. schedule_compute e n k = Inr (k\<lparr>k_clock := c, computeEvent := Some t\<rparr>) \<and> clock_inv (e_period e) (e_now e) c"
  using edge_ok [OF assms(1,3)] assms(2) by (auto simp: schedule_compute_def schedule_ev_def assertR_def) blast

lemma clock_ok_again:
  assumes "clock_ok e k" "clock_inv (e_period e) (e_now e) (k_clock k')" "k_latency k' = k_latency k"
  shows "clock_ok e k'"
  using assms unfolding clock_ok_def by auto

lemma clock_ok_cong: "k_clock k' = k_clock k \<Longrightarrow> k_latency k' = k_latency k \<Longrightarrow> clock_ok e k' = clock_ok e k"
  by (simp add: clock_ok_def)

section \<open>The packets a kernel sends\<close>

lemma kernel_packet_eq:
  "kernel_packet e c a sz d st = Inr \<lparr>pcmd = c, pflags = 0x2300, preq = Request_phys a sz 0 0 (e_now e),
     pdata = d, paddr = a, pIsSecure = False, psize = sz, bytesValid = [], senderState = [PIMState st]\<rparr>"
  by (simp add: kernel_packet_def dataDynamic_def Packet_new_phys assertR_def noneSet_def pushSenderState_def
      set_pflags_def set_flags_def)

definition kernel_pkt :: "env \<Rightarrow> Command \<Rightarrow> Addr \<Rightarrow> u32 \<Rightarrow> u8 list \<Rightarrow> PIMSenderState \<Rightarrow> Packet" where
  "kernel_pkt e c a sz d st = \<lparr>pcmd = c, pflags = 0x2300, preq = Request_phys a sz 0 0 (e_now e),
     pdata = d, paddr = a, pIsSecure = False, psize = sz, bytesValid = [], senderState = [PIMState st]\<rparr>"

lemma kernel_packet_pkt: "kernel_packet e c a sz d st = Inr (kernel_pkt e c a sz d st)"
  by (simp add: kernel_packet_eq kernel_pkt_def)

lemma kernel_pkt_sel [simp]:
  "pcmd (kernel_pkt e c a sz d st) = c" "paddr (kernel_pkt e c a sz d st) = a"
  "psize (kernel_pkt e c a sz d st) = sz" "pdata (kernel_pkt e c a sz d st) = d"
  "pimState (kernel_pkt e c a sz d st) = Some st" "pflags (kernel_pkt e c a sz d st) = 0x2300"
  "preq (kernel_pkt e c a sz d st) = Request_phys a sz 0 0 (e_now e)"
  "senderState (kernel_pkt e c a sz d st) = [PIMState st]"
  by (simp_all add: kernel_pkt_def pimState_def)

section \<open>A unit with two operands and one result\<close>

definition binary :: "PIMKernel \<Rightarrow> bool" where
  "binary k \<longleftrightarrow> k_input k = 2 \<and> k_output k = 1 \<and> length (kdata k) = 3"

text \<open>What no handler changes.\<close>

definition same_unit :: "PIMKernel \<Rightarrow> PIMKernel \<Rightarrow> bool" where
  "same_unit k k' \<longleftrightarrow> unit_kind k' = unit_kind k \<and> k_id k' = k_id k \<and> k_latency k' = k_latency k \<and>
     k_input k' = k_input k \<and> k_output k' = k_output k \<and> pim_addr_base k' = pim_addr_base k"

lemma first_ready_3:
  "first_ready [(a0, s0), (a1, s1), (a2, s2)] 0 3 =
     Inr (if s0 = dataReady then 0 else if s1 = dataReady then 1 else if s2 = dataReady then 2 else 3)"
  by (simp add: eval_nat_numeral vec_at_def)

lemma all_finish_3:
  "all_finish [(a0, s0), (a1, s1), (a2, s2)] 0 2 = Inr (s0 = dataFinish \<and> s1 = dataFinish)"
  "all_finish [(a0, s0), (a1, s1), (a2, s2)] 0 3 =
     Inr (s0 = dataFinish \<and> s1 = dataFinish \<and> s2 = dataFinish)"
  by (simp_all add: eval_nat_numeral vec_at_def)

lemma ready_3:
  assumes "binary k" "regs k = [(a0, s0), (a1, s1), (a2, s2)]"
  shows "inputReady k = Inr (s0 = dataFinish \<and> s1 = dataFinish)"
    "outputReady k = Inr (s0 = dataFinish \<and> s1 = dataFinish \<and> s2 = dataFinish)"
    "isActive k \<Longrightarrow> locateLatest k =
       Inr (if s0 = dataReady then 0 else if s1 = dataReady then 1 else if s2 = dataReady then 2 else 3)"
  using assms
  by (simp_all add: inputReady_def outputReady_def locateLatest_def assertR_def binary_def all_finish_3
      first_ready_3)

lemma drop_received_keeps:
  "status (drop_received k) = status k" "regs (drop_received k) = regs k" "kdata (drop_received k) = kdata k"
  "tickEvent (drop_received k) = tickEvent k" "computeEvent (drop_received k) = computeEvent k"
  "finishEvent (drop_received k) = finishEvent k" "k_clock (drop_received k) = k_clock k"
  "k_id (drop_received k) = k_id k" "k_input (drop_received k) = k_input k" "k_output (drop_received k) = k_output k"
  "k_latency (drop_received k) = k_latency k" "unit_kind (drop_received k) = unit_kind k"
  "pim_addr_base (drop_received k) = pim_addr_base k" "retry_pkt (drop_received k) = retry_pkt k"
  by (simp_all add: drop_received_def)

definition read_pkt :: "env \<Rightarrow> PIMKernel \<Rightarrow> nat \<Rightarrow> Packet" where
  "read_pkt e k i = kernel_pkt e PIMRead (fst (regs k ! i)) 8 (replicate 8 (e_fill e))
     (PIMSenderState_ids (e_junk e) (k_id k) (int i))"

text \<open>The end of every tick: the next one is scheduled if the status asks for it.\<close>

definition reschedule :: "env \<Rightarrow> PIMKernel \<Rightarrow> PIMKernel res" where
  "reschedule e k = (if needSchedule k \<and> tickEvent k = None \<and> finishEvent k = None then schedule_tick e k else ok k)"

lemma reschedule_ok:
  assumes "clock_ok e k"
  shows "\<exists>t c. reschedule e k = Inr (k\<lparr>tickEvent := t, k_clock := c\<rparr>) \<and>
    t = (if needSchedule k \<and> tickEvent k = None \<and> finishEvent k = None then t else tickEvent k) \<and>
    (needSchedule k \<and> finishEvent k = None \<longrightarrow> t \<noteq> None) \<and> clock_ok e (k\<lparr>tickEvent := t, k_clock := c\<rparr>)"
proof (cases "needSchedule k \<and> tickEvent k = None \<and> finishEvent k = None")
  case True
  then obtain t c where "schedule_tick e k = Inr (k\<lparr>k_clock := c, tickEvent := Some t\<rparr>)"
    "clock_inv (e_period e) (e_now e) c" using schedule_tick_ok [OF assms] by blast
  then show ?thesis using True clock_ok_again [OF assms, of "k\<lparr>tickEvent := Some t, k_clock := c\<rparr>"]
    by (intro exI [of _ "Some t"] exI [of _ c]) (simp add: reschedule_def)
next
  case False
  then show ?thesis using assms
    by (intro exI [of _ "tickEvent k"] exI [of _ "k_clock k"]) (auto simp: reschedule_def)
qed

lemma tick_alt:
  "tick e k = assertR (isActive k)
     (bindR (case status k of
               SendRetry \<Rightarrow> ok (k\<lparr>active_cycle := active_cycle k + 1\<rparr>, [])
             | Ready \<Rightarrow> tick_work e (k\<lparr>active_cycle := active_cycle k + 1\<rparr>)
             | WaitingResp \<Rightarrow> tick_work e (k\<lparr>active_cycle := active_cycle k + 1\<rparr>)
             | Poweroff \<Rightarrow> ok (k\<lparr>active_cycle := active_cycle k + 1\<rparr>, [])
             | _ \<Rightarrow> assertR (finishEvent k = None)
                 (bindR (schedule_finish e (k\<lparr>active_cycle := active_cycle k + 1\<rparr>)) (\<lambda>k. ok (k, []))))
       (\<lambda>(k, ms). bindR (reschedule e k) (\<lambda>k. ok (k, ms))))"
  by (cases "status k") (simp_all add: tick_def reschedule_def Let_def)

text \<open>The common part of the statements below: what a step of the kernel keeps.\<close>

definition kept :: "PIMKernel \<Rightarrow> PIMKernel \<Rightarrow> bool" where
  "kept k k' \<longleftrightarrow> same_unit k k' \<and> kdata k' = kdata k \<and> finishEvent k' = finishEvent k"

text \<open>The register a tick reads next, if an operand has not been requested yet.\<close>

definition next_read :: "PIMKernel \<Rightarrow> nat \<Rightarrow> bool" where
  "next_read k i \<longleftrightarrow> i < 2 \<and> snd (regs k ! i) = dataReady \<and> (\<forall>j < i. snd (regs k ! j) \<noteq> dataReady)"

lemma regs_3:
  assumes "length (regs k) = 3"
  obtains a0 s0 a1 s1 a2 s2 where "regs k = [(a0, s0), (a1, s1), (a2, s2)]"
  using assms by (auto simp: eval_nat_numeral length_Suc_conv)

lemma kept_trans: "kept k k1 \<Longrightarrow> kept k1 k2 \<Longrightarrow> kept k k2"
  by (simp add: kept_def same_unit_def)

lemma tick_work_read:
  assumes "binary k" "length (regs k) = 3" "isActive k" "next_read k i"
  shows "\<exists>k'. tick_work e k = Inr (k', [TimingReq (read_pkt e k i) (e_accept e)]) \<and> kept k k' \<and>
    tickEvent k' = tickEvent k \<and> computeEvent k' = computeEvent k \<and> k_clock k' = k_clock k \<and>
    (if e_accept e then status k' = WaitingResp \<and> regs k' = (regs k)[i := (fst (regs k ! i), dataWaitingResp)]
     else status k' = SendRetry \<and> regs k' = regs k \<and> retry_pkt k' = Some (read_pkt e k i))"
proof -
  obtain a0 s0 a1 s1 a2 s2 where r: "regs k = [(a0, s0), (a1, s1), (a2, s2)]" using regs_3 [OF assms(2)] .
  let ?k = "drop_received k"
  have b: "binary ?k" "regs ?k = [(a0, s0), (a1, s1), (a2, s2)]" "isActive ?k"
    using assms(1,3) r by (simp_all add: binary_def drop_received_keeps isActive_def)
  have i: "i < 2" "(if s0 = dataReady then 0 else if s1 = dataReady then 1 else if s2 = dataReady then 2 else 3) = i"
    using assms(4) r by (auto simp: next_read_def less_2_cases_iff)
  have loc: "locateLatest ?k = Inr i" using ready_3(3) [OF b(1,2,3)] i(2) by simp
  have pk: "kernel_packet e PIMRead (fst (regs k ! i)) 8 (replicate 8 (e_fill e))
      (PIMSenderState_ids (e_junk e) (k_id k) (int i)) = Inr (read_pkt e k i)"
    by (simp add: read_pkt_def kernel_packet_pkt)
  have v: "vec_at (regs k) i = Inr (regs k ! i)" using i(1) assms(2) by (simp add: vec_at_def)
  let ?k1 = "?k\<lparr>read_packets := read_packets ?k + 1, status := WaitingResp, regs := (regs k)[i := (fst (regs k ! i), dataWaitingResp)]\<rparr>"
  let ?k2 = "?k\<lparr>retry_pkt := Some (read_pkt e k i), status := SendRetry, read_retry := read_retry ?k + 1\<rparr>"
  have sr: "send_read e i ?k = Inr (if e_accept e then ?k1 else ?k2, [TimingReq (read_pkt e k i) (e_accept e)])"
    by (simp add: send_read_def drop_received_keeps v pk set_reg_status_def)
  have in2: "k_input ?k = 2" using assms(1) by (simp add: binary_def drop_received_keeps)
  have nf: "inputReady (if e_accept e then ?k1 else ?k2) = Inr False"
  proof (cases "e_accept e")
    case True
    have "regs ?k1 = (regs k)[i := (fst (regs k ! i), dataWaitingResp)]" by simp
    moreover have "binary ?k1" using b(1) by (simp add: binary_def)
    ultimately show ?thesis using True r i ready_3(1) [of ?k1] by (auto simp: less_2_cases_iff split: if_splits)
  next
    case False
    have "binary ?k2" "regs ?k2 = [(a0, s0), (a1, s1), (a2, s2)]" using b by (simp_all add: binary_def)
    from ready_3(1) [OF this] False i show ?thesis by (auto split: if_splits)
  qed
  have "tick_work e k = Inr (if e_accept e then ?k1 else ?k2, [TimingReq (read_pkt e k i) (e_accept e)])"
    using i(1) by (simp add: tick_work_def Let_def loc sr in2 nf)
  then show ?thesis by (simp add: kept_def same_unit_def drop_received_keeps)
qed

lemma tick_work_wait:
  assumes "binary k" "regs k = [(a0, s0), (a1, s1), (a2, s2)]" "isActive k" "s0 \<noteq> dataReady" "s1 \<noteq> dataReady"
    and "\<not> (s0 = dataFinish \<and> s1 = dataFinish \<and> s2 \<in> {dataReady, dataFinish})"
  shows "tick_work e k = Inr (drop_received k, [])"
proof -
  let ?k = "drop_received k"
  have b: "binary ?k" "regs ?k = [(a0, s0), (a1, s1), (a2, s2)]" "isActive ?k"
    using assms(1-3) by (simp_all add: binary_def drop_received_keeps isActive_def)
  have in2: "k_input ?k = 2" "k_output ?k = 1" using b(1) by (simp_all add: binary_def)
  show ?thesis
    using assms(4-6) ready_3 [OF b(1,2)] b(3) by (auto simp: tick_work_def Let_def in2)
qed

lemma tick_work_compute:
  assumes "binary k" "regs k = [(a0, dataFinish), (a1, dataFinish), (a2, dataReady)]" "isActive k" "clock_ok e k"
  shows "\<exists>k'. tick_work e k = Inr (k', []) \<and> kept k k' \<and> tickEvent k' = tickEvent k \<and>
    computeEvent k' \<noteq> None \<and> clock_ok e k' \<and> status k' = status k \<and> regs k' = regs k"
proof -
  let ?k = "drop_received k"
  have b: "binary ?k" "regs ?k = [(a0, dataFinish), (a1, dataFinish), (a2, dataReady)]" "isActive ?k"
    using assms(1-3) by (simp_all add: binary_def drop_received_keeps isActive_def)
  have in2: "k_input ?k = 2" "k_output ?k = 1" using b(1) by (simp_all add: binary_def)
  have c: "clock_ok e ?k" using assms(4) clock_ok_cong [of ?k k] by (simp add: drop_received_keeps)
  have tw: "tick_work e k = bindR (if computeEvent ?k = None
      then schedule_compute e (word_of_int (k_latency ?k)) ?k else ok ?k) (\<lambda>k. ok (k, []))"
    using ready_3 [OF b(1,2)] b(3) by (simp add: tick_work_def Let_def in2)
  show ?thesis
  proof (cases "computeEvent ?k = None")
    case True
    obtain t cl where s: "schedule_compute e (word_of_int (k_latency ?k)) ?k = Inr (?k\<lparr>k_clock := cl, computeEvent := Some t\<rparr>)"
      "clock_inv (e_period e) (e_now e) cl"
      using schedule_compute_ok [OF c True, of "word_of_int (k_latency ?k)"] by auto
    have "clock_ok e (?k\<lparr>k_clock := cl, computeEvent := Some t\<rparr>)"
      using clock_ok_again [OF c, of "?k\<lparr>k_clock := cl, computeEvent := Some t\<rparr>"] s(2) by simp
    then show ?thesis using tw True s(1) by (simp add: kept_def same_unit_def drop_received_keeps)
  next
    case False
    then show ?thesis using tw c by (auto simp: kept_def same_unit_def drop_received_keeps)
  qed
qed

lemmas kstep_simps = kept_def same_unit_def drop_received_keeps binary_def isActive_def needSchedule_def

text \<open>The five ways a tick goes.\<close>

lemma tick_read:
  assumes "binary k" "length (regs k) = 3" "status k \<in> {Ready, WaitingResp}" "next_read k i"
    and "tickEvent k = None" "finishEvent k = None" "clock_ok e k"
  shows "\<exists>k'. tick e k = Inr (k', [TimingReq (read_pkt e k i) (e_accept e)]) \<and> kept k k' \<and>
    computeEvent k' = computeEvent k \<and> clock_ok e k' \<and>
    (if e_accept e then status k' = WaitingResp \<and> tickEvent k' \<noteq> None \<and>
       regs k' = (regs k)[i := (fst (regs k ! i), dataWaitingResp)]
     else status k' = SendRetry \<and> tickEvent k' = None \<and> regs k' = regs k \<and> retry_pkt k' = Some (read_pkt e k i))"
proof -
  let ?k = "k\<lparr>active_cycle := active_cycle k + 1\<rparr>"
  have pk: "read_pkt e ?k i = read_pkt e k i" by (simp add: read_pkt_def)
  have act: "isActive k" using assms(3) by (auto simp: isActive_def)
  have pre: "binary ?k" "length (regs ?k) = 3" "isActive ?k" "next_read ?k i"
    using assms(1,2,4) act by (simp_all add: binary_def isActive_def next_read_def)
  obtain k1 where k1: "tick_work e ?k = Inr (k1, [TimingReq (read_pkt e k i) (e_accept e)])" "kept ?k k1"
    "tickEvent k1 = tickEvent k" "computeEvent k1 = computeEvent k" "k_clock k1 = k_clock k"
    "if e_accept e then status k1 = WaitingResp \<and> regs k1 = (regs k)[i := (fst (regs k ! i), dataWaitingResp)]
     else status k1 = SendRetry \<and> regs k1 = regs k \<and> retry_pkt k1 = Some (read_pkt e k i)"
    using tick_work_read [OF pre, of e] unfolding pk by auto
  have c1: "clock_ok e k1" using clock_ok_cong [of k1 k] k1(2,5) assms(7) by (simp add: kept_def same_unit_def)
  obtain t c where rs: "reschedule e k1 = Inr (k1\<lparr>tickEvent := t, k_clock := c\<rparr>)"
    "t = (if needSchedule k1 \<and> tickEvent k1 = None \<and> finishEvent k1 = None then t else tickEvent k1)"
    "needSchedule k1 \<and> finishEvent k1 = None \<longrightarrow> t \<noteq> None" "clock_ok e (k1\<lparr>tickEvent := t, k_clock := c\<rparr>)"
    using reschedule_ok [OF c1] by blast
  have "tick e k = Inr (k1\<lparr>tickEvent := t, k_clock := c\<rparr>, [TimingReq (read_pkt e k i) (e_accept e)])"
    using assms(3) act k1(1) rs(1) by (auto simp: tick_alt assertR_def)
  moreover have "finishEvent k1 = None" using k1(2) assms(6) by (simp add: kept_def)
  ultimately show ?thesis using k1 rs assms(5) by (auto simp: kept_def same_unit_def needSchedule_def)
qed

lemma tick_wait:
  assumes "binary k" "regs k = [(a0, s0), (a1, s1), (a2, s2)]" "status k = WaitingResp"
    and "s0 \<noteq> dataReady" "s1 \<noteq> dataReady" "\<not> (s0 = dataFinish \<and> s1 = dataFinish \<and> s2 \<in> {dataReady, dataFinish})"
    and "finishEvent k = None" "clock_ok e k"
  shows "\<exists>k'. tick e k = Inr (k', []) \<and> kept k k' \<and> computeEvent k' = computeEvent k \<and> clock_ok e k' \<and>
    status k' = WaitingResp \<and> tickEvent k' \<noteq> None \<and> regs k' = regs k"
proof -
  let ?k = "k\<lparr>active_cycle := active_cycle k + 1\<rparr>" and ?d = "drop_received (k\<lparr>active_cycle := active_cycle k + 1\<rparr>)"
  have tw: "tick_work e ?k = Inr (?d, [])"
    by (rule tick_work_wait) (use assms in \<open>simp_all add: binary_def isActive_def\<close>)
  have c: "clock_ok e ?d" using clock_ok_cong [of ?d k] assms(8) by (simp add: drop_received_keeps)
  obtain t cl where rs: "reschedule e ?d = Inr (?d\<lparr>tickEvent := t, k_clock := cl\<rparr>)"
    "needSchedule ?d \<and> finishEvent ?d = None \<longrightarrow> t \<noteq> None" "clock_ok e (?d\<lparr>tickEvent := t, k_clock := cl\<rparr>)"
    using reschedule_ok [OF c] by blast
  have "tick e k = Inr (?d\<lparr>tickEvent := t, k_clock := cl\<rparr>, [])"
    using assms(3) tw rs(1) by (simp add: tick_alt assertR_def isActive_def)
  then show ?thesis using rs(2,3) assms by (auto simp: kstep_simps)
qed

lemma tick_compute:
  assumes "binary k" "regs k = [(a0, dataFinish), (a1, dataFinish), (a2, dataReady)]" "status k = WaitingResp"
    and "finishEvent k = None" "clock_ok e k"
  shows "\<exists>k'. tick e k = Inr (k', []) \<and> kept k k' \<and> computeEvent k' \<noteq> None \<and> clock_ok e k' \<and>
    status k' = WaitingResp \<and> tickEvent k' \<noteq> None \<and> regs k' = regs k"
proof -
  let ?k = "k\<lparr>active_cycle := active_cycle k + 1\<rparr>"
  have "clock_ok e ?k" using clock_ok_cong [of ?k k] assms(5) by simp
  moreover have "binary ?k" "isActive ?k" using assms(1,3) by (simp_all add: binary_def isActive_def)
  ultimately obtain k1 where k1: "tick_work e ?k = Inr (k1, [])" "kept ?k k1" "tickEvent k1 = tickEvent k"
    "computeEvent k1 \<noteq> None" "clock_ok e k1" "status k1 = WaitingResp" "regs k1 = regs k"
    using tick_work_compute [of ?k a0 a1 a2 e] assms(2,3) by auto
  obtain t cl where rs: "reschedule e k1 = Inr (k1\<lparr>tickEvent := t, k_clock := cl\<rparr>)"
    "needSchedule k1 \<and> finishEvent k1 = None \<longrightarrow> t \<noteq> None" "clock_ok e (k1\<lparr>tickEvent := t, k_clock := cl\<rparr>)"
    using reschedule_ok [OF k1(5)] by blast
  have "tick e k = Inr (k1\<lparr>tickEvent := t, k_clock := cl\<rparr>, [])"
    using assms(3) k1(1) rs(1) by (simp add: tick_alt assertR_def isActive_def)
  then show ?thesis using rs(2,3) k1 assms(4) by (auto simp: kstep_simps)
qed

lemma tick_retry:
  assumes "status k = SendRetry"
  shows "tick e k = Inr (k\<lparr>active_cycle := active_cycle k + 1\<rparr>, [])"
  using assms by (simp add: tick_alt assertR_def isActive_def reschedule_def needSchedule_def)

lemma tick_finish:
  assumes "status k = Finish" "finishEvent k = None" "clock_ok e k"
  shows "\<exists>k' t. tick e k = Inr (k', []) \<and> same_unit k k' \<and> kdata k' = kdata k \<and> computeEvent k' = computeEvent k \<and>
    clock_ok e k' \<and> status k' = Finish \<and> tickEvent k' = tickEvent k \<and> finishEvent k' = Some t \<and> regs k' = regs k"
proof -
  let ?k = "k\<lparr>active_cycle := active_cycle k + 1\<rparr>"
  have c: "clock_ok e ?k" using clock_ok_cong [of ?k k] assms(3) by simp
  obtain t cl where s: "schedule_finish e ?k = Inr (?k\<lparr>k_clock := cl, finishEvent := Some t\<rparr>)"
    "clock_inv (e_period e) (e_now e) cl" using schedule_finish_ok [OF c] assms(2) by auto
  have "tick e k = Inr (?k\<lparr>k_clock := cl, finishEvent := Some t\<rparr>, [])"
    using assms(1,2) s(1) by (simp add: tick_alt assertR_def isActive_def reschedule_def)
  moreover have "clock_ok e (?k\<lparr>k_clock := cl, finishEvent := Some t\<rparr>)"
    using clock_ok_again [OF c, of "?k\<lparr>k_clock := cl, finishEvent := Some t\<rparr>"] s(2) by simp
  ultimately show ?thesis using assms(1) by (simp add: same_unit_def)
qed

text \<open>The write of the result.\<close>

definition write_pkt :: "env \<Rightarrow> PIMKernel \<Rightarrow> u64 \<Rightarrow> Packet" where
  "write_pkt e k r = kernel_pkt e PIMWrite (fst (regs k ! 2)) 8 (le_bytes 8 r)
     (PIMSenderState_ids (e_junk e) (k_id k) 2)"

lemma doCompute_binary:
  assumes "binary k" "compute_op (unit_kind k) (kdata k ! 0) (kdata k ! 1) = Inr r"
  shows "doCompute k = Inr (r, k\<lparr>computing_counts := computing_counts k + 1\<rparr>)"
  using assms by (auto simp: doCompute_def Let_def vec_at_def binary_def compute_op_def)

lemma trycompute_accepted:
  assumes "binary k" "regs k = [(a0, dataFinish), (a1, dataFinish), (a2, dataReady)]" "isActive k"
    and "compute_op (unit_kind k) (kdata k ! 0) (kdata k ! 1) = Inr r" "e_accept e" "clock_ok e k"
  shows "\<exists>k'. trycompute e k = Inr (k', [TimingReq (write_pkt e k r) True]) \<and> kept k k' \<and> clock_ok e k' \<and>
    status k' = WaitingResp \<and> tickEvent k' = tickEvent k \<and> computeEvent k' = computeEvent k \<and>
    regs k' = [(a0, dataFinish), (a1, dataFinish), (a2, dataWaitingResp)]"
proof -
  let ?k = "k\<lparr>computing_counts := computing_counts k + 1\<rparr>"
  let ?k' = "?k\<lparr>status := WaitingResp, regs := [(a0, dataFinish), (a1, dataFinish), (a2, dataWaitingResp)],
    write_packets := write_packets k + 1\<rparr>"
  have b: "binary ?k" "regs ?k = [(a0, dataFinish), (a1, dataFinish), (a2, dataReady)]" "isActive ?k"
    using assms(1-3) by (simp_all add: binary_def isActive_def)
  have "trycompute e k = Inr (?k', [TimingReq (write_pkt e k r) True])"
    using assms(2,5) ready_3(3) [OF b]
    by (simp add: trycompute_def doCompute_binary [OF assms(1,4)] vec_at_def kernel_packet_pkt
        write_pkt_def set_reg_status_def)
  moreover have "clock_ok e ?k'" using clock_ok_cong [of ?k' k] assms(6) by simp
  ultimately show ?thesis by (simp add: kept_def same_unit_def)
qed

text \<open>The completion message, the retry of a read, and a response.\<close>

definition complete_pkt :: "env \<Rightarrow> PIMKernel \<Rightarrow> Packet" where
  "complete_pkt e k = kernel_pkt e PIM (pim_addr_base k - 1) 1 [e_fill e]
     (setCommand Complete (PIMSenderState_complete (e_junk e) (fst (regs k ! 0)) (fst (regs k ! 1))
        (fst (regs k ! 2)) (k_id k)))"

lemma finish_ok:
  assumes "length (regs k) = 3" "tickEvent k = None"
  shows "finish e k = Inr (k\<lparr>status := Idle\<rparr>, [FunctionalReq (complete_pkt e k)])"
  using assms by (simp add: finish_def assertR_def vec_at_def kernel_packet_pkt complete_pkt_def)

lemma recvReqRetry_ok:
  assumes "binary k" "length (regs k) = 3" "status k = SendRetry" "retry_pkt k = Some rp" "pimState rp = Some st"
    and "ps_procid st = int i" "i < 3" "finishEvent k = None" "clock_ok e k"
  shows "\<exists>k'. recvReqRetry e k = Inr (k', [TimingReq rp (e_accept e)]) \<and> kept k k' \<and> clock_ok e k' \<and>
    computeEvent k' = computeEvent k \<and> retry_pkt k' = retry_pkt k \<and>
    (if e_accept e then status k' = WaitingResp \<and> tickEvent k' \<noteq> None \<and>
       regs k' = (regs k)[i := (fst (regs k ! i), dataWaitingResp)]
     else status k' = SendRetry \<and> tickEvent k' = tickEvent k \<and> regs k' = regs k)"
proof -
  define k1 where "k1 = (if e_accept e then
      (let q = k\<lparr>retry_cycle := retry_cycle k + 1, status := WaitingResp, regs := (regs k)[i := (fst (regs k ! i), dataWaitingResp)]\<rparr>
       in if isRead (pcmd rp) then q\<lparr>read_retry := read_retry k + 1\<rparr> else q\<lparr>write_retry := write_retry k + 1\<rparr>)
    else k\<lparr>retry_cycle := retry_cycle k + 1, retry_failed := retry_failed k + 1\<rparr>)"
  have f: "kept k k1" "computeEvent k1 = computeEvent k" "retry_pkt k1 = retry_pkt k" "k_clock k1 = k_clock k"
    "k_latency k1 = k_latency k" "tickEvent k1 = tickEvent k" "finishEvent k1 = None"
    "status k1 = (if e_accept e then WaitingResp else SendRetry)"
    "regs k1 = (if e_accept e then (regs k)[i := (fst (regs k ! i), dataWaitingResp)] else regs k)"
    using assms(3,8) by (simp_all add: k1_def Let_def kept_def same_unit_def)
  have c: "clock_ok e k1" using clock_ok_cong [OF f(4,5)] assms(9) by simp
  obtain t cl where rs: "reschedule e k1 = Inr (k1\<lparr>tickEvent := t, k_clock := cl\<rparr>)"
    "t = (if needSchedule k1 \<and> tickEvent k1 = None \<and> finishEvent k1 = None then t else tickEvent k1)"
    "needSchedule k1 \<and> finishEvent k1 = None \<longrightarrow> t \<noteq> None" "clock_ok e (k1\<lparr>tickEvent := t, k_clock := cl\<rparr>)"
    using reschedule_ok [OF c] by blast
  have "readReg (int i) (k\<lparr>retry_cycle := retry_cycle k + 1\<rparr>) = Inr (int i < 2)"
    using assms(1,7) by (simp add: readReg_def binary_def assertR_def)
  moreover have "vec_at (regs k) i = Inr (regs k ! i)" using assms(2,7) by (simp add: vec_at_def)
  ultimately have "recvReqRetry e k = bindR (reschedule e k1) (\<lambda>k. ok (k, [TimingReq rp (e_accept e)]))"
    using assms(3-6)
    by (simp add: recvReqRetry_def Let_def set_reg_status_def reschedule_def [symmetric] k1_def)
  then show ?thesis using rs f by (auto simp: kept_def same_unit_def needSchedule_def)
qed

lemma recvTimingResp_ok:
  assumes "binary k" "length (regs k) = 3" "pimState pkt = Some st" "ps_procid st = int i" "i < 3"
    and "getPtr pkt = Inr d" "length d = 8" "clock_ok e k"
  shows "\<exists>k'. recvTimingResp e pkt k = Inr (k', []) \<and> same_unit k k' \<and> finishEvent k' = finishEvent k \<and>
    computeEvent k' = computeEvent k \<and> clock_ok e k' \<and> retry_pkt k' = retry_pkt k \<and> tickEvent k' \<noteq> None \<and>
    kdata k' = (kdata k)[i := of_le_bytes d] \<and> regs k' = (regs k)[i := (fst (regs k ! i), dataFinish)] \<and>
    status k' = (if \<forall>j < 3. snd (regs k' ! j) = dataFinish then Finish else status k)"
proof -
  let ?k1 = "k\<lparr>kdata := (kdata k)[i := of_le_bytes d], regs := (regs k)[i := (fst (regs k ! i), dataFinish)]\<rparr>"
  have b1: "binary ?k1" "length (regs ?k1) = 3" using assms(1,2) by (simp_all add: binary_def)
  obtain a0 s0 a1 s1 a2 s2 where r1: "regs ?k1 = [(a0, s0), (a1, s1), (a2, s2)]" using regs_3 [OF b1(2)] .
  let ?fin = "s0 = dataFinish \<and> s1 = dataFinish \<and> s2 = dataFinish"
  have gr: "getReadyStatus ?k1 = Inr ?fin"
    using ready_3(1,2) [OF b1(1) r1] r1 by (auto simp: getReadyStatus_def assertR_def)
  have fin: "?fin \<longleftrightarrow> (\<forall>j < 3. snd (regs ?k1 ! j) = dataFinish)"
    unfolding r1 by (auto simp: eval_nat_numeral less_Suc_eq)
  let ?k2 = "(if ?fin then ?k1\<lparr>status := Finish\<rparr> else ?k1)\<lparr>recPackets := recPackets k @ [pkt]\<rparr>"
  have vk: "vec_at (regs k) i = Inr (regs k ! i)" "vec_set (kdata k) i x = Inr ((kdata k)[i := x])" for x
    using assms(1,2,5) by (simp_all add: vec_at_def vec_set_def binary_def)
  have dc: "doDataCallback pkt k = Inr ?k2"
    using assms(1,3-7) vk gr
    by (simp add: doDataCallback_def assertR_def binary_def set_reg_status_def Let_def)
  have c2: "clock_ok e ?k2" using clock_ok_cong [of ?k2 k] assms(8) by simp
  have "\<exists>k'. (if tickEvent ?k2 = None then schedule_tick e ?k2 else ok ?k2) = Inr k' \<and> clock_ok e k' \<and>
      (\<exists>t c. k' = ?k2\<lparr>k_clock := c, tickEvent := Some t\<rparr>)"
  proof (cases "tickEvent ?k2")
    case None
    obtain t c where "schedule_tick e ?k2 = Inr (?k2\<lparr>k_clock := c, tickEvent := Some t\<rparr>)"
      "clock_inv (e_period e) (e_now e) c" using schedule_tick_ok [OF c2 None] by blast
    then show ?thesis using None clock_ok_again [OF c2, of "?k2\<lparr>k_clock := c, tickEvent := Some t\<rparr>"]
      by (intro exI [of _ "?k2\<lparr>k_clock := c, tickEvent := Some t\<rparr>"]) auto
  next
    case (Some t)
    then have "?k2 = ?k2\<lparr>k_clock := k_clock ?k2, tickEvent := Some t\<rparr>" by simp
    with c2 Some show ?thesis by (metis option.distinct(1))
  qed
  then obtain k' t c where k': "(if tickEvent ?k2 = None then schedule_tick e ?k2 else ok ?k2) = Inr k'" "clock_ok e k'"
    "k' = ?k2\<lparr>k_clock := c, tickEvent := Some t\<rparr>" by blast
  have "recvTimingResp e pkt k = Inr (k', [])"
    unfolding recvTimingResp_def dc bindR_simps k'(1) ..
  then show ?thesis using k'(2) fin unfolding k'(3) by (simp add: same_unit_def) blast
qed

text \<open>A command from the host, to a kernel that is free and to one that is not.\<close>

definition registration_pkt :: "env \<Rightarrow> PIMKernel \<Rightarrow> Addr list \<Rightarrow> Packet" where
  "registration_pkt e k as = kernel_pkt e PIM (pim_addr_base k - 1) 1 [e_fill e]
     (setCommand Registration ((PIMSenderState_ids (e_junk e) (k_id k) (-1))\<lparr>ps_addr := as\<rparr>))"

lemma load_regs_3:
  "length rs = 3 \<Longrightarrow> load_regs 0 [a0, a1, a2] rs = Inr [(a0, dataReady), (a1, dataReady), (a2, dataReady)]"
  by (auto simp: vec_set_def eval_nat_numeral length_Suc_conv)

lemma recvFunctional_start:
  assumes "binary k" "length (regs k) = 3" "status k \<in> {Idle, Poweroff}" "tickEvent k = None" "finishEvent k = None"
    and "pimState pkt = Some st" "ps_addr st = [a0, a1, a2]" "clock_ok e k"
  shows "\<exists>k' rp. recvFunctional e pkt k =
      Inr (k', [FunctionalReq (registration_pkt e k [a0, a1, a2]), TimingReq rp (e_accept e)]) \<and>
    rp = kernel_pkt e PIMRead a0 8 (replicate 8 (e_fill e)) (PIMSenderState_ids (e_junk e) (k_id k) 0) \<and>
    kept k k' \<and> computeEvent k' = computeEvent k \<and> clock_ok e k' \<and>
    (if e_accept e then status k' = WaitingResp \<and> tickEvent k' \<noteq> None \<and>
       regs k' = [(a0, dataWaitingResp), (a1, dataReady), (a2, dataReady)]
     else status k' = SendRetry \<and> tickEvent k' = None \<and> retry_pkt k' = Some rp \<and>
       regs k' = [(a0, dataReady), (a1, dataReady), (a2, dataReady)])"
proof -
  let ?k = "k\<lparr>recv_pim_commands := recv_pim_commands k + 1, sent_pim_commands := sent_pim_commands k + 1,
    exec_pim_commands := exec_pim_commands k + 1, regs := [(a0, dataReady), (a1, dataReady), (a2, dataReady)],
    tickid := ps_cycle st, status := Ready\<rparr>"
  have pre: "binary ?k" "length (regs ?k) = 3" "status ?k \<in> {Ready, WaitingResp}" "next_read ?k 0"
    "tickEvent ?k = None" "finishEvent ?k = None" "clock_ok e ?k"
    using assms clock_ok_cong [of ?k k] by (simp_all add: binary_def next_read_def)
  have rp: "read_pkt e ?k 0 = kernel_pkt e PIMRead a0 8 (replicate 8 (e_fill e)) (PIMSenderState_ids (e_junk e) (k_id k) 0)"
    by (simp add: read_pkt_def)
  obtain k' where t: "tick e ?k = Inr (k', [TimingReq (read_pkt e ?k 0) (e_accept e)])" "kept ?k k'"
    "computeEvent k' = computeEvent k" "clock_ok e k'"
    "if e_accept e then status k' = WaitingResp \<and> tickEvent k' \<noteq> None \<and>
       regs k' = (regs ?k)[0 := (fst (regs ?k ! 0), dataWaitingResp)]
     else status k' = SendRetry \<and> tickEvent k' = None \<and> regs k' = regs ?k \<and> retry_pkt k' = Some (read_pkt e ?k 0)"
    using tick_read [OF pre] by auto
  have free: "\<not> isActive k \<or> canModify k" using assms(3) by (auto simp: isActive_def canModify_def)
  have "recvFunctional e pkt k = bindR (tick e ?k) (\<lambda>(k, ms). ok (k, FunctionalReq (registration_pkt e k0 [a0, a1, a2]) # ms))"
    if "k0 = k" for k0
    using assms(2,6,7) free that
    by (simp add: recvFunctional_def Let_def kernel_packet_pkt start_def active_def load_regs_3 registration_pkt_def
        isActive_def canModify_def del: load_regs.simps)
  then have "recvFunctional e pkt k =
      Inr (k', [FunctionalReq (registration_pkt e k [a0, a1, a2]), TimingReq (read_pkt e ?k 0) (e_accept e)])"
    using t(1) by simp
  then show ?thesis using t(2-5) unfolding rp by (auto simp: kept_def same_unit_def)
qed

lemma recvFunctional_busy:
  assumes "status k \<notin> {Idle, Poweroff}" "pimState pkt = Some st"
  shows "recvFunctional e pkt k = Inr (k\<lparr>recv_pim_commands := recv_pim_commands k + 1,
      sent_pim_commands := sent_pim_commands k + 1, failed_pim_commands := failed_pim_commands k + 1\<rparr>,
    [FunctionalReq (registration_pkt e k (ps_addr st))])"
  using assms by (simp add: recvFunctional_def Let_def kernel_packet_pkt registration_pkt_def isActive_def canModify_def)

section \<open>A rejected write\<close>

lemma trycompute_rejected:
  assumes "binary k" "regs k = [(a0, dataFinish), (a1, dataFinish), (a2, dataReady)]" "isActive k"
    and "compute_op (unit_kind k) (kdata k ! 0) (kdata k ! 1) = Inr r" "\<not> e_accept e" "clock_ok e k" "computeEvent k = None"
  shows "\<exists>k' t. trycompute e k = Inr (k', [TimingReq (write_pkt e k r) False]) \<and> kept k k' \<and>
    status k' = SendRetry \<and> retry_pkt k' = Some (write_pkt e k r) \<and> computeEvent k' = Some t \<and> regs k' = regs k"
proof -
  let ?k = "k\<lparr>computing_counts := computing_counts k + 1\<rparr>"
  let ?k' = "?k\<lparr>retry_pkt := Some (write_pkt e k r), status := SendRetry, write_retry := write_retry k + 1\<rparr>"
  have b: "binary ?k" "regs ?k = [(a0, dataFinish), (a1, dataFinish), (a2, dataReady)]" "isActive ?k"
    using assms(1-3) by (simp_all add: binary_def isActive_def)
  have "clock_ok e ?k'" using clock_ok_cong [of ?k' k] assms(6) by simp
  then obtain t c where s: "schedule_compute e 1 ?k' = Inr (?k'\<lparr>k_clock := c, computeEvent := Some t\<rparr>)"
    using schedule_compute_ok [of e ?k' 1] assms(7) by auto
  have "trycompute e k = Inr (?k'\<lparr>k_clock := c, computeEvent := Some t\<rparr>, [TimingReq (write_pkt e k r) False])"
    using assms(2,5,7) ready_3(3) [OF b] s
    by (simp add: trycompute_def doCompute_binary [OF assms(1,4)] vec_at_def kernel_packet_pkt write_pkt_def Let_def)
  then show ?thesis by (simp add: kept_def same_unit_def)
qed

text \<open>A computation when no register is waiting for it runs off the registers.\<close>

lemma trycompute_stray:
  assumes "binary k" "regs k = [(a0, dataFinish), (a1, dataFinish), (a2, dataWaitingResp)]" "isActive k"
    and "compute_op (unit_kind k) (kdata k ! 0) (kdata k ! 1) = Inr r"
  shows "trycompute e k = Inl OutOfRange"
proof -
  let ?k = "k\<lparr>computing_counts := computing_counts k + 1\<rparr>"
  have b: "binary ?k" "regs ?k = [(a0, dataFinish), (a1, dataFinish), (a2, dataWaitingResp)]" "isActive ?k"
    using assms(1-3) by (simp_all add: binary_def isActive_def)
  show ?thesis using assms(2) ready_3(3) [OF b]
    by (simp add: trycompute_def doCompute_binary [OF assms(1,4)] vec_at_def)
qed

text \<open>When the port rejects the write of the result, the kernel both keeps the packet for the port's
  retry and schedules the computation again, and the two collide. If the retry comes first and is
  accepted, the scheduled computation then reads past the end of the registers; if the computation
  comes first and is accepted, the result is written by a second packet and the retry the port still
  owes trips an assertion.\<close>
theorem rejected_write_collides:
  assumes "binary k" "regs k = [(a0, dataFinish), (a1, dataFinish), (a2, dataReady)]" "status k = WaitingResp"
    and "computeEvent k = None" "finishEvent k = None" "\<not> e_accept e" "clock_ok e k"
    and "compute_op (unit_kind k) (kdata k ! 0) (kdata k ! 1) = Inr r"
  shows "\<exists>k' w. trycompute e k = Inr (k', [TimingReq w False]) \<and> status k' = SendRetry \<and>
    retry_pkt k' = Some w \<and> computeEvent k' \<noteq> None \<and>
    (\<forall>e1. e_accept e1 \<and> clock_ok e1 k' \<longrightarrow>
      (\<exists>k1. recvReqRetry e1 k' = Inr (k1, [TimingReq w True]) \<and>
        (\<forall>e2. trycompute e2 (k1\<lparr>computeEvent := None\<rparr>) = Inl OutOfRange))) \<and>
    (\<forall>e1. e_accept e1 \<and> clock_ok e1 k' \<longrightarrow>
      (\<exists>k1 w'. trycompute e1 (k'\<lparr>computeEvent := None\<rparr>) = Inr (k1, [TimingReq w' True]) \<and> pdata w' = pdata w \<and>
        (\<forall>e2. recvReqRetry e2 k1 = Inl AssertFailed)))"
proof -
  have act: "isActive k" using assms(3) by (simp add: isActive_def)
  let ?w = "write_pkt e k r"
  obtain k' t where k': "trycompute e k = Inr (k', [TimingReq ?w False])" "kept k k'" "status k' = SendRetry"
    "retry_pkt k' = Some ?w" "computeEvent k' = Some t" "regs k' = regs k"
    using trycompute_rejected [OF assms(1,2) act assms(8,6,7,4)] by blast
  have b': "binary k'" "isActive k'" "finishEvent k' = None" "compute_op (unit_kind k') (kdata k' ! 0) (kdata k' ! 1) = Inr r"
    using k'(2,3) assms(1,5,8) by (simp_all add: kstep_simps)
  have w: "pimState ?w = Some (PIMSenderState_ids (e_junk e) (k_id k) 2)"
    "ps_procid (PIMSenderState_ids (e_junk e) (k_id k) 2) = int 2"
    by (simp_all add: write_pkt_def PIMSenderState_ids_def)
  have 1: "\<exists>k1. recvReqRetry e1 k' = Inr (k1, [TimingReq ?w True]) \<and>
      (\<forall>e2. trycompute e2 (k1\<lparr>computeEvent := None\<rparr>) = Inl OutOfRange)"
    if acc: "e_accept e1" and ck: "clock_ok e1 k'" for e1
  proof -
    obtain k1 where k1: "recvReqRetry e1 k' = Inr (k1, [TimingReq ?w True])" "kept k' k1" "status k1 = WaitingResp"
      "regs k1 = (regs k')[2 := (fst (regs k' ! 2), dataWaitingResp)]"
      using recvReqRetry_ok [OF b'(1) _ k'(3,4) w, of e1] b'(3) k'(6) assms(2) acc ck by auto
    have "trycompute e2 (k1\<lparr>computeEvent := None\<rparr>) = Inl OutOfRange" for e2
      by (rule trycompute_stray [of _ a0 a1 a2 r]) (use k1 k' b' assms(2) in \<open>simp_all add: kstep_simps\<close>)
    with k1(1) show ?thesis by blast
  qed
  have 2: "\<exists>k1 w'. trycompute e1 (k'\<lparr>computeEvent := None\<rparr>) = Inr (k1, [TimingReq w' True]) \<and> pdata w' = pdata ?w \<and>
      (\<forall>e2. recvReqRetry e2 k1 = Inl AssertFailed)"
    if acc: "e_accept e1" and ck: "clock_ok e1 k'" for e1
  proof -
    let ?q = "k'\<lparr>computeEvent := None\<rparr>"
    have q: "binary ?q" "isActive ?q" "clock_ok e1 ?q" "regs ?q = [(a0, dataFinish), (a1, dataFinish), (a2, dataReady)]"
      "compute_op (unit_kind ?q) (kdata ?q ! 0) (kdata ?q ! 1) = Inr r"
      using b' ck clock_ok_cong [of ?q k'] k'(6) assms(2) by (simp_all add: binary_def isActive_def)
    obtain k1 where k1: "trycompute e1 ?q = Inr (k1, [TimingReq (write_pkt e1 ?q r) True])" "status k1 = WaitingResp"
      using trycompute_accepted [OF q(1,4,2,5) acc q(3)] by blast
    moreover have "recvReqRetry e2 k1 = Inl AssertFailed" for e2
      using k1(2) by (simp add: recvReqRetry_def Let_def)
    moreover have "pdata (write_pkt e1 ?q r) = pdata ?w" by (simp add: write_pkt_def)
    ultimately show ?thesis by blast
  qed
  show ?thesis
    by (rule exI [of _ k'], rule exI [of _ ?w]) (use k' 1 2 in auto)
qed

theorem rejected_write_collides_witness:
  "\<exists>k' w. trycompute \<lparr>e_now = 1000, e_period = 500, e_accept = False, e_junk = 0, e_fill = 0\<rparr>
      ((PIMKernel_new AdderUnit 0 1 2 1 0x1000)\<lparr>status := WaitingResp, kdata := [3, 4, 0],
        regs := [(0x100, dataFinish), (0x108, dataFinish), (0x110, dataReady)]\<rparr>) = Inr (k', [TimingReq w False]) \<and>
    retry_pkt k' = Some w \<and> computeEvent k' \<noteq> None"
proof -
  let ?e = "\<lparr>e_now = 1000, e_period = 500, e_accept = False, e_junk = 0, e_fill = 0\<rparr> :: env"
  let ?k = "(PIMKernel_new AdderUnit 0 1 2 1 0x1000)\<lparr>status := WaitingResp, kdata := [3, 4, 0],
        regs := [(0x100, dataFinish), (0x108, dataFinish), (0x110, dataReady)]\<rparr>"
  have "clock_inv (e_period ?e) 0 (k_clock ?k)" by (simp add: clock_inv_def PIMKernel_new_def Clock_init_def)
  then have c: "clock_ok ?e ?k" unfolding clock_ok_def by (auto simp: PIMKernel_new_def intro!: exI [of _ 0])
  have b: "binary ?k" "computeEvent ?k = None" "finishEvent ?k = None" "unit_kind ?k = AdderUnit"
    by (simp_all add: binary_def PIMKernel_new_def)
  have "compute_op (unit_kind ?k) (kdata ?k ! 0) (kdata ?k ! 1) = Inr 7" unfolding b(4) by (simp add: compute_op_def)
  from rejected_write_collides [of ?k "0x100" "0x108" "0x110" ?e, OF b(1) _ _ b(2,3) _ c this] show ?thesis by auto
qed

end
