(* ===== verification/Addr_Range.thy ===== *)
theory Addr_Range
  imports Bitfield
begin

text \<open>
  The address ranges of \<^verbatim>\<open>src/base/addr_range.hh\<close>: a closed interval of addresses, optionally one
  stripe of an interleaved interval, the stripe selected by a field of the address and optionally
  by the exclusive or of two fields. Every constructor, query and comparison of the class is here.
  The lemmas show that the stripes of one interleaving partition the interval, that the queries
  answer for the set of addresses they speak of, and that the offset of an address identifies it.
\<close>

section \<open>The class and its constructors\<close>

record AddrRange =
  r_start :: Addr
  r_end :: Addr
  intlvHighBit :: u8
  xorHighBit :: u8
  intlvBits :: u8
  intlvMatch :: u8

definition AddrRange_default :: AddrRange where
  "AddrRange_default = \<lparr>r_start = 1, r_end = 0, intlvHighBit = 0, xorHighBit = 0,
     intlvBits = 0, intlvMatch = 0\<rparr>"

definition AddrRange_intlv :: "Addr \<Rightarrow> Addr \<Rightarrow> u8 \<Rightarrow> u8 \<Rightarrow> u8 \<Rightarrow> u8 \<Rightarrow> AddrRange res" where
  "AddrRange_intlv s e high xhigh n mtch =
     (if n \<noteq> 0 \<and> 2 ^ unat n \<le> unat mtch then fail FatalError
      else if n \<noteq> 0 \<and> xhigh \<noteq> 0 \<and>
        (if xhigh = high then True
         else if xhigh > high then uint xhigh - uint high < uint n
         else uint high - uint xhigh < uint n)
      then fail FatalError
      else ok \<lparr>r_start = s, r_end = e, intlvHighBit = high, xorHighBit = xhigh,
             intlvBits = n, intlvMatch = mtch\<rparr>)"

definition AddrRange_simple :: "Addr \<Rightarrow> Addr \<Rightarrow> AddrRange" where
  "AddrRange_simple s e = \<lparr>r_start = s, r_end = e, intlvHighBit = 0, xorHighBit = 0,
     intlvBits = 0, intlvMatch = 0\<rparr>"

definition mergesWith :: "AddrRange \<Rightarrow> AddrRange \<Rightarrow> bool" where
  "mergesWith t r \<longleftrightarrow> r_start r = r_start t \<and> r_end r = r_end t \<and>
     intlvHighBit r = intlvHighBit t \<and> xorHighBit r = xorHighBit t \<and> intlvBits r = intlvBits t"

text \<open>The loop of the merging constructor: \<open>m\<close> is the local variable \<^verbatim>\<open>match\<close>, a \<^verbatim>\<open>uint8_t\<close>.\<close>

fun merge_check :: "AddrRange \<Rightarrow> AddrRange list \<Rightarrow> u8 \<Rightarrow> unit res" where
  "merge_check t [] m = ok ()"
| "merge_check t (r # rs) m =
     (if \<not> mergesWith t r then fail FatalError
      else if intlvMatch r \<noteq> m then fail FatalError
      else merge_check t rs (m + 1))"

definition AddrRange_merge :: "AddrRange list \<Rightarrow> AddrRange res" where
  "AddrRange_merge ranges =
     (case ranges of
        [] \<Rightarrow> ok AddrRange_default
      | f # _ \<Rightarrow>
          let t = f\<lparr>intlvMatch := 0\<rparr> in
          if length ranges \<noteq> 2 ^ unat (intlvBits t) then fail FatalError
          else bindR (merge_check t ranges 0)
                 (\<lambda>_. ok (t\<lparr>intlvHighBit := 0, xorHighBit := 0, intlvBits := 0\<rparr>)))"

section \<open>Queries\<close>

definition interleaved :: "AddrRange \<Rightarrow> bool" where
  "interleaved r \<longleftrightarrow> intlvBits r \<noteq> 0"

definition hashed :: "AddrRange \<Rightarrow> bool" where
  "hashed r \<longleftrightarrow> interleaved r \<and> xorHighBit r \<noteq> 0"

definition range_size :: "AddrRange \<Rightarrow> Addr" where
  "range_size r = drop_bit (unat (intlvBits r)) (r_end r - r_start r + 1)"

definition granularity :: "AddrRange \<Rightarrow> u64" where
  "granularity r =
     (if interleaved r then
        let intlv_low_bit = intlvHighBit r - intlvBits r + 1 in
        if hashed r then
          let xor_low_bit = xorHighBit r - intlvBits r + 1
          in push_bit (unat (min intlv_low_bit xor_low_bit)) 1
        else push_bit (unat intlv_low_bit) 1
      else range_size r)"

definition stripes :: "AddrRange \<Rightarrow> u32" where
  "stripes r = ucast (push_bit (unat (intlvBits r)) (1::u64))"

definition range_valid :: "AddrRange \<Rightarrow> bool" where
  "range_valid r \<longleftrightarrow> r_start r \<le> r_end r"

text \<open>The interleaving field of an address and the field it is hashed with.\<close>

definition intlv_field :: "AddrRange \<Rightarrow> Addr \<Rightarrow> u64" where
  "intlv_field r a = bits a (uint (intlvHighBit r))
     (uint (intlvHighBit r) - uint (intlvBits r) + 1)"

definition xor_field :: "AddrRange \<Rightarrow> Addr \<Rightarrow> u64" where
  "xor_field r a = bits a (uint (xorHighBit r))
     (uint (xorHighBit r) - uint (intlvBits r) + 1)"

definition contains :: "AddrRange \<Rightarrow> Addr \<Rightarrow> bool" where
  "contains r a =
     (let in_range = (a \<ge> r_start r \<and> a \<le> r_end r) in
      if \<not> interleaved r then in_range
      else if in_range then
        (if \<not> hashed r then intlv_field r a = ucast (intlvMatch r)
         else intlv_field r a XOR xor_field r a = ucast (intlvMatch r))
      else False)"

definition intersects :: "AddrRange \<Rightarrow> AddrRange \<Rightarrow> bool res" where
  "intersects t r =
     (if r_start t > r_end r \<or> r_end t < r_start r then ok False
      else if \<not> interleaved t \<and> \<not> interleaved r then ok True
      else if range_size r = 1 then ok (contains t (r_start r))
      else if mergesWith t r then ok (intlvMatch t = intlvMatch r)
      else fail Panicked)"

definition isSubset :: "AddrRange \<Rightarrow> AddrRange \<Rightarrow> bool res" where
  "isSubset t r =
     (if interleaved t then fail Panicked
      else if interleaved r then
        ok (contains r (r_start t) \<and> contains r (r_end t) \<and> range_size t \<le> granularity r)
      else ok (r_start t \<ge> r_start r \<and> r_end t \<le> r_end r))"

definition removeIntlvBits :: "AddrRange \<Rightarrow> Addr \<Rightarrow> Addr" where
  "removeIntlvBits r a =
     (let intlv_low_bit = uint (intlvHighBit r) - uint (intlvBits r) + 1
      in insertBits (drop_bit (unat (intlvBits r)) a) (intlv_low_bit - 1) 0 a)"

definition MaxAddr :: Addr where
  "MaxAddr = - 1"

definition getOffset :: "AddrRange \<Rightarrow> Addr \<Rightarrow> Addr" where
  "getOffset r a =
     (let in_range = (a \<ge> r_start r \<and> a \<le> r_end r) in
      if \<not> in_range then MaxAddr
      else if interleaved r then removeIntlvBits r a - removeIntlvBits r (r_start r)
      else a - r_start r)"

definition range_less :: "AddrRange \<Rightarrow> AddrRange \<Rightarrow> bool" where
  "range_less t r =
     (if r_start t \<noteq> r_start r then r_start t < r_start r else intlvMatch t < intlvMatch r)"

definition range_eq :: "AddrRange \<Rightarrow> AddrRange \<Rightarrow> bool" where
  "range_eq t r =
     (if r_start t \<noteq> r_start r then False
      else if r_end t \<noteq> r_end r then False
      else if intlvBits t \<noteq> intlvBits r then False
      else if intlvBits t \<noteq> 0 then
        (if intlvHighBit t \<noteq> intlvHighBit r then False
         else if intlvMatch t \<noteq> intlvMatch r then False else True)
      else True)"

definition range_neq :: "AddrRange \<Rightarrow> AddrRange \<Rightarrow> bool" where
  "range_neq t r \<longleftrightarrow> \<not> range_eq t r"

definition RangeEx :: "Addr \<Rightarrow> Addr \<Rightarrow> AddrRange" where
  "RangeEx s e = AddrRange_simple s (e - 1)"

definition RangeIn :: "Addr \<Rightarrow> Addr \<Rightarrow> AddrRange" where
  "RangeIn s e = AddrRange_simple s e"

definition RangeSize :: "Addr \<Rightarrow> Addr \<Rightarrow> AddrRange" where
  "RangeSize s n = AddrRange_simple s (s + n - 1)"

section \<open>Well-formed ranges\<close>

text \<open>
  What the six-argument constructor leaves to its caller: the fields lie within the 64 address
  bits. The other conjuncts are the constructor's own checks.
\<close>

definition wf_field :: "u8 \<Rightarrow> u8 \<Rightarrow> bool" where
  "wf_field high n \<longleftrightarrow> uint n \<le> uint high + 1 \<and> uint high \<le> 63"

definition wf_range :: "AddrRange \<Rightarrow> bool" where
  "wf_range r \<longleftrightarrow>
     (intlvBits r \<noteq> 0 \<longrightarrow>
        wf_field (intlvHighBit r) (intlvBits r) \<and> unat (intlvMatch r) < 2 ^ unat (intlvBits r) \<and>
        (xorHighBit r \<noteq> 0 \<longrightarrow> wf_field (xorHighBit r) (intlvBits r) \<and>
           (uint (intlvHighBit r) + uint (intlvBits r) \<le> uint (xorHighBit r) \<or>
            uint (xorHighBit r) + uint (intlvBits r) \<le> uint (intlvHighBit r))))"

definition range_set :: "AddrRange \<Rightarrow> Addr set" where
  "range_set r = {a. contains r a}"

lemma range_set_iff [simp]: "a \<in> range_set r \<longleftrightarrow> contains r a"
  by (simp add: range_set_def)

lemma contains_plain:
  "\<not> interleaved r \<Longrightarrow> contains r a \<longleftrightarrow> r_start r \<le> a \<and> a \<le> r_end r"
  by (simp add: contains_def Let_def)

lemma contains_in_range: "contains r a \<Longrightarrow> r_start r \<le> a \<and> a \<le> r_end r"
  by (auto simp: contains_def Let_def split: if_splits)

text \<open>The constructor accepts exactly the ranges that are well formed, given fields in place.\<close>

lemma AddrRange_intlv_wf:
  assumes "AddrRange_intlv s e high xhigh n mtch = Inr r"
    and "wf_field high n" "wf_field xhigh n"
  shows "wf_range r"
  using assms
  by (auto simp: AddrRange_intlv_def wf_range_def not_less word_less_alt split: if_splits)

section \<open>Stripes partition the interval\<close>

definition stripe_of :: "AddrRange \<Rightarrow> Addr \<Rightarrow> u64" where
  "stripe_of r a = (if hashed r then intlv_field r a XOR xor_field r a else intlv_field r a)"

lemma contains_stripe:
  "interleaved r \<Longrightarrow> contains r a \<longleftrightarrow> r_start r \<le> a \<and> a \<le> r_end r \<and> stripe_of r a = ucast (intlvMatch r)"
  by (auto simp: contains_def Let_def stripe_of_def)

lemma field_less:
  assumes "wf_field high n" "n \<noteq> 0"
  shows "unat (bits a (uint high) (uint high - uint n + 1)) < 2 ^ unat n"
  using bits_less [of "uint high - uint n + 1" "uint high" a] assms
  by (simp add: wf_field_def)

lemma xor_less_exp:
  assumes "unat (x::u64) < 2 ^ n" "unat y < 2 ^ n"
  shows "unat (x XOR y) < 2 ^ n"
proof -
  have "take_bit n x = x" "take_bit n y = y"
    using assms by (metis take_bit_nat_eq_self unsigned_take_bit_eq word_unat_eq_iff)+
  then have "take_bit n (x XOR y) = x XOR y" by (metis take_bit_xor)
  then show ?thesis by (metis take_bit_nat_less_exp unsigned_take_bit_eq)
qed

lemma stripe_of_less:
  assumes "wf_range r" "interleaved r"
  shows "unat (stripe_of r a) < 2 ^ unat (intlvBits r)"
  using assms field_less [of "intlvHighBit r" "intlvBits r" a]
    field_less [of "xorHighBit r" "intlvBits r" a]
  by (auto simp: stripe_of_def wf_range_def interleaved_def hashed_def intlv_field_def xor_field_def
      intro: xor_less_exp)

lemma stripe_of_match [simp]: "stripe_of (r\<lparr>intlvMatch := m\<rparr>) a = stripe_of r a"
  by (simp add: stripe_of_def hashed_def interleaved_def intlv_field_def xor_field_def)

text \<open>Interleaving partitions the interval: every address between the bounds of an interleaved range,
  hashed or not, belongs to the stripe of exactly one match value.\<close>
theorem stripes_partition:
  assumes "wf_range r" "interleaved r" "unat (intlvBits r) \<le> 8"
    and "r_start r \<le> a" "a \<le> r_end r"
  shows "\<exists>!m. unat m < 2 ^ unat (intlvBits r) \<and> contains (r\<lparr>intlvMatch := m\<rparr>) a"
proof -
  let ?v = "stripe_of r a"
  have lt: "unat ?v < 2 ^ unat (intlvBits r)" by (rule stripe_of_less [OF assms(1,2)])
  have "(2::nat) ^ unat (intlvBits r) \<le> 2 ^ 8" using assms(3) by (intro power_increasing) auto
  with lt have lt8: "unat ?v < 2 ^ 8" by linarith
  have c: "contains (r\<lparr>intlvMatch := m\<rparr>) a \<longleftrightarrow> ?v = ucast m" for m
    using assms contains_stripe [of "r\<lparr>intlvMatch := m\<rparr>" a] by (simp add: interleaved_def)
  have rt: "ucast (ucast ?v :: u8) = ?v"
    using lt8 by (simp add: word_unat_eq_iff unsigned_ucast_eq unsigned_take_bit_eq take_bit_nat_eq_self)
  show ?thesis
  proof (rule ex1I [of _ "ucast ?v"])
    show "unat (ucast ?v :: u8) < 2 ^ unat (intlvBits r) \<and> contains (r\<lparr>intlvMatch := ucast ?v\<rparr>) a"
      using lt lt8 by (simp only: c rt) (simp add: unsigned_ucast_eq take_bit_nat_eq_self)
  next
    fix m assume "unat m < 2 ^ unat (intlvBits r) \<and> contains (r\<lparr>intlvMatch := m\<rparr>) a"
    then have "?v = ucast m" by (simp add: c)
    then show "m = ucast ?v" by simp
  qed
qed

section \<open>Offsets identify addresses\<close>

lemma bit_removeIntlvBits:
  assumes "wf_field (intlvHighBit r) (intlvBits r)" "i < 64"
  shows "bit (removeIntlvBits r a) i \<longleftrightarrow>
    (if int i \<le> uint (intlvHighBit r) - uint (intlvBits r) then bit a i
     else bit a (i + unat (intlvBits r)))"
proof -
  have "0 \<le> uint (intlvHighBit r) - uint (intlvBits r) + 1" "uint (intlvHighBit r) - uint (intlvBits r) \<le> 63"
    using assms(1) uint_ge_0 [of "intlvBits r"] unfolding wf_field_def by linarith+
  then show ?thesis
    using assms(2) by (auto simp: removeIntlvBits_def Let_def bit_insertBits bit_drop_bit_eq add.commute)
qed

text \<open>Two addresses with equal remainders differ at most in the interleaving field.\<close>

lemma removeIntlvBits_eqD:
  assumes "wf_field (intlvHighBit r) (intlvBits r)"
    and "removeIntlvBits r a = removeIntlvBits r b"
    and "int i \<le> uint (intlvHighBit r) - uint (intlvBits r) \<or> uint (intlvHighBit r) < int i"
  shows "bit a i \<longleftrightarrow> bit b i"
proof (cases "i < 64")
  case True
  show ?thesis
  proof (cases "int i \<le> uint (intlvHighBit r) - uint (intlvBits r)")
    case low: True
    with bit_removeIntlvBits [OF assms(1) True] assms(2) show ?thesis by metis
  next
    case False
    with assms(3) have hi: "uint (intlvHighBit r) < int i" by simp
    then have "uint (intlvBits r) \<le> int i" using assms(1) unfolding wf_field_def by linarith
    then have "int (unat (intlvBits r)) \<le> int i" by simp
    then have le: "unat (intlvBits r) \<le> i" by (simp only: of_nat_le_iff)
    let ?j = "i - unat (intlvBits r)"
    have "int ?j = int i - uint (intlvBits r)" using le by simp
    then have "\<not> int ?j \<le> uint (intlvHighBit r) - uint (intlvBits r)" "?j < 64" "?j + unat (intlvBits r) = i"
      using hi True le by auto
    with bit_removeIntlvBits [OF assms(1), of ?j] assms(2) show ?thesis by metis
  qed
next
  case False
  then show ?thesis using bit_imp_le_length by fastforce
qed

text \<open>Removing the interleaving bits loses nothing within a stripe: two addresses of one range with
  the same offset are the same address.\<close>
theorem getOffset_inj:
  assumes wf: "wf_range r" and "contains r a" "contains r b" "getOffset r a = getOffset r b"
  shows "a = b"
proof (cases "interleaved r")
  case False
  with assms contains_in_range [of r a] contains_in_range [of r b] show ?thesis
    by (simp add: getOffset_def Let_def)
next
  case True
  let ?hi = "uint (intlvHighBit r)" and ?n = "uint (intlvBits r)" and ?x = "uint (xorHighBit r)"
  have wfi: "wf_field (intlvHighBit r) (intlvBits r)" and n0: "intlvBits r \<noteq> 0"
    using wf True by (auto simp: wf_range_def interleaved_def)
  have eq: "removeIntlvBits r a = removeIntlvBits r b"
    using assms(4) True contains_in_range [OF assms(2)] contains_in_range [OF assms(3)]
    by (simp add: getOffset_def Let_def)
  have st: "stripe_of r a = stripe_of r b"
    using assms(2,3) True by (simp add: contains_stripe)
  have outside: "bit a i \<longleftrightarrow> bit b i" if "int i \<le> ?hi - ?n \<or> ?hi < int i" for i
    by (rule removeIntlvBits_eqD [OF wfi eq that])
  have "intlv_field r a = intlv_field r b"
  proof (cases "hashed r")
    case True
    then have wfx: "wf_field (xorHighBit r) (intlvBits r)" "?hi + ?n \<le> ?x \<or> ?x + ?n \<le> ?hi"
      using wf by (auto simp: wf_range_def hashed_def interleaved_def)
    have "xor_field r a = xor_field r b"
    proof (rule bit_word_eqI)
      fix i
      show "bit (xor_field r a) i \<longleftrightarrow> bit (xor_field r b) i"
        using wfx outside [of "nat (?x - ?n + 1) + i"]
        by (auto simp: xor_field_def wf_field_def bit_bits)
    qed
    with st True show ?thesis by (auto simp: stripe_of_def bit_eq_iff bit_xor_iff)
  next
    case False
    with st show ?thesis by (simp add: stripe_of_def)
  qed
  then have inside: "bit a i \<longleftrightarrow> bit b i" if "?hi - ?n < int i" "int i \<le> ?hi" for i
  proof -
    let ?l = "?hi - ?n + 1"
    let ?k = "i - nat ?l"
    have "0 \<le> ?l" using wfi by (simp add: wf_field_def)
    then have k: "nat ?l + ?k = i" "?l + int ?k \<le> ?hi" using that by auto
    have "bit (intlv_field r a) ?k \<longleftrightarrow> bit (intlv_field r b) ?k"
      using \<open>intlv_field r a = intlv_field r b\<close> by simp
    then show ?thesis
      using wfi k by (simp add: intlv_field_def wf_field_def bit_bits)
  qed
  show ?thesis
    by (rule bit_word_eqI) (metis inside outside linorder_not_less)
qed

section \<open>Queries answer for sets of addresses\<close>

theorem intersects_plain_iff:
  assumes "\<not> interleaved t" "\<not> interleaved r" "range_valid t" "range_valid r"
  shows "intersects t r = Inr (range_set t \<inter> range_set r \<noteq> {})"
proof -
  have "range_set t \<inter> range_set r \<noteq> {} \<longleftrightarrow> r_start t \<le> r_end r \<and> r_start r \<le> r_end t" (is "?l \<longleftrightarrow> ?r")
  proof
    assume ?l
    then obtain a where "contains t a" "contains r a" by auto
    then show ?r using contains_in_range [of t a] contains_in_range [of r a] by auto
  next
    assume ?r
    then have "contains t (max (r_start t) (r_start r)) \<and> contains r (max (r_start t) (r_start r))"
      using assms by (simp add: contains_plain range_valid_def)
    then show ?l by auto
  qed
  with assms show ?thesis
    by (auto simp: intersects_def range_valid_def not_less)
qed

text \<open>Two stripes of one interleaving that are told apart share no address.\<close>

text \<open>When the intersection test of two ranges, interleaved or not, answers no, the ranges share no
  address.\<close>
theorem intersects_False_disjoint:
  assumes "intersects t r = Inr False" "range_valid r" "range_size r = 1 \<longrightarrow> r_start r = r_end r"
  shows "range_set t \<inter> range_set r = {}"
proof -
  have "\<not> (contains t a \<and> contains r a)" for a
  proof
    assume a: "contains t a \<and> contains r a"
    note ia = contains_in_range [of t a] contains_in_range [of r a]
    have ov: "\<not> (r_start t > r_end r \<or> r_end t < r_start r)" using a ia by auto
    show False
    proof (cases "range_size r = 1")
      case True
      with assms ov a ia show ?thesis by (auto simp: intersects_def split: if_splits)
    next
      case False
      with assms(1) ov have mw: "mergesWith t r" "intlvMatch t \<noteq> intlvMatch r" "interleaved t \<or> interleaved r"
        by (auto simp: intersects_def split: if_splits)
      then have il: "interleaved t" "interleaved r" by (auto simp: mergesWith_def interleaved_def)
      have "stripe_of t a = stripe_of r a"
        using mw(1) by (simp add: mergesWith_def stripe_of_def hashed_def interleaved_def intlv_field_def xor_field_def)
      then have "(ucast (intlvMatch t) :: u64) = ucast (intlvMatch r)"
        using a il by (metis contains_stripe)
      then have "intlvMatch t = intlvMatch r" by (rule ucast_u8_inj)
      then show ?thesis using mw(2) by simp
    qed
  qed
  then show ?thesis by auto
qed

lemma div_between:
  fixes s a e g :: nat
  assumes "s \<le> a" "a \<le> e" "e - s < g" 
  shows "a div g = s div g \<or> a div g = e div g"
proof -
  have "0 < g" using assms by auto
  have "e div g \<le> Suc (s div g)"
  proof -
    have "e \<le> s + (g - 1)" using assms by linarith
    then have "e div g \<le> (s + g) div g" by (intro div_le_mono) linarith
    then show ?thesis using \<open>0 < g\<close> by (simp add: div_add_self2)
  qed
  moreover have "s div g \<le> a div g" "a div g \<le> e div g" using assms by (auto intro: div_le_mono)
  ultimately show ?thesis by linarith
qed

text \<open>An address enters a stripe only through its granule.\<close>

lemma field_granule:
  assumes "wf_field high n" "int g \<le> uint high - uint n + 1" "drop_bit g a = drop_bit g b"
  shows "bits a (uint high) (uint high - uint n + 1) = bits b (uint high) (uint high - uint n + 1)"
proof (rule bit_word_eqI)
  fix i
  let ?k = "nat (uint high - uint n + 1) + i"
  have "g \<le> ?k" using assms(2) by linarith
  then have "bit a ?k \<longleftrightarrow> bit b ?k" by (rule bit_of_drop_bit [OF assms(3)])
  then show "bit (bits a (uint high) (uint high - uint n + 1)) i \<longleftrightarrow>
      bit (bits b (uint high) (uint high - uint n + 1)) i"
    using assms(1) uint_ge_0 [of n] by (simp add: wf_field_def bit_bits)
qed

lemma low_bit_u8:
  assumes "wf_field high n"
  shows "uint (high - n + 1) = uint high - uint n + 1"
proof -
  have "0 \<le> uint high - uint n + 1" "uint high - uint n + 1 < 256"
    using assms uint_ge_0 [of n] unfolding wf_field_def by linarith+
  then show ?thesis by (simp add: uint_word_ariths mod_simps)
qed

lemma granularity_interleaved:
  assumes "wf_range r" "interleaved r"
  obtains g where "granularity r = push_bit g 1" "g < 64"
    "int g \<le> uint (intlvHighBit r) - uint (intlvBits r) + 1"
    "hashed r \<longrightarrow> int g \<le> uint (xorHighBit r) - uint (intlvBits r) + 1"
proof -
  let ?li = "intlvHighBit r - intlvBits r + 1" and ?lx = "xorHighBit r - intlvBits r + 1"
  let ?g = "if hashed r then unat (min ?li ?lx) else unat ?li"
  have n: "0 < uint (intlvBits r)"
    using assms(2) uint_ge_0 [of "intlvBits r"] uint_0_iff [of "intlvBits r"]
    unfolding interleaved_def by linarith
  have li: "uint ?li = uint (intlvHighBit r) - uint (intlvBits r) + 1" "uint (intlvHighBit r) \<le> 63"
    using assms low_bit_u8 [of "intlvHighBit r" "intlvBits r"]
    by (auto simp: wf_range_def interleaved_def wf_field_def)
  have lx: "uint ?lx = uint (xorHighBit r) - uint (intlvBits r) + 1" if "hashed r"
    using assms low_bit_u8 [of "xorHighBit r" "intlvBits r"] that
    by (auto simp: wf_range_def interleaved_def hashed_def)
  have min: "uint (min ?li ?lx) = min (uint ?li) (uint ?lx)"
    by (auto simp: min_def word_le_def)
  have g: "granularity r = push_bit ?g 1"
    using assms(2) by (simp add: granularity_def Let_def)
  have ig: "int ?g = (if hashed r then min (uint ?li) (uint ?lx) else uint ?li)"
    using min by simp
  have "int ?g < 64" using ig li n by (auto split: if_splits)
  then have "?g < 64" by linarith
  then show thesis
    by (rule that [OF g]) (use ig li lx in \<open>auto split: if_splits\<close>)
qed

theorem isSubset_sound:
  assumes "isSubset t r = Inr True" "wf_range r" "unat (r_end t - r_start t) + 1 < 2 ^ 64"
  shows "range_set t \<subseteq> range_set r"
proof
  fix a assume "a \<in> range_set t"
  then have ct: "contains t a" by simp
  have nt: "\<not> interleaved t" using assms(1) by (auto simp: isSubset_def split: if_splits)
  then have a: "r_start t \<le> a" "a \<le> r_end t" using ct by (auto simp: contains_plain)
  show "a \<in> range_set r"
  proof (cases "interleaved r")
    case False
    with assms(1) nt a show ?thesis by (auto simp: isSubset_def contains_plain split: if_splits)
  next
    case True
    then have sub: "contains r (r_start t)" "contains r (r_end t)" "range_size t \<le> granularity r"
      using assms(1) nt by (auto simp: isSubset_def split: if_splits)
    obtain g where g: "granularity r = push_bit g 1" "g < 64"
      "int g \<le> uint (intlvHighBit r) - uint (intlvBits r) + 1"
      "hashed r \<longrightarrow> int g \<le> uint (xorHighBit r) - uint (intlvBits r) + 1"
      using granularity_interleaved [OF assms(2) True] .
    have "unat (push_bit g 1 :: u64) = 2 ^ g"
      using g(2) by (simp add: push_bit_eq_mult unat_pow2)
    moreover have "unat (range_size t) = unat (r_end t - r_start t) + 1"
      using nt assms(3) by (simp add: range_size_def interleaved_def unat_word_ariths)
    ultimately have "unat (r_end t - r_start t) < 2 ^ g"
      using sub(3) g(1) by (simp add: word_le_nat_alt)
    then have "unat (r_end t) - unat (r_start t) < 2 ^ g"
      using a by (simp add: unat_sub word_le_nat_alt)
    then have "unat a div 2 ^ g = unat (r_start t) div 2 ^ g \<or> unat a div 2 ^ g = unat (r_end t) div 2 ^ g"
      using a by (intro div_between) (auto simp: word_le_nat_alt)
    then have "drop_bit g a = drop_bit g (r_start t) \<or> drop_bit g a = drop_bit g (r_end t)"
      by (simp add: word_unat_eq_iff unat_drop_bit)
    then obtain b where b: "contains r b" "drop_bit g a = drop_bit g b" using sub by blast
    have wf: "wf_field (intlvHighBit r) (intlvBits r)" "hashed r \<longrightarrow> wf_field (xorHighBit r) (intlvBits r)"
      using assms(2) True by (auto simp: wf_range_def interleaved_def hashed_def)
    have "intlv_field r a = intlv_field r b"
      unfolding intlv_field_def by (rule field_granule [OF wf(1) g(3) b(2)])
    moreover have "hashed r \<longrightarrow> xor_field r a = xor_field r b"
      unfolding xor_field_def using field_granule [OF _ _ b(2)] wf(2) g(4) by blast
    ultimately have "stripe_of r a = stripe_of r b" by (simp add: stripe_of_def)
    moreover have "r_start r \<le> a" "a \<le> r_end r"
      using contains_in_range [OF sub(1)] contains_in_range [OF sub(2)] a by auto
    ultimately show ?thesis using b(1) True by (simp add: contains_stripe)
  qed
qed

section \<open>Merging the stripes\<close>

lemma merge_check_nth:
  "merge_check t rs m = Inr () \<Longrightarrow> i < length rs \<Longrightarrow>
     mergesWith t (rs ! i) \<and> intlvMatch (rs ! i) = m + of_nat i"
  by (induction t rs m arbitrary: i rule: merge_check.induct)
     (auto simp: nth_Cons' add.assoc split: if_splits)

lemma mergesWith_eqD: "mergesWith t r \<Longrightarrow> r = t\<lparr>intlvMatch := intlvMatch r\<rparr>"
  by (simp add: mergesWith_def)

lemma merge_union:
  assumes "AddrRange_merge ranges = Inr m" "ranges \<noteq> []"
    and "list_all wf_range ranges" "list_all (\<lambda>r. unat (intlvBits r) \<le> 8) ranges"
  shows "\<not> interleaved m \<and> range_set m = (\<Union>r\<in>set ranges. range_set r)"
proof -
  obtain f fs where fs: "ranges = f # fs" using assms(2) by (cases ranges) auto
  let ?t = "f\<lparr>intlvMatch := 0\<rparr>"
  have len: "length ranges = 2 ^ unat (intlvBits f)" and chk: "merge_check ?t ranges 0 = Inr ()"
    and m: "m = ?t\<lparr>intlvHighBit := 0, xorHighBit := 0, intlvBits := 0\<rparr>"
    using assms(1) by (auto simp: AddrRange_merge_def fs Let_def bindR_eq_Inr split: if_splits)
  have nth: "ranges ! i = f\<lparr>intlvMatch := of_nat i\<rparr>" if "i < length ranges" for i
    using merge_check_nth [OF chk that] mergesWith_eqD by (metis AddrRange.surjective AddrRange.update_convs(6) add_0)
  have cm: "contains m a \<longleftrightarrow> r_start f \<le> a \<and> a \<le> r_end f" for a
    by (simp add: m contains_def Let_def interleaved_def)
  have "a \<in> (\<Union>r\<in>set ranges. range_set r)" if "contains m a" for a
  proof (cases "interleaved f")
    case False
    then have "contains f a" using that cm by (simp add: contains_plain)
    then show ?thesis by (auto simp: fs)
  next
    case True
    have "\<exists>!k. unat k < 2 ^ unat (intlvBits f) \<and> contains (f\<lparr>intlvMatch := k\<rparr>) a"
      by (rule stripes_partition) (use assms(3,4) fs True that cm in auto)
    then obtain k where k: "unat k < length ranges" "contains (f\<lparr>intlvMatch := k\<rparr>) a"
      by (auto simp: len)
    have "contains (ranges ! unat k) a" using nth [OF k(1)] k(2) by simp
    then show ?thesis using k(1) by (auto intro!: bexI [OF _ nth_mem])
  qed
  moreover have "contains m a" if "a \<in> (\<Union>r\<in>set ranges. range_set r)" for a
  proof -
    from that obtain i where "i < length ranges" "contains (ranges ! i) a"
      by (auto simp: in_set_conv_nth)
    then show ?thesis using contains_in_range [of "ranges ! i" a] nth [of i] by (simp add: cm)
  qed
  ultimately have "range_set m = (\<Union>r\<in>set ranges. range_set r)" by (auto simp: range_set_def)
  then show ?thesis by (simp add: m interleaved_def)
qed

text \<open>The constructor that merges interleaved ranges, when it accepts its list, gives a range without
  interleaving whose addresses are exactly those of the ranges merged.\<close>
theorem AddrRange_merge_union:
  assumes "AddrRange_merge ranges = Inr m" "ranges \<noteq> []"
    and "list_all wf_range ranges" "list_all (\<lambda>r. unat (intlvBits r) \<le> 8) ranges"
  shows "\<not> interleaved m \<and> range_set m = (\<Union>r\<in>set ranges. range_set r)"
  by (rule merge_union [OF assms])

section \<open>The order of ranges\<close>

lemma range_less_irrefl: "\<not> range_less r r"
  by (simp add: range_less_def)

lemma range_less_trans: "range_less a b \<Longrightarrow> range_less b c \<Longrightarrow> range_less a c"
  by (auto simp: range_less_def split: if_splits)

lemma range_less_linear: "range_less a b \<or> range_less b a \<or> (r_start a = r_start b \<and> intlvMatch a = intlvMatch b)"
  by (auto simp: range_less_def)

definition striped :: "u8 \<Rightarrow> AddrRange" where
  "striped k = \<lparr>r_start = 0x1000, r_end = 0x1fff, intlvHighBit = 7, xorHighBit = 0, intlvBits = 1, intlvMatch = k\<rparr>"

lemma striped_wf: "k < 2 \<Longrightarrow> wf_range (striped k)" "interleaved (striped k)" "unat (intlvBits (striped k)) \<le> 8"
  by (simp_all add: striped_def wf_range_def wf_field_def interleaved_def word_less_nat_alt)

theorem stripes_partition_witness:
  "\<exists>!m. unat m < 2 ^ unat (intlvBits (striped 0)) \<and> contains ((striped 0)\<lparr>intlvMatch := m\<rparr>) 0x1080"
  by (rule stripes_partition) (simp_all add: striped_wf, simp_all add: striped_def)

lemma striped_contains: "contains (striped 0) 0x1000" "contains (striped 0) 0x1100"
  by code_simp+

theorem getOffset_inj_witness: "getOffset (striped 0) 0x1100 \<noteq> getOffset (striped 0) 0x1000"
  using getOffset_inj [OF striped_wf(1) striped_contains(2,1)] by auto

theorem AddrRange_merge_union_witness:
  "\<exists>m. AddrRange_merge [striped 0, striped 1] = Inr m \<and>
    \<not> interleaved m \<and> range_set m = (\<Union>r\<in>set [striped 0, striped 1]. range_set r)"
proof -
  have m: "AddrRange_merge [striped 0, striped 1] = Inr (AddrRange_simple 0x1000 0x1fff)" by code_simp
  then show ?thesis using AddrRange_merge_union [OF m] striped_wf by auto
qed

theorem intersects_False_disjoint_witness: "range_set (striped 0) \<inter> range_set (striped 1) = {}"
proof (rule intersects_False_disjoint)
  show "intersects (striped 0) (striped 1) = Inr False" by code_simp
  show "range_valid (striped 1)" by (simp add: striped_def range_valid_def)
  show "range_size (striped 1) = 1 \<longrightarrow> r_start (striped 1) = r_end (striped 1)" by code_simp
qed

end
