(* ===== verification/Abstract_Mem.thy ===== *)
theory Abstract_Mem
  imports Mem_Packet Addr_Range
begin

text \<open>
  The memory of \<^verbatim>\<open>src/mem/abstract_mem.cc\<close>: a block of bytes with the reservations of
  load-locked accesses and, for processing in memory, the queue of operations a PIM kernel has
  registered and not yet completed. An access that touches an address of a registered operation is
  held back by the memory port (\<open>stalledAddr\<close>, used in \<^verbatim>\<open>src/mem/dram_ctrl.cc\<close>).

  \<^verbatim>\<open>access\<close> and \<^verbatim>\<open>functionalAccess\<close> are whole: every branch, assertion and panic of the source.
  The back pointers to other objects are made explicit: an access returns the contexts whose
  exclusive monitors it clears, a completion is given the processor object found by name, with its
  caches, and returns the caches it flushed and the context it wakes. The lemmas show that the
  memory implements a function from addresses to bytes, that a store-conditional succeeds exactly
  when its reservation is still standing, and what the queue of operations blocks and releases.
\<close>

section \<open>State\<close>

record LockedAddr =
  la_addr :: Addr
  la_contextId :: int

text \<open>\<open>pmem\<close> is the host memory behind \<^verbatim>\<open>pmemAddr\<close>, absent for a null memory.\<close>

record AbstractMemory =
  am_range :: AddrRange
  pmem :: "u8 list option"
  lockedAddrList :: "LockedAddr list"
  pendingPIMqueue :: "PIMSenderState list"
  cpu_type :: string
  coherence_granularity :: int
  bytesRead :: "16 word \<Rightarrow> nat"
  bytesInstRead :: "16 word \<Rightarrow> nat"
  bytesWritten :: "16 word \<Rightarrow> nat"
  numReads :: "16 word \<Rightarrow> nat"
  numWrites :: "16 word \<Rightarrow> nat"
  numOther :: "16 word \<Rightarrow> nat"

definition AbstractMemory_new :: "AddrRange \<Rightarrow> string \<Rightarrow> int \<Rightarrow> AbstractMemory" where
  "AbstractMemory_new r cpu g = \<lparr>am_range = r, pmem = None, lockedAddrList = [], pendingPIMqueue = [],
     cpu_type = cpu, coherence_granularity = g, bytesRead = (\<lambda>_. 0), bytesInstRead = (\<lambda>_. 0),
     bytesWritten = (\<lambda>_. 0), numReads = (\<lambda>_. 0), numWrites = (\<lambda>_. 0), numOther = (\<lambda>_. 0)\<rparr>"

definition setBackingStore :: "u8 list \<Rightarrow> AbstractMemory \<Rightarrow> AbstractMemory" where
  "setBackingStore bs m = m\<lparr>pmem := Some bs\<rparr>"

definition count :: "16 word \<Rightarrow> nat \<Rightarrow> (16 word \<Rightarrow> nat) \<Rightarrow> 16 word \<Rightarrow> nat" where
  "count i n f = f(i := f i + n)"

section \<open>Load-locked and store-conditional\<close>

definition lock_mask :: "Addr \<Rightarrow> Addr" where
  "lock_mask a = a AND NOT 0xf"

definition matchesContext :: "Request \<Rightarrow> LockedAddr \<Rightarrow> bool res" where
  "matchesContext req l = bindR (contextId req) (\<lambda>c. ok (la_contextId l = c))"

fun track_scan :: "Request \<Rightarrow> Addr \<Rightarrow> LockedAddr list \<Rightarrow> LockedAddr list option res" where
  "track_scan req a [] = ok None"
| "track_scan req a (l # ls) = bindR (matchesContext req l) (\<lambda>b.
     if b then ok (Some (l\<lparr>la_addr := a\<rparr> # ls))
     else bindR (track_scan req a ls) (\<lambda>r. ok (map_option (Cons l) r)))"

definition trackLoadLocked :: "Packet \<Rightarrow> AbstractMemory \<Rightarrow> AbstractMemory res" where
  "trackLoadLocked pkt m =
     bindR (getPaddr (preq pkt)) (\<lambda>pa.
     bindR (track_scan (preq pkt) (lock_mask pa) (lockedAddrList m)) (\<lambda>r.
       case r of
         Some ls \<Rightarrow> ok (m\<lparr>lockedAddrList := ls\<rparr>)
       | None \<Rightarrow> bindR (contextId (preq pkt)) (\<lambda>c.
           ok (m\<lparr>lockedAddrList := \<lparr>la_addr = lock_mask pa, la_contextId = c\<rparr> # lockedAddrList m\<rparr>))))"

text \<open>The first loop of \<^verbatim>\<open>checkLockedAddrList\<close> looks for the requester's reservation.\<close>

fun sc_holds :: "Request \<Rightarrow> Addr \<Rightarrow> LockedAddr list \<Rightarrow> bool res" where
  "sc_holds req a [] = ok False"
| "sc_holds req a (l # ls) =
     (if la_addr l = a
      then bindR (matchesContext req l) (\<lambda>b. if b then ok True else sc_holds req a ls)
      else sc_holds req a ls)"

text \<open>
  The second removes every reservation on the address and clears the exclusive monitor of the other
  contexts that held one.
\<close>

fun erase_locks :: "Request \<Rightarrow> Addr \<Rightarrow> LockedAddr list \<Rightarrow> (LockedAddr list \<times> int list) res" where
  "erase_locks req a [] = ok ([], [])"
| "erase_locks req a (l # ls) =
     (if la_addr l = a
      then bindR (contextId req) (\<lambda>requester. bindR (erase_locks req a ls) (\<lambda>(ls', cl).
             ok (ls', (if la_contextId l \<noteq> requester then [la_contextId l] else []) @ cl)))
      else bindR (erase_locks req a ls) (\<lambda>(ls', cl). ok (l # ls', cl)))"

definition checkLockedAddrList :: "Packet \<Rightarrow> AbstractMemory
    \<Rightarrow> (bool \<times> Packet \<times> AbstractMemory \<times> int list) res" where
  "checkLockedAddrList pkt m =
     bindR (getPaddr (preq pkt)) (\<lambda>pa.
     (let a = lock_mask pa; llsc = isLLSC (pcmd pkt) in
      bindR (if llsc then sc_holds (preq pkt) a (lockedAddrList m) else ok True) (\<lambda>allowStore.
      (let pkt' = (if llsc then pkt\<lparr>preq := setExtraData (if allowStore then 1 else 0) (preq pkt)\<rparr>
                   else pkt)
       in if allowStore then
            bindR (erase_locks (preq pkt') a (lockedAddrList m)) (\<lambda>(ls, cl).
              ok (True, pkt', m\<lparr>lockedAddrList := ls\<rparr>, cl))
          else ok (False, pkt', m, [])))))"

definition writeOK :: "Packet \<Rightarrow> AbstractMemory \<Rightarrow> (bool \<times> Packet \<times> AbstractMemory \<times> int list) res" where
  "writeOK pkt m =
     (if lockedAddrList m = [] then
        ok (if isLLSC (pcmd pkt)
            then (False, pkt\<lparr>preq := setExtraData 0 (preq pkt)\<rparr>, m, [])
            else (True, pkt, m, []))
      else checkLockedAddrList pkt m)"

section \<open>Timing and atomic accesses\<close>

definition hostOffset :: "AbstractMemory \<Rightarrow> Addr \<Rightarrow> nat" where
  "hostOffset m a = unat (a - r_start (am_range m))"

text \<open>
  \<^verbatim>\<open>SwapReq\<close>: an atomic operation applied in place, or an exchange, conditional on the request's
  extra data if it asks for it.
\<close>

definition swap_condition :: "Packet \<Rightarrow> u8 list \<Rightarrow> nat \<Rightarrow> bool res" where
  "swap_condition pkt mem off =
     (if isCondSwap (preq pkt) then
        bindR (getSize pkt) (\<lambda>n.
          if n = 8 then bindR (getExtraData (preq pkt)) (\<lambda>x. ok (le_bytes 8 x = take 8 (drop off mem)))
          else if n = 4 then bindR (getExtraData (preq pkt)) (\<lambda>x. ok (le_bytes 4 x = take 4 (drop off mem)))
          else fail Panicked)
      else ok True)"

definition access_swap :: "Packet \<Rightarrow> AbstractMemory \<Rightarrow> (AbstractMemory \<times> Packet) res" where
  "access_swap pkt m =
     (let off = hostOffset m (paddr pkt) in
      if isAtomic (preq pkt) then
        (case pmem m of
           None \<Rightarrow> ok (m, pkt)
         | Some mem \<Rightarrow>
             bindR (setData mem off pkt) (\<lambda>pkt'.
             bindR (getAtomicOpFunctor (preq pkt)) (\<lambda>f.
             bindR (memcpy mem off (f (take (unat (psize pkt)) (drop off mem))) 0 (unat (psize pkt))) (\<lambda>mem'.
               ok (m\<lparr>pmem := Some mem'\<rparr>, pkt')))))
      else
        (case pmem m of
           None \<Rightarrow> fail Panicked
         | Some mem \<Rightarrow>
             bindR (getSize pkt) (\<lambda>n.
             bindR (writeData (replicate (unat n) 0) 0 pkt) (\<lambda>overwrite_val.
             bindR (setData mem off pkt) (\<lambda>pkt'.
             bindR (swap_condition pkt mem off) (\<lambda>overwrite_mem.
             bindR (if overwrite_mem then memcpy mem off overwrite_val 0 (unat n) else ok mem) (\<lambda>mem'.
             assertR (\<not> isInstFetch (preq pkt))
               (ok (m\<lparr>pmem := Some mem', numOther := count (req_masterId (preq pkt)) 1 (numOther m)\<rparr>,
                    pkt')))))))))"

definition access_read :: "Packet \<Rightarrow> AbstractMemory \<Rightarrow> (AbstractMemory \<times> Packet) res" where
  "access_read pkt m =
     assertR (\<not> isWrite (pcmd pkt))
     (bindR (if isLLSC (pcmd pkt)
             then assertR (\<not> fromCache (pcmd pkt)) (trackLoadLocked pkt m)
             else ok m) (\<lambda>m1.
      bindR (case pmem m1 of
               Some mem \<Rightarrow> setData mem (hostOffset m1 (paddr pkt)) pkt
             | None \<Rightarrow> ok pkt) (\<lambda>pkt'.
      bindR (getSize pkt) (\<lambda>n.
      (let mid = req_masterId (preq pkt) in
       ok (m1\<lparr>numReads := count mid 1 (numReads m1),
              bytesRead := count mid (unat n) (bytesRead m1),
              bytesInstRead := (if isInstFetch (preq pkt)
                then count mid (unat n) (bytesInstRead m1) else bytesInstRead m1)\<rparr>,
           pkt'))))))"

definition access_write :: "Packet \<Rightarrow> AbstractMemory \<Rightarrow> (AbstractMemory \<times> Packet \<times> int list) res" where
  "access_write pkt m =
     bindR (writeOK pkt m) (\<lambda>(okay, pkt', m1, cl).
       if okay then
         bindR (case pmem m1 of
                  Some mem \<Rightarrow> bindR (writeData mem (hostOffset m1 (paddr pkt')) pkt') (\<lambda>mem'. ok (Some mem'))
                | None \<Rightarrow> ok None) (\<lambda>mem'.
         assertR (\<not> isInstFetch (preq pkt'))
         (bindR (getSize pkt') (\<lambda>n.
         (let mid = req_masterId (preq pkt') in
          ok (m1\<lparr>pmem := mem', numWrites := count mid 1 (numWrites m1),
                 bytesWritten := count mid (unat n) (bytesWritten m1)\<rparr>,
              pkt', cl)))))
       else ok (m1, pkt', cl))"

definition respond :: "Packet \<Rightarrow> Packet res" where
  "respond pkt = (if needsResponse (pcmd pkt) then makeResponse pkt else ok pkt)"

text \<open>The result is the memory, the packet, and the contexts whose exclusive monitors were cleared.\<close>

definition access :: "Packet \<Rightarrow> AbstractMemory \<Rightarrow> (AbstractMemory \<times> Packet \<times> int list) res" where
  "access pkt m =
     (if cacheResponding pkt then ok (m, pkt, [])
      else if pcmd pkt = CleanEvict \<or> pcmd pkt = WritebackClean then ok (m, pkt, [])
      else
        bindR (getAddr pkt) (\<lambda>a. bindR (getSize pkt) (\<lambda>n.
        bindR (isSubset (AddrRange_simple a (a + ucast (n - 1))) (am_range m)) (\<lambda>inside.
        assertR inside
        (bindR
          (if pcmd pkt = SwapReq then bindR (access_swap pkt m) (\<lambda>(m', p'). ok (m', p', []))
           else if isRead (pcmd pkt) then bindR (access_read pkt m) (\<lambda>(m', p'). ok (m', p', []))
           else if isInvalidate (pcmd pkt) \<or> isClean (pcmd pkt)
             then assertR (\<not> isWrite (pcmd pkt)) (ok (m, pkt, []))
           else if isWrite (pcmd pkt) then access_write pkt m
           else fail Panicked)
          (\<lambda>(m', p', cl). bindR (respond p') (\<lambda>r. ok (m', r, cl))))))))"

section \<open>Functional accesses and the queue of PIM operations\<close>

text \<open>
  \<^verbatim>\<open>functionalData\<close> copies into \<^verbatim>\<open>&res\<close>, the local pointer, instead of the buffer it points to:
  the caller's buffer is the result, unchanged. More than the eight bytes of the pointer overrun it.
\<close>

definition functionalData :: "Addr \<Rightarrow> nat \<Rightarrow> u8 list \<Rightarrow> AbstractMemory \<Rightarrow> u8 list res" where
  "functionalData a n buf m =
     (case pmem m of
        None \<Rightarrow> fail NullPointer
      | Some mem \<Rightarrow> bindR (memcpy (replicate 8 0) 0 mem (hostOffset m a) n) (\<lambda>_. ok buf))"

text \<open>
  A processor as the completion of an operation sees it: its caches, of a type \<open>'c\<close> with the
  operations \<open>check\<close> and \<open>flush\<close> that stand for \<^verbatim>\<open>Cache::check_addr\<close> and
  \<^verbatim>\<open>BaseCache::flushPIM\<close>, and the context its current thread runs. Flushing an address may write
  a dirty block back: the functional write it sends is part of the result.
\<close>

record 'c host_cpu =
  hc_caches :: "'c list"
  hc_context :: int

fun find_pending :: "Addr \<Rightarrow> PIMSenderState list \<Rightarrow> nat option res" where
  "find_pending a [] = ok None"
| "find_pending a (s # ss) =
     bindR (vec_at (ps_addr s) 0) (\<lambda>a0.
       if a0 = a \<and> a0 = a \<and> a0 = a then ok (Some 0)
       else bindR (find_pending a ss) (\<lambda>r. ok (map_option Suc r)))"

type_synonym 'c flush_op = "'c \<Rightarrow> Addr \<Rightarrow> 'c \<times> Packet option"

definition flush_one :: "('c \<Rightarrow> Addr \<Rightarrow> bool) \<Rightarrow> 'c flush_op \<Rightarrow> Addr \<Rightarrow> 'c \<times> Packet list \<Rightarrow> 'c \<times> Packet list" where
  "flush_one check flush a cw =
     (if check (fst cw) a
      then (let (c', w) = flush (fst cw) a in (c', snd cw @ (case w of Some p \<Rightarrow> [p] | None \<Rightarrow> [])))
      else cw)"

definition flush_cache :: "('c \<Rightarrow> Addr \<Rightarrow> bool) \<Rightarrow> 'c flush_op \<Rightarrow> Addr list \<Rightarrow> 'c \<Rightarrow> 'c \<times> Packet list" where
  "flush_cache check flush as c = fold (flush_one check flush) as (c, [])"

text \<open>
  The completion of an operation: the entry is looked up by its first address, the flag
  \<^verbatim>\<open>threadid\<close> is a \<^verbatim>\<open>bool\<close> and so 0 or 1, the processor is found by name, its caches give up the
  three addresses, a context is woken and the entry leaves the queue.
\<close>

definition complete_pim :: "('c \<Rightarrow> Addr \<Rightarrow> bool) \<Rightarrow> 'c flush_op \<Rightarrow> (string \<Rightarrow> 'c host_cpu option)
    \<Rightarrow> PIMSenderState \<Rightarrow> AbstractMemory \<Rightarrow> (AbstractMemory \<times> ('c \<times> Packet list) list \<times> int) res" where
  "complete_pim check flush find_obj st m =
     bindR (if pendingPIMqueue m = [] then ok None
            else bindR (vec_at (ps_addr st) 0) (\<lambda>a. find_pending a (pendingPIMqueue m))) (\<lambda>idx.
     case idx of
       None \<Rightarrow> fail AssertFailed
     | Some i \<Rightarrow>
         (let e = pendingPIMqueue m ! i;
              threadid = (if ps_threadid e \<noteq> 0 then 1 else 0 :: int);
              cpu = (case find_obj ''system.cpu'' of
                       Some c \<Rightarrow> Some c
                     | None \<Rightarrow> find_obj (''system.cpu'' @ (if threadid = 1 then ''1'' else ''0'')))
          in case cpu of
               None \<Rightarrow> fail AssertFailed
             | Some c \<Rightarrow>
                 bindR (if hc_caches c = [] then ok []
                        else bindR (vec_at (ps_addr e) 0) (\<lambda>a0. bindR (vec_at (ps_addr e) 1) (\<lambda>a1.
                             bindR (vec_at (ps_addr e) 2) (\<lambda>a2. ok [a0, a1, a2])))) (\<lambda>as.
                 bindR (if cpu_type m = ''TimingSimpleCPU'' then ok (hc_context c)
                        else if cpu_type m = ''DerivO3CPU'' then ok threadid
                        else fail FatalError) (\<lambda>ctx.
                   ok (m\<lparr>pendingPIMqueue := take i (pendingPIMqueue m) @ drop (Suc i) (pendingPIMqueue m)\<rparr>,
                       map (flush_cache check flush as) (hc_caches c), ctx)))))"

text \<open>
  The result is the memory, the packet unless it was deleted, and for a completion the flushed caches,
  each with the write-backs it sent, and the woken context.
\<close>

definition functionalAccess :: "('c \<Rightarrow> Addr \<Rightarrow> bool) \<Rightarrow> 'c flush_op \<Rightarrow> (string \<Rightarrow> 'c host_cpu option)
    \<Rightarrow> Packet \<Rightarrow> AbstractMemory
    \<Rightarrow> (AbstractMemory \<times> Packet option \<times> (('c \<times> Packet list) list \<times> int) option) res" where
  "functionalAccess check flush find_obj pkt m =
     (if isPIM (pcmd pkt) then
        (case pimState pkt of
           None \<Rightarrow> fail AssertFailed
         | Some st \<Rightarrow>
             if isRegistration st
             then ok (m\<lparr>pendingPIMqueue := pendingPIMqueue m @ [st]\<rparr>, None, None)
             else if isComplete st
             then bindR (complete_pim check flush find_obj st m) (\<lambda>(m', cs, ctx).
                    ok (m', Some pkt, Some (cs, ctx)))
             else ok (m, Some pkt, None))
      else
        bindR (getAddr pkt) (\<lambda>a. bindR (getSize pkt) (\<lambda>n.
        bindR (isSubset (AddrRange_simple a (a + ucast n - 1)) (am_range m)) (\<lambda>inside.
        assertR inside
        (if isRead (pcmd pkt) then
           bindR (case pmem m of Some mem \<Rightarrow> setData mem (hostOffset m a) pkt | None \<Rightarrow> ok pkt) (\<lambda>p'.
           bindR (makeResponse p') (\<lambda>r. ok (m, Some r, None)))
         else if isWrite (pcmd pkt) then
           bindR (case pmem m of
                    Some mem \<Rightarrow> bindR (writeData mem (hostOffset m a) pkt) (\<lambda>mem'. ok (m\<lparr>pmem := Some mem'\<rparr>))
                  | None \<Rightarrow> ok m) (\<lambda>m'.
           bindR (makeResponse pkt) (\<lambda>r. ok (m', Some r, None)))
         else if isPrint (pcmd pkt) then
           (case senderState pkt of
              PrintState # _ \<Rightarrow> if pmem m = None then fail NullPointer else ok (m, Some pkt, None)
            | _ \<Rightarrow> fail AssertFailed)
         else fail Panicked)))))"

definition checkPIMReady :: "AbstractMemory \<Rightarrow> bool" where
  "checkPIMReady m \<longleftrightarrow> length (pendingPIMqueue m) > 0"

text \<open>Granules are compared by integer division at 64 bits; a granularity of 0 divides by zero.\<close>

definition granule :: "AbstractMemory \<Rightarrow> Addr \<Rightarrow> u64" where
  "granule m a = a div word_of_int (coherence_granularity m)"

definition stalledAddr :: "Packet \<Rightarrow> AbstractMemory \<Rightarrow> bool res" where
  "stalledAddr pkt m =
     (if list_all (\<lambda>s. ps_addr s = []) (pendingPIMqueue m) then ok False
      else if (word_of_int (coherence_granularity m) :: u64) = 0 then fail DivisionByZero
      else bindR (getAddr pkt) (\<lambda>a.
        ok (list_ex (\<lambda>s. list_ex (\<lambda>b. granule m b = granule m a) (ps_addr s)) (pendingPIMqueue m))))"

text \<open>\<^verbatim>\<open>DRAMCtrl::MemoryPort::recvTimingReq\<close>: the request is refused, or passed to the controller.\<close>

definition port_blocks :: "Packet \<Rightarrow> AbstractMemory \<Rightarrow> bool res" where
  "port_blocks pkt m =
     (if \<not> isPIM (pcmd pkt) \<and> (isRead (pcmd pkt) \<or> isWrite (pcmd pkt)) then stalledAddr pkt m
      else ok False)"

section \<open>The memory as a function from addresses to bytes\<close>

definition mem_wf :: "AbstractMemory \<Rightarrow> bool" where
  "mem_wf m \<longleftrightarrow> \<not> interleaved (am_range m) \<and> range_valid (am_range m) \<and>
     (case pmem m of
        None \<Rightarrow> True
      | Some mem \<Rightarrow> length mem = unat (r_end (am_range m)) - unat (r_start (am_range m)) + 1)"

definition byte_map :: "AbstractMemory \<Rightarrow> Addr \<Rightarrow> u8 option" where
  "byte_map m a = (case pmem m of
     None \<Rightarrow> None
   | Some mem \<Rightarrow> if contains (am_range m) a then Some (mem ! hostOffset m a) else None)"

text \<open>A packet with its own data buffer whose bytes all lie in the memory.\<close>

definition fits :: "AbstractMemory \<Rightarrow> Packet \<Rightarrow> bool" where
  "fits m p \<longleftrightarrow> isSet (pflags p) VALID_ADDR \<and> isSet (pflags p) VALID_SIZE \<and>
     isSet (pflags p) (STATIC_DATA OR DYNAMIC_DATA) \<and> length (pdata p) = unat (psize p) \<and>
     0 < unat (psize p) \<and> r_start (am_range m) \<le> paddr p \<and>
     unat (paddr p) + unat (psize p) \<le> unat (r_end (am_range m)) + 1"

definition touches :: "Packet \<Rightarrow> Addr \<Rightarrow> bool" where
  "touches p a \<longleftrightarrow> paddr p \<le> a \<and> unat a < unat (paddr p) + unat (psize p)"

lemma hostOffset_nat:
  "r_start (am_range m) \<le> a \<Longrightarrow> hostOffset m a = unat a - unat (r_start (am_range m))"
  by (simp add: hostOffset_def unat_sub)

lemma fits_accessors:
  assumes "fits m p"
  shows "getAddr p = Inr (paddr p)" "getSize p = Inr (psize p)" "getPtr p = Inr (pdata p)"
  using assms by (simp_all add: fits_def getAddr_def getSize_def getPtr_def assertR_def)

lemma fits_last:
  assumes "fits m p"
  shows "unat (paddr p + ucast (psize p - 1)) = unat (paddr p) + unat (psize p) - 1"
    "unat (paddr p + ucast (psize p) - 1) = unat (paddr p) + unat (psize p) - 1"
proof -
  have n: "0 < unat (psize p)" "unat (paddr p) + unat (psize p) \<le> 2 ^ 64"
    using assms unsigned_less [of "r_end (am_range m)", where ?'a = nat] by (simp_all add: fits_def)
  have "unat (psize p - 1) = unat (psize p) - 1" using n(1) by (simp add: unat_minus_one unat_gt_0 word_neq_0_conv)
  then have u: "unat (ucast (psize p - 1) :: u64) = unat (psize p) - 1"
    using unsigned_less [of "psize p", where ?'a = nat]
    by (simp add: unsigned_ucast_eq take_bit_nat_eq_self)
  show "unat (paddr p + ucast (psize p - 1)) = unat (paddr p) + unat (psize p) - 1"
    using n by (simp add: unat_word_ariths u)
  have "unat (ucast (psize p) :: u64) = unat (psize p)"
    using unsigned_less [of "psize p", where ?'a = nat]
    by (simp add: unsigned_ucast_eq take_bit_nat_eq_self)
  then show "unat (paddr p + ucast (psize p) - 1) = unat (paddr p) + unat (psize p) - 1"
    using last_byte [of "ucast (psize p)" "paddr p"] n by simp
qed

lemma fits_inside:
  assumes "fits m p" "mem_wf m"
  shows "isSubset (AddrRange_simple (paddr p) (paddr p + ucast (psize p - 1))) (am_range m) = Inr True"
    "isSubset (AddrRange_simple (paddr p) (paddr p + ucast (psize p) - 1)) (am_range m) = Inr True"
  using fits_last [OF assms(1)] assms
  by (auto simp: isSubset_def AddrRange_simple_def interleaved_def mem_wf_def fits_def word_le_nat_alt)

lemma fits_offset:
  assumes "fits m p" "mem_wf m" "pmem m = Some mem"
  shows "hostOffset m (paddr p) + unat (psize p) \<le> length mem"
    "hostOffset m (paddr p) = unat (paddr p) - unat (r_start (am_range m))"
  using assms by (auto simp: hostOffset_nat fits_def mem_wf_def word_le_nat_alt)

lemma setData_fits:
  assumes "fits m p" "mem_wf m" "pmem m = Some mem"
  shows "setData mem (hostOffset m (paddr p)) p =
    Inr (p\<lparr>pdata := take (unat (psize p)) (drop (hostOffset m (paddr p)) mem)\<rparr>)"
  using fits_accessors [OF assms(1)] fits_offset [OF assms] assms(1)
  by (simp add: setData_def memcpy_def fits_def)

lemma writeData_fits:
  assumes "fits m p" "mem_wf m" "pmem m = Some mem"
  shows "writeData mem (hostOffset m (paddr p)) p =
    Inr (take (hostOffset m (paddr p)) mem @ pdata p @ drop (hostOffset m (paddr p) + unat (psize p)) mem)"
  using fits_accessors [OF assms(1)] fits_offset [OF assms] assms(1)
  by (simp add: writeData_def memcpy_def fits_def)

text \<open>The bytes a write leaves behind.\<close>

lemma byte_map_write:
  assumes "fits m p" "mem_wf m" "pmem m = Some mem"
    and m': "pmem m' = Some (take (hostOffset m (paddr p)) mem @ pdata p @
       drop (hostOffset m (paddr p) + unat (psize p)) mem)" "am_range m' = am_range m"
  shows "mem_wf m' \<and> byte_map m' =
    (\<lambda>a. if touches p a then Some (pdata p ! (unat a - unat (paddr p))) else byte_map m a)"
proof -
  let ?o = "hostOffset m (paddr p)" and ?n = "unat (psize p)"
  note fo = fits_offset [OF assms(1-3)]
  have len: "length (pdata p) = ?n" using assms(1) by (simp add: fits_def)
  have wf: "mem_wf m'" using assms(2,3) m' fo(1) len by (simp add: mem_wf_def)
  have "byte_map m' a = (if touches p a then Some (pdata p ! (unat a - unat (paddr p))) else byte_map m a)" for a
  proof (cases "contains (am_range m) a")
    case False
    then have "\<not> touches p a"
      using assms(1,2) by (auto simp: contains_plain mem_wf_def touches_def fits_def word_le_nat_alt)
    with False show ?thesis using m' assms(3) by (simp add: byte_map_def)
  next
    case True
    then have st: "r_start (am_range m) \<le> a" using assms(2) by (simp add: contains_plain mem_wf_def)
    have h: "hostOffset m' a = unat a - unat (r_start (am_range m))" "hostOffset m a = unat a - unat (r_start (am_range m))"
      using st m'(2) by (simp_all add: hostOffset_nat)
    have lo: "unat (r_start (am_range m)) \<le> unat (paddr p)" "unat (r_start (am_range m)) \<le> unat a"
      using assms(1) st by (simp_all add: fits_def word_le_nat_alt)
    show ?thesis
      using True m' assms(3) h fo lo len
      by (auto simp: byte_map_def nth_append touches_def word_le_nat_alt)
  qed
  with wf show ?thesis by blast
qed

lemma byte_map_cong: "pmem m' = pmem m \<Longrightarrow> am_range m' = am_range m \<Longrightarrow> byte_map m' = byte_map m"
  by (cases "pmem m") (simp_all add: byte_map_def fun_eq_iff hostOffset_def)

lemma mem_wf_cong: "pmem m' = pmem m \<Longrightarrow> am_range m' = am_range m \<Longrightarrow> mem_wf m' = mem_wf m"
  by (cases "pmem m") (simp_all add: mem_wf_def)

lemma byte_map_fits:
  assumes "fits m p" "mem_wf m" "pmem m = Some mem" "touches p a"
  shows "byte_map m a = Some (take (unat (psize p)) (drop (hostOffset m (paddr p)) mem) ! (unat a - unat (paddr p)))"
proof -
  have st: "r_start (am_range m) \<le> a" "a \<le> r_end (am_range m)"
    using assms by (auto simp: fits_def touches_def word_le_nat_alt)
  then have "contains (am_range m) a" using assms(2) by (simp add: contains_plain mem_wf_def)
  moreover have "hostOffset m a = hostOffset m (paddr p) + (unat a - unat (paddr p))"
    using st assms by (simp add: hostOffset_nat fits_def touches_def word_le_nat_alt)
  moreover have "unat a - unat (paddr p) < unat (psize p)" using assms(4) by (auto simp: touches_def word_le_nat_alt)
  moreover have "hostOffset m (paddr p) + unat (psize p) \<le> length mem" by (rule fits_offset(1) [OF assms(1-3)])
  ultimately show ?thesis using assms(3) by (simp add: byte_map_def)
qed

lemma read_commands:
  "isRead c \<and> isRequest c \<and> c \<noteq> SwapReq \<longrightarrow> \<not> isWrite c \<and> c \<noteq> CleanEvict \<and> c \<noteq> WritebackClean \<and> needsResponse c"
proof -
  have "\<forall>c. isRead c \<and> isRequest c \<and> c \<noteq> SwapReq \<longrightarrow>
    \<not> isWrite c \<and> c \<noteq> CleanEvict \<and> c \<noteq> WritebackClean \<and> needsResponse c" by code_simp
  then show ?thesis by blast
qed

lemma makeResponse_request:
  "isRequest (pcmd p) \<Longrightarrow> needsResponse (pcmd p) \<Longrightarrow>
    makeResponse p = Inr (clear_pflags EXPRESS_SNOOP (p\<lparr>pcmd := responseCommand (pcmd p)\<rparr>))"
  by (simp add: makeResponse_def assertR_def)

text \<open>The part of \<^verbatim>\<open>access\<close> before the branches, for a packet that fits.\<close>

lemma access_fits:
  assumes "fits m p" "mem_wf m" "\<not> cacheResponding p" "pcmd p \<noteq> CleanEvict" "pcmd p \<noteq> WritebackClean"
  shows "access p m =
    bindR (if pcmd p = SwapReq then bindR (access_swap p m) (\<lambda>(m', p'). ok (m', p', []))
           else if isRead (pcmd p) then bindR (access_read p m) (\<lambda>(m', p'). ok (m', p', []))
           else if isInvalidate (pcmd p) \<or> isClean (pcmd p)
             then assertR (\<not> isWrite (pcmd p)) (ok (m, p, []))
           else if isWrite (pcmd p) then access_write p m
           else fail Panicked)
          (\<lambda>(m', p', cl). bindR (respond p') (\<lambda>r. ok (m', r, cl)))"
  unfolding access_def fits_accessors [OF assms(1)] bindR_simps fits_inside(1) [OF assms(1,2)] assertR_def
  using assms(3-5) by simp

lemma access_read_bytes:
  assumes "mem_wf m" "pmem m = Some mem" "fits m p" "\<not> cacheResponding p"
    and "isRequest (pcmd p)" "isRead (pcmd p)" "pcmd p \<noteq> SwapReq" "\<not> isLLSC (pcmd p)"
  shows "\<exists>m' r. access p m = Inr (m', r, []) \<and> pcmd r = responseCommand (pcmd p) \<and>
    (\<forall>a. touches p a \<longrightarrow> byte_map m a = Some (pdata r ! (unat a - unat (paddr p)))) \<and>
    senderState r = senderState p \<and> pmem m' = pmem m \<and> am_range m' = am_range m \<and>
    cpu_type m' = cpu_type m \<and> coherence_granularity m' = coherence_granularity m \<and> getPtr r = Inr (pdata r) \<and> length (pdata r) = unat (psize p) \<and> byte_map m' = byte_map m \<and> mem_wf m' \<and>
    lockedAddrList m' = lockedAddrList m \<and> pendingPIMqueue m' = pendingPIMqueue m \<and>
    numReads m' (req_masterId (preq p)) = numReads m (req_masterId (preq p)) + 1"
proof -
  note rc = read_commands [rule_format, of "pcmd p"]
  let ?d = "take (unat (psize p)) (drop (hostOffset m (paddr p)) mem)"
  obtain m' where ar: "access_read p m = Inr (m', p\<lparr>pdata := ?d\<rparr>)" "pmem m' = pmem m" "am_range m' = am_range m"
    "lockedAddrList m' = lockedAddrList m" "pendingPIMqueue m' = pendingPIMqueue m"
    "numReads m' (req_masterId (preq p)) = numReads m (req_masterId (preq p)) + 1"
    "cpu_type m' = cpu_type m" "coherence_granularity m' = coherence_granularity m"
    using assms rc setData_fits [OF assms(3,1,2)] fits_accessors [OF assms(3)]
    by (simp add: access_read_def assertR_def Let_def count_def)
  have "access p m = Inr (m', clear_pflags EXPRESS_SNOOP (p\<lparr>pdata := ?d, pcmd := responseCommand (pcmd p)\<rparr>), [])"
    using assms rc by (simp add: access_fits ar(1) respond_def makeResponse_request)
  moreover have "byte_map m' = byte_map m" using ar(2,3) by (rule byte_map_cong)
  moreover have "mem_wf m'" using assms(1) mem_wf_cong [OF ar(2,3)] by simp
  moreover have "isSet (clear_flags EXPRESS_SNOOP (pflags p)) (STATIC_DATA OR DYNAMIC_DATA)"
    using assms(3) by (simp add: fits_def flag_simps)
  moreover have "length ?d = unat (psize p)" using fits_offset(1) [OF assms(3,1,2)] by simp
  ultimately show ?thesis
    using ar byte_map_fits [OF assms(3,1,2)]
    by (simp add: clear_pflags_def getPtr_def assertR_def)
qed

text \<open>A read of the memory answers with the bytes the memory holds at the addresses of the packet, in
  the response command of the request; it changes neither a byte of the memory nor the reservations
  nor the queue of PIM operations, and it is counted.\<close>
theorem access_read_exact:
  assumes "mem_wf m" "pmem m = Some mem" "fits m p" "\<not> cacheResponding p"
    and "isRequest (pcmd p)" "isRead (pcmd p)" "pcmd p \<noteq> SwapReq" "\<not> isLLSC (pcmd p)"
  shows "\<exists>m' r. access p m = Inr (m', r, []) \<and> pcmd r = responseCommand (pcmd p) \<and>
    (\<forall>a. touches p a \<longrightarrow> byte_map m a = Some (pdata r ! (unat a - unat (paddr p)))) \<and>
    senderState r = senderState p \<and> byte_map m' = byte_map m \<and> mem_wf m' \<and>
    lockedAddrList m' = lockedAddrList m \<and> pendingPIMqueue m' = pendingPIMqueue m \<and>
    numReads m' (req_masterId (preq p)) = numReads m (req_masterId (preq p)) + 1"
  using access_read_bytes [OF assms] by blast

theorem access_read_exact_witness:
  "\<exists>m' r. access ((Packet_new (Request_phys 0x1002 2 0 0 0) ReadReq)\<lparr>pflags := 0x2300, pdata := [0, 0]\<rparr>)
      (setBackingStore [10, 11, 12, 13] (AbstractMemory_new (RangeSize 0x1000 4) ''TimingSimpleCPU'' 64)) =
      Inr (m', r, []) \<and> pcmd r = ReadResp \<and> numReads m' 0 = 1"
proof -
  let ?p = "(Packet_new (Request_phys 0x1002 2 0 0 0) ReadReq)\<lparr>pflags := 0x2300, pdata := [0, 0]\<rparr>"
  let ?m = "setBackingStore [10, 11, 12, 13] (AbstractMemory_new (RangeSize 0x1000 4) ''TimingSimpleCPU'' 64)"
  have m: "mem_wf ?m" "pmem ?m = Some [10, 11, 12, 13]"
    by (simp_all add: mem_wf_def setBackingStore_def AbstractMemory_new_def RangeSize_def
        AddrRange_simple_def interleaved_def range_valid_def)
  have f: "fits ?m ?p"
    by (simp add: fits_def Packet_new_phys setBackingStore_def AbstractMemory_new_def RangeSize_def
        AddrRange_simple_def isSet_def word_le_nat_alt)
  have c: "\<not> cacheResponding ?p" "pcmd ?p = ReadReq" "req_masterId (preq ?p) = 0" "numReads ?m 0 = 0"
    by (simp_all add: cacheResponding_def Packet_new_phys isSet_def setBackingStore_def
        AbstractMemory_new_def Request_phys_reads)
  have t: "isRequest ReadReq" "isRead ReadReq" "\<not> isLLSC ReadReq" "responseCommand ReadReq = ReadResp"
    by code_simp+
  from access_read_exact [OF m f c(1)] show ?thesis unfolding c(2,3) using t c(4) by fastforce
qed

section \<open>Reservations\<close>

text \<open>The block a context has reserved; each context has at most one record.\<close>

definition reserved :: "AbstractMemory \<Rightarrow> int \<Rightarrow> Addr option" where
  "reserved m c = map_option la_addr (find (\<lambda>l. la_contextId l = c) (lockedAddrList m))"

definition locks_wf :: "AbstractMemory \<Rightarrow> bool" where
  "locks_wf m \<longleftrightarrow> distinct (map la_contextId (lockedAddrList m))"

lemma find_filter_distinct:
  assumes "distinct (map f xs)"
  shows "find (\<lambda>x. f x = c) (filter P xs) = (case find (\<lambda>x. f x = c) xs of
    Some x \<Rightarrow> if P x then Some x else None | None \<Rightarrow> None)"
  using assms
proof (induction xs)
  case (Cons x xs)
  show ?case
  proof (cases "f x = c")
    case True
    then have "find (\<lambda>x. f x = c) (filter P xs) = None"
      using Cons.prems unfolding find_None_iff by (auto simp: image_iff)
    with True show ?thesis by simp
  next
    case False
    with Cons show ?thesis by simp
  qed
qed simp

lemma sc_holds_spec:
  assumes "contextId req = Inr c"
  shows "sc_holds req a ls = Inr (\<exists>l\<in>set ls. la_addr l = a \<and> la_contextId l = c)"
  using assms by (induction ls) (auto simp: matchesContext_def)

lemma erase_locks_spec:
  assumes "contextId req = Inr c"
  shows "erase_locks req a ls = Inr (filter (\<lambda>l. la_addr l \<noteq> a) ls,
    map la_contextId (filter (\<lambda>l. la_addr l = a \<and> la_contextId l \<noteq> c) ls))"
  using assms by (induction ls) auto

lemma erase_locks_no_context:
  assumes "\<not> hasContextId req"
  shows "erase_locks req a ls =
    (if \<exists>l\<in>set ls. la_addr l = a then Inl AssertFailed else Inr (ls, []))"
  using assms by (induction ls) (auto simp: contextId_def assertR_def)

lemma track_scan_spec:
  assumes "contextId req = Inr c" "distinct (map la_contextId ls)"
  shows "track_scan req a ls = Inr (if \<exists>l\<in>set ls. la_contextId l = c
    then Some (map (\<lambda>l. if la_contextId l = c then l\<lparr>la_addr := a\<rparr> else l) ls) else None)"
  using assms(2)
proof (induction ls)
  case (Cons l ls)
  show ?case
  proof (cases "la_contextId l = c")
    case True
    then have "map (\<lambda>l. if la_contextId l = c then l\<lparr>la_addr := a\<rparr> else l) ls = ls"
      using Cons.prems by (intro map_idI) (auto simp: image_iff)
    with True assms(1) show ?thesis by (simp add: matchesContext_def)
  next
    case False
    with Cons assms(1) show ?thesis by (simp add: matchesContext_def)
  qed
qed simp

lemma reserved_filter:
  assumes "locks_wf m" "lockedAddrList m' = filter (\<lambda>l. la_addr l \<noteq> a) (lockedAddrList m)"
  shows "reserved m' = (\<lambda>c. if reserved m c = Some a then None else reserved m c)" "locks_wf m'"
proof
  fix c
  show "reserved m' c = (if reserved m c = Some a then None else reserved m c)"
    using assms find_filter_distinct [of la_contextId "lockedAddrList m" c "\<lambda>l. la_addr l \<noteq> a"]
    by (auto simp: reserved_def locks_wf_def split: option.splits)
next
  show "locks_wf m'" using assms by (simp add: locks_wf_def distinct_map inj_on_def)
qed

lemma reserved_iff:
  assumes "locks_wf m"
  shows "reserved m c = Some a \<longleftrightarrow> (\<exists>l\<in>set (lockedAddrList m). la_addr l = a \<and> la_contextId l = c)"
proof -
  have "find (\<lambda>l. la_contextId l = c) ls = Some l \<longleftrightarrow> l \<in> set ls \<and> la_contextId l = c"
    if "distinct (map la_contextId ls)" for ls l
    using that by (induction ls) (auto simp: inj_on_def)
  with assms show ?thesis by (auto simp: reserved_def locks_wf_def)
qed

text \<open>
  The outcome of \<^verbatim>\<open>writeOK\<close> for a requester with a context: a plain store is always allowed, a
  store-conditional exactly when the context's reservation is for the block.
\<close>

definition sc_allowed :: "Packet \<Rightarrow> int \<Rightarrow> AbstractMemory \<Rightarrow> bool" where
  "sc_allowed p c m \<longleftrightarrow> \<not> isLLSC (pcmd p) \<or> reserved m c = Some (lock_mask (req_paddr (preq p)))"

definition with_result :: "bool \<Rightarrow> Packet \<Rightarrow> Packet" where
  "with_result b p = (if isLLSC (pcmd p) then p\<lparr>preq := setExtraData (if b then 1 else 0) (preq p)\<rparr> else p)"

lemma setExtraData_keeps:
  "contextId (setExtraData x r) = contextId r" "req_paddr (setExtraData x r) = req_paddr r"
  "req_flags (setExtraData x r) = req_flags r" "req_masterId (setExtraData x r) = req_masterId r"
  "getExtraData (setExtraData x r) = Inr x"
  by (simp_all add: setExtraData_def contextId_def hasContextId_def getExtraData_def extraDataValid_def
      assertR_def flag_simps)

lemma writeOK_spec:
  assumes "locks_wf m" "contextId (preq p) = Inr c" "hasPaddr (preq p)"
  shows "\<exists>m' cl. writeOK p m = Inr (sc_allowed p c m, with_result (sc_allowed p c m) p, m', cl) \<and>
    m' = m\<lparr>lockedAddrList := (if sc_allowed p c m
      then filter (\<lambda>l. la_addr l \<noteq> lock_mask (req_paddr (preq p))) (lockedAddrList m)
      else lockedAddrList m)\<rparr>"
proof (cases "lockedAddrList m = []")
  case True
  then show ?thesis by (simp add: writeOK_def sc_allowed_def with_result_def reserved_def)
next
  case False
  have g: "getPaddr (preq p) = Inr (req_paddr (preq p))" using assms(3) by (simp add: getPaddr_def assertR_def)
  show ?thesis
  proof (cases "isLLSC (pcmd p)")
    case True
    then show ?thesis
      using False assms(2) g
      by (auto simp: writeOK_def checkLockedAddrList_def sc_holds_spec [OF assms(2)] Let_def sc_allowed_def
          with_result_def reserved_iff [OF assms(1)] erase_locks_spec setExtraData_keeps)
  next
    case nl: False
    then show ?thesis
      using False assms(2) g
      by (auto simp: writeOK_def checkLockedAddrList_def Let_def sc_allowed_def with_result_def
          erase_locks_spec [OF assms(2)])
  qed
qed

lemma write_commands:
  "isWrite c \<and> isRequest c \<and> \<not> isRead c \<longrightarrow> c \<noteq> SwapReq \<and> c \<noteq> CleanEvict \<and> \<not> isInvalidate c \<and> \<not> isClean c"
proof -
  have "\<forall>c. isWrite c \<and> isRequest c \<and> \<not> isRead c \<longrightarrow>
    c \<noteq> SwapReq \<and> c \<noteq> CleanEvict \<and> \<not> isInvalidate c \<and> \<not> isClean c" by code_simp
  then show ?thesis by blast
qed

lemma with_result_keeps:
  "fits m (with_result b p) = fits m p" "touches (with_result b p) = touches p"
  "paddr (with_result b p) = paddr p" "pdata (with_result b p) = pdata p" "psize (with_result b p) = psize p"
  "pcmd (with_result b p) = pcmd p" "isInstFetch (preq (with_result b p)) = isInstFetch (preq p)"
  by (simp_all add: with_result_def fits_def touches_def fun_eq_iff isInstFetch_def setExtraData_keeps)

lemma respond_request:
  assumes "isRequest (pcmd p)"
  shows "\<exists>r. respond p = Inr r \<and> preq r = preq p \<and>
    pcmd r = (if needsResponse (pcmd p) then responseCommand (pcmd p) else pcmd p)"
  using assms by (simp add: respond_def makeResponse_request clear_pflags_def)

text \<open>A plain write when nothing is reserved, as the PIM kernels issue it: no context is needed.\<close>

lemma access_write_bytes:
  assumes "mem_wf m" "lockedAddrList m = []" "pmem m = Some mem" "fits m p" "\<not> cacheResponding p"
    and "isRequest (pcmd p)" "isWrite (pcmd p)" "\<not> isRead (pcmd p)" "pcmd p \<noteq> WritebackClean" "\<not> isLLSC (pcmd p)"
    and "needsResponse (pcmd p)" "\<not> isInstFetch (preq p)"
  shows "\<exists>m' mem' r. access p m = Inr (m', r, []) \<and> mem_wf m' \<and> lockedAddrList m' = [] \<and>
    pmem m' = Some mem' \<and> am_range m' = am_range m \<and> pendingPIMqueue m' = pendingPIMqueue m \<and>
    cpu_type m' = cpu_type m \<and> coherence_granularity m' = coherence_granularity m \<and>
    byte_map m' = (\<lambda>a. if touches p a then Some (pdata p ! (unat a - unat (paddr p))) else byte_map m a) \<and>
    senderState r = senderState p \<and> getPtr r = Inr (pdata p) \<and> pcmd r = responseCommand (pcmd p)"
proof -
  note wc = write_commands [rule_format, of "pcmd p"]
  obtain m' mem' where m': "access_write p m = Inr (m', p, [])" "am_range m' = am_range m"
    "pmem m' = Some (take (hostOffset m (paddr p)) mem @ pdata p @ drop (hostOffset m (paddr p) + unat (psize p)) mem)"
    "lockedAddrList m' = []" "pendingPIMqueue m' = pendingPIMqueue m" "cpu_type m' = cpu_type m"
    "coherence_granularity m' = coherence_granularity m"
    using writeData_fits [OF assms(4,1,3)] fits_accessors [OF assms(4)] assms(2,3,10,12)
    by (simp add: access_write_def writeOK_def assertR_def Let_def)
  have "access p m = Inr (m', clear_pflags EXPRESS_SNOOP (p\<lparr>pcmd := responseCommand (pcmd p)\<rparr>), [])"
    using assms wc m'(1) by (simp add: access_fits respond_def makeResponse_request)
  moreover have "isSet (clear_flags EXPRESS_SNOOP (pflags p)) (STATIC_DATA OR DYNAMIC_DATA)"
    using assms(4) by (simp add: fits_def flag_simps)
  ultimately show ?thesis
    using m' byte_map_write [OF assms(4,1,3) m'(3,2)]
    by (simp add: clear_pflags_def getPtr_def assertR_def)
qed

text \<open>C11: Stores and store-conditionals. A request with a context that writes memory is allowed if it is a
  plain store, or if it is a store-conditional and the context's reservation is for the block it
  writes. When it is allowed, exactly the bytes of the packet change, to its data, and every
  reservation on the block, of any context, is gone; when it is not, neither a byte nor a reservation
  changes. A store-conditional learns which case it was from the request's extra data, and the queue
  of PIM operations is never touched.\<close>
theorem access_write_exact:
  assumes "mem_wf m" "locks_wf m" "pmem m = Some mem" "fits m p" "\<not> cacheResponding p"
    and "isRequest (pcmd p)" "isWrite (pcmd p)" "\<not> isRead (pcmd p)" "pcmd p \<noteq> WritebackClean"
    and "contextId (preq p) = Inr c" "hasPaddr (preq p)" "\<not> isInstFetch (preq p)"
  shows "\<exists>m' r cl. access p m = Inr (m', r, cl) \<and> mem_wf m' \<and> locks_wf m' \<and>
    byte_map m' = (\<lambda>a. if sc_allowed p c m \<and> touches p a
      then Some (pdata p ! (unat a - unat (paddr p))) else byte_map m a) \<and>
    reserved m' = (\<lambda>d. if sc_allowed p c m \<and> reserved m d = Some (lock_mask (req_paddr (preq p)))
      then None else reserved m d) \<and>
    (isLLSC (pcmd p) \<longrightarrow> getExtraData (preq r) = Inr (if sc_allowed p c m then 1 else 0)) \<and>
    pendingPIMqueue m' = pendingPIMqueue m"
proof -
  note wc = write_commands [rule_format, of "pcmd p"]
  let ?al = "sc_allowed p c m" and ?b = "lock_mask (req_paddr (preq p))"
  let ?p = "with_result ?al p"
  obtain cl where w: "writeOK p m = Inr (?al, ?p, m\<lparr>lockedAddrList := (if ?al
      then filter (\<lambda>l. la_addr l \<noteq> ?b) (lockedAddrList m) else lockedAddrList m)\<rparr>, cl)"
    using writeOK_spec [OF assms(2,10,11)] by blast
  obtain r where r: "respond ?p = Inr r" "preq r = preq ?p"
    using respond_request [of ?p] assms(6) by (auto simp: with_result_keeps)
  have acc: "access p m = bindR (access_write p m) (\<lambda>(m', p', cl). bindR (respond p') (\<lambda>r. ok (m', r, cl)))"
    using assms wc by (simp add: access_fits)
  have ex: "isLLSC (pcmd p) \<longrightarrow> getExtraData (preq r) = Inr (if ?al then 1 else 0)"
    using r(2) by (simp add: with_result_def setExtraData_keeps)
  show ?thesis
  proof (cases ?al)
    case True
    let ?m1 = "m\<lparr>lockedAddrList := filter (\<lambda>l. la_addr l \<noteq> ?b) (lockedAddrList m)\<rparr>"
    have o1: "hostOffset ?m1 = hostOffset m" by (simp add: hostOffset_def fun_eq_iff)
    have f: "fits m ?p" using assms(4) by (simp add: with_result_keeps)
    obtain m' where m': "access_write p m = Inr (m', ?p, cl)" "am_range m' = am_range m"
      "pmem m' = Some (take (hostOffset m (paddr ?p)) mem @ pdata ?p @ drop (hostOffset m (paddr ?p) + unat (psize ?p)) mem)"
      "lockedAddrList m' = filter (\<lambda>l. la_addr l \<noteq> ?b) (lockedAddrList m)" "pendingPIMqueue m' = pendingPIMqueue m"
      using w True writeData_fits [OF f assms(1,3)] fits_accessors [OF f] assms(3,12)
      by (simp add: access_write_def o1 assertR_def with_result_keeps Let_def)
    note bm = byte_map_write [OF f assms(1,3) m'(3,2), unfolded with_result_keeps]
    show ?thesis
      using acc m'(1,5) r bm reserved_filter [OF assms(2) m'(4)] True ex by (simp add: with_result_keeps)
  next
    case False
    then have "access_write p m = Inr (m, ?p, cl)" using w by (simp add: access_write_def)
    then show ?thesis using acc r False ex assms(1,2) by simp
  qed
qed

lemma trackLoadLocked_spec:
  assumes "locks_wf m" "contextId (preq p) = Inr c" "hasPaddr (preq p)"
  shows "\<exists>ls. trackLoadLocked p m = Inr (m\<lparr>lockedAddrList := ls\<rparr>) \<and> distinct (map la_contextId ls) \<and>
    (\<forall>d. map_option la_addr (find (\<lambda>l. la_contextId l = d) ls) =
      (if d = c then Some (lock_mask (req_paddr (preq p))) else reserved m d))"
proof -
  let ?a = "lock_mask (req_paddr (preq p))" and ?L = "lockedAddrList m"
  let ?upd = "\<lambda>l. if la_contextId l = c then l\<lparr>la_addr := ?a\<rparr> else l"
  have g: "getPaddr (preq p) = Inr (req_paddr (preq p))" using assms(3) by (simp add: getPaddr_def assertR_def)
  have d: "distinct (map la_contextId ?L)" using assms(1) by (simp add: locks_wf_def)
  show ?thesis
  proof (cases "\<exists>l\<in>set ?L. la_contextId l = c")
    case True
    have ids: "map la_contextId (map ?upd ls) = map la_contextId ls" for ls by (induction ls) auto
    have fu: "map_option la_addr (find (\<lambda>l. la_contextId l = e) (map ?upd ls)) =
        (if e = c \<and> (\<exists>l\<in>set ls. la_contextId l = c) then Some ?a
         else map_option la_addr (find (\<lambda>l. la_contextId l = e) ls))" for e ls
    proof (induction ls)
      case (Cons l ls)
      show ?case
      proof (cases "la_contextId l = e")
        case False
        then have "map_option la_addr (find (\<lambda>l. la_contextId l = e) (map ?upd (l # ls))) =
            map_option la_addr (find (\<lambda>l. la_contextId l = e) (map ?upd ls))" by simp
        with False Cons.IH show ?thesis by auto
      qed auto
    qed simp
    have "trackLoadLocked p m = Inr (m\<lparr>lockedAddrList := map ?upd ?L\<rparr>)"
      using True by (simp add: trackLoadLocked_def g track_scan_spec [OF assms(2) d])
    moreover have "distinct (map la_contextId (map ?upd ?L))" unfolding ids by (rule d)
    moreover have "\<forall>e. map_option la_addr (find (\<lambda>l. la_contextId l = e) (map ?upd ?L)) =
        (if e = c then Some ?a else reserved m e)"
      unfolding fu reserved_def using True by (simp del: find.simps)
    ultimately show ?thesis by blast
  next
    case False
    then show ?thesis
      using d assms(2)
      by (intro exI [of _ "\<lparr>la_addr = ?a, la_contextId = c\<rparr> # ?L"])
        (auto simp: trackLoadLocked_def g track_scan_spec [OF assms(2) d] reserved_def)
  qed
qed

text \<open>A load-locked access makes the block it reads the reservation of its context, replacing the one
  the context had, and leaves the reservations of all other contexts; the bytes of the memory do not
  change.\<close>
theorem access_load_locked:
  assumes "mem_wf m" "locks_wf m" "pmem m = Some mem" "fits m p" "\<not> cacheResponding p"
    and "pcmd p = LoadLockedReq" "contextId (preq p) = Inr c" "hasPaddr (preq p)"
  shows "\<exists>m' r. access p m = Inr (m', r, []) \<and> pcmd r = ReadResp \<and> byte_map m' = byte_map m \<and>
    mem_wf m' \<and> locks_wf m' \<and> reserved m' = (reserved m)(c \<mapsto> lock_mask (req_paddr (preq p)))"
proof -
  obtain ls where ls: "trackLoadLocked p m = Inr (m\<lparr>lockedAddrList := ls\<rparr>)" "distinct (map la_contextId ls)"
    "\<forall>d. map_option la_addr (find (\<lambda>l. la_contextId l = d) ls) =
      (if d = c then Some (lock_mask (req_paddr (preq p))) else reserved m d)"
    using trackLoadLocked_spec [OF assms(2,7,8)] by blast
  let ?m1 = "m\<lparr>lockedAddrList := ls\<rparr>"
  have cmd: "isRequest LoadLockedReq" "isRead LoadLockedReq" "isLLSC LoadLockedReq" "\<not> isWrite LoadLockedReq"
    "\<not> fromCache LoadLockedReq" "needsResponse LoadLockedReq" "responseCommand LoadLockedReq = ReadResp"
    by code_simp+
  have h: "hostOffset ?m1 = hostOffset m" by (simp add: hostOffset_def fun_eq_iff)
  obtain m' d where ar: "access_read p m = Inr (m', p\<lparr>pdata := d\<rparr>)" "pmem m' = pmem m"
    "am_range m' = am_range m" "lockedAddrList m' = ls"
    using assms cmd ls(1) setData_fits [OF assms(4,1,3)] fits_accessors [OF assms(4)]
    by (simp add: access_read_def assertR_def Let_def h)
  have "access p m = Inr (m', clear_pflags EXPRESS_SNOOP (p\<lparr>pdata := d, pcmd := ReadResp\<rparr>), [])"
    using assms cmd by (simp add: access_fits ar(1) respond_def makeResponse_request)
  moreover have "byte_map m' = byte_map m" "mem_wf m'"
    using byte_map_cong [OF ar(2,3)] mem_wf_cong [OF ar(2,3)] assms(1) by simp_all
  moreover have "locks_wf m'" using ls(2) ar(4) by (simp add: locks_wf_def)
  moreover have "reserved m' = (reserved m)(c \<mapsto> lock_mask (req_paddr (preq p)))"
    using ls(3) ar(4) by (simp add: reserved_def fun_eq_iff)
  ultimately show ?thesis by (simp add: clear_pflags_def)
qed

text \<open>A memory of sixteen bytes and an access by a hardware context, for the witnesses.\<close>

definition small_mem :: "LockedAddr list \<Rightarrow> AbstractMemory" where
  "small_mem ls = (setBackingStore (replicate 16 0)
     (AbstractMemory_new (RangeSize 0x1000 16) ''TimingSimpleCPU'' 64))\<lparr>lockedAddrList := ls\<rparr>"

definition ctx_packet :: "Command \<Rightarrow> Addr \<Rightarrow> u8 list \<Rightarrow> int \<Rightarrow> Packet" where
  "ctx_packet c a d cid = \<lparr>pcmd = c, pflags = 0x2300,
     preq = Request_phys_ctx a (word_of_int (int (length d))) 0 0 0 cid 0, pdata = d, paddr = a,
     pIsSecure = False, psize = word_of_int (int (length d)), bytesValid = [], senderState = []\<rparr>"

lemma small_mem_wf:
  "mem_wf (small_mem ls)" "pmem (small_mem ls) = Some (replicate 16 0)"
  "lockedAddrList (small_mem ls) = ls" "am_range (small_mem ls) = RangeSize 0x1000 16"
  by (simp_all add: small_mem_def mem_wf_def setBackingStore_def AbstractMemory_new_def RangeSize_def
      AddrRange_simple_def interleaved_def range_valid_def)

lemma ctx_packet_ok:
  "contextId (preq (ctx_packet c a d cid)) = Inr cid" "hasPaddr (preq (ctx_packet c a d cid))"
  "\<not> isInstFetch (preq (ctx_packet c a d cid))" "req_paddr (preq (ctx_packet c a d cid)) = a"
  "\<not> cacheResponding (ctx_packet c a d cid)" "pcmd (ctx_packet c a d cid) = c"
  by (simp_all add: ctx_packet_def Request_phys_ctx_def Let_def contextId_def hasContextId_def hasPaddr_def
      isInstFetch_def setContext_def setPhys_def Request_default_def assertR_def cacheResponding_def
      flag_simps set_flags_def clear_flags_def isSet_def)

lemma small_fits: "fits (small_mem ls) (ctx_packet c 0x1004 [1, 2] cid)"
  by (simp add: fits_def small_mem_wf ctx_packet_def RangeSize_def AddrRange_simple_def isSet_def word_le_nat_alt)

theorem access_write_exact_witness:
  "\<exists>m' r cl. access (ctx_packet StoreCondReq 0x1004 [1, 2] 7)
      (small_mem [\<lparr>la_addr = 0x1000, la_contextId = 7\<rparr>]) = Inr (m', r, cl) \<and>
    byte_map m' 0x1005 = Some 2 \<and> reserved m' 7 = None \<and> getExtraData (preq r) = Inr 1"
proof -
  let ?p = "ctx_packet StoreCondReq 0x1004 [1, 2] 7" and ?m = "small_mem [\<lparr>la_addr = 0x1000, la_contextId = 7\<rparr>]"
  have cmd: "isRequest StoreCondReq" "isWrite StoreCondReq" "\<not> isRead StoreCondReq" "isLLSC StoreCondReq"
    by code_simp+
  have lk: "locks_wf ?m" "sc_allowed ?p 7 ?m" "reserved ?m 7 = Some (lock_mask 0x1004)"
    by (simp_all add: locks_wf_def small_mem_wf sc_allowed_def reserved_def ctx_packet_ok lock_mask_def)
  have t: "touches ?p 0x1005" "pdata ?p ! (unat (0x1005 :: u64) - unat (paddr ?p)) = 2"
    by (simp_all add: touches_def ctx_packet_def word_le_nat_alt)
  obtain m' r cl where r: "access ?p ?m = Inr (m', r, cl)"
    "byte_map m' = (\<lambda>a. if sc_allowed ?p 7 ?m \<and> touches ?p a
      then Some (pdata ?p ! (unat a - unat (paddr ?p))) else byte_map ?m a)"
    "reserved m' = (\<lambda>d. if sc_allowed ?p 7 ?m \<and> reserved ?m d = Some (lock_mask (req_paddr (preq ?p)))
      then None else reserved ?m d)"
    "isLLSC (pcmd ?p) \<longrightarrow> getExtraData (preq r) = Inr (if sc_allowed ?p 7 ?m then 1 else 0)"
    using access_write_exact [OF small_mem_wf(1) lk(1) small_mem_wf(2) small_fits ctx_packet_ok(5)
        _ _ _ _ ctx_packet_ok(1-3)] cmd unfolding ctx_packet_ok by blast
  then show ?thesis using lk t cmd by (auto simp: ctx_packet_ok)
qed

theorem access_load_locked_witness:
  "\<exists>m' r. access (ctx_packet LoadLockedReq 0x1004 [1, 2] 7) (small_mem []) = Inr (m', r, []) \<and>
    reserved m' 7 = Some 0x1000"
proof -
  let ?p = "ctx_packet LoadLockedReq 0x1004 [1, 2] 7" and ?m = "small_mem []"
  have "locks_wf ?m" by (simp add: locks_wf_def small_mem_wf)
  from access_load_locked [OF small_mem_wf(1) this small_mem_wf(2) small_fits ctx_packet_ok(5) ctx_packet_ok(6)
      ctx_packet_ok(1,2)]
  obtain m' r where "access ?p ?m = Inr (m', r, [])"
    "reserved m' = (reserved ?m)(7 \<mapsto> lock_mask (req_paddr (preq ?p)))" by blast
  then show ?thesis by (auto simp: ctx_packet_ok lock_mask_def)
qed

end
