(* ===== verification/PIM_Protocol.thy ===== *)
theory PIM_Protocol
  imports PIM_Kernel Abstract_Mem
begin

text \<open>
  A PIM kernel connected to its memory. The state of the system is the kernel, the memory, the timing
  requests on their way to the memory, the responses on their way back, whether the port owes the
  kernel a retry, and the current tick. An action is one event of the kernel, the memory serving one
  of the requests in flight, or the delivery of one of the responses; requests and responses may
  overtake each other and an action may happen at any time not before the previous one, so every
  schedule of the event queue and every latency of the memory is covered.

  The theorems follow a command through the system: no handler stops on an assertion, each operand is
  read once, the result is written once and is the operation applied to the operands as they were, no
  other byte changes, and when the kernel is idle again the memory has released the addresses.
\<close>

section \<open>The system\<close>

record world =
  kern :: PIMKernel
  wmem :: AbstractMemory
  requests :: "Packet list"
  responses :: "Packet list"
  retry_owed :: bool
  w_now :: Tick
  woken :: "int list"

text \<open>The clock period, the last tick considered, and the processor side of a completion.\<close>

record 'c params =
  p_period :: Tick
  p_horizon :: Tick
  p_check :: "'c \<Rightarrow> Addr \<Rightarrow> bool"
  p_flush :: "'c flush_op"
  p_find :: "string \<Rightarrow> 'c host_cpu option"

text \<open>Write-backs of flushed caches reach the memory as functional writes.\<close>

fun apply_writebacks :: "'c params \<Rightarrow> Packet list \<Rightarrow> AbstractMemory \<Rightarrow> AbstractMemory res" where
  "apply_writebacks sp [] m = ok m"
| "apply_writebacks sp (p # ps) m =
     bindR (functionalAccess (p_check sp) (p_flush sp) (p_find sp) p m) (\<lambda>(m', _). apply_writebacks sp ps m')"

fun apply_msg :: "'c params \<Rightarrow> kmsg \<Rightarrow> world \<Rightarrow> world res" where
  "apply_msg sp (TimingReq p True) w = ok (w\<lparr>requests := requests w @ [p]\<rparr>)"
| "apply_msg sp (TimingReq p False) w = ok (w\<lparr>retry_owed := True\<rparr>)"
| "apply_msg sp (FunctionalReq p) w =
     bindR (functionalAccess (p_check sp) (p_flush sp) (p_find sp) p (wmem w)) (\<lambda>(m', _, fin).
       case fin of
         None \<Rightarrow> ok (w\<lparr>wmem := m'\<rparr>)
       | Some (cs, ctx) \<Rightarrow>
           bindR (apply_writebacks sp (concat (map snd cs)) m') (\<lambda>m''.
             ok (w\<lparr>wmem := m'', woken := woken w @ [ctx]\<rparr>)))"

fun apply_msgs :: "'c params \<Rightarrow> kmsg list \<Rightarrow> world \<Rightarrow> world res" where
  "apply_msgs sp [] w = ok w"
| "apply_msgs sp (x # xs) w = bindR (apply_msg sp x w) (\<lambda>w'. apply_msgs sp xs w')"

definition run :: "'c params \<Rightarrow> env \<Rightarrow> (PIMKernel \<Rightarrow> kres) \<Rightarrow> PIMKernel \<Rightarrow> world \<Rightarrow> world res" where
  "run sp e h k w = bindR (h k) (\<lambda>(k', ms). apply_msgs sp ms (w\<lparr>kern := k', w_now := e_now e\<rparr>))"

datatype action =
    ATick env
  | ACompute env
  | AFinish env
  | ARetry env
  | AServe nat
  | ARespond env nat

definition env_ok :: "'c params \<Rightarrow> world \<Rightarrow> env \<Rightarrow> bool" where
  "env_ok sp w e \<longleftrightarrow> e_period e = p_period sp \<and> w_now w \<le> e_now e \<and> e_now e \<le> p_horizon sp"

definition due :: "env \<Rightarrow> Tick option \<Rightarrow> bool" where
  "due e ev = (case ev of None \<Rightarrow> False | Some t \<Rightarrow> t \<le> e_now e)"

definition remove_nth :: "nat \<Rightarrow> 'a list \<Rightarrow> 'a list" where
  "remove_nth i xs = take i xs @ drop (Suc i) xs"

text \<open>An action that is not possible is \<^const>\<open>None\<close>; one that stops the simulator is a fault.\<close>

fun do_action :: "'c params \<Rightarrow> action \<Rightarrow> world \<Rightarrow> world res option" where
  "do_action sp (ATick e) w =
     (if env_ok sp w e \<and> due e (tickEvent (kern w))
      then Some (run sp e (tick e) ((kern w)\<lparr>tickEvent := None\<rparr>) w) else None)"
| "do_action sp (ACompute e) w =
     (if env_ok sp w e \<and> due e (computeEvent (kern w))
      then Some (run sp e (trycompute e) ((kern w)\<lparr>computeEvent := None\<rparr>) w) else None)"
| "do_action sp (AFinish e) w =
     (if env_ok sp w e \<and> due e (finishEvent (kern w))
      then Some (run sp e (finish e) ((kern w)\<lparr>finishEvent := None\<rparr>) w) else None)"
| "do_action sp (ARetry e) w =
     (if env_ok sp w e \<and> retry_owed w
      then Some (run sp e (recvReqRetry e) (kern w) (w\<lparr>retry_owed := False\<rparr>)) else None)"
| "do_action sp (AServe i) w =
     (if i < length (requests w)
      then Some (bindR (access (requests w ! i) (wmem w)) (\<lambda>(m', r, _).
             ok (w\<lparr>wmem := m', requests := remove_nth i (requests w), responses := responses w @ [r]\<rparr>)))
      else None)"
| "do_action sp (ARespond e i) w =
     (if env_ok sp w e \<and> i < length (responses w)
      then Some (run sp e (recvTimingResp e (responses w ! i)) (kern w)
             (w\<lparr>responses := remove_nth i (responses w)\<rparr>))
      else None)"

text \<open>The memory side never refuses the write of a result; reads may be refused and retried.\<close>

definition good_action :: "action \<Rightarrow> bool" where
  "good_action a = (case a of ACompute e \<Rightarrow> e_accept e | _ \<Rightarrow> True)"

inductive reach :: "'c params \<Rightarrow> world \<Rightarrow> world \<Rightarrow> bool" for sp w0 where
  init: "reach sp w0 w0"
| step: "reach sp w0 w \<Longrightarrow> good_action a \<Longrightarrow> do_action sp a w = Some (Inr w') \<Longrightarrow> reach sp w0 w'"

definition command :: "'c params \<Rightarrow> env \<Rightarrow> Packet \<Rightarrow> world \<Rightarrow> world res" where
  "command sp e pkt w = run sp e (recvFunctional e pkt) (kern w) w"

section \<open>What a packet in flight stands for\<close>

definition word_at :: "AbstractMemory \<Rightarrow> Addr \<Rightarrow> u64" where
  "word_at m a = of_le_bytes (map (\<lambda>i. the (byte_map m (a + of_nat i))) [0..<8])"

text \<open>An operation: the three addresses, and the memory it starts in.\<close>

record job =
  j_addr :: "Addr list"
  j_unit :: PIMUnit
  j_latency :: int
  j_mem :: AbstractMemory

definition operand :: "job \<Rightarrow> nat \<Rightarrow> u64" where
  "operand j i = word_at (j_mem j) (j_addr j ! i)"

definition job_result :: "job \<Rightarrow> u64 res" where
  "job_result j = compute_op (j_unit j) (operand j 0) (operand j 1)"

text \<open>Eight bytes at an address lie in the memory.\<close>

definition word_in :: "AbstractMemory \<Rightarrow> Addr \<Rightarrow> bool" where
  "word_in m a \<longleftrightarrow> r_start (am_range m) \<le> a \<and> unat a + 8 \<le> unat (r_end (am_range m)) + 1"

definition job_ok :: "'c params \<Rightarrow> job \<Rightarrow> bool" where
  "job_ok sp j \<longleftrightarrow> length (j_addr j) = 3 \<and> (\<forall>i < 3. word_in (j_mem j) (j_addr j ! i)) \<and>
     mem_wf (j_mem j) \<and> pmem (j_mem j) \<noteq> None \<and> lockedAddrList (j_mem j) = [] \<and>
     pendingPIMqueue (j_mem j) = [] \<and> (\<exists>r. job_result j = Inr r) \<and> 0 < unat (p_period sp) \<and>
     unat (p_horizon sp) + (unat (word_of_int (j_latency j) :: u64) + 3) * unat (p_period sp) < 2 ^ 64 \<and>
     cpu_type (j_mem j) = ''TimingSimpleCPU'' \<and>
     (\<exists>c. p_find sp ''system.cpu'' = Some c \<and>
        (\<forall>x \<in> set (hc_caches c). \<forall>i < 3. \<not> p_check sp x (j_addr j ! i)))"

definition pid :: "Packet \<Rightarrow> int" where
  "pid p = (case pimState p of Some st \<Rightarrow> ps_procid st | None \<Rightarrow> -1)"

definition is_req :: "job \<Rightarrow> nat \<Rightarrow> Packet \<Rightarrow> bool" where
  "is_req j i p \<longleftrightarrow> (\<exists>e st. p = kernel_pkt e (if i < 2 then PIMRead else PIMWrite) (j_addr j ! i) 8 (pdata p) st \<and>
     ps_procid st = int i) \<and> length (pdata p) = 8 \<and> (i = 2 \<longrightarrow> job_result j = Inr (of_le_bytes (pdata p)))"

definition is_resp :: "job \<Rightarrow> nat \<Rightarrow> Packet \<Rightarrow> bool" where
  "is_resp j i p \<longleftrightarrow> (\<exists>st. pimState p = Some st \<and> ps_procid st = int i) \<and>
     (\<exists>d. getPtr p = Inr d \<and> length d = 8 \<and> (i < 2 \<longrightarrow> of_le_bytes d = operand j i))"

section \<open>Packets in flight\<close>

text \<open>Exactly one packet is in flight for each register in the set, and it is the right one.\<close>

definition flight :: "job \<Rightarrow> nat set \<Rightarrow> Packet list \<Rightarrow> Packet list \<Rightarrow> bool" where
  "flight j W rq rs \<longleftrightarrow> distinct (map pid (rq @ rs)) \<and> pid ` set (rq @ rs) = int ` W \<and>
     (\<forall>p \<in> set rq. is_req j (nat (pid p)) p) \<and> (\<forall>p \<in> set rs. is_resp j (nat (pid p)) p)"

lemma pid_kernel_pkt [simp]: "pid (kernel_pkt e c a sz d st) = ps_procid st"
  by (simp add: pid_def)

lemma is_req_pid: "is_req j i p \<Longrightarrow> pid p = int i"
  unfolding is_req_def by (metis pid_kernel_pkt)

lemma is_resp_pid: "is_resp j i p \<Longrightarrow> pid p = int i"
  by (auto simp: is_resp_def pid_def)

lemma set_remove_nth:
  assumes "distinct (map f xs)" "i < length xs"
  shows "set (remove_nth i xs) = set xs - {xs ! i}" "distinct (map f (remove_nth i xs))"
    "f ` set (remove_nth i xs) = f ` set xs - {f (xs ! i)}"
proof -
  have xs: "xs = take i xs @ xs ! i # drop (Suc i) xs" using assms(2) by (rule id_take_nth_drop)
  have d: "distinct (map f (take i xs @ xs ! i # drop (Suc i) xs))" using assms(1) xs by metis
  then show "distinct (map f (remove_nth i xs))" by (simp add: remove_nth_def)
  have s: "set xs = set (take i xs) \<union> {xs ! i} \<union> set (drop (Suc i) xs)" by (subst xs) auto
  have n: "f (xs ! i) \<notin> f ` (set (take i xs) \<union> set (drop (Suc i) xs))" using d by auto
  then show "set (remove_nth i xs) = set xs - {xs ! i}" unfolding s remove_nth_def by auto
  show "f ` set (remove_nth i xs) = f ` set xs - {f (xs ! i)}"
    using n unfolding s remove_nth_def by (auto simp: image_Un)
qed

lemma flight_send:
  assumes "flight j W rq rs" "is_req j i p" "i \<notin> W"
  shows "flight j (insert i W) (rq @ [p]) rs"
proof -
  have p: "pid p = int i" using assms(2) by (rule is_req_pid)
  then have "pid p \<notin> pid ` set (rq @ rs)" using assms(1,3) by (auto simp: flight_def)
  then show ?thesis using assms p unfolding flight_def by auto
qed

lemma flight_serve:
  assumes "flight j W rq rs" "n < length rq" "is_resp j (nat (pid (rq ! n))) r"
  shows "flight j W (remove_nth n rq) (rs @ [r])"
proof -
  have d: "distinct (map pid rq)" using assms(1) by (simp add: flight_def)
  note rm = set_remove_nth [OF d assms(2)]
  have mem: "rq ! n \<in> set rq" using assms(2) by simp
  have "is_req j (nat (pid (rq ! n))) (rq ! n)" using assms(1) mem by (simp add: flight_def)
  then have "pid (rq ! n) = int (nat (pid (rq ! n)))" by (rule is_req_pid)
  then have pr: "pid r = pid (rq ! n)" using is_resp_pid [OF assms(3)] by simp
  have "pid (rq ! n) \<notin> pid ` set rs" using assms(1) mem by (auto simp: flight_def)
  then have "distinct (map pid (remove_nth n rq @ rs @ [r]))"
    using assms(1) rm pr by (auto simp: flight_def)
  moreover have "pid ` set (remove_nth n rq @ rs @ [r]) = int ` W"
  proof -
    have "pid ` set (remove_nth n rq @ rs @ [r]) = (pid ` set rq - {pid (rq ! n)}) \<union> pid ` set rs \<union> {pid (rq ! n)}"
      using rm(3) pr by auto
    also have "\<dots> = pid ` set (rq @ rs)" using mem by auto
    finally show ?thesis using assms(1) by (simp add: flight_def)
  qed
  ultimately show ?thesis using assms(1,3) rm(1) pr by (auto simp: flight_def)
qed

lemma flight_deliver:
  assumes "flight j W rq rs" "n < length rs" "pid (rs ! n) = int i"
  shows "flight j (W - {i}) rq (remove_nth n rs) \<and> i \<in> W"
proof -
  have d: "distinct (map pid rs)" using assms(1) by (simp add: flight_def)
  note rm = set_remove_nth [OF d assms(2)]
  have mem: "rs ! n \<in> set rs" using assms(2) by simp
  have "int i \<in> int ` W" using assms(1,3) mem unfolding flight_def by (metis UnCI image_eqI set_append)
  then have W: "i \<in> W" by auto
  have "pid ` set rq \<inter> pid ` set rs = {}" "int i \<in> pid ` set rs"
    using assms(1) mem assms(3) [symmetric] by (auto simp: flight_def)
  then have "int i \<notin> pid ` set rq" by blast
  then have "pid ` set (rq @ remove_nth n rs) = int ` W - {int i}"
    using assms(1) rm(3) by (auto simp: flight_def image_Un assms(3))
  also have "\<dots> = int ` (W - {i})" by auto
  finally show ?thesis using assms(1) rm W by (auto simp: flight_def)
qed

section \<open>The invariant\<close>

definition waits :: "PIMKernel \<Rightarrow> nat set" where
  "waits k = {i. i < 3 \<and> snd (regs k ! i) = dataWaitingResp}"

text \<open>The kernel is set up for the operation, and an operand that has arrived is the operand.\<close>

definition cfg :: "job \<Rightarrow> PIMKernel \<Rightarrow> bool" where
  "cfg j k \<longleftrightarrow> binary k \<and> unit_kind k = j_unit j \<and> k_latency k = j_latency j \<and> map fst (regs k) = j_addr j \<and>
     length (regs k) = 3 \<and> (\<forall>i < 2. snd (regs k ! i) = dataFinish \<longrightarrow> kdata k ! i = operand j i)"

datatype phase = Reading DataStatus DataStatus | Computing | Writing | Done | Finishing | Idling

fun at_phase :: "job \<Rightarrow> world \<Rightarrow> phase \<Rightarrow> bool" where
  "at_phase j w (Reading s0 s1) \<longleftrightarrow> map snd (regs (kern w)) = [s0, s1, dataReady] \<and>
     s0 \<in> {dataReady, dataWaitingResp, dataFinish} \<and> s1 \<in> {dataReady, dataWaitingResp, dataFinish} \<and>
     computeEvent (kern w) = None \<and> finishEvent (kern w) = None \<and>
     (status (kern w) = WaitingResp \<and> tickEvent (kern w) \<noteq> None \<and> \<not> retry_owed w \<or>
      status (kern w) = SendRetry \<and> retry_owed w \<and>
        (\<exists>i rp. next_read (kern w) i \<and> retry_pkt (kern w) = Some rp \<and> is_req j i rp))"
| "at_phase j w Computing \<longleftrightarrow> map snd (regs (kern w)) = [dataFinish, dataFinish, dataReady] \<and>
     status (kern w) = WaitingResp \<and> tickEvent (kern w) \<noteq> None \<and> computeEvent (kern w) \<noteq> None \<and>
     finishEvent (kern w) = None \<and> \<not> retry_owed w"
| "at_phase j w Writing \<longleftrightarrow> map snd (regs (kern w)) = [dataFinish, dataFinish, dataWaitingResp] \<and>
     status (kern w) = WaitingResp \<and> tickEvent (kern w) \<noteq> None \<and> computeEvent (kern w) = None \<and>
     finishEvent (kern w) = None \<and> \<not> retry_owed w"
| "at_phase j w Done \<longleftrightarrow> map snd (regs (kern w)) = [dataFinish, dataFinish, dataFinish] \<and>
     status (kern w) = Finish \<and> tickEvent (kern w) \<noteq> None \<and> computeEvent (kern w) = None \<and>
     finishEvent (kern w) = None \<and> \<not> retry_owed w"
| "at_phase j w Finishing \<longleftrightarrow> map snd (regs (kern w)) = [dataFinish, dataFinish, dataFinish] \<and>
     status (kern w) = Finish \<and> tickEvent (kern w) = None \<and> computeEvent (kern w) = None \<and>
     finishEvent (kern w) \<noteq> None \<and> \<not> retry_owed w"
| "at_phase j w Idling \<longleftrightarrow> map snd (regs (kern w)) = [dataFinish, dataFinish, dataFinish] \<and>
     status (kern w) = Idle \<and> tickEvent (kern w) = None \<and> computeEvent (kern w) = None \<and>
     finishEvent (kern w) = None \<and> \<not> retry_owed w"

text \<open>The bytes after the operation: the result at its address, everything else as it was.\<close>

definition result_map :: "job \<Rightarrow> Addr \<Rightarrow> u8 option" where
  "result_map j a = (case job_result j of
     Inr r \<Rightarrow> if j_addr j ! 2 \<le> a \<and> unat a < unat (j_addr j ! 2) + 8
       then Some (le_bytes 8 r ! (unat a - unat (j_addr j ! 2))) else byte_map (j_mem j) a
   | Inl _ \<Rightarrow> byte_map (j_mem j) a)"

definition written :: "world \<Rightarrow> bool" where
  "written w \<longleftrightarrow> snd (regs (kern w) ! 2) = dataFinish \<or> 2 \<in> pid ` set (responses w)"

definition mem_ok :: "job \<Rightarrow> world \<Rightarrow> bool" where
  "mem_ok j w \<longleftrightarrow> mem_wf (wmem w) \<and> pmem (wmem w) \<noteq> None \<and> lockedAddrList (wmem w) = [] \<and>
     am_range (wmem w) = am_range (j_mem j) \<and> cpu_type (wmem w) = cpu_type (j_mem j) \<and>
     coherence_granularity (wmem w) = coherence_granularity (j_mem j) \<and>
     byte_map (wmem w) = (if written w then result_map j else byte_map (j_mem j)) \<and>
     (if status (kern w) = Idle then pendingPIMqueue (wmem w) = []
      else \<exists>s. pendingPIMqueue (wmem w) = [s] \<and> ps_addr s = j_addr j)"

definition clk :: "'c params \<Rightarrow> world \<Rightarrow> bool" where
  "clk sp w \<longleftrightarrow> (\<exists>t0 \<le> w_now w. clock_inv (p_period sp) t0 (k_clock (kern w)))"

definition sysinv :: "'c params \<Rightarrow> job \<Rightarrow> world \<Rightarrow> bool" where
  "sysinv sp j w \<longleftrightarrow> cfg j (kern w) \<and> (\<exists>ph. at_phase j w ph) \<and>
     flight j (waits (kern w)) (requests w) (responses w) \<and> mem_ok j w \<and> clk sp w"

lemma cfg_regs:
  assumes "cfg j k" "map snd (regs k) = [s0, s1, s2]"
  obtains a0 a1 a2 where "regs k = [(a0, s0), (a1, s1), (a2, s2)]" "j_addr j = [a0, a1, a2]"
  using assms by (cases "regs k" rule: list.exhaust; cases "tl (regs k)"; cases "tl (tl (regs k))")
    (auto simp: cfg_def)

lemma inv_clock_ok:
  assumes "job_ok sp j" "clk sp w" "env_ok sp w e" "k_clock k = k_clock (kern w)" "k_latency k = j_latency j"
  shows "clock_ok e k"
proof -
  let ?L = "unat (word_of_int (j_latency j) :: u64)"
  have "unat (e_now e) \<le> unat (p_horizon sp)" using assms(3) by (simp add: env_ok_def word_le_nat_alt)
  then have "unat (e_now e) + (?L + 3) * unat (p_period sp) < 2 ^ 64" using assms(1) by (simp add: job_ok_def)
  moreover have "\<exists>t0 \<le> e_now e. clock_inv (p_period sp) t0 (k_clock k)"
    using assms(2-4) by (auto simp: clk_def env_ok_def intro: order_trans)
  ultimately show ?thesis using assms(1,3,5) by (simp add: clock_ok_def env_ok_def job_ok_def)
qed

lemma clock_ok_clk:
  "clock_ok e k \<Longrightarrow> e_period e = p_period sp \<Longrightarrow> kern w = k \<Longrightarrow> w_now w = e_now e \<Longrightarrow> clk sp w"
  by (auto simp: clock_ok_def clk_def)

text \<open>A step of the kernel that leaves the memory alone.\<close>

lemma kernel_step:
  assumes "sysinv sp j w" "env_ok sp w e" "clock_ok e k'" "cfg j k'"
    and "flight j (waits k') rq (responses w)" "snd (regs k' ! 2) = dataFinish \<longleftrightarrow> snd (regs (kern w) ! 2) = dataFinish"
    and "status k' = Idle \<longleftrightarrow> status (kern w) = Idle"
    and "at_phase j (w\<lparr>kern := k', w_now := e_now e, requests := rq, retry_owed := b\<rparr>) ph"
  shows "sysinv sp j (w\<lparr>kern := k', w_now := e_now e, requests := rq, retry_owed := b\<rparr>)"
proof -
  let ?w = "w\<lparr>kern := k', w_now := e_now e, requests := rq, retry_owed := b\<rparr>"
  have "clk sp ?w" using assms(2,3) by (intro clock_ok_clk [of e k']) (auto simp: env_ok_def)
  moreover have "mem_ok j ?w" using assms(1,6,7) by (simp add: sysinv_def mem_ok_def written_def)
  ultimately show ?thesis using assms(4,5,8) unfolding sysinv_def by auto
qed

section \<open>The invariant is kept\<close>

lemma cfg_kept:
  assumes "cfg j k" "kept k k'" "map fst (regs k') = map fst (regs k)"
    and "\<forall>i < 2. snd (regs k' ! i) = dataFinish \<longrightarrow> snd (regs k ! i) = dataFinish"
  shows "cfg j k'"
proof -
  have "length (regs k') = 3" using assms(1,3) by (metis cfg_def length_map)
  then show ?thesis using assms by (auto simp: cfg_def kept_def same_unit_def binary_def)
qed

lemma cfg_event [simp]:
  "cfg j (k\<lparr>tickEvent := t\<rparr>) = cfg j k" "cfg j (k\<lparr>computeEvent := t\<rparr>) = cfg j k" "cfg j (k\<lparr>finishEvent := t\<rparr>) = cfg j k"
  by (simp_all add: cfg_def binary_def)

lemma cfg_binary: "cfg j k \<Longrightarrow> binary k" "cfg j k \<Longrightarrow> length (regs k) = 3" "cfg j k \<Longrightarrow> k_latency k = j_latency j"
  by (simp_all add: cfg_def)

lemma waits_update:
  assumes "length (regs k) = 3" "i < 3" "regs k' = (regs k)[i := (a, s)]"
  shows "waits k' = (if s = dataWaitingResp then insert i (waits k) else waits k - {i})"
  using assms by (auto simp: waits_def nth_list_update)

lemma read_pkt_req:
  assumes "cfg j k" "i < 2"
  shows "is_req j i (read_pkt e k i)"
proof -
  have "i < length (regs k)" "map fst (regs k) = j_addr j" using assms by (auto simp: cfg_def)
  then have "fst (regs k ! i) = j_addr j ! i" by (metis nth_map)
  then show ?thesis using assms(2) unfolding is_req_def read_pkt_def
    by (intro conjI exI [of _ e] exI [of _ "PIMSenderState_ids (e_junk e) (k_id k) (int i)"])
      (simp_all add: PIMSenderState_ids_def)
qed

lemma map_fst_update: "i < length rs \<Longrightarrow> map fst (rs[i := (fst (rs ! i), s)]) = map fst rs"
  by (simp add: map_update list_update_same_conv)

lemma map_snd_update: "map snd (rs[i := (a, s)]) = (map snd rs)[i := s]"
  by (simp add: map_update)

lemma tick_reading:
  assumes "job_ok sp j" "sysinv sp j w" "env_ok sp w e" "at_phase j w (Reading s0 s1)" "status (kern w) = WaitingResp"
    and "next_read (kern w) i"
  shows "\<exists>w'. run sp e (tick e) ((kern w)\<lparr>tickEvent := None\<rparr>) w = Inr w' \<and> sysinv sp j w'"
proof -
  let ?k = "(kern w)\<lparr>tickEvent := None\<rparr>"
  have cf: "cfg j ?k" and fl: "flight j (waits (kern w)) (requests w) (responses w)"
    using assms(2) by (simp_all add: sysinv_def)
  have co: "clock_ok e ?k"
    using inv_clock_ok [OF assms(1) _ assms(3), of ?k] assms(2) cf by (simp add: sysinv_def cfg_def)
  have i: "i < 2" "snd (regs (kern w) ! i) = dataReady" using assms(6) by (simp_all add: next_read_def)
  have nr: "next_read ?k i" using assms(6) by (simp add: next_read_def)
  have fe: "finishEvent ?k = None" "status ?k \<in> {Ready, WaitingResp}" "tickEvent ?k = None"
    using assms(4,5) by simp_all
  obtain k' where t: "tick e ?k = Inr (k', [TimingReq (read_pkt e ?k i) (e_accept e)])" "kept ?k k'"
    "computeEvent k' = None" "clock_ok e k'"
    "if e_accept e then status k' = WaitingResp \<and> tickEvent k' \<noteq> None \<and>
       regs k' = (regs ?k)[i := (fst (regs ?k ! i), dataWaitingResp)]
     else status k' = SendRetry \<and> tickEvent k' = None \<and> regs k' = regs ?k \<and> retry_pkt k' = Some (read_pkt e ?k i)"
    using tick_read [OF cfg_binary(1,2) [OF cf] fe(2) nr fe(3,1) co] assms(4) by auto
  have req: "is_req j i (read_pkt e ?k i)" by (rule read_pkt_req [OF cf i(1)])
  have len: "length (regs (kern w)) = 3" using cfg_binary(2) [OF cf] by simp
  show ?thesis
  proof (cases "e_accept e")
    case True
    then have rg: "regs k' = (regs (kern w))[i := (fst (regs (kern w) ! i), dataWaitingResp)]" using t(5) by simp
    have cf': "cfg j k'"
      using cfg_kept [OF cf t(2)] rg i len by (auto simp: map_fst_update nth_list_update)
    have wt: "waits k' = insert i (waits (kern w))" using waits_update [OF len _ rg] i(1) by simp
    have fl': "flight j (waits k') (requests w @ [read_pkt e ?k i]) (responses w)"
      unfolding wt using i by (intro flight_send [OF fl req]) (simp add: waits_def)
    have fin: "snd (regs k' ! 2) = dataFinish \<longleftrightarrow> snd (regs (kern w) ! 2) = dataFinish" using rg i(1) by simp
    have idle: "status k' = Idle \<longleftrightarrow> status (kern w) = Idle" using t(5) True assms(5) by simp
    have ph: "at_phase j (w\<lparr>kern := k', w_now := e_now e, requests := requests w @ [read_pkt e ?k i], retry_owed := retry_owed w\<rparr>)
        (Reading (([s0, s1])[i := dataWaitingResp] ! 0) (([s0, s1])[i := dataWaitingResp] ! 1))"
      using assms(4,5) t True rg i(1) by (auto simp: map_snd_update less_2_cases_iff kept_def)
    show ?thesis using kernel_step [OF assms(2,3) t(4) cf' fl' fin idle ph] t(1) True by (simp add: run_def)
  next
    case False
    then have rg: "regs k' = regs (kern w)" using t(5) by simp
    have cf': "cfg j k'" using cfg_kept [OF cf t(2)] rg by simp
    have fl': "flight j (waits k') (requests w) (responses w)" using fl rg by (simp add: waits_def)
    have "next_read k' i" using assms(6) rg by (simp add: next_read_def)
    then have ph: "at_phase j (w\<lparr>kern := k', w_now := e_now e, requests := requests w, retry_owed := True\<rparr>) (Reading s0 s1)"
      using assms(4) t False req rg by (auto simp: kept_def)
    have fin: "snd (regs k' ! 2) = dataFinish \<longleftrightarrow> snd (regs (kern w) ! 2) = dataFinish" using rg by simp
    have idle: "status k' = Idle \<longleftrightarrow> status (kern w) = Idle" using t(5) False assms(5) by simp
    show ?thesis using kernel_step [OF assms(2,3) t(4) cf' fl' fin idle ph] t(1) False by (simp add: run_def)
  qed
qed

lemma cfg_same:
  assumes "cfg j k" "same_unit k k'" "kdata k' = kdata k" "regs k' = regs k"
  shows "cfg j k'"
  using assms by (simp add: cfg_def same_unit_def binary_def)

lemma quiet_step:
  assumes "sysinv sp j w" "env_ok sp w e" "h k0 = Inr (k', [])" "cfg j k'" "clock_ok e k'" "regs k' = regs (kern w)"
    and "status k' = Idle \<longleftrightarrow> status (kern w) = Idle"
    and "at_phase j (w\<lparr>kern := k', w_now := e_now e\<rparr>) ph"
  shows "\<exists>w'. run sp e h k0 w = Inr w' \<and> sysinv sp j w'"
proof -
  have fl: "flight j (waits k') (requests w) (responses w)"
    using assms(1,6) by (simp add: sysinv_def waits_def)
  have fin: "snd (regs k' ! 2) = dataFinish \<longleftrightarrow> snd (regs (kern w) ! 2) = dataFinish" using assms(6) by simp
  have ph: "at_phase j (w\<lparr>kern := k', w_now := e_now e, requests := requests w, retry_owed := retry_owed w\<rparr>) ph"
    using assms(8) by simp
  from kernel_step [OF assms(1,2,5,4) fl fin assms(7) ph] assms(3) show ?thesis by (simp add: run_def)
qed

lemma tick_waiting:
  assumes "job_ok sp j" "sysinv sp j w" "env_ok sp w e" "at_phase j w ph" "status (kern w) = WaitingResp"
    and "\<nexists>i. next_read (kern w) i"
  shows "\<exists>w'. run sp e (tick e) ((kern w)\<lparr>tickEvent := None\<rparr>) w = Inr w' \<and> sysinv sp j w'"
proof -
  let ?k = "(kern w)\<lparr>tickEvent := None\<rparr>"
  have cf: "cfg j ?k" using assms(2) by (simp add: sysinv_def)
  have co: "clock_ok e ?k"
    using inv_clock_ok [OF assms(1) _ assms(3), of ?k] assms(2) cf by (simp add: sysinv_def cfg_def)
  obtain a0 s0 a1 s1 a2 s2 where rg: "regs ?k = [(a0, s0), (a1, s1), (a2, s2)]" using regs_3 [OF cfg_binary(2) [OF cf]] .
  have nr: "s0 \<noteq> dataReady" "s1 \<noteq> dataReady"
    using assms(6) [simplified, rule_format, of 0] assms(6) [simplified, rule_format, of 1] rg by (auto simp: next_read_def)
  have fe: "finishEvent ?k = None" "\<not> retry_owed w" using assms(4,5) by (cases ph; simp)+
  have idle: "status k' = Idle \<longleftrightarrow> status (kern w) = Idle" if "status k' = WaitingResp" for k' using that assms(5) by simp
  show ?thesis
  proof (cases "s0 = dataFinish \<and> s1 = dataFinish \<and> s2 = dataReady")
    case True
    then obtain k' where k': "tick e ?k = Inr (k', [])" "kept ?k k'" "computeEvent k' \<noteq> None" "clock_ok e k'"
      "status k' = WaitingResp" "tickEvent k' \<noteq> None" "regs k' = regs (kern w)"
      using tick_compute [OF cfg_binary(1) [OF cf], of a0 a1 a2 e] rg fe(1) assms(5) co by auto
    have cf': "cfg j k'" using cfg_same [OF cf] k'(2,7) by (simp add: kept_def)
    have p: "at_phase j (w\<lparr>kern := k', w_now := e_now e\<rparr>) Computing" using k' rg True fe by (auto simp: kept_def)
    show ?thesis by (rule quiet_step [of sp j w e "tick e", OF assms(2,3) k'(1) cf' k'(4,7) idle [OF k'(5)] p])
  next
    case False
    have s2: "s2 \<noteq> dataFinish" using assms(4,5) rg by (cases ph) auto
    then obtain k' where k': "tick e ?k = Inr (k', [])" "kept ?k k'" "computeEvent k' = computeEvent (kern w)"
      "clock_ok e k'" "status k' = WaitingResp" "tickEvent k' \<noteq> None" "regs k' = regs (kern w)"
      using tick_wait [OF cfg_binary(1) [OF cf] rg, of e] nr False fe(1) assms(5) co by auto
    have cf': "cfg j k'" using cfg_same [OF cf] k'(2,7) by (simp add: kept_def)
    have p: "at_phase j (w\<lparr>kern := k', w_now := e_now e\<rparr>) ph"
      using assms(4,5) k' False rg fe by (cases ph) (auto simp: kept_def)
    show ?thesis by (rule quiet_step [of sp j w e "tick e", OF assms(2,3) k'(1) cf' k'(4,7) idle [OF k'(5)] p])
  qed
qed

lemma tick_keeps:
  assumes "job_ok sp j" "sysinv sp j w" "env_ok sp w e" "tickEvent (kern w) \<noteq> None"
  shows "\<exists>w'. run sp e (tick e) ((kern w)\<lparr>tickEvent := None\<rparr>) w = Inr w' \<and> sysinv sp j w'"
proof -
  let ?k = "(kern w)\<lparr>tickEvent := None\<rparr>"
  have cf: "cfg j ?k" using assms(2) by (simp add: sysinv_def)
  have co: "clock_ok e ?k"
    using inv_clock_ok [OF assms(1) _ assms(3), of ?k] assms(2) cf by (simp add: sysinv_def cfg_def)
  obtain ph where ph: "at_phase j w ph" using assms(2) by (auto simp: sysinv_def)
  consider "status (kern w) = WaitingResp" | "status (kern w) = SendRetry" | "status (kern w) = Finish" "ph = Done"
    using ph assms(4) by (cases ph) auto
  then show ?thesis
  proof cases
    case 1
    show ?thesis
    proof (cases "\<exists>i. next_read (kern w) i")
      case True
      then obtain i where i: "next_read (kern w) i" ..
      then obtain s0 s1 where "ph = Reading s0 s1" using ph by (cases ph) (auto simp: next_read_def less_2_cases_iff)
      then show ?thesis using tick_reading [OF assms(1-3) _ 1 i] ph by blast
    next
      case False
      then show ?thesis using tick_waiting [OF assms(1-3) ph 1] by blast
    qed
  next
    case 2
    let ?k' = "?k\<lparr>active_cycle := active_cycle ?k + 1\<rparr>"
    have p: "at_phase j (w\<lparr>kern := ?k', w_now := e_now e\<rparr>) ph"
      using ph 2 by (cases ph) (auto simp: next_read_def)
    have c: "clock_ok e ?k'" using clock_ok_cong [of ?k' ?k] co by simp
    have cf': "cfg j ?k'" using cf by (simp add: cfg_def binary_def)
    have tr: "tick e ?k = Inr (?k', [])" using tick_retry [of ?k e] 2 by simp
    show ?thesis by (rule quiet_step [of sp j w e "tick e", OF assms(2,3) tr cf' c _ _ p]) simp_all
  next
    case 3
    obtain k' t where k': "tick e ?k = Inr (k', [])" "same_unit ?k k'" "kdata k' = kdata ?k" "computeEvent k' = None"
      "clock_ok e k'" "status k' = Finish" "tickEvent k' = None" "finishEvent k' = Some t" "regs k' = regs (kern w)"
      using tick_finish [of ?k e] ph [unfolded 3(2)] co by auto
    have p: "at_phase j (w\<lparr>kern := k', w_now := e_now e\<rparr>) Finishing" using k' ph [unfolded 3(2)] by auto
    have cf': "cfg j k'" using cfg_same [OF cf k'(2,3)] k'(9) by simp
    have idle: "status k' = Idle \<longleftrightarrow> status (kern w) = Idle" using k'(6) 3 by simp
    show ?thesis by (rule quiet_step [of sp j w e "tick e", OF assms(2,3) k'(1) cf' k'(5,9) idle p])
  qed
qed

lemma compute_keeps:
  assumes "job_ok sp j" "sysinv sp j w" "env_ok sp w e" "computeEvent (kern w) \<noteq> None" "e_accept e"
  shows "\<exists>w'. run sp e (trycompute e) ((kern w)\<lparr>computeEvent := None\<rparr>) w = Inr w' \<and> sysinv sp j w'"
proof -
  let ?k = "(kern w)\<lparr>computeEvent := None\<rparr>"
  have cf: "cfg j ?k" and fl: "flight j (waits (kern w)) (requests w) (responses w)"
    using assms(2) by (simp_all add: sysinv_def)
  have co: "clock_ok e ?k"
    using inv_clock_ok [OF assms(1) _ assms(3), of ?k] assms(2) cf by (simp add: sysinv_def cfg_def)
  obtain ph where "at_phase j w ph" using assms(2) by (auto simp: sysinv_def)
  then have at: "at_phase j w Computing" using assms(4) by (cases ph) auto
  have "map snd (regs ?k) = [dataFinish, dataFinish, dataReady]" using at by simp
  then obtain a0 a1 a2 where rg: "regs ?k = [(a0, dataFinish), (a1, dataFinish), (a2, dataReady)]"
    and ad: "j_addr j = [a0, a1, a2]" using cfg_regs [OF cf] by metis
  obtain r where r: "job_result j = Inr r" using assms(1) by (auto simp: job_ok_def)
  have "kdata ?k ! 0 = operand j 0" "kdata ?k ! 1 = operand j 1" "unit_kind ?k = j_unit j"
    using cf rg by (simp_all add: cfg_def)
  then have op: "compute_op (unit_kind ?k) (kdata ?k ! 0) (kdata ?k ! 1) = Inr r"
    using r by (simp add: job_result_def)
  obtain k' where k': "trycompute e ?k = Inr (k', [TimingReq (write_pkt e ?k r) True])" "kept ?k k'" "clock_ok e k'"
    "status k' = WaitingResp" "tickEvent k' = tickEvent (kern w)" "computeEvent k' = None"
    "regs k' = [(a0, dataFinish), (a1, dataFinish), (a2, dataWaitingResp)]"
    using trycompute_accepted [OF cfg_binary(1) [OF cf] rg _ op assms(5) co] at by (auto simp: isActive_def)
  have cf': "cfg j k'" using cfg_kept [OF cf k'(2)] k'(7) rg by (auto simp: less_2_cases_iff)
  have req: "is_req j 2 (write_pkt e ?k r)"
    unfolding is_req_def write_pkt_def rg ad
    by (intro conjI exI [of _ e] exI [of _ "PIMSenderState_ids (e_junk e) (k_id ?k) 2"])
      (simp_all add: PIMSenderState_ids_def r)
  have rw: "regs (kern w) = [(a0, dataFinish), (a1, dataFinish), (a2, dataReady)]" using rg by simp
  have wt: "waits k' = insert 2 (waits (kern w))" "2 \<notin> waits (kern w)"
    using k'(7) rw by (auto simp: waits_def less_Suc_eq eval_nat_numeral)
  have fl': "flight j (waits k') (requests w @ [write_pkt e ?k r]) (responses w)"
    unfolding wt(1) by (rule flight_send [OF fl req wt(2)])
  have p: "at_phase j (w\<lparr>kern := k', w_now := e_now e, requests := requests w @ [write_pkt e ?k r], retry_owed := retry_owed w\<rparr>) Writing"
    using at k' by (auto simp: kept_def)
  have "sysinv sp j (w\<lparr>kern := k', w_now := e_now e, requests := requests w @ [write_pkt e ?k r], retry_owed := retry_owed w\<rparr>)"
    by (rule kernel_step [OF assms(2,3) k'(3) cf' fl' _ _ p]) (use k' rw at in simp_all)
  then show ?thesis using k'(1) by (simp add: run_def)
qed

lemma retry_keeps:
  assumes "job_ok sp j" "sysinv sp j w" "env_ok sp w e" "retry_owed w"
  shows "\<exists>w'. run sp e (recvReqRetry e) (kern w) (w\<lparr>retry_owed := False\<rparr>) = Inr w' \<and> sysinv sp j w'"
proof -
  let ?k = "kern w"
  have cf: "cfg j ?k" and fl: "flight j (waits ?k) (requests w) (responses w)"
    using assms(2) by (simp_all add: sysinv_def)
  have co: "clock_ok e ?k"
    using inv_clock_ok [OF assms(1) _ assms(3), of ?k] assms(2) cf by (simp add: sysinv_def cfg_def)
  obtain s0 s1 where at: "at_phase j w (Reading s0 s1)"
  proof -
    obtain ph where "at_phase j w ph" using assms(2) by (auto simp: sysinv_def)
    then show ?thesis using that assms(4) by (cases ph) auto
  qed
  then obtain i rp where i: "next_read ?k i" "retry_pkt ?k = Some rp" "is_req j i rp" "status ?k = SendRetry"
    using assms(4) by auto
  obtain st where st: "pimState rp = Some st" "ps_procid st = int i"
    using i(3) unfolding is_req_def by (metis kernel_pkt_sel(5))
  have i2: "i < 2" "snd (regs ?k ! i) = dataReady" using i(1) by (simp_all add: next_read_def)
  have fe: "finishEvent ?k = None" using at by simp
  obtain k' where k': "recvReqRetry e ?k = Inr (k', [TimingReq rp (e_accept e)])" "kept ?k k'" "clock_ok e k'"
    "computeEvent k' = None" "retry_pkt k' = Some rp"
    "if e_accept e then status k' = WaitingResp \<and> tickEvent k' \<noteq> None \<and>
       regs k' = (regs ?k)[i := (fst (regs ?k ! i), dataWaitingResp)]
     else status k' = SendRetry \<and> tickEvent k' = tickEvent ?k \<and> regs k' = regs ?k"
    using recvReqRetry_ok [OF cfg_binary(1,2) [OF cf] i(4,2) st _ fe co] i2(1) at i(2) by auto
  have len: "length (regs ?k) = 3" using cfg_binary(2) [OF cf] .
  show ?thesis
  proof (cases "e_accept e")
    case True
    then have rg: "regs k' = (regs ?k)[i := (fst (regs ?k ! i), dataWaitingResp)]" using k'(6) by simp
    have cf': "cfg j k'" using cfg_kept [OF cf k'(2)] rg i2 len by (auto simp: map_fst_update nth_list_update)
    have wt: "waits k' = insert i (waits ?k)" using waits_update [OF len _ rg] i2(1) by simp
    have fl': "flight j (waits k') (requests w @ [rp]) (responses w)"
      unfolding wt using i2 by (intro flight_send [OF fl i(3)]) (simp add: waits_def)
    have p: "at_phase j (w\<lparr>kern := k', w_now := e_now e, requests := requests w @ [rp], retry_owed := False\<rparr>)
        (Reading (([s0, s1])[i := dataWaitingResp] ! 0) (([s0, s1])[i := dataWaitingResp] ! 1))"
      using at k' True rg i2(1) by (auto simp: map_snd_update less_2_cases_iff kept_def)
    have "sysinv sp j (w\<lparr>kern := k', w_now := e_now e, requests := requests w @ [rp], retry_owed := False\<rparr>)"
      by (rule kernel_step [OF assms(2,3) k'(3) cf' fl' _ _ p]) (use k'(6) True rg i2(1) i(4) in simp_all)
    moreover have "run sp e (recvReqRetry e) ?k (w\<lparr>retry_owed := False\<rparr>) =
        Inr (w\<lparr>kern := k', w_now := e_now e, requests := requests w @ [rp], retry_owed := False\<rparr>)"
      using k'(1) True by (simp add: run_def)
    ultimately show ?thesis by blast
  next
    case False
    then have rg: "regs k' = regs ?k" using k'(6) by simp
    have cf': "cfg j k'" using cfg_kept [OF cf k'(2)] rg by simp
    have fl': "flight j (waits k') (requests w) (responses w)" using fl rg by (simp add: waits_def)
    have "next_read k' i" using i(1) rg by (simp add: next_read_def)
    then have p: "at_phase j (w\<lparr>kern := k', w_now := e_now e, requests := requests w, retry_owed := True\<rparr>) (Reading s0 s1)"
      using at k' False i(3) rg by (auto simp: kept_def)
    have "sysinv sp j (w\<lparr>kern := k', w_now := e_now e, requests := requests w, retry_owed := True\<rparr>)"
      by (rule kernel_step [OF assms(2,3) k'(3) cf' fl' _ _ p]) (use k'(6) False rg i(4) in simp_all)
    moreover have "run sp e (recvReqRetry e) ?k (w\<lparr>retry_owed := False\<rparr>) =
        Inr (w\<lparr>kern := k', w_now := e_now e, requests := requests w, retry_owed := True\<rparr>)"
      using k'(1) False by (simp add: run_def)
    ultimately show ?thesis by blast
  qed
qed

lemma remove_nth_other:
  assumes "distinct (map f xs)" "n < length xs" "f (xs ! n) \<noteq> y"
  shows "y \<in> f ` set (remove_nth n xs) \<longleftrightarrow> y \<in> f ` set xs"
  using set_remove_nth(3) [OF assms(1,2)] assms(3) by auto

lemma cfg_response:
  assumes "cfg j k" "same_unit k k'" "kdata k' = (kdata k)[i := x]" "i < 3" "i < 2 \<longrightarrow> x = operand j i"
    and "regs k' = (regs k)[i := (fst (regs k ! i), dataFinish)]"
  shows "cfg j k'"
proof -
  have len: "length (regs k) = 3" "length (kdata k) = 3" using assms(1) by (simp_all add: cfg_def binary_def)
  have "kdata k' ! m = operand j m" if "m < 2" "snd (regs k' ! m) = dataFinish" for m
    using that assms len by (cases "m = i") (auto simp: cfg_def)
  then show ?thesis using assms len by (simp add: cfg_def same_unit_def binary_def map_fst_update)
qed

lemma respond_phase:
  assumes "at_phase j w ph" "i < 3" "snd (regs (kern w) ! i) = dataWaitingResp" "length (regs (kern w)) = 3"
    and "recvTimingResp e r (kern w) = Inr (k', [])" "same_unit (kern w) k'" "finishEvent k' = finishEvent (kern w)"
    "computeEvent k' = computeEvent (kern w)" "clock_ok e k'" "retry_pkt k' = retry_pkt (kern w)" "tickEvent k' \<noteq> None"
    "kdata k' = d" "regs k' = (regs (kern w))[i := (fst (regs (kern w) ! i), dataFinish)]"
    "status k' = (if \<forall>j < 3. snd (regs k' ! j) = dataFinish then Finish else status (kern w))"
  shows "\<exists>ph'. at_phase j (w\<lparr>responses := rs, kern := k', w_now := t\<rparr>) ph' \<and> status k' \<noteq> Idle \<and> status (kern w) \<noteq> Idle"
proof -
  obtain a0 s0 a1 s1 a2 s2 where rg: "regs (kern w) = [(a0, s0), (a1, s1), (a2, s2)]" using regs_3 [OF assms(4)] .
  consider (rd) "ph = Reading s0 s1" "s2 = dataReady" "i < 2" | (wr) "ph = Writing" "i = 2" "s0 = dataFinish" "s1 = dataFinish"
    using assms(1-3) rg by (cases ph) (auto simp: less_Suc_eq eval_nat_numeral)
  then show ?thesis
  proof cases
    case rd
    have "snd (regs k' ! 2) = dataReady" using assms(13) rd rg by (auto simp: less_2_cases_iff)
    then have "\<not> (\<forall>j < 3. snd (regs k' ! j) = dataFinish)" by (auto intro!: exI [of _ 2])
    then have s: "status k' = status (kern w)" using assms(14) by (simp only: if_False)
    have nx: "next_read k' m" if "next_read (kern w) m" for m
      using that assms(3,4,13) rd(3) by (auto simp: next_read_def nth_list_update)
    have at: "at_phase j w (Reading s0 s1)" using assms(1) rd(1) by simp
    let ?D = "{dataReady, dataWaitingResp, dataFinish}"
    have sD: "s0 \<in> ?D" "s1 \<in> ?D" using at by simp_all
    have "i = 0 \<or> i = 1" using rd(3) by auto
    then obtain x0 x1 where x: "map snd (regs k') = [x0, x1, dataReady]" "x0 \<in> ?D" "x1 \<in> ?D"
      using assms(13) rg rd(2) sD by (elim disjE) simp_all
    have ev: "computeEvent k' = None" "finishEvent k' = None" using at assms(7,8) by simp_all
    have ct: "status (kern w) = WaitingResp \<and> \<not> retry_owed w \<or> status (kern w) = SendRetry \<and> retry_owed w \<and>
        (\<exists>i rp. next_read (kern w) i \<and> retry_pkt (kern w) = Some rp \<and> is_req j i rp)"
      using at unfolding at_phase.simps by blast
    have "status k' = WaitingResp \<and> tickEvent k' \<noteq> None \<and> \<not> retry_owed w \<or> status k' = SendRetry \<and> retry_owed w \<and>
        (\<exists>i rp. next_read k' i \<and> retry_pkt k' = Some rp \<and> is_req j i rp)"
      unfolding s assms(10) using ct nx assms(11) by blast
    then have "at_phase j (w\<lparr>responses := rs, kern := k', w_now := t\<rparr>) (Reading x0 x1)"
      unfolding at_phase.simps using x ev by simp
    moreover have ni: "status (kern w) \<noteq> Idle" using assms(1) rd by auto
    moreover have "status k' \<noteq> Idle" using ni s by simp
    ultimately show ?thesis by (intro exI conjI)
  next
    case wr
    have r: "regs k' = [(a0, dataFinish), (a1, dataFinish), (a2, dataFinish)]" using assms(13) wr rg by simp
    then have "status k' = Finish" using assms(14) by (auto simp: less_Suc_eq eval_nat_numeral)
    moreover have "at_phase j (w\<lparr>responses := rs, kern := k', w_now := t\<rparr>) Done"
      using assms(1,7,8,11) wr r calculation by auto
    moreover have "status (kern w) \<noteq> Idle" using assms(1) wr by simp
    ultimately show ?thesis by (metis Status.distinct(7))
  qed
qed

lemma respond_keeps:
  assumes "job_ok sp j" "sysinv sp j w" "env_ok sp w e" "n < length (responses w)"
  shows "\<exists>w'. run sp e (recvTimingResp e (responses w ! n)) (kern w) (w\<lparr>responses := remove_nth n (responses w)\<rparr>) = Inr w' \<and>
    sysinv sp j w'"
proof -
  let ?k = "kern w" and ?r = "responses w ! n"
  have cf: "cfg j ?k" and fl: "flight j (waits ?k) (requests w) (responses w)"
    using assms(2) by (simp_all add: sysinv_def)
  have co: "clock_ok e ?k"
    using inv_clock_ok [OF assms(1) _ assms(3), of ?k] assms(2) cf by (simp add: sysinv_def cfg_def)
  obtain ph where ph: "at_phase j w ph" using assms(2) by (auto simp: sysinv_def)
  have d: "distinct (map pid (responses w))" using fl by (simp add: flight_def)
  define i where "i = nat (pid ?r)"
  have rs: "is_resp j i ?r" using fl assms(4) by (simp add: flight_def i_def)
  then have pidr: "pid ?r = int i" by (rule is_resp_pid)
  have fd: "flight j (waits ?k - {i}) (requests w) (remove_nth n (responses w))" and iw: "i \<in> waits ?k"
    using flight_deliver [OF fl assms(4) pidr] by blast+
  have i3: "i < 3" "snd (regs ?k ! i) = dataWaitingResp" using iw by (simp_all add: waits_def)
  obtain st b where st: "pimState ?r = Some st" "ps_procid st = int i" "getPtr ?r = Inr b" "length b = 8"
    "i < 2 \<longrightarrow> of_le_bytes b = operand j i" using rs by (auto simp: is_resp_def)
  have len: "length (regs ?k) = 3" using cfg_binary(2) [OF cf] .
  obtain k' where k': "recvTimingResp e ?r ?k = Inr (k', [])" "same_unit ?k k'" "finishEvent k' = finishEvent ?k"
    "computeEvent k' = computeEvent ?k" "clock_ok e k'" "retry_pkt k' = retry_pkt ?k" "tickEvent k' \<noteq> None"
    "kdata k' = (kdata ?k)[i := of_le_bytes b]" "regs k' = (regs ?k)[i := (fst (regs ?k ! i), dataFinish)]"
    "status k' = (if \<forall>j < 3. snd (regs k' ! j) = dataFinish then Finish else status ?k)"
    using recvTimingResp_ok [OF cfg_binary(1) [OF cf] len st(1,2) i3(1) st(3,4) co] by blast
  let ?w = "w\<lparr>responses := remove_nth n (responses w), kern := k', w_now := e_now e\<rparr>"
  have cf': "cfg j k'" by (rule cfg_response [OF cf k'(2,8) i3(1) st(5) k'(9)])
  have "waits k' = waits ?k - {i}" using waits_update [OF len i3(1) k'(9)] by simp
  then have fl': "flight j (waits k') (requests ?w) (responses ?w)" using fd by simp
  have clk': "clk sp ?w" by (rule clock_ok_clk [OF k'(5)]) (use assms(3) in \<open>simp_all add: env_ok_def\<close>)
  have ms: "map snd (regs k') = (map snd (regs ?k))[i := dataFinish]" using k'(9) by (simp add: map_snd_update)
  obtain ph' where ph': "at_phase j ?w ph'" and ni: "status k' \<noteq> Idle" "status ?k \<noteq> Idle"
    using respond_phase [OF ph i3 len k'] by blast
  have wr: "written ?w = written w"
  proof (cases "i = 2")
    case True
    have "int 2 \<in> pid ` set (responses w)" using assms(4) pidr True nth_mem [OF assms(4)] by (metis image_eqI)
    then show ?thesis using True k'(9) len by (simp add: written_def)
  next
    case False
    then show ?thesis using remove_nth_other [OF d assms(4), of 2] pidr k'(9) by (simp add: written_def)
  qed
  have "mem_ok j ?w" using assms(2) wr ni by (simp add: sysinv_def mem_ok_def)
  then have "sysinv sp j ?w" using cf' fl' clk' ph' by (auto simp: sysinv_def)
  then show ?thesis using k'(1) by (simp add: run_def)
qed

lemma kernel_pkt_fits:
  assumes "word_in m a" "length d = 8"
  shows "fits m (kernel_pkt e c a 8 d st)" "\<not> cacheResponding (kernel_pkt e c a 8 d st)"
    "\<not> isInstFetch (preq (kernel_pkt e c a 8 d st))"
    "touches (kernel_pkt e c a 8 d st) x \<longleftrightarrow> a \<le> x \<and> unat x < unat a + 8"
  using assms
  by (simp_all add: fits_def word_in_def cacheResponding_def isSet_def isInstFetch_def touches_def Request_phys_reads)

lemma pim_command_facts:
  "pcmd p = PIMRead \<Longrightarrow> isRequest (pcmd p) \<and> isRead (pcmd p) \<and> pcmd p \<noteq> SwapReq \<and> \<not> isLLSC (pcmd p)"
  "pcmd p = PIMWrite \<Longrightarrow> isRequest (pcmd p) \<and> isWrite (pcmd p) \<and> \<not> isRead (pcmd p) \<and> pcmd p \<noteq> WritebackClean \<and>
     \<not> isLLSC (pcmd p) \<and> needsResponse (pcmd p)"
  by simp_all

lemma word_at_bytes:
  assumes "word_in m a" "length d = 8"
    and "\<forall>x. a \<le> x \<and> unat x < unat a + 8 \<longrightarrow> byte_map m x = Some (d ! (unat x - unat a))"
  shows "of_le_bytes d = word_at m a"
proof -
  have "d = map (\<lambda>i. the (byte_map m (a + of_nat i))) [0..<8]"
  proof (rule nth_equalityI)
    fix i assume "i < length d"
    then have i: "i < 8" using assms(2) by simp
    have "unat a + 8 \<le> 2 ^ 64" using assms(1) unsigned_less [of "r_end (am_range m)", where ?'a = nat] by (simp add: word_in_def)
    then have "unat (a + of_nat i) = unat a + i"
      using i by (simp add: unat_word_ariths unsigned_of_nat take_bit_nat_eq_self)
    then have "byte_map m (a + of_nat i) = Some (d ! i)"
      using assms(3) i by (simp add: word_le_nat_alt)
    then show "d ! i = map (\<lambda>i. the (byte_map m (a + of_nat i))) [0..<8] ! i" using i by simp
  qed (simp add: assms(2))
  then show ?thesis by (simp add: word_at_def)
qed

lemma not_written:
  assumes "sysinv sp j w" "i \<in> pid ` set (requests w)" "i = 0 \<or> i = 1 \<or> i = 2"
  shows "\<not> written w"
proof -
  have fl: "flight j (waits (kern w)) (requests w) (responses w)" using assms(1) by (simp add: sysinv_def)
  obtain ph where ph: "at_phase j w ph" using assms(1) by (auto simp: sysinv_def)
  have "i \<in> int ` waits (kern w)" using fl assms(2) unfolding flight_def by auto
  then have iw: "nat i \<in> waits (kern w)" by auto
  have "length (regs (kern w)) = 3" using assms(1) by (simp add: sysinv_def cfg_def)
  from regs_3 [OF this] obtain a0 s0 a1 s1 a2 s2 where rg: "regs (kern w) = [(a0, s0), (a1, s1), (a2, s2)]" .
  have s2: "s2 \<noteq> dataFinish" "i \<noteq> 2 \<longrightarrow> s2 = dataReady"
    using ph iw rg assms(3) by (cases ph; auto simp: waits_def)+
  have "2 \<notin> pid ` set (responses w)"
  proof (cases "i = 2")
    case True
    then show ?thesis using fl assms(2) by (auto simp: flight_def)
  next
    case False
    then have "2 \<notin> waits (kern w)" using s2 rg by (simp add: waits_def)
    then have "(2::int) \<notin> int ` waits (kern w)" by auto
    then show ?thesis using fl by (auto simp: flight_def)
  qed
  then show ?thesis using s2(1) rg by (simp add: written_def)
qed

text \<open>What the memory does with a request of the kernel, as the invariant needs it.\<close>

definition served :: "job \<Rightarrow> world \<Rightarrow> nat \<Rightarrow> AbstractMemory \<Rightarrow> bool" where
  "served j w i m' \<longleftrightarrow> mem_wf m' \<and> pmem m' \<noteq> None \<and> lockedAddrList m' = [] \<and>
     am_range m' = am_range (j_mem j) \<and> cpu_type m' = cpu_type (j_mem j) \<and>
     coherence_granularity m' = coherence_granularity (j_mem j) \<and>
     pendingPIMqueue m' = pendingPIMqueue (wmem w) \<and> byte_map m' = (if i = 2 then result_map j else byte_map (j_mem j))"

lemma serve_request:
  assumes "job_ok sp j" "sysinv sp j w" "p \<in> set (requests w)" "is_req j i p" "i < 3"
  shows "\<exists>m' r cl. access p (wmem w) = Inr (m', r, cl) \<and> is_resp j i r \<and> served j w i m'"
proof -
  let ?m = "wmem w" and ?a = "j_addr j ! i"
  have mo: "mem_wf ?m" "lockedAddrList ?m = []" "am_range ?m = am_range (j_mem j)" "cpu_type ?m = cpu_type (j_mem j)"
    "coherence_granularity ?m = coherence_granularity (j_mem j)"
    and pm: "pmem ?m \<noteq> None" using assms(2) by (simp_all add: sysinv_def mem_ok_def)
  obtain bytes where bs: "pmem ?m = Some bytes" using pm by auto
  have pi: "pid p = int i" by (rule is_req_pid [OF assms(4)])
  have "\<not> written w" by (rule not_written [OF assms(2), of "int i"]) (use assms(3,5) pi in \<open>auto intro: rev_image_eqI\<close>)
  then have bm: "byte_map ?m = byte_map (j_mem j)" using assms(2) by (simp add: sysinv_def mem_ok_def)
  have win: "word_in ?m ?a" using assms(1,5) mo(3) by (simp add: job_ok_def word_in_def)
  obtain e st where p: "p = kernel_pkt e (if i < 2 then PIMRead else PIMWrite) ?a 8 (pdata p) st" "ps_procid st = int i"
    and len: "length (pdata p) = 8" using assms(4) unfolding is_req_def by blast
  have pst: "senderState p = [PIMState st]" "paddr p = ?a" "psize p = 8" using arg_cong [OF p(1), of senderState]
      arg_cong [OF p(1), of paddr] arg_cong [OF p(1), of psize] by simp_all
  have kf: "fits ?m p" "\<not> cacheResponding p" "\<not> isInstFetch (preq p)" "touches p x \<longleftrightarrow> ?a \<le> x \<and> unat x < unat ?a + 8" for x
    using kernel_pkt_fits [OF win len] p(1) by metis+
  have ps: "pimState r = Some st" if "senderState r = senderState p" for r using that pst(1) by (simp add: pimState_def)
  show ?thesis
  proof (cases "i < 2")
    case True
    then have cmd: "pcmd p = PIMRead" using arg_cong [OF p(1), of pcmd] by simp
    note pf = pim_command_facts(1) [OF cmd]
    obtain m' r where a: "access p ?m = Inr (m', r, [])" "\<forall>a. touches p a \<longrightarrow> byte_map ?m a = Some (pdata r ! (unat a - unat (paddr p)))"
      "senderState r = senderState p" "pmem m' = pmem ?m" "am_range m' = am_range ?m" "cpu_type m' = cpu_type ?m"
      "coherence_granularity m' = coherence_granularity ?m" "getPtr r = Inr (pdata r)" "length (pdata r) = unat (psize p)" "byte_map m' = byte_map ?m" "mem_wf m'"
      "lockedAddrList m' = lockedAddrList ?m" "pendingPIMqueue m' = pendingPIMqueue ?m"
      using access_read_bytes [OF mo(1) bs kf(1,2)] pf by blast
    have "of_le_bytes (pdata r) = word_at ?m ?a"
      by (rule word_at_bytes [OF win]) (use a(2,9) kf(4) pst in auto)
    moreover have "word_at ?m ?a = operand j i" by (simp add: word_at_def operand_def bm)
    ultimately have "is_resp j i r" using a(8,9) ps [OF a(3)] p(2) pst(3) by (simp add: is_resp_def)
    moreover have "served j w i m'" using a mo pm bm True by (simp add: served_def)
    ultimately show ?thesis using a(1) by blast
  next
    case False
    then have i2: "i = 2" and cmd: "pcmd p = PIMWrite" using assms(5) arg_cong [OF p(1), of pcmd] by simp_all
    note pf = pim_command_facts(2) [OF cmd]
    obtain m' mem' r where a: "access p ?m = Inr (m', r, [])" "mem_wf m'" "lockedAddrList m' = []" "pmem m' = Some mem'"
      "am_range m' = am_range ?m" "pendingPIMqueue m' = pendingPIMqueue ?m" "cpu_type m' = cpu_type ?m" "coherence_granularity m' = coherence_granularity ?m"
      "byte_map m' = (\<lambda>a. if touches p a then Some (pdata p ! (unat a - unat (paddr p))) else byte_map ?m a)"
      "senderState r = senderState p" "getPtr r = Inr (pdata p)"
      using access_write_bytes [OF mo(1,2) bs kf(1,2)] pf kf(3) by blast
    have res: "job_result j = Inr (of_le_bytes (pdata p))" using assms(4) i2 by (simp add: is_req_def)
    have "le_bytes 8 (of_le_bytes (pdata p)) = pdata p" using le_bytes_of_le_bytes [of "pdata p"] len by simp
    then have "byte_map m' = result_map j" unfolding a(9) by (simp add: result_map_def res kf(4) bm pst(2) i2 fun_eq_iff)
    then have "served j w i m'" using a mo i2 by (simp add: served_def)
    moreover have "is_resp j i r" using a(11) ps [OF a(10)] p(2) len i2 by (simp add: is_resp_def)
    ultimately show ?thesis using a(1) by blast
  qed
qed

lemma serve_keeps:
  assumes "job_ok sp j" "sysinv sp j w" "n < length (requests w)"
  shows "\<exists>m' r cl. access (requests w ! n) (wmem w) = Inr (m', r, cl) \<and>
    sysinv sp j (w\<lparr>wmem := m', requests := remove_nth n (requests w), responses := responses w @ [r]\<rparr>)"
proof -
  let ?p = "requests w ! n"
  define i where "i = nat (pid ?p)"
  have fl: "flight j (waits (kern w)) (requests w) (responses w)" using assms(2) by (simp add: sysinv_def)
  have mem: "?p \<in> set (requests w)" using assms(3) by simp
  have rq: "is_req j i ?p" using fl mem by (simp add: flight_def i_def)
  then have pi: "pid ?p = int i" by (rule is_req_pid)
  have "int i \<in> int ` waits (kern w)" using fl mem pi unfolding flight_def by (metis UnCI image_eqI set_append)
  then have i3: "i < 3" by (auto simp: waits_def)
  obtain m' r cl where s: "access ?p (wmem w) = Inr (m', r, cl)" "is_resp j i r" "served j w i m'"
    using serve_request [OF assms(1,2) mem rq i3] by blast
  let ?w = "w\<lparr>wmem := m', requests := remove_nth n (requests w), responses := responses w @ [r]\<rparr>"
  have fl': "flight j (waits (kern w)) (requests ?w) (responses ?w)"
    using flight_serve [OF fl assms(3), of r] s(2) by (simp add: i_def)
  have nw: "\<not> written w" by (rule not_written [OF assms(2), of "int i"]) (use mem pi i3 in \<open>auto intro: rev_image_eqI\<close>)
  have "written ?w \<longleftrightarrow> i = 2" using nw is_resp_pid [OF s(2)] by (auto simp: written_def)
  then have "mem_ok j ?w" using s(3) assms(2) by (simp add: mem_ok_def served_def sysinv_def)
  moreover obtain ph where "at_phase j w ph" using assms(2) by (auto simp: sysinv_def)
  then have "at_phase j ?w ph" by (cases ph) simp_all
  moreover have "clk sp ?w" using assms(2) by (simp add: sysinv_def clk_def)
  ultimately have "sysinv sp j ?w" using fl' assms(2) unfolding sysinv_def by auto
  with s(1) show ?thesis by blast
qed

lemma flush_nothing:
  assumes "\<forall>a \<in> set as. \<not> check c a"
  shows "flush_cache check flush as c = (c, [])"
proof -
  have "fold (flush_one check flush) as (c, []) = (c, [])"
    using assms by (induction as) (auto simp: flush_one_def)
  then show ?thesis by (simp add: flush_cache_def)
qed

lemma complete_pim_single:
  assumes "pendingPIMqueue m = [s]" "ps_addr s = [a0, a1, a2]" "ps_addr st = [a0, a1, a2]"
    and "cpu_type m = ''TimingSimpleCPU''" "find_obj ''system.cpu'' = Some c"
    and "\<forall>x \<in> set (hc_caches c). \<forall>a \<in> {a0, a1, a2}. \<not> check x a"
  shows "complete_pim check flush find_obj st m =
    Inr (m\<lparr>pendingPIMqueue := []\<rparr>, map (\<lambda>x. (x, [])) (hc_caches c), hc_context c)"
proof -
  have "map (flush_cache check flush [a0, a1, a2]) (hc_caches c) = map (\<lambda>x. (x, [])) (hc_caches c)"
    using assms(6) by (auto intro!: flush_nothing)
  then show ?thesis using assms(1-5)
    by (cases "hc_caches c") (simp_all add: complete_pim_def vec_at_def)
qed

lemma finish_keeps:
  assumes "job_ok sp j" "sysinv sp j w" "env_ok sp w e" "finishEvent (kern w) \<noteq> None"
  shows "\<exists>w'. run sp e (finish e) ((kern w)\<lparr>finishEvent := None\<rparr>) w = Inr w' \<and> sysinv sp j w'"
proof -
  let ?k = "(kern w)\<lparr>finishEvent := None\<rparr>"
  have cf: "cfg j ?k" and mo: "mem_ok j w" and fl: "flight j (waits (kern w)) (requests w) (responses w)"
    using assms(2) by (simp_all add: sysinv_def)
  obtain ph where "at_phase j w ph" using assms(2) by (auto simp: sysinv_def)
  then have at: "at_phase j w Finishing" using assms(4) by (cases ph) auto
  have ms: "map snd (regs ?k) = [dataFinish, dataFinish, dataFinish]" using at by simp
  obtain a0 a1 a2 where rg: "regs ?k = [(a0, dataFinish), (a1, dataFinish), (a2, dataFinish)]"
    and ad: "j_addr j = [a0, a1, a2]" using cfg_regs [OF cf ms] .
  have fin: "finish e ?k = Inr (?k\<lparr>status := Idle\<rparr>, [FunctionalReq (complete_pkt e ?k)])"
    by (rule finish_ok) (use rg at in simp_all)
  obtain st where st: "pimState (complete_pkt e ?k) = Some st" "ps_addr st = [a0, a1, a2]" "isComplete st" "\<not> isRegistration st"
    using rg by (simp add: complete_pkt_def setCommand_def PIMSenderState_complete_def isComplete_def isRegistration_def)
  have pc: "isPIM (pcmd (complete_pkt e ?k))" by (simp add: complete_pkt_def)
  have "status (kern w) \<noteq> Idle" using at by simp
  then obtain s where s: "pendingPIMqueue (wmem w) = [s]" "ps_addr s = [a0, a1, a2]"
    using mo ad by (auto simp: mem_ok_def)
  obtain c where c: "p_find sp ''system.cpu'' = Some c" "\<forall>x \<in> set (hc_caches c). \<forall>i < 3. \<not> p_check sp x (j_addr j ! i)"
    using assms(1) by (auto simp: job_ok_def)
  have nc: "\<forall>x \<in> set (hc_caches c). \<forall>a \<in> {a0, a1, a2}. \<not> p_check sp x a"
  proof (intro ballI)
    fix x a assume "x \<in> set (hc_caches c)" "a \<in> {a0, a1, a2}"
    then show "\<not> p_check sp x a"
      using c(2) [rule_format, of x 0] c(2) [rule_format, of x 1] c(2) [rule_format, of x 2] ad by auto
  qed
  have ct: "cpu_type (wmem w) = ''TimingSimpleCPU''" using assms(1) mo by (simp add: job_ok_def mem_ok_def)
  let ?m = "(wmem w)\<lparr>pendingPIMqueue := []\<rparr>"
  have fa: "functionalAccess (p_check sp) (p_flush sp) (p_find sp) (complete_pkt e ?k) (wmem w) =
      Inr (?m, Some (complete_pkt e ?k), Some (map (\<lambda>x. (x, [])) (hc_caches c), hc_context c))"
    using st pc complete_pim_single [where find_obj = "p_find sp" and check = "p_check sp", OF s st(2) ct c(1) nc] by (simp add: functionalAccess_def)
  have nowb: "concat (map snd (map (\<lambda>x. (x, [] :: Packet list)) (hc_caches c))) = []" by simp
  let ?w = "w\<lparr>kern := ?k\<lparr>status := Idle\<rparr>, w_now := e_now e, wmem := ?m, woken := woken w @ [hc_context c]\<rparr>"
  have r: "run sp e (finish e) ?k w = Inr ?w" by (simp add: run_def fin fa nowb del: concat_map_singleton map_map)
  have "at_phase j ?w Idling" using at by simp
  moreover have "cfg j (kern ?w)" using cf by (simp add: cfg_def binary_def)
  moreover have "flight j (waits (kern ?w)) (requests ?w) (responses ?w)" using fl by (simp add: waits_def)
  moreover have "mem_ok j ?w"
  proof -
    have "byte_map ?m = byte_map (wmem w)" by (rule byte_map_cong) simp_all
    moreover have "mem_wf ?m = mem_wf (wmem w)" by (rule mem_wf_cong) simp_all
    ultimately show ?thesis using mo by (simp add: mem_ok_def written_def)
  qed
  moreover have "clk sp ?w"
  proof -
    obtain t0 where "t0 \<le> w_now w" "clock_inv (p_period sp) t0 (k_clock (kern w))" using assms(2) by (auto simp: sysinv_def clk_def)
    then show ?thesis using assms(3) by (auto simp: clk_def env_ok_def intro: order_trans)
  qed
  ultimately have "sysinv sp j ?w" unfolding sysinv_def by blast
  with r show ?thesis by blast
qed

text \<open>The port may even refuse the write of the result: the handler itself still runs through.\<close>

lemma compute_refused:
  assumes "job_ok sp j" "sysinv sp j w" "env_ok sp w e" "computeEvent (kern w) \<noteq> None" "\<not> e_accept e"
  shows "\<exists>w'. run sp e (trycompute e) ((kern w)\<lparr>computeEvent := None\<rparr>) w = Inr w'"
proof -
  let ?k = "(kern w)\<lparr>computeEvent := None\<rparr>"
  have cf: "cfg j ?k" using assms(2) by (simp add: sysinv_def)
  have co: "clock_ok e ?k"
    using inv_clock_ok [OF assms(1) _ assms(3), of ?k] assms(2) cf by (simp add: sysinv_def cfg_def)
  obtain ph where "at_phase j w ph" using assms(2) by (auto simp: sysinv_def)
  then have at: "at_phase j w Computing" using assms(4) by (cases ph) auto
  have "map snd (regs ?k) = [dataFinish, dataFinish, dataReady]" using at by simp
  then obtain a0 a1 a2 where rg: "regs ?k = [(a0, dataFinish), (a1, dataFinish), (a2, dataReady)]"
    using cfg_regs [OF cf] by metis
  obtain r where r: "job_result j = Inr r" using assms(1) by (auto simp: job_ok_def)
  have "kdata ?k ! 0 = operand j 0" "kdata ?k ! 1 = operand j 1" "unit_kind ?k = j_unit j"
    using cf rg by (simp_all add: cfg_def)
  then have op: "compute_op (unit_kind ?k) (kdata ?k ! 0) (kdata ?k ! 1) = Inr r" using r by (simp add: job_result_def)
  have "isActive ?k" using at by (auto simp: isActive_def)
  then obtain k' where "trycompute e ?k = Inr (k', [TimingReq (write_pkt e ?k r) False])"
    using trycompute_rejected [OF cfg_binary(1) [OF cf] rg _ op assms(5) co] by auto
  then show ?thesis by (simp add: run_def)
qed

text \<open>No action of the system stops the simulator, and every action but the refusal of the write keeps the invariant.\<close>

lemma action_keeps:
  assumes "job_ok sp j" "sysinv sp j w" "good_action a" "do_action sp a w = Some r"
  shows "\<exists>w'. r = Inr w' \<and> sysinv sp j w'"
proof (cases a)
  case (ATick e)
  then show ?thesis using tick_keeps [OF assms(1,2), of e] assms(4)
    by (auto simp: due_def split: if_splits option.splits)
next
  case (ACompute e)
  then show ?thesis using compute_keeps [OF assms(1,2), of e] assms(3,4)
    by (auto simp: due_def good_action_def split: if_splits option.splits)
next
  case (AFinish e)
  then show ?thesis using finish_keeps [OF assms(1,2), of e] assms(4)
    by (auto simp: due_def split: if_splits option.splits)
next
  case (ARetry e)
  then show ?thesis using retry_keeps [OF assms(1,2), of e] assms(4) by (auto split: if_splits)
next
  case (AServe n)
  then show ?thesis using serve_keeps [OF assms(1,2), of n] assms(4) by (auto split: if_splits)
next
  case (ARespond e n)
  then show ?thesis using respond_keeps [OF assms(1,2), of e n] assms(4) by (auto split: if_splits)
qed

lemma action_runs:
  assumes "job_ok sp j" "sysinv sp j w" "do_action sp a w = Some r"
  shows "\<exists>w'. r = Inr w'"
proof (cases "good_action a")
  case True
  then show ?thesis using action_keeps [OF assms(1,2) True assms(3)] by blast
next
  case False
  then obtain e where "a = ACompute e" "\<not> e_accept e" by (cases a) (auto simp: good_action_def)
  then show ?thesis using compute_refused [OF assms(1,2), of e] assms(3)
    by (auto simp: due_def split: if_splits option.splits)
qed

lemma reach_inv:
  assumes "reach sp w0 w" "job_ok sp j" "sysinv sp j w0"
  shows "sysinv sp j w"
  using assms
proof (induction rule: reach.induct)
  case (step w a w')
  then show ?case using action_keeps [of sp j w a "Inr w'"] by blast
qed

section \<open>A command, from the host to the result\<close>

text \<open>The system before a command: the kernel is free and set up for two operands and one result.\<close>

definition ready_world :: "'c params \<Rightarrow> job \<Rightarrow> world \<Rightarrow> bool" where
  "ready_world sp j w \<longleftrightarrow> binary (kern w) \<and> length (regs (kern w)) = 3 \<and> unit_kind (kern w) = j_unit j \<and>
     k_latency (kern w) = j_latency j \<and> status (kern w) \<in> {Idle, Poweroff} \<and> tickEvent (kern w) = None \<and>
     computeEvent (kern w) = None \<and> finishEvent (kern w) = None \<and> wmem w = j_mem j \<and> requests w = [] \<and>
     responses w = [] \<and> \<not> retry_owed w \<and> clk sp w"

lemma registration_access:
  "functionalAccess check flush find_obj (registration_pkt e k as) m =
     Inr (m\<lparr>pendingPIMqueue := pendingPIMqueue m @
       [setCommand Registration ((PIMSenderState_ids (e_junk e) (k_id k) (-1))\<lparr>ps_addr := as\<rparr>)]\<rparr>, None, None)"
  by (simp add: functionalAccess_def registration_pkt_def isRegistration_def setCommand_def)

lemma command_starts:
  assumes "job_ok sp j" "ready_world sp j w" "env_ok sp w e" "pimState pkt = Some st" "ps_addr st = j_addr j"
  shows "\<exists>w'. command sp e pkt w = Inr w' \<and> sysinv sp j w'"
proof -
  let ?k = "kern w"
  have rw: "binary ?k" "length (regs ?k) = 3" "status ?k \<in> {Idle, Poweroff}" "tickEvent ?k = None" "finishEvent ?k = None"
    "unit_kind ?k = j_unit j" "k_latency ?k = j_latency j" "wmem w = j_mem j" "requests w = []" "responses w = []"
    "\<not> retry_owed w" "clk sp w" "computeEvent ?k = None"
    using assms(2) by (simp_all add: ready_world_def)
  have "length (j_addr j) = 3" using assms(1) by (simp add: job_ok_def)
  then obtain a0 a1 a2 where ad: "j_addr j = [a0, a1, a2]" by (auto simp: eval_nat_numeral length_Suc_conv)
  have co: "clock_ok e ?k" by (rule inv_clock_ok [OF assms(1) rw(12) assms(3) refl rw(7)])
  obtain k' rp where k': "recvFunctional e pkt ?k = Inr (k', [FunctionalReq (registration_pkt e ?k [a0, a1, a2]), TimingReq rp (e_accept e)])"
    "rp = kernel_pkt e PIMRead a0 8 (replicate 8 (e_fill e)) (PIMSenderState_ids (e_junk e) (k_id ?k) 0)"
    "kept ?k k'" "computeEvent k' = None" "clock_ok e k'"
    "if e_accept e then status k' = WaitingResp \<and> tickEvent k' \<noteq> None \<and>
       regs k' = [(a0, dataWaitingResp), (a1, dataReady), (a2, dataReady)]
     else status k' = SendRetry \<and> tickEvent k' = None \<and> retry_pkt k' = Some rp \<and>
       regs k' = [(a0, dataReady), (a1, dataReady), (a2, dataReady)]"
    using recvFunctional_start [OF rw(1-5) assms(4) _ co] assms(5) ad rw(13) by auto
  have req: "is_req j 0 rp"
    unfolding is_req_def k'(2) ad
    by (intro conjI exI [of _ e] exI [of _ "PIMSenderState_ids (e_junk e) (k_id ?k) 0"]) (simp_all add: PIMSenderState_ids_def)
  obtain s0 where rg: "regs k' = [(a0, s0), (a1, dataReady), (a2, dataReady)]" "s0 \<noteq> dataFinish"
    using k'(6) by (cases "e_accept e") simp_all
  have cf: "cfg j k'" using k'(3) rw(1,6,7) ad rg
    by (auto simp: cfg_def kept_def same_unit_def binary_def less_2_cases_iff)
  let ?s = "setCommand Registration ((PIMSenderState_ids (e_junk e) (k_id ?k) (-1))\<lparr>ps_addr := [a0, a1, a2]\<rparr>)"
  let ?m = "(j_mem j)\<lparr>pendingPIMqueue := [?s]\<rparr>"
  have pq: "pendingPIMqueue (j_mem j) = []" using assms(1) by (simp add: job_ok_def)
  define w' where "w' = (if e_accept e then w\<lparr>kern := k', w_now := e_now e, wmem := ?m, requests := [rp]\<rparr>
    else w\<lparr>kern := k', w_now := e_now e, wmem := ?m, retry_owed := True\<rparr>)"
  have r: "command sp e pkt w = Inr w'"
    using rw(8,9) pq by (simp add: command_def run_def k'(1) registration_access w'_def)
  have f: "kern w' = k'" "wmem w' = ?m" "responses w' = []" "w_now w' = e_now e"
    "requests w' = (if e_accept e then [rp] else [])" "retry_owed w' = (\<not> e_accept e)"
    using rw(9-11) by (simp_all add: w'_def)
  have nx: "next_read k' 0" if "\<not> e_accept e" using k'(6) that by (simp add: next_read_def)
  have fe: "finishEvent k' = None" using k'(3) rw(5) by (simp add: kept_def)
  have "at_phase j w' (Reading (if e_accept e then dataWaitingResp else dataReady) dataReady)"
  proof (cases "e_accept e")
    case True
    then show ?thesis using k'(4,6) f(1,6) fe by simp
  next
    case False
    then have "\<exists>i rp. next_read k' i \<and> retry_pkt k' = Some rp \<and> is_req j i rp" using nx req k'(6) by auto
    then show ?thesis using False k'(4,6) f(1,6) fe by simp
  qed
  moreover have "flight j (waits k') (requests w') (responses w')"
  proof (cases "e_accept e")
    case True
    then have "waits k' = {0}" using k'(6) by (auto simp: waits_def less_Suc_eq eval_nat_numeral)
    then show ?thesis using True f req is_req_pid [OF req] by (simp add: flight_def)
  next
    case False
    then have "snd (regs k' ! i) \<noteq> dataWaitingResp" if "i < 3" for i
      using k'(6) that by (auto simp: less_Suc_eq eval_nat_numeral)
    then have "waits k' = {}" by (auto simp: waits_def)
    then show ?thesis using False f by (simp add: flight_def)
  qed
  moreover have "mem_ok j w'"
  proof -
    have "byte_map ?m = byte_map (j_mem j)" by (rule byte_map_cong) simp_all
    moreover have "mem_wf ?m = mem_wf (j_mem j)" by (rule mem_wf_cong) simp_all
    moreover have "status k' \<noteq> Idle" "snd (regs k' ! 2) = dataReady" using k'(6) rg by (cases "e_accept e"; simp)+
    ultimately show ?thesis using assms(1) ad by (simp add: mem_ok_def f written_def job_ok_def setCommand_def)
  qed
  moreover have "clk sp w'" by (rule clock_ok_clk [OF k'(5)]) (use f assms(3) in \<open>simp_all add: env_ok_def\<close>)
  ultimately show ?thesis using r cf f(1) unfolding sysinv_def by blast
qed

lemma idle_phase:
  assumes "sysinv sp j w" "status (kern w) = Idle"
  shows "at_phase j w Idling"
proof -
  obtain ph where "at_phase j w ph" using assms(1) by (auto simp: sysinv_def)
  then show ?thesis using assms(2) by (cases ph) auto
qed

lemma command_reach_inv:
  assumes "job_ok sp j" "ready_world sp j w0" "env_ok sp w0 e" "pimState pkt = Some st" "ps_addr st = j_addr j"
    and "command sp e pkt w0 = Inr w1" "reach sp w1 w"
  shows "sysinv sp j w"
  using command_starts [OF assms(1-5)] assms(6) reach_inv [OF assms(7,1)] by auto


lemma result_word:
  assumes "job_ok sp j" "job_result j = Inr r" "byte_map m = result_map j" "am_range m = am_range (j_mem j)"
  shows "word_at m (j_addr j ! 2) = r"
proof -
  have w: "word_in m (j_addr j ! 2)" using assms(1,4) by (simp add: job_ok_def word_in_def)
  have "of_le_bytes (le_bytes 8 r) = word_at m (j_addr j ! 2)"
    by (rule word_at_bytes [OF w]) (simp_all add: assms(2,3) result_map_def)
  then show ?thesis by simp
qed

lemma pim_result:
  assumes "job_ok sp j" "ready_world sp j w0" "env_ok sp w0 e" "pimState pkt = Some st" "ps_addr st = j_addr j"
    and "command sp e pkt w0 = Inr w1" "reach sp w1 w" "status (kern w) = Idle"
  shows "\<exists>r. compute_op (unit_kind (kern w0)) (word_at (wmem w0) (j_addr j ! 0)) (word_at (wmem w0) (j_addr j ! 1)) = Inr r \<and>
    word_at (wmem w) (j_addr j ! 2) = r \<and>
    (\<forall>a. \<not> (j_addr j ! 2 \<le> a \<and> unat a < unat (j_addr j ! 2) + 8) \<longrightarrow> byte_map (wmem w) a = byte_map (wmem w0) a) \<and>
    requests w = [] \<and> responses w = [] \<and> pendingPIMqueue (wmem w) = []"
proof -
  have inv: "sysinv sp j w" by (rule command_reach_inv [OF assms(1-7)])
  have at: "at_phase j w Idling" by (rule idle_phase [OF inv assms(8)])
  have mo: "mem_ok j w" and fl: "flight j (waits (kern w)) (requests w) (responses w)" and cf: "cfg j (kern w)"
    using inv by (simp_all add: sysinv_def)
  have ms: "map snd (regs (kern w)) = [dataFinish, dataFinish, dataFinish]" using at by simp
  obtain a0 a1 a2 where rg: "regs (kern w) = [(a0, dataFinish), (a1, dataFinish), (a2, dataFinish)]"
    "j_addr j = [a0, a1, a2]" using cfg_regs [OF cf ms] .
  have "written w" using rg by (simp add: written_def)
  then have bm: "byte_map (wmem w) = result_map j" using mo by (simp add: mem_ok_def)
  have "snd (regs (kern w) ! i) \<noteq> dataWaitingResp" if "i < 3" for i
    using that rg by (auto simp: less_Suc_eq eval_nat_numeral)
  then have "waits (kern w) = {}" by (auto simp: waits_def)
  then have e: "requests w = []" "responses w = []" using fl by (simp_all add: flight_def)
  obtain r where r: "job_result j = Inr r" using assms(1) by (auto simp: job_ok_def)
  have "word_at (wmem w) (j_addr j ! 2) = r"
    by (rule result_word [OF assms(1) r bm]) (use mo in \<open>simp add: mem_ok_def\<close>)
  moreover have "pendingPIMqueue (wmem w) = []" using mo assms(8) by (simp add: mem_ok_def)
  moreover have "unit_kind (kern w0) = j_unit j" "wmem w0 = j_mem j" using assms(2) by (simp_all add: ready_world_def)
  ultimately show ?thesis using r e bm by (auto simp: job_result_def operand_def result_map_def)
qed


end
