(* ===== verification/PIM_Safety.thy ===== *)
theory PIM_Safety
  imports PIM_Protocol
begin

text \<open>
  What the rest of the system sees of an operation: the host's accesses to the granules of the three
  addresses are held back from the registration to the completion and no others are, and the
  operation is never left waiting for an event nobody is going to cause. The second part runs one
  command to its end, with responses out of order and a refused read, as the concrete instance of
  the theorems about commands.
\<close>

section \<open>The host during an operation\<close>

lemma stalled_single:
  assumes "pendingPIMqueue m = [s]" "ps_addr s \<noteq> []" "(word_of_int (coherence_granularity m) :: u64) \<noteq> 0"
    and "getAddr p = Inr a"
  shows "stalledAddr p m = Inr (\<exists>b \<in> set (ps_addr s). granule m b = granule m a)"
  using assms by (simp add: stalledAddr_def list_ex_iff)

lemma granule_cong: "coherence_granularity m' = coherence_granularity m \<Longrightarrow> granule m' a = granule m a"
  by (simp add: granule_def)

lemma inv_stalled:
  assumes "job_ok sp j" "sysinv sp j w" "(word_of_int (coherence_granularity (j_mem j)) :: u64) \<noteq> 0" "getAddr p = Inr a"
  shows "stalledAddr p (wmem w) =
    Inr (status (kern w) \<noteq> Idle \<and> (\<exists>b \<in> set (j_addr j). granule (j_mem j) b = granule (j_mem j) a))"
proof (cases "status (kern w) = Idle")
  case True
  then show ?thesis using assms(2) by (simp add: sysinv_def mem_ok_def stalledAddr_def)
next
  case False
  have mo: "mem_ok j w" using assms(2) by (simp add: sysinv_def)
  then obtain s where s: "pendingPIMqueue (wmem w) = [s]" "ps_addr s = j_addr j"
    using False by (auto simp: mem_ok_def)
  have g: "coherence_granularity (wmem w) = coherence_granularity (j_mem j)" using mo by (simp add: mem_ok_def)
  have "j_addr j \<noteq> []" using assms(1) by (auto simp: job_ok_def)
  then have "stalledAddr p (wmem w) = Inr (\<exists>b \<in> set (ps_addr s). granule (wmem w) b = granule (wmem w) a)"
    using assms(3,4) s g by (intro stalled_single) simp_all
  then show ?thesis using False s(2) granule_cong [OF g] by simp
qed

text \<open>C3: From the command to the completion, as long as the port has not refused the write of the result
  (\<^const>\<open>reach\<close>), the memory port holds back exactly the reads and writes of the
  host whose address lies in the same granule as an operand or the result; every other access passes,
  and when the kernel is idle again nothing is held back.\<close>
theorem pim_host_held_back:
  assumes "job_ok sp j" "ready_world sp j w0" "env_ok sp w0 e" "pimState pkt = Some st" "ps_addr st = j_addr j"
    and "command sp e pkt w0 = Inr w1" "reach sp w1 w" "(word_of_int (coherence_granularity (j_mem j)) :: u64) \<noteq> 0"
    and "\<not> isPIM (pcmd p)" "isRead (pcmd p) \<or> isWrite (pcmd p)" "getAddr p = Inr a"
  shows "port_blocks p (wmem w) =
    Inr (status (kern w) \<noteq> Idle \<and> (\<exists>b \<in> set (j_addr j). granule (j_mem j) b = granule (j_mem j) a))"
  using inv_stalled [OF assms(1) command_reach_inv [OF assms(1-7)] assms(8,11)] assms(9,10)
  by (auto simp: port_blocks_def)

text \<open>C4: As long as the port has not refused the write of the result (\<^const>\<open>reach\<close>), until the kernel is idle again something is always under way that will call it: an event of the
  kernel is scheduled, or the port owes it the retry of a read. While it waits for responses there is
  for every register that waits exactly one packet, a request on its way to the memory or a response
  on its way back.\<close>
theorem pim_never_stuck:
  assumes "job_ok sp j" "ready_world sp j w0" "env_ok sp w0 e" "pimState pkt = Some st" "ps_addr st = j_addr j"
    and "command sp e pkt w0 = Inr w1" "reach sp w1 w" "status (kern w) \<noteq> Idle"
  shows "(tickEvent (kern w) \<noteq> None \<or> finishEvent (kern w) \<noteq> None \<or> retry_owed w) \<and>
    (\<forall>i < 3. snd (regs (kern w) ! i) = dataWaitingResp \<longleftrightarrow> int i \<in> pid ` set (requests w @ responses w)) \<and>
    distinct (map pid (requests w @ responses w))"
proof -
  have inv: "sysinv sp j w" by (rule command_reach_inv [OF assms(1-7)])
  then obtain ph where "at_phase j w ph" by (auto simp: sysinv_def)
  then have "tickEvent (kern w) \<noteq> None \<or> finishEvent (kern w) \<noteq> None \<or> retry_owed w"
    using assms(8) by (cases ph) auto
  moreover have "flight j (waits (kern w)) (requests w) (responses w)" using inv by (simp add: sysinv_def)
  ultimately show ?thesis by (auto simp: flight_def waits_def)
qed

section \<open>One command, run to its end\<close>

fun run_actions :: "'c params \<Rightarrow> action list \<Rightarrow> world \<Rightarrow> world option" where
  "run_actions sp [] w = Some w"
| "run_actions sp (a # as) w =
     (if good_action a then
        (case do_action sp a w of Some (Inr w') \<Rightarrow> run_actions sp as w' | _ \<Rightarrow> None)
      else None)"

lemma run_actions_reach: "reach sp w0 w \<Longrightarrow> run_actions sp as w = Some w' \<Longrightarrow> reach sp w0 w'"
proof (induction as arbitrary: w)
  case (Cons a as)
  then show ?case by (auto split: if_splits option.splits sum.splits intro: reach.step)
qed simp

definition ex_env :: "Tick \<Rightarrow> bool \<Rightarrow> env" where
  "ex_env t acc = \<lparr>e_now = t, e_period = 500, e_accept = acc, e_junk = 0, e_fill = 0\<rparr>"

definition ex_params :: "unit params" where
  "ex_params = \<lparr>p_period = 500, p_horizon = 1000000, p_check = (\<lambda>_ _. False), p_flush = (\<lambda>c _. (c, None)),
     p_find = (\<lambda>n. if n = ''system.cpu'' then Some \<lparr>hc_caches = [()], hc_context = 0\<rparr> else None)\<rparr>"

definition ex_mem :: AbstractMemory where
  "ex_mem = setBackingStore (le_bytes 8 (3 :: u64) @ le_bytes 8 (4 :: u64) @ le_bytes 8 (0 :: u64))
     (AbstractMemory_new (RangeSize 0x1000 24) ''TimingSimpleCPU'' 64)"

definition ex_world :: "world" where
  "ex_world = \<lparr>kern = PIMKernel_new AdderUnit 0 2 2 1 0x2000, wmem = ex_mem, requests = [], responses = [],
     retry_owed = False, w_now = 0, woken = []\<rparr>"

definition ex_command :: Packet where
  "ex_command = pushSenderState (PIMState (PIMSenderState_vector 0 0 [0x1000, 0x1008, 0x1010] 0))
     (Packet_new (Request_phys 0x2000 1 0 0 0) PIM)"

definition ex_start :: "world" where
  "ex_start = (case command ex_params (ex_env 0 True) ex_command ex_world of Inr w \<Rightarrow> w | Inl _ \<Rightarrow> ex_world)"

definition ex_actions :: "action list" where
  "ex_actions = [ATick (ex_env 500 False), ARetry (ex_env 600 True), AServe 1, AServe 0, ARespond (ex_env 700 True) 0,
     ARespond (ex_env 800 True) 0, ATick (ex_env 1500 True), ACompute (ex_env 2500 True),
     AServe 0, ARespond (ex_env 2600 True) 0, ATick (ex_env 3000 True), AFinish (ex_env 4000 True)]"

lemma ex_start_eq: "command ex_params (ex_env 0 True) ex_command ex_world = Inr ex_start"
proof -
  have "\<not> isl (command ex_params (ex_env 0 True) ex_command ex_world)" by code_simp
  then show ?thesis by (auto simp: ex_start_def split: sum.splits)
qed

definition ex_end :: world where
  "ex_end = the (run_actions ex_params ex_actions ex_start)"

lemma ex_reach: "reach ex_params ex_start ex_end" "status (kern ex_end) = Idle"
proof -
  have s: "run_actions ex_params ex_actions ex_start \<noteq> None" by code_simp
  then have "run_actions ex_params ex_actions ex_start = Some ex_end" by (simp add: ex_end_def)
  then show "reach ex_params ex_start ex_end" by (rule run_actions_reach [OF reach.init])
  show "status (kern ex_end) = Idle" by code_simp
qed

definition ex_job :: job where
  "ex_job = \<lparr>j_addr = [0x1000, 0x1008, 0x1010], j_unit = AdderUnit, j_latency = 2, j_mem = ex_mem\<rparr>"


lemma ex_mem_wf: "mem_wf ex_mem" "am_range ex_mem = RangeSize 0x1000 24" "lockedAddrList ex_mem = []"
  "pendingPIMqueue ex_mem = []" "cpu_type ex_mem = ''TimingSimpleCPU''" "coherence_granularity ex_mem = 64"
  "pmem ex_mem \<noteq> None"
  by (simp_all add: ex_mem_def mem_wf_def setBackingStore_def AbstractMemory_new_def RangeSize_def
      AddrRange_simple_def interleaved_def range_valid_def)

lemma ex_words: "operand ex_job 0 = 3" "operand ex_job 1 = 4"
  by code_simp+

lemma ex_job_ok: "job_ok ex_params ex_job"
proof -
  have "job_result ex_job = Inr 7" unfolding job_result_def ex_words by (simp add: ex_job_def compute_op_def)
  moreover have "word_in ex_mem (j_addr ex_job ! i)" if "i < 3" for i
  proof -
    have "i = 0 \<or> i = 1 \<or> i = 2" using that by auto
    then show ?thesis
      by (auto simp: word_in_def ex_mem_wf ex_job_def RangeSize_def AddrRange_simple_def)
  qed
  moreover have "length (j_addr ex_job) = 3" "j_mem ex_job = ex_mem" "j_latency ex_job = 2" by (simp_all add: ex_job_def)
  ultimately show ?thesis by (simp add: job_ok_def ex_mem_wf ex_params_def)
qed

lemma ex_ready: "ready_world ex_params ex_job ex_world"
proof -
  have "clk ex_params ex_world"
    unfolding clk_def by (rule exI [of _ 0]) (simp add: ex_world_def PIMKernel_new_def Clock_init_def clock_inv_def ex_params_def)
  then show ?thesis
    by (simp add: ready_world_def ex_world_def ex_job_def PIMKernel_new_def binary_def eval_nat_numeral)
qed

lemma ex_env_ok: "env_ok ex_params ex_world (ex_env 0 True)"
  by (simp add: env_ok_def ex_params_def ex_env_def ex_world_def)

lemma ex_command_state:
  "pimState ex_command = Some (PIMSenderState_vector 0 0 [0x1000, 0x1008, 0x1010] 0)"
  "ps_addr (PIMSenderState_vector 0 0 [0x1000, 0x1008, 0x1010] 0) = j_addr ex_job"
  by (simp_all add: ex_command_def pimState_def pushSenderState_def PIMSenderState_vector_def ex_job_def)

lemmas ex_facts = ex_job_ok ex_ready ex_env_ok ex_command_state



theorem pim_host_held_back_witness:
  "port_blocks (ctx_packet ReadReq 0x1004 [1, 2] 0) (wmem ex_start) = Inr True \<and>
   port_blocks (ctx_packet ReadReq 0x1004 [1, 2] 0) (wmem ex_end) = Inr False"
proof -
  have p: "getAddr (ctx_packet ReadReq 0x1004 [1, 2] 0) = Inr 0x1004" "pcmd (ctx_packet ReadReq 0x1004 [1, 2] 0) = ReadReq"
    by (simp_all add: ctx_packet_def getAddr_def isSet_def assertR_def)
  have "\<not> isPIM ReadReq" "isRead ReadReq \<or> isWrite ReadReq" by code_simp+
  then have c: "\<not> isPIM (pcmd (ctx_packet ReadReq 0x1004 [1, 2] 0))"
    "isRead (pcmd (ctx_packet ReadReq 0x1004 [1, 2] 0)) \<or> isWrite (pcmd (ctx_packet ReadReq 0x1004 [1, 2] 0))"
    unfolding p(2) .
  have g: "(word_of_int (coherence_granularity (j_mem ex_job)) :: u64) \<noteq> 0" by (simp add: ex_job_def ex_mem_wf)
  have n: "status (kern ex_start) \<noteq> Idle" by code_simp
  have "\<exists>b \<in> set (j_addr ex_job). granule (j_mem ex_job) b = granule (j_mem ex_job) 0x1004"
    by (rule bexI [of _ "0x1000"]) (simp_all add: granule_def ex_job_def ex_mem_wf)
  then show ?thesis
    using pim_host_held_back [OF ex_facts ex_start_eq reach.init g c p(1)] n
      pim_host_held_back [OF ex_facts ex_start_eq ex_reach(1) g c p(1)] ex_reach(2) by simp
qed

theorem pim_never_stuck_witness: "int 0 \<in> pid ` set (requests ex_start @ responses ex_start)"
proof -
  have n: "status (kern ex_start) \<noteq> Idle" "snd (regs (kern ex_start) ! 0) = dataWaitingResp" by code_simp+
  then show ?thesis using pim_never_stuck [OF ex_facts ex_start_eq reach.init n(1)] by (metis zero_less_numeral)
qed

end
