(* ===== verification/Event_Queue.thy ===== *)
theory Event_Queue
  imports Base_Flags "HOL-Library.Multiset"
begin

text \<open>
  The event queue of \<^verbatim>\<open>src/sim/eventq.cc\<close>, \<^verbatim>\<open>eventq.hh\<close> and \<^verbatim>\<open>eventq_impl.hh\<close>, at the level of its
  pointers. An event is a number, the store gives every event its fields, and a bin is the stack of
  events with one time and priority, linked by \<open>nextInBin\<close>; the tops of the bins are linked by
  \<open>nextBin\<close>, and that pointer is stale in every event that is not the top of its bin. The loops
  over pointers are \<open>partial_function\<close>s: a loop that never ends is \<open>None\<close>.

  The lemmas show that the store represents the list of the scheduled events in the order in which
  they are served: an insertion ends and puts the event before every event that is not earlier
  (events of one bin are served last in, first out), a removal takes out the event and nothing else,
  and serving takes the first. The locale \<open>event_list\<close> states this as the contract of a queue.
\<close>

section \<open>State\<close>

record Event =
  nextBin :: "nat option"
  nextInBin :: "nat option"
  ev_when :: Tick
  ev_priority :: int
  ev_flags :: "16 word"
  ev_queue :: "nat option"

record EventQueue =
  eq_id :: nat
  events :: "nat \<Rightarrow> Event"
  head :: "nat option"
  curTick :: Tick
  async_queue :: "nat list"
  deleted :: "nat list"

abbreviation Squashed :: "16 word" where "Squashed \<equiv> 0x0001"
abbreviation Scheduled :: "16 word" where "Scheduled \<equiv> 0x0002"
abbreviation Managed :: "16 word" where "Managed \<equiv> 0x0004"
abbreviation IsExitEvent :: "16 word" where "IsExitEvent \<equiv> 0x0010"
abbreviation IsMainQueue :: "16 word" where "IsMainQueue \<equiv> 0x0020"
abbreviation Initialized :: "16 word" where "Initialized \<equiv> 0x7a40"
abbreviation InitMask :: "16 word" where "InitMask \<equiv> 0xffc0"

abbreviation PublicWrite :: "16 word" where "PublicWrite \<equiv> 0x001d"

definition Event_new :: "int \<Rightarrow> 16 word \<Rightarrow> Event res" where
  "Event_new p f = assertR (noneSet f (NOT PublicWrite))
     (ok \<lparr>nextBin = None, nextInBin = None, ev_when = 0, ev_priority = p,
          ev_flags = Initialized OR f, ev_queue = None\<rparr>)"

definition EventQueue_new :: "nat \<Rightarrow> (nat \<Rightarrow> Event) \<Rightarrow> EventQueue" where
  "EventQueue_new i evs = \<lparr>eq_id = i, events = evs, head = None, curTick = 0, async_queue = [], deleted = []\<rparr>"

definition initialized :: "Event \<Rightarrow> bool" where
  "initialized v \<longleftrightarrow> ev_flags v AND InitMask = Initialized"

definition scheduled :: "Event \<Rightarrow> bool" where
  "scheduled v \<longleftrightarrow> isSet (ev_flags v) Scheduled"

definition squashed :: "Event \<Rightarrow> bool" where
  "squashed v \<longleftrightarrow> isSet (ev_flags v) Squashed"

definition squash :: "Event \<Rightarrow> Event" where
  "squash v = v\<lparr>ev_flags := set_flags Squashed (ev_flags v)\<rparr>"

definition isExitEvent :: "Event \<Rightarrow> bool" where
  "isExitEvent v \<longleftrightarrow> isSet (ev_flags v) IsExitEvent"

definition isManaged :: "Event \<Rightarrow> bool" where
  "isManaged v \<longleftrightarrow> isSet (ev_flags v) Managed"

definition setWhen :: "Tick \<Rightarrow> nat \<Rightarrow> Event \<Rightarrow> Event" where
  "setWhen t i v = v\<lparr>ev_when := t, ev_queue := Some i\<rparr>"

definition ev_less :: "Event \<Rightarrow> Event \<Rightarrow> bool" where
  "ev_less l r \<longleftrightarrow> ev_when l < ev_when r \<or> (ev_when l = ev_when r \<and> ev_priority l < ev_priority r)"

definition ev_le :: "Event \<Rightarrow> Event \<Rightarrow> bool" where
  "ev_le l r \<longleftrightarrow> ev_when l < ev_when r \<or> (ev_when l = ev_when r \<and> ev_priority l \<le> ev_priority r)"

definition ev_eq :: "Event \<Rightarrow> Event \<Rightarrow> bool" where
  "ev_eq l r \<longleftrightarrow> ev_when l = ev_when r \<and> ev_priority l = ev_priority r"

section \<open>Operations\<close>

text \<open>\<^verbatim>\<open>p->nextBin = q\<close> and \<^verbatim>\<open>p->nextInBin = q\<close>\<close>

definition set_nextBin :: "nat \<Rightarrow> nat option \<Rightarrow> (nat \<Rightarrow> Event) \<Rightarrow> nat \<Rightarrow> Event" where
  "set_nextBin p q h = h(p := (h p)\<lparr>nextBin := q\<rparr>)"

definition set_nextInBin :: "nat \<Rightarrow> nat option \<Rightarrow> (nat \<Rightarrow> Event) \<Rightarrow> nat \<Rightarrow> Event" where
  "set_nextInBin p q h = h(p := (h p)\<lparr>nextInBin := q\<rparr>)"

definition upd_event :: "nat \<Rightarrow> (Event \<Rightarrow> Event) \<Rightarrow> EventQueue \<Rightarrow> EventQueue" where
  "upd_event e f q = q\<lparr>events := (events q)(e := f (events q e))\<rparr>"

definition insertBefore :: "(nat \<Rightarrow> Event) \<Rightarrow> nat \<Rightarrow> nat option \<Rightarrow> nat \<Rightarrow> Event" where
  "insertBefore h e cur =
     (case cur of
        None \<Rightarrow> set_nextInBin e None (set_nextBin e None h)
      | Some c \<Rightarrow>
          if ev_less (h e) (h c) then set_nextInBin e None (set_nextBin e (Some c) h)
          else set_nextInBin e (Some c) (set_nextBin e (nextBin (h c)) h))"

text \<open>\<^verbatim>\<open>while (curr && *curr < *event) { prev = curr; curr = curr->nextBin; }\<close>\<close>

partial_function (option) seek_bin :: "(nat \<Rightarrow> Event) \<Rightarrow> nat \<Rightarrow> nat \<Rightarrow> nat option \<Rightarrow> (nat \<times> nat option) option" where
  "seek_bin h e prev cur =
     (if cur = None then Some (prev, None)
      else if ev_less (h (the cur)) (h e) then seek_bin h e (the cur) (nextBin (h (the cur)))
      else Some (prev, cur))"

definition eq_insert :: "nat \<Rightarrow> EventQueue \<Rightarrow> EventQueue option" where
  "eq_insert e q =
     (let h = events q in
      case head q of
        None \<Rightarrow> Some (q\<lparr>events := insertBefore h e None, head := Some e\<rparr>)
      | Some t \<Rightarrow>
          if ev_le (h e) (h t) then Some (q\<lparr>events := insertBefore h e (Some t), head := Some e\<rparr>)
          else Option.bind (seek_bin h e t (nextBin (h t))) (\<lambda>(prev, cur).
            (let h' = insertBefore h e cur in
             Some (q\<lparr>events := set_nextBin prev (Some e) h'\<rparr>))))"

text \<open>\<^verbatim>\<open>while (event != next) { if (!next) panic; curr = next; next = next->nextInBin; }\<close>\<close>

partial_function (option) find_in_bin :: "(nat \<Rightarrow> Event) \<Rightarrow> nat \<Rightarrow> nat \<Rightarrow> nat option \<Rightarrow> nat res option" where
  "find_in_bin h e cur nxt =
     (if nxt = Some e then Some (ok cur)
      else if nxt = None then Some (fail Panicked)
      else find_in_bin h e (the nxt) (nextInBin (h (the nxt))))"

definition removeItem :: "(nat \<Rightarrow> Event) \<Rightarrow> nat \<Rightarrow> nat \<Rightarrow> ((nat \<Rightarrow> Event) \<times> nat option) res option" where
  "removeItem h e tp =
     (if e = tp then
        Some (case nextInBin (h tp) of
                None \<Rightarrow> ok (h, nextBin (h tp))
              | Some n \<Rightarrow> ok (set_nextBin n (nextBin (h tp)) h, Some n))
      else map_option (\<lambda>r. bindR r (\<lambda>cur.
             ok (set_nextInBin cur (nextInBin (h e)) h, Some tp)))
           (find_in_bin h e tp (nextInBin (h tp))))"

definition eq_remove :: "nat \<Rightarrow> EventQueue \<Rightarrow> EventQueue res option" where
  "eq_remove e q =
     (let h = events q in
      case head q of
        None \<Rightarrow> Some (fail Panicked)
      | Some t \<Rightarrow>
          if ev_queue (h e) \<noteq> Some (eq_id q) then Some (fail AssertFailed)
          else if ev_eq (h t) (h e) then
            map_option (\<lambda>r. bindR r (\<lambda>(h', p). ok (q\<lparr>events := h', head := p\<rparr>))) (removeItem h e t)
          else Option.bind (seek_bin h e t (nextBin (h t))) (\<lambda>(prev, cur).
            case cur of
              None \<Rightarrow> Some (fail Panicked)
            | Some c \<Rightarrow>
                if \<not> ev_eq (h c) (h e) then Some (fail Panicked)
                else map_option (\<lambda>r. bindR r (\<lambda>(h', p).
                       ok (q\<lparr>events := set_nextBin prev p h'\<rparr>))) (removeItem h e c)))"

text \<open>The life cycle of managed events: the default manager deletes an event that left the queue.\<close>

definition eq_release :: "nat \<Rightarrow> EventQueue \<Rightarrow> EventQueue" where
  "eq_release e q =
     (if isManaged (events q e) \<and> \<not> scheduled (events q e) then q\<lparr>deleted := deleted q @ [e]\<rparr> else q)"

definition asyncInsert :: "nat \<Rightarrow> EventQueue \<Rightarrow> EventQueue" where
  "asyncInsert e q = q\<lparr>async_queue := async_queue q @ [e]\<rparr>"

text \<open>\<open>remote\<close>: parallel mode, and the queue is not the current one or the event is global.\<close>

definition eq_schedule :: "bool \<Rightarrow> nat \<Rightarrow> Tick \<Rightarrow> EventQueue \<Rightarrow> EventQueue res option" where
  "eq_schedule remote e t q =
     (if \<not> (t \<ge> curTick q \<and> \<not> scheduled (events q e) \<and> initialized (events q e)) then Some (fail AssertFailed)
      else (let q1 = upd_event e (setWhen t (eq_id q)) q in
        map_option (\<lambda>q2. ok (upd_event e (\<lambda>v. v\<lparr>ev_flags := set_flags Scheduled (ev_flags v)\<rparr>) q2))
          (if remote then Some (asyncInsert e q1) else eq_insert e q1)))"

definition eq_deschedule :: "nat \<Rightarrow> EventQueue \<Rightarrow> EventQueue res option" where
  "eq_deschedule e q =
     (if \<not> (scheduled (events q e) \<and> initialized (events q e)) then Some (fail AssertFailed)
      else map_option (\<lambda>r. bindR r (\<lambda>q1.
        ok (eq_release e (upd_event e (\<lambda>v. v\<lparr>ev_flags :=
          clear_flags Scheduled (clear_flags Squashed (ev_flags v))\<rparr>) q1)))) (eq_remove e q))"

definition eq_reschedule :: "nat \<Rightarrow> Tick \<Rightarrow> bool \<Rightarrow> EventQueue \<Rightarrow> EventQueue res option" where
  "eq_reschedule e t always q =
     (if \<not> (t \<ge> curTick q \<and> (always \<or> scheduled (events q e)) \<and> initialized (events q e))
      then Some (fail AssertFailed)
      else Option.bind (if scheduled (events q e) then eq_remove e q else Some (ok q)) (\<lambda>r.
        case r of
          Inl f \<Rightarrow> Some (Inl f)
        | Inr q1 \<Rightarrow>
            map_option (\<lambda>q2. ok (upd_event e (\<lambda>v. v\<lparr>ev_flags :=
                set_flags Scheduled (clear_flags Squashed (ev_flags v))\<rparr>) q2))
              (eq_insert e (upd_event e (setWhen t (eq_id q)) q1))))"

text \<open>The head leaves the queue; \<open>proc\<close> stands for \<^verbatim>\<open>process()\<close> of the event's class.\<close>

definition eq_pop :: "nat \<Rightarrow> EventQueue \<Rightarrow> EventQueue" where
  "eq_pop t q =
     (let h = (events q)(t := (events q t)\<lparr>ev_flags := clear_flags Scheduled (ev_flags (events q t))\<rparr>) in
      case nextInBin (events q t) of
        Some n \<Rightarrow> q\<lparr>events := set_nextBin n (nextBin (h t)) h, head := Some n\<rparr>
      | None \<Rightarrow> q\<lparr>events := h, head := nextBin (h t)\<rparr>)"

definition serviceOne :: "(nat \<Rightarrow> EventQueue \<Rightarrow> EventQueue res) \<Rightarrow> EventQueue \<Rightarrow> (nat option \<times> EventQueue) res" where
  "serviceOne proc q =
     (case head q of
        None \<Rightarrow> fail NullPointer
      | Some t \<Rightarrow>
          (let q1 = eq_pop t q in
           if \<not> squashed (events q1 t) then
             bindR (proc t (q1\<lparr>curTick := ev_when (events q1 t)\<rparr>)) (\<lambda>q2.
               if isExitEvent (events q2 t) then
                 assertR (\<not> isManaged (events q2 t) \<or> \<not> isSet (ev_flags (events q2 t)) IsMainQueue) (ok (Some t, q2))
               else ok (None, eq_release t q2))
           else ok (None, eq_release t (upd_event t (\<lambda>v. v\<lparr>ev_flags := clear_flags Squashed (ev_flags v)\<rparr>) q1))))"

partial_function (option) serviceEvents ::
  "(nat \<Rightarrow> EventQueue \<Rightarrow> EventQueue res) \<Rightarrow> Tick \<Rightarrow> EventQueue \<Rightarrow> EventQueue res option" where
  "serviceEvents proc t q =
     (if head q = None \<or> ev_when (events q (the (head q))) > t then Some (ok (q\<lparr>curTick := t\<rparr>))
      else if isl (serviceOne proc q) then Some (Inl (projl (serviceOne proc q)))
      else serviceEvents proc t (snd (projr (serviceOne proc q))))"

primrec insert_all :: "nat list \<Rightarrow> EventQueue \<Rightarrow> EventQueue option" where
  "insert_all [] q = Some q"
| "insert_all (e # es) q = Option.bind (eq_insert e q) (insert_all es)"

definition handleAsyncInsertions :: "EventQueue \<Rightarrow> EventQueue option" where
  "handleAsyncInsertions q = map_option (\<lambda>q'. q'\<lparr>async_queue := []\<rparr>) (insert_all (async_queue q) q)"

definition checkpointReschedule :: "nat \<Rightarrow> EventQueue \<Rightarrow> EventQueue option" where
  "checkpointReschedule e q = (if scheduled (events q e) then eq_insert e q else Some q)"

definition replaceHead :: "nat option \<Rightarrow> EventQueue \<Rightarrow> nat option \<times> EventQueue" where
  "replaceHead s q = (head q, q\<lparr>head := s\<rparr>)"

section \<open>Bins on the store\<close>

text \<open>The stack of one bin, from its top, and the list of bins from a top.\<close>

primrec in_bin :: "(nat \<Rightarrow> Event) \<Rightarrow> nat option \<Rightarrow> nat list \<Rightarrow> bool" where
  "in_bin h p [] \<longleftrightarrow> p = None"
| "in_bin h p (x # xs) \<longleftrightarrow> p = Some x \<and> in_bin h (nextInBin (h x)) xs"

primrec bins :: "(nat \<Rightarrow> Event) \<Rightarrow> nat option \<Rightarrow> nat list list \<Rightarrow> bool" where
  "bins h p [] \<longleftrightarrow> p = None"
| "bins h p (b # bs) \<longleftrightarrow> b \<noteq> [] \<and> in_bin h p b \<and> bins h (nextBin (h (hd b))) bs"

definition wf_bins :: "(nat \<Rightarrow> Event) \<Rightarrow> nat list list \<Rightarrow> bool" where
  "wf_bins h bs \<longleftrightarrow> distinct (concat bs) \<and> (\<forall>b \<in> set bs. \<forall>x \<in> set b. ev_eq (h x) (h (hd b))) \<and>
     sorted_wrt (\<lambda>b c. ev_less (h (hd b)) (h (hd c))) bs"

text \<open>The queue represents the list of its events in the order of service.\<close>

definition represents :: "EventQueue \<Rightarrow> nat list \<Rightarrow> bool" where
  "represents q xs \<longleftrightarrow> (\<exists>bs. xs = concat bs \<and> bins (events q) (head q) bs \<and> wf_bins (events q) bs)"

lemma set_links [simp]:
  "nextBin (set_nextBin p q h x) = (if x = p then q else nextBin (h x))"
  "nextInBin (set_nextBin p q h x) = nextInBin (h x)"
  "nextBin (set_nextInBin p q h x) = nextBin (h x)"
  "nextInBin (set_nextInBin p q h x) = (if x = p then q else nextInBin (h x))"
  "ev_when (set_nextBin p q h x) = ev_when (h x)" "ev_when (set_nextInBin p q h x) = ev_when (h x)"
  "ev_priority (set_nextBin p q h x) = ev_priority (h x)" "ev_priority (set_nextInBin p q h x) = ev_priority (h x)"
  "ev_flags (set_nextBin p q h x) = ev_flags (h x)" "ev_flags (set_nextInBin p q h x) = ev_flags (h x)"
  "ev_queue (set_nextBin p q h x) = ev_queue (h x)" "ev_queue (set_nextInBin p q h x) = ev_queue (h x)"
  by (simp_all add: set_nextBin_def set_nextInBin_def)

lemmas ev_order = ev_less_def ev_le_def ev_eq_def

lemma ev_less_trans: "ev_less a b \<Longrightarrow> ev_less b c \<Longrightarrow> ev_less a c"
  by (auto simp: ev_order)

lemma ev_not_less: "\<not> ev_less a b \<longleftrightarrow> ev_le b a"
  by (auto simp: ev_order)

lemma ev_le_cases: "ev_le a b \<longleftrightarrow> ev_less a b \<or> ev_eq a b"
  by (auto simp: ev_order)

lemma ev_eq_cong: "ev_eq a b \<Longrightarrow> ev_less a c = ev_less b c" "ev_eq a b \<Longrightarrow> ev_less c a = ev_less c b"
  "ev_eq a b \<Longrightarrow> ev_eq a c = ev_eq b c" "ev_eq a b \<Longrightarrow> ev_eq b a"
  by (auto simp: ev_order)

lemma ev_irrefl: "\<not> ev_less a a" "ev_eq a a" "ev_eq a b \<Longrightarrow> \<not> ev_less a b" "ev_less a b \<Longrightarrow> \<not> ev_less b a"
  by (auto simp: ev_order)

lemma in_bin_cong:
  "(\<And>x. x \<in> set xs \<Longrightarrow> nextInBin (h' x) = nextInBin (h x)) \<Longrightarrow> in_bin h' p xs = in_bin h p xs"
  by (induction xs arbitrary: p) auto

lemma bins_cong:
  assumes "\<And>x. x \<in> set (concat bs) \<Longrightarrow> nextInBin (h' x) = nextInBin (h x)"
    and "\<And>b. b \<in> set bs \<Longrightarrow> nextBin (h' (hd b)) = nextBin (h (hd b))"
  shows "bins h' p bs = bins h p bs"
  using assms
proof (induction bs arbitrary: p)
  case (Cons b bs)
  then have "in_bin h' p b = in_bin h p b" by (intro in_bin_cong) simp
  then show ?case using Cons by simp
qed simp

lemma in_bin_hd: "in_bin h p b \<Longrightarrow> b \<noteq> [] \<Longrightarrow> p = Some (hd b)"
  by (cases b) auto

lemma bins_hd: "bins h p bs \<Longrightarrow> p = (if bs = [] then None else Some (hd (hd bs)))"
  by (cases bs) (auto dest: in_bin_hd)

lemma bins_nonempty: "bins h p bs \<Longrightarrow> b \<in> set bs \<Longrightarrow> b \<noteq> []"
  by (induction bs arbitrary: p) auto

text \<open>Replacing everything behind a prefix of bins by relinking the top of its last bin.\<close>

lemma bins_relink:
  assumes "bins h p (pre @ post)" "pre \<noteq> []" "bins h' q post'" "\<forall>x \<in> set (concat pre). h' x = h x"
    and "distinct (concat pre)" "hd (last pre) \<notin> set (concat post')"
  shows "bins (set_nextBin (hd (last pre)) q h') p (pre @ post')"
  using assms
proof (induction pre arbitrary: p)
  case (Cons b pre)
  let ?e = "hd (last (b # pre))"
  let ?h = "set_nextBin ?e q h'"
  have "in_bin ?h p b = in_bin h p b" using Cons.prems(4) by (intro in_bin_cong) simp
  then have b: "b \<noteq> []" "in_bin ?h p b" using Cons.prems(1) by simp_all
  have hb: "h' (hd b) = h (hd b)" using Cons.prems(4) hd_in_set [OF b(1)] by simp
  show ?case
  proof (cases "pre = []")
    case True
    have n: "hd c \<noteq> ?e" if "c \<in> set post'" for c
    proof -
      have "hd c \<in> set c" using bins_nonempty [OF Cons.prems(3) that] by simp
      then show ?thesis using Cons.prems(6) that by auto
    qed
    have "bins ?h q post' = bins h' q post'" by (rule bins_cong) (simp_all add: n del: last.simps)
    then have "bins ?h q post'" using Cons.prems(3) by simp
    then show ?thesis using b True by simp
  next
    case False
    have "last pre \<in> set pre" using False by simp
    moreover have "last pre \<noteq> []" using Cons.prems(1) bins_nonempty [of h _ "pre @ post" "last pre"] \<open>last pre \<in> set pre\<close> by auto
    ultimately have "hd (last pre) \<in> set (concat pre)" by force
    moreover have "hd b \<notin> set (concat pre)" using Cons.prems(5) hd_in_set [OF b(1)] by (metis IntI concat.simps(2) distinct_append empty_iff)
    ultimately have "hd b \<noteq> ?e" using False by auto
    moreover have "bins (set_nextBin (hd (last pre)) q h') (nextBin (h (hd b))) (pre @ post')"
      by (rule Cons.IH) (use Cons.prems False in auto)
    ultimately show ?thesis using b False hb by simp
  qed
qed simp

section \<open>Insertion\<close>

lemma seek_bin_split:
  assumes "bins h p bs"
  shows "\<exists>pre post. bs = pre @ post \<and> (\<forall>b \<in> set pre. ev_less (h (hd b)) (h e)) \<and>
    (post = [] \<or> \<not> ev_less (h (hd (hd post))) (h e)) \<and>
    seek_bin h e prev p = Some (if pre = [] then prev else hd (last pre), if post = [] then None else Some (hd (hd post)))"
  using assms
proof (induction bs arbitrary: p prev)
  case Nil
  then show ?case by (simp add: seek_bin.simps)
next
  case (Cons b bs)
  have p: "p = Some (hd b)" using bins_hd [OF Cons.prems] by simp
  show ?case
  proof (cases "ev_less (h (hd b)) (h e)")
    case False
    then show ?thesis using p by (intro exI [of _ "[]"] exI [of _ "b # bs"]) (simp add: seek_bin.simps)
  next
    case True
    obtain pre post where s: "bs = pre @ post" "\<forall>b \<in> set pre. ev_less (h (hd b)) (h e)"
      "post = [] \<or> \<not> ev_less (h (hd (hd post))) (h e)"
      "seek_bin h e (hd b) (nextBin (h (hd b))) = Some (if pre = [] then hd b else hd (last pre), if post = [] then None else Some (hd (hd post)))"
      using Cons.IH [of "nextBin (h (hd b))" "hd b"] Cons.prems by auto
    then show ?thesis using True p
      by (intro exI [of _ "b # pre"] exI [of _ post]) (simp add: seek_bin.simps [of h e prev])
  qed
qed

text \<open>The bins from the insertion point on.\<close>

definition put_bin :: "(nat \<Rightarrow> Event) \<Rightarrow> nat \<Rightarrow> nat list list \<Rightarrow> nat list list" where
  "put_bin h e post = (case post of
     [] \<Rightarrow> [[e]]
   | c # cs \<Rightarrow> if ev_less (h e) (h (hd c)) then [e] # c # cs else (e # c) # cs)"

lemma insertBefore_bins:
  assumes "bins h p post" "e \<notin> set (concat post)"
  shows "bins (insertBefore h e p) (Some e) (put_bin h e post)"
proof (cases post)
  case Nil
  then show ?thesis using assms by (simp add: insertBefore_def put_bin_def)
next
  case (Cons c cs)
  have p: "p = Some (hd c)" "c \<noteq> []" using assms(1) Cons bins_hd [OF assms(1)] by auto
  have ne: "hd d \<noteq> e" if "d \<in> set (c # cs)" for d
  proof -
    have "d \<noteq> []" using bins_nonempty [OF assms(1)] that Cons by simp
    then have "hd d \<in> set (concat post)" using that Cons by force
    then show ?thesis using assms(2) by metis
  qed
  let ?h = "insertBefore h e p"
  have other: "nextBin (?h x) = nextBin (h x)" "nextInBin (?h x) = nextInBin (h x)" if "x \<noteq> e" for x
    using that p by (simp_all add: insertBefore_def)
  have "bins ?h r post = bins h r post" for r
  proof (rule bins_cong)
    fix x assume "x \<in> set (concat post)"
    then have "x \<noteq> e" using assms(2) by metis
    then show "nextInBin (?h x) = nextInBin (h x)" by (simp add: other)
  next
    fix b assume "b \<in> set post"
    then show "nextBin (?h (hd b)) = nextBin (h (hd b))" using other(1) [OF ne] Cons by simp
  qed
  then have b: "bins ?h p post" using assms(1) by simp
  show ?thesis
  proof (cases "ev_less (h e) (h (hd c))")
    case True
    then have "nextBin (?h e) = p" "nextInBin (?h e) = None" using p by (simp_all add: insertBefore_def)
    then show ?thesis using True b Cons by (simp add: put_bin_def)
  next
    case False
    then have "nextBin (?h e) = nextBin (h (hd c))" "nextInBin (?h e) = p" using p by (simp_all add: insertBefore_def)
    then show ?thesis using False b Cons other(1) [OF ne [of c]] by (simp add: put_bin_def)
  qed
qed

lemma insertBefore_key: "ev_when (insertBefore h e p x) = ev_when (h x)" "ev_priority (insertBefore h e p x) = ev_priority (h x)"
  "ev_flags (insertBefore h e p x) = ev_flags (h x)" "ev_queue (insertBefore h e p x) = ev_queue (h x)"
  by (auto simp: insertBefore_def split: option.splits)

text \<open>Everything but the links is as before.\<close>

definition same_events :: "(nat \<Rightarrow> Event) \<Rightarrow> (nat \<Rightarrow> Event) \<Rightarrow> bool" where
  "same_events h h' \<longleftrightarrow> (\<forall>x. ev_when (h' x) = ev_when (h x) \<and> ev_priority (h' x) = ev_priority (h x) \<and>
     ev_flags (h' x) = ev_flags (h x) \<and> ev_queue (h' x) = ev_queue (h x))"

lemma same_events_order:
  assumes "same_events h h'"
  shows "ev_less (h' x) (h' y) = ev_less (h x) (h y)" "ev_eq (h' x) (h' y) = ev_eq (h x) (h y)"
    "wf_bins h' bs = wf_bins h bs"
  using assms by (simp_all add: same_events_def ev_order wf_bins_def)

lemma put_bin_wf:
  assumes "wf_bins h (pre @ post)" "e \<notin> set (concat (pre @ post))"
    and "\<forall>b \<in> set pre. ev_less (h (hd b)) (h e)" "post = [] \<or> \<not> ev_less (h (hd (hd post))) (h e)"
  shows "wf_bins h (pre @ put_bin h e post)"
proof -
  let ?R = "\<lambda>b c. ev_less (h (hd b)) (h (hd c))"
  have d: "distinct (concat (pre @ post))" and q: "\<forall>b \<in> set (pre @ post). \<forall>x \<in> set b. ev_eq (h x) (h (hd b))"
    and s: "sorted_wrt ?R (pre @ post)" using assms(1) unfolding wf_bins_def by blast+
  have "mset (concat (put_bin h e post)) = add_mset e (mset (concat post))"
    by (cases post) (simp_all add: put_bin_def)
  then have "mset (concat (pre @ put_bin h e post)) = add_mset e (mset (concat (pre @ post)))" by simp
  then have d': "distinct (concat (pre @ put_bin h e post))"
    using d assms(2) by (metis distinct.simps(2) mset.simps(2) mset_eq_imp_distinct_iff)
  have "(\<forall>b \<in> set (put_bin h e post). (\<forall>x \<in> set b. ev_eq (h x) (h (hd b)))) \<and>
     sorted_wrt ?R (put_bin h e post) \<and> (\<forall>b \<in> set pre. \<forall>c \<in> set (put_bin h e post). ?R b c)"
  proof (cases post)
    case Nil
    then show ?thesis using assms(3) by (simp add: put_bin_def ev_irrefl)
  next
    case (Cons c cs)
    have sc: "\<forall>d \<in> set cs. ?R c d" "sorted_wrt ?R cs" "\<forall>b \<in> set pre. \<forall>d \<in> set (c # cs). ?R b d"
      using s Cons by (simp_all add: sorted_wrt_append)
    have qc: "\<forall>b \<in> set (c # cs). \<forall>x \<in> set b. ev_eq (h x) (h (hd b))" using q Cons by simp
    show ?thesis
    proof (cases "ev_less (h e) (h (hd c))")
      case True
      then have "\<forall>d \<in> set (c # cs). ev_less (h e) (h (hd d))" using sc(1) ev_less_trans by auto
      then show ?thesis using True sc qc assms(3) Cons by (simp add: put_bin_def ev_irrefl)
    next
      case False
      then have eq: "ev_eq (h e) (h (hd c))" using assms(4) Cons by (auto simp: ev_order)
      have "\<forall>d \<in> set cs. ev_less (h e) (h (hd d))" using sc(1) ev_eq_cong(1) [OF eq] by simp
      moreover have "\<forall>x \<in> set c. ev_eq (h x) (h e)" using qc eq by (auto simp: ev_eq_def)
      ultimately show ?thesis using False sc qc assms(3) Cons by (simp add: put_bin_def ev_irrefl)
    qed
  qed
  then show ?thesis using d' q s by (auto simp: wf_bins_def sorted_wrt_append)
qed

text \<open>Where the new event stands in the order of service.\<close>

definition put :: "(nat \<Rightarrow> Event) \<Rightarrow> nat \<Rightarrow> nat list \<Rightarrow> nat list" where
  "put h e xs = takeWhile (\<lambda>x. ev_less (h x) (h e)) xs @ e # dropWhile (\<lambda>x. ev_less (h x) (h e)) xs"

lemma put_append:
  assumes "\<forall>x \<in> set xs. ev_less (h x) (h e)" "ys = [] \<or> \<not> ev_less (h (hd ys)) (h e)"
  shows "put h e (xs @ ys) = xs @ e # ys"
  using assms by (cases ys) (auto simp: put_def)

lemma put_bin_concat:
  assumes "wf_bins h (pre @ post)" "\<forall>b \<in> set (pre @ post). b \<noteq> []"
    and "\<forall>b \<in> set pre. ev_less (h (hd b)) (h e)" "post = [] \<or> \<not> ev_less (h (hd (hd post))) (h e)"
  shows "concat (pre @ put_bin h e post) = put h e (concat (pre @ post))"
proof -
  have q: "\<forall>b \<in> set pre. \<forall>x \<in> set b. ev_eq (h x) (h (hd b))" using assms(1) by (simp add: wf_bins_def)
  have "ev_less (h x) (h e)" if "b \<in> set pre" "x \<in> set b" for b x
    using q assms(3) that by (metis ev_eq_cong(1))
  then have "\<forall>x \<in> set (concat pre). ev_less (h x) (h e)" by auto
  moreover have "concat post = [] \<or> \<not> ev_less (h (hd (concat post))) (h e)"
    using assms(2,4) by (cases post) auto
  ultimately have "put h e (concat pre @ concat post) = concat pre @ e # concat post" by (rule put_append)
  moreover have "concat (put_bin h e post) = e # concat post" by (cases post) (simp_all add: put_bin_def)
  ultimately show ?thesis by simp
qed

lemma same_events_links: "same_events h (set_nextBin p q h)" "same_events h (set_nextInBin p q h)"
  "same_events h (insertBefore h e p')" "same_events h h"
  "same_events h h' \<Longrightarrow> same_events h' h'' \<Longrightarrow> same_events h h''"
  by (simp_all add: same_events_def insertBefore_key)

lemma bins_suffix: "bins h p (pre @ post) \<Longrightarrow> bins h (if post = [] then None else Some (hd (hd post))) post"
proof (induction pre arbitrary: p)
  case Nil
  then show ?case using bins_hd [of h p post] by simp
next
  case (Cons b pre)
  from Cons.prems show ?case by (intro Cons.IH [of "nextBin (h (hd b))"]) simp
qed

lemma insertBefore_other:
  assumes "bins h p bs" "e \<notin> set (concat bs)"
  shows "bins (insertBefore h e p') p bs"
proof -
  have "bins (insertBefore h e p') p bs = bins h p bs"
  proof (rule bins_cong)
    fix x assume "x \<in> set (concat bs)"
    then have "x \<noteq> e" using assms(2) by metis
    then show "nextInBin (insertBefore h e p' x) = nextInBin (h x)" by (simp add: insertBefore_def split: option.splits)
  next
    fix b assume b: "b \<in> set bs"
    then have "hd b \<in> set b" using bins_nonempty [OF assms(1)] by simp
    then have "hd b \<noteq> e" using assms(2) b by auto
    then show "nextBin (insertBefore h e p' (hd b)) = nextBin (h (hd b))" by (simp add: insertBefore_def split: option.splits)
  qed
  then show ?thesis using assms(1) by simp
qed

lemma representsI:
  "bins h p bs \<Longrightarrow> wf_bins h bs \<Longrightarrow> concat bs = ys \<Longrightarrow> represents (q\<lparr>events := h, head := p\<rparr>) ys"
  by (auto simp: represents_def)

text \<open>An insertion ends, and puts the event before every event that is not earlier.\<close>

lemma eq_insert_put:
  assumes "represents q xs" "e \<notin> set xs"
  shows "\<exists>h p. eq_insert e q = Some (q\<lparr>events := h, head := p\<rparr>) \<and> same_events (events q) h \<and>
    represents (q\<lparr>events := h, head := p\<rparr>) (put (events q) e xs)"
proof -
  let ?h = "events q"
  obtain bs where bs: "xs = concat bs" "bins ?h (head q) bs" "wf_bins ?h bs" using assms(1) by (auto simp: represents_def)
  have ne: "\<forall>b \<in> set bs. b \<noteq> []" using bins_nonempty [OF bs(2)] by blast
  show ?thesis
  proof (cases "bs = [] \<or> ev_le (?h e) (?h (hd (hd bs)))")
    case True
    let ?h' = "insertBefore ?h e (head q)"
    have hd: "head q = (if bs = [] then None else Some (hd (hd bs)))" by (rule bins_hd [OF bs(2)])
    then have ins: "eq_insert e q = Some (q\<lparr>events := ?h', head := Some e\<rparr>)" using True by (auto simp: eq_insert_def)
    have nl: "bs = [] \<or> \<not> ev_less (?h (hd (hd bs))) (?h e)" using True by (simp add: ev_not_less)
    have "bins ?h' (Some e) (put_bin ?h e bs)" using insertBefore_bins [OF bs(2)] assms(2) bs(1) by simp
    moreover have "wf_bins ?h' (put_bin ?h e bs)"
      using put_bin_wf [of ?h "[]" bs e] bs assms(2) nl same_events_order(3) [OF same_events_links(3)] by simp
    moreover have "concat (put_bin ?h e bs) = put ?h e xs" using put_bin_concat [of ?h "[]" bs e] bs ne nl by simp
    ultimately have "represents (q\<lparr>events := ?h', head := Some e\<rparr>) (put ?h e xs)" by (rule representsI)
    then show ?thesis using ins same_events_links(3) by (intro exI conjI)
  next
    case False
    then obtain b cs where c: "bs = b # cs" "ev_less (?h (hd b)) (?h e)" by (cases bs) (auto simp: ev_not_less [symmetric])
    have hd: "head q = Some (hd b)" using bins_hd [OF bs(2)] c by simp
    have "bins ?h (nextBin (?h (hd b))) cs" using bs(2) c by simp
    from seek_bin_split [OF this] obtain pre post where s: "cs = pre @ post" "\<forall>b \<in> set pre. ev_less (?h (hd b)) (?h e)"
      "post = [] \<or> \<not> ev_less (?h (hd (hd post))) (?h e)"
      "seek_bin ?h e (hd b) (nextBin (?h (hd b))) = Some (if pre = [] then hd b else hd (last pre), if post = [] then None else Some (hd (hd post)))"
      by blast
    let ?p = "if post = [] then None else Some (hd (hd post))"
    let ?h1 = "insertBefore ?h e ?p" and ?pv = "hd (last (b # pre))"
    let ?h2 = "set_nextBin ?pv (Some e) ?h1"
    have sp: "bs = (b # pre) @ post" "\<forall>x \<in> set (b # pre). ev_less (?h (hd x)) (?h e)" using s c by simp_all
    have ins: "eq_insert e q = Some (q\<lparr>events := ?h2, head := head q\<rparr>)"
      using hd c s(4) by (auto simp: eq_insert_def ev_not_less [symmetric] Let_def)
    have same: "same_events ?h ?h2" using same_events_links(1,3,5) by blast
    have ee: "e \<notin> set (concat bs)" using assms(2) bs(1) by simp
    have p1: "bins ?h1 (Some e) (put_bin ?h e post)"
      by (rule insertBefore_bins [OF bins_suffix]) (use bs(2) ee sp(1) in auto)
    have m: "set (concat (put_bin ?h e post)) = insert e (set (concat post))"
      by (cases post) (auto simp: put_bin_def)
    have "last (b # pre) \<in> set (b # pre)" by simp
    moreover have "last (b # pre) \<noteq> []" using ne sp(1) calculation by simp
    ultimately have lst: "?pv \<in> set (concat (b # pre))" unfolding set_concat by (metis UN_I hd_in_set)
    have dst: "distinct (concat (b # pre) @ concat post)" using bs(3) sp(1) by (simp add: wf_bins_def)
    have "?pv \<notin> set (concat post)" using dst lst unfolding distinct_append by (meson disjoint_iff)
    moreover have "?pv \<noteq> e" using ee lst unfolding sp(1) concat_append set_append by (metis UnI1)
    ultimately have pv: "?pv \<notin> set (concat (put_bin ?h e post))" unfolding m by simp
    have un: "\<forall>x \<in> set (concat (b # pre)). ?h1 x = ?h1 x" and dd: "distinct (concat (b # pre))"
      using dst unfolding distinct_append by blast+
    have "bins ?h2 (head q) ((b # pre) @ put_bin ?h e post)"
      by (rule bins_relink [OF insertBefore_other [OF bs(2) [unfolded sp(1)] ee [unfolded sp(1)]] _ p1 un dd pv]) simp
    moreover have "wf_bins ?h2 ((b # pre) @ put_bin ?h e post)"
      using put_bin_wf [OF bs(3) [unfolded sp(1)] ee [unfolded sp(1)] sp(2) s(3)] same_events_order(3) [OF same] by simp
    moreover have "concat ((b # pre) @ put_bin ?h e post) = put ?h e xs"
      using put_bin_concat [OF bs(3) [unfolded sp(1)] ne [unfolded sp(1)] sp(2) s(3)] bs(1) sp(1) by simp
    ultimately have "represents (q\<lparr>events := ?h2, head := head q\<rparr>) (put ?h e xs)" by (rule representsI)
    then show ?thesis using ins same by (intro exI conjI)
  qed
qed

section \<open>Removal\<close>

lemma find_in_bin_split:
  assumes "in_bin h p (us @ e # vs)" "e \<notin> set us"
  shows "find_in_bin h e prev p = Some (ok (if us = [] then prev else last us))"
  using assms
proof (induction us arbitrary: p prev)
  case Nil
  then show ?case by (simp add: find_in_bin.simps)
next
  case (Cons u us)
  then show ?case by (simp add: find_in_bin.simps [of h e prev])
qed

lemma in_bin_unlink:
  assumes "in_bin h p (us @ e # vs)" "us \<noteq> []" "distinct (us @ e # vs)"
  shows "in_bin (set_nextInBin (last us) (nextInBin (h e)) h) p (us @ vs)"
  using assms
proof (induction us arbitrary: p)
  case (Cons u us)
  show ?case
  proof (cases "us = []")
    case True
    have "in_bin (set_nextInBin u (nextInBin (h e)) h) (nextInBin (h e)) vs = in_bin h (nextInBin (h e)) vs"
      using Cons.prems(3) True by (intro in_bin_cong) auto
    then show ?thesis using Cons.prems True by simp
  next
    case False
    then have "u \<noteq> last us" using Cons.prems(3) by auto
    then show ?thesis using Cons.IH [of "nextInBin (h u)"] Cons.prems False by simp
  qed
qed simp

definition drop_bin :: "nat \<Rightarrow> nat list \<Rightarrow> nat list list" where
  "drop_bin e c = (if c = [e] then [] else [remove1 e c])"

lemma bins_untouched:
  assumes "bins h p bs" "\<And>x. x \<in> set (concat bs) \<Longrightarrow> h' x = h x"
  shows "bins h' p bs"
proof -
  have "bins h' p bs = bins h p bs"
  proof (rule bins_cong)
    fix b assume b: "b \<in> set bs"
    then have "hd b \<in> set b" using bins_nonempty [OF assms(1)] by simp
    then have "hd b \<in> set (concat bs)" using b by auto
    then show "nextBin (h' (hd b)) = nextBin (h (hd b))" by (simp only: assms(2))
  qed (use assms(2) in simp)
  then show ?thesis using assms(1) by simp
qed

lemma removeItem_bins:
  assumes "bins h p (c # cs)" "distinct (concat (c # cs))" "e \<in> set c"
  shows "\<exists>h' p'. removeItem h e (hd c) = Some (ok (h', p')) \<and> bins h' p' (drop_bin e c @ cs) \<and>
    same_events h h' \<and> (\<forall>x. x \<notin> set c \<longrightarrow> h' x = h x)"
proof -
  obtain us vs where c: "c = us @ e # vs" "e \<notin> set us" using assms(3) by (meson split_list_first)
  have b: "in_bin h p c" "bins h (nextBin (h (hd c))) cs" using assms(1) by simp_all
  have dj: "set c \<inter> set (concat cs) = {}" "distinct c" using assms(2) by auto
  have other: "bins h' r cs" if "bins h r cs" "\<forall>x. x \<notin> set c \<longrightarrow> h' x = h x" for h' r
    by (rule bins_untouched [OF that(1)]) (use that(2) dj(1) in blast)
  show ?thesis
  proof (cases us)
    case Nil
    show ?thesis
    proof (cases vs)
      case Nil
      then show ?thesis using b c \<open>us = []\<close> by (simp add: removeItem_def drop_bin_def same_events_links)
    next
      case (Cons n zs)
      let ?h = "set_nextBin n (nextBin (h e)) h"
      have u: "\<forall>x. x \<notin> set c \<longrightarrow> ?h x = h x" using c Cons by (simp add: set_nextBin_def)
      have "in_bin ?h (Some n) vs = in_bin h (Some n) vs" by (rule in_bin_cong) simp
      then have "in_bin ?h (Some n) vs" using b(1) c Nil Cons by simp
      moreover have "bins ?h (nextBin (h e)) cs" using other [OF b(2) u] c Nil by simp
      ultimately have "bins ?h (Some n) (drop_bin e c @ cs)" using c Nil Cons by (simp add: drop_bin_def)
      moreover have "removeItem h e (hd c) = Some (ok (?h, Some n))" using b(1) c Nil Cons by (simp add: removeItem_def)
      ultimately show ?thesis using u same_events_links(1) by (intro exI conjI)
    qed
  next
    case (Cons t us')
    let ?h = "set_nextInBin (last us) (nextInBin (h e)) h"
    have "last us \<in> set c" using c Cons by (metis UnCI last_in_set list.distinct(1) set_append)
    then have u: "\<forall>x. x \<notin> set c \<longrightarrow> ?h x = h x" by (auto simp: set_nextInBin_def)
    have p: "p = Some t" "hd c = t" "e \<noteq> t" using b(1) c Cons by auto
    have "find_in_bin h e t (nextInBin (h t)) = Some (ok (if us' = [] then t else last us'))"
      by (rule find_in_bin_split [of _ _ us' _ vs]) (use b(1) c Cons in auto)
    then have r: "removeItem h e (hd c) = Some (ok (?h, Some t))" using p Cons by (auto simp: removeItem_def)
    have "in_bin ?h p (us @ vs)" by (rule in_bin_unlink) (use b(1) c Cons dj(2) in auto)
    moreover have "bins ?h (nextBin (h t)) cs" using other [OF b(2) u] p(2) by simp
    moreover have "drop_bin e c = [us @ vs]" using c Cons by (auto simp: drop_bin_def remove1_append)
    ultimately have "bins ?h (Some t) (drop_bin e c @ cs)" using p Cons by simp
    then show ?thesis using r u same_events_links(2) by (intro exI conjI)
  qed
qed

lemma drop_bin_wf:
  assumes "wf_bins h (pre @ c # cs)" "e \<in> set c"
  shows "wf_bins h (pre @ drop_bin e c @ cs)"
proof (cases "c = [e]")
  case True
  then show ?thesis using assms(1) by (auto simp: drop_bin_def wf_bins_def sorted_wrt_append)
next
  case False
  let ?c = "remove1 e c"
  have d: "distinct (concat (pre @ c # cs))" and q: "\<forall>b \<in> set (pre @ c # cs). \<forall>x \<in> set b. ev_eq (h x) (h (hd b))"
    and s: "sorted_wrt (\<lambda>b c. ev_less (h (hd b)) (h (hd c))) (pre @ c # cs)" using assms(1) unfolding wf_bins_def by blast+
  have "?c \<noteq> []" using False assms(2) by (cases c) (auto split: if_splits)
  then have "hd ?c \<in> set ?c" by (rule hd_in_set)
  then have "hd ?c \<in> set c" by (metis notin_set_remove1)
  then have k: "ev_eq (h (hd ?c)) (h (hd c))" using q by simp
  have "distinct (concat (pre @ ?c # cs))" using d by (auto dest: notin_set_remove1)
  moreover have "ev_eq (h x) (h (hd ?c))" if "x \<in> set ?c" for x
  proof -
    have "ev_eq (h x) (h (hd c))" using q subsetD [OF set_remove1_subset that] by simp
    then show ?thesis using k by (simp add: ev_eq_def)
  qed
  moreover have "sorted_wrt (\<lambda>b c. ev_less (h (hd b)) (h (hd c))) (pre @ ?c # cs)"
    using s ev_eq_cong(1,2) [OF k] by (simp add: sorted_wrt_append)
  ultimately show ?thesis using False q by (simp add: drop_bin_def wf_bins_def)
qed

text \<open>Removing a scheduled event ends, and takes it out of the order of service.\<close>

lemma eq_remove_remove1:
  assumes "represents q xs" "e \<in> set xs" "ev_queue (events q e) = Some (eq_id q)"
  shows "\<exists>h p. eq_remove e q = Some (ok (q\<lparr>events := h, head := p\<rparr>)) \<and> same_events (events q) h \<and>
    represents (q\<lparr>events := h, head := p\<rparr>) (remove1 e xs)"
proof -
  let ?h = "events q"
  obtain bs where bs: "xs = concat bs" "bins ?h (head q) bs" "wf_bins ?h bs" using assms(1) by (auto simp: represents_def)
  have ne: "\<forall>b \<in> set bs. b \<noteq> []" using bins_nonempty [OF bs(2)] by blast
  have dst: "distinct (concat bs)" and q: "\<forall>b \<in> set bs. \<forall>x \<in> set b. ev_eq (?h x) (?h (hd b))"
    and srt: "sorted_wrt (\<lambda>b c. ev_less (?h (hd b)) (?h (hd c))) bs" using bs(3) unfolding wf_bins_def by blast+
  obtain c where c: "c \<in> set bs" "e \<in> set c" using assms(2) bs(1) by auto
  then obtain pre cs where sp: "bs = pre @ c # cs" by (meson split_list)
  have ec: "ev_eq (?h e) (?h (hd c))" using q c by blast
  have pre: "\<forall>b \<in> set pre. ev_less (?h (hd b)) (?h e)"
    using srt ev_eq_cong(2) [OF ec] sp by (simp add: sorted_wrt_append)
  have cc: "concat (pre @ drop_bin e c @ cs) = remove1 e xs"
  proof -
    have "e \<notin> set (concat pre)" using dst c(2) sp by auto
    then show ?thesis using bs(1) sp c(2) by (auto simp: drop_bin_def remove1_append)
  qed
  have wf: "wf_bins ?h (pre @ drop_bin e c @ cs)" using drop_bin_wf [OF _ c(2)] bs(3) sp by simp
  show ?thesis
  proof (cases pre)
    case Nil
    have hd: "head q = Some (hd c)" using bins_hd [OF bs(2)] sp Nil by simp
    obtain h' p' where r: "removeItem ?h e (hd c) = Some (ok (h', p'))" "bins h' p' (drop_bin e c @ cs)" "same_events ?h h'"
      using removeItem_bins [of ?h "head q" c cs e] bs(2) dst c(2) sp Nil by auto
    have "eq_remove e q = Some (ok (q\<lparr>events := h', head := p'\<rparr>))"
      using hd assms(3) ev_eq_cong(4) [OF ec] r(1) by (simp add: eq_remove_def)
    moreover have "represents (q\<lparr>events := h', head := p'\<rparr>) (remove1 e xs)"
      by (rule representsI [OF r(2)]) (use wf cc Nil same_events_order(3) [OF r(3)] in simp_all)
    ultimately show ?thesis using r(3) by (intro exI conjI)
  next
    case (Cons b pre')
    let ?pv = "hd (last (b # pre'))"
    have hd: "head q = Some (hd b)" using bins_hd [OF bs(2)] sp Cons by simp
    have lb: "ev_less (?h (hd b)) (?h e)" using pre Cons by simp
    have "bins ?h (nextBin (?h (hd b))) (pre' @ c # cs)" using bs(2) sp Cons by simp
    from seek_bin_split [OF this, of e "hd b"] obtain p1 p2 where s: "pre' @ c # cs = p1 @ p2"
      "\<forall>b \<in> set p1. ev_less (?h (hd b)) (?h e)" "p2 = [] \<or> \<not> ev_less (?h (hd (hd p2))) (?h e)"
      "seek_bin ?h e (hd b) (nextBin (?h (hd b))) = Some (if p1 = [] then hd b else hd (last p1), if p2 = [] then None else Some (hd (hd p2)))"
      by blast
    have nl: "\<not> ev_less (?h (hd c)) (?h e)" using ec by (auto simp: ev_order)
    have "p1 = pre' \<and> p2 = c # cs"
    proof -
      have "takeWhile (\<lambda>x. ev_less (?h (hd x)) (?h e)) (p1 @ p2) = p1" using s(2,3) by (cases p2) auto
      moreover have "takeWhile (\<lambda>x. ev_less (?h (hd x)) (?h e)) (pre' @ c # cs) = pre'" using pre Cons nl by simp
      ultimately have "p1 = pre'" using s(1) by simp
      then show ?thesis using s(1) by simp
    qed
    then have sk: "seek_bin ?h e (hd b) (nextBin (?h (hd b))) = Some (?pv, Some (hd c))" using s(4) by auto
    have suf: "bins ?h (Some (hd c)) (c # cs)" using bins_suffix [of ?h "head q" pre "c # cs"] bs(2) sp by simp
    obtain h' p' where r: "removeItem ?h e (hd c) = Some (ok (h', p'))" "bins h' p' (drop_bin e c @ cs)" "same_events ?h h'"
      "\<forall>x. x \<notin> set c \<longrightarrow> h' x = ?h x"
      using removeItem_bins [OF suf _ c(2)] dst sp by auto
    let ?h2 = "set_nextBin ?pv p' h'"
    have "\<not> ev_eq (?h (hd b)) (?h e)" using lb by (auto simp: ev_order)
    then have rem: "eq_remove e q = Some (ok (q\<lparr>events := ?h2, head := head q\<rparr>))"
      using hd assms(3) ev_eq_cong(4) [OF ec] r(1) sk by (simp add: eq_remove_def)
    have lst: "?pv \<in> set (concat (b # pre'))"
    proof -
      have "last (b # pre') \<in> set (b # pre')" by simp
      moreover have "last (b # pre') \<noteq> []" using ne sp Cons calculation by simp
      ultimately show ?thesis unfolding set_concat by (metis UN_I hd_in_set)
    qed
    have dj: "distinct (concat (b # pre') @ concat (c # cs))" using dst sp Cons by simp
    have sub: "set (concat (drop_bin e c @ cs)) \<subseteq> set (concat (c # cs))"
      using set_remove1_subset [of e c] by (auto simp: drop_bin_def)
    have pv: "?pv \<notin> set (concat (drop_bin e c @ cs))"
      using lst dj sub unfolding distinct_append by (meson disjoint_iff subsetD)
    have "\<forall>x \<in> set (concat (b # pre')). x \<notin> set c" using dj by auto
    then have un: "\<forall>x \<in> set (concat (b # pre')). h' x = ?h x" using r(4) by blast
    have sp': "bs = (b # pre') @ c # cs" using sp Cons by simp
    have dd: "distinct (concat (b # pre'))" using dj unfolding distinct_append by blast
    have "bins ?h2 (head q) ((b # pre') @ drop_bin e c @ cs)"
      by (rule bins_relink [OF bs(2) [unfolded sp'] _ r(2) un dd pv]) simp
    moreover have "wf_bins ?h2 ((b # pre') @ drop_bin e c @ cs)"
      using wf Cons same_events_order(3) [OF same_events_links(5) [OF r(3) same_events_links(1)]] by simp
    ultimately have "represents (q\<lparr>events := ?h2, head := head q\<rparr>) (remove1 e xs)"
      by (rule representsI) (use cc Cons in simp)
    then show ?thesis using rem same_events_links(5) [OF r(3) same_events_links(1)] by (intro exI conjI)
  qed
qed

section \<open>Service\<close>

lemma represents_head: "represents q xs \<Longrightarrow> head q = (if xs = [] then None else Some (hd xs))"
proof -
  assume "represents q xs"
  then obtain bs where bs: "xs = concat bs" "bins (events q) (head q) bs" by (auto simp: represents_def)
  then show ?thesis using bins_hd [OF bs(2)] bins_nonempty [OF bs(2)] by (cases bs) auto
qed

lemma eq_pop_rest:
  assumes "represents q (t # xs)"
  shows "represents (eq_pop t q) xs"
proof -
  let ?h = "events q"
  obtain bs where bs: "t # xs = concat bs" "bins ?h (head q) bs" "wf_bins ?h bs" using assms by (auto simp: represents_def)
  then obtain b cs where c: "bs = b # cs" "b \<noteq> []" by (cases bs) auto
  then obtain zs where z: "b = t # zs" using bs(1) by (cases b) auto
  have xs: "xs = zs @ concat cs" using bs(1) c z by simp
  have d: "distinct (t # zs @ concat cs)" using bs(3) c z by (simp add: wf_bins_def)
  let ?k = "?h(t := (?h t)\<lparr>ev_flags := clear_flags Scheduled (ev_flags (?h t))\<rparr>)"
  have ib: "in_bin ?h (nextInBin (?h t)) zs" "bins ?h (nextBin (?h t)) cs" using bs(2) c z by simp_all
  have kk: "ev_less (?k x) (?k y) = ev_less (?h x) (?h y)" "ev_eq (?k x) (?k y) = ev_eq (?h x) (?h y)" for x y
    by (simp_all add: ev_order)
  have wf: "wf_bins ?k bs" using bs(3) unfolding wf_bins_def kk .
  show ?thesis
  proof (cases zs)
    case Nil
    have bb: "bins ?k (nextBin (?h t)) cs" by (rule bins_untouched [OF ib(2)]) (use d in auto)
    have ww: "wf_bins ?k cs" using wf c by (simp add: wf_bins_def)
    have pp: "eq_pop t q = q\<lparr>events := ?k, head := nextBin (?h t)\<rparr>" using ib(1) Nil by (simp add: eq_pop_def)
    show ?thesis unfolding pp by (rule representsI [OF bb ww]) (simp add: xs Nil)
  next
    case (Cons n ys)
    let ?g = "set_nextBin n (nextBin (?k t)) ?k"
    have "in_bin ?g (Some n) zs = in_bin ?h (Some n) zs" by (rule in_bin_cong) (use d in auto)
    then have "in_bin ?g (Some n) zs" using ib(1) Cons by simp
    moreover have "bins ?g (nextBin (?h t)) cs"
      by (rule bins_untouched [OF ib(2)]) (use d Cons in \<open>auto simp: set_nextBin_def\<close>)
    ultimately have bb: "bins ?g (Some n) (zs # cs)" using Cons by simp
    have ww: "wf_bins ?g (zs # cs)"
    proof -
      have "wf_bins ?k (drop_bin t b @ cs)" using drop_bin_wf [of ?k "[]" b cs t] wf c z by simp
      then have "wf_bins ?k (zs # cs)" using z Cons by (simp add: drop_bin_def)
      then show ?thesis by (simp only: same_events_order(3) [OF same_events_links(1)])
    qed
    have pp: "eq_pop t q = q\<lparr>events := ?g, head := Some n\<rparr>" using ib(1) Cons by (simp add: eq_pop_def Let_def)
    show ?thesis unfolding pp by (rule representsI [OF bb ww]) (simp add: xs)
  qed
qed

lemma eq_pop_events:
  "ev_when (events (eq_pop t q) x) = ev_when (events q x)" "ev_priority (events (eq_pop t q) x) = ev_priority (events q x)"
  "ev_queue (events (eq_pop t q) x) = ev_queue (events q x)"
  "ev_flags (events (eq_pop t q) x) = (if x = t then clear_flags Scheduled (ev_flags (events q t)) else ev_flags (events q x))"
  "curTick (eq_pop t q) = curTick q" "eq_id (eq_pop t q) = eq_id q" "async_queue (eq_pop t q) = async_queue q"
  by (auto simp: eq_pop_def Let_def split: option.splits)

section \<open>The invariant of a queue\<close>

definition eq_inv :: "EventQueue \<Rightarrow> nat list \<Rightarrow> bool" where
  "eq_inv q xs \<longleftrightarrow> represents q xs \<and>
     (\<forall>x. scheduled (events q x) \<longleftrightarrow> x \<in> set xs \<or> x \<in> set (async_queue q)) \<and>
     (\<forall>x \<in> set xs. ev_queue (events q x) = Some (eq_id q) \<and> curTick q \<le> ev_when (events q x)) \<and>
     (\<forall>x. initialized (events q x)) \<and>
     (\<forall>x. isExitEvent (events q x) \<longrightarrow> \<not> isManaged (events q x) \<or> \<not> isSet (ev_flags (events q x)) IsMainQueue) \<and>
     set xs \<inter> set (async_queue q) = {}"

lemma represents_distinct: "represents q xs \<Longrightarrow> distinct xs"
  by (auto simp: represents_def wf_bins_def)

lemma represents_sorted:
  assumes "represents q xs"
  shows "sorted_wrt (\<lambda>x y. ev_le (events q x) (events q y)) xs"
proof -
  obtain bs where bs: "xs = concat bs" "wf_bins (events q) bs" using assms by (auto simp: represents_def)
  have "\<forall>b \<in> set bs. \<forall>x \<in> set b. ev_eq (events q x) (events q (hd b)) \<Longrightarrow>
    sorted_wrt (\<lambda>b c. ev_less (events q (hd b)) (events q (hd c))) bs \<Longrightarrow>
    sorted_wrt (\<lambda>x y. ev_le (events q x) (events q y)) (concat bs)"
  proof (induction bs)
    case (Cons b bs)
    have "sorted_wrt (\<lambda>x y. ev_le (events q x) (events q y)) b"
      unfolding sorted_wrt_iff_nth_less using Cons.prems(1) nth_mem [of _ b] by (fastforce simp: ev_order)
    moreover have "ev_le (events q x) (events q y)" if "x \<in> set b" "c \<in> set bs" "y \<in> set c" for x y c
      using Cons.prems that by (fastforce simp: ev_order)
    ultimately show ?case using Cons by (auto simp: sorted_wrt_append)
  qed simp
  then show ?thesis using bs(2) unfolding wf_bins_def bs(1) by blast
qed

section \<open>The operations keep the invariant\<close>

lemma flag_words [simp]:
  "scheduled (v\<lparr>ev_flags := set_flags Scheduled f\<rparr>)"
  "\<not> scheduled (v\<lparr>ev_flags := clear_flags Scheduled f\<rparr>)"
  "squashed (v\<lparr>ev_flags := set_flags Scheduled f\<rparr>) = isSet f Squashed"
  by (simp_all add: scheduled_def squashed_def flag_simps)

lemma flag_frame:
  "set_flags Scheduled f AND InitMask = f AND InitMask" "clear_flags Scheduled f AND InitMask = f AND InitMask"
  "clear_flags Squashed f AND InitMask = f AND InitMask"
  "isSet (set_flags Scheduled f) IsExitEvent = isSet f IsExitEvent" "isSet (clear_flags Scheduled f) IsExitEvent = isSet f IsExitEvent"
  "isSet (clear_flags Squashed f) IsExitEvent = isSet f IsExitEvent"
  "isSet (set_flags Scheduled f) Managed = isSet f Managed" "isSet (clear_flags Scheduled f) Managed = isSet f Managed"
  "isSet (clear_flags Squashed f) Managed = isSet f Managed"
  "isSet (set_flags Scheduled f) IsMainQueue = isSet f IsMainQueue" "isSet (clear_flags Scheduled f) IsMainQueue = isSet f IsMainQueue"
  "isSet (clear_flags Squashed f) IsMainQueue = isSet f IsMainQueue"
  "isSet (clear_flags Squashed f) Scheduled = isSet f Scheduled"
  by (simp_all add: flag_simps)
    (simp_all add: set_flags_def clear_flags_def bit.conj_disj_distrib2 and.assoc)

lemma wf_bins_untouched:
  assumes "wf_bins h bs" "\<forall>b \<in> set bs. b \<noteq> []"
    and "\<And>x. x \<in> set (concat bs) \<Longrightarrow> ev_when (h' x) = ev_when (h x) \<and> ev_priority (h' x) = ev_priority (h x)"
  shows "wf_bins h' bs"
proof -
  have k: "ev_when (h' x) = ev_when (h x)" "ev_priority (h' x) = ev_priority (h x)" if "b \<in> set bs" "x \<in> set b" for b x
  proof -
    have "x \<in> set (concat bs)" using that by auto
    then show "ev_when (h' x) = ev_when (h x)" "ev_priority (h' x) = ev_priority (h x)" using assms(3) by simp_all
  qed
  have m: "hd b \<in> set b" if "b \<in> set bs" for b using assms(2) that by simp
  have d: "distinct (concat bs)" "\<forall>b \<in> set bs. \<forall>x \<in> set b. ev_eq (h x) (h (hd b))"
    and s: "sorted_wrt (\<lambda>b c. ev_less (h (hd b)) (h (hd c))) bs" using assms(1) unfolding wf_bins_def by blast+
  have kh: "ev_when (h' (hd b)) = ev_when (h (hd b))" "ev_priority (h' (hd b)) = ev_priority (h (hd b))" if "b \<in> set bs" for b
    using k [OF that m [OF that]] by simp_all
  have "ev_eq (h' x) (h' (hd b))" if "b \<in> set bs" "x \<in> set b" for b x
    using d(2) that k [OF that] kh [OF that(1)] by (simp add: ev_eq_def)
  moreover have "sorted_wrt (\<lambda>b c. ev_less (h' (hd b)) (h' (hd c))) bs"
    by (rule sorted_wrt_mono_rel [OF _ s]) (simp add: ev_less_def kh)
  ultimately show ?thesis using d(1) by (simp add: wf_bins_def)
qed

text \<open>Changes of fields that leave the representation alone.\<close>

lemma represents_upd:
  assumes "represents q xs" "\<And>v. nextBin (f v) = nextBin v" "\<And>v. nextInBin (f v) = nextInBin v"
    and "e \<notin> set xs \<or> (\<forall>v. ev_when (f v) = ev_when v \<and> ev_priority (f v) = ev_priority v)"
  shows "represents (upd_event e f q) xs"
proof -
  obtain bs where bs: "xs = concat bs" "bins (events q) (head q) bs" "wf_bins (events q) bs"
    using assms(1) by (auto simp: represents_def)
  let ?h = "(events q)(e := f (events q e))"
  have "bins ?h (head q) bs = bins (events q) (head q) bs" by (rule bins_cong) (simp_all add: assms(2,3))
  moreover have "wf_bins ?h bs"
    by (rule wf_bins_untouched [OF bs(3)]) (use bins_nonempty [OF bs(2)] assms(4) bs(1) in auto)
  ultimately show ?thesis using bs by (auto simp: represents_def upd_event_def)
qed

text \<open>What an operation on event \<open>e\<close> leaves alone.\<close>

definition frame :: "nat \<Rightarrow> EventQueue \<Rightarrow> EventQueue \<Rightarrow> bool" where
  "frame e q q' \<longleftrightarrow> curTick q' = curTick q \<and> eq_id q' = eq_id q \<and> async_queue q' = async_queue q \<and>
     ev_priority (events q' e) = ev_priority (events q e) \<and>
     (\<forall>x. x \<noteq> e \<longrightarrow> ev_when (events q' x) = ev_when (events q x) \<and> ev_priority (events q' x) = ev_priority (events q x) \<and>
        ev_flags (events q' x) = ev_flags (events q x) \<and> ev_queue (events q' x) = ev_queue (events q x))"

lemma frame_same: "same_events (events q) h \<Longrightarrow> frame e q (q\<lparr>events := h, head := p\<rparr>)"
  by (simp add: frame_def same_events_def)

lemma frame_upd: "(\<And>v. ev_priority (f v) = ev_priority v) \<Longrightarrow> frame e q (upd_event e f q)"
  by (simp add: frame_def upd_event_def)

lemma frame_trans: "frame e q q' \<Longrightarrow> frame e q' q'' \<Longrightarrow> frame e q q''"
  by (simp add: frame_def)

lemma frame_release: "frame e q (eq_release e q)" "represents (eq_release e q) xs = represents q xs"
  "events (eq_release e q) = events q"
  by (simp_all add: frame_def eq_release_def represents_def)

text \<open>The invariant of the fields, for given members of the queue.\<close>

lemma eq_inv_frame:
  assumes "eq_inv q xs" "frame e q q'" "represents q' ys"
    and "set ys - {e} = set xs - {e}" "scheduled (events q' e) \<longleftrightarrow> e \<in> set ys" "e \<notin> set (async_queue q)"
    and "e \<in> set ys \<Longrightarrow> ev_queue (events q' e) = Some (eq_id q) \<and> curTick q \<le> ev_when (events q' e)"
    and "initialized (events q' e)" "isExitEvent (events q' e) = isExitEvent (events q e)"
    and "isManaged (events q' e) = isManaged (events q e)"
    and "isSet (ev_flags (events q' e)) IsMainQueue = isSet (ev_flags (events q e)) IsMainQueue"
  shows "eq_inv q' ys"
proof -
  note d = assms(1) [unfolded eq_inv_def]
  have f: "curTick q' = curTick q" "eq_id q' = eq_id q" "async_queue q' = async_queue q"
    "\<And>x. x \<noteq> e \<Longrightarrow> ev_when (events q' x) = ev_when (events q x)" "\<And>x. x \<noteq> e \<Longrightarrow> ev_flags (events q' x) = ev_flags (events q x)"
    "\<And>x. x \<noteq> e \<Longrightarrow> ev_queue (events q' x) = ev_queue (events q x)" using assms(2) by (simp_all add: frame_def)
  have m: "x \<in> set ys \<longleftrightarrow> x \<in> set xs" if "x \<noteq> e" for x using assms(4) that by blast
  have "scheduled (events q' x) \<longleftrightarrow> x \<in> set ys \<or> x \<in> set (async_queue q')" for x
    using d assms(5,6) f m by (cases "x = e") (auto simp: scheduled_def)
  moreover have "ev_queue (events q' x) = Some (eq_id q') \<and> curTick q' \<le> ev_when (events q' x)" if "x \<in> set ys" for x
    using d assms(7) f m that by (cases "x = e") auto
  moreover have "initialized (events q' x)" for x
    using d assms(8) f by (cases "x = e") (auto simp: initialized_def)
  moreover have "isExitEvent (events q' x) \<longrightarrow> \<not> isManaged (events q' x) \<or> \<not> isSet (ev_flags (events q' x)) IsMainQueue" for x
    using d assms(9-11) f by (cases "x = e") (auto simp: isExitEvent_def isManaged_def)
  moreover have "set ys \<inter> set (async_queue q') = {}"
    using d assms(6) f m by auto (metis disjoint_iff)
  ultimately show ?thesis using assms(3) by (auto simp: eq_inv_def)
qed

lemma put_set: "set (put h e xs) = insert e (set xs)"
  by (simp add: put_def) (metis set_append takeWhile_dropWhile_id)

lemma put_cong:
  assumes "\<And>x. ev_less (h' x) (h' e) = ev_less (h x) (h e)"
  shows "put h' e xs = put h e xs"
  by (simp add: put_def assms)

lemma frame_inits:
  "initialized (v\<lparr>ev_flags := set_flags Scheduled (ev_flags v)\<rparr>) = initialized v"
  "initialized (v\<lparr>ev_flags := clear_flags Scheduled (ev_flags v)\<rparr>) = initialized v"
  by (simp_all add: initialized_def flag_frame)

text \<open>Insertion of an event that is not in the queue, after its time was set, and its flags.\<close>

lemma insert_rep:
  assumes "represents q xs" "e \<notin> set xs"
  shows "\<exists>q2. eq_insert e (upd_event e (setWhen t (eq_id q)) q) = Some q2 \<and>
    (let q' = upd_event e (\<lambda>v. v\<lparr>ev_flags := g (ev_flags v)\<rparr>) q2 in
     represents q' (put (events q') e xs) \<and> frame e q q' \<and> ev_when (events q' e) = t \<and>
     ev_queue (events q' e) = Some (eq_id q) \<and> ev_flags (events q' e) = g (ev_flags (events q e)))"
proof -
  let ?q1 = "upd_event e (setWhen t (eq_id q)) q"
  have r1: "represents ?q1 xs"
    by (rule represents_upd) (use assms in \<open>simp_all add: setWhen_def\<close>)
  obtain h p where i: "eq_insert e ?q1 = Some (?q1\<lparr>events := h, head := p\<rparr>)" "same_events (events ?q1) h"
    "represents (?q1\<lparr>events := h, head := p\<rparr>) (put (events ?q1) e xs)" using eq_insert_put [OF r1 assms(2)] by blast
  let ?q3 = "upd_event e (\<lambda>v. v\<lparr>ev_flags := g (ev_flags v)\<rparr>) (?q1\<lparr>events := h, head := p\<rparr>)"
  have f: "frame e q ?q3"
    by (intro frame_trans [OF frame_trans [OF frame_upd frame_same [OF i(2)]] frame_upd]) (simp_all add: setWhen_def)
  have "ev_when (h e) = t" "ev_queue (h e) = Some (eq_id q)" "ev_flags (h e) = ev_flags (events q e)"
    using i(2) by (simp_all add: same_events_def upd_event_def setWhen_def)
  then have e3: "ev_when (events ?q3 e) = t" "ev_queue (events ?q3 e) = Some (eq_id q)" "ev_flags (events ?q3 e) = g (ev_flags (events q e))"
    by (simp_all add: upd_event_def)
  have "ev_less (events ?q3 x) (events ?q3 e) = ev_less (events ?q1 x) (events ?q1 e)" for x
    using i(2) by (auto simp: upd_event_def same_events_def ev_order setWhen_def)
  then have pt: "put (events ?q3) e xs = put (events ?q1) e xs" by (rule put_cong)
  have "represents ?q3 (put (events ?q3) e xs)" unfolding pt by (rule represents_upd [OF i(3)]) simp_all
  then show ?thesis using i(1) f e3 by (auto simp: Let_def)
qed

lemma eq_inv_not_scheduled:
  "eq_inv q xs \<Longrightarrow> \<not> scheduled (events q e) \<longleftrightarrow> e \<notin> set xs \<and> e \<notin> set (async_queue q)"
  by (auto simp: eq_inv_def)

lemma schedule_step:
  assumes "eq_inv q xs" "\<not> scheduled (events q e)" "curTick q \<le> t"
  shows "\<exists>q'. eq_schedule False e t q = Some (ok q') \<and> eq_inv q' (put (events q') e xs) \<and> frame e q q' \<and>
    ev_when (events q' e) = t \<and> scheduled (events q' e)"
proof -
  have e: "e \<notin> set xs" "e \<notin> set (async_queue q)" using eq_inv_not_scheduled [OF assms(1)] assms(2) by blast+
  have r: "represents q xs" "initialized (events q e)" using assms(1) by (simp_all add: eq_inv_def)
  let ?g = "\<lambda>v. v\<lparr>ev_flags := set_flags Scheduled (ev_flags v)\<rparr>"
  obtain q2 where q2: "eq_insert e (upd_event e (setWhen t (eq_id q)) q) = Some q2" and
    q': "represents (upd_event e ?g q2) (put (events (upd_event e ?g q2)) e xs)" "frame e q (upd_event e ?g q2)"
    "ev_when (events (upd_event e ?g q2) e) = t" "ev_queue (events (upd_event e ?g q2) e) = Some (eq_id q)"
    "ev_flags (events (upd_event e ?g q2) e) = set_flags Scheduled (ev_flags (events q e))"
    using insert_rep [OF r(1) e(1), of t "set_flags Scheduled"] by (auto simp: Let_def)
  have "eq_inv (upd_event e ?g q2) (put (events (upd_event e ?g q2)) e xs)"
    by (rule eq_inv_frame [OF assms(1) q'(2,1)])
      (use e r assms(3) q' in \<open>auto simp: put_set scheduled_def initialized_def isExitEvent_def isManaged_def flag_frame flag_simps\<close>)
  moreover have "scheduled (events (upd_event e ?g q2) e)" using q'(5) by (simp add: scheduled_def flag_simps)
  ultimately show ?thesis using q2 q' r assms(2,3) by (simp add: eq_schedule_def Let_def)
qed

lemma remove_step:
  assumes "eq_inv q xs" "e \<in> set xs"
  shows "\<exists>q1. eq_remove e q = Some (ok q1) \<and> represents q1 (remove1 e xs) \<and> frame e q q1 \<and>
    ev_flags (events q1 e) = ev_flags (events q e)"
proof -
  have "represents q xs" "ev_queue (events q e) = Some (eq_id q)" using assms by (simp_all add: eq_inv_def)
  from eq_remove_remove1 [OF this(1) assms(2) this(2)]
  obtain h p where r: "eq_remove e q = Some (ok (q\<lparr>events := h, head := p\<rparr>))" "same_events (events q) h"
    "represents (q\<lparr>events := h, head := p\<rparr>) (remove1 e xs)" by blast
  then show ?thesis using frame_same [OF r(2)] by (auto simp: same_events_def)
qed

lemma deschedule_step:
  assumes "eq_inv q xs" "e \<in> set xs"
  shows "\<exists>q'. eq_deschedule e q = Some (ok q') \<and> eq_inv q' (remove1 e xs) \<and> frame e q q' \<and> \<not> scheduled (events q' e)"
proof -
  obtain q1 where q1: "eq_remove e q = Some (ok q1)" "represents q1 (remove1 e xs)" "frame e q q1"
    "ev_flags (events q1 e) = ev_flags (events q e)" using remove_step [OF assms] by blast
  let ?g = "\<lambda>v. v\<lparr>ev_flags := clear_flags Scheduled (clear_flags Squashed (ev_flags v))\<rparr>"
  let ?q2 = "upd_event e ?g q1"
  let ?q3 = "eq_release e ?q2"
  have s: "scheduled (events q e)" "initialized (events q e)" "distinct xs" "e \<notin> set (async_queue q)"
    using assms represents_distinct by (auto simp: eq_inv_def)
  have f: "frame e q ?q3"
    by (intro frame_trans [OF frame_trans [OF q1(3) frame_upd] frame_release(1)]) simp
  have e3: "ev_flags (events ?q3 e) = clear_flags Scheduled (clear_flags Squashed (ev_flags (events q e)))"
    using q1(4) by (simp add: frame_release upd_event_def)
  have "represents ?q3 (remove1 e xs)" unfolding frame_release by (rule represents_upd [OF q1(2)]) simp_all
  then have "eq_inv ?q3 (remove1 e xs)"
    by (rule eq_inv_frame [OF assms(1) f])
      (use s e3 in \<open>auto simp: scheduled_def initialized_def isExitEvent_def isManaged_def flag_frame flag_simps\<close>)
  moreover have "\<not> scheduled (events ?q3 e)" using e3 by (simp add: scheduled_def flag_simps)
  ultimately show ?thesis using q1(1) s f by (simp add: eq_deschedule_def)
qed

lemma reschedule_step:
  assumes "eq_inv q xs" "e \<in> set xs" "curTick q \<le> t"
  shows "\<exists>q'. eq_reschedule e t always q = Some (ok q') \<and> eq_inv q' (put (events q') e (remove1 e xs)) \<and> frame e q q' \<and>
    ev_when (events q' e) = t \<and> \<not> squashed (events q' e)"
proof -
  obtain q1 where q1: "eq_remove e q = Some (ok q1)" "represents q1 (remove1 e xs)" "frame e q q1"
    "ev_flags (events q1 e) = ev_flags (events q e)" using remove_step [OF assms(1,2)] by blast
  have s: "scheduled (events q e)" "initialized (events q e)" "distinct xs" "e \<notin> set (async_queue q)"
    using assms represents_distinct by (auto simp: eq_inv_def)
  have id: "eq_id q1 = eq_id q" using q1(3) by (simp add: frame_def)
  let ?g = "\<lambda>v. v\<lparr>ev_flags := set_flags Scheduled (clear_flags Squashed (ev_flags v))\<rparr>"
  have "e \<notin> set (remove1 e xs)" using s(3) by simp
  then obtain q2 where q2: "eq_insert e (upd_event e (setWhen t (eq_id q)) q1) = Some q2" and
    q': "represents (upd_event e ?g q2) (put (events (upd_event e ?g q2)) e (remove1 e xs))" "frame e q1 (upd_event e ?g q2)"
    "ev_when (events (upd_event e ?g q2) e) = t" "ev_queue (events (upd_event e ?g q2) e) = Some (eq_id q)"
    "ev_flags (events (upd_event e ?g q2) e) = set_flags Scheduled (clear_flags Squashed (ev_flags (events q e)))"
    using insert_rep [OF q1(2), of e t "\<lambda>f. set_flags Scheduled (clear_flags Squashed f)"] q1(4) id by (auto simp: Let_def)
  note f = frame_trans [OF q1(3) q'(2)]
  have "set (remove1 e xs) = set xs - {e}" using s(3) by simp
  then have "eq_inv (upd_event e ?g q2) (put (events (upd_event e ?g q2)) e (remove1 e xs))"
    by (intro eq_inv_frame [OF assms(1) f q'(1)])
      (use s assms(3) q' in \<open>auto simp: put_set scheduled_def initialized_def isExitEvent_def isManaged_def flag_frame flag_simps\<close>)
  moreover have "\<not> squashed (events (upd_event e ?g q2) e)" using q'(5) by (simp add: squashed_def flag_simps)
  ultimately show ?thesis using q1(1) q2 q'(3) f s assms(3) by (simp add: eq_reschedule_def)
qed

lemma service_step:
  assumes "eq_inv q (t # xs)" "\<not> squashed (events q t)"
  shows "\<exists>q1. eq_inv q1 xs \<and> curTick q1 = ev_when (events q t) \<and> curTick q \<le> curTick q1 \<and> \<not> scheduled (events q1 t) \<and>
    (\<forall>x. ev_when (events q1 x) = ev_when (events q x) \<and> ev_priority (events q1 x) = ev_priority (events q x)) \<and>
    serviceOne proc q = bindR (proc t q1) (\<lambda>q2.
      if isExitEvent (events q2 t) then
        assertR (\<not> isManaged (events q2 t) \<or> \<not> isSet (ev_flags (events q2 t)) IsMainQueue) (ok (Some t, q2))
      else ok (None, eq_release t q2))"
proof -
  let ?q1 = "(eq_pop t q)\<lparr>curTick := ev_when (events q t)\<rparr>"
  note d = assms(1) [unfolded eq_inv_def]
  have hd: "head q = Some t" using represents_head d by fastforce
  have tx: "t \<notin> set xs" using represents_distinct d by fastforce
  have r: "represents ?q1 xs" using eq_pop_rest [of q t xs] d by (simp add: represents_def)
  have fl: "ev_flags (events ?q1 x) = (if x = t then clear_flags Scheduled (ev_flags (events q t)) else ev_flags (events q x))" for x
    by (simp add: eq_pop_events)
  have le: "ev_le (events q t) (events q x)" if "x \<in> set xs" for x
    using represents_sorted [of q "t # xs"] d that by simp
  have late: "ev_when (events q t) \<le> ev_when (events q x)" if "x \<in> set xs" for x
    using le [OF that] by (auto simp: ev_le_def)
  have "scheduled (events ?q1 x) \<longleftrightarrow> x \<in> set xs \<or> x \<in> set (async_queue q)" for x
    using d tx fl by (cases "x = t") (auto simp: scheduled_def flag_simps)
  moreover have "initialized (events ?q1 x)" for x using d fl by (simp add: initialized_def flag_frame)
  moreover have "isExitEvent (events ?q1 x) \<longrightarrow> \<not> isManaged (events ?q1 x) \<or> \<not> isSet (ev_flags (events ?q1 x)) IsMainQueue" for x
    using d by (simp add: isExitEvent_def isManaged_def eq_pop_events flag_frame)
  ultimately have "eq_inv ?q1 xs" using d r late by (auto simp: eq_inv_def eq_pop_events)
  moreover have "\<not> scheduled (events ?q1 t)" by (simp add: scheduled_def eq_pop_events flag_simps)
  moreover have "squashed (events ?q1 t) = squashed (events q t)" by (simp add: squashed_def eq_pop_events flag_simps)
  moreover have "curTick q \<le> curTick ?q1" using d by simp
  ultimately show ?thesis using assms(2) hd
    by (intro exI [of _ ?q1]) (simp add: serviceOne_def eq_pop_events Let_def)
qed

lemma squashed_step:
  assumes "eq_inv q (t # xs)" "squashed (events q t)"
  shows "\<exists>q1. eq_inv q1 xs \<and> serviceOne proc q = ok (None, q1) \<and> curTick q1 = curTick q \<and>
    (\<forall>x. ev_when (events q1 x) = ev_when (events q x) \<and> ev_priority (events q1 x) = ev_priority (events q x))"
proof -
  let ?g = "\<lambda>v. v\<lparr>ev_flags := clear_flags Squashed (ev_flags v)\<rparr>"
  let ?q2 = "upd_event t ?g (eq_pop t q)"
  let ?q1 = "eq_release t ?q2"
  note d = assms(1) [unfolded eq_inv_def]
  have hd: "head q = Some t" using represents_head d by fastforce
  have tx: "t \<notin> set xs" "t \<notin> set (async_queue q)" using represents_distinct d by fastforce+
  have f: "frame t q ?q1"
    by (rule frame_trans [OF frame_trans [OF _ frame_upd] frame_release(1)]) (simp_all add: frame_def eq_pop_events)
  have e: "ev_flags (events ?q1 t) = clear_flags Squashed (clear_flags Scheduled (ev_flags (events q t)))"
    by (simp add: frame_release upd_event_def eq_pop_events)
  have "represents ?q1 xs" unfolding frame_release by (rule represents_upd [OF eq_pop_rest]) (use d in simp_all)
  then have "eq_inv ?q1 xs"
    by (rule eq_inv_frame [OF assms(1) f])
      (use d tx e in \<open>auto simp: scheduled_def initialized_def isExitEvent_def isManaged_def flag_frame flag_simps\<close>)
  moreover have "squashed (events (eq_pop t q) t)" using assms(2) by (simp add: squashed_def eq_pop_events flag_simps)
  ultimately show ?thesis using hd
    by (intro exI [of _ ?q1]) (auto simp: serviceOne_def Let_def frame_release upd_event_def eq_pop_events eq_release_def)
qed

section \<open>Serving every event that is due\<close>

definition due_count :: "EventQueue \<Rightarrow> Tick \<Rightarrow> nat list \<Rightarrow> nat" where
  "due_count q t xs = length (filter (\<lambda>x. ev_when (events q x) \<le> t) xs)"

text \<open>A handler that stops on nothing, and schedules nothing more that is due by \<open>t\<close>.\<close>

definition quiet_handler :: "(nat \<Rightarrow> EventQueue \<Rightarrow> EventQueue res) \<Rightarrow> Tick \<Rightarrow> bool" where
  "quiet_handler proc t \<longleftrightarrow> (\<forall>e q xs. eq_inv q xs \<longrightarrow>
     (\<exists>q' ys. proc e q = ok q' \<and> eq_inv q' ys \<and> due_count q' t ys \<le> due_count q t xs))"

lemma eq_inv_release: "eq_inv (eq_release e q) xs = eq_inv q xs" "due_count (eq_release e q) t xs = due_count q t xs"
  by (simp_all add: eq_release_def eq_inv_def represents_def due_count_def)

lemma due_cong: "(\<And>x. ev_when (events q' x) = ev_when (events q x)) \<Longrightarrow> due_count q' t xs = due_count q t xs"
  by (simp add: due_count_def)

lemma serviceOne_progress:
  assumes "eq_inv q (e # xs)" "quiet_handler proc t"
  shows "\<exists>r q' ys. serviceOne proc q = ok (r, q') \<and> eq_inv q' ys \<and> due_count q' t ys \<le> due_count q t xs"
proof (cases "squashed (events q e)")
  case True
  then obtain q1 where "eq_inv q1 xs" "serviceOne proc q = ok (None, q1)" "\<forall>x. ev_when (events q1 x) = ev_when (events q x)"
    using squashed_step [OF assms(1)] by blast
  then show ?thesis using due_cong [of q1 q t xs] by auto
next
  case False
  obtain q1 where q1: "eq_inv q1 xs" "\<forall>x. ev_when (events q1 x) = ev_when (events q x)"
    "serviceOne proc q = bindR (proc e q1) (\<lambda>q2.
      if isExitEvent (events q2 e) then
        assertR (\<not> isManaged (events q2 e) \<or> \<not> isSet (ev_flags (events q2 e)) IsMainQueue) (ok (Some e, q2))
      else ok (None, eq_release e q2))" using service_step [OF assms(1) False, of proc] by blast
  obtain q2 ys where q2: "proc e q1 = ok q2" "eq_inv q2 ys" "due_count q2 t ys \<le> due_count q1 t xs"
    using assms(2) [unfolded quiet_handler_def, rule_format, OF q1(1), of e] by (elim exE conjE)
  have "due_count q1 t xs = due_count q t xs" by (rule due_cong) (simp add: q1(2))
  moreover have "isExitEvent (events q2 e) \<longrightarrow> \<not> isManaged (events q2 e) \<or> \<not> isSet (ev_flags (events q2 e)) IsMainQueue"
    using q2(2) by (simp add: eq_inv_def)
  ultimately have le: "due_count q2 t ys \<le> due_count q t xs"
    and ex: "isExitEvent (events q2 e) \<Longrightarrow> \<not> isManaged (events q2 e) \<or> \<not> isSet (ev_flags (events q2 e)) IsMainQueue"
    using q2(3) by simp_all
  show ?thesis
  proof (cases "isExitEvent (events q2 e)")
    case True
    then have "serviceOne proc q = ok (Some e, q2)" using q1(3) q2(1) ex [OF True] by (simp add: assertR_def)
    then show ?thesis using q2(2) le by (intro exI conjI)
  next
    case False
    then have "serviceOne proc q = ok (None, eq_release e q2)" using q1(3) q2(1) by simp
    moreover have "eq_inv (eq_release e q2) ys" "due_count (eq_release e q2) t ys \<le> due_count q t xs"
      using q2(2) le by (simp_all only: eq_inv_release)
    ultimately show ?thesis by (intro exI conjI)
  qed
qed

lemma due_head:
  assumes "eq_inv q (e # xs)" "\<not> ev_when (events q e) \<le> t"
  shows "\<forall>x \<in> set (e # xs). t < ev_when (events q x)"
proof -
  have "\<forall>x \<in> set xs. ev_le (events q e) (events q x)"
    using represents_sorted [of q "e # xs"] assms(1) by (simp add: eq_inv_def)
  then show ?thesis using assms(2) by (auto simp: ev_le_def)
qed

lemma serviceEvents_total:
  assumes "eq_inv q xs" "quiet_handler proc t"
  shows "\<exists>q' ys. serviceEvents proc t q = Some (ok q') \<and> eq_inv q' ys \<and> curTick q' = t \<and>
    (\<forall>x \<in> set ys. t < ev_when (events q' x))"
  using assms(1)
proof (induction "due_count q t xs" arbitrary: q xs rule: less_induct)
  case less
  have h: "head q = (if xs = [] then None else Some (hd xs))" using represents_head less.prems by (simp add: eq_inv_def)
  have stop: ?case if "serviceEvents proc t q = Some (ok (q\<lparr>curTick := t\<rparr>))" "\<forall>x \<in> set xs. t < ev_when (events q x)"
    using that less.prems by (intro exI [of _ "q\<lparr>curTick := t\<rparr>"] exI [of _ xs]) (auto simp: eq_inv_def represents_def)
  show ?case
  proof (cases xs)
    case Nil
    then show ?thesis using h by (intro stop) (simp_all add: serviceEvents.simps [of proc t q])
  next
    case (Cons e es)
    show ?thesis
    proof (cases "ev_when (events q e) \<le> t")
      case False
      then show ?thesis using h Cons due_head [OF less.prems [unfolded Cons] False]
        by (intro stop) (simp_all add: serviceEvents.simps [of proc t q])
    next
      case True
      obtain r q' ys where s: "serviceOne proc q = ok (r, q')" "eq_inv q' ys" "due_count q' t ys \<le> due_count q t es"
        using serviceOne_progress [OF less.prems [unfolded Cons] assms(2)] by blast
      have "due_count q t xs = Suc (due_count q t es)" using True Cons by (simp add: due_count_def)
      then have "due_count q' t ys < due_count q t xs" using s(3) by simp
      moreover have "\<not> t < ev_when (events q e)" using True by simp
      then have "serviceEvents proc t q = serviceEvents proc t q'"
        using h Cons s(1) by (simp add: serviceEvents.simps [of proc t q])
      ultimately show ?thesis using less.hyps s(2) by simp
    qed
  qed
qed

section \<open>The queue as its clients see it\<close>

text \<open>
  What an object that schedules events relies on: an event that is not pending can be scheduled for
  any time that is not past, a pending one can be taken back, and neither disturbs the order of the
  others.
\<close>

locale event_list =
  fixes inv :: "'q \<Rightarrow> 'e list \<Rightarrow> bool"
    and now :: "'q \<Rightarrow> Tick"
    and pending :: "'q \<Rightarrow> 'e \<Rightarrow> bool"
    and sched :: "'e \<Rightarrow> Tick \<Rightarrow> 'q \<Rightarrow> 'q res option"
    and desched :: "'e \<Rightarrow> 'q \<Rightarrow> 'q res option"
  assumes sched_ok: "inv q xs \<Longrightarrow> \<not> pending q e \<Longrightarrow> now q \<le> t \<Longrightarrow>
      \<exists>q' us vs. sched e t q = Some (ok q') \<and> xs = us @ vs \<and> inv q' (us @ e # vs) \<and> e \<notin> set xs \<and> now q' = now q \<and>
        (\<forall>x. pending q' x \<longleftrightarrow> x = e \<or> pending q x)"
    and desched_ok: "inv q xs \<Longrightarrow> e \<in> set xs \<Longrightarrow>
      \<exists>q'. desched e q = Some (ok q') \<and> inv q' (remove1 e xs) \<and> now q' = now q \<and>
        (\<forall>x. pending q' x \<longleftrightarrow> x \<noteq> e \<and> pending q x)"
begin

lemma sched_desched:
  assumes "inv q xs" "\<not> pending q e" "now q \<le> t"
  shows "\<exists>q1 q2. sched e t q = Some (ok q1) \<and> desched e q1 = Some (ok q2) \<and> inv q2 xs \<and> now q2 = now q \<and>
    (\<forall>x. pending q2 x \<longleftrightarrow> pending q x)"
proof -
  obtain q1 us vs where q1: "sched e t q = Some (ok q1)" "xs = us @ vs" "inv q1 (us @ e # vs)" "e \<notin> set xs" "now q1 = now q"
    "\<forall>x. pending q1 x \<longleftrightarrow> x = e \<or> pending q x" using sched_ok [OF assms] by blast
  obtain q2 where q2: "desched e q1 = Some (ok q2)" "inv q2 (remove1 e (us @ e # vs))" "now q2 = now q1"
    "\<forall>x. pending q2 x \<longleftrightarrow> x \<noteq> e \<and> pending q1 x" using desched_ok [OF q1(3), of e] by auto
  have "remove1 e (us @ e # vs) = xs" using q1(2,4) by (simp add: remove1_append)
  then show ?thesis using q1 q2 assms(2) by auto
qed

fun sched_all :: "('e \<times> Tick) list \<Rightarrow> 'q \<Rightarrow> 'q res option" where
  "sched_all [] q = Some (ok q)"
| "sched_all ((e, t) # es) q = Option.bind (sched e t q) (\<lambda>r. case r of Inl f \<Rightarrow> Some (Inl f) | Inr q' \<Rightarrow> sched_all es q')"

lemma sched_all_ok:
  assumes "inv q xs" "distinct (map fst es)" "\<forall>(e, t) \<in> set es. \<not> pending q e \<and> now q \<le> t"
  shows "\<exists>q' ys. sched_all es q = Some (ok q') \<and> inv q' ys \<and> set ys = set xs \<union> fst ` set es \<and> length ys = length xs + length es"
  using assms
proof (induction es arbitrary: q xs)
  case (Cons et es)
  obtain e t where et: "et = (e, t)" by (cases et)
  obtain q1 us vs where q1: "sched e t q = Some (ok q1)" "xs = us @ vs" "inv q1 (us @ e # vs)" "now q1 = now q"
    "\<forall>x. pending q1 x \<longleftrightarrow> x = e \<or> pending q x" using sched_ok [OF Cons.prems(1), of e t] Cons.prems(3) et by auto
  have "\<exists>q' ys. sched_all es q1 = Some (ok q') \<and> inv q' ys \<and> set ys = set (us @ e # vs) \<union> fst ` set es \<and>
    length ys = length (us @ e # vs) + length es"
  proof (rule Cons.IH [OF q1(3)])
    show "distinct (map fst es)" using Cons.prems(2) by simp
    show "\<forall>(x, s) \<in> set es. \<not> pending q1 x \<and> now q1 \<le> s"
      using Cons.prems(2,3) q1(4,5) et by (auto simp: image_iff)
  qed
  then show ?case using q1(1,2) et by auto
qed auto

end

interpretation eqs: event_list eq_inv curTick "\<lambda>q e. scheduled (events q e)" "eq_schedule False" eq_deschedule
proof
  fix q xs e t
  assume a: "eq_inv q xs" "\<not> scheduled (events q e)" "curTick q \<le> t"
  obtain q' where q': "eq_schedule False e t q = Some (ok q')" "eq_inv q' (put (events q') e xs)" "frame e q q'"
    "scheduled (events q' e)" using schedule_step [OF a] by blast
  have "scheduled (events q' x) \<longleftrightarrow> x = e \<or> scheduled (events q x)" for x
    using q'(3,4) by (cases "x = e") (auto simp: frame_def scheduled_def)
  moreover have "e \<notin> set xs" "curTick q' = curTick q" using a q'(3) by (auto simp: eq_inv_def frame_def)
  ultimately show "\<exists>q' us vs. eq_schedule False e t q = Some (ok q') \<and> xs = us @ vs \<and> eq_inv q' (us @ e # vs) \<and>
      e \<notin> set xs \<and> curTick q' = curTick q \<and> (\<forall>x. scheduled (events q' x) \<longleftrightarrow> x = e \<or> scheduled (events q x))"
    using q'(1,2) unfolding put_def by (metis takeWhile_dropWhile_id)
next
  fix q xs e
  assume a: "eq_inv q xs" "e \<in> set xs"
  obtain q' where q': "eq_deschedule e q = Some (ok q')" "eq_inv q' (remove1 e xs)" "frame e q q'" "\<not> scheduled (events q' e)"
    using deschedule_step [OF a] by blast
  have "scheduled (events q' x) \<longleftrightarrow> x \<noteq> e \<and> scheduled (events q x)" for x
    using q'(3,4) by (cases "x = e") (auto simp: frame_def scheduled_def)
  then show "\<exists>q'. eq_deschedule e q = Some (ok q') \<and> eq_inv q' (remove1 e xs) \<and> curTick q' = curTick q \<and>
      (\<forall>x. scheduled (events q' x) \<longleftrightarrow> x \<noteq> e \<and> scheduled (events q x))"
    using q' by (auto simp: frame_def)
qed

section \<open>Properties\<close>

text \<open>C34: Scheduling an event for a time that is not past ends, and the event is served after exactly the
  events that are earlier, or as early and of smaller priority value, and before all others: among
  events of one time and priority the last scheduled is served first. No other event changes its
  time, priority, flags or place.\<close>
theorem schedule_in_order:
  assumes "eq_inv q xs" "\<not> scheduled (events q e)" "curTick q \<le> t"
  shows "\<exists>q' us vs. eq_schedule False e t q = Some (ok q') \<and> xs = us @ vs \<and> eq_inv q' (us @ e # vs) \<and>
    list_all (\<lambda>x. ev_less (events q' x) (events q' e)) us \<and> list_all (\<lambda>x. ev_le (events q' e) (events q' x)) vs \<and>
    frame e q q' \<and> ev_when (events q' e) = t"
proof -
  obtain q' where q': "eq_schedule False e t q = Some (ok q')" "eq_inv q' (put (events q') e xs)" "frame e q q'"
    "ev_when (events q' e) = t" using schedule_step [OF assms] by blast
  let ?P = "\<lambda>x. ev_less (events q' x) (events q' e)"
  have "sorted_wrt (\<lambda>x y. ev_le (events q' x) (events q' y)) (takeWhile ?P xs @ e # dropWhile ?P xs)"
    using represents_sorted q'(2) by (auto simp: eq_inv_def put_def)
  then have "list_all (\<lambda>x. ev_le (events q' e) (events q' x)) (dropWhile ?P xs)"
    by (simp add: sorted_wrt_append list_all_iff)
  moreover have "list_all ?P (takeWhile ?P xs)" by (auto simp: list_all_iff dest: set_takeWhileD)
  ultimately show ?thesis using q' unfolding put_def by (metis takeWhile_dropWhile_id)
qed

text \<open>Scheduling an event and taking it back leaves the events that were pending pending, in the order
  of service they had.\<close>
theorem schedule_deschedule:
  assumes "eq_inv q xs" "\<not> scheduled (events q e)" "curTick q \<le> t"
  shows "\<exists>q1 q2. eq_schedule False e t q = Some (ok q1) \<and> eq_deschedule e q1 = Some (ok q2) \<and> eq_inv q2 xs \<and>
    curTick q2 = curTick q \<and> (\<forall>x. scheduled (events q2 x) \<longleftrightarrow> scheduled (events q x))"
  by (rule eqs.sched_desched [OF assms])

text \<open>Rescheduling a pending event moves it to the place of its new time, behind exactly the events that
  come before it, and un-squashes it; the others keep their order.\<close>
theorem reschedule_in_order:
  assumes "eq_inv q xs" "e \<in> set xs" "curTick q \<le> t"
  shows "\<exists>q'. eq_reschedule e t always q = Some (ok q') \<and> eq_inv q' (put (events q') e (remove1 e xs)) \<and>
    frame e q q' \<and> ev_when (events q' e) = t \<and> \<not> squashed (events q' e)"
  by (rule reschedule_step [OF assms])

text \<open>C35: Serving an event takes the first of the order of service, and runs its handler at the event's own
  time, which is not before the current one and not after that of any event still pending: time never
  runs backwards.\<close>
theorem service_in_time_order:
  assumes "eq_inv q (e # xs)" "\<not> squashed (events q e)"
  shows "\<exists>q1. eq_inv q1 xs \<and> curTick q1 = ev_when (events q e) \<and> curTick q \<le> curTick q1 \<and> \<not> scheduled (events q1 e) \<and>
    list_all (\<lambda>x. curTick q1 \<le> ev_when (events q1 x)) xs \<and>
    serviceOne proc q = bindR (proc e q1) (\<lambda>q2.
      if isExitEvent (events q2 e) then
        assertR (\<not> isManaged (events q2 e) \<or> \<not> isSet (ev_flags (events q2 e)) IsMainQueue) (ok (Some e, q2))
      else ok (None, eq_release e q2))"
  using service_step [OF assms, of proc] by (auto simp: list_all_iff eq_inv_def)

text \<open>C36: Serving all events up to a time ends when the handlers schedule nothing more that is due by then,
  and leaves the queue with only later events and the clock at that time.\<close>
theorem serviceEvents_ends:
  assumes "eq_inv q xs" "quiet_handler proc t"
  shows "\<exists>q' ys. serviceEvents proc t q = Some (ok q') \<and> eq_inv q' ys \<and> curTick q' = t \<and>
    list_all (\<lambda>x. t < ev_when (events q' x)) ys"
  using serviceEvents_total [OF assms] by (simp add: list_all_iff)

section \<open>A small queue\<close>

definition idle_events :: "nat \<Rightarrow> Event" where
  "idle_events e = \<lparr>nextBin = None, nextInBin = None, ev_when = 0, ev_priority = 0, ev_flags = Initialized, ev_queue = None\<rparr>"

lemma idle_inv: "eq_inv (EventQueue_new 0 idle_events) []"
proof -
  have "represents (EventQueue_new 0 idle_events) []"
    unfolding represents_def by (rule exI [of _ "[]"]) (simp add: EventQueue_new_def wf_bins_def)
  then show ?thesis
    by (simp add: eq_inv_def EventQueue_new_def idle_events_def scheduled_def initialized_def isExitEvent_def isManaged_def isSet_def)
qed

lemma idle_free: "\<not> scheduled (events (EventQueue_new 0 idle_events) e)" "curTick (EventQueue_new 0 idle_events) \<le> t"
  "\<not> squashed (events (EventQueue_new 0 idle_events) e)"
  by (simp_all add: EventQueue_new_def idle_events_def scheduled_def squashed_def isSet_def)

theorem schedule_in_order_witness:
  "\<exists>q'. eq_schedule False 1 5 (EventQueue_new 0 idle_events) = Some (ok q') \<and> eq_inv q' [1] \<and> ev_when (events q' 1) = 5"
  using schedule_in_order [OF idle_inv idle_free(1,2), of 1 5] by auto

theorem schedule_deschedule_witness:
  "\<exists>q1 q2. eq_schedule False 1 5 (EventQueue_new 0 idle_events) = Some (ok q1) \<and> eq_deschedule 1 q1 = Some (ok q2) \<and> eq_inv q2 []"
  using schedule_deschedule [OF idle_inv idle_free(1,2), of 1 5] by blast

definition one_event :: EventQueue where
  "one_event = (case eq_schedule False 1 5 (EventQueue_new 0 idle_events) of Some (Inr q) \<Rightarrow> q | _ \<Rightarrow> EventQueue_new 0 idle_events)"

lemma one_event_inv: "eq_inv one_event [1]" "curTick one_event \<le> 3" "\<not> squashed (events one_event 1)" "ev_when (events one_event 1) = 5"
proof -
  obtain q' where q': "eq_schedule False 1 5 (EventQueue_new 0 idle_events) = Some (ok q')" "eq_inv q' (put (events q') 1 [])"
    using schedule_step [OF idle_inv idle_free(1,2), of 1 5] by blast
  have "one_event = q'" using q'(1) by (simp add: one_event_def)
  then show "eq_inv one_event [1]" using q'(2) by (simp add: put_def)
  show "curTick one_event \<le> 3" "\<not> squashed (events one_event 1)" "ev_when (events one_event 1) = 5" by code_simp+
qed

theorem reschedule_in_order_witness:
  "\<exists>q'. eq_reschedule 1 3 False one_event = Some (ok q') \<and> eq_inv q' [1] \<and> ev_when (events q' 1) = 3"
  using reschedule_in_order [OF one_event_inv(1) _ one_event_inv(2), of 1 False] by (auto simp: put_def)

theorem service_in_time_order_witness:
  "\<exists>q1. eq_inv q1 [] \<and> curTick q1 = 5 \<and> serviceOne (\<lambda>_ _. fail Panicked) one_event = fail Panicked"
  using service_in_time_order [OF one_event_inv(1,3), of "\<lambda>_ _. fail Panicked"] one_event_inv(4) by auto

lemma idle_handler: "quiet_handler (\<lambda>_ q. ok q) t"
  by (auto simp: quiet_handler_def)

theorem serviceEvents_ends_witness:
  "\<exists>q' ys. serviceEvents (\<lambda>_ q. ok q) 7 one_event = Some (ok q') \<and> eq_inv q' ys \<and> curTick q' = 7"
  using serviceEvents_ends [OF one_event_inv(1) idle_handler, of 7] by blast

end
