(* ===== verification/PIM_Events.thy ===== *)
theory PIM_Events
  imports PIM_Kernel Event_Queue
begin

text \<open>
  The events of a PIM kernel on the event queue. The model of the kernel keeps for each of its three
  events the tick it is scheduled for, if it is; here those fields are shown to be a view of the
  event queue: scheduling on the queue and scheduling on the view stop on the same calls and agree on
  the result, and serving the event clears its view, at the tick the view held.
\<close>

definition event_view :: "EventQueue \<Rightarrow> nat \<Rightarrow> Tick option" where
  "event_view q e = (if scheduled (events q e) then Some (ev_when (events q e)) else None)"

lemma frame_view: "frame e q q' \<Longrightarrow> x \<noteq> e \<Longrightarrow> event_view q' x = event_view q x"
  by (simp add: frame_def event_view_def scheduled_def)

lemma schedule_view:
  assumes "eq_inv q xs" "e_now env = curTick q"
  shows "\<exists>r. eq_schedule False e t q = Some r \<and>
    schedule_ev env t (event_view q e) = (case r of Inl f \<Rightarrow> Inl f | Inr q' \<Rightarrow> Inr (event_view q' e)) \<and>
    (case r of Inl f \<Rightarrow> True | Inr q' \<Rightarrow> (\<exists>ys. eq_inv q' ys) \<and> curTick q' = curTick q \<and> (\<forall>x. x \<noteq> e \<longrightarrow> event_view q' x = event_view q x))"
proof (cases "curTick q \<le> t \<and> \<not> scheduled (events q e)")
  case True
  then obtain q' where q': "eq_schedule False e t q = Some (ok q')" "eq_inv q' (put (events q') e xs)" "frame e q q'"
    "ev_when (events q' e) = t" "scheduled (events q' e)" using schedule_step [OF assms(1), of e t] by blast
  have "curTick q' = curTick q" using q'(3) by (simp add: frame_def)
  then show ?thesis using q' True assms(2) frame_view [OF q'(3)]
    by (auto simp: schedule_ev_def assertR_def event_view_def)
next
  case False
  then show ?thesis using assms(2) by (auto simp: eq_schedule_def schedule_ev_def assertR_def event_view_def)
qed

text \<open>The kernel's event fields implement the event queue: scheduling an event of the kernel on the queue
  fails its assertions exactly when scheduling on the field does, and otherwise the field is what the
  queue holds for the event, and the fields of the other events are unchanged.\<close>
theorem kernel_events_refine_queue:
  assumes "eq_inv q xs" "e_now env = curTick q"
  shows "\<exists>r. eq_schedule False e t q = Some r \<and>
    schedule_ev env t (event_view q e) = (case r of Inl f \<Rightarrow> Inl f | Inr q' \<Rightarrow> Inr (event_view q' e)) \<and>
    (case r of Inl f \<Rightarrow> True | Inr q' \<Rightarrow> (\<exists>ys. eq_inv q' ys) \<and> curTick q' = curTick q \<and> (\<forall>x. x \<noteq> e \<longrightarrow> event_view q' x = event_view q x))"
  by (rule schedule_view [OF assms])

theorem kernel_events_refine_queue_witness:
  "schedule_ev \<lparr>e_now = 0, e_period = 500, e_accept = True, e_junk = 0, e_fill = 0\<rparr> 3 (event_view one_event 1) = Inl AssertFailed \<and>
   eq_schedule False 1 3 one_event = Some (Inl AssertFailed)"
proof -
  let ?env = "\<lparr>e_now = 0, e_period = 500, e_accept = True, e_junk = 0, e_fill = 0\<rparr>"
  have "e_now ?env = curTick one_event" by code_simp
  then obtain r where "eq_schedule False 1 3 one_event = Some r"
    "schedule_ev ?env 3 (event_view one_event 1) = (case r of Inl f \<Rightarrow> Inl f | Inr q' \<Rightarrow> Inr (event_view q' 1))"
    using kernel_events_refine_queue [OF one_event_inv(1), of ?env 1 3] by blast
  moreover have "scheduled (events one_event 1)" using one_event_inv(1) by (simp add: eq_inv_def)
  ultimately show ?thesis by (auto simp: eq_schedule_def)
qed

text \<open>Serving an event of the kernel: its field is cleared before the handler runs, at the tick it held.\<close>

lemma service_view:
  assumes "eq_inv q (e # xs)" "\<not> squashed (events q e)"
  shows "\<exists>q1. eq_inv q1 xs \<and> event_view q1 e = None \<and> event_view q e = Some (curTick q1)"
proof -
  obtain q1 where "eq_inv q1 xs" "curTick q1 = ev_when (events q e)" "\<not> scheduled (events q1 e)"
    using service_step [OF assms] by blast
  moreover have "scheduled (events q e)" using assms(1) by (simp add: eq_inv_def)
  ultimately show ?thesis by (auto simp: event_view_def)
qed

end
