(* ===== verification/Addr_Range_Map.thy ===== *)
theory Addr_Range_Map
  imports Addr_Range
begin

text \<open>
  The interval map of \<^verbatim>\<open>src/base/addr_range_map.hh\<close>, the decoder that sends an address to a port or
  to a memory. The \<^verbatim>\<open>std::map\<close> is the list of its entries in the order of \<^verbatim>\<open>operator<\<close>; an iterator
  is the entry it points to, \<^verbatim>\<open>end()\<close> is \<open>None\<close>; the lookup cache is the list of cached entries, most
  recent first. A condition on ranges may stop (\<open>isSubset\<close> and \<open>intersects\<close> panic on some
  interleavings), so a search is an operation that may stop.

  The lemmas treat maps of plain, disjoint ranges: the search is then exact whatever the cache
  holds, an insertion is refused exactly for overlapping ranges, and the map is a decoder in the
  sense of the locale \<open>addr_decoder\<close>.
\<close>

section \<open>State\<close>

record 'v AddrRangeMap =
  tree :: "(AddrRange \<times> 'v) list"
  cache :: "(AddrRange \<times> 'v) list"

definition map_empty :: "'v AddrRangeMap" where
  "map_empty = \<lparr>tree = [], cache = []\<rparr>"

section \<open>Operations\<close>

definition addNewEntryToCache ::
  "nat \<Rightarrow> (AddrRange \<times> 'v) \<Rightarrow> (AddrRange \<times> 'v) list \<Rightarrow> (AddrRange \<times> 'v) list" where
  "addNewEntryToCache max_cache_size it c =
     (if max_cache_size \<noteq> 0 then
        (if length c \<ge> max_cache_size then
           (let c' = butlast c @ [it]
            in if max_cache_size > 1 then last c' # butlast c' else c')
         else it # c)
      else c)"

text \<open>The scan of the cache: the first match is moved to the front.\<close>

fun cache_scan :: "(AddrRange \<Rightarrow> bool res) \<Rightarrow> (AddrRange \<times> 'v) list \<Rightarrow> (AddrRange \<times> 'v) list
    \<Rightarrow> ((AddrRange \<times> 'v) \<times> (AddrRange \<times> 'v) list) option res" where
  "cache_scan cond seen [] = ok None"
| "cache_scan cond seen (it # c) =
     bindR (cond (fst it)) (\<lambda>b.
       if b then ok (Some (it, it # (seen @ c))) else cache_scan cond (seen @ [it]) c)"

text \<open>\<^verbatim>\<open>tree.upper_bound(r)\<close>: the index of the first entry greater than \<open>r\<close>.\<close>

definition upper_bound :: "(AddrRange \<times> 'v) list \<Rightarrow> AddrRange \<Rightarrow> nat" where
  "upper_bound t r = length (takeWhile (\<lambda>e. \<not> range_less r (fst e)) t)"

text \<open>The backward loop: from entry \<open>j\<close> towards the beginning while the ranges merge.\<close>

fun scan_back :: "(AddrRange \<Rightarrow> bool res) \<Rightarrow> (AddrRange \<times> 'v) list \<Rightarrow> nat
    \<Rightarrow> (AddrRange \<times> 'v) option res" where
  "scan_back cond t 0 =
     bindR (cond (fst (t ! 0))) (\<lambda>b. ok (if b then Some (t ! 0) else None))"
| "scan_back cond t (Suc j) =
     bindR (cond (fst (t ! Suc j))) (\<lambda>b.
       if b then ok (Some (t ! Suc j))
       else if mergesWith (fst (t ! j)) (fst (t ! Suc j)) then scan_back cond t j
       else ok None)"

definition map_find :: "nat \<Rightarrow> AddrRange \<Rightarrow> (AddrRange \<Rightarrow> bool res) \<Rightarrow> 'v AddrRangeMap
    \<Rightarrow> ((AddrRange \<times> 'v) option \<times> 'v AddrRangeMap) res" where
  "map_find max_cache_size r cond m =
     bindR (cache_scan cond [] (cache m)) (\<lambda>hit.
       case hit of
         Some (it, c) \<Rightarrow> ok (Some it, m\<lparr>cache := c\<rparr>)
       | None \<Rightarrow>
           (let next = upper_bound (tree m) r;
                found = (\<lambda>it. ok (Some it, m\<lparr>cache := addNewEntryToCache max_cache_size it (cache m)\<rparr>));
                below = (if next = 0 then ok (None, m)
                         else bindR (scan_back cond (tree m) (next - 1))
                                (\<lambda>f. case f of Some it \<Rightarrow> found it | None \<Rightarrow> ok (None, m)))
            in if next < length (tree m) then
                 bindR (cond (fst (tree m ! next)))
                   (\<lambda>b. if b then found (tree m ! next) else below)
               else below))"

definition map_contains :: "nat \<Rightarrow> AddrRange \<Rightarrow> 'v AddrRangeMap
    \<Rightarrow> ((AddrRange \<times> 'v) option \<times> 'v AddrRangeMap) res" where
  "map_contains mcs r m = map_find mcs r (\<lambda>r1. isSubset r r1) m"

definition map_contains_addr :: "nat \<Rightarrow> Addr \<Rightarrow> 'v AddrRangeMap
    \<Rightarrow> ((AddrRange \<times> 'v) option \<times> 'v AddrRangeMap) res" where
  "map_contains_addr mcs a m = map_contains mcs (RangeSize a 1) m"

definition map_intersects :: "nat \<Rightarrow> AddrRange \<Rightarrow> 'v AddrRangeMap
    \<Rightarrow> ((AddrRange \<times> 'v) option \<times> 'v AddrRangeMap) res" where
  "map_intersects mcs r m = map_find mcs r (\<lambda>r1. intersects r r1) m"

text \<open>
  \<^verbatim>\<open>std::map::insert\<close>: an entry whose key is equivalent to an existing one is not inserted, and the
  existing one is returned.
\<close>

fun tree_insert :: "AddrRange \<Rightarrow> 'v \<Rightarrow> (AddrRange \<times> 'v) list
    \<Rightarrow> (AddrRange \<times> 'v) \<times> (AddrRange \<times> 'v) list" where
  "tree_insert r d [] = ((r, d), [(r, d)])"
| "tree_insert r d (e # t) =
     (if range_less r (fst e) then ((r, d), (r, d) # e # t)
      else if range_less (fst e) r then (let (it, t') = tree_insert r d t in (it, e # t'))
      else (e, e # t))"

definition map_insert :: "nat \<Rightarrow> AddrRange \<Rightarrow> 'v \<Rightarrow> 'v AddrRangeMap
    \<Rightarrow> ((AddrRange \<times> 'v) option \<times> 'v AddrRangeMap) res" where
  "map_insert mcs r d m =
     bindR (map_intersects mcs r m) (\<lambda>(hit, m').
       if hit \<noteq> None then ok (None, m')
       else let (it, t') = tree_insert r d (tree m') in ok (Some it, m'\<lparr>tree := t'\<rparr>))"

text \<open>\<^verbatim>\<open>erase(p)\<close> removes the entry from the cache, then from the tree.\<close>

definition map_erase :: "(AddrRange \<times> 'v) \<Rightarrow> 'v AddrRangeMap \<Rightarrow> 'v AddrRangeMap" where
  "map_erase p m = m\<lparr>cache := removeAll p (cache m), tree := remove1 p (tree m)\<rparr>"

definition map_clear :: "'v AddrRangeMap \<Rightarrow> 'v AddrRangeMap" where
  "map_clear m = m\<lparr>cache := [], tree := []\<rparr>"

definition map_size :: "'v AddrRangeMap \<Rightarrow> nat" where
  "map_size m = length (tree m)"

definition map_is_empty :: "'v AddrRangeMap \<Rightarrow> bool" where
  "map_is_empty m \<longleftrightarrow> tree m = []"

section \<open>Well-formed maps\<close>

definition plain :: "AddrRange \<Rightarrow> bool" where
  "plain r \<longleftrightarrow> \<not> interleaved r \<and> range_valid r \<and> intlvMatch r = 0"

text \<open>Entries in order and apart: each ends before the next starts.\<close>

definition apart :: "(AddrRange \<times> 'v) \<Rightarrow> (AddrRange \<times> 'v) \<Rightarrow> bool" where
  "apart e f \<longleftrightarrow> r_end (fst e) < r_start (fst f)"

definition map_wf :: "'v AddrRangeMap \<Rightarrow> bool" where
  "map_wf m \<longleftrightarrow> (\<forall>e\<in>set (tree m). plain (fst e)) \<and> sorted_wrt apart (tree m) \<and>
     set (cache m) \<subseteq> set (tree m)"

lemma plain_less: "plain a \<Longrightarrow> plain b \<Longrightarrow> range_less a b \<longleftrightarrow> r_start a < r_start b"
  by (auto simp: plain_def range_less_def)

lemma plain_isSubset:
  "plain a \<Longrightarrow> plain b \<Longrightarrow> isSubset a b = Inr (r_start b \<le> r_start a \<and> r_end a \<le> r_end b)"
  by (simp add: plain_def isSubset_def)

lemma plain_intersects:
  "plain a \<Longrightarrow> plain b \<Longrightarrow> intersects a b = Inr (r_start a \<le> r_end b \<and> r_start b \<le> r_end a)"
  by (auto simp: plain_def intersects_def not_less)

lemma plain_RangeSize_1: "plain (RangeSize a 1)" "r_start (RangeSize a 1) = a" "r_end (RangeSize a 1) = a"
  by (simp_all add: RangeSize_def AddrRange_simple_def plain_def interleaved_def range_valid_def)

section \<open>The search is exact\<close>

lemma cache_scan_pure:
  assumes "\<forall>e\<in>set c. cond (fst e) = Inr (Q (fst e))"
  shows "(\<exists>it c'. cache_scan cond seen c = Inr (Some (it, c')) \<and> it \<in> set c \<and> Q (fst it) \<and>
            set c' = set seen \<union> set c) \<or>
         (cache_scan cond seen c = Inr None \<and> (\<forall>e\<in>set c. \<not> Q (fst e)))"
  using assms
proof (induction c arbitrary: seen)
  case (Cons it c)
  show ?case
  proof (cases "Q (fst it)")
    case False
    with Cons.prems have "cache_scan cond seen (it # c) = cache_scan cond (seen @ [it]) c" by simp
    with Cons.IH [of "seen @ [it]"] Cons.prems False show ?thesis by force
  qed (use Cons.prems in auto)
qed simp

lemma set_addNewEntryToCache:
  "set (addNewEntryToCache n it c) \<subseteq> insert it (set c)"
  by (auto simp: addNewEntryToCache_def Let_def dest: in_set_butlastD)

lemma sorted_wrt_apart_nth:
  assumes "sorted_wrt apart t" "i < j" "j < length t"
  shows "r_end (fst (t ! i)) < r_start (fst (t ! j))"
  using sorted_wrt_nth_less [OF assms] by (simp add: apart_def)

lemma wf_no_merge:
  assumes "map_wf m" "Suc j < length (tree m)"
  shows "\<not> mergesWith (fst (tree m ! j)) (fst (tree m ! Suc j))"
proof -
  have "plain (fst (tree m ! j))" using assms by (simp add: map_wf_def)
  moreover have "r_end (fst (tree m ! j)) < r_start (fst (tree m ! Suc j))"
    using assms by (intro sorted_wrt_apart_nth) (auto simp: map_wf_def)
  ultimately show ?thesis by (auto simp: mergesWith_def plain_def range_valid_def)
qed

lemma scan_back_pure:
  assumes "map_wf m" "j < length (tree m)"
    and "cond (fst (tree m ! j)) = Inr (Q (fst (tree m ! j)))"
  shows "scan_back cond (tree m) j = Inr (if Q (fst (tree m ! j)) then Some (tree m ! j) else None)"
  using assms wf_no_merge [OF assms(1)] by (cases j) auto

text \<open>
  Where one of the two entries around the upper bound matches as soon as any entry does, the search
  finds a match exactly when there is one, and leaves the map well formed.
\<close>

lemma map_find_exact:
  assumes wf: "map_wf m"
    and cond: "\<forall>e\<in>set (tree m). cond (fst e) = Inr (Q (fst e))"
    and near: "\<And>e. e \<in> set (tree m) \<Longrightarrow> Q (fst e) \<Longrightarrow>
      (let n = upper_bound (tree m) r in
        (n < length (tree m) \<and> Q (fst (tree m ! n))) \<or> (0 < n \<and> Q (fst (tree m ! (n - 1)))))"
  shows "\<exists>res m'. map_find mcs r cond m = Inr (res, m') \<and> tree m' = tree m \<and> map_wf m' \<and>
    (case res of None \<Rightarrow> \<forall>e\<in>set (tree m). \<not> Q (fst e) | Some e \<Rightarrow> e \<in> set (tree m) \<and> Q (fst e))"
proof -
  let ?n = "upper_bound (tree m) r"
  have n: "?n \<le> length (tree m)" by (simp add: upper_bound_def length_takeWhile_le)
  have sub: "set (cache m) \<subseteq> set (tree m)" using wf by (simp add: map_wf_def)
  have wf_cache: "map_wf (m\<lparr>cache := c\<rparr>)" if "set c \<subseteq> set (tree m)" for c
    using wf that by (simp add: map_wf_def)
  have add: "map_wf (m\<lparr>cache := addNewEntryToCache mcs it (cache m)\<rparr>)" if "it \<in> set (tree m)" for it
    using set_addNewEntryToCache [of mcs it "cache m"] that sub by (intro wf_cache) blast
  have cond_c: "\<forall>e\<in>set (cache m). cond (fst e) = Inr (Q (fst e))" using cond sub by blast
  from cache_scan_pure [OF cond_c, of "[]"] show ?thesis
  proof (elim disjE exE conjE)
    fix it c'
    assume h: "cache_scan cond [] (cache m) = Inr (Some (it, c'))" "it \<in> set (cache m)" "Q (fst it)"
      "set c' = set [] \<union> set (cache m)"
    then have "map_find mcs r cond m = Inr (Some it, m\<lparr>cache := c'\<rparr>)" by (simp add: map_find_def)
    with h sub wf_cache [of c'] show ?thesis by fastforce
  next
    assume miss: "cache_scan cond [] (cache m) = Inr None"
    show ?thesis
    proof (cases "?n < length (tree m) \<and> Q (fst (tree m ! ?n))")
      case True
      then have "map_find mcs r cond m =
          Inr (Some (tree m ! ?n), m\<lparr>cache := addNewEntryToCache mcs (tree m ! ?n) (cache m)\<rparr>)"
        using miss cond by (simp add: map_find_def Let_def)
      with True add [of "tree m ! ?n"] show ?thesis by fastforce
    next
      case False
      show ?thesis
      proof (cases "0 < ?n \<and> Q (fst (tree m ! (?n - 1)))")
        case True
        then have lt: "?n - 1 < length (tree m)" using n by linarith
        then have "map_find mcs r cond m =
          Inr (Some (tree m ! (?n - 1)), m\<lparr>cache := addNewEntryToCache mcs (tree m ! (?n - 1)) (cache m)\<rparr>)"
          using miss cond False True scan_back_pure [OF wf lt, of cond Q]
          by (auto simp: map_find_def Let_def)
        with True lt add [of "tree m ! (?n - 1)"] show ?thesis by fastforce
      next
        case none: False
        then have noQ: "\<forall>e\<in>set (tree m). \<not> Q (fst e)"
          using near False by (metis (mono_tags, lifting))
        have "map_find mcs r cond m = Inr (None, m)"
        proof (cases "?n = 0")
          case True
          then show ?thesis using miss cond False by (auto simp: map_find_def Let_def)
        next
          case nz: False
          then have lt: "?n - 1 < length (tree m)" using n by linarith
          then show ?thesis
            using miss cond False nz none scan_back_pure [OF wf lt, of cond Q]
            by (auto simp: map_find_def Let_def)
        qed
        with wf noQ show ?thesis by auto
      qed
    qed
  qed
qed

section \<open>The two searches\<close>

lemma upper_bound_props:
  assumes wf: "map_wf m" and r: "plain r"
  defines "n \<equiv> upper_bound (tree m) r"
  shows "n \<le> length (tree m)"
    and "\<And>i. i < n \<Longrightarrow> r_start (fst (tree m ! i)) \<le> r_start r"
    and "\<And>i. n \<le> i \<Longrightarrow> i < length (tree m) \<Longrightarrow> r_start r < r_start (fst (tree m ! i))"
proof -
  have pl: "plain (fst e)" if "e \<in> set (tree m)" for e using wf that by (simp add: map_wf_def)
  show n: "n \<le> length (tree m)" by (simp add: n_def upper_bound_def length_takeWhile_le)
  show "r_start (fst (tree m ! i)) \<le> r_start r" if "i < n" for i
  proof -
    have "\<not> range_less r (fst (tree m ! i))"
      using that nth_length_takeWhile set_takeWhileD
      unfolding n_def upper_bound_def by (metis nth_mem takeWhile_nth)
    then show ?thesis using that n plain_less [OF r pl [of "tree m ! i"]] by simp
  qed
  show "r_start r < r_start (fst (tree m ! i))" if "n \<le> i" "i < length (tree m)" for i
  proof -
    have "range_less r (fst (tree m ! n))"
      using that nth_length_takeWhile [of "\<lambda>e. \<not> range_less r (fst e)" "tree m"]
      unfolding n_def upper_bound_def by simp
    then have lt: "r_start r < r_start (fst (tree m ! n))"
      using that plain_less [OF r pl [of "tree m ! n"]] by simp
    show ?thesis
    proof (cases "n = i")
      case False
      then have "r_end (fst (tree m ! n)) < r_start (fst (tree m ! i))"
        using wf that by (intro sorted_wrt_apart_nth) (auto simp: map_wf_def)
      with lt pl [of "tree m ! n"] that show ?thesis by (auto simp: plain_def range_valid_def)
    qed (use lt in simp)
  qed
qed

text \<open>An entry that starts at or below the query and reaches its start is the one just below the bound.\<close>

lemma below_bound_unique:
  assumes wf: "map_wf m" and r: "plain r" and e: "e \<in> set (tree m)"
    and "r_start (fst e) \<le> r_start r" "r_start r \<le> r_end (fst e)"
  shows "0 < upper_bound (tree m) r \<and> tree m ! (upper_bound (tree m) r - 1) = e"
proof -
  let ?n = "upper_bound (tree m) r"
  note ub = upper_bound_props [OF wf r]
  obtain i where i: "i < length (tree m)" "tree m ! i = e" using e by (auto simp: in_set_conv_nth)
  have lt: "i < ?n" using ub(3) [of i] i assms(4) by (meson leD not_le_imp_less)
  moreover have "i = ?n - 1"
  proof (rule ccontr)
    assume "i \<noteq> ?n - 1"
    with lt have "i < ?n - 1" by simp
    then have "r_end (fst (tree m ! i)) < r_start (fst (tree m ! (?n - 1)))"
      using wf ub(1) lt by (intro sorted_wrt_apart_nth) (auto simp: map_wf_def)
    moreover have "r_start (fst (tree m ! (?n - 1))) \<le> r_start r" using ub(2) lt by simp
    ultimately show False using i assms(5) by simp
  qed
  ultimately show ?thesis using i by simp
qed

lemma map_contains_exact:
  assumes "map_wf m" "plain r"
  shows "\<exists>res m'. map_contains mcs r m = Inr (res, m') \<and> tree m' = tree m \<and> map_wf m' \<and>
    (case res of
       None \<Rightarrow> \<forall>e\<in>set (tree m). \<not> (r_start (fst e) \<le> r_start r \<and> r_end r \<le> r_end (fst e))
     | Some e \<Rightarrow> e \<in> set (tree m) \<and> r_start (fst e) \<le> r_start r \<and> r_end r \<le> r_end (fst e))"
  unfolding map_contains_def
proof (rule map_find_exact [OF assms(1)])
  show "\<forall>e\<in>set (tree m). isSubset r (fst e) = Inr (r_start (fst e) \<le> r_start r \<and> r_end r \<le> r_end (fst e))"
    using assms by (simp add: map_wf_def plain_isSubset)
  fix e assume e: "e \<in> set (tree m)" "r_start (fst e) \<le> r_start r \<and> r_end r \<le> r_end (fst e)"
  then have "r_start r \<le> r_end (fst e)" using assms(2) by (auto simp: plain_def range_valid_def)
  from below_bound_unique [OF assms e(1) _ this] e(2)
  show "let n = upper_bound (tree m) r in
      (n < length (tree m) \<and> r_start (fst (tree m ! n)) \<le> r_start r \<and> r_end r \<le> r_end (fst (tree m ! n))) \<or>
      (0 < n \<and> r_start (fst (tree m ! (n - 1))) \<le> r_start r \<and> r_end r \<le> r_end (fst (tree m ! (n - 1))))"
    by (simp add: Let_def)
qed

lemma map_intersects_exact:
  assumes "map_wf m" "plain r"
  shows "\<exists>res m'. map_intersects mcs r m = Inr (res, m') \<and> tree m' = tree m \<and> map_wf m' \<and>
    (case res of
       None \<Rightarrow> \<forall>e\<in>set (tree m). \<not> (r_start r \<le> r_end (fst e) \<and> r_start (fst e) \<le> r_end r)
     | Some e \<Rightarrow> e \<in> set (tree m) \<and> r_start r \<le> r_end (fst e) \<and> r_start (fst e) \<le> r_end r)"
  unfolding map_intersects_def
proof (rule map_find_exact [OF assms(1)])
  show "\<forall>e\<in>set (tree m). intersects r (fst e) = Inr (r_start r \<le> r_end (fst e) \<and> r_start (fst e) \<le> r_end r)"
    using assms by (simp add: map_wf_def plain_intersects)
  fix e assume e: "e \<in> set (tree m)" "r_start r \<le> r_end (fst e) \<and> r_start (fst e) \<le> r_end r"
  let ?n = "upper_bound (tree m) r"
  note ub = upper_bound_props [OF assms]
  show "let n = ?n in
      (n < length (tree m) \<and> r_start r \<le> r_end (fst (tree m ! n)) \<and> r_start (fst (tree m ! n)) \<le> r_end r) \<or>
      (0 < n \<and> r_start r \<le> r_end (fst (tree m ! (n - 1))) \<and> r_start (fst (tree m ! (n - 1))) \<le> r_end r)"
  proof (cases "r_start (fst e) \<le> r_start r")
    case True
    from below_bound_unique [OF assms e(1) True] e(2) show ?thesis by (simp add: Let_def)
  next
    case False
    obtain i where i: "i < length (tree m)" "tree m ! i = e" using e by (auto simp: in_set_conv_nth)
    have ni: "?n \<le> i" using ub(2) [of i] i False by (meson not_le_imp_less)
    then have nl: "?n < length (tree m)" using i by simp
    have "r_start (fst (tree m ! ?n)) \<le> r_start (fst e)"
    proof (cases "?n = i")
      case False
      then have "r_end (fst (tree m ! ?n)) < r_start (fst (tree m ! i))"
        using assms ni i by (intro sorted_wrt_apart_nth) (auto simp: map_wf_def)
      moreover have "plain (fst (tree m ! ?n))" using assms nl by (simp add: map_wf_def)
      ultimately show ?thesis using i by (auto simp: plain_def range_valid_def)
    qed (use i in simp)
    moreover have "r_start r < r_start (fst (tree m ! ?n))" using ub(3) nl by simp
    moreover have "plain (fst (tree m ! ?n))" using assms nl by (simp add: map_wf_def)
    ultimately show ?thesis using e(2) nl by (auto simp: Let_def plain_def range_valid_def)
  qed
qed

section \<open>Insertion\<close>

lemma tree_insert_apart:
  assumes "\<forall>e\<in>set t. plain (fst e)" "sorted_wrt apart t" "plain r"
    and "\<forall>e\<in>set t. \<not> (r_start r \<le> r_end (fst e) \<and> r_start (fst e) \<le> r_end r)"
  shows "\<exists>t'. tree_insert r d t = ((r, d), t') \<and> set t' = insert (r, d) (set t) \<and> sorted_wrt apart t'"
  using assms
proof (induction t)
  case (Cons e t)
  have pe: "plain (fst e)" and ov: "\<not> (r_start r \<le> r_end (fst e) \<and> r_start (fst e) \<le> r_end r)"
    using Cons.prems by auto
  consider (before) "r_end r < r_start (fst e)" | (after) "r_end (fst e) < r_start r"
    using ov by force
  then show ?case
  proof cases
    case before
    then have "range_less r (fst e)"
      using pe Cons.prems(3) plain_less [of r "fst e"] by (auto simp: plain_def range_valid_def)
    moreover have "apart (r, d) f" if "f \<in> set (e # t)" for f
    proof (cases "f = e")
      case False
      then have "r_end (fst e) < r_start (fst f)" using that Cons.prems(2) by (auto simp: apart_def)
      then show ?thesis using before pe by (auto simp: apart_def plain_def range_valid_def)
    qed (use before in \<open>simp add: apart_def\<close>)
    ultimately show ?thesis using Cons.prems(2) by simp
  next
    case after
    then have less: "\<not> range_less r (fst e)" "range_less (fst e) r"
      using pe Cons.prems(3) plain_less [of r "fst e"] plain_less [of "fst e" r]
      by (auto simp: plain_def range_valid_def)
    have "\<exists>t'. tree_insert r d t = ((r, d), t') \<and> set t' = insert (r, d) (set t) \<and> sorted_wrt apart t'"
      by (rule Cons.IH) (use Cons.prems in auto)
    then obtain t' where t': "tree_insert r d t = ((r, d), t')" "set t' = insert (r, d) (set t)"
      "sorted_wrt apart t'" by blast
    moreover have "\<forall>f\<in>set t'. apart e f" using t'(2) Cons.prems(2) after by (auto simp: apart_def)
    ultimately show ?thesis using less by auto
  qed
qed simp

definition decode :: "'v AddrRangeMap \<Rightarrow> Addr \<Rightarrow> 'v option" where
  "decode m a = map_option snd (List.find (\<lambda>e. contains (fst e) a) (tree m))"

lemma decode_unique:
  assumes "map_wf m" "e \<in> set (tree m)" "contains (fst e) a"
  shows "decode m a = Some (snd e)"
proof -
  obtain f where f: "List.find (\<lambda>e. contains (fst e) a) (tree m) = Some f"
    using assms(2,3) find_None_iff [of "\<lambda>e. contains (fst e) a" "tree m"] by fastforce
  then have f': "f \<in> set (tree m)" "contains (fst f) a" by (auto simp: find_Some_iff)
  obtain i j where ij: "i < length (tree m)" "tree m ! i = e" "j < length (tree m)" "tree m ! j = f"
    using assms(2) f'(1) by (auto simp: in_set_conv_nth)
  have "i = j"
  proof (rule ccontr)
    assume "i \<noteq> j"
    then have "r_end (fst e) < r_start (fst f) \<or> r_end (fst f) < r_start (fst e)"
      using assms(1) ij sorted_wrt_apart_nth [of "tree m"] by (metis linorder_neqE_nat map_wf_def)
    with contains_in_range [OF assms(3)] contains_in_range [OF f'(2)] show False by auto
  qed
  with ij f show ?thesis by (simp add: decode_def)
qed

lemma decode_None: "decode m a = None \<longleftrightarrow> (\<forall>e\<in>set (tree m). \<not> contains (fst e) a)"
  by (auto simp: decode_def find_None_iff)

lemma decode_cong_tree: "tree m' = tree m \<Longrightarrow> decode m' = decode m"
  by (simp add: decode_def fun_eq_iff)

text \<open>The address queries a decoder offers to its clients, with the iterator read as a value.\<close>

definition decoder_lookup :: "nat \<Rightarrow> Addr \<Rightarrow> 'v AddrRangeMap \<Rightarrow> ('v option \<times> 'v AddrRangeMap) res" where
  "decoder_lookup mcs a m = bindR (map_contains_addr mcs a m) (\<lambda>(it, m'). ok (map_option snd it, m'))"

definition decoder_insert :: "nat \<Rightarrow> AddrRange \<Rightarrow> 'v \<Rightarrow> 'v AddrRangeMap \<Rightarrow> (bool \<times> 'v AddrRangeMap) res" where
  "decoder_insert mcs r d m = bindR (map_insert mcs r d m) (\<lambda>(it, m'). ok (it \<noteq> None, m'))"

lemma decoder_lookup_exact:
  assumes "map_wf m"
  shows "\<exists>m'. decoder_lookup mcs a m = Inr (decode m a, m') \<and> map_wf m' \<and> tree m' = tree m"
proof -
  obtain res m' where f: "map_contains mcs (RangeSize a 1) m = Inr (res, m')" "tree m' = tree m" "map_wf m'"
    and c: "case res of None \<Rightarrow> \<forall>e\<in>set (tree m). \<not> (r_start (fst e) \<le> a \<and> a \<le> r_end (fst e))
       | Some e \<Rightarrow> e \<in> set (tree m) \<and> r_start (fst e) \<le> a \<and> a \<le> r_end (fst e)"
    using map_contains_exact [OF assms plain_RangeSize_1(1), of mcs a]
    unfolding plain_RangeSize_1 by blast
  have pl: "contains (fst e) a \<longleftrightarrow> r_start (fst e) \<le> a \<and> a \<le> r_end (fst e)" if "e \<in> set (tree m)" for e
    using assms that by (auto simp: map_wf_def plain_def contains_plain)
  have "map_option snd res = decode m a"
  proof (cases res)
    case None
    with c pl have "decode m a = None" by (auto simp: decode_None)
    with None show ?thesis by simp
  next
    case (Some e)
    with c pl [of e] decode_unique [OF assms, of e a] show ?thesis by simp
  qed
  with f show ?thesis by (simp add: decoder_lookup_def map_contains_addr_def)
qed

lemma decoder_insert_exact:
  assumes "map_wf m" "plain r"
  shows "\<exists>m' b. decoder_insert mcs r d m = Inr (b, m') \<and> map_wf m' \<and>
    (b \<longleftrightarrow> (\<forall>a. contains r a \<longrightarrow> decode m a = None)) \<and>
    decode m' = (\<lambda>a. if b \<and> contains r a then Some d else decode m a)"
proof -
  obtain res m1 where f: "map_intersects mcs r m = Inr (res, m1)" "tree m1 = tree m" "map_wf m1"
    and c: "case res of
       None \<Rightarrow> \<forall>e\<in>set (tree m). \<not> (r_start r \<le> r_end (fst e) \<and> r_start (fst e) \<le> r_end r)
     | Some e \<Rightarrow> e \<in> set (tree m) \<and> r_start r \<le> r_end (fst e) \<and> r_start (fst e) \<le> r_end r"
    using map_intersects_exact [OF assms, of mcs] by blast
  have pl: "plain (fst e)" if "e \<in> set (tree m)" for e using assms that by (simp add: map_wf_def)
  have free: "(\<forall>a. contains r a \<longrightarrow> decode m a = None) \<longleftrightarrow> res = None"
  proof (cases res)
    case None
    have "decode m a = None" if "contains r a" for a
      unfolding decode_None
    proof
      fix e assume e: "e \<in> set (tree m)"
      with None c have "\<not> (r_start r \<le> r_end (fst e) \<and> r_start (fst e) \<le> r_end r)" by simp
      with contains_in_range [OF that] contains_in_range [of "fst e" a] show "\<not> contains (fst e) a"
        by (meson order_trans)
    qed
    with None show ?thesis by simp
  next
    case (Some e)
    let ?a = "max (r_start r) (r_start (fst e))"
    have "contains r ?a" "contains (fst e) ?a" "e \<in> set (tree m)"
      using c Some pl [of e] assms(2) by (auto simp: plain_def contains_plain range_valid_def max_def)
    then have "contains r ?a \<and> decode m ?a \<noteq> None" by (auto simp: decode_None)
    then have "\<not> (\<forall>a. contains r a \<longrightarrow> decode m a = None)" by metis
    with Some show ?thesis by simp
  qed
  show ?thesis
  proof (cases res)
    case (Some e)
    then have "decoder_insert mcs r d m = Inr (False, m1)"
      using f(1) by (simp add: decoder_insert_def map_insert_def)
    moreover have "decode m1 = decode m" by (rule decode_cong_tree [OF f(2)])
    moreover have "\<not> (\<forall>a. contains r a \<longrightarrow> decode m a = None)" using free Some by simp
    ultimately show ?thesis using f(3) by (intro exI [of _ m1] exI [of _ False]) simp
  next
    case None
    have t1: "\<forall>e\<in>set (tree m1). plain (fst e)" "sorted_wrt apart (tree m1)" "set (cache m1) \<subseteq> set (tree m1)"
      using f(3) by (auto simp: map_wf_def)
    obtain t' where t': "tree_insert r d (tree m1) = ((r, d), t')" "set t' = insert (r, d) (set (tree m1))"
      "sorted_wrt apart t'"
      using tree_insert_apart [OF t1(1,2) assms(2), of d] c None f(2) by auto
    let ?m = "m1\<lparr>tree := t'\<rparr>"
    have wf': "map_wf ?m" using t1 t' assms(2) by (auto simp: map_wf_def)
    have "decode ?m a = (if contains r a then Some d else decode m a)" for a
    proof (cases "contains r a")
      case True
      then show ?thesis using decode_unique [OF wf', of "(r, d)" a] t' by simp
    next
      case False
      show ?thesis
      proof (cases "decode m a")
        case None
        then have "decode ?m a = None" using False t' f(2) by (auto simp: decode_None)
        with None False show ?thesis by simp
      next
        case (Some v)
        then obtain e where "e \<in> set (tree m)" "contains (fst e) a" by (metis decode_None option.distinct(1))
        then have "decode ?m a = Some (snd e)" "decode m a = Some (snd e)"
          using decode_unique [OF wf', of e a] decode_unique [OF assms(1), of e a] t' f(2) by auto
        with False show ?thesis by simp
      qed
    qed
    moreover have "decoder_insert mcs r d m = Inr (True, ?m)"
      using None f(1) t'(1) by (simp add: decoder_insert_def map_insert_def)
    moreover have "\<forall>a. contains r a \<longrightarrow> decode m a = None" using free None by blast
    ultimately show ?thesis using wf' by (intro exI [of _ ?m] exI [of _ True]) (simp add: fun_eq_iff)
  qed
qed

section \<open>The decoder interface\<close>

text \<open>
  What a client of the map relies on: a lookup answers for the decoded function and never stops, an
  insertion takes effect exactly when the range is free. The client's lemma is about registering a
  list of ranges one after the other, stopping at the first refusal, as the constructor of
  \<^verbatim>\<open>PhysicalMemory\<close> does.
\<close>

locale addr_decoder =
  fixes inv :: "'m \<Rightarrow> bool"
    and dec :: "'m \<Rightarrow> Addr \<Rightarrow> 'v option"
    and look :: "Addr \<Rightarrow> 'm \<Rightarrow> ('v option \<times> 'm) res"
    and ins :: "AddrRange \<Rightarrow> 'v \<Rightarrow> 'm \<Rightarrow> (bool \<times> 'm) res"
  assumes look_ok: "inv m \<Longrightarrow> \<exists>m'. look a m = Inr (dec m a, m') \<and> inv m' \<and> dec m' = dec m"
    and ins_ok: "inv m \<Longrightarrow> plain r \<Longrightarrow>
      \<exists>m' b. ins r d m = Inr (b, m') \<and> inv m' \<and> (b \<longleftrightarrow> (\<forall>a. contains r a \<longrightarrow> dec m a = None)) \<and>
        dec m' = (\<lambda>a. if b \<and> contains r a then Some d else dec m a)"
begin

fun register :: "(AddrRange \<times> 'v) list \<Rightarrow> 'm \<Rightarrow> 'm res" where
  "register [] m = ok m"
| "register ((r, d) # rs) m =
     bindR (ins r d m) (\<lambda>(b, m'). if b then register rs m' else fail FatalError)"

lemma register_disjoint:
  assumes "inv m" "\<forall>e\<in>set rs. plain (fst e)"
    and "\<forall>e\<in>set rs. \<forall>a. contains (fst e) a \<longrightarrow> dec m a = None"
    and "sorted_wrt (\<lambda>e f. \<forall>a. \<not> (contains (fst e) a \<and> contains (fst f) a)) rs"
  shows "\<exists>m'. register rs m = Inr m' \<and> inv m' \<and>
    (\<forall>e\<in>set rs. \<forall>a. contains (fst e) a \<longrightarrow> dec m' a = Some (snd e)) \<and>
    (\<forall>a. (\<forall>e\<in>set rs. \<not> contains (fst e) a) \<longrightarrow> dec m' a = dec m a)"
  using assms
proof (induction rs arbitrary: m)
  case (Cons e rs)
  obtain r d where e: "e = (r, d)" by (cases e)
  obtain m1 where m1: "ins r d m = Inr (True, m1)" "inv m1"
    "dec m1 = (\<lambda>a. if contains r a then Some d else dec m a)"
    using ins_ok [OF Cons.prems(1), of r d] Cons.prems(2,3) e by auto
  have "\<exists>m'. register rs m1 = Inr m' \<and> inv m' \<and>
    (\<forall>e\<in>set rs. \<forall>a. contains (fst e) a \<longrightarrow> dec m' a = Some (snd e)) \<and>
    (\<forall>a. (\<forall>e\<in>set rs. \<not> contains (fst e) a) \<longrightarrow> dec m' a = dec m1 a)"
    by (rule Cons.IH) (use Cons.prems m1 e in auto)
  then obtain m' where "register rs m1 = Inr m'" "inv m'"
    "\<forall>e\<in>set rs. \<forall>a. contains (fst e) a \<longrightarrow> dec m' a = Some (snd e)"
    "\<forall>a. (\<forall>e\<in>set rs. \<not> contains (fst e) a) \<longrightarrow> dec m' a = dec m1 a" by blast
  then show ?case using m1 e Cons.prems(4) by auto
qed simp

lemma register_overlap:
  assumes "inv m" "\<forall>e\<in>set rs. plain (fst e)"
    and "\<not> sorted_wrt (\<lambda>e f. \<forall>a. \<not> (contains (fst e) a \<and> contains (fst f) a)) rs \<or>
      (\<exists>e\<in>set rs. \<exists>a. contains (fst e) a \<and> dec m a \<noteq> None)"
  shows "register rs m = Inl FatalError"
  using assms
proof (induction rs arbitrary: m)
  case (Cons e rs)
  obtain r d where e: "e = (r, d)" by (cases e)
  obtain m1 b where m1: "ins r d m = Inr (b, m1)" "inv m1" "b \<longleftrightarrow> (\<forall>a. contains r a \<longrightarrow> dec m a = None)"
    "dec m1 = (\<lambda>a. if b \<and> contains r a then Some d else dec m a)"
    using ins_ok [OF Cons.prems(1), of r d] Cons.prems(2) e by auto
  show ?case
  proof (cases b)
    case True
    then have "\<not> sorted_wrt (\<lambda>e f. \<forall>a. \<not> (contains (fst e) a \<and> contains (fst f) a)) rs \<or>
      (\<exists>e\<in>set rs. \<exists>a. contains (fst e) a \<and> dec m1 a \<noteq> None)"
      using Cons.prems(3) e m1(3,4) by auto
    with Cons.IH [OF m1(2) _ this] show ?thesis using Cons.prems(2) e m1(1) True by simp
  qed (use e m1(1) in simp)
qed simp

end

interpretation arm: addr_decoder map_wf decode "decoder_lookup mcs" "decoder_insert mcs" for mcs
proof
  fix m :: "'v AddrRangeMap" and a
  assume "map_wf m"
  then show "\<exists>m'. decoder_lookup mcs a m = Inr (decode m a, m') \<and> map_wf m' \<and> decode m' = decode m"
    using decoder_lookup_exact decode_cong_tree by metis
next
  fix m :: "'v AddrRangeMap" and r d
  assume "map_wf m" "plain r"
  then show "\<exists>m' b. decoder_insert mcs r d m = Inr (b, m') \<and> map_wf m' \<and>
      (b \<longleftrightarrow> (\<forall>a. contains r a \<longrightarrow> decode m a = None)) \<and>
      decode m' = (\<lambda>a. if b \<and> contains r a then Some d else decode m a)"
    by (rule decoder_insert_exact)
qed

lemma map_empty_wf: "map_wf map_empty" "decode map_empty = (\<lambda>_. None)"
  by (simp_all add: map_wf_def map_empty_def decode_def fun_eq_iff)

lemma sorted_wrt_remove1: "sorted_wrt P xs \<Longrightarrow> sorted_wrt P (remove1 x xs)"
  by (induction xs) (auto dest: notin_set_remove1)

lemma map_erase_wf:
  assumes "map_wf m"
  shows "map_wf (map_erase p m)"
proof -
  have "set (removeAll p (cache m)) \<subseteq> set (remove1 p (tree m))"
  proof
    fix e assume "e \<in> set (removeAll p (cache m))"
    then have "e \<noteq> p" "e \<in> set (tree m)" using assms by (auto simp: map_wf_def)
    then show "e \<in> set (remove1 p (tree m))" by simp
  qed
  then show ?thesis
    using assms by (auto simp: map_wf_def map_erase_def sorted_wrt_remove1 dest: notin_set_remove1)
qed

lemma map_clear_wf: "map_wf (map_clear m)"
  by (simp add: map_wf_def map_clear_def)

text \<open>C13: In a map of plain, disjoint ranges a lookup never stops and answers with the value of the one
  range that holds the address, whatever the lookup cache holds and whatever its size; it changes the
  cache only, never what the map decodes.\<close>
theorem lookup_refines_decode:
  assumes "map_wf m"
  shows "\<exists>m'. decoder_lookup mcs a m = Inr (decode m a, m') \<and> map_wf m' \<and> decode m' = decode m"
  by (rule arm.look_ok [OF assms])

definition two_ranges :: "nat AddrRangeMap" where
  "two_ranges = \<lparr>tree = [(AddrRange_simple 0 0xff, 1), (AddrRange_simple 0x200 0x2ff, 2)],
     cache = [(AddrRange_simple 0 0xff, 1)]\<rparr>"

lemma two_ranges_wf: "map_wf two_ranges" "decode two_ranges 0x210 = Some 2"
  by (simp_all add: two_ranges_def map_wf_def apart_def plain_def AddrRange_simple_def interleaved_def
      range_valid_def decode_def contains_def)

theorem lookup_refines_decode_witness:
  "\<exists>m'. decoder_lookup 1 0x210 two_ranges = Inr (Some 2, m') \<and> map_wf m' \<and> decode m' = decode two_ranges"
  using lookup_refines_decode [OF two_ranges_wf(1), where mcs = 1 and a = "0x210"] two_ranges_wf(2) by simp

end
