(* ===== verification/Physical_Mem.thy ===== *)
theory Physical_Mem
  imports Addr_Range_Map Abstract_Mem
begin

text \<open>
  The physical memory of \<^verbatim>\<open>src/mem/physical.cc\<close>: all memories of the system behind one address map.
  The constructor registers the ranges, stops on overlapping ones, and gives every memory its
  backing store; the memories of one interleaving share one. An access goes to the memory whose range
  holds it.

  Memories are numbered, and the value of the address map is that number. A backing store is a list
  of bytes shared by number, so that the aliasing of interleaved memories is in the model: an access
  works on the bytes of the store and puts them back. \<^verbatim>\<open>mmap\<close> is a parameter that says which sizes
  it grants; fresh pages are zero. The constructor is a client of the locale \<open>addr_decoder\<close>.
\<close>

section \<open>State\<close>

record MemObj =
  mo_mem :: AbstractMemory
  mo_store :: "nat option"
  isInAddrMap :: bool
  isConfReported :: bool
  isKvmMap :: bool
  isNull :: bool

record BackingStoreEntry =
  bs_range :: AddrRange
  bs_pmem :: "u8 list"
  bs_confTableReported :: bool
  bs_inAddrMap :: bool
  bs_kvmMap :: bool

record PhysicalMemory =
  pm_addrMap :: "nat AddrRangeMap"
  pm_objs :: "MemObj list"
  pm_memories :: "nat list"
  pm_size :: u64
  backingStore :: "BackingStoreEntry list"

text \<open>A memory with the bytes its pointer points to.\<close>

definition obj_mem :: "PhysicalMemory \<Rightarrow> nat \<Rightarrow> AbstractMemory" where
  "obj_mem pm i = (mo_mem (pm_objs pm ! i))\<lparr>pmem :=
     map_option (\<lambda>s. bs_pmem (backingStore pm ! s)) (mo_store (pm_objs pm ! i))\<rparr>"

definition put_mem :: "nat \<Rightarrow> AbstractMemory \<Rightarrow> PhysicalMemory \<Rightarrow> PhysicalMemory" where
  "put_mem i m pm =
     (let o' = (pm_objs pm ! i)\<lparr>mo_mem := m\<lparr>pmem := None\<rparr>\<rparr>;
          bs = (case (mo_store (pm_objs pm ! i), pmem m) of
                  (Some s, Some bytes) \<Rightarrow> (backingStore pm)[s := (backingStore pm ! s)\<lparr>bs_pmem := bytes\<rparr>]
                | _ \<Rightarrow> backingStore pm)
      in pm\<lparr>pm_objs := (pm_objs pm)[i := o'], backingStore := bs\<rparr>)"

section \<open>Construction\<close>

text \<open>\<^verbatim>\<open>m->setBackingStore(pmem)\<close> for every memory of the list.\<close>

definition point_to :: "nat \<Rightarrow> nat list \<Rightarrow> MemObj list \<Rightarrow> MemObj list" where
  "point_to s ms objs = fold (\<lambda>i os. os[i := (os ! i)\<lparr>mo_store := Some s\<rparr>]) ms objs"

definition createBackingStore :: "(u64 \<Rightarrow> bool) \<Rightarrow> AddrRange \<Rightarrow> nat list \<Rightarrow> bool \<Rightarrow> bool \<Rightarrow> bool
    \<Rightarrow> PhysicalMemory \<Rightarrow> PhysicalMemory res" where
  "createBackingStore mmap_ok rng ms conf_table_reported in_addr_map kvm_map pm =
     (if interleaved rng then fail Panicked
      else if \<not> mmap_ok (range_size rng) then fail FatalError
      else ok (pm\<lparr>backingStore := backingStore pm @
                  [\<lparr>bs_range = rng, bs_pmem = replicate (unat (range_size rng)) 0,
                    bs_confTableReported = conf_table_reported, bs_inAddrMap = in_addr_map, bs_kvmMap = kvm_map\<rparr>],
                pm_objs := point_to (length (backingStore pm)) ms (pm_objs pm)\<rparr>))"

definition add_memory :: "(u64 \<Rightarrow> bool) \<Rightarrow> nat \<Rightarrow> PhysicalMemory \<Rightarrow> PhysicalMemory res" where
  "add_memory mmap_ok i pm =
     (let m = pm_objs pm ! i; r = am_range (mo_mem m) in
      if isInAddrMap m then
        bindR (map_insert 1 r i (pm_addrMap pm)) (\<lambda>(it, mp).
          if it = None then fail FatalError
          else ok (pm\<lparr>pm_memories := pm_memories pm @ [i], pm_size := pm_size pm + range_size r, pm_addrMap := mp\<rparr>))
      else if interleaved r then fail FatalError
      else createBackingStore mmap_ok r [i] (isConfReported m) (isInAddrMap m) (isKvmMap m) pm)"

primrec add_memories :: "(u64 \<Rightarrow> bool) \<Rightarrow> nat list \<Rightarrow> PhysicalMemory \<Rightarrow> PhysicalMemory res" where
  "add_memories mmap_ok [] pm = ok pm"
| "add_memories mmap_ok (i # is) pm = bindR (add_memory mmap_ok i pm) (add_memories mmap_ok is)"

text \<open>The stripes collected so far are merged, their memories must agree on their flags.\<close>

definition store_merged :: "(u64 \<Rightarrow> bool) \<Rightarrow> AddrRange list \<Rightarrow> nat list \<Rightarrow> PhysicalMemory \<Rightarrow> PhysicalMemory res" where
  "store_merged mmap_ok intlv_ranges curr_memories pm =
     bindR (AddrRange_merge intlv_ranges) (\<lambda>merged_range.
     bindR (vec_at curr_memories 0) (\<lambda>fi.
     (let f = pm_objs pm ! fi in
      if list_ex (\<lambda>c. isConfReported f \<noteq> isConfReported (pm_objs pm ! c) \<or> isInAddrMap f \<noteq> isInAddrMap (pm_objs pm ! c) \<or>
           isKvmMap f \<noteq> isKvmMap (pm_objs pm ! c)) curr_memories
      then fail FatalError
      else createBackingStore mmap_ok merged_range curr_memories (isConfReported f) (isInAddrMap f) (isKvmMap f) pm)))"

fun create_stores :: "(u64 \<Rightarrow> bool) \<Rightarrow> (AddrRange \<times> nat) list \<Rightarrow> AddrRange list \<Rightarrow> nat list
    \<Rightarrow> PhysicalMemory \<Rightarrow> PhysicalMemory res" where
  "create_stores mmap_ok [] rs ms pm = (if rs = [] then ok pm else store_merged mmap_ok rs ms pm)"
| "create_stores mmap_ok ((r, i) # es) rs ms pm =
     (if isNull (pm_objs pm ! i) then create_stores mmap_ok es rs ms pm
      else if interleaved r then
        (if rs \<noteq> [] \<and> \<not> mergesWith (last rs) r then
           bindR (store_merged mmap_ok rs ms pm) (\<lambda>pm'. create_stores mmap_ok es [r] [i] pm')
         else create_stores mmap_ok es (rs @ [r]) (ms @ [i]) pm)
      else
        (let m = pm_objs pm ! i in
         bindR (createBackingStore mmap_ok r [i] (isConfReported m) (isInAddrMap m) (isKvmMap m) pm) (\<lambda>pm'.
           create_stores mmap_ok es rs ms pm')))"

definition PhysicalMemory_new :: "(u64 \<Rightarrow> bool) \<Rightarrow> MemObj list \<Rightarrow> PhysicalMemory res" where
  "PhysicalMemory_new mmap_ok objs =
     bindR (add_memories mmap_ok [0..<length objs]
              \<lparr>pm_addrMap = map_empty, pm_objs = objs, pm_memories = [], pm_size = 0, backingStore = []\<rparr>) (\<lambda>pm.
       create_stores mmap_ok (tree (pm_addrMap pm)) [] [] pm)"

section \<open>Use\<close>

definition isMemAddr :: "Addr \<Rightarrow> PhysicalMemory \<Rightarrow> (bool \<times> PhysicalMemory) res" where
  "isMemAddr a pm = bindR (map_contains_addr 1 a (pm_addrMap pm)) (\<lambda>(it, mp). ok (it \<noteq> None, pm\<lparr>pm_addrMap := mp\<rparr>))"

fun conf_ranges :: "PhysicalMemory \<Rightarrow> (AddrRange \<times> nat) list \<Rightarrow> AddrRange list \<Rightarrow> AddrRange list \<Rightarrow> AddrRange list res" where
  "conf_ranges pm [] rs out =
     (if rs = [] then ok out else bindR (AddrRange_merge rs) (\<lambda>m. ok (out @ [m])))"
| "conf_ranges pm ((r, i) # es) rs out =
     (if isConfReported (pm_objs pm ! i) then
        (if interleaved r then
           (if rs \<noteq> [] \<and> \<not> mergesWith (last rs) r then
              bindR (AddrRange_merge rs) (\<lambda>m. conf_ranges pm es [r] (out @ [m]))
            else conf_ranges pm es (rs @ [r]) out)
         else conf_ranges pm es rs (out @ [r]))
      else conf_ranges pm es rs out)"

definition getConfAddrRanges :: "PhysicalMemory \<Rightarrow> AddrRange list res" where
  "getConfAddrRanges pm = conf_ranges pm (tree (pm_addrMap pm)) [] []"

definition phys_access :: "Packet \<Rightarrow> PhysicalMemory \<Rightarrow> (PhysicalMemory \<times> Packet \<times> int list) res" where
  "phys_access pkt pm =
     assertR (isRequest (pcmd pkt))
     (bindR (getAddr pkt) (\<lambda>a. bindR (getSize pkt) (\<lambda>n.
      bindR (map_contains 1 (RangeSize a (ucast n)) (pm_addrMap pm)) (\<lambda>(it, mp).
        case it of
          None \<Rightarrow> fail AssertFailed
        | Some (r, i) \<Rightarrow>
            bindR (access pkt (obj_mem pm i)) (\<lambda>(m', p', cl).
              ok (put_mem i m' (pm\<lparr>pm_addrMap := mp\<rparr>), p', cl))))))"

definition phys_functionalAccess :: "('c \<Rightarrow> Addr \<Rightarrow> bool) \<Rightarrow> 'c flush_op \<Rightarrow> (string \<Rightarrow> 'c host_cpu option)
    \<Rightarrow> Packet \<Rightarrow> PhysicalMemory
    \<Rightarrow> (PhysicalMemory \<times> Packet option \<times> (('c \<times> Packet list) list \<times> int) option) res" where
  "phys_functionalAccess check flush find_obj pkt pm =
     assertR (isRequest (pcmd pkt))
     (bindR (getAddr pkt) (\<lambda>a. bindR (getSize pkt) (\<lambda>n.
      bindR (map_contains 1 (RangeSize a (ucast n)) (pm_addrMap pm)) (\<lambda>(it, mp).
        case it of
          None \<Rightarrow> fail AssertFailed
        | Some (r, i) \<Rightarrow>
            bindR (functionalAccess check flush find_obj pkt (obj_mem pm i)) (\<lambda>(m', p', fin).
              ok (put_mem i m' (pm\<lparr>pm_addrMap := mp\<rparr>), p', fin))))))"

section \<open>Registration\<close>

definition ranges_of :: "MemObj list \<Rightarrow> nat list \<Rightarrow> (AddrRange \<times> nat) list" where
  "ranges_of objs is = map (\<lambda>i. (am_range (mo_mem (objs ! i)), i)) is"

text \<open>For memories in the global map, the first loop registers their ranges and touches nothing else.\<close>

lemma add_memories_register:
  assumes "\<forall>i \<in> set is. isInAddrMap (pm_objs pm ! i)" "arm.register 1 (ranges_of (pm_objs pm) is) (pm_addrMap pm) = Inr mp"
  shows "\<exists>ms s. add_memories mmap_ok is pm = Inr (pm\<lparr>pm_memories := ms, pm_size := s, pm_addrMap := mp\<rparr>)"
  using assms
proof (induction "is" arbitrary: pm)
  case (Cons i "is")
  let ?r = "am_range (mo_mem (pm_objs pm ! i))"
  obtain b mp1 where d: "decoder_insert 1 ?r i (pm_addrMap pm) = Inr (b, mp1)" "b"
    "arm.register 1 (ranges_of (pm_objs pm) is) mp1 = Inr mp"
    using Cons.prems(2) by (auto simp: ranges_of_def bindR_eq_Inr split: if_splits)
  obtain it where it: "map_insert 1 ?r i (pm_addrMap pm) = Inr (Some it, mp1)"
    using d(1,2) by (auto simp: decoder_insert_def bindR_eq_Inr)
  let ?pm = "pm\<lparr>pm_memories := pm_memories pm @ [i], pm_size := pm_size pm + range_size ?r, pm_addrMap := mp1\<rparr>"
  have "add_memory mmap_ok i pm = Inr ?pm" using Cons.prems(1) it by (simp add: add_memory_def)
  moreover have "\<exists>ms s. add_memories mmap_ok is ?pm = Inr (?pm\<lparr>pm_memories := ms, pm_size := s, pm_addrMap := mp\<rparr>)"
    using Cons.prems(1) d(3) by (intro Cons.IH) simp_all
  ultimately show ?case by auto
next
  case Nil
  then have "pm = pm\<lparr>pm_memories := pm_memories pm, pm_size := pm_size pm, pm_addrMap := mp\<rparr>" by (simp add: ranges_of_def)
  then show ?case by (metis add_memories.simps(1))
qed


lemma decoder_insert_tree:
  assumes "map_wf m" "plain r" "decoder_insert mcs r d m = Inr (True, m')"
  shows "set (tree m') = insert (r, d) (set (tree m)) \<and> map_wf m'"
proof -
  obtain hit m1 where f: "map_intersects mcs r m = Inr (hit, m1)" "tree m1 = tree m" "map_wf m1"
    and c: "case hit of
       None \<Rightarrow> \<forall>e\<in>set (tree m). \<not> (r_start r \<le> r_end (fst e) \<and> r_start (fst e) \<le> r_end r)
     | Some e \<Rightarrow> e \<in> set (tree m) \<and> r_start r \<le> r_end (fst e) \<and> r_start (fst e) \<le> r_end r"
    using map_intersects_exact [OF assms(1,2), of mcs] by blast
  have h: "hit = None" using assms(3) f(1) by (cases hit) (auto simp: decoder_insert_def map_insert_def)
  have t1: "\<forall>e\<in>set (tree m1). plain (fst e)" "sorted_wrt apart (tree m1)" "set (cache m1) \<subseteq> set (tree m1)"
    using f(3) by (auto simp: map_wf_def)
  obtain t' where t': "tree_insert r d (tree m1) = ((r, d), t')" "set t' = insert (r, d) (set (tree m1))" "sorted_wrt apart t'"
    using tree_insert_apart [OF t1(1,2) assms(2), of d] c h f(2) by auto
  then have "m' = m1\<lparr>tree := t'\<rparr>" using assms(3) f(1) h by (auto simp: decoder_insert_def map_insert_def)
  then show ?thesis using t' f(2) t1 assms(2) by (auto simp: map_wf_def)
qed

lemma register_tree:
  assumes "map_wf m" "\<forall>e \<in> set rs. plain (fst e)" "arm.register mcs rs m = Inr m'"
  shows "set (tree m') = set (tree m) \<union> set rs \<and> map_wf m'"
  using assms
proof (induction rs arbitrary: m)
  case (Cons e rs)
  obtain r d where e: "e = (r, d)" by (cases e)
  obtain m1 where m1: "decoder_insert mcs r d m = Inr (True, m1)" "arm.register mcs rs m1 = Inr m'"
    using Cons.prems(3) e by (auto simp: bindR_eq_Inr split: if_splits)
  have t: "set (tree m1) = insert (r, d) (set (tree m))" "map_wf m1"
    using decoder_insert_tree [OF Cons.prems(1) _ m1(1)] Cons.prems(2) e by auto
  then show ?case using Cons.IH [OF t(2) _ m1(2)] Cons.prems(2) e by auto
qed simp

section \<open>Backing stores of plain memories\<close>

definition store_entry :: "MemObj list \<Rightarrow> AddrRange \<times> nat \<Rightarrow> BackingStoreEntry" where
  "store_entry objs e = \<lparr>bs_range = fst e, bs_pmem = replicate (unat (range_size (fst e))) 0,
     bs_confTableReported = isConfReported (objs ! snd e), bs_inAddrMap = isInAddrMap (objs ! snd e),
     bs_kvmMap = isKvmMap (objs ! snd e)\<rparr>"

lemma create_stores_plain:
  assumes "\<forall>(r, i) \<in> set es. \<not> interleaved r \<and> \<not> isNull (pm_objs pm ! i) \<and> i < length (pm_objs pm) \<and> mmap_ok (range_size r)"
    and "distinct (map snd es)"
  shows "\<exists>objs'. create_stores mmap_ok es [] [] pm =
      Inr (pm\<lparr>backingStore := backingStore pm @ map (store_entry (pm_objs pm)) es, pm_objs := objs'\<rparr>) \<and>
    length objs' = length (pm_objs pm) \<and>
    (\<forall>k < length es. objs' ! snd (es ! k) = (pm_objs pm ! snd (es ! k))\<lparr>mo_store := Some (length (backingStore pm) + k)\<rparr>) \<and>
    (\<forall>i. i \<notin> snd ` set es \<longrightarrow> objs' ! i = pm_objs pm ! i)"
  using assms
proof (induction es arbitrary: pm)
  case (Cons e es)
  obtain r i where e: "e = (r, i)" by (cases e)
  let ?n = "length (backingStore pm)"
  let ?objs = "(pm_objs pm)[i := (pm_objs pm ! i)\<lparr>mo_store := Some ?n\<rparr>]"
  let ?pm = "pm\<lparr>backingStore := backingStore pm @ [store_entry (pm_objs pm) e], pm_objs := ?objs\<rparr>"
  have pr: "\<not> interleaved r" "\<not> isNull (pm_objs pm ! i)" "i < length (pm_objs pm)" "mmap_ok (range_size r)"
    using Cons.prems(1) e by auto
  have st: "create_stores mmap_ok (e # es) [] [] pm = create_stores mmap_ok es [] [] ?pm"
    using pr e by (simp add: createBackingStore_def point_to_def store_entry_def Let_def)
  have oth: "j \<noteq> i \<Longrightarrow> ?objs ! j = pm_objs pm ! j" for j by simp
  have ne: "i \<notin> snd ` set es" "distinct (map snd es)" using Cons.prems(2) e by (simp_all add: image_iff)
  have "\<forall>(r, j) \<in> set es. \<not> interleaved r \<and> \<not> isNull (pm_objs ?pm ! j) \<and> j < length (pm_objs ?pm) \<and> mmap_ok (range_size r)"
  proof (clarify, goal_cases)
    case (1 r' j)
    then have "j \<noteq> i" using ne(1) by (metis image_eqI snd_conv)
    then show ?case using Cons.prems(1) 1 oth by auto
  qed
  from Cons.IH [OF this ne(2)] obtain objs' where o: "create_stores mmap_ok es [] [] ?pm =
      Inr (?pm\<lparr>backingStore := backingStore ?pm @ map (store_entry ?objs) es, pm_objs := objs'\<rparr>)"
    "length objs' = length ?objs"
    "\<forall>k < length es. objs' ! snd (es ! k) = (?objs ! snd (es ! k))\<lparr>mo_store := Some (length (backingStore ?pm) + k)\<rparr>"
    "\<forall>i. i \<notin> snd ` set es \<longrightarrow> objs' ! i = ?objs ! i" by auto
  have se: "map (store_entry ?objs) es = map (store_entry (pm_objs pm)) es"
  proof (rule map_cong [OF refl])
    fix x assume "x \<in> set es"
    then have "snd x \<noteq> i" using ne(1) by (metis image_eqI)
    then show "store_entry ?objs x = store_entry (pm_objs pm) x" by (simp add: store_entry_def)
  qed
  have "objs' ! snd ((e # es) ! k) = (pm_objs pm ! snd ((e # es) ! k))\<lparr>mo_store := Some (?n + k)\<rparr>" if "k < length (e # es)" for k
  proof (cases k)
    case 0
    then show ?thesis using o(4) ne(1) e pr(3) by simp
  next
    case (Suc k')
    then have "snd (es ! k') \<noteq> i" using ne(1) that by (metis Suc_less_eq image_eqI length_Cons nth_mem)
    then show ?thesis using o(3) Suc that by simp
  qed
  moreover have "objs' ! j = pm_objs pm ! j" if "j \<notin> snd ` set (e # es)" for j using o(4) that e by simp
  ultimately show ?case using st o(1,2) se by (intro exI [of _ objs']) simp
qed (auto intro!: exI [of _ "pm_objs pm" for pm])

section \<open>The invariant and the memory as a whole\<close>

text \<open>Every memory is in the map with its range, and has a backing store of its own of the right size.\<close>

definition phys_wf :: "PhysicalMemory \<Rightarrow> bool" where
  "phys_wf pm \<longleftrightarrow> map_wf (pm_addrMap pm) \<and>
     set (tree (pm_addrMap pm)) = set (ranges_of (pm_objs pm) [0..<length (pm_objs pm)]) \<and>
     (\<forall>i < length (pm_objs pm). mem_wf (obj_mem pm i) \<and>
        (\<exists>s < length (backingStore pm). mo_store (pm_objs pm ! i) = Some s)) \<and>
     inj_on (\<lambda>i. mo_store (pm_objs pm ! i)) {..<length (pm_objs pm)}"

definition phys_map :: "PhysicalMemory \<Rightarrow> Addr \<Rightarrow> u8 option" where
  "phys_map pm a = (case decode (pm_addrMap pm) a of None \<Rightarrow> None | Some i \<Rightarrow> byte_map (obj_mem pm i) a)"

lemma obj_range [simp]: "am_range (obj_mem pm i) = am_range (mo_mem (pm_objs pm ! i))"
  by (simp add: obj_mem_def)

lemma phys_wf_entry:
  "phys_wf pm \<Longrightarrow> (r, i) \<in> set (tree (pm_addrMap pm)) \<longleftrightarrow> i < length (pm_objs pm) \<and> r = am_range (obj_mem pm i)"
  by (auto simp: phys_wf_def ranges_of_def)

lemma phys_wf_plain:
  assumes "phys_wf pm" "i < length (pm_objs pm)"
  shows "plain (am_range (obj_mem pm i))"
proof -
  have "(am_range (obj_mem pm i), i) \<in> set (tree (pm_addrMap pm))" using assms(2) phys_wf_entry [OF assms(1)] by simp
  then show ?thesis using assms(1) unfolding phys_wf_def map_wf_def by (metis fst_conv)
qed

lemma phys_map_inside:
  assumes "phys_wf pm" "i < length (pm_objs pm)" "contains (am_range (obj_mem pm i)) a"
  shows "decode (pm_addrMap pm) a = Some i" "phys_map pm a = byte_map (obj_mem pm i) a"
proof -
  show "decode (pm_addrMap pm) a = Some i"
    using decode_unique [of "pm_addrMap pm" "(am_range (obj_mem pm i), i)" a] assms phys_wf_entry [OF assms(1)]
    by (auto simp: phys_wf_def)
  then show "phys_map pm a = byte_map (obj_mem pm i) a" by (simp add: phys_map_def)
qed

text \<open>Putting a memory back changes that memory only.\<close>

lemma put_mem_same:
  assumes "i < length (pm_objs pm)" "mo_store (pm_objs pm ! i) = Some s" "s < length (backingStore pm)" "pmem m = Some b"
  shows "obj_mem (put_mem i m pm) i = m"
  using assms by (simp add: obj_mem_def put_mem_def Let_def)

lemma put_mem_other:
  assumes "i \<noteq> j" "mo_store (pm_objs pm ! i) \<noteq> mo_store (pm_objs pm ! j)"
  shows "obj_mem (put_mem i m pm) j = obj_mem pm j"
  using assms by (cases "mo_store (pm_objs pm ! j)")
    (auto simp: obj_mem_def put_mem_def Let_def nth_list_update split: option.split)

lemma put_mem_keeps [simp]:
  "pm_addrMap (put_mem i m pm) = pm_addrMap pm" "length (pm_objs (put_mem i m pm)) = length (pm_objs pm)"
  "length (backingStore (put_mem i m pm)) = length (backingStore pm)"
  by (simp_all add: put_mem_def Let_def split: option.split)

lemma put_mem_store [simp]: "mo_store (pm_objs (put_mem i m pm) ! j) = mo_store (pm_objs pm ! j)"
  by (cases "i < length (pm_objs pm)"; cases "j = i") (simp_all add: put_mem_def Let_def list_update_beyond)

lemma put_mem_wf:
  assumes "phys_wf pm" "i < length (pm_objs pm)" "mem_wf m" "pmem m = Some b" "am_range m = am_range (obj_mem pm i)"
    and "map_wf mp" "tree mp = tree (pm_addrMap pm)"
  defines "pm' \<equiv> put_mem i m (pm\<lparr>pm_addrMap := mp\<rparr>)"
  shows "phys_wf pm'" "obj_mem pm' i = m" "\<And>j. j < length (pm_objs pm) \<Longrightarrow> j \<noteq> i \<Longrightarrow> obj_mem pm' j = obj_mem pm j"
proof -
  let ?pm = "pm\<lparr>pm_addrMap := mp\<rparr>"
  have eq: "obj_mem ?pm j = obj_mem pm j" for j by (simp add: obj_mem_def)
  obtain s where s: "mo_store (pm_objs pm ! i) = Some s" "s < length (backingStore pm)"
    using assms(1,2) by (auto simp: phys_wf_def)
  show i: "obj_mem pm' i = m" unfolding pm'_def using assms s by (intro put_mem_same) simp_all
  show j: "obj_mem pm' j = obj_mem pm j" if "j < length (pm_objs pm)" "j \<noteq> i" for j
    unfolding pm'_def using assms(1,2) that put_mem_other [of i j ?pm m] eq
    by (simp add: phys_wf_def inj_on_def) (metis lessThan_iff)
  have rg: "am_range (mo_mem (pm_objs pm' ! j)) = am_range (mo_mem (pm_objs pm ! j))" if "j < length (pm_objs pm)" for j
    using i j [OF that] assms(5) by (metis obj_range)
  then have "ranges_of (pm_objs pm') [0..<length (pm_objs pm')] = ranges_of (pm_objs pm) [0..<length (pm_objs pm)]"
    by (simp add: ranges_of_def pm'_def)
  moreover have "mem_wf (obj_mem pm' j)" if "j < length (pm_objs pm)" for j
    using assms(1,3) i j [OF that] that by (cases "j = i") (auto simp: phys_wf_def)
  ultimately show "phys_wf pm'" using assms(1,6,7) by (simp add: phys_wf_def) (simp add: pm'_def)
qed

section \<open>Accesses\<close>

text \<open>An access whose bytes lie in one memory goes to that memory and to no other.\<close>

lemma phys_access_routes:
  assumes "phys_wf pm" "i < length (pm_objs pm)" "fits (obj_mem pm i) p" "isRequest (pcmd p)"
  shows "\<exists>mp. map_wf mp \<and> tree mp = tree (pm_addrMap pm) \<and>
    phys_access p pm = bindR (access p (obj_mem pm i)) (\<lambda>(m', r, cl). ok (put_mem i m' (pm\<lparr>pm_addrMap := mp\<rparr>), r, cl))"
proof -
  let ?r = "RangeSize (paddr p) (ucast (psize p))" and ?R = "am_range (obj_mem pm i)"
  note fit = assms(3) [unfolded fits_def]
  have pr: "plain ?r" "r_start ?r = paddr p" "unat (r_end ?r) = unat (paddr p) + unat (psize p) - 1"
    using fits_last [OF assms(3)] fit by (auto simp: RangeSize_def AddrRange_simple_def plain_def interleaved_def
        range_valid_def word_le_nat_alt)
  have mw: "map_wf (pm_addrMap pm)" using assms(1) by (simp add: phys_wf_def)
  obtain res mp where c: "map_contains 1 ?r (pm_addrMap pm) = Inr (res, mp)" "tree mp = tree (pm_addrMap pm)" "map_wf mp"
    "case res of
       None \<Rightarrow> \<forall>e\<in>set (tree (pm_addrMap pm)). \<not> (r_start (fst e) \<le> r_start ?r \<and> r_end ?r \<le> r_end (fst e))
     | Some e \<Rightarrow> e \<in> set (tree (pm_addrMap pm)) \<and> r_start (fst e) \<le> r_start ?r \<and> r_end ?r \<le> r_end (fst e)"
    using map_contains_exact [OF mw pr(1), of 1] by blast
  have me: "(?R, i) \<in> set (tree (pm_addrMap pm))" using assms(2) phys_wf_entry [OF assms(1)] by simp
  have "r_end ?r \<le> r_end ?R" using fit pr(3) unfolding word_le_nat_alt by linarith
  then obtain r j where rj: "res = Some (r, j)" "(r, j) \<in> set (tree (pm_addrMap pm))" "r_start r \<le> paddr p" "r_end ?r \<le> r_end r"
    using c(4) me fit pr(2) by (cases res) (auto dest: bspec)
  have "plain r" "plain ?R" using mw rj(2) me unfolding map_wf_def by fastforce+
  moreover have "paddr p \<le> r_end r" "paddr p \<le> r_end ?R"
    using rj(4) fit pr(2,3) pr(1) \<open>r_end ?r \<le> r_end ?R\<close> unfolding plain_def range_valid_def by (metis order_trans)+
  ultimately have "contains r (paddr p)" "contains ?R (paddr p)" using rj(3) fit by (simp_all add: contains_plain plain_def)
  then have "j = i"
    using decode_unique [OF mw rj(2), of "paddr p"] decode_unique [OF mw me, of "paddr p"] by simp
  then show ?thesis using c rj assms(4) fits_accessors [OF assms(3)] by (auto simp: phys_access_def assertR_def)
qed

lemma fits_contains:
  assumes "fits m p" "mem_wf m" "touches p a"
  shows "contains (am_range m) a"
proof -
  have "r_start (am_range m) \<le> a" using assms(1,3) unfolding fits_def touches_def by (meson order_trans)
  moreover have "a \<le> r_end (am_range m)" using assms(1,3) unfolding fits_def touches_def word_le_nat_alt by linarith
  ultimately show ?thesis using assms(2) by (simp add: mem_wf_def contains_plain)
qed

text \<open>What an access does to the bytes of its memory is what it does to the bytes of the system.\<close>

lemma phys_map_put:
  assumes "phys_wf pm" "i < length (pm_objs pm)" "mem_wf m" "pmem m = Some b" "am_range m = am_range (obj_mem pm i)"
    and "map_wf mp" "tree mp = tree (pm_addrMap pm)"
  shows "phys_map (put_mem i m (pm\<lparr>pm_addrMap := mp\<rparr>)) =
    (\<lambda>a. if contains (am_range (obj_mem pm i)) a then byte_map m a else phys_map pm a)"
proof
  fix a
  let ?pm' = "put_mem i m (pm\<lparr>pm_addrMap := mp\<rparr>)"
  note w = put_mem_wf [OF assms]
  show "phys_map ?pm' a = (if contains (am_range (obj_mem pm i)) a then byte_map m a else phys_map pm a)"
  proof (cases "contains (am_range (obj_mem pm i)) a")
    case True
    then show ?thesis using phys_map_inside(2) [OF w(1), of i a] assms(2,5) w(2) by simp
  next
    case False
    have "obj_mem ?pm' j = obj_mem pm j" if dj: "decode (pm_addrMap pm) a = Some j" for j
    proof -
      obtain r where r: "List.find (\<lambda>e. contains (fst e) a) (tree (pm_addrMap pm)) = Some (r, j)"
        using dj by (auto simp: decode_def)
      have "(r, j) \<in> set (tree (pm_addrMap pm))" "contains r a"
        using r [unfolded find_Some_iff] by (metis nth_mem, metis fst_conv)
      then have "j < length (pm_objs pm)" "j \<noteq> i" using phys_wf_entry [OF assms(1)] False by auto
      then show ?thesis by (rule w(3))
    qed
    then show ?thesis using False by (auto simp: phys_map_def decode_cong_tree [OF assms(7)] split: option.split)
  qed
qed

text \<open>A read through the physical memory answers with the bytes the system's memory holds at the
  addresses of the packet, whichever memory they live in, and changes no byte of any memory.\<close>
theorem phys_read_exact:
  assumes "phys_wf pm" "i < length (pm_objs pm)" "fits (obj_mem pm i) p" "\<not> cacheResponding p"
    and "isRequest (pcmd p)" "isRead (pcmd p)" "pcmd p \<noteq> SwapReq" "\<not> isLLSC (pcmd p)"
  shows "\<exists>pm' r. phys_access p pm = Inr (pm', r, []) \<and> phys_wf pm' \<and> phys_map pm' = phys_map pm \<and>
    pcmd r = responseCommand (pcmd p) \<and>
    (\<forall>a. touches p a \<longrightarrow> phys_map pm a = Some (pdata r ! (unat a - unat (paddr p))))"
proof -
  let ?m = "obj_mem pm i"
  have m: "mem_wf ?m" "pmem ?m \<noteq> None" using assms(1,2) by (auto simp: phys_wf_def obj_mem_def)
  then obtain mem where mem: "pmem ?m = Some mem" by auto
  obtain mp where mp: "map_wf mp" "tree mp = tree (pm_addrMap pm)"
    "phys_access p pm = bindR (access p ?m) (\<lambda>(m', r, cl). ok (put_mem i m' (pm\<lparr>pm_addrMap := mp\<rparr>), r, cl))"
    using phys_access_routes [OF assms(1-3,5)] by blast
  obtain m' r where r: "access p ?m = Inr (m', r, [])" "pcmd r = responseCommand (pcmd p)"
    "\<forall>a. touches p a \<longrightarrow> byte_map ?m a = Some (pdata r ! (unat a - unat (paddr p)))"
    "pmem m' = pmem ?m" "am_range m' = am_range ?m" "byte_map m' = byte_map ?m" "mem_wf m'"
    using access_read_bytes [OF m(1) mem assms(3-8)] by blast
  let ?pm = "put_mem i m' (pm\<lparr>pm_addrMap := mp\<rparr>)"
  have pw: "phys_wf ?pm" using put_mem_wf(1) [OF assms(1,2) r(7) _ r(5) mp(1,2)] r(4) mem by simp
  have "phys_map ?pm = phys_map pm"
    using phys_map_put [OF assms(1,2) r(7) _ r(5) mp(1,2)] r(4,6) mem phys_map_inside(2) [OF assms(1,2)] by auto
  moreover have "phys_map pm a = byte_map ?m a" if "touches p a" for a
    using phys_map_inside(2) [OF assms(1,2)] fits_contains [OF assms(3) m(1) that] by simp
  ultimately show ?thesis using mp(3) r pw by simp
qed

text \<open>C15: A plain write through the physical memory changes exactly the bytes of the packet in the one
  memory that holds them, to the data of the packet, and nothing else in the system.\<close>
theorem phys_write_exact:
  assumes "phys_wf pm" "i < length (pm_objs pm)" "fits (obj_mem pm i) p" "\<not> cacheResponding p"
    and "lockedAddrList (obj_mem pm i) = []" "isRequest (pcmd p)" "isWrite (pcmd p)" "\<not> isRead (pcmd p)"
    and "pcmd p \<noteq> WritebackClean" "\<not> isLLSC (pcmd p)" "needsResponse (pcmd p)" "\<not> isInstFetch (preq p)"
  shows "\<exists>pm' r. phys_access p pm = Inr (pm', r, []) \<and> phys_wf pm' \<and> pcmd r = responseCommand (pcmd p) \<and>
    phys_map pm' = (\<lambda>a. if touches p a then Some (pdata p ! (unat a - unat (paddr p))) else phys_map pm a)"
proof -
  let ?m = "obj_mem pm i"
  have m: "mem_wf ?m" "pmem ?m \<noteq> None" using assms(1,2) by (auto simp: phys_wf_def obj_mem_def)
  then obtain mem where mem: "pmem ?m = Some mem" by auto
  obtain mp where mp: "map_wf mp" "tree mp = tree (pm_addrMap pm)"
    "phys_access p pm = bindR (access p ?m) (\<lambda>(m', r, cl). ok (put_mem i m' (pm\<lparr>pm_addrMap := mp\<rparr>), r, cl))"
    using phys_access_routes [OF assms(1-3,6)] by blast
  obtain m' mem' r where r: "access p ?m = Inr (m', r, [])" "mem_wf m'" "pmem m' = Some mem'" "am_range m' = am_range ?m"
    "byte_map m' = (\<lambda>a. if touches p a then Some (pdata p ! (unat a - unat (paddr p))) else byte_map ?m a)"
    "pcmd r = responseCommand (pcmd p)"
    using access_write_bytes [OF m(1) assms(5) mem assms(3,4,6-12)] by blast
  let ?pm = "put_mem i m' (pm\<lparr>pm_addrMap := mp\<rparr>)"
  have pw: "phys_wf ?pm" by (rule put_mem_wf(1) [OF assms(1,2) r(2-4) mp(1,2)])
  have "phys_map ?pm a = (if touches p a then Some (pdata p ! (unat a - unat (paddr p))) else phys_map pm a)" for a
    using phys_map_put [OF assms(1,2) r(2-4) mp(1,2)] r(5) fits_contains [OF assms(3) m(1), of a]
      phys_map_inside(2) [OF assms(1,2), of a] by auto
  then show ?thesis using mp(3) r pw by auto
qed

section \<open>The constructor\<close>

text \<open>Memories the constructor accepts: plain ranges of a size that fits in 64 bits, in the global map,
  with a store that can be mapped; no two overlap.\<close>

abbreviation obj_range_of :: "MemObj \<Rightarrow> AddrRange" where
  "obj_range_of ob \<equiv> am_range (mo_mem ob)"

definition good_objs :: "(u64 \<Rightarrow> bool) \<Rightarrow> MemObj list \<Rightarrow> bool" where
  "good_objs mmap_ok objs \<longleftrightarrow>
     list_all (\<lambda>ob. plain (obj_range_of ob) \<and> isInAddrMap ob \<and> \<not> isNull ob \<and>
       mmap_ok (range_size (obj_range_of ob)) \<and> range_size (obj_range_of ob) \<noteq> 0) objs \<and>
     sorted_wrt (\<lambda>b c. \<not> (r_start (obj_range_of b) \<le> r_end (obj_range_of c) \<and>
                          r_start (obj_range_of c) \<le> r_end (obj_range_of b))) objs"

lemma good_nth:
  assumes "good_objs mmap_ok objs" "i < length objs"
  shows "plain (obj_range_of (objs ! i))" "isInAddrMap (objs ! i)" "\<not> isNull (objs ! i)"
    "mmap_ok (range_size (obj_range_of (objs ! i)))" "range_size (obj_range_of (objs ! i)) \<noteq> 0"
  using assms by (simp_all add: good_objs_def list_all_length)

lemma good_apart:
  assumes "good_objs mmap_ok objs"
  shows "sorted_wrt (\<lambda>e f. \<forall>a. \<not> (contains (fst e) a \<and> contains (fst f) a)) (ranges_of objs [0..<length objs])"
proof -
  have "\<not> (contains (am_range (mo_mem (objs ! i))) a \<and> contains (am_range (mo_mem (objs ! j))) a)"
    if "i < j" "j < length objs" for i j a
  proof -
    have "\<not> (r_start (am_range (mo_mem (objs ! i))) \<le> r_end (am_range (mo_mem (objs ! j))) \<and>
             r_start (am_range (mo_mem (objs ! j))) \<le> r_end (am_range (mo_mem (objs ! i))))"
      using assms that sorted_wrt_nth_less [of _ objs i j] by (auto simp: good_objs_def)
    then show ?thesis by (meson contains_in_range order_trans)
  qed
  then show ?thesis by (auto simp: ranges_of_def sorted_wrt_map sorted_wrt_iff_nth_less)
qed

lemma plain_store_size:
  assumes "plain r" "range_size r \<noteq> 0"
  shows "unat (range_size r) = unat (r_end r) - unat (r_start r) + 1"
proof -
  have le: "r_start r \<le> r_end r" "range_size r = r_end r - r_start r + 1"
    using assms(1) by (simp_all add: plain_def range_valid_def interleaved_def range_size_def)
  have "unat (r_end r - r_start r + 1) = unat (r_end r - r_start r) + 1"
    using assms(2) le(2) by (metis Suc_eq_plus1 add.commute unatSuc)
  then show ?thesis using le by (simp add: unat_sub)
qed

lemma map_wf_distinct: "map_wf m \<Longrightarrow> distinct (tree m)"
  unfolding map_wf_def distinct_conv_nth sorted_wrt_iff_nth_less apart_def plain_def range_valid_def
  by (metis leD linorder_neqE_nat nth_mem)

lemma new_obj_mem:
  assumes "good_objs mmap_ok objs" "i < length objs" "tree (pm_addrMap pm) ! k = (obj_range_of (objs ! i), i)"
    and "k < length (tree (pm_addrMap pm))" "backingStore pm = map (store_entry objs) (tree (pm_addrMap pm))"
    and "pm_objs pm ! i = (objs ! i)\<lparr>mo_store := Some k\<rparr>"
  shows "mem_wf (obj_mem pm i)" "contains (obj_range_of (objs ! i)) a \<Longrightarrow> byte_map (obj_mem pm i) a = Some 0"
proof -
  let ?r = "obj_range_of (objs ! i)"
  note g = good_nth [OF assms(1,2)]
  have m: "pmem (obj_mem pm i) = Some (replicate (unat (range_size ?r)) 0)"
    "am_range (obj_mem pm i) = ?r" using assms(3-6) by (simp_all add: obj_mem_def store_entry_def)
  show "mem_wf (obj_mem pm i)" using m g(1) plain_store_size [OF g(1,5)] by (simp add: mem_wf_def plain_def)
  assume c: "contains ?r a"
  then have "unat a - unat (r_start ?r) < unat (range_size ?r)"
    using contains_in_range [OF c] plain_store_size [OF g(1,5)] unfolding word_le_nat_alt by linarith
  then show "byte_map (obj_mem pm i) a = Some 0"
    using c m contains_in_range [OF c] by (simp add: byte_map_def hostOffset_nat)
qed

text \<open>From memories with plain, disjoint ranges the constructor builds a physical memory: every memory
  is in the address map under its own range and has a backing store of its own size, shared with no
  other, and every byte of the system is zero; addresses outside all ranges are not memory.\<close>
theorem PhysicalMemory_new_good:
  assumes "good_objs mmap_ok objs"
  shows "\<exists>pm. PhysicalMemory_new mmap_ok objs = Inr pm \<and> phys_wf pm \<and> length (pm_objs pm) = length objs \<and>
    (\<forall>i < length objs. \<forall>a. contains (obj_range_of (objs ! i)) a \<longrightarrow>
        decode (pm_addrMap pm) a = Some i \<and> phys_map pm a = Some 0) \<and>
    (\<forall>a. (\<forall>ob \<in> set objs. \<not> contains (obj_range_of ob) a) \<longrightarrow> phys_map pm a = None)"
proof -
  let ?n = "length objs"
  let ?pm0 = "\<lparr>pm_addrMap = map_empty, pm_objs = objs, pm_memories = [], pm_size = 0, backingStore = []\<rparr>"
  let ?rs = "ranges_of objs [0..<?n]"
  note g = good_nth [OF assms]
  have pl: "\<forall>e \<in> set ?rs. plain (fst e)" using g(1) by (auto simp: ranges_of_def)
  have em: "\<forall>e \<in> set ?rs. \<forall>a. contains (fst e) a \<longrightarrow> decode (map_empty :: nat AddrRangeMap) a = None"
    by (simp add: map_empty_wf(2))
  obtain mp where mp: "arm.register 1 ?rs map_empty = Inr mp" "map_wf mp"
    "\<forall>e \<in> set ?rs. \<forall>a. contains (fst e) a \<longrightarrow> decode mp a = Some (snd e)"
    "\<forall>a. (\<forall>e \<in> set ?rs. \<not> contains (fst e) a) \<longrightarrow> decode mp a = decode map_empty a"
    using arm.register_disjoint [OF map_empty_wf(1) pl em good_apart [OF assms], of 1] by blast
  have t: "set (tree mp) = set ?rs" using register_tree [OF map_empty_wf(1) pl mp(1)] by (simp add: map_empty_def)
  obtain ms sz where a: "add_memories mmap_ok [0..<?n] ?pm0 = Inr (?pm0\<lparr>pm_memories := ms, pm_size := sz, pm_addrMap := mp\<rparr>)"
    using add_memories_register [of "[0..<?n]" ?pm0 mp mmap_ok] mp(1) g(2) by auto
  let ?pm1 = "?pm0\<lparr>pm_memories := ms, pm_size := sz, pm_addrMap := mp\<rparr>"
  have "inj_on snd (set ?rs)" by (auto simp: ranges_of_def inj_on_def)
  then have d: "distinct (map snd (tree mp))" using map_wf_distinct [OF mp(2)] t by (simp add: distinct_map)
  have "\<forall>(r, i) \<in> set (tree mp). \<not> interleaved r \<and> \<not> isNull (pm_objs ?pm1 ! i) \<and> i < length (pm_objs ?pm1) \<and> mmap_ok (range_size r)"
    unfolding t using g by (auto simp: ranges_of_def plain_def)
  from create_stores_plain [OF this d] obtain objs' where o: "create_stores mmap_ok (tree mp) [] [] ?pm1 =
      Inr (?pm1\<lparr>backingStore := map (store_entry objs) (tree mp), pm_objs := objs'\<rparr>)" "length objs' = ?n"
    "\<forall>k < length (tree mp). objs' ! snd (tree mp ! k) = (objs ! snd (tree mp ! k))\<lparr>mo_store := Some k\<rparr>" by auto
  let ?pm = "?pm1\<lparr>backingStore := map (store_entry objs) (tree mp), pm_objs := objs'\<rparr>"
  have k: "\<exists>k < length (tree mp). tree mp ! k = (obj_range_of (objs ! i), i) \<and> objs' ! i = (objs ! i)\<lparr>mo_store := Some k\<rparr>"
    if "i < ?n" for i
  proof -
    have "(obj_range_of (objs ! i), i) \<in> set (tree mp)" unfolding t using that by (auto simp: ranges_of_def)
    then obtain k where "k < length (tree mp)" "tree mp ! k = (obj_range_of (objs ! i), i)" by (metis in_set_conv_nth)
    then show ?thesis using o(3) by (intro exI [of _ k]) (auto dest: spec [of _ k])
  qed
  have ms: "mem_wf (obj_mem ?pm i) \<and> (contains (obj_range_of (objs ! i)) a \<longrightarrow> byte_map (obj_mem ?pm i) a = Some 0)" if "i < ?n" for i a
    using k [OF that] new_obj_mem [OF assms that, of ?pm] by auto
  have "ranges_of objs' [0..<?n] = ?rs" using k by (fastforce simp: ranges_of_def)
  moreover have "inj_on (\<lambda>i. mo_store (objs' ! i)) {..<?n}"
  proof (rule inj_onI)
    fix i j assume "i \<in> {..<?n}" "j \<in> {..<?n}" "mo_store (objs' ! i) = mo_store (objs' ! j)"
    then show "i = j" using k [of i] k [of j] by fastforce
  qed
  ultimately have wf: "phys_wf ?pm" using mp(2) t o(2) ms k by (fastforce simp: phys_wf_def)
  have dec: "decode mp a = Some i" if "i < ?n" "contains (obj_range_of (objs ! i)) a" for i a
    using mp(3) that by (auto simp: ranges_of_def)
  have "phys_map ?pm a = None" if "\<forall>ob \<in> set objs. \<not> contains (obj_range_of ob) a" for a
    using mp(4) that by (simp add: phys_map_def ranges_of_def map_empty_wf(2))
  then show ?thesis using a o wf dec ms by (simp add: PhysicalMemory_new_def phys_map_def)
qed

text \<open>Two ranges that overlap stop the construction, whichever memories they belong to.\<close>

lemma add_memories_refused:
  assumes "\<forall>i \<in> set is. isInAddrMap (pm_objs pm ! i)" "arm.register 1 (ranges_of (pm_objs pm) is) (pm_addrMap pm) = Inl FatalError"
  shows "add_memories mmap_ok is pm = Inl FatalError"
  using assms
proof (induction "is" arbitrary: pm)
  case (Cons i "is")
  let ?r = "obj_range_of (pm_objs pm ! i)"
  have im: "isInAddrMap (pm_objs pm ! i)" using Cons.prems(1) by simp
  note reg = Cons.prems(2) [unfolded ranges_of_def list.map(2) arm.register.simps(2)]
  show ?case
  proof (cases "map_insert 1 ?r i (pm_addrMap pm)")
    case (Inl e)
    then show ?thesis using reg im by (simp add: decoder_insert_def add_memory_def)
  next
    case (Inr q)
    obtain it mp1 where q: "q = (it, mp1)" by (cases q)
    show ?thesis
    proof (cases it)
      case None
      then show ?thesis using Inr q im by (simp add: add_memory_def)
    next
      case (Some e)
      let ?pm = "pm\<lparr>pm_memories := pm_memories pm @ [i], pm_size := pm_size pm + range_size ?r, pm_addrMap := mp1\<rparr>"
      have d: "decoder_insert 1 ?r i (pm_addrMap pm) = Inr (True, mp1)" using Inr q Some by (simp add: decoder_insert_def)
      have "add_memory mmap_ok i pm = Inr ?pm" using Inr q im Some by (simp add: add_memory_def)
      moreover have "add_memories mmap_ok is ?pm = Inl FatalError"
        using Cons.prems(1) reg d by (intro Cons.IH) (simp_all add: ranges_of_def)
      ultimately show ?thesis by simp
    qed
  qed
qed (simp add: ranges_of_def)

text \<open>If two memories of the global map share an address, the constructor stops with a fatal error,
  wherever the two stand in the list.\<close>
theorem PhysicalMemory_new_overlap:
  assumes "\<forall>ob \<in> set objs. plain (obj_range_of ob) \<and> isInAddrMap ob"
    and "i < j" "j < length objs" "contains (obj_range_of (objs ! i)) a" "contains (obj_range_of (objs ! j)) a"
  shows "PhysicalMemory_new mmap_ok objs = Inl FatalError"
proof -
  let ?rs = "ranges_of objs [0..<length objs]"
  have "\<not> sorted_wrt (\<lambda>e f. \<forall>a. \<not> (contains (fst e) a \<and> contains (fst f) a)) ?rs"
    using assms(2-5) by (auto simp: sorted_wrt_iff_nth_less ranges_of_def)
  moreover have "\<forall>e \<in> set ?rs. plain (fst e)" using assms(1) by (auto simp: ranges_of_def)
  ultimately have "arm.register 1 ?rs map_empty = Inl FatalError" by (intro arm.register_overlap map_empty_wf(1)) auto
  then show ?thesis using add_memories_refused [of "[0..<length objs]"] assms(1) by (simp add: PhysicalMemory_new_def)
qed

section \<open>Interleaved memories\<close>

lemma create_stores_stripes:
  assumes "\<forall>(r, i) \<in> set es. interleaved r \<and> \<not> isNull (pm_objs pm ! i) \<and> mergesWith t r"
    and "\<forall>r \<in> set rs. mergesWith t r" "es \<noteq> [] \<or> rs \<noteq> []"
  shows "create_stores mmap_ok es rs ms pm = store_merged mmap_ok (rs @ map fst es) (ms @ map snd es) pm"
  using assms
proof (induction es arbitrary: rs ms)
  case (Cons e es)
  obtain r i where e: "e = (r, i)" by (cases e)
  have "rs \<noteq> [] \<longrightarrow> mergesWith (last rs) r"
    using Cons.prems(1,2) e by (auto simp: mergesWith_def dest: last_in_set)
  then show ?case using Cons.prems e Cons.IH [of "rs @ [r]" "ms @ [i]"] by auto
qed simp

lemma point_to_nth:
  assumes "\<forall>i \<in> set ms. i < length objs"
  shows "length (point_to s ms objs) = length objs"
    "i < length objs \<Longrightarrow> point_to s ms objs ! i = (if i \<in> set ms then (objs ! i)\<lparr>mo_store := Some s\<rparr> else objs ! i)"
  using assms unfolding point_to_def
  by (induction ms arbitrary: objs) (auto simp: nth_list_update)

text \<open>The memories of one complete interleaving get one backing store between them: it covers exactly the
  addresses of their stripes, is zero, and every one of them points to it; the other memories and the
  stores that were there before stay as they are.\<close>
theorem stripes_share_store:
  assumes "AddrRange_merge rs = Inr mr" "rs \<noteq> []" "length ms = length rs" "\<forall>i \<in> set ms. i < length (pm_objs pm)"
    and "list_all wf_range rs" "list_all (\<lambda>r. interleaved r \<and> unat (intlvBits r) \<le> 8) rs"
    and "\<forall>i \<in> set ms. \<not> isNull (pm_objs pm ! i)" "mmap_ok (range_size mr)"
    and "\<forall>i \<in> set ms. isConfReported (pm_objs pm ! i) = c \<and> isInAddrMap (pm_objs pm ! i) \<and> isKvmMap (pm_objs pm ! i) = k"
  shows "\<exists>pm' s. create_stores mmap_ok (zip rs ms) [] [] pm = Inr pm' \<and> backingStore pm' = backingStore pm @ [s] \<and>
    range_set (bs_range s) = (\<Union>r\<in>set rs. range_set r) \<and> bs_pmem s = replicate (unat (range_size (bs_range s))) 0 \<and>
    (\<forall>i < length (pm_objs pm). pm_objs pm' ! i =
       (if i \<in> set ms then (pm_objs pm ! i)\<lparr>mo_store := Some (length (backingStore pm))\<rparr> else pm_objs pm ! i))"
proof -
  obtain f fs where fs: "rs = f # fs" using assms(2) by (cases rs) auto
  obtain i0 ms' where ms: "ms = i0 # ms'" using assms(3) fs by (cases ms) auto
  let ?t = "f\<lparr>intlvMatch := 0\<rparr>"
  have chk: "merge_check ?t rs 0 = Inr ()"
    using assms(1) by (auto simp: AddrRange_merge_def fs Let_def bindR_eq_Inr split: if_splits)
  have mw: "\<forall>r \<in> set rs. mergesWith ?t r" using merge_check_nth [OF chk] by (metis in_set_conv_nth)
  have "create_stores mmap_ok (zip rs ms) [] [] pm = store_merged mmap_ok ([] @ map fst (zip rs ms)) ([] @ map snd (zip rs ms)) pm"
    by (rule create_stores_stripes [where t = ?t])
       (use assms(6,7) mw fs ms in \<open>auto simp: list_all_iff dest: set_zip_leftD set_zip_rightD\<close>)
  then have st: "create_stores mmap_ok (zip rs ms) [] [] pm = store_merged mmap_ok rs ms pm" using assms(3) by simp
  have u: "\<not> interleaved mr" "range_set mr = (\<Union>r\<in>set rs. range_set r)"
    using merge_union [OF assms(1,2,5)] assms(6) by (auto simp: list_all_iff)
  have "\<not> list_ex (\<lambda>c. isConfReported (pm_objs pm ! i0) \<noteq> isConfReported (pm_objs pm ! c) \<or>
      isInAddrMap (pm_objs pm ! i0) \<noteq> isInAddrMap (pm_objs pm ! c) \<or> isKvmMap (pm_objs pm ! i0) \<noteq> isKvmMap (pm_objs pm ! c)) ms"
    using assms(9) ms by (auto simp: list_ex_iff)
  moreover have "vec_at ms 0 = Inr i0" using ms by (simp add: vec_at_def)
  ultimately have "store_merged mmap_ok rs ms pm = createBackingStore mmap_ok mr ms (isConfReported (pm_objs pm ! i0))
      (isInAddrMap (pm_objs pm ! i0)) (isKvmMap (pm_objs pm ! i0)) pm"
    using assms(1) by (simp add: store_merged_def Let_def)
  then show ?thesis using st u assms(8) point_to_nth [OF assms(4)] by (simp add: createBackingStore_def)
qed

section \<open>Examples\<close>

definition new_obj :: "AddrRange \<Rightarrow> MemObj" where
  "new_obj r = \<lparr>mo_mem = AbstractMemory_new r ''TimingSimpleCPU'' 64, mo_store = None, isInAddrMap = True,
     isConfReported = True, isKvmMap = True, isNull = False\<rparr>"

definition two_objs :: "MemObj list" where
  "two_objs = [new_obj (RangeSize 0x1000 4), new_obj (RangeSize 0x2000 2)]"

definition two_mems :: PhysicalMemory where
  "two_mems = \<lparr>pm_addrMap = \<lparr>tree = [(RangeSize 0x1000 4, 0), (RangeSize 0x2000 2, 1)], cache = []\<rparr>,
     pm_objs = [(new_obj (RangeSize 0x1000 4))\<lparr>mo_store := Some 0\<rparr>, (new_obj (RangeSize 0x2000 2))\<lparr>mo_store := Some 1\<rparr>],
     pm_memories = [0, 1], pm_size = 6,
     backingStore = map (\<lambda>(r, bs). \<lparr>bs_range = r, bs_pmem = bs, bs_confTableReported = True, bs_inAddrMap = True,
       bs_kvmMap = True\<rparr>) [(RangeSize 0x1000 4, [1, 2, 3, 4]), (RangeSize 0x2000 2, [5, 6])]\<rparr>"

lemmas two_simps = new_obj_def AbstractMemory_new_def RangeSize_def AddrRange_simple_def

lemma two_mems_wf: "phys_wf two_mems" "length (pm_objs two_mems) = 2" "lockedAddrList (obj_mem two_mems 1) = []"
  "am_range (obj_mem two_mems 1) = RangeSize 0x2000 2"
  by code_simp+

lemma two_mems_map: "phys_map two_mems 0x1003 = Some 4" "phys_map two_mems 0x2000 = Some 5" "phys_map two_mems 0x2001 = Some 6"
  by code_simp+

lemma two_fits: "fits (obj_mem two_mems 1) (ctx_packet c 0x2000 [7, 8] cid)"
  unfolding fits_def two_mems_wf(4)
  by (simp add: ctx_packet_def RangeSize_def AddrRange_simple_def isSet_def word_le_nat_alt)

theorem phys_read_exact_witness:
  "\<exists>pm' r. phys_access (ctx_packet ReadReq 0x2000 [7, 8] 3) two_mems = Inr (pm', r, []) \<and> pdata r ! 1 = 6 \<and>
    phys_map pm' = phys_map two_mems"
proof -
  let ?p = "ctx_packet ReadReq 0x2000 [7, 8] 3"
  have cmd: "isRequest ReadReq" "isRead ReadReq" "\<not> isLLSC ReadReq" by code_simp+
  have t: "touches ?p 0x2001" "unat (0x2001 :: u64) - unat (paddr ?p) = 1"
    by (simp_all add: touches_def ctx_packet_def word_le_nat_alt)
  obtain pm' r where "phys_access ?p two_mems = Inr (pm', r, [])" "phys_map pm' = phys_map two_mems"
    "\<forall>a. touches ?p a \<longrightarrow> phys_map two_mems a = Some (pdata r ! (unat a - unat (paddr ?p)))"
    using phys_read_exact [OF two_mems_wf(1) _ two_fits ctx_packet_ok(5)] two_mems_wf(2) cmd
    unfolding ctx_packet_ok by (metis Command.distinct one_less_numeral_iff semiring_norm(76))
  moreover from this(3) t two_mems_map(3) have "pdata r ! 1 = 6" by (metis option.inject)
  ultimately show ?thesis by blast
qed

theorem phys_write_exact_witness:
  "\<exists>pm' r. phys_access (ctx_packet WriteReq 0x2000 [7, 8] 3) two_mems = Inr (pm', r, []) \<and>
    phys_map pm' 0x2001 = Some 8 \<and> phys_map pm' 0x1003 = Some 4"
proof -
  let ?p = "ctx_packet WriteReq 0x2000 [7, 8] 3"
  have cmd: "isRequest WriteReq" "isWrite WriteReq" "\<not> isRead WriteReq" "\<not> isLLSC WriteReq" "needsResponse WriteReq"
    by code_simp+
  have t: "touches ?p 0x2001" "pdata ?p ! (unat (0x2001 :: u64) - unat (paddr ?p)) = 8" "\<not> touches ?p 0x1003"
    by (simp_all add: touches_def ctx_packet_def word_le_nat_alt)
  have i: "1 < length (pm_objs two_mems)" by (simp add: two_mems_wf(2))
  obtain pm' r where "phys_access ?p two_mems = Inr (pm', r, [])"
    "phys_map pm' = (\<lambda>a. if touches ?p a then Some (pdata ?p ! (unat a - unat (paddr ?p))) else phys_map two_mems a)"
    using phys_write_exact [OF two_mems_wf(1) i two_fits ctx_packet_ok(5) two_mems_wf(3) _ _ _ _ _ _ ctx_packet_ok(3),
        of WriteReq 3] cmd unfolding ctx_packet_ok by auto
  then show ?thesis using t two_mems_map(1) by auto
qed

lemma two_objs_good: "good_objs (\<lambda>_. True) two_objs" "length two_objs = 2" "obj_range_of (two_objs ! 1) = RangeSize 0x2000 2"
  by code_simp+

theorem PhysicalMemory_new_good_witness:
  "\<exists>pm. PhysicalMemory_new (\<lambda>_. True) two_objs = Inr pm \<and> phys_wf pm \<and> phys_map pm 0x2001 = Some 0 \<and>
    decode (pm_addrMap pm) 0x2001 = Some 1 \<and> phys_map pm 0x3000 = None"
proof -
  have c: "contains (obj_range_of (two_objs ! 1)) 0x2001" "\<forall>ob \<in> set two_objs. \<not> contains (obj_range_of ob) 0x3000"
    by code_simp+
  obtain pm where pm: "PhysicalMemory_new (\<lambda>_. True) two_objs = Inr pm" "phys_wf pm"
    "\<forall>i < length two_objs. \<forall>a. contains (obj_range_of (two_objs ! i)) a \<longrightarrow>
        decode (pm_addrMap pm) a = Some i \<and> phys_map pm a = Some 0"
    "\<forall>a. (\<forall>ob \<in> set two_objs. \<not> contains (obj_range_of ob) a) \<longrightarrow> phys_map pm a = None"
    using PhysicalMemory_new_good [OF two_objs_good(1)] by blast
  have "decode (pm_addrMap pm) 0x2001 = Some 1 \<and> phys_map pm 0x2001 = Some 0"
    using pm(3) c(1) two_objs_good(2) by (metis one_less_numeral_iff semiring_norm(76))
  then show ?thesis using pm(1,2,4) c(2) by blast
qed

theorem PhysicalMemory_new_overlap_witness:
  "PhysicalMemory_new (\<lambda>_. True) [new_obj (RangeSize 0x1000 4), new_obj (RangeSize 0x2000 2), new_obj (RangeSize 0x1002 8)] =
    Inl FatalError"
proof (rule PhysicalMemory_new_overlap [where i = 0 and j = 2 and a = "0x1003"])
  show "\<forall>ob \<in> set [new_obj (RangeSize 0x1000 4), new_obj (RangeSize 0x2000 2), new_obj (RangeSize 0x1002 8)].
      plain (obj_range_of ob) \<and> isInAddrMap ob" by code_simp
  show "contains (obj_range_of ([new_obj (RangeSize 0x1000 4), new_obj (RangeSize 0x2000 2), new_obj (RangeSize 0x1002 8)] ! 0)) 0x1003"
    by code_simp
  show "contains (obj_range_of ([new_obj (RangeSize 0x1000 4), new_obj (RangeSize 0x2000 2), new_obj (RangeSize 0x1002 8)] ! 2)) 0x1003"
    by code_simp
qed simp_all

definition stripe_mems :: PhysicalMemory where
  "stripe_mems = \<lparr>pm_addrMap = map_empty, pm_objs = [new_obj (striped 0), new_obj (striped 1), new_obj (RangeSize 0x2000 2)],
     pm_memories = [], pm_size = 0, backingStore = []\<rparr>"

theorem stripes_share_store_witness:
  "\<exists>pm' s. create_stores (\<lambda>_. True) (zip [striped 0, striped 1] [0, 1]) [] [] stripe_mems = Inr pm' \<and>
    backingStore pm' = [s] \<and> range_set (bs_range s) = (\<Union>r\<in>set [striped 0, striped 1]. range_set r) \<and>
    mo_store (pm_objs pm' ! 1) = Some 0 \<and> mo_store (pm_objs pm' ! 2) = None"
proof -
  have m: "AddrRange_merge [striped 0, striped 1] = Inr (AddrRange_simple 0x1000 0x1fff)" by code_simp
  obtain pm' s where pm': "create_stores (\<lambda>_. True) (zip [striped 0, striped 1] [0, 1]) [] [] stripe_mems = Inr pm'"
    "backingStore pm' = backingStore stripe_mems @ [s]" "range_set (bs_range s) = (\<Union>r\<in>set [striped 0, striped 1]. range_set r)"
    "\<forall>i < length (pm_objs stripe_mems). pm_objs pm' ! i = (if i \<in> set [0, 1]
       then (pm_objs stripe_mems ! i)\<lparr>mo_store := Some (length (backingStore stripe_mems))\<rparr> else pm_objs stripe_mems ! i)"
    using stripes_share_store [OF m, of "[0, 1]" stripe_mems "\<lambda>_. True" True True] striped_wf
    by (auto simp: stripe_mems_def new_obj_def)
  from pm'(4) have "pm_objs pm' ! 1 = (new_obj (striped 1))\<lparr>mo_store := Some 0\<rparr>" "pm_objs pm' ! 2 = new_obj (RangeSize 0x2000 2)"
    by (auto simp: stripe_mems_def dest: spec [of _ 1] spec [of _ 2])
  then show ?thesis using pm'(1-3) by (auto simp: stripe_mems_def new_obj_def)
qed

end
