(* ===== verification/Mem_Checkpoint.thy ===== *)
theory Mem_Checkpoint
  imports Physical_Mem
begin

text \<open>
  Checkpoints of the physical memory (\<^verbatim>\<open>serialize\<close>, \<^verbatim>\<open>serializeStore\<close>, \<^verbatim>\<open>unserialize\<close> and
  \<^verbatim>\<open>unserializeStore\<close> of \<^verbatim>\<open>src/mem/physical.cc\<close>). A checkpoint is the record of the values the
  serialisation macros write, with one compressed file per backing store. The compression library is a
  parameter: opening, writing and closing a file, and what reading it gives; \<open>gz_works\<close> states its
  documented behaviour. Reading goes on from the position of the last read, so what is left of the file
  is the state of the reader.
\<close>

section \<open>Writing\<close>

record 'f GzLib =
  gz_open_w :: "'f option"
  gz_write :: "'f \<Rightarrow> u8 list \<Rightarrow> 'f \<times> int"
  gz_close :: "'f \<Rightarrow> int"
  gz_unpack :: "'f \<Rightarrow> u8 list option"

record 'f StoreImage =
  si_store_id :: u32
  si_range_size :: u64
  si_file :: 'f

record 'f Checkpoint =
  lal_addr :: "Addr list"
  lal_cid :: "int list"
  cp_stores :: "'f StoreImage list"

definition INT_MAX :: u64 where "INT_MAX = 0x7fffffff"

definition pass_size_of :: "u64 \<Rightarrow> u64 \<Rightarrow> u64" where
  "pass_size_of sz written = (if INT_MAX < sz - written then INT_MAX else sz - written)"

lemma pass_size_of_bounds:
  assumes "written < sz"
  shows "0 < unat (pass_size_of sz written)" "unat written + unat (pass_size_of sz written) \<le> unat sz"
    "unat (written + pass_size_of sz written) = unat written + unat (pass_size_of sz written)"
proof -
  have d: "unat (sz - written) = unat sz - unat written" "unat written < unat sz"
    using assms by (simp_all add: unat_sub word_less_nat_alt word_le_nat_alt)
  have i: "unat INT_MAX = 0x7fffffff" by (simp add: INT_MAX_def)
  show "0 < unat (pass_size_of sz written)" using d i by (simp add: pass_size_of_def)
  show b: "unat written + unat (pass_size_of sz written) \<le> unat sz"
    using d i by (auto simp: pass_size_of_def word_less_nat_alt)
  have "unat written + unat (pass_size_of sz written) < 2 ^ 64"
    using b unsigned_less [of sz, where ?'a = nat] by simp
  then show "unat (written + pass_size_of sz written) = unat written + unat (pass_size_of sz written)"
    by (simp add: unat_word_ariths)
qed

function write_passes :: "'f GzLib \<Rightarrow> u8 list \<Rightarrow> u64 \<Rightarrow> u64 \<Rightarrow> 'f \<Rightarrow> 'f res" where
  "write_passes gz pm sz written f =
     (if written < sz then
        (let pass_size = pass_size_of sz written;
             (f', n) = gz_write gz f (take (unat pass_size) (drop (unat written) pm)) in
         if n \<noteq> int (unat pass_size) then fail FatalError
         else write_passes gz pm sz (written + pass_size) f')
      else ok f)"
  by pat_completeness auto
termination
proof (relation "measure (\<lambda>(gz, pm, sz, written, f). unat sz - unat written)", goal_cases)
  case (2 gz pm sz written f ps x f' n)
  then show ?case using pass_size_of_bounds [OF 2(1)] by (simp add: word_less_nat_alt)
qed simp

definition serializeStore :: "'f GzLib \<Rightarrow> u32 \<Rightarrow> AddrRange \<Rightarrow> u8 list \<Rightarrow> 'f StoreImage res" where
  "serializeStore gz store_id rng pm =
     (case gz_open_w gz of
        None \<Rightarrow> fail FatalError
      | Some f \<Rightarrow> bindR (write_passes gz pm (range_size rng) 0 f) (\<lambda>f'.
          if gz_close gz f' \<noteq> 0 then fail FatalError
          else ok \<lparr>si_store_id = store_id, si_range_size = range_size rng, si_file = f'\<rparr>))"

fun serialize_stores :: "'f GzLib \<Rightarrow> u32 \<Rightarrow> BackingStoreEntry list \<Rightarrow> 'f StoreImage list res" where
  "serialize_stores gz store_id [] = ok []"
| "serialize_stores gz store_id (s # ss) =
     bindR (serializeStore gz store_id (bs_range s) (bs_pmem s)) (\<lambda>im.
     bindR (serialize_stores gz (store_id + 1) ss) (\<lambda>ims. ok (im # ims)))"

definition locked_addrs :: "PhysicalMemory \<Rightarrow> LockedAddr list" where
  "locked_addrs pm = concat (map (\<lambda>i. lockedAddrList (mo_mem (pm_objs pm ! i))) (pm_memories pm))"

definition phys_serialize :: "'f GzLib \<Rightarrow> PhysicalMemory \<Rightarrow> 'f Checkpoint res" where
  "phys_serialize gz pm =
     bindR (serialize_stores gz 0 (backingStore pm)) (\<lambda>ims.
       ok \<lparr>lal_addr = map la_addr (locked_addrs pm), lal_cid = map la_contextId (locked_addrs pm), cp_stores = ims\<rparr>)"

section \<open>Reading\<close>

definition addLockedAddr :: "nat \<Rightarrow> LockedAddr \<Rightarrow> PhysicalMemory \<Rightarrow> PhysicalMemory" where
  "addLockedAddr i l pm =
     (let ob = pm_objs pm ! i; m = mo_mem ob in
      pm\<lparr>pm_objs := (pm_objs pm)[i := ob\<lparr>mo_mem := m\<lparr>lockedAddrList := lockedAddrList m @ [l]\<rparr>\<rparr>]\<rparr>)"

text \<open>An address outside the map makes the iterator \<^verbatim>\<open>end()\<close>, which is then followed.\<close>

fun unserialize_locks :: "Addr list \<Rightarrow> int list \<Rightarrow> PhysicalMemory \<Rightarrow> PhysicalMemory res" where
  "unserialize_locks [] cids pm = ok pm"
| "unserialize_locks (a # as) cids pm =
     bindR (map_contains_addr 1 a (pm_addrMap pm)) (\<lambda>(it, mp).
       case it of
         None \<Rightarrow> fail NullPointer
       | Some (r, i) \<Rightarrow> bindR (vec_at cids 0) (\<lambda>c.
           unserialize_locks as (tl cids) (addLockedAddr i \<lparr>la_addr = a, la_contextId = c\<rparr> (pm\<lparr>pm_addrMap := mp\<rparr>))))"

text \<open>The words of a chunk: only those that are not zero are copied.\<close>

function copy_words :: "nat \<Rightarrow> u8 list \<Rightarrow> u8 list \<Rightarrow> u8 list res" where
  "copy_words off bs mem =
     (if bs = [] then ok mem
      else bindR (if list_all (\<lambda>b. b = 0) (take 8 bs) then ok mem
                  else if off + 8 \<le> length mem then ok (take off mem @ take 8 bs @ drop (off + 8) mem)
                  else fail OutOfRange) (copy_words (off + 8) (drop 8 bs)))"
  by pat_completeness auto
termination by (relation "measure (\<lambda>(off, bs, mem). length bs)") auto

definition chunk_size :: nat where "chunk_size = 16384"

function read_chunks :: "u64 \<Rightarrow> u64 \<Rightarrow> u8 list \<Rightarrow> u8 list \<Rightarrow> u8 list res" where
  "read_chunks sz curr_size rest pm =
     (if curr_size < sz then
        (let temp_page = take chunk_size rest in
         if temp_page = [] then ok pm
         else assertR (length temp_page mod 8 = 0)
           (bindR (copy_words (unat curr_size) temp_page pm)
              (read_chunks sz (curr_size + word_of_nat (length temp_page)) (drop chunk_size rest))))
      else ok pm)"
  by pat_completeness auto
termination by (relation "measure (\<lambda>(sz, c, rest, pm). length rest)") (auto simp: chunk_size_def)

definition unserializeStore :: "'f GzLib \<Rightarrow> 'f StoreImage \<Rightarrow> PhysicalMemory \<Rightarrow> PhysicalMemory res" where
  "unserializeStore gz im pm =
     (case gz_unpack gz (si_file im) of
        None \<Rightarrow> fail FatalError
      | Some bytes \<Rightarrow>
          bindR (vec_at (backingStore pm) (unat (si_store_id im))) (\<lambda>s.
            if si_range_size im \<noteq> range_size (bs_range s) then fail FatalError
            else bindR (read_chunks (range_size (bs_range s)) 0 bytes (bs_pmem s)) (\<lambda>mem.
              if gz_close gz (si_file im) \<noteq> 0 then fail FatalError
              else ok (pm\<lparr>backingStore := (backingStore pm)[unat (si_store_id im) := s\<lparr>bs_pmem := mem\<rparr>]\<rparr>))))"

primrec unserialize_stores :: "'f GzLib \<Rightarrow> 'f StoreImage list \<Rightarrow> PhysicalMemory \<Rightarrow> PhysicalMemory res" where
  "unserialize_stores gz [] pm = ok pm"
| "unserialize_stores gz (im # ims) pm = bindR (unserializeStore gz im pm) (unserialize_stores gz ims)"

definition phys_unserialize :: "'f GzLib \<Rightarrow> 'f Checkpoint \<Rightarrow> PhysicalMemory \<Rightarrow> PhysicalMemory res" where
  "phys_unserialize gz cp pm =
     bindR (unserialize_locks (lal_addr cp) (lal_cid cp) pm) (unserialize_stores gz (cp_stores cp))"

section \<open>The compression library\<close>

definition gz_works :: "'f GzLib \<Rightarrow> bool" where
  "gz_works gz \<longleftrightarrow> (\<exists>f. gz_open_w gz = Some f \<and> gz_unpack gz f = Some []) \<and>
     (\<forall>f bs c. gz_unpack gz f = Some c \<longrightarrow> (\<exists>f'. gz_write gz f bs = (f', int (length bs)) \<and> gz_unpack gz f' = Some (c @ bs))) \<and>
     (\<forall>f. gz_close gz f = 0)"

declare write_passes.simps [simp del] copy_words.simps [simp del] read_chunks.simps [simp del]

lemma gz_works_write:
  "gz_works gz \<Longrightarrow> gz_unpack gz f = Some c \<Longrightarrow>
    \<exists>f'. gz_write gz f bs = (f', int (length bs)) \<and> gz_unpack gz f' = Some (c @ bs)"
  by (simp add: gz_works_def)

section \<open>The stores\<close>

lemma write_passes_all:
  assumes "gz_works gz" "length pm = unat sz" "gz_unpack gz f = Some (take (unat written) pm)" "written \<le> sz"
  shows "\<exists>f'. write_passes gz pm sz written f = Inr f' \<and> gz_unpack gz f' = Some pm"
  using assms
proof (induction gz pm sz written f rule: write_passes.induct)
  case (1 gz pm sz written f)
  show ?case
  proof (cases "written < sz")
    case True
    let ?ps = "pass_size_of sz written" let ?bs = "take (unat ?ps) (drop (unat written) pm)"
    note b = pass_size_of_bounds [OF True]
    obtain f' where f': "gz_write gz f ?bs = (f', int (length ?bs))" "gz_unpack gz f' = Some (take (unat written) pm @ ?bs)"
      using gz_works_write [OF 1(2,4)] by blast
    have len: "length ?bs = unat ?ps" using b(2) 1(3) by simp
    have "gz_unpack gz f' = Some (take (unat (written + ?ps)) pm)" using f'(2) b(3) by (simp add: take_add)
    moreover have "written + ?ps \<le> sz" using b(2,3) by (simp add: word_le_nat_alt)
    ultimately have "\<exists>f''. write_passes gz pm sz (written + ?ps) f' = Inr f'' \<and> gz_unpack gz f'' = Some pm"
      using 1(1) [OF True refl f'(1) [symmetric] refl] 1(2,3) len by simp
    then show ?thesis using True f'(1) len by (simp add: write_passes.simps [of gz pm sz written])
  next
    case False
    then have "written = sz" using 1(5) by simp
    then show ?thesis using 1(3,4) by (simp add: write_passes.simps)
  qed
qed

text \<open>Copying only the words that are not zero is as good as copying all, onto a store that is zero.\<close>

lemma copy_words_fresh:
  assumes "length bs mod 8 = 0" "off + length bs \<le> length mem" "\<forall>k < length bs. mem ! (off + k) = 0"
  shows "copy_words off bs mem = Inr (take off mem @ bs @ drop (off + length bs) mem)"
  using assms
proof (induction off bs mem rule: copy_words.induct)
  case (1 off bs mem)
  show ?case
  proof (cases "bs = []")
    case True
    then show ?thesis by (simp add: copy_words.simps)
  next
    case False
    then have l8: "8 \<le> length bs" using 1(2) by (metis length_0_conv mod_less not_le)
    let ?mem = "take off mem @ take 8 bs @ drop (off + 8) mem"
    have z: "take 8 (drop off mem) = replicate 8 0"
      using 1(3,4) l8 by (intro nth_equalityI) auto
    have step: "(if list_all (\<lambda>b. b = 0) (take 8 bs) then ok mem
        else if off + 8 \<le> length mem then ok ?mem else fail OutOfRange) = ok ?mem"
    proof (cases "list_all (\<lambda>b. b = 0) (take 8 bs)")
      case True
      then have "take 8 bs = replicate 8 0" using l8 by (intro nth_equalityI) (auto simp: list_all_length)
      then have "?mem = mem" using z by (metis append_take_drop_id drop_drop add.commute)
      then show ?thesis using True by simp
    next
      case False
      then show ?thesis using 1(3) l8 by simp
    qed
    have nth: "\<forall>k < length (drop 8 bs). ?mem ! (off + 8 + k) = 0"
      using 1(3,4) l8 by (auto simp: nth_append add.assoc)
    have "length (drop 8 bs) mod 8 = 0" using 1(2) l8 by (simp add: mod_diff_left_eq le_mod_geq)
    then have "copy_words (off + 8) (drop 8 bs) ?mem = Inr (take (off + 8) ?mem @ drop 8 bs @ drop (off + 8 + length (drop 8 bs)) ?mem)"
      using 1(1) [OF False] nth 1(3) l8 step by simp
    moreover have "take (off + 8) ?mem = take off mem @ take 8 bs"
      "drop (off + 8 + length (drop 8 bs)) ?mem = drop (off + length bs) mem" using 1(3) l8 by (simp_all add: add.commute)
    ultimately have "copy_words (off + 8) (drop 8 bs) ?mem = Inr (take off mem @ bs @ drop (off + length bs) mem)"
      by (metis append.assoc append_take_drop_id)
    moreover have "copy_words off bs mem = copy_words (off + 8) (drop 8 bs) ?mem"
      using False step by (subst copy_words.simps) (simp del: if_split)
    ultimately show ?thesis by simp
  qed
qed

text \<open>One chunk: it goes to its place, as long as the rest of the store is zero.\<close>

lemma read_chunks_step:
  assumes "length c = unat sz" "k < length c" "length (take chunk_size (drop k c)) mod 8 = 0"
  defines "k' \<equiv> k + length (take chunk_size (drop k c))"
  shows "read_chunks sz (word_of_nat k) (drop k c) (take k c @ replicate (length c - k) 0) =
      read_chunks sz (word_of_nat k') (drop k' c) (take k' c @ replicate (length c - k') 0)" "k < k'" "k' \<le> length c"
proof -
  let ?tp = "take chunk_size (drop k c)" and ?pm = "take k c @ replicate (length c - k) 0"
  have ne: "?tp \<noteq> []" using assms(2) by (simp add: chunk_size_def)
  then show "k < k'" "k' \<le> length c" using assms(2) by (auto simp: k'_def)
  have "length c < 2 ^ 64" using unsigned_less [of sz, where ?'a = nat] assms(1) by simp
  then have k: "unat (word_of_nat k :: u64) = k" using assms(2) by (simp add: unat_of_nat)
  have "copy_words k ?tp ?pm = Inr (take k ?pm @ ?tp @ drop k' ?pm)"
    unfolding k'_def using assms(2,3) by (intro copy_words_fresh) (auto simp: nth_append)
  also have "take k ?pm @ ?tp @ drop k' ?pm = take k' c @ replicate (length c - k') 0"
    using assms(2) by (simp add: k'_def take_add min_def)
  finally have cp: "copy_words k ?tp ?pm = Inr (take k' c @ replicate (length c - k') 0)" .
  have "drop chunk_size (drop k c) = drop k' c" by (simp add: k'_def min_def add.commute)
  then show "read_chunks sz (word_of_nat k) (drop k c) ?pm =
      read_chunks sz (word_of_nat k') (drop k' c) (take k' c @ replicate (length c - k') 0)"
    using assms(1,2,3) k ne cp by (simp add: read_chunks.simps [of sz "word_of_nat k"] word_less_nat_alt Let_def k'_def)
qed

text \<open>A whole number of words is read to the end; any other size ends in the assertion on the last chunk.\<close>

lemma read_chunks_fresh:
  assumes "length c = unat sz" "k \<le> length c" "k mod 8 = 0"
  shows "read_chunks sz (word_of_nat k) (drop k c) (take k c @ replicate (length c - k) 0) =
    (if length c mod 8 = 0 then Inr c else Inl AssertFailed)"
  using assms(2,3)
proof (induction "length c - k" arbitrary: k rule: less_induct)
  case less
  let ?tp = "take chunk_size (drop k c)"
  have "length c < 2 ^ 64" using unsigned_less [of sz, where ?'a = nat] assms(1) by simp
  then have k: "unat (word_of_nat k :: u64) = k" using less.prems(1) by (simp add: unat_of_nat)
  consider "k = length c" | "k < length c" "length ?tp mod 8 = 0" | "k < length c" "length ?tp mod 8 \<noteq> 0"
    using less.prems(1) by fastforce
  then show ?case
  proof cases
    case 1
    then show ?thesis using k assms(1) less.prems(2) by (simp add: read_chunks.simps word_less_nat_alt)
  next
    case 2
    note st = read_chunks_step [OF assms(1) 2]
    have "(k + length ?tp) mod 8 = 0" using less.prems(2) 2(2) by (metis add_0 mod_add_eq mod_0)
    then show ?thesis unfolding st(1) using st(2,3) by (intro less.hyps) auto
  next
    case 3
    then have "length ?tp = length c - k" by (auto simp: chunk_size_def min_def split: if_splits)
    then have "length c mod 8 \<noteq> 0" using 3 less.prems(2) by (metis dvd_diff_nat mod_eq_0_iff_dvd)
    moreover have "?tp \<noteq> []" using 3(1) by (simp add: chunk_size_def)
    ultimately show ?thesis using 3 k assms(1)
      by (simp add: read_chunks.simps [of sz "word_of_nat k"] word_less_nat_alt Let_def)
  qed
qed

text \<open>An image of a store, and a store that fits it: of the same size and zero.\<close>

definition image_of :: "'f GzLib \<Rightarrow> 'f StoreImage \<Rightarrow> nat \<Rightarrow> BackingStoreEntry \<Rightarrow> bool" where
  "image_of gz im k s \<longleftrightarrow> unat (si_store_id im) = k \<and> si_range_size im = range_size (bs_range s) \<and>
     gz_unpack gz (si_file im) = Some (bs_pmem s)"

definition store_wf :: "BackingStoreEntry \<Rightarrow> bool" where
  "store_wf s \<longleftrightarrow> length (bs_pmem s) = unat (range_size (bs_range s)) \<and> unat (range_size (bs_range s)) mod 8 = 0"

definition zero_store_for :: "BackingStoreEntry \<Rightarrow> BackingStoreEntry \<Rightarrow> bool" where
  "zero_store_for s z \<longleftrightarrow> bs_range z = bs_range s \<and> bs_pmem z = replicate (length (bs_pmem s)) 0"

lemma serializeStore_image:
  assumes "gz_works gz" "length (bs_pmem s) = unat (range_size (bs_range s))" "k < 2 ^ 32"
  shows "\<exists>im. serializeStore gz (word_of_nat k) (bs_range s) (bs_pmem s) = Inr im \<and> image_of gz im k s"
proof -
  obtain f where f: "gz_open_w gz = Some f" "gz_unpack gz f = Some []" using assms(1) by (auto simp: gz_works_def)
  obtain f' where f': "write_passes gz (bs_pmem s) (range_size (bs_range s)) 0 f = Inr f'" "gz_unpack gz f' = Some (bs_pmem s)"
    using write_passes_all [OF assms(1), of "bs_pmem s" _ f 0] assms(2) f(2) by auto
  then show ?thesis using f assms(1,3) by (simp add: serializeStore_def gz_works_def image_of_def unat_of_nat)
qed

lemma serialize_stores_images:
  assumes "gz_works gz" "\<forall>s \<in> set ss. length (bs_pmem s) = unat (range_size (bs_range s))" "k + length ss < 2 ^ 32"
  shows "\<exists>ims. serialize_stores gz (word_of_nat k) ss = Inr ims \<and> length ims = length ss \<and>
    (\<forall>j < length ss. image_of gz (ims ! j) (k + j) (ss ! j))"
  using assms(2,3)
proof (induction ss arbitrary: k)
  case (Cons s ss)
  obtain im where im: "serializeStore gz (word_of_nat k) (bs_range s) (bs_pmem s) = Inr im" "image_of gz im k s"
    using serializeStore_image [OF assms(1), of s k] Cons.prems by auto
  obtain ims where ims: "serialize_stores gz (word_of_nat (Suc k)) ss = Inr ims" "length ims = length ss"
    "\<forall>j < length ss. image_of gz (ims ! j) (Suc k + j) (ss ! j)"
    using Cons.IH [of "Suc k"] Cons.prems by auto
  have "(word_of_nat k :: u32) + 1 = word_of_nat (Suc k)" by simp
  then have "serialize_stores gz (word_of_nat k) (s # ss) = Inr (im # ims)" using im(1) ims(1) by (simp add: add.commute)
  then show ?case using im(2) ims(2,3) by (auto simp: nth_Cons' less_Suc_eq_0_disj)
qed simp

lemma unserializeStore_image:
  assumes "gz_works gz" "image_of gz im k s" "length (bs_pmem s) = unat (range_size (bs_range s))"
    and "k < length (backingStore pm)" "zero_store_for s (backingStore pm ! k)"
  shows "unserializeStore gz im pm = (if length (bs_pmem s) mod 8 = 0
    then Inr (pm\<lparr>backingStore := (backingStore pm)[k := (backingStore pm ! k)\<lparr>bs_pmem := bs_pmem s\<rparr>]\<rparr>) else Inl AssertFailed)"
proof -
  have "read_chunks (range_size (bs_range s)) 0 (bs_pmem s) (replicate (length (bs_pmem s)) 0) =
      (if length (bs_pmem s) mod 8 = 0 then Inr (bs_pmem s) else Inl AssertFailed)"
    using read_chunks_fresh [OF assms(3), of 0] by simp
  then show ?thesis using assms(1,2,4,5)
    by (simp add: unserializeStore_def image_of_def zero_store_for_def gz_works_def)
qed

lemma unserialize_stores_images:
  assumes "gz_works gz" "length ims = length ss" "k + length ss = length (backingStore pm)"
    and "\<forall>j < length ss. image_of gz (ims ! j) (k + j) (ss ! j) \<and> store_wf (ss ! j) \<and> zero_store_for (ss ! j) (backingStore pm ! (k + j))"
  shows "unserialize_stores gz ims pm = Inr (pm\<lparr>backingStore := take k (backingStore pm) @
    map2 (\<lambda>z s. z\<lparr>bs_pmem := bs_pmem s\<rparr>) (drop k (backingStore pm)) ss\<rparr>)"
  using assms(2-)
proof (induction ims arbitrary: ss k pm)
  case (Cons im ims)
  obtain s ss' where ss: "ss = s # ss'" using Cons.prems(1) by (cases ss) auto
  let ?bs = "(backingStore pm)[k := (backingStore pm ! k)\<lparr>bs_pmem := bs_pmem s\<rparr>]"
  have kl: "k < length (backingStore pm)" using Cons.prems(2) ss by simp
  have "image_of gz im k s" "store_wf s" "zero_store_for s (backingStore pm ! k)"
    using Cons.prems(3) ss by (auto dest: spec [of _ 0])
  then have st: "unserializeStore gz im pm = Inr (pm\<lparr>backingStore := ?bs\<rparr>)"
    using unserializeStore_image [OF assms(1), of im k s pm] kl by (simp add: store_wf_def)
  have "\<forall>j < length ss'. image_of gz (ims ! j) (Suc k + j) (ss' ! j) \<and> store_wf (ss' ! j) \<and> zero_store_for (ss' ! j) (?bs ! (Suc k + j))"
    using Cons.prems(3) ss by (auto dest: spec [of _ "Suc _"])
  then have "unserialize_stores gz ims (pm\<lparr>backingStore := ?bs\<rparr>) = Inr (pm\<lparr>backingStore := take (Suc k) ?bs @
      map2 (\<lambda>z s. z\<lparr>bs_pmem := bs_pmem s\<rparr>) (drop (Suc k) ?bs) ss'\<rparr>)"
    using Cons.IH [of ss' "Suc k" "pm\<lparr>backingStore := ?bs\<rparr>"] Cons.prems(1,2) ss by simp
  moreover have "take (Suc k) ?bs = take k (backingStore pm) @ [(backingStore pm ! k)\<lparr>bs_pmem := bs_pmem s\<rparr>]"
    using kl by (simp add: take_Suc_conv_app_nth)
  moreover have "drop k (backingStore pm) = backingStore pm ! k # drop (Suc k) (backingStore pm)"
    using kl by (simp add: Cons_nth_drop_Suc)
  ultimately show ?case using st ss by simp
qed simp

section \<open>The reservations\<close>

definition push_locks :: "LockedAddr list \<Rightarrow> MemObj \<Rightarrow> MemObj" where
  "push_locks ls ob = ob\<lparr>mo_mem := (mo_mem ob)\<lparr>lockedAddrList := lockedAddrList (mo_mem ob) @ ls\<rparr>\<rparr>"

text \<open>Reservations labelled with the memory they belong to, and those of one memory.\<close>

definition locks_at :: "nat \<Rightarrow> (nat \<times> LockedAddr) list \<Rightarrow> LockedAddr list" where
  "locks_at i L = map snd (filter (\<lambda>x. fst x = i) L)"

lemma locks_at_simps [simp]:
  "locks_at i [] = []" "locks_at i ((j, l) # L) = (if j = i then l # locks_at i L else locks_at i L)"
  "locks_at i (L @ M) = locks_at i L @ locks_at i M"
  by (simp_all add: locks_at_def)

lemma push_locks_simps [simp]:
  "push_locks [] ob = ob" "push_locks ls (push_locks ks ob) = push_locks (ks @ ls) ob"
  "am_range (mo_mem (push_locks ls ob)) = am_range (mo_mem ob)" "mo_store (push_locks ls ob) = mo_store ob"
  "lockedAddrList (mo_mem (push_locks ls ob)) = lockedAddrList (mo_mem ob) @ ls"
  by (simp_all add: push_locks_def)

lemma unserialize_locks_each:
  assumes "map_wf (pm_addrMap pm)" "\<forall>(i, l) \<in> set L. decode (pm_addrMap pm) (la_addr l) = Some i \<and> i < length (pm_objs pm)"
  shows "\<exists>mp. unserialize_locks (map (\<lambda>x. la_addr (snd x)) L) (map (\<lambda>x. la_contextId (snd x)) L) pm = Inr (pm\<lparr>pm_addrMap := mp,
      pm_objs := map (\<lambda>i. push_locks (locks_at i L) (pm_objs pm ! i)) [0..<length (pm_objs pm)]\<rparr>) \<and>
    map_wf mp \<and> tree mp = tree (pm_addrMap pm)"
  using assms
proof (induction L arbitrary: pm)
  case Nil
  then show ?case by (intro exI [of _ "pm_addrMap pm"]) (simp add: map_nth)
next
  case (Cons x L)
  obtain i l where x: "x = (i, l)" by (cases x)
  have dl: "decode (pm_addrMap pm) (la_addr l) = Some i" "i < length (pm_objs pm)" using Cons.prems(2) x by auto
  obtain mp1 where l1: "decoder_lookup 1 (la_addr l) (pm_addrMap pm) = Inr (Some i, mp1)" "map_wf mp1" "tree mp1 = tree (pm_addrMap pm)"
    using decoder_lookup_exact [OF Cons.prems(1), of 1 "la_addr l"] dl(1) by auto
  then obtain r where r: "map_contains_addr 1 (la_addr l) (pm_addrMap pm) = Inr (Some (r, i), mp1)"
    by (auto simp: decoder_lookup_def bindR_eq_Inr)
  let ?objs = "(pm_objs pm)[i := push_locks [l] (pm_objs pm ! i)]"
  let ?pm = "pm\<lparr>pm_addrMap := mp1, pm_objs := ?objs\<rparr>"
  have add: "addLockedAddr i \<lparr>la_addr = la_addr l, la_contextId = la_contextId l\<rparr> (pm\<lparr>pm_addrMap := mp1\<rparr>) = ?pm"
    by (cases l) (simp add: addLockedAddr_def Let_def push_locks_def)
  have dq: "decode mp1 = decode (pm_addrMap pm)" by (rule decode_cong_tree [OF l1(3)])
  have pre: "map_wf (pm_addrMap ?pm)" "\<forall>(i, l) \<in> set L. decode (pm_addrMap ?pm) (la_addr l) = Some i \<and> i < length (pm_objs ?pm)"
    using l1(2) Cons.prems(2) dq by simp_all
  obtain mp where mp: "unserialize_locks (map (\<lambda>x. la_addr (snd x)) L) (map (\<lambda>x. la_contextId (snd x)) L) ?pm =
      Inr (pm\<lparr>pm_addrMap := mp, pm_objs := map (\<lambda>j. push_locks (locks_at j L) (?objs ! j)) [0..<length ?objs]\<rparr>)"
    "map_wf mp" "tree mp = tree mp1"
    using Cons.IH [OF pre] by auto
  have eq: "map (\<lambda>j. push_locks (locks_at j L) (?objs ! j)) [0..<length ?objs] =
      map (\<lambda>j. push_locks (locks_at j (x # L)) (pm_objs pm ! j)) [0..<length (pm_objs pm)]"
    using dl(2) x by (auto simp: nth_list_update)
  have "unserialize_locks (map (\<lambda>x. la_addr (snd x)) (x # L)) (map (\<lambda>x. la_contextId (snd x)) (x # L)) pm =
      unserialize_locks (map (\<lambda>x. la_addr (snd x)) L) (map (\<lambda>x. la_contextId (snd x)) L) ?pm"
    using r add x by simp
  note res = this [unfolded mp(1) eq]
  show ?case by (intro exI [of _ mp] conjI) (rule res, rule mp(2), simp only: mp(3) l1(3))
qed

definition labelled_locks :: "PhysicalMemory \<Rightarrow> nat list \<Rightarrow> (nat \<times> LockedAddr) list" where
  "labelled_locks pm is = concat (map (\<lambda>i. map (Pair i) (lockedAddrList (mo_mem (pm_objs pm ! i)))) is)"

lemma labelled_locks_at:
  "distinct is \<Longrightarrow> locks_at i (labelled_locks pm is) = (if i \<in> set is then lockedAddrList (mo_mem (pm_objs pm ! i)) else [])"
proof (induction "is")
  case (Cons j "is")
  have "locks_at i (map (Pair j) ls) = (if i = j then ls else [])" for ls by (induction ls) auto
  then show ?case using Cons by (auto simp: labelled_locks_def)
qed (simp add: labelled_locks_def)

lemma labelled_locks_snd: "map (\<lambda>x. g (snd x)) (labelled_locks pm (pm_memories pm)) = map g (locked_addrs pm)"
  by (simp add: labelled_locks_def locked_addrs_def map_concat comp_def)

section \<open>The round trip\<close>

text \<open>A memory that can be checkpointed: all memories are in the map, the reservations of a memory lie in
  its range, every store holds a whole number of words, and their number fits in 32 bits.\<close>

definition ckpt_wf :: "PhysicalMemory \<Rightarrow> bool" where
  "ckpt_wf pm \<longleftrightarrow> phys_wf pm \<and> pm_memories pm = [0..<length (pm_objs pm)] \<and>
     (\<forall>i < length (pm_objs pm). \<forall>l \<in> set (lockedAddrList (obj_mem pm i)). contains (am_range (obj_mem pm i)) (la_addr l)) \<and>
     list_all store_wf (backingStore pm) \<and> length (backingStore pm) < 2 ^ 32"

text \<open>The same system, freshly constructed.\<close>

definition fresh_for :: "PhysicalMemory \<Rightarrow> PhysicalMemory \<Rightarrow> bool" where
  "fresh_for pm pm0 \<longleftrightarrow> phys_wf pm0 \<and>
     list_all2 (\<lambda>b b0. obj_range_of b0 = obj_range_of b \<and> mo_store b0 = mo_store b \<and> lockedAddrList (mo_mem b0) = [])
       (pm_objs pm) (pm_objs pm0) \<and>
     list_all2 zero_store_for (backingStore pm) (backingStore pm0)"

lemma phys_map_determined:
  assumes "phys_wf pm" "phys_wf pm'" "length (pm_objs pm') = length (pm_objs pm)"
    and "\<forall>i < length (pm_objs pm). am_range (obj_mem pm' i) = am_range (obj_mem pm i) \<and> pmem (obj_mem pm' i) = pmem (obj_mem pm i)"
  shows "phys_map pm' = phys_map pm"
proof
  fix a
  show "phys_map pm' a = phys_map pm a"
  proof (cases "\<exists>i < length (pm_objs pm). contains (am_range (obj_mem pm i)) a")
    case True
    then obtain i where i: "i < length (pm_objs pm)" "contains (am_range (obj_mem pm i)) a" by blast
    have "phys_map pm' a = byte_map (obj_mem pm' i) a" using phys_map_inside(2) [OF assms(2)] i assms(3,4) by metis
    also have "\<dots> = byte_map (obj_mem pm i) a" using byte_map_cong assms(4) i(1) by metis
    also have "\<dots> = phys_map pm a" using phys_map_inside(2) [OF assms(1) i] by simp
    finally show ?thesis .
  next
    case False
    have none: "decode (pm_addrMap q) a = None" if "phys_wf q" "length (pm_objs q) = length (pm_objs pm)"
      "\<forall>i < length (pm_objs pm). am_range (obj_mem q i) = am_range (obj_mem pm i)" for q
      unfolding decode_None using False that(2,3) phys_wf_entry [OF that(1)] by (metis prod.collapse)
    show ?thesis using none [OF assms(1)] none [OF assms(2)] assms(3,4) by (simp add: phys_map_def)
  qed
qed

text \<open>The fresh system with the reservations and the bytes put in is the old one.\<close>

definition restored :: "PhysicalMemory \<Rightarrow> PhysicalMemory \<Rightarrow> nat AddrRangeMap \<Rightarrow> PhysicalMemory" where
  "restored pm pm0 mp = pm0\<lparr>pm_addrMap := mp,
     pm_objs := map (\<lambda>i. push_locks (locks_at i (labelled_locks pm (pm_memories pm))) (pm_objs pm0 ! i)) [0..<length (pm_objs pm0)],
     backingStore := map2 (\<lambda>z s. z\<lparr>bs_pmem := bs_pmem s\<rparr>) (backingStore pm0) (backingStore pm)\<rparr>"

lemma fresh_for_nth:
  assumes "fresh_for pm pm0"
  shows "length (pm_objs pm0) = length (pm_objs pm)" "length (backingStore pm0) = length (backingStore pm)"
    and "i < length (pm_objs pm) \<Longrightarrow> obj_range_of (pm_objs pm0 ! i) = obj_range_of (pm_objs pm ! i) \<and>
      mo_store (pm_objs pm0 ! i) = mo_store (pm_objs pm ! i) \<and> lockedAddrList (mo_mem (pm_objs pm0 ! i)) = []"
  using assms unfolding fresh_for_def list_all2_conv_all_nth by auto

lemma restored_mem:
  assumes "ckpt_wf pm" "fresh_for pm pm0" "i < length (pm_objs pm)"
  shows "am_range (obj_mem (restored pm pm0 mp) i) = am_range (obj_mem pm i)"
    "pmem (obj_mem (restored pm pm0 mp) i) = pmem (obj_mem pm i)"
    "lockedAddrList (obj_mem (restored pm pm0 mp) i) = lockedAddrList (obj_mem pm i)"
proof -
  note f = fresh_for_nth [OF assms(2)]
  obtain s where s: "mo_store (pm_objs pm ! i) = Some s" "s < length (backingStore pm)"
    using assms(1,3) by (auto simp: ckpt_wf_def phys_wf_def)
  have "locks_at i (labelled_locks pm (pm_memories pm)) = lockedAddrList (mo_mem (pm_objs pm ! i))"
    using assms(1,3) by (simp add: ckpt_wf_def labelled_locks_at)
  then show "am_range (obj_mem (restored pm pm0 mp) i) = am_range (obj_mem pm i)"
    "pmem (obj_mem (restored pm pm0 mp) i) = pmem (obj_mem pm i)"
    "lockedAddrList (obj_mem (restored pm pm0 mp) i) = lockedAddrList (obj_mem pm i)"
    using assms(3) f s by (simp_all add: obj_mem_def restored_def)
qed

lemma restored_wf:
  assumes "ckpt_wf pm" "fresh_for pm pm0" "map_wf mp" "tree mp = tree (pm_addrMap pm0)"
  shows "phys_wf (restored pm pm0 mp)" "phys_map (restored pm pm0 mp) = phys_map pm"
proof -
  let ?pm = "restored pm pm0 mp" and ?n = "length (pm_objs pm)"
  note f = fresh_for_nth [OF assms(2)] and r = restored_mem [OF assms(1,2)]
  have pw: "phys_wf pm" "phys_wf pm0" using assms(1,2) by (simp_all add: ckpt_wf_def fresh_for_def)
  have n: "length (pm_objs ?pm) = ?n" "length (backingStore ?pm) = length (backingStore pm0)"
    using f(1,2) by (simp_all add: restored_def)
  have "ranges_of (pm_objs ?pm) [0..<?n] = ranges_of (pm_objs pm0) [0..<?n]" by (simp add: ranges_of_def restored_def f(1))
  moreover have "mem_wf (obj_mem ?pm i)" if "i < ?n" for i
    using pw(1) that r [OF that] mem_wf_cong [of "obj_mem ?pm i" "obj_mem pm i"] by (simp add: phys_wf_def)
  moreover have "mo_store (pm_objs ?pm ! i) = mo_store (pm_objs pm0 ! i)" if "i < ?n" for i
    using that f(1) by (simp add: restored_def)
  moreover have "pm_addrMap ?pm = mp" by (simp add: restored_def)
  ultimately show w: "phys_wf ?pm" using pw(2) assms(3,4) n f(1) by (simp add: phys_wf_def inj_on_def)
  show "phys_map ?pm = phys_map pm" using r n(1) by (intro phys_map_determined pw(1) w) auto
qed


text \<open>A store whose size is not a multiple of the eight bytes of a word can be written to a checkpoint,
  but the checkpoint can never be restored: the reader stops with a failed assertion.\<close>
theorem odd_store_not_restored:
  assumes "gz_works gz" "length (bs_pmem s) = unat (range_size (bs_range s))" "k < 2 ^ 32"
    and "length (bs_pmem s) mod 8 \<noteq> 0" "k < length (backingStore pm)" "zero_store_for s (backingStore pm ! k)"
  shows "\<exists>im. serializeStore gz (word_of_nat k) (bs_range s) (bs_pmem s) = Inr im \<and> unserializeStore gz im pm = Inl AssertFailed"
  using serializeStore_image [OF assms(1-3)] unserializeStore_image [OF assms(1) _ assms(2,5,6)] assms(4) by fastforce

section \<open>Examples\<close>

text \<open>A library that stores files as they are.\<close>

definition gz_plain :: "u8 list GzLib" where
  "gz_plain = \<lparr>gz_open_w = Some [], gz_write = (\<lambda>f bs. (f @ bs, int (length bs))), gz_close = (\<lambda>_. 0), gz_unpack = Some\<rparr>"

lemma gz_plain_works: "gz_works gz_plain"
  by (simp add: gz_works_def gz_plain_def)

definition small_sys :: "u8 list \<Rightarrow> LockedAddr list \<Rightarrow> PhysicalMemory" where
  "small_sys bytes ls = \<lparr>pm_addrMap = \<lparr>tree = [(RangeSize 0x1000 8, 0)], cache = []\<rparr>,
     pm_objs = [push_locks ls ((new_obj (RangeSize 0x1000 8))\<lparr>mo_store := Some 0\<rparr>)], pm_memories = [0], pm_size = 8,
     backingStore = [\<lparr>bs_range = RangeSize 0x1000 8, bs_pmem = bytes, bs_confTableReported = True, bs_inAddrMap = True,
       bs_kvmMap = True\<rparr>]\<rparr>"


theorem odd_store_not_restored_witness:
  "\<exists>im. serializeStore gz_plain (word_of_nat 1) (RangeSize 0x2000 2) [5, 6] = Inr im \<and>
    unserializeStore gz_plain im (two_mems\<lparr>backingStore := map (\<lambda>s. s\<lparr>bs_pmem := replicate (length (bs_pmem s)) 0\<rparr>)
      (backingStore two_mems)\<rparr>) = Inl AssertFailed"
proof -
  let ?s = "backingStore two_mems ! 1"
  let ?pm = "two_mems\<lparr>backingStore := map (\<lambda>s. s\<lparr>bs_pmem := replicate (length (bs_pmem s)) 0\<rparr>) (backingStore two_mems)\<rparr>"
  have s: "bs_range ?s = RangeSize 0x2000 2" "bs_pmem ?s = [5, 6]" "length (bs_pmem ?s) = unat (range_size (bs_range ?s))"
    "length (bs_pmem ?s) mod 8 \<noteq> 0" "1 < length (backingStore ?pm)" "zero_store_for ?s (backingStore ?pm ! 1)"
    by code_simp+
  show ?thesis using odd_store_not_restored [OF gz_plain_works s(3) _ s(4-6)] unfolding s(1,2) by simp
qed

end
