(* ===== verification/PIM_Host.thy ===== *)
theory PIM_Host
  imports PIM_Safety
begin

text \<open>
  The host side of PIM operations: the pseudo instructions of \<^verbatim>\<open>src/sim/pseudo_inst.cc\<close> and the
  handlers \<^verbatim>\<open>PIMCommand\<close>, \<^verbatim>\<open>retryPIM\<close>, \<^verbatim>\<open>stopCurrent\<close>, \<^verbatim>\<open>PIMProcess\<close> and \<^verbatim>\<open>HostProcess\<close> of
  \<^verbatim>\<open>src/cpu/simple/timing.cc\<close>. A command translates its three virtual addresses, flushes them from
  the caches, and sends the command packet to the kernel; if a translation faults, the command is kept
  and retried at the next clock edge.

  The address translation of the processor's TLB is a parameter that may answer differently on every
  call; so are the caches, as in \<^verbatim>\<open>Abstract_Mem\<close>, and the lookup of simulation objects by name. What
  leaves a handler is the list of packets sent functionally.
\<close>

section \<open>State\<close>

datatype CpuStatus = CpuIdle | Running | Faulting | ITBWaitResponse | IcacheRetry | IcacheWaitResponse
  | IcacheWaitSwitch | DTBWaitResponse | DcacheRetry | DcacheWaitResponse | DcacheWaitSwitch

record 'c PIMHost =
  h_cpuId :: int
  h_ispim :: bool
  h_host_id :: int
  h_status :: CpuStatus
  h_curThread :: int
  h_pim_addr_base :: Addr
  pCaches :: "'c list"
  pendingPIM :: "PIMSenderState list"
  pimEvent :: "Tick option"
  h_clock :: Clock

record 'c host_env =
  he_env :: env
  he_pc :: Addr
  he_context :: int
  he_master :: "16 word"
  he_translate :: "Request \<Rightarrow> Request option"
  he_check :: "'c \<Rightarrow> Addr \<Rightarrow> bool"
  he_flush :: "'c flush_op"
  he_find_mem :: "string \<Rightarrow> AbstractMemory option"

definition NO_ACCESS :: u64 where "NO_ACCESS = 0x00080000"

definition schedule_pim :: "'c host_env \<Rightarrow> 'c PIMHost \<Rightarrow> 'c PIMHost res" where
  "schedule_pim e h =
     (let (t, c) = clockEdge (e_period (he_env e)) (e_now (he_env e)) 1 (h_clock h) in
      bindR (schedule_ev (he_env e) t (pimEvent h)) (\<lambda>ev. ok (h\<lparr>h_clock := c, pimEvent := ev\<rparr>)))"

section \<open>A command\<close>

text \<open>The loop over the addresses: it ends at the first fault.\<close>

fun translate_all :: "'c host_env \<Rightarrow> Addr list \<Rightarrow> Addr list option res" where
  "translate_all e [] = ok (Some [])"
| "translate_all e (a # as) =
     (case he_translate e (Request_virt 0 a 1 NO_ACCESS (he_master e) (he_pc e) (he_context e) (e_now (he_env e))) of
        None \<Rightarrow> ok None
      | Some r \<Rightarrow> bindR (getPaddr r) (\<lambda>p. bindR (translate_all e as) (\<lambda>ps. ok (map_option (Cons p) ps))))"

text \<open>Cache \<open>i\<close> gives up operand \<open>i\<close>.\<close>

fun flush_operands :: "'c host_env \<Rightarrow> Addr list \<Rightarrow> nat \<Rightarrow> 'c list \<Rightarrow> ('c list \<times> Packet list) res" where
  "flush_operands e as i [] = ok ([], [])"
| "flush_operands e as i (c # cs) =
     bindR (vec_at as i) (\<lambda>a.
     (let (c', ws) = flush_one (he_check e) (he_flush e) a (c, []) in
      bindR (flush_operands e as (Suc i) cs) (\<lambda>(cs', ws'). ok (c' # cs', ws @ ws'))))"

definition find_memory :: "'c host_env \<Rightarrow> AbstractMemory option" where
  "find_memory e = (case he_find_mem e ''system.mem_ctrls'' of
     Some m \<Rightarrow> Some m
   | None \<Rightarrow> he_find_mem e ''system.hmc_dev.mem_ctrls00'')"

definition PIMCommand :: "'c host_env \<Rightarrow> Addr \<Rightarrow> Addr \<Rightarrow> Addr \<Rightarrow> 'c PIMHost \<Rightarrow> (bool \<times> 'c PIMHost \<times> Packet list) res" where
  "PIMCommand e in1 in2 out1 h =
     (let v = (PIMSenderState_virtual (e_junk (he_env e)) (e_now (he_env e)) in1 in2 out1 (h_cpuId h))
                \<lparr>ps_threadid := h_curThread h\<rparr>;
          (pend, vdata) = (if pendingPIM h \<noteq> [] then (pendingPIM h @ [v], hd (pendingPIM h)) else (pendingPIM h, v)) in
      bindR (translate_all e (ps_addr vdata)) (\<lambda>tr.
        case tr of
          None \<Rightarrow> bindR (schedule_pim e (h\<lparr>pendingPIM := pend @ [vdata]\<rparr>)) (\<lambda>h'. ok (False, h', []))
        | Some pimpAddr \<Rightarrow>
            assertR (pimEvent h = None)
            (bindR (kernel_packet (he_env e) PIM (h_pim_addr_base h) 1 [e_fill (he_env e)]
                      (PIMSenderState_vector (e_junk (he_env e)) (e_now (he_env e)) pimpAddr (h_cpuId h))) (\<lambda>pkt.
             bindR (flush_operands e pimpAddr 0 (pCaches h)) (\<lambda>(cs, ws).
             case find_memory e of
               None \<Rightarrow> fail AssertFailed
             | Some mem \<Rightarrow>
                 bindR (vec_at pimpAddr 0) (\<lambda>a0.
                 bindR (functionalData a0 8 (replicate 8 (e_fill (he_env e))) mem) (\<lambda>_.
                   ok (True, h\<lparr>pendingPIM := pend, pCaches := cs, h_status := Running\<rparr>, ws @ [pkt]))))))))"

text \<open>The end of a retry: a command that was sent leaves the queue, and a queue that is not empty is retried.\<close>

definition after_retry :: "'c host_env \<Rightarrow> bool \<Rightarrow> 'c PIMHost \<Rightarrow> 'c PIMHost res" where
  "after_retry e sent h1 =
     (let h2 = (if sent then h1\<lparr>pendingPIM := tl (pendingPIM h1), h_status := Running\<rparr> else h1) in
      if pendingPIM h2 \<noteq> [] then assertR (pimEvent h2 = None) (schedule_pim e h2) else ok h2)"

definition retryPIM :: "'c host_env \<Rightarrow> 'c PIMHost \<Rightarrow> ('c PIMHost \<times> Packet list) res" where
  "retryPIM e h =
     (if pendingPIM h \<noteq> [] then
        (let f = hd (pendingPIM h) in
         bindR (vec_at (ps_addr f) 0) (\<lambda>a0. bindR (vec_at (ps_addr f) 1) (\<lambda>a1. bindR (vec_at (ps_addr f) 2) (\<lambda>a2.
         bindR (PIMCommand e a0 a1 a2 h) (\<lambda>(sent, h1, ms).
           bindR (after_retry e sent h1) (\<lambda>h2. ok (h2, ms)))))))
      else ok (h, []))"

text \<open>\<^verbatim>\<open>stopCurrent\<close>: whether the access is blocked, and the contexts suspended.\<close>

definition stopCurrent :: "'c host_env \<Rightarrow> Packet \<Rightarrow> 'c PIMHost \<Rightarrow> (bool \<times> int list) res" where
  "stopCurrent e pkt h = (case find_memory e of
     None \<Rightarrow> fail AssertFailed
   | Some m \<Rightarrow> bindR (stalledAddr pkt m) (\<lambda>b. ok (b, if b then [he_context e] else [])))"

section \<open>Moving a process\<close>

text \<open>What \<^verbatim>\<open>PIMProcess\<close> and \<^verbatim>\<open>HostProcess\<close> tell the processors, in order.\<close>

datatype handover = AdvancePC | TakeOver string | HaltContext int | SetHostId string int | ActivateContext string int

text \<open>\<^verbatim>\<open>std::to_string\<close> of an \<^verbatim>\<open>int\<close>.\<close>

fun nat_to_string :: "nat \<Rightarrow> string" where
  "nat_to_string n = (if n < 10 then [char_of (48 + n)] else nat_to_string (n div 10) @ [char_of (48 + n mod 10)])"

definition int_to_string :: "int \<Rightarrow> string" where
  "int_to_string i = (if i < 0 then CHR ''-'' # nat_to_string (nat (- i)) else nat_to_string (nat i))"

definition find_cpu :: "(string \<Rightarrow> bool) \<Rightarrow> string \<Rightarrow> int \<Rightarrow> string option" where
  "find_cpu exists base i = (if exists base then Some base
     else if exists (base @ int_to_string i) then Some (base @ int_to_string i) else None)"

definition cpu_PIMProcess :: "(string \<Rightarrow> bool) \<Rightarrow> int \<Rightarrow> 'c PIMHost \<Rightarrow> handover list res" where
  "cpu_PIMProcess exists pim_id h =
     (if h_ispim h then ok [AdvancePC]
      else case find_cpu exists ''system.pim_cpu'' pim_id of
        None \<Rightarrow> fail FatalError
      | Some c \<Rightarrow> ok [TakeOver c, HaltContext (h_curThread h), SetHostId c (h_cpuId h), ActivateContext c 0])"

definition cpu_HostProcess :: "(string \<Rightarrow> bool) \<Rightarrow> 'c PIMHost \<Rightarrow> handover list res" where
  "cpu_HostProcess exists h =
     assertR (h_ispim h) (assertR (h_host_id h \<ge> 0)
     (case find_cpu exists ''system.cpu'' (h_host_id h) of
        None \<Rightarrow> fail FatalError
      | Some c \<Rightarrow> ok [TakeOver c, HaltContext (h_curThread h), ActivateContext c 0]))"

section \<open>The pseudo instructions\<close>

definition inst_PIM :: "string \<Rightarrow> 'c host_env \<Rightarrow> Addr \<Rightarrow> Addr \<Rightarrow> Addr \<Rightarrow> 'c PIMHost \<Rightarrow> (bool \<times> 'c PIMHost \<times> Packet list) res" where
  "inst_PIM pim_type e in1 in2 out1 h =
     (if pim_type = ''default'' then fail FatalError
      else if pim_type = ''cpu'' then fail FatalError
      else PIMCommand e in1 in2 out1 h)"

definition inst_PIMProcess :: "string \<Rightarrow> (string \<Rightarrow> bool) \<Rightarrow> int \<Rightarrow> 'c PIMHost \<Rightarrow> handover list res" where
  "inst_PIMProcess pim_type exists pim_id h =
     (if pim_type = ''default'' then fail FatalError
      else if pim_type = ''kernel'' then fail FatalError
      else cpu_PIMProcess exists pim_id h)"

definition inst_HostProcess :: "string \<Rightarrow> (string \<Rightarrow> bool) \<Rightarrow> 'c PIMHost \<Rightarrow> handover list res" where
  "inst_HostProcess pim_type exists h =
     (if pim_type = ''default'' then fail FatalError
      else if pim_type = ''kernel'' then fail FatalError
      else if \<not> h_ispim h then fail FatalError
      else cpu_HostProcess exists h)"

section \<open>What a command does\<close>

abbreviation vreq :: "'c host_env \<Rightarrow> Addr \<Rightarrow> Request" where
  "vreq e a \<equiv> Request_virt 0 a 1 NO_ACCESS (he_master e) (he_pc e) (he_context e) (e_now (he_env e))"

text \<open>The processor translates the addresses by a function; none of them faults.\<close>

definition translates :: "'c host_env \<Rightarrow> (Addr \<Rightarrow> Addr) \<Rightarrow> Addr list \<Rightarrow> bool" where
  "translates e tr as \<longleftrightarrow> list_all (\<lambda>a. case he_translate e (vreq e a) of None \<Rightarrow> False | Some r \<Rightarrow> getPaddr r = Inr (tr a)) as"

lemma translate_all_ok: "translates e tr as \<Longrightarrow> translate_all e as = Inr (Some (map tr as))"
  by (induction as) (auto simp: translates_def split: option.splits)

lemma flush_operands_each:
  "flush_operands e as i cs = Inr (cs', ws) \<Longrightarrow> length cs' = length cs \<and> (cs \<noteq> [] \<longrightarrow> i + length cs \<le> length as) \<and>
    (\<forall>k < length cs. cs' ! k = fst (flush_one (he_check e) (he_flush e) (as ! (i + k)) (cs ! k, [])))"
proof (induction cs arbitrary: i cs' ws)
  case (Cons c cs)
  obtain a where "vec_at as i = Inr a" using Cons.prems by (auto simp: bindR_eq_Inr)
  then have a: "i < length as" "a = as ! i" by (simp_all add: vec_at_eq_Inr)
  obtain c1 ws1 where fo: "flush_one (he_check e) (he_flush e) a (c, []) = (c1, ws1)" by fastforce
  obtain cs1 ws2 where s: "flush_operands e as (Suc i) cs = Inr (cs1, ws2)" "cs' = c1 # cs1"
    using Cons.prems a fo by (auto simp: bindR_eq_Inr)
  note IH = Cons.IH [OF s(1)]
  have "cs' ! k = fst (flush_one (he_check e) (he_flush e) (as ! (i + k)) ((c # cs) ! k, []))" if "k < length (c # cs)" for k
    using that IH s(2) fo a(2) by (cases k) auto
  then show ?case using IH s(2) a(1) by (cases cs) auto
qed simp

lemma flush_operands_short:
  "i \<le> length as \<Longrightarrow> length as < i + length cs \<Longrightarrow> flush_operands e as i cs = Inl OutOfRange"
proof (induction cs arbitrary: i)
  case (Cons c cs)
  show ?case
  proof (cases "i < length as")
    case True
    then have "flush_operands e as (Suc i) cs = Inl OutOfRange" using Cons.prems(2) by (intro Cons.IH) auto
    then show ?thesis using True by (simp split: prod.split)
  qed (simp add: vec_at_def)
qed simp

text \<open>The packet of a command.\<close>

definition command_pkt :: "'c host_env \<Rightarrow> 'c PIMHost \<Rightarrow> Addr list \<Rightarrow> Packet" where
  "command_pkt e h ps = kernel_pkt (he_env e) PIM (h_pim_addr_base h) 1 [e_fill (he_env e)]
     (PIMSenderState_vector (e_junk (he_env e)) (e_now (he_env e)) ps (h_cpuId h))"

text \<open>The command worked on: the oldest that is waiting, or the new one.\<close>

definition worked_on :: "'c host_env \<Rightarrow> Addr \<Rightarrow> Addr \<Rightarrow> Addr \<Rightarrow> 'c PIMHost \<Rightarrow> Addr list" where
  "worked_on e in1 in2 out1 h = (if pendingPIM h \<noteq> [] then ps_addr (hd (pendingPIM h)) else [in1, in2, out1])"

lemma PIMCommand_sent:
  assumes "PIMCommand e in1 in2 out1 h = Inr (True, h', ms)"
  shows "\<exists>ps cs ws. translate_all e (worked_on e in1 in2 out1 h) = Inr (Some ps) \<and>
    flush_operands e ps 0 (pCaches h) = Inr (cs, ws) \<and> pCaches h' = cs \<and> ms = ws @ [command_pkt e h ps] \<and>
    pimEvent h = None \<and> pimEvent h' = None \<and> h_status h' = Running \<and>
    (if pendingPIM h = [] then pendingPIM h' = [] else \<exists>v. pendingPIM h' = pendingPIM h @ [v] \<and> ps_addr v = [in1, in2, out1])"
  using assms by (cases "pendingPIM h = []")
    (auto simp: PIMCommand_def Let_def worked_on_def PIMSenderState_virtual_def bindR_eq_Inr assertR_eq_Inr
      kernel_packet_pkt command_pkt_def split: option.splits if_splits)

text \<open>C5: From the instruction to the result. A PIM instruction that is accepted works on the oldest command that
  waits, or on its own if none does: it takes the translation of operand \<open>i\<close> out of cache \<open>i\<close> and no other
  address out of it, it queues its own command behind those that wait, and its last packet is a command to
  the kernel for the three translated addresses. The kernel, if it is ready, takes that command, and
  whenever it is idle again the memory holds at the translation of the result address the operation applied
  to the words that were at the translations of the operand addresses, and no other byte has changed.
  The hypotheses: the addresses translate without a fault; the three translated words lie in the memory,
  no operation is registered and nothing reserved there, the unit can compute the operation (a division
  needs a divisor), the processors are timing ones, the caches of \<^verbatim>\<open>system.cpu\<close> that completion flushes
  hold none of the three addresses any more, and the last tick considered is far enough from the end of
  time (\<^const>\<open>job_ok\<close>); the kernel is idle or off with three registers and nothing is in
  flight (\<^const>\<open>ready_world\<close>); and the port does not refuse the write of the result (\<^const>\<open>reach\<close>).\<close>
theorem host_pim_end_to_end:
  assumes "inst_PIM pim_type e in1 in2 out1 h = Inr (True, h', ms)" "translates e tr (worked_on e in1 in2 out1 h)"
    and "job_ok sp j" "j_addr j = map tr (worked_on e in1 in2 out1 h)" "ready_world sp j w0" "env_ok sp w0 ke"
  shows "pcmd (last ms) = PIM \<and> paddr (last ms) = h_pim_addr_base h \<and> h_status h' = Running \<and>
    (if pendingPIM h = [] then pendingPIM h' = [] else \<exists>v. pendingPIM h' = pendingPIM h @ [v] \<and> ps_addr v = [in1, in2, out1]) \<and>
    length (pCaches h') = length (pCaches h) \<and>
    (\<forall>i < length (pCaches h). i < 3 \<and> pCaches h' ! i = fst (flush_one (he_check e) (he_flush e) (j_addr j ! i) (pCaches h ! i, []))) \<and>
    (\<exists>w1. command sp ke (last ms) w0 = Inr w1 \<and>
      (\<forall>w. reach sp w1 w \<and> status (kern w) = Idle \<longrightarrow>
        (\<exists>r. compute_op (unit_kind (kern w0)) (word_at (wmem w0) (j_addr j ! 0)) (word_at (wmem w0) (j_addr j ! 1)) = Inr r \<and>
          word_at (wmem w) (j_addr j ! 2) = r) \<and>
        (\<forall>a. \<not> (j_addr j ! 2 \<le> a \<and> unat a < unat (j_addr j ! 2) + 8) \<longrightarrow> byte_map (wmem w) a = byte_map (wmem w0) a) \<and>
        pendingPIMqueue (wmem w) = []))"
proof -
  have c: "PIMCommand e in1 in2 out1 h = Inr (True, h', ms)" using assms(1) by (simp add: inst_PIM_def split: if_splits)
  have t: "translate_all e (worked_on e in1 in2 out1 h) = Inr (Some (j_addr j))"
    using translate_all_ok [OF assms(2)] assms(4) by simp
  obtain cs ws where s: "flush_operands e (j_addr j) 0 (pCaches h) = Inr (cs, ws)" "pCaches h' = cs"
    "ms = ws @ [command_pkt e h (j_addr j)]" "h_status h' = Running"
    "if pendingPIM h = [] then pendingPIM h' = [] else \<exists>v. pendingPIM h' = pendingPIM h @ [v] \<and> ps_addr v = [in1, in2, out1]"
    using PIMCommand_sent [OF c] t by auto
  have l: "length (j_addr j) = 3" using assms(3) by (simp add: job_ok_def)
  have f: "length (pCaches h') = length (pCaches h)"
    "\<forall>i < length (pCaches h). i < 3 \<and> pCaches h' ! i = fst (flush_one (he_check e) (he_flush e) (j_addr j ! i) (pCaches h ! i, []))"
    using flush_operands_each [OF s(1)] s(2) l by auto
  have p: "pimState (last ms) = Some (PIMSenderState_vector (e_junk (he_env e)) (e_now (he_env e)) (j_addr j) (h_cpuId h))"
    "pcmd (last ms) = PIM" "paddr (last ms) = h_pim_addr_base h"
    using s(3) by (simp_all add: command_pkt_def)
  have a: "ps_addr (PIMSenderState_vector (e_junk (he_env e)) (e_now (he_env e)) (j_addr j) (h_cpuId h)) = j_addr j"
    by (simp add: PIMSenderState_vector_def)
  obtain w1 where w1: "command sp ke (last ms) w0 = Inr w1"
    using command_starts [OF assms(3,5,6) p(1) a] by blast
  note r = pim_result [OF assms(3,5,6) p(1) a w1]
  show ?thesis using p(2,3) s(4,5) f w1 r by blast
qed

section \<open>Retries\<close>

primrec retries :: "'c host_env list \<Rightarrow> 'c PIMHost \<Rightarrow> ('c PIMHost \<times> Packet list) res" where
  "retries [] h = ok (h, [])"
| "retries (e # es) h =
     bindR (retryPIM e (h\<lparr>pimEvent := None\<rparr>)) (\<lambda>(h1, ms). bindR (retries es h1) (\<lambda>(h2, ms'). ok (h2, ms @ ms')))"

definition is_command_for :: "Addr list \<Rightarrow> Packet \<Rightarrow> bool" where
  "is_command_for ps p \<longleftrightarrow> pcmd p = PIM \<and> (case pimState p of None \<Rightarrow> False | Some st \<Rightarrow> ps_addr st = ps)"

lemma schedule_pim_ok:
  "schedule_pim e h = Inr h' \<Longrightarrow> pimEvent h = None \<and> pimEvent h' \<noteq> None \<and> pendingPIM h' = pendingPIM h"
  by (auto simp: schedule_pim_def schedule_ev_def bindR_eq_Inr assertR_eq_Inr split: prod.splits)

lemma schedule_pim_error: "schedule_pim e h = Inl f \<Longrightarrow> f = AssertFailed"
  by (auto simp: schedule_pim_def schedule_ev_def assertR_def bindR_def split: prod.splits if_splits sum.splits)

text \<open>One retry that goes through: the command is sent, and a copy of it is waiting again.\<close>

lemma retryPIM_resends:
  assumes "pendingPIM h = [s]" "ps_addr s = [a, b, c]" "translates e tr [a, b, c]" "retryPIM e h = Inr (h', ms)"
  shows "\<exists>s'. pendingPIM h' = [s'] \<and> ps_addr s' = [a, b, c] \<and> pimEvent h' \<noteq> None \<and>
    (\<exists>ws p. ms = ws @ [p] \<and> is_command_for (map tr [a, b, c]) p)"
proof -
  have t: "translate_all e [a, b, c] = Inr (Some (map tr [a, b, c]))" by (rule translate_all_ok [OF assms(3)])
  obtain sent h1 where c: "PIMCommand e a b c h = Inr (sent, h1, ms)" and a: "after_retry e sent h1 = Inr h'"
    using assms(1,2,4) by (auto simp: retryPIM_def Let_def vec_at_def bindR_eq_Inr)
  have sent: "sent = True"
    using c t assms(1,2) by (auto simp: PIMCommand_def Let_def bindR_eq_Inr assertR_eq_Inr split: option.splits prod.splits)
  obtain ws v where s: "ms = ws @ [command_pkt e h (map tr [a, b, c])]" "pendingPIM h1 = [s, v]" "ps_addr v = [a, b, c]"
    using PIMCommand_sent [OF c [unfolded sent]] t assms(1,2) by (auto simp: worked_on_def)
  let ?h = "h1\<lparr>pendingPIM := tl (pendingPIM h1), h_status := Running\<rparr>"
  have "schedule_pim e ?h = Inr h'" using a sent s(2) by (simp add: after_retry_def assertR_def split: if_splits)
  from schedule_pim_ok [OF this] s show ?thesis
    by (auto simp: is_command_for_def command_pkt_def PIMSenderState_vector_def)
qed

text \<open>C37: A command that had to wait once is never taken off the queue: every retry that goes through sends the
  command again and leaves a copy of it waiting, so \<open>n\<close> retries send it \<open>n\<close> times.\<close>
theorem retry_never_drains:
  assumes "pendingPIM h = [s]" "ps_addr s = [a, b, c]" "\<forall>e \<in> set es. translates e tr [a, b, c]"
    and "retries es h = Inr (h', ms)"
  shows "(\<exists>s'. pendingPIM h' = [s'] \<and> ps_addr s' = [a, b, c]) \<and>
    length es \<le> length (filter (is_command_for (map tr [a, b, c])) ms)"
  using assms
proof (induction es arbitrary: h s ms)
  case (Cons e es)
  obtain h1 ms1 ms2 where r: "retryPIM e (h\<lparr>pimEvent := None\<rparr>) = Inr (h1, ms1)" "retries es h1 = Inr (h', ms2)" "ms = ms1 @ ms2"
    using Cons.prems(4) by (auto simp: bindR_eq_Inr)
  obtain s1 ws p where s1: "pendingPIM h1 = [s1]" "ps_addr s1 = [a, b, c]" "ms1 = ws @ [p]" "is_command_for (map tr [a, b, c]) p"
    using retryPIM_resends [OF _ Cons.prems(2) _ r(1), of tr] Cons.prems(1,3) by auto
  show ?case using Cons.IH [OF s1(1,2) _ r(2)] Cons.prems(3) r(3) s1(3,4) by auto
qed simp

text \<open>A retry whose translation faults again stops the simulator: the handler that keeps the command schedules
  the retry, and the retry then asserts that none is scheduled.\<close>
theorem retry_fault_stops:
  assumes "pendingPIM h \<noteq> []" "ps_addr (hd (pendingPIM h)) = [a, b, c]" "translate_all e [a, b, c] = Inr None"
  shows "retryPIM e h = Inl AssertFailed"
proof -
  obtain v where c: "PIMCommand e a b c h =
      bindR (schedule_pim e (h\<lparr>pendingPIM := pendingPIM h @ [v, hd (pendingPIM h)]\<rparr>)) (\<lambda>h'. ok (False, h', []))"
    using assms by (auto simp: PIMCommand_def Let_def)
  show ?thesis
  proof (cases "schedule_pim e (h\<lparr>pendingPIM := pendingPIM h @ [v, hd (pendingPIM h)]\<rparr>)")
    case (Inl f)
    then show ?thesis using schedule_pim_error [OF Inl] c assms(1,2) by (simp add: retryPIM_def Let_def vec_at_def)
  next
    case (Inr h1)
    then have "after_retry e False h1 = Inl AssertFailed" using schedule_pim_ok [OF Inr] by (auto simp: after_retry_def)
    then show ?thesis using Inr c assms(1,2) by (simp add: retryPIM_def Let_def vec_at_def)
  qed
qed

section \<open>Examples\<close>

text \<open>A processor with one cache that holds nothing, whose pages are mapped 4096 bytes up.\<close>

definition up_page :: "Addr \<Rightarrow> Addr" where "up_page a = a + 0x1000"

definition ex_host_env :: "Tick \<Rightarrow> bool \<Rightarrow> unit host_env" where
  "ex_host_env t mapped = \<lparr>he_env = ex_env t True, he_pc = 0, he_context = 0, he_master = 0,
     he_translate = (\<lambda>r. if mapped then Some (setPaddr (up_page (req_vaddr r)) r) else None),
     he_check = (\<lambda>_ _. False), he_flush = (\<lambda>c _. (c, None)),
     he_find_mem = (\<lambda>n. if n = ''system.mem_ctrls'' then Some ex_mem else None)\<rparr>"

definition ex_host :: "unit PIMHost" where
  "ex_host = \<lparr>h_cpuId = 0, h_ispim = False, h_host_id = 0, h_status = Running, h_curThread = 0, h_pim_addr_base = 0x2000,
     pCaches = [()], pendingPIM = [], pimEvent = None, h_clock = Clock_init\<rparr>"

lemma ex_host_translates: "translates (ex_host_env t True) up_page as"
  by (simp add: translates_def list_all_iff ex_host_env_def Request_virt_def setContext_def setVirt_def setPaddr_def
      getPaddr_def hasPaddr_def assertR_def flag_simps set_flags_def isSet_def)

lemma command_pimState:
  assumes "pimState p = pimState q"
  shows "command sp e p w = command sp e q w"
proof -
  have st: "start e p = start e q" using assms by (simp add: fun_eq_iff start_def)
  show ?thesis unfolding command_def run_def recvFunctional_def assms st by (rule refl)
qed

lemma sent_cases:
  "(case r of Inl _ \<Rightarrow> False | Inr (b, h, ms) \<Rightarrow> b \<and> Q ms) \<Longrightarrow> \<exists>h ms. r = Inr (True, h, ms) \<and> Q ms"
  by (cases r) auto

lemma ex_inst_sent:
  "\<exists>h' ms. inst_PIM ''kernel'' (ex_host_env 0 True) 0 8 0x10 ex_host = Inr (True, h', ms) \<and>
    pimState (last ms) = pimState ex_command"
  by (rule sent_cases) code_simp

theorem host_pim_end_to_end_witness:
  "\<exists>h' ms. inst_PIM ''kernel'' (ex_host_env 0 True) 0 8 0x10 ex_host = Inr (True, h', ms) \<and> pcmd (last ms) = PIM \<and>
    (\<exists>w1. command ex_params (ex_env 0 True) (last ms) ex_world = Inr w1 \<and> reach ex_params w1 ex_end) \<and>
    word_at (wmem ex_end) (up_page 0x10) = 7"
proof -
  obtain h' ms where i: "inst_PIM ''kernel'' (ex_host_env 0 True) 0 8 0x10 ex_host = Inr (True, h', ms)"
    "pimState (last ms) = pimState ex_command" using ex_inst_sent by blast
  have c: "command ex_params (ex_env 0 True) (last ms) ex_world = Inr ex_start"
    using command_pimState [OF i(2), of ex_params "ex_env 0 True" ex_world] ex_start_eq by metis
  have w: "worked_on (ex_host_env 0 True) 0 8 0x10 ex_host = [0, 8, 0x10]" by (simp add: worked_on_def ex_host_def)
  have j: "j_addr ex_job = map up_page (worked_on (ex_host_env 0 True) 0 8 0x10 ex_host)" "j_addr ex_job ! 2 = up_page 0x10"
    by (simp_all add: w ex_job_def up_page_def)
  have u: "unit_kind (kern ex_world) = AdderUnit" "word_at (wmem ex_world) (j_addr ex_job ! 0) = 3" "word_at (wmem ex_world) (j_addr ex_job ! 1) = 4"
    by code_simp+
  note e = host_pim_end_to_end [OF i(1) ex_host_translates ex_job_ok j(1) ex_ready ex_env_ok]
  have "pcmd (last ms) = PIM" using e by blast
  moreover have "word_at (wmem ex_end) (up_page 0x10) = 7"
    using e c ex_reach u j(2) by (auto simp: compute_op_def)
  ultimately show ?thesis using i(1) c ex_reach(1) by blast
qed

definition ex_waiting :: "unit PIMHost" where
  "ex_waiting = ex_host\<lparr>pendingPIM := [PIMSenderState_virtual 0 0 0 8 0x10 0], pimEvent := Some 500\<rparr>"

theorem retry_never_drains_witness:
  "\<exists>h' ms. retries [ex_host_env 500 True, ex_host_env 1000 True] ex_waiting = Inr (h', ms) \<and> pendingPIM h' \<noteq> [] \<and>
    2 \<le> length (filter (is_command_for (map up_page [0, 8, 0x10])) ms)"
proof -
  let ?es = "[ex_host_env 500 True, ex_host_env 1000 True]"
  have w: "pendingPIM ex_waiting = [PIMSenderState_virtual 0 0 0 8 0x10 0]" "ps_addr (PIMSenderState_virtual 0 0 0 8 0x10 0) = [0, 8, 0x10]"
    by (simp_all add: ex_waiting_def PIMSenderState_virtual_def)
  have "\<not> isl (retries ?es ex_waiting)" by code_simp
  then obtain h' ms where r: "retries ?es ex_waiting = Inr (h', ms)" by (metis isl_def sum.exhaust surj_pair)
  show ?thesis using retry_never_drains [OF w _ r, of up_page] ex_host_translates r by auto
qed

theorem retry_fault_stops_witness: "retryPIM (ex_host_env 500 False) (ex_waiting\<lparr>pimEvent := None\<rparr>) = Inl AssertFailed"
  by (rule retry_fault_stops [where a = 0 and b = 8 and c = "0x10"])
    (simp_all add: ex_waiting_def PIMSenderState_virtual_def ex_host_env_def)

end
