(* ===== verification/Cache_Replacement.thy ===== *)
theory Cache_Replacement
  imports PIM_Prelude
begin

text \<open>
  The replacement policies of \<^verbatim>\<open>src/mem/cache/replacement_policies\<close>. A policy keeps data with every
  entry of a cache and chooses, among the entries of a set, the one to be replaced. For each policy this
  theory has the data as a type and the operations \<^verbatim>\<open>invalidate\<close>, \<^verbatim>\<open>touch\<close>, \<^verbatim>\<open>reset\<close> and \<^verbatim>\<open>getVictim\<close>; the
  candidates are the list of their data, a victim is an index, and a policy that changes the data
  while it searches returns them. The current tick and the random number drawn are arguments.

  The locale \<open>replacement\<close> states what a cache relies on, whatever the policy: there is a victim, and it is
  one of the candidates.
\<close>

section \<open>The search for the best candidate\<close>

definition scan_victim :: "('d \<Rightarrow> 'd \<Rightarrow> bool) \<Rightarrow> 'd list \<Rightarrow> nat" where
  "scan_victim better cs = fold (\<lambda>i victim. if better (cs ! i) (cs ! victim) then i else victim) [0..<length cs] 0"

definition get_victim :: "('d \<Rightarrow> 'd \<Rightarrow> bool) \<Rightarrow> 'd list \<Rightarrow> nat res" where
  "get_victim better cs = assertR (length cs > 0) (ok (scan_victim better cs))"

text \<open>The scan finds the first candidate with the least key.\<close>

lemma scan_victim_least:
  fixes key :: "'d \<Rightarrow> 'k :: linorder"
  assumes "cs \<noteq> []"
  shows "scan_victim (\<lambda>a b. key a < key b) cs < length cs"
    "\<forall>i < length cs. key (cs ! scan_victim (\<lambda>a b. key a < key b) cs) \<le> key (cs ! i)"
    "\<forall>i < scan_victim (\<lambda>a b. key a < key b) cs. key (cs ! scan_victim (\<lambda>a b. key a < key b) cs) < key (cs ! i)"
proof -
  define step where "step = (\<lambda>i victim. if key (cs ! i) < key (cs ! victim) then i else victim)"
  have "fold step [0..<n] 0 < max 1 n \<and> (\<forall>i < n. key (cs ! fold step [0..<n] 0) \<le> key (cs ! i)) \<and>
      (\<forall>i < fold step [0..<n] 0. key (cs ! fold step [0..<n] 0) < key (cs ! i))" for n
  proof (induction n)
    case (Suc n)
    let ?v = "fold step [0..<n] 0"
    have v: "fold step [0..<Suc n] 0 = step n ?v" by simp
    show ?case
    proof (cases "key (cs ! n) < key (cs ! ?v)")
      case True
      then have "step n ?v = n" by (simp add: step_def)
      moreover have "key (cs ! n) < key (cs ! i)" if "i < n" for i using True Suc that by force
      ultimately show ?thesis unfolding v by (auto simp: less_Suc_eq less_imp_le)
    next
      case False
      then have "step n ?v = ?v" by (simp add: step_def)
      then show ?thesis unfolding v using False Suc by (auto simp: less_Suc_eq not_less)
    qed
  qed simp
  from this [of "length cs"] assms
  show "scan_victim (\<lambda>a b. key a < key b) cs < length cs"
    "\<forall>i < length cs. key (cs ! scan_victim (\<lambda>a b. key a < key b) cs) \<le> key (cs ! i)"
    "\<forall>i < scan_victim (\<lambda>a b. key a < key b) cs. key (cs ! scan_victim (\<lambda>a b. key a < key b) cs) < key (cs ! i)"
    unfolding scan_victim_def step_def [symmetric] by (cases cs; simp)+
qed

lemma scan_victim_bound: "cs \<noteq> [] \<Longrightarrow> scan_victim better cs < length cs"
proof -
  assume "cs \<noteq> []"
  have "fold (\<lambda>i v. if better (cs ! i) (cs ! v) then i else v) [0..<n] 0 < max 1 n" for n
    by (induction n) auto
  from this [of "length cs"] \<open>cs \<noteq> []\<close> show ?thesis by (cases cs) (simp_all add: scan_victim_def)
qed

section \<open>LRU, MRU, FIFO, LFU\<close>

type_synonym LRUReplData = Tick
type_synonym FIFOReplData = Tick
type_synonym LFUReplData = u32

definition LRU_invalidate :: "LRUReplData \<Rightarrow> LRUReplData" where "LRU_invalidate d = 0"
definition LRU_touch :: "Tick \<Rightarrow> LRUReplData \<Rightarrow> LRUReplData" where "LRU_touch now d = now"
definition LRU_reset :: "Tick \<Rightarrow> LRUReplData \<Rightarrow> LRUReplData" where "LRU_reset now d = now"
definition LRU_getVictim :: "LRUReplData list \<Rightarrow> nat res" where "LRU_getVictim = get_victim (\<lambda>a b. a < b)"

definition MRU_invalidate :: "LRUReplData \<Rightarrow> LRUReplData" where "MRU_invalidate d = 0"
definition MRU_touch :: "Tick \<Rightarrow> LRUReplData \<Rightarrow> LRUReplData" where "MRU_touch now d = now"
definition MRU_reset :: "Tick \<Rightarrow> LRUReplData \<Rightarrow> LRUReplData" where "MRU_reset now d = now"
definition MRU_getVictim :: "LRUReplData list \<Rightarrow> nat res" where "MRU_getVictim = get_victim (\<lambda>a b. a > b)"

definition FIFO_invalidate :: "FIFOReplData \<Rightarrow> FIFOReplData" where "FIFO_invalidate d = 0"
definition FIFO_touch :: "Tick \<Rightarrow> FIFOReplData \<Rightarrow> FIFOReplData" where "FIFO_touch now d = d"
definition FIFO_reset :: "Tick \<Rightarrow> FIFOReplData \<Rightarrow> FIFOReplData" where "FIFO_reset now d = now"
definition FIFO_getVictim :: "FIFOReplData list \<Rightarrow> nat res" where "FIFO_getVictim = get_victim (\<lambda>a b. a < b)"

definition LFU_invalidate :: "LFUReplData \<Rightarrow> LFUReplData" where "LFU_invalidate d = 0"
definition LFU_touch :: "Tick \<Rightarrow> LFUReplData \<Rightarrow> LFUReplData" where "LFU_touch now d = d + 1"
definition LFU_reset :: "Tick \<Rightarrow> LFUReplData \<Rightarrow> LFUReplData" where "LFU_reset now d = 1"
definition LFU_getVictim :: "LFUReplData list \<Rightarrow> nat res" where "LFU_getVictim = get_victim (\<lambda>a b. a < b)"

section \<open>Random\<close>

text \<open>\<^verbatim>\<open>random_mt.random(lo, hi)\<close>: the drawn \<open>rnd\<close> may be any number, the result is any number of the interval.\<close>

definition random_between :: "nat \<Rightarrow> nat \<Rightarrow> nat \<Rightarrow> nat" where
  "random_between rnd lo hi = lo + rnd mod (hi - lo + 1)"

definition BIP_reset :: "nat \<Rightarrow> nat \<Rightarrow> Tick \<Rightarrow> LRUReplData \<Rightarrow> LRUReplData" where
  "BIP_reset btp rnd now d = (if random_between rnd 1 100 \<le> btp then now else 1)"

definition Random_invalidate :: "bool \<Rightarrow> bool" where "Random_invalidate v = False"
definition Random_touch :: "Tick \<Rightarrow> bool \<Rightarrow> bool" where "Random_touch now v = v"
definition Random_reset :: "Tick \<Rightarrow> bool \<Rightarrow> bool" where "Random_reset now v = True"

text \<open>A number between 0 and the last index is drawn; the first invalid entry takes precedence.\<close>

definition Random_getVictim :: "nat \<Rightarrow> bool list \<Rightarrow> nat res" where
  "Random_getVictim rnd vs = assertR (length vs > 0)
     (case List.find (\<lambda>i. \<not> vs ! i) [0..<length vs] of
        Some i \<Rightarrow> ok i
      | None \<Rightarrow> ok (random_between rnd 0 (length vs - 1)))"

section \<open>Second chance\<close>

record SecondChanceReplData =
  sc_tickInserted :: Tick
  hasSecondChance :: bool

definition useSecondChance :: "Tick \<Rightarrow> SecondChanceReplData \<Rightarrow> SecondChanceReplData" where
  "useSecondChance now d = d\<lparr>sc_tickInserted := now, hasSecondChance := False\<rparr>"

definition SecondChance_invalidate :: "SecondChanceReplData \<Rightarrow> SecondChanceReplData" where
  "SecondChance_invalidate d = d\<lparr>sc_tickInserted := 0, hasSecondChance := False\<rparr>"

definition SecondChance_touch :: "Tick \<Rightarrow> SecondChanceReplData \<Rightarrow> SecondChanceReplData" where
  "SecondChance_touch now d = d\<lparr>hasSecondChance := True\<rparr>"

definition SecondChance_reset :: "Tick \<Rightarrow> SecondChanceReplData \<Rightarrow> SecondChanceReplData" where
  "SecondChance_reset now d = d\<lparr>sc_tickInserted := now, hasSecondChance := True\<rparr>"

definition chances :: "SecondChanceReplData list \<Rightarrow> nat" where
  "chances cs = length (filter hasSecondChance cs)"

lemma chances_update:
  "i < length cs \<Longrightarrow> hasSecondChance (cs ! i) \<Longrightarrow> \<not> hasSecondChance d \<Longrightarrow> chances (cs[i := d]) < chances cs"
proof (induction cs arbitrary: i)
  case (Cons c cs)
  then show ?case by (cases i) (auto simp: chances_def)
qed simp

text \<open>The \<^verbatim>\<open>while\<close> loop: every turn takes a second chance away.\<close>

function second_search :: "Tick \<Rightarrow> SecondChanceReplData list \<Rightarrow> (nat \<times> SecondChanceReplData list) res" where
  "second_search now cs =
     bindR (get_victim (\<lambda>a b. sc_tickInserted a < sc_tickInserted b) cs) (\<lambda>v.
       if v < length cs \<and> hasSecondChance (cs ! v) then second_search now (cs[v := useSecondChance now (cs ! v)])
       else ok (v, cs))"
  by pat_completeness auto
termination
  by (relation "measure (\<lambda>(now, cs). chances cs)") (auto intro!: chances_update simp: useSecondChance_def)

definition SecondChance_getVictim :: "Tick \<Rightarrow> SecondChanceReplData list \<Rightarrow> (nat \<times> SecondChanceReplData list) res" where
  "SecondChance_getVictim now cs = assertR (length cs > 0)
     (case List.find (\<lambda>i. sc_tickInserted (cs ! i) = 0 \<and> \<not> hasSecondChance (cs ! i)) [0..<length cs] of
        Some i \<Rightarrow> ok (i, cs)
      | None \<Rightarrow> second_search now cs)"

section \<open>Re-reference interval prediction\<close>

record BRRIP =
  maxRRPV :: int
  hitPriority :: bool
  btp :: nat

definition BRRIP_new :: "int \<Rightarrow> bool \<Rightarrow> nat \<Rightarrow> BRRIP res" where
  "BRRIP_new m hp b = (if m \<le> 0 then fail FatalError else ok \<lparr>maxRRPV = m, hitPriority = hp, btp = b\<rparr>)"

definition BRRIP_invalidate :: "BRRIP \<Rightarrow> int \<Rightarrow> int" where
  "BRRIP_invalidate p d = maxRRPV p + 1"

definition BRRIP_touch :: "BRRIP \<Rightarrow> int \<Rightarrow> int" where
  "BRRIP_touch p d = (if hitPriority p then 0 else if d > 0 then d - 1 else d)"

definition BRRIP_reset :: "BRRIP \<Rightarrow> nat \<Rightarrow> int \<Rightarrow> int" where
  "BRRIP_reset p rnd d = (if random_between rnd 1 100 \<le> btp p then maxRRPV p - 1 else maxRRPV p)"

definition BRRIP_getVictim :: "BRRIP \<Rightarrow> int list \<Rightarrow> (nat \<times> int list) res" where
  "BRRIP_getVictim p cs = assertR (length cs > 0)
     (case List.find (\<lambda>i. cs ! i = maxRRPV p + 1) [0..<length cs] of
        Some i \<Rightarrow> ok (i, cs)
      | None \<Rightarrow>
          (let victim = scan_victim (\<lambda>a b. a > b) cs; diff = maxRRPV p - cs ! victim in
           ok (victim, if diff > 0 then map (\<lambda>d. d + diff) cs else cs)))"

section \<open>Tree pseudo-LRU\<close>

text \<open>
  The inner nodes of a complete binary tree are the bits of a vector, the leaves follow them: the leaf of
  way \<open>w\<close> has the index \<open>w + numLeaves - 1\<close>. The parent of the root is far outside of any vector.
\<close>

definition parentIndex :: "nat \<Rightarrow> nat" where "parentIndex i = (i - 1) div 2"
definition leftSubtreeIndex :: "nat \<Rightarrow> nat" where "leftSubtreeIndex i = 2 * i + 1"
definition rightSubtreeIndex :: "nat \<Rightarrow> nat" where "rightSubtreeIndex i = 2 * i + 2"
definition isRightSubtree :: "nat \<Rightarrow> bool" where "isRightSubtree i = (i mod 2 = 0)"

lemma parentIndex_less [termination_simp]: "0 < i \<Longrightarrow> parentIndex i < i"
  by (simp add: parentIndex_def)

fun plru_update :: "(bool \<Rightarrow> bool) \<Rightarrow> nat \<Rightarrow> bool list \<Rightarrow> bool list res" where
  "plru_update point i t =
     (if i = 0 then fail OutOfRange
      else bindR (vec_set t (parentIndex i) (point (isRightSubtree i))) (\<lambda>t'.
        if parentIndex i \<noteq> 0 then plru_update point (parentIndex i) t' else ok t'))"

function plru_walk :: "bool list \<Rightarrow> nat \<Rightarrow> nat" where
  "plru_walk t i = (if i < length t then plru_walk t (if t ! i then rightSubtreeIndex i else leftSubtreeIndex i) else i)"
  by pat_completeness auto
termination
  by (relation "measure (\<lambda>(t, i). length t - i)") (auto simp: rightSubtreeIndex_def leftSubtreeIndex_def)

definition TreePLRU_invalidate :: "nat \<Rightarrow> bool list \<Rightarrow> bool list res" where
  "TreePLRU_invalidate i t = plru_update (\<lambda>right. right) i t"

definition TreePLRU_touch :: "nat \<Rightarrow> bool list \<Rightarrow> bool list res" where
  "TreePLRU_touch i t = plru_update (\<lambda>right. \<not> right) i t"

definition TreePLRU_reset :: "nat \<Rightarrow> bool list \<Rightarrow> bool list res" where
  "TreePLRU_reset i t = TreePLRU_touch i t"

definition TreePLRU_getVictim :: "nat \<Rightarrow> nat \<Rightarrow> bool list \<Rightarrow> nat res" where
  "TreePLRU_getVictim numLeaves ncandidates t = assertR (ncandidates > 0)
     (let w = plru_walk t 0 - (numLeaves - 1) in if w < ncandidates then ok w else fail OutOfRange)"

text \<open>A tree for every \<open>numLeaves\<close> entries; the data of entry number \<open>count\<close> is the index of its leaf.\<close>

definition TreePLRU_leaf :: "nat \<Rightarrow> nat \<Rightarrow> nat" where
  "TreePLRU_leaf numLeaves count = count mod numLeaves + numLeaves - 1"

definition TreePLRU_tree :: "nat \<Rightarrow> bool list" where
  "TreePLRU_tree numLeaves = replicate (numLeaves - 1) False"

declare plru_update.simps [simp del] plru_walk.simps [simp del]

section \<open>The tree\<close>

lemma plru_walk_cong:
  "length t' = length t \<Longrightarrow> \<forall>k. i \<le> k \<and> k < length t \<longrightarrow> t' ! k = t ! k \<Longrightarrow> plru_walk t' i = plru_walk t i"
proof (induction t i rule: plru_walk.induct)
  case (1 t i)
  show ?case
  proof (cases "i < length t")
    case True
    let ?c = "if t ! i then rightSubtreeIndex i else leftSubtreeIndex i"
    have "t' ! i = t ! i" using 1(3) True by simp
    moreover have "\<forall>k. ?c \<le> k \<and> k < length t \<longrightarrow> t' ! k = t ! k"
      using 1(3) by (auto simp: rightSubtreeIndex_def leftSubtreeIndex_def)
    ultimately show ?thesis using 1(1) [OF True 1(2)] True 1(2) by (simp add: plru_walk.simps [of _ i])
  qed (use 1(2) in \<open>simp add: plru_walk.simps\<close>)
qed

text \<open>The walk stays below the node it starts from: counted from 1, the node is a prefix of the leaf.\<close>

lemma plru_walk_below: "\<exists>m. (plru_walk t i + 1) div 2 ^ m = i + 1"
proof (induction t i rule: plru_walk.induct)
  case (1 t i)
  show ?case
  proof (cases "i < length t")
    case True
    let ?c = "if t ! i then rightSubtreeIndex i else leftSubtreeIndex i"
    obtain m where "(plru_walk t ?c + 1) div 2 ^ m = ?c + 1" using 1 [OF True] by blast
    then have "(plru_walk t ?c + 1) div 2 ^ Suc m = (?c + 1) div 2" by (metis div_mult2_eq power_Suc2)
    also have "\<dots> = i + 1" by (simp add: rightSubtreeIndex_def leftSubtreeIndex_def)
    finally show ?thesis using True by (metis plru_walk.simps)
  next
    case False
    then show ?thesis by (intro exI [of _ 0]) (simp add: plru_walk.simps)
  qed
qed

lemma siblings_apart:
  fixes x q m m' :: nat
  assumes "x div 2 ^ m = 2 * q" "x div 2 ^ m' = 2 * q + 1" "0 < q"
  shows False
proof -
  have up: "n * 2 ^ k \<le> x \<and> x < (n + 1) * 2 ^ k" if "x div 2 ^ k = n" for k n
    using that by (metis div_times_less_eq_dividend dividend_less_div_times mult.commute mult_Suc Suc_eq_plus1 add.commute
        zero_less_numeral zero_less_power)
  have far: "(2 * q + 2) * 2 ^ k \<le> (2 * q) * 2 ^ k'" if "k < k'" for k k' :: nat
  proof -
    have "(2::nat) ^ Suc k \<le> 2 ^ k'" using that by (intro power_increasing) auto
    then have "2 * q * (2 * 2 ^ k) \<le> 2 * q * 2 ^ k'" by simp
    moreover have "(2 * q + 2) * 2 ^ k \<le> 2 * q * (2 * 2 ^ k)" using assms(3) by (cases q) (auto simp: algebra_simps)
    ultimately show ?thesis by linarith
  qed
  consider "m = m'" | "m < m'" | "m' < m" by linarith
  then show False
  proof cases
    case 2
    then show False using up [OF assms(1)] up [OF assms(2)] far [OF 2] by (simp add: algebra_simps)
  next
    case 3
    then show False using up [OF assms(1)] up [OF assms(2)] far [OF 3] by (simp add: algebra_simps)
  qed (use assms in simp)
qed

lemma plru_update_total:
  "0 < i \<Longrightarrow> parentIndex i < length t \<Longrightarrow> \<exists>t'. plru_update point i t = Inr t' \<and> length t' = length t"
proof (induction point i t rule: plru_update.induct)
  case (1 point i t)
  let ?t = "t[parentIndex i := point (isRightSubtree i)]"
  have st: "vec_set t (parentIndex i) (point (isRightSubtree i)) = Inr ?t" using 1(3) by simp
  show ?case
  proof (cases "parentIndex i = 0")
    case True
    then show ?thesis using 1(2) st by (simp add: plru_update.simps [of point i])
  next
    case False
    then have "parentIndex (parentIndex i) < length t" using 1(3) parentIndex_less [of "parentIndex i"] by simp
    then have "\<exists>t'. plru_update point (parentIndex i) ?t = Inr t' \<and> length t' = length ?t"
      using 1(1) [of ?t] 1(2) False by simp
    then show ?thesis using 1(2) st False by (simp add: plru_update.simps [of point i])
  qed
qed

lemma plru_update_step:
  assumes "plru_update point i t = Inr t'"
  shows "0 < i" "parentIndex i < length t"
    "let u = t[parentIndex i := point (isRightSubtree i)] in
       if parentIndex i = 0 then t' = u else plru_update point (parentIndex i) u = Inr t'"
  using assms by (auto simp: plru_update.simps [of point i] bindR_eq_Inr vec_set_eq_Inr Let_def split: if_splits)

lemma child_of_parent: "0 < i \<Longrightarrow> i = (if isRightSubtree i then rightSubtreeIndex (parentIndex i) else leftSubtreeIndex (parentIndex i))"
  by (auto simp: isRightSubtree_def rightSubtreeIndex_def leftSubtreeIndex_def parentIndex_def) presburger+

text \<open>Bits that all point towards a leaf lead the walk to it.\<close>

lemma plru_points: "plru_update (\<lambda>r. r) i t = Inr t' \<Longrightarrow> plru_walk t i = l \<Longrightarrow> plru_walk t' 0 = l"
proof (induction "\<lambda>r :: bool. r" i t rule: plru_update.induct)
  case (1 i t)
  let ?p = "parentIndex i"
  let ?u = "t[?p := isRightSubtree i]"
  note st = plru_update_step [OF 1(2)]
  have c: "i = (if isRightSubtree i then rightSubtreeIndex ?p else leftSubtreeIndex ?p)" by (rule child_of_parent [OF st(1)])
  have "plru_walk ?u i = l"
    using 1(3) plru_walk_cong [of ?u t i] parentIndex_less [OF st(1)] by (auto simp: nth_list_update)
  then have w: "plru_walk ?u ?p = l" using st(2) c by (simp add: plru_walk.simps [of ?u ?p])
  show ?case
  proof (cases "?p = 0")
    case True
    then show ?thesis using st(3) w by (simp add: Let_def)
  next
    case False
    then show ?thesis using st 1(1) [of ?u] w by (simp add: Let_def)
  qed
qed

text \<open>A bit that points away from a leaf at the root keeps the walk away from it.\<close>

lemma plru_avoids:
  "plru_update (\<lambda>r. \<not> r) i t = Inr t' \<Longrightarrow> (l + 1) div 2 ^ m = i + 1 \<Longrightarrow> plru_walk t' 0 \<noteq> l"
proof (induction "\<lambda>r :: bool. \<not> r" i t arbitrary: m rule: plru_update.induct)
  case (1 i t)
  let ?p = "parentIndex i"
  let ?u = "t[?p := \<not> isRightSubtree i]"
  note st = plru_update_step [OF 1(2)]
  have c: "i = (if isRightSubtree i then rightSubtreeIndex ?p else leftSubtreeIndex ?p)" by (rule child_of_parent [OF st(1)])
  show ?case
  proof (cases "?p = 0")
    case True
    let ?s = "if isRightSubtree i then leftSubtreeIndex ?p else rightSubtreeIndex ?p"
    have "t' = ?u" using st(3) True by (simp add: Let_def)
    then have w: "plru_walk t' 0 = plru_walk t' ?s" using st(2) True by (subst plru_walk.simps) simp
    obtain m' where "(plru_walk t' ?s + 1) div 2 ^ m' = ?s + 1" using plru_walk_below by blast
    then show ?thesis
      using 1(3) w c siblings_apart [of "l + 1" m 1 m'] siblings_apart [of "l + 1" m' 1 m] True
      by (auto simp: leftSubtreeIndex_def rightSubtreeIndex_def split: if_splits)
  next
    case False
    have "(l + 1) div 2 ^ Suc m = (i + 1) div 2" using 1(3) by (metis div_mult2_eq power_Suc2)
    also have "\<dots> = ?p + 1" using st(1) by (simp add: parentIndex_def)
    finally show ?thesis using st 1(1) [of ?u "Suc m"] False by (simp add: Let_def)
  qed
qed

lemma plru_walk_leaf:
  assumes "length t = 2 ^ k - 1" "2 ^ d \<le> i + 1" "i + 1 < 2 ^ Suc d" "d \<le> k"
  shows "2 ^ k \<le> plru_walk t i + 1 \<and> plru_walk t i + 1 < 2 ^ Suc k"
  using assms(2-4)
proof (induction "k - d" arbitrary: d i)
  case 0
  then have "d = k" by simp
  moreover have "\<not> i < length t" using 0 assms(1) \<open>d = k\<close> by simp
  ultimately show ?case using 0 by (simp add: plru_walk.simps)
next
  case (Suc n)
  have "d < k" using Suc.hyps(2) by simp
  then have "(2::nat) ^ Suc d \<le> 2 ^ k" by (intro power_increasing) auto
  then have "i < length t" using Suc.prems(2) assms(1) by simp
  moreover have "2 ^ k \<le> plru_walk t c + 1 \<and> plru_walk t c + 1 < 2 ^ Suc k" if "c = 2 * i + 1 \<or> c = 2 * i + 2" for c
    by (rule Suc.hyps(1) [of "Suc d"]) (use Suc.hyps(2) Suc.prems \<open>d < k\<close> that in auto)
  ultimately show ?case by (simp add: plru_walk.simps [of t i] rightSubtreeIndex_def leftSubtreeIndex_def)
qed

text \<open>C17: The pseudo-LRU tree of a set with a power of two of ways: an entry that is invalidated is the next
  victim, an entry that is touched is not, and the victim is always one of the ways.\<close>
theorem plru_victim:
  assumes "length t = 2 ^ k - 1" "0 < k" "w < 2 ^ k"
  shows "\<exists>t' t''. TreePLRU_invalidate (TreePLRU_leaf (2 ^ k) w) t = Inr t' \<and> TreePLRU_getVictim (2 ^ k) (2 ^ k) t' = Inr w \<and>
    TreePLRU_touch (TreePLRU_leaf (2 ^ k) w) t = Inr t'' \<and>
    (\<exists>v. TreePLRU_getVictim (2 ^ k) (2 ^ k) t'' = Inr v \<and> v \<noteq> w \<and> v < 2 ^ k)"
proof -
  let ?l = "TreePLRU_leaf (2 ^ k) w"
  have two: "(2::nat) \<le> 2 ^ k" using assms(2) by (metis One_nat_def Suc_leI power_increasing power_one_right one_le_numeral)
  have l: "?l = w + 2 ^ k - 1" using assms(3) by (simp add: TreePLRU_leaf_def)
  have p: "0 < ?l" "parentIndex ?l < length t" using l two assms(1,3) by (auto simp: parentIndex_def)
  obtain t' where t': "TreePLRU_invalidate ?l t = Inr t'" "length t' = length t"
    using plru_update_total [OF p] unfolding TreePLRU_invalidate_def by blast
  obtain t'' where t'': "TreePLRU_touch ?l t = Inr t''" "length t'' = length t"
    using plru_update_total [OF p] unfolding TreePLRU_touch_def by blast
  have "\<not> ?l < length t" using l assms(1) by simp
  then have "plru_walk t ?l = ?l" by (simp add: plru_walk.simps [of t ?l])
  then have "plru_walk t' 0 = ?l" using plru_points t'(1) unfolding TreePLRU_invalidate_def by blast
  then have v': "TreePLRU_getVictim (2 ^ k) (2 ^ k) t' = Inr w" using l assms(3) by (simp add: TreePLRU_getVictim_def Let_def)
  have n: "plru_walk t'' 0 \<noteq> ?l"
    using plru_avoids [of ?l t t'' ?l 0] t''(1) unfolding TreePLRU_touch_def by simp
  have r: "2 ^ k \<le> plru_walk t'' 0 + 1 \<and> plru_walk t'' 0 + 1 < 2 ^ Suc k"
    by (rule plru_walk_leaf [where d = 0]) (simp_all add: t''(2) assms(1))
  let ?v = "plru_walk t'' 0 - (2 ^ k - 1)"
  have "?v < 2 ^ k" "?v \<noteq> w" using r n l by auto
  then have "\<exists>v. TreePLRU_getVictim (2 ^ k) (2 ^ k) t'' = Inr v \<and> v \<noteq> w \<and> v < 2 ^ k" by (simp add: TreePLRU_getVictim_def Let_def)
  with t'(1) t''(1) v' show ?thesis by blast
qed

section \<open>Second chance and prediction\<close>

lemma second_search_ends:
  assumes "cs \<noteq> []"
  shows "\<exists>v cs'. second_search now cs = Inr (v, cs') \<and> v < length cs \<and> length cs' = length cs \<and> \<not> hasSecondChance (cs' ! v)"
  using assms
proof (induction now cs rule: second_search.induct)
  case (1 now cs)
  let ?v = "scan_victim (\<lambda>a b. sc_tickInserted a < sc_tickInserted b) cs"
  have v: "?v < length cs" by (rule scan_victim_bound [OF 1(2)])
  have g: "get_victim (\<lambda>a b. sc_tickInserted a < sc_tickInserted b) cs = Inr ?v" using 1(2) by (simp add: get_victim_def)
  show ?case
  proof (cases "hasSecondChance (cs ! ?v)")
    case True
    have "cs[?v := useSecondChance now (cs ! ?v)] \<noteq> []" using 1(2) by simp
    from 1(1) [OF _ this] True v have "\<exists>w cs'. second_search now (cs[?v := useSecondChance now (cs ! ?v)]) = Inr (w, cs') \<and>
        w < length cs \<and> length cs' = length cs \<and> \<not> hasSecondChance (cs' ! w)" by simp
    then show ?thesis using g v True by (subst second_search.simps) simp
  next
    case False
    then show ?thesis using g v by (subst second_search.simps) auto
  qed
qed

lemma find_index:
  assumes "List.find P [0..<n] = Some i"
  shows "P i" "i < n" "\<forall>j < i. \<not> P j"
proof -
  obtain k where "k < length [0..<n]" "P ([0..<n] ! k)" "i = [0..<n] ! k" "\<forall>j < k. \<not> P ([0..<n] ! j)"
    using assms unfolding find_Some_iff by blast
  then show "P i" "i < n" "\<forall>j < i. \<not> P j" by auto
qed

lemma find_no_index: "List.find P [0..<n] = None \<Longrightarrow> i < n \<Longrightarrow> \<not> P i"
  by (auto simp: find_None_iff)

lemma second_chance_ok:
  assumes "cs \<noteq> []"
  shows "\<exists>v cs'. SecondChance_getVictim now cs = Inr (v, cs') \<and> v < length cs \<and> length cs' = length cs \<and> \<not> hasSecondChance (cs' ! v)"
proof (cases "List.find (\<lambda>i. sc_tickInserted (cs ! i) = 0 \<and> \<not> hasSecondChance (cs ! i)) [0..<length cs]")
  case None
  then show ?thesis using second_search_ends [OF assms] assms by (simp add: SecondChance_getVictim_def)
next
  case (Some i)
  then show ?thesis using find_index [OF Some] assms by (simp add: SecondChance_getVictim_def)
qed

lemma brrip_ok:
  assumes "cs \<noteq> []" "\<forall>d \<in> set cs. d \<le> maxRRPV p + 1"
  shows "\<exists>v cs'. BRRIP_getVictim p cs = Inr (v, cs') \<and> v < length cs \<and>
    (if maxRRPV p + 1 \<in> set cs then cs ! v = maxRRPV p + 1 \<and> cs' = cs
     else (\<forall>d \<in> set cs. d \<le> cs ! v) \<and> cs' ! v = maxRRPV p \<and> (\<forall>d \<in> set cs'. d \<le> maxRRPV p) \<and>
       (\<exists>a \<ge> 0. cs' = map (\<lambda>d. d + a) cs))"
proof (cases "List.find (\<lambda>i. cs ! i = maxRRPV p + 1) [0..<length cs]")
  case (Some i)
  have i: "cs ! i = maxRRPV p + 1" "i < length cs" using find_index [OF Some] by simp_all
  then have "maxRRPV p + 1 \<in> set cs" by (metis nth_mem)
  then show ?thesis using Some i assms(1) by (simp add: BRRIP_getVictim_def)
next
  case None
  let ?v = "scan_victim (\<lambda>a b. a > b) cs" let ?a = "maxRRPV p - cs ! ?v"
  have ni: "maxRRPV p + 1 \<notin> set cs" using find_no_index [OF None] by (auto simp: in_set_conv_nth)
  have v: "?v < length cs" "\<forall>i < length cs. cs ! i \<le> cs ! ?v"
    using scan_victim_least(1,2) [OF assms(1), of "\<lambda>d. - d"] by simp_all
  have mx: "\<forall>d \<in> set cs. d \<le> cs ! ?v" using v(2) by (auto simp: in_set_conv_nth)
  have "cs ! ?v \<in> set cs" using v(1) by simp
  then have "cs ! ?v \<le> maxRRPV p + 1" "cs ! ?v \<noteq> maxRRPV p + 1" using assms(2) ni by (blast, metis)
  then have "cs ! ?v \<le> maxRRPV p" by simp
  then have "(if ?a > 0 then map (\<lambda>d. d + ?a) cs else cs) = map (\<lambda>d. d + ?a) cs" by simp
  then have "BRRIP_getVictim p cs = Inr (?v, map (\<lambda>d. d + ?a) cs)"
    using None assms(1) by (simp add: BRRIP_getVictim_def Let_def)
  moreover have "\<exists>a \<ge> 0. map (\<lambda>d. d + ?a) cs = map (\<lambda>d. d + a) cs" using \<open>cs ! ?v \<le> maxRRPV p\<close> by (intro exI [of _ ?a]) simp
  ultimately show ?thesis using ni v(1) mx by auto
qed

section \<open>What a cache relies on\<close>

locale replacement =
  fixes victim :: "'d list \<Rightarrow> (nat \<times> 'd list) res"
  assumes victim_none: "victim [] = Inl AssertFailed"
    and victim_some: "cs \<noteq> [] \<Longrightarrow> \<exists>v cs'. victim cs = Inr (v, cs') \<and> v < length cs \<and> length cs' = length cs"
begin

lemma victim_cases:
  assumes "victim cs = Inr (v, cs')"
  shows "v < length cs" "length cs' = length cs" "cs \<noteq> []"
  using assms victim_none victim_some [of cs] by (cases "cs = []"; auto)+

end

definition unchanged :: "('d list \<Rightarrow> nat res) \<Rightarrow> 'd list \<Rightarrow> (nat \<times> 'd list) res" where
  "unchanged f cs = bindR (f cs) (\<lambda>v. ok (v, cs))"

lemma get_victim_law: "replacement (unchanged (get_victim better))"
  by unfold_locales (simp_all add: unchanged_def get_victim_def scan_victim_bound)

interpretation lru: replacement "unchanged LRU_getVictim" unfolding LRU_getVictim_def by (rule get_victim_law)

interpretation mru: replacement "unchanged MRU_getVictim" unfolding MRU_getVictim_def by (rule get_victim_law)

interpretation fifo: replacement "unchanged FIFO_getVictim" unfolding FIFO_getVictim_def by (rule get_victim_law)

interpretation lfu: replacement "unchanged LFU_getVictim" unfolding LFU_getVictim_def by (rule get_victim_law)

interpretation random: replacement "unchanged (Random_getVictim rnd)" for rnd
proof
  fix cs :: "bool list" assume "cs \<noteq> []"
  then show "\<exists>v cs'. unchanged (Random_getVictim rnd) cs = Inr (v, cs') \<and> v < length cs \<and> length cs' = length cs"
    by (cases "List.find (\<lambda>i. \<not> cs ! i) [0..<length cs]")
      (auto simp: unchanged_def Random_getVictim_def random_between_def dest: find_index(2))
qed (simp add: unchanged_def Random_getVictim_def)

interpretation second_chance: replacement "SecondChance_getVictim now" for now
proof
  fix cs :: "SecondChanceReplData list" assume "cs \<noteq> []"
  then show "\<exists>v cs'. SecondChance_getVictim now cs = Inr (v, cs') \<and> v < length cs \<and> length cs' = length cs"
    using second_chance_ok by blast
qed (simp add: SecondChance_getVictim_def)

interpretation brrip: replacement "BRRIP_getVictim p" for p
proof
  fix cs :: "int list" assume n: "cs \<noteq> []"
  have "scan_victim (\<lambda>a b. a > b) cs < length cs" by (rule scan_victim_bound [OF n])
  then show "\<exists>v cs'. BRRIP_getVictim p cs = Inr (v, cs') \<and> v < length cs \<and> length cs' = length cs"
    using n by (cases "List.find (\<lambda>i. cs ! i = maxRRPV p + 1) [0..<length cs]")
      (auto simp: BRRIP_getVictim_def Let_def dest: find_index(2))
qed (simp add: BRRIP_getVictim_def)

section \<open>Properties\<close>

text \<open>Least recently used: among the entries of a set the victim is the one touched the longest ago, the
  first of them if several are; an entry that was invalidated goes before every entry touched since.\<close>
theorem lru_victim:
  assumes "cs \<noteq> []"
  shows "\<exists>v. LRU_getVictim cs = Inr v \<and> v < length cs \<and> (\<forall>i < length cs. cs ! v \<le> cs ! i) \<and>
    (\<forall>i < v. cs ! v < cs ! i) \<and> (LRU_invalidate (cs ! v) \<in> set cs \<longrightarrow> cs ! v = 0)"
proof -
  let ?v = "scan_victim (\<lambda>a b. a < b) cs"
  note l = scan_victim_least [OF assms, of "\<lambda>d. d"]
  have "cs ! ?v = 0" if "0 \<in> set cs"
    using that l(2) by (metis in_set_conv_nth word_le_0_iff)
  then show ?thesis using l assms by (simp add: LRU_getVictim_def get_victim_def LRU_invalidate_def)
qed

text \<open>The search of the second-chance policy always ends, with one of the candidates, and the victim is an
  entry that has no second chance left.\<close>
theorem second_chance_victim:
  assumes "cs \<noteq> []"
  shows "\<exists>v cs'. SecondChance_getVictim now cs = Inr (v, cs') \<and> v < length cs \<and> length cs' = length cs \<and> \<not> hasSecondChance (cs' ! v)"
  by (rule second_chance_ok [OF assms])

text \<open>Re-reference prediction: the victim is an invalid entry if there is one, and nothing changes; otherwise
  its prediction is the greatest, all predictions age by the same amount, and afterwards the victim's is
  the maximum and no other exceeds it.\<close>
theorem brrip_victim:
  assumes "cs \<noteq> []" "\<forall>d \<in> set cs. d \<le> maxRRPV p + 1"
  shows "\<exists>v cs'. BRRIP_getVictim p cs = Inr (v, cs') \<and> v < length cs \<and>
    (if maxRRPV p + 1 \<in> set cs then cs ! v = maxRRPV p + 1 \<and> cs' = cs
     else (\<forall>d \<in> set cs. d \<le> cs ! v) \<and> cs' ! v = maxRRPV p \<and> (\<forall>d \<in> set cs'. d \<le> maxRRPV p) \<and>
       (\<exists>a \<ge> 0. cs' = map (\<lambda>d. d + a) cs))"
  by (rule brrip_ok [OF assms])

theorem plru_victim_witness: "\<exists>t'. TreePLRU_invalidate (TreePLRU_leaf 4 2) (TreePLRU_tree 4) = Inr t' \<and> TreePLRU_getVictim 4 4 t' = Inr 2"
proof -
  have "length (TreePLRU_tree 4) = 2 ^ 2 - 1" by (simp add: TreePLRU_tree_def)
  from plru_victim [OF this, of 2] show ?thesis by auto
qed

theorem lru_victim_witness: "\<exists>v. LRU_getVictim [7, 3, 9] = Inr v \<and> v < 3 \<and> [7, 3, 9] ! v \<le> (3 :: Tick)"
proof -
  obtain v where "LRU_getVictim [7, 3, 9] = Inr v" "v < length [7, 3, 9 :: Tick]"
    "\<forall>i < length [7, 3, 9 :: Tick]. [7, 3, 9] ! v \<le> [7, 3, 9 :: Tick] ! i"
    using lru_victim [of "[7, 3, 9]"] by blast
  then show ?thesis by (auto dest: spec [of _ 1])
qed

theorem second_chance_victim_witness:
  "\<exists>v cs'. SecondChance_getVictim 9 [\<lparr>sc_tickInserted = 3, hasSecondChance = True\<rparr>] = Inr (v, cs') \<and> v = 0"
  using second_chance_victim [of "[\<lparr>sc_tickInserted = 3, hasSecondChance = True\<rparr>]" 9] by auto

theorem brrip_victim_witness:
  "\<exists>v cs'. BRRIP_getVictim \<lparr>maxRRPV = 3, hitPriority = False, btp = 3\<rparr> [0, 2, 1] = Inr (v, cs') \<and> cs' ! v = 3"
  using brrip_victim [of "[0, 2, 1]" "\<lparr>maxRRPV = 3, hitPriority = False, btp = 3\<rparr>"] by auto

end
