(* ===== verification/Cache_Tags.thy ===== *)
theory Cache_Tags
  imports Cache_Replacement Mem_Packet Addr_Range Int_Math
begin

text \<open>
  The tag store of a cache: the blocks of \<^verbatim>\<open>src/mem/cache/cache_blk.hh\<close>, the set-associative indexing of
  \<^verbatim>\<open>tags/indexing_policies\<close> and the operations of \<^verbatim>\<open>tags/base.cc\<close> and \<^verbatim>\<open>tags/base_set_assoc\<close>. A block
  is found by its set and way; a pointer to a block is that pair. The replacement policy is a record of
  the operations of \<^verbatim>\<open>Cache_Replacement\<close>, with its data in every block.

  The abstraction of the store is the partial map from block address and security state to the place of
  the block, found by a search of the whole cache; the operations are shown to refine the lookup,
  the update and the removal of that map.
\<close>

section \<open>Blocks\<close>

definition BlkValid :: u32 where "BlkValid = 0x01"
definition BlkWritable :: u32 where "BlkWritable = 0x02"
definition BlkReadable :: u32 where "BlkReadable = 0x04"
definition BlkDirty :: u32 where "BlkDirty = 0x08"
definition BlkHWPrefetched :: u32 where "BlkHWPrefetched = 0x20"
definition BlkSecure :: u32 where "BlkSecure = 0x40"

record Lock =
  lk_contextId :: int
  lowAddr :: Addr
  highAddr :: Addr

record 'd CacheBlk =
  cb_task_id :: u32
  cb_tag :: Addr
  cb_data :: "u8 list"
  cb_status :: u32
  whenReady :: Tick
  cb_refCount :: u32
  srcMasterId :: int
  cb_tickInserted :: Tick
  lockList :: "Lock list"
  cb_set :: u32
  cb_way :: u32
  replacementData :: 'd

definition TaskId_Unknown :: u32 where "TaskId_Unknown = 1024"

definition blk_isWritable :: "'d CacheBlk \<Rightarrow> bool" where
  "blk_isWritable b \<longleftrightarrow> cb_status b AND (BlkWritable OR BlkValid) = BlkWritable OR BlkValid"

definition blk_isReadable :: "'d CacheBlk \<Rightarrow> bool" where
  "blk_isReadable b \<longleftrightarrow> cb_status b AND (BlkReadable OR BlkValid) = BlkReadable OR BlkValid"

definition blk_isValid :: "'d CacheBlk \<Rightarrow> bool" where "blk_isValid b \<longleftrightarrow> cb_status b AND BlkValid \<noteq> 0"
definition blk_isDirty :: "'d CacheBlk \<Rightarrow> bool" where "blk_isDirty b \<longleftrightarrow> cb_status b AND BlkDirty \<noteq> 0"
definition blk_wasPrefetched :: "'d CacheBlk \<Rightarrow> bool" where "blk_wasPrefetched b \<longleftrightarrow> cb_status b AND BlkHWPrefetched \<noteq> 0"
definition blk_isSecure :: "'d CacheBlk \<Rightarrow> bool" where "blk_isSecure b \<longleftrightarrow> cb_status b AND BlkSecure \<noteq> 0"

definition blk_invalidate :: "'d CacheBlk \<Rightarrow> 'd CacheBlk" where
  "blk_invalidate b = b\<lparr>cb_tag := MaxAddr, cb_task_id := TaskId_Unknown, cb_status := 0, whenReady := MaxTick,
     cb_refCount := 0, srcMasterId := uint invldMasterId, cb_tickInserted := MaxTick, lockList := []\<rparr>"

definition setValid :: "'d CacheBlk \<Rightarrow> 'd CacheBlk res" where
  "setValid b = assertR (\<not> blk_isValid b) (ok (b\<lparr>cb_status := cb_status b OR BlkValid\<rparr>))"

definition setSecure :: "'d CacheBlk \<Rightarrow> 'd CacheBlk" where
  "setSecure b = b\<lparr>cb_status := cb_status b OR BlkSecure\<rparr>"

definition blk_insert :: "Addr \<Rightarrow> bool \<Rightarrow> int \<Rightarrow> u32 \<Rightarrow> Tick \<Rightarrow> 'd CacheBlk \<Rightarrow> 'd CacheBlk res" where
  "blk_insert tag is_secure src_master_ID task_ID now b =
     assertR (cb_status b = 0)
     (let b1 = b\<lparr>cb_tag := tag, srcMasterId := src_master_ID, cb_task_id := task_ID, cb_tickInserted := now, cb_refCount := 1\<rparr>
      in setValid (if is_secure then setSecure b1 else b1))"

section \<open>Locks of a block\<close>

definition req_bounds :: "Request \<Rightarrow> (Addr \<times> Addr) res" where
  "req_bounds r = bindR (getPaddr r) (\<lambda>a. bindR (getReqSize r) (\<lambda>n. ok (a, a + ucast n - 1)))"

definition Lock_new :: "Request \<Rightarrow> Lock res" where
  "Lock_new r = bindR (contextId r) (\<lambda>c. bindR (req_bounds r) (\<lambda>(lo, hi). ok \<lparr>lk_contextId = c, lowAddr = lo, highAddr = hi\<rparr>))"

definition lock_matches :: "Request \<Rightarrow> Lock \<Rightarrow> bool res" where
  "lock_matches r l = bindR (req_bounds r) (\<lambda>(lo, hi). bindR (contextId r) (\<lambda>c.
     ok (lk_contextId l = c \<and> lo \<ge> lowAddr l \<and> hi \<le> highAddr l)))"

definition lock_intersects :: "Request \<Rightarrow> Lock \<Rightarrow> bool res" where
  "lock_intersects r l = bindR (req_bounds r) (\<lambda>(lo, hi). ok (lo \<le> highAddr l \<and> hi \<ge> lowAddr l))"

text \<open>The loops that erase while they go on.\<close>

fun erase_intersecting :: "Request \<Rightarrow> Lock list \<Rightarrow> Lock list res" where
  "erase_intersecting r [] = ok []"
| "erase_intersecting r (l # ls) = bindR (lock_intersects r l) (\<lambda>b. bindR (erase_intersecting r ls) (\<lambda>ls'.
     ok (if b then ls' else l # ls')))"

fun erase_others :: "Request \<Rightarrow> Lock list \<Rightarrow> Lock list res" where
  "erase_others r [] = ok []"
| "erase_others r (l # ls) =
     bindR (lock_intersects r l) (\<lambda>b.
     bindR (if b then bindR (contextId r) (\<lambda>c. ok (lk_contextId l \<noteq> c)) else ok False) (\<lambda>gone.
     bindR (erase_others r ls) (\<lambda>ls'. ok (if gone then ls' else l # ls'))))"

definition blk_trackLoadLocked :: "Packet \<Rightarrow> 'd CacheBlk \<Rightarrow> 'd CacheBlk res" where
  "blk_trackLoadLocked pkt b =
     assertR (isLLSC (pcmd pkt))
     (bindR (erase_intersecting (preq pkt) (lockList b)) (\<lambda>ls.
      bindR (Lock_new (preq pkt)) (\<lambda>l. ok (b\<lparr>lockList := l # ls\<rparr>))))"

definition clearLoadLocks :: "Request \<Rightarrow> 'd CacheBlk \<Rightarrow> 'd CacheBlk res" where
  "clearLoadLocks r b = bindR (erase_others r (lockList b)) (\<lambda>ls. ok (b\<lparr>lockList := ls\<rparr>))"

text \<open>The search for a matching lock: the first is erased.\<close>

fun erase_match :: "Request \<Rightarrow> Lock list \<Rightarrow> (bool \<times> Lock list) res" where
  "erase_match r [] = ok (False, [])"
| "erase_match r (l # ls) = bindR (lock_matches r l) (\<lambda>b.
     if b then ok (True, ls) else bindR (erase_match r ls) (\<lambda>(s, ls'). ok (s, l # ls')))"

definition blk_checkWrite :: "Packet \<Rightarrow> 'd CacheBlk \<Rightarrow> (bool \<times> Packet \<times> 'd CacheBlk) res" where
  "blk_checkWrite pkt b =
     assertR (isWrite (pcmd pkt))
     (if \<not> isLLSC (pcmd pkt) \<and> lockList b = [] then ok (True, pkt, b)
      else if isLLSC (pcmd pkt) then
        bindR (erase_match (preq pkt) (lockList b)) (\<lambda>(success, ls).
        (let req = setExtraData (if success then 1 else 0) (preq pkt) in
         bindR (clearLoadLocks req (b\<lparr>lockList := ls\<rparr>)) (\<lambda>b'. ok (success, pkt\<lparr>preq := req\<rparr>, b'))))
      else bindR (clearLoadLocks (preq pkt) b) (\<lambda>b'. ok (True, pkt, b')))"

section \<open>Indexing\<close>

record 'd Policy =
  pol_instantiate :: 'd
  pol_invalidate :: "'d \<Rightarrow> 'd"
  pol_touch :: "Tick \<Rightarrow> 'd \<Rightarrow> 'd"
  pol_reset :: "Tick \<Rightarrow> 'd \<Rightarrow> 'd"
  pol_getVictim :: "'d list \<Rightarrow> (nat \<times> 'd list) res"

record 'd Tags =
  blkSize :: u32
  assoc :: u32
  numSets :: u32
  setShift :: nat
  setMask :: u32
  tagShift :: nat
  sets :: "'d CacheBlk list list"
  allocAssoc :: u32
  sequentialAccess :: bool
  lookupLatency :: u64
  maxMasters :: int
  occupancies :: "int \<Rightarrow> int"
  tagsInUse :: int
  tagAccesses :: nat
  dataAccesses :: nat
  totalRefs :: nat
  sampledRefs :: nat
  policy :: "'d Policy"

definition extractTag :: "'d Tags \<Rightarrow> Addr \<Rightarrow> Addr" where
  "extractTag t a = drop_bit (tagShift t) a"

definition extractSet :: "'d Tags \<Rightarrow> Addr \<Rightarrow> u32" where
  "extractSet t a = ucast (drop_bit (setShift t) a AND ucast (setMask t))"

text \<open>\<^verbatim>\<open>entry->getSet() << setShift\<close> is a shift of 32 bits.\<close>

definition regenerateAddr :: "'d Tags \<Rightarrow> Addr \<Rightarrow> u32 \<Rightarrow> Addr" where
  "regenerateAddr t tag st = push_bit (tagShift t) tag OR ucast (push_bit (setShift t) st)"

definition regenerateBlkAddr :: "'d Tags \<Rightarrow> 'd CacheBlk \<Rightarrow> Addr" where
  "regenerateBlkAddr t b = regenerateAddr t (cb_tag b) (cb_set b)"

definition blkAlign :: "'d Tags \<Rightarrow> Addr \<Rightarrow> Addr" where
  "blkAlign t a = a AND NOT (ucast (blkSize t - 1))"

definition extractBlkOffset :: "'d Tags \<Rightarrow> Addr \<Rightarrow> u64" where
  "extractBlkOffset t a = a AND ucast (blkSize t - 1)"

definition getPossibleEntries :: "'d Tags \<Rightarrow> Addr \<Rightarrow> 'd CacheBlk list res" where
  "getPossibleEntries t a = vec_at (sets t) (unat (extractSet t a))"

text \<open>
  The constructors. Division by zero of the size comes before the check of the associativity. The blocks
  are linked to the sets in order, each with its part of the data.
\<close>

definition CacheBlk_new :: "'d Policy \<Rightarrow> u32 \<Rightarrow> nat \<Rightarrow> nat \<Rightarrow> 'd CacheBlk" where
  "CacheBlk_new pol bs st way = \<lparr>cb_task_id = TaskId_Unknown, cb_tag = MaxAddr, cb_data = replicate (unat bs) 0, cb_status = 0,
     whenReady = MaxTick, cb_refCount = 0, srcMasterId = uint invldMasterId, cb_tickInserted = MaxTick, lockList = [],
     cb_set = word_of_nat st, cb_way = word_of_nat way, replacementData = pol_instantiate pol\<rparr>"

definition Tags_new :: "'d Policy \<Rightarrow> u64 \<Rightarrow> u32 \<Rightarrow> u32 \<Rightarrow> bool \<Rightarrow> u64 \<Rightarrow> int \<Rightarrow> 'd Tags res" where
  "Tags_new pol sz block_size asc seq_access lat max_masters =
     (if block_size * asc = 0 then fail DivisionByZero
      else let num_sets = ucast (sz div ucast (block_size * asc)) :: u32 in
      bindR (floorLog2 (ucast block_size)) (\<lambda>set_shift. bindR (floorLog2 (ucast num_sets)) (\<lambda>log_sets.
      if \<not> isPowerOf2 (ucast num_sets) then fail FatalError
      else if block_size < 4 \<or> \<not> isPowerOf2 (ucast block_size) then fail FatalError
      else if unat num_sets * unat asc < unat (sz div ucast block_size) then fail AssertFailed
      else ok \<lparr>blkSize = block_size, assoc = asc, numSets = num_sets, setShift = set_shift, setMask = num_sets - 1,
        tagShift = set_shift + log_sets,
        sets = map (\<lambda>st. map (\<lambda>way. CacheBlk_new pol block_size st way) [0..<unat asc]) [0..<unat num_sets],
        allocAssoc = asc, sequentialAccess = seq_access, lookupLatency = lat, maxMasters = max_masters,
        occupancies = (\<lambda>_. 0), tagsInUse = 0, tagAccesses = 0, dataAccesses = 0, totalRefs = 0, sampledRefs = 0,
        policy = pol\<rparr>)))"

section \<open>The tag store\<close>

definition findBlockBySetAndWay :: "'d Tags \<Rightarrow> nat \<Rightarrow> nat \<Rightarrow> 'd CacheBlk res" where
  "findBlockBySetAndWay t st way = bindR (vec_at (sets t) st) (\<lambda>bs. vec_at bs way)"

definition put_blk :: "nat \<Rightarrow> nat \<Rightarrow> 'd CacheBlk \<Rightarrow> 'd Tags \<Rightarrow> 'd Tags" where
  "put_blk st way b t = t\<lparr>sets := (sets t)[st := (sets t ! st)[way := b]]\<rparr>"

definition findBlock :: "'d Tags \<Rightarrow> Addr \<Rightarrow> bool \<Rightarrow> (nat \<times> nat) option res" where
  "findBlock t a is_secure =
     bindR (getPossibleEntries t a) (\<lambda>entries.
       ok (map_option (\<lambda>way. (unat (extractSet t a), way))
         (List.find (\<lambda>way. let blk = entries ! way in
            cb_tag blk = extractTag t a \<and> blk_isValid blk \<and> blk_isSecure blk = is_secure) [0..<length entries])))"

definition accessBlock :: "'d Tags \<Rightarrow> Addr \<Rightarrow> bool \<Rightarrow> Tick \<Rightarrow> ((nat \<times> nat) option \<times> u64 \<times> 'd Tags) res" where
  "accessBlock t a is_secure now =
     bindR (findBlock t a is_secure) (\<lambda>loc.
     (let t1 = t\<lparr>tagAccesses := tagAccesses t + unat (allocAssoc t),
                 dataAccesses := dataAccesses t + (if sequentialAccess t then (if loc \<noteq> None then 1 else 0) else unat (allocAssoc t))\<rparr>
      in case loc of
           None \<Rightarrow> ok (None, lookupLatency t, t1)
         | Some (st, way) \<Rightarrow>
             (let b = sets t ! st ! way in
              ok (Some (st, way), lookupLatency t, put_blk st way (b\<lparr>cb_refCount := cb_refCount b + 1,
                replacementData := pol_touch (policy t) now (replacementData b)\<rparr>) t1))))"

definition findVictim :: "'d Tags \<Rightarrow> Addr \<Rightarrow> ((nat \<times> nat) \<times> 'd Tags) res" where
  "findVictim t a =
     bindR (getPossibleEntries t a) (\<lambda>entries.
     bindR (pol_getVictim (policy t) (map replacementData entries)) (\<lambda>(v, ds).
       let st = unat (extractSet t a) in
       ok ((st, v), t\<lparr>sets := (sets t)[st := map2 (\<lambda>b d. b\<lparr>replacementData := d\<rparr>) entries ds]\<rparr>)))"

definition insertBlock :: "Addr \<Rightarrow> bool \<Rightarrow> int \<Rightarrow> u32 \<Rightarrow> nat \<times> nat \<Rightarrow> Tick \<Rightarrow> 'd Tags \<Rightarrow> 'd Tags res" where
  "insertBlock a is_secure src_master_ID task_ID loc now t =
     bindR (findBlockBySetAndWay t (fst loc) (snd loc)) (\<lambda>b.
     assertR (\<not> blk_isValid b) (assertR (src_master_ID < maxMasters t)
     (bindR (blk_insert (extractTag t a) is_secure src_master_ID task_ID now b) (\<lambda>b'.
       ok (put_blk (fst loc) (snd loc) (b'\<lparr>replacementData := pol_reset (policy t) now (replacementData b')\<rparr>)
         (t\<lparr>occupancies := (occupancies t)(src_master_ID := occupancies t src_master_ID + 1),
            tagAccesses := tagAccesses t + 1, dataAccesses := dataAccesses t + 1, tagsInUse := tagsInUse t + 1\<rparr>))))))"

definition tags_invalidate :: "nat \<times> nat \<Rightarrow> 'd Tags \<Rightarrow> 'd Tags res" where
  "tags_invalidate loc t =
     bindR (findBlockBySetAndWay t (fst loc) (snd loc)) (\<lambda>b.
     assertR (blk_isValid b)
     (ok (put_blk (fst loc) (snd loc) ((blk_invalidate b)\<lparr>replacementData := pol_invalidate (policy t) (replacementData b)\<rparr>)
        (t\<lparr>occupancies := (occupancies t)(srcMasterId b := occupancies t (srcMasterId b) - 1),
           totalRefs := totalRefs t + unat (cb_refCount b), sampledRefs := sampledRefs t + 1, tagsInUse := tagsInUse t - 1\<rparr>))))"

definition setWayAllocationMax :: "int \<Rightarrow> 'd Tags \<Rightarrow> 'd Tags res" where
  "setWayAllocationMax ways t = (if ways < 1 then fail FatalError else ok (t\<lparr>allocAssoc := word_of_int ways\<rparr>))"

definition anyBlk :: "('d CacheBlk \<Rightarrow> bool) \<Rightarrow> 'd Tags \<Rightarrow> bool" where
  "anyBlk visitor t \<longleftrightarrow> list_ex (list_ex visitor) (sets t)"

definition forEachBlk :: "('d CacheBlk \<Rightarrow> 'd CacheBlk) \<Rightarrow> 'd Tags \<Rightarrow> 'd Tags" where
  "forEachBlk visitor t = t\<lparr>sets := map (map visitor) (sets t)\<rparr>"

section \<open>Geometry\<close>

definition tags_geom :: "'d Tags \<Rightarrow> bool" where
  "tags_geom t \<longleftrightarrow> 2 \<le> setShift t \<and> setShift t \<le> tagShift t \<and> setShift t < 32 \<and> tagShift t \<le> 32 \<and>
     blkSize t = 2 ^ setShift t \<and> numSets t = 2 ^ (tagShift t - setShift t) \<and> setMask t = numSets t - 1 \<and>
     length (sets t) = 2 ^ (tagShift t - setShift t)"

lemma bit_low_mask: "k < 32 \<Longrightarrow> bit (ucast ((2::u32) ^ k - 1) :: u64) n \<longleftrightarrow> n < k"
proof -
  assume "k < 32"
  have "(2::u32) ^ k - 1 = mask k" by (simp add: mask_eq_exp_minus_1)
  then show ?thesis using \<open>k < 32\<close> by (auto simp: bit_unsigned_iff bit_mask_iff)
qed

lemma bit_extractTag: "bit (extractTag t a) n \<longleftrightarrow> bit a (tagShift t + n)"
  by (simp add: extractTag_def bit_drop_bit_eq)

lemma bit_extractSet:
  assumes "tags_geom t"
  shows "bit (extractSet t a) n \<longleftrightarrow> n < tagShift t - setShift t \<and> bit a (setShift t + n)"
proof -
  have "tagShift t - setShift t < 32" using assms by (auto simp: tags_geom_def)
  from bit_low_mask [OF this, of n] have "bit (ucast (setMask t) :: u64) n \<longleftrightarrow> n < tagShift t - setShift t"
    using assms by (simp add: tags_geom_def)
  then show ?thesis using assms
    by (auto simp: extractSet_def bit_unsigned_iff bit_and_iff bit_drop_bit_eq tags_geom_def)
qed

lemma bit_blkAlign: "tags_geom t \<Longrightarrow> bit (blkAlign t a) n \<longleftrightarrow> setShift t \<le> n \<and> bit a n"
  using bit_low_mask [of "setShift t" n] bit_imp_le_length [of a n]
  by (auto simp: blkAlign_def tags_geom_def bit_and_iff bit_not_iff)

lemma bit_regenerateAddr:
  "bit (regenerateAddr t tag st) n \<longleftrightarrow> tagShift t \<le> n \<and> n < 64 \<and> bit tag (n - tagShift t) \<or>
     setShift t \<le> n \<and> n < 32 \<and> bit st (n - setShift t)"
  by (auto simp: regenerateAddr_def bit_or_iff bit_push_bit_iff bit_unsigned_iff)

lemma extractSet_less:
  assumes "tags_geom t"
  shows "unat (extractSet t a) < length (sets t)"
proof -
  let ?s = "tagShift t - setShift t"
  have "?s < 32" using assms by (auto simp: tags_geom_def)
  moreover have "extractSet t a = take_bit ?s (extractSet t a)"
    by (rule bit_word_eqI) (auto simp: bit_take_bit_iff bit_extractSet [OF assms])
  ultimately have "unat (extractSet t a) < 2 ^ ?s"
    by (metis take_bit_nat_less_exp unsigned_take_bit_eq)
  then show ?thesis using assms by (simp add: tags_geom_def)
qed

lemma regenerate_blkAlign:
  assumes "tags_geom t"
  shows "regenerateAddr t (extractTag t a) (extractSet t a) = blkAlign t a"
proof (rule bit_word_eqI)
  fix n assume "n < LENGTH(64)"
  then show "bit (regenerateAddr t (extractTag t a) (extractSet t a)) n = bit (blkAlign t a) n"
    using assms by (cases "tagShift t \<le> n")
      (auto simp: bit_regenerateAddr bit_extractTag bit_extractSet [OF assms] bit_blkAlign [OF assms] tags_geom_def)
qed

lemma extract_blkAlign:
  assumes "tags_geom t"
  shows "extractTag t (blkAlign t a) = extractTag t a" "extractSet t (blkAlign t a) = extractSet t a"
    "blkAlign t (blkAlign t a) = blkAlign t a"
  using assms by (auto intro!: bit_word_eqI simp: bit_extractTag bit_extractSet [OF assms] bit_blkAlign [OF assms] tags_geom_def)

lemma extract_regenerate:
  assumes "tags_geom t" "drop_bit (64 - tagShift t) tag = 0" "unat st < length (sets t)"
  shows "extractTag t (regenerateAddr t tag st) = tag" "extractSet t (regenerateAddr t tag st) = st"
proof -
  let ?s = "tagShift t - setShift t"
  have g: "setShift t \<le> tagShift t" "tagShift t \<le> 32" "?s < 32" "length (sets t) = 2 ^ ?s" using assms(1) by (auto simp: tags_geom_def)
  have st: "\<not> bit st n" if "?s \<le> n" for n
  proof -
    have "take_bit ?s (unat st) = unat st" using assms(3) g(4) by (simp add: take_bit_nat_eq_self)
    then have "\<not> bit (unat st) n" using that by (metis bit_take_bit_iff leD)
    then show ?thesis using bit_imp_le_length [of st n] by (auto simp: bit_unsigned_iff)
  qed
  have tg: "\<not> bit tag n" if "64 - tagShift t \<le> n" for n
  proof -
    have "bit (drop_bit (64 - tagShift t) tag) (n - (64 - tagShift t)) \<longleftrightarrow> bit tag n" using that by (simp add: bit_drop_bit_eq)
    then show ?thesis using assms(2) by simp
  qed
  show "extractTag t (regenerateAddr t tag st) = tag"
  proof (rule bit_word_eqI)
    fix n assume "n < LENGTH(64)"
    have "\<not> bit st (tagShift t + n - setShift t)" using g(1) by (intro st) simp
    moreover have "bit tag n \<Longrightarrow> tagShift t + n < 64" using tg [of n] by force
    ultimately show "bit (extractTag t (regenerateAddr t tag st)) n = bit tag n"
      by (auto simp: bit_extractTag bit_regenerateAddr)
  qed
  show "extractSet t (regenerateAddr t tag st) = st"
  proof (rule bit_word_eqI)
    fix n assume "n < LENGTH(32)"
    have "bit st n \<Longrightarrow> n < tagShift t - setShift t" using st [of n] by force
    then show "bit (extractSet t (regenerateAddr t tag st)) n = bit st n"
      using g by (auto simp: bit_extractSet [OF assms(1)] bit_regenerateAddr not_less)
  qed
qed

section \<open>The store as a map\<close>

definition blk_ok :: "'d Tags \<Rightarrow> nat \<Rightarrow> 'd CacheBlk \<Rightarrow> bool" where
  "blk_ok t st b \<longleftrightarrow> unat (cb_set b) = st \<and> length (cb_data b) = unat (blkSize t) \<and>
     (if blk_isValid b then drop_bit (64 - tagShift t) (cb_tag b) = 0 else cb_status b = 0)"

definition same_block :: "'d CacheBlk \<Rightarrow> 'd CacheBlk \<Rightarrow> bool" where
  "same_block b c \<longleftrightarrow> blk_isValid b \<and> blk_isValid c \<and> cb_tag b = cb_tag c \<and> blk_isSecure b = blk_isSecure c"

definition tags_wf :: "'d Tags \<Rightarrow> bool" where
  "tags_wf t \<longleftrightarrow> tags_geom t \<and> 0 < unat (assoc t) \<and>
     (\<forall>st < length (sets t). length (sets t ! st) = unat (assoc t) \<and>
        (\<forall>way < unat (assoc t). blk_ok t st (sets t ! st ! way) \<and>
          (\<forall>way' < way. \<not> same_block (sets t ! st ! way') (sets t ! st ! way))))"

text \<open>A block holds an address; the abstraction searches the whole cache for it.\<close>

definition held :: "'d Tags \<Rightarrow> Addr \<times> bool \<Rightarrow> 'd CacheBlk \<Rightarrow> bool" where
  "held t k b \<longleftrightarrow> blk_isValid b \<and> regenerateBlkAddr t b = fst k \<and> blk_isSecure b = snd k"

definition cmap :: "'d Tags \<Rightarrow> Addr \<times> bool \<Rightarrow> (nat \<times> nat) option" where
  "cmap t k = List.find (\<lambda>(st, way). held t k (sets t ! st ! way))
     (List.product [0..<length (sets t)] [0..<unat (assoc t)])"

lemma tags_wfD:
  assumes "tags_wf t" "st < length (sets t)"
  shows "length (sets t ! st) = unat (assoc t)" "way < unat (assoc t) \<Longrightarrow> blk_ok t st (sets t ! st ! way)"
    and "way < unat (assoc t) \<Longrightarrow> way' < unat (assoc t) \<Longrightarrow> same_block (sets t ! st ! way) (sets t ! st ! way') \<Longrightarrow> way = way'"
proof -
  show "length (sets t ! st) = unat (assoc t)" "way < unat (assoc t) \<Longrightarrow> blk_ok t st (sets t ! st ! way)"
    using assms by (simp_all add: tags_wf_def)
  show "way < unat (assoc t) \<Longrightarrow> way' < unat (assoc t) \<Longrightarrow> same_block (sets t ! st ! way) (sets t ! st ! way') \<Longrightarrow> way = way'"
    using assms unfolding tags_wf_def same_block_def by (metis linorder_neqE_nat)
qed

lemma held_place:
  assumes "tags_wf t" "st < length (sets t)" "way < unat (assoc t)" "held t k (sets t ! st ! way)"
  shows "unat (extractSet t (fst k)) = st" "extractTag t (fst k) = cb_tag (sets t ! st ! way)" "blkAlign t (fst k) = fst k"
proof -
  let ?b = "sets t ! st ! way"
  have b: "unat (cb_set ?b) = st" "drop_bit (64 - tagShift t) (cb_tag ?b) = 0" "regenerateAddr t (cb_tag ?b) (cb_set ?b) = fst k"
    using tags_wfD(2) [OF assms(1-3)] assms(4) by (auto simp: blk_ok_def held_def regenerateBlkAddr_def)
  have g: "tags_geom t" using assms(1) by (simp add: tags_wf_def)
  have l: "unat (cb_set ?b) < length (sets t)" using b(1) assms(2) by simp
  note e = extract_regenerate [OF g b(2) l]
  show "unat (extractSet t (fst k)) = st" "extractTag t (fst k) = cb_tag ?b" using e b(1,3) by simp_all
  show "blkAlign t (fst k) = fst k" using regenerate_blkAlign [OF g, of "fst k"] e b(3) by simp
qed

lemma find_Some_mem: "List.find P xs = Some x \<Longrightarrow> x \<in> set xs \<and> P x"
  by (induction xs) (auto split: if_splits)

lemma cmap_Some:
  assumes "tags_wf t"
  shows "cmap t k = Some (st, way) \<longleftrightarrow> st < length (sets t) \<and> way < unat (assoc t) \<and> held t k (sets t ! st ! way)"
proof
  assume "cmap t k = Some (st, way)"
  then have "(st, way) \<in> set (List.product [0..<length (sets t)] [0..<unat (assoc t)]) \<and> held t k (sets t ! st ! way)"
    using find_Some_mem unfolding cmap_def by fastforce
  then show "st < length (sets t) \<and> way < unat (assoc t) \<and> held t k (sets t ! st ! way)" by auto
next
  assume h: "st < length (sets t) \<and> way < unat (assoc t) \<and> held t k (sets t ! st ! way)"
  obtain st' way' where f: "cmap t k = Some (st', way')"
    using h find_None_iff [of "\<lambda>(st, way). held t k (sets t ! st ! way)"] by (cases "cmap t k") (auto simp: cmap_def)
  then have "(st', way') \<in> set (List.product [0..<length (sets t)] [0..<unat (assoc t)]) \<and> held t k (sets t ! st' ! way')"
    using find_Some_mem unfolding cmap_def by fastforce
  then have h': "st' < length (sets t)" "way' < unat (assoc t)" "held t k (sets t ! st' ! way')" by auto
  note p = held_place [OF assms] 
  have "st' = st" using p(1) h h' by metis
  moreover have "same_block (sets t ! st ! way') (sets t ! st ! way)"
    using p(2) [of st way k] p(2) [of st' way' k] h h' \<open>st' = st\<close> by (auto simp: same_block_def held_def)
  ultimately show "cmap t k = Some (st, way)" using tags_wfD(3) [OF assms] h h' f by blast
qed

lemma option_pair_eqI: "(\<And>a b. x = Some (a, b) \<longleftrightarrow> y = Some (a, b)) \<Longrightarrow> x = y"
  by (cases x; cases y) auto

lemma findBlock_map:
  assumes "tags_wf t"
  shows "findBlock t a is_secure = Inr (cmap t (blkAlign t a, is_secure))"
proof -
  have g: "tags_geom t" using assms by (simp add: tags_wf_def)
  let ?st = "unat (extractSet t a)" let ?k = "(blkAlign t a, is_secure)"
  let ?P = "\<lambda>way. let blk = sets t ! ?st ! way in cb_tag blk = extractTag t a \<and> blk_isValid blk \<and> blk_isSecure blk = is_secure"
  have st: "?st < length (sets t)" by (rule extractSet_less [OF g])
  note len = tags_wfD(1) [OF assms st]
  have "findBlock t a is_secure = Inr (map_option (Pair ?st) (List.find ?P [0..<unat (assoc t)]))"
    using st len by (simp add: findBlock_def getPossibleEntries_def)
  moreover have "map_option (Pair ?st) (List.find ?P [0..<unat (assoc t)]) = cmap t ?k"
  proof (cases "List.find ?P [0..<unat (assoc t)]")
    case (Some w)
    then have w: "?P w" "w < unat (assoc t)" using find_index [OF Some] by blast+
    have "cb_set (sets t ! ?st ! w) = extractSet t a"
      using tags_wfD(2) [OF assms st w(2)] by (simp add: blk_ok_def word_unat_eq_iff)
    then have "held t ?k (sets t ! ?st ! w)"
      using w(1) regenerate_blkAlign [OF g, of a] by (simp add: held_def regenerateBlkAddr_def Let_def)
    then show ?thesis using Some st w(2) cmap_Some [OF assms, of ?k ?st w] by simp
  next
    case None
    have "cmap t ?k = None"
    proof (rule ccontr)
      assume "cmap t ?k \<noteq> None"
      then obtain s w where "cmap t ?k = Some (s, w)" by auto
      then have h: "s < length (sets t)" "w < unat (assoc t)" "held t ?k (sets t ! s ! w)"
        unfolding cmap_Some [OF assms] by blast+
      have "s = ?st" "cb_tag (sets t ! s ! w) = extractTag t a"
        using held_place(1) [OF assms h, unfolded fst_conv extract_blkAlign(2) [OF g]]
          held_place(2) [OF assms h, unfolded fst_conv extract_blkAlign(1) [OF g]] by (simp_all only:)
      then show False using find_no_index [OF None h(2)] h(3) by (auto simp: held_def Let_def)
    qed
    with None show ?thesis by simp
  qed
  ultimately show ?thesis by simp
qed

text \<open>The search of one set finds what a search of the whole cache would: \<open>findBlock\<close> is the lookup in the
  map from block address and security state to places.\<close>
theorem findBlock_refines:
  assumes "tags_wf t"
  shows "findBlock t a is_secure = Inr (cmap t (blkAlign t a, is_secure))"
  by (rule findBlock_map [OF assms])

text \<open>The tag and the set of an address give its block address back.\<close>
theorem regenerate_extract:
  assumes "tags_geom t"
  shows "regenerateAddr t (extractTag t a) (extractSet t a) = blkAlign t a"
  by (rule regenerate_blkAlign [OF assms])

section \<open>Changing one block\<close>

lemma put_blk_sel [simp]:
  "setShift (put_blk s w b t) = setShift t" "tagShift (put_blk s w b t) = tagShift t" "blkSize (put_blk s w b t) = blkSize t"
  "numSets (put_blk s w b t) = numSets t" "setMask (put_blk s w b t) = setMask t" "assoc (put_blk s w b t) = assoc t"
  "length (sets (put_blk s w b t)) = length (sets t)" "policy (put_blk s w b t) = policy t"
  by (simp_all add: put_blk_def)

lemma put_blk_nth:
  assumes "s < length (sets t)" "w < length (sets t ! s)"
  shows "sets (put_blk s w b t) ! s' ! w' = (if s' = s \<and> w' = w then b else sets t ! s' ! w')"
    "length (sets (put_blk s w b t) ! s') = length (sets t ! s')"
  using assms by (auto simp: put_blk_def nth_list_update)

text \<open>Operations look at the geometry and the blocks only.\<close>

definition same_store :: "'d Tags \<Rightarrow> 'd Tags \<Rightarrow> bool" where
  "same_store t t' \<longleftrightarrow> setShift t' = setShift t \<and> tagShift t' = tagShift t \<and> blkSize t' = blkSize t \<and> numSets t' = numSets t \<and>
     setMask t' = setMask t \<and> assoc t' = assoc t \<and> sets t' = sets t"

lemma same_store_cong:
  assumes "same_store t t'"
  shows "tags_wf t' \<longleftrightarrow> tags_wf t" "cmap t' = cmap t" "extractTag t' = extractTag t" "extractSet t' = extractSet t"
    "blkAlign t' = blkAlign t" "tags_geom t' \<longleftrightarrow> tags_geom t"
  using assms
  by (auto simp: same_store_def tags_wf_def tags_geom_def blk_ok_def cmap_def held_def regenerateBlkAddr_def regenerateAddr_def
      extractTag_def extractSet_def blkAlign_def fun_eq_iff cong: if_cong)

lemma put_blk_wf:
  assumes "tags_wf t" "s < length (sets t)" "w < unat (assoc t)" "blk_ok t s b"
    and "\<forall>w' < unat (assoc t). w' \<noteq> w \<longrightarrow> \<not> same_block b (sets t ! s ! w')"
  shows "tags_wf (put_blk s w b t)"
proof -
  have l: "w < length (sets t ! s)" using tags_wfD(1) [OF assms(1,2)] assms(3) by simp
  have sym: "same_block b c \<longleftrightarrow> same_block c b" for c by (auto simp: same_block_def)
  have bo: "blk_ok (put_blk s w b t) st c \<longleftrightarrow> blk_ok t st c" for st c by (simp add: blk_ok_def)
  have "tags_geom (put_blk s w b t)" using assms(1) by (simp add: tags_wf_def tags_geom_def)
  moreover have "\<not> same_block (sets (put_blk s w b t) ! st ! w') (sets (put_blk s w b t) ! st ! way)"
    if "st < length (sets t)" "way < unat (assoc t)" "w' < way" for st way w'
    using tags_wfD(3) [OF assms(1) that(1), of w' way] that(2,3) assms(5) sym [of "sets t ! s ! w'"]
    unfolding put_blk_nth [OF assms(2) l] by auto
  moreover have "blk_ok t st (sets (put_blk s w b t) ! st ! way)" if "st < length (sets t)" "way < unat (assoc t)" for st way
    using tags_wfD(2) [OF assms(1) that] assms(4) unfolding put_blk_nth [OF assms(2) l] by simp
  ultimately show ?thesis
    using assms(1) put_blk_nth(2) [OF assms(2) l] unfolding tags_wf_def by (simp add: bo)
qed

lemma held_put_blk: "held (put_blk s w b t) k c \<longleftrightarrow> held t k c"
  by (simp add: held_def regenerateBlkAddr_def regenerateAddr_def)

lemma cmap_put_blk:
  assumes "tags_wf t" "s < length (sets t)" "w < unat (assoc t)" "tags_wf (put_blk s w b t)"
  shows "cmap (put_blk s w b t) k = (if held t k b then Some (s, w) else if cmap t k = Some (s, w) then None else cmap t k)"
proof (rule option_pair_eqI)
  fix x y
  have l: "w < length (sets t ! s)" using tags_wfD(1) [OF assms(1,2)] assms(3) by simp
  have c: "cmap (put_blk s w b t) k = Some (x, y) \<longleftrightarrow> x < length (sets t) \<and> y < unat (assoc t) \<and>
      held t k (if x = s \<and> y = w then b else sets t ! x ! y)" for x y
    using cmap_Some [OF assms(4), of k x y] by (simp only: put_blk_sel held_put_blk put_blk_nth [OF assms(2) l])
  show "cmap (put_blk s w b t) k = Some (x, y) \<longleftrightarrow>
      (if held t k b then Some (s, w) else if cmap t k = Some (s, w) then None else cmap t k) = Some (x, y)"
  proof (cases "held t k b")
    case True
    then have "cmap (put_blk s w b t) k = Some (s, w)" using c [of s w] assms(2,3) by simp
    then show ?thesis using True by simp
  next
    case False
    then show ?thesis using c [of x y] cmap_Some [OF assms(1), of k x y] by auto
  qed
qed

lemma blk_insert_ok:
  assumes "cb_status b = 0"
  shows "\<exists>b'. blk_insert tag is_secure src task now b = Inr b' \<and> blk_isValid b' \<and> blk_isSecure b' = is_secure \<and> \<not> blk_isDirty b' \<and>
    cb_tag b' = tag \<and> cb_set b' = cb_set b \<and> cb_data b' = cb_data b"
  using assms by (cases is_secure)
    (simp_all add: blk_insert_def setValid_def setSecure_def blk_isValid_def blk_isSecure_def blk_isDirty_def BlkValid_def BlkSecure_def BlkDirty_def)

lemma blk_insert_repl: "blk_insert tag is_secure src task now b = Inr b' \<Longrightarrow> replacementData b' = replacementData b"
  by (auto simp: blk_insert_def setValid_def setSecure_def assertR_eq_Inr Let_def split: if_splits)

lemma findBlockBySetAndWay_in:
  assumes "tags_wf t" "s < length (sets t)" "w < unat (assoc t)"
  shows "findBlockBySetAndWay t s w = Inr (sets t ! s ! w)"
  using assms tags_wfD(1) [OF assms(1,2)] by (simp add: findBlockBySetAndWay_def)

lemma extractTag_small: "tagShift t \<le> 64 \<Longrightarrow> drop_bit (64 - tagShift t) (extractTag t a) = 0"
  by (rule bit_word_eqI) (auto simp: extractTag_def bit_drop_bit_eq dest: bit_imp_le_length)

lemma insertBlock_step:
  assumes "tags_wf t" "w < unat (assoc t)" "\<not> blk_isValid (sets t ! unat (extractSet t a) ! w)"
    and "cmap t (blkAlign t a, is_secure) = None" "src < maxMasters t"
  shows "\<exists>t'. insertBlock a is_secure src task (unat (extractSet t a), w) now t = Inr t' \<and> tags_wf t' \<and>
    cmap t' = (cmap t)((blkAlign t a, is_secure) \<mapsto> (unat (extractSet t a), w)) \<and>
    (\<forall>x y. cb_data (sets t' ! x ! y) = cb_data (sets t ! x ! y))"
proof -
  let ?s = "unat (extractSet t a)" let ?b = "sets t ! ?s ! w"
  have g: "tags_geom t" using assms(1) by (simp add: tags_wf_def)
  have s: "?s < length (sets t)" by (rule extractSet_less [OF g])
  have l: "w < length (sets t ! ?s)" using tags_wfD(1) [OF assms(1) s] assms(2) by simp
  have bo: "blk_ok t ?s ?b" by (rule tags_wfD(2) [OF assms(1) s assms(2)])
  then have z: "cb_status ?b = 0" using assms(3) by (simp add: blk_ok_def)
  obtain b1 where b1: "blk_insert (extractTag t a) is_secure src task now ?b = Inr b1" "blk_isValid b1" "blk_isSecure b1 = is_secure"
    "cb_tag b1 = extractTag t a" "cb_set b1 = cb_set ?b" "cb_data b1 = cb_data ?b" using blk_insert_ok [OF z] by blast
  define b' where "b' = b1\<lparr>replacementData := pol_reset (policy t) now (replacementData b1)\<rparr>"
  define u where "u = t\<lparr>occupancies := (occupancies t)(src := occupancies t src + 1), tagAccesses := tagAccesses t + 1,
    dataAccesses := dataAccesses t + 1, tagsInUse := tagsInUse t + 1\<rparr>"
  have u: "same_store t u" by (simp add: u_def same_store_def)
  have sets_u: "sets u = sets t" "assoc u = assoc t" using u by (simp_all add: same_store_def)
  have ins: "insertBlock a is_secure src task (?s, w) now t = Inr (put_blk ?s w b' u)"
    using findBlockBySetAndWay_in [OF assms(1) s assms(2)] assms(3,5) b1(1) by (simp add: insertBlock_def b'_def u_def)
  have b': "blk_isValid b'" "blk_isSecure b' = is_secure" "cb_tag b' = extractTag t a" "cb_set b' = cb_set ?b" "cb_data b' = cb_data ?b"
    using b1 by (simp_all add: b'_def blk_isValid_def blk_isSecure_def)
  have cs: "cb_set ?b = extractSet t a" using bo by (simp add: blk_ok_def word_unat_eq_iff)
  have hk: "held t k b' \<longleftrightarrow> k = (blkAlign t a, is_secure)" for k
    using b' cs regenerate_blkAlign [OF g, of a] by (cases k) (auto simp: held_def regenerateBlkAddr_def)
  have "tagShift t \<le> 64" using g by (simp add: tags_geom_def)
  then have bo': "blk_ok u ?s b'" using bo b' u extractTag_small [of t a] by (simp add: blk_ok_def same_store_def)
  have "\<not> same_block b' (sets u ! ?s ! w')" if "w' < unat (assoc u)" "w' \<noteq> w" for w'
  proof
    assume sb: "same_block b' (sets u ! ?s ! w')"
    have "blk_ok t ?s (sets t ! ?s ! w')" using tags_wfD(2) [OF assms(1) s] that sets_u by simp
    then have "cb_set (sets t ! ?s ! w') = extractSet t a" by (simp add: blk_ok_def word_unat_eq_iff)
    then have "held t (blkAlign t a, is_secure) (sets t ! ?s ! w')"
      using sb b' sets_u regenerate_blkAlign [OF g, of a] by (auto simp: same_block_def held_def regenerateBlkAddr_def)
    then show False using cmap_Some [OF assms(1), of "(blkAlign t a, is_secure)" ?s w'] s that sets_u assms(4) by simp
  qed
  then have wf: "tags_wf (put_blk ?s w b' u)"
    using same_store_cong(1) [OF u] assms(1,2) s sets_u bo' by (intro put_blk_wf) simp_all
  have "cmap (put_blk ?s w b' u) k = ((cmap t)((blkAlign t a, is_secure) \<mapsto> (?s, w))) k" for k
  proof -
    have "held u k b' \<longleftrightarrow> held t k b'" using u by (simp add: held_def regenerateBlkAddr_def regenerateAddr_def same_store_def)
    moreover have "cmap t k \<noteq> Some (?s, w)" using cmap_Some [OF assms(1), of k ?s w] assms(3) by (auto simp: held_def)
    ultimately show ?thesis
      using cmap_put_blk [of u ?s w b' k] same_store_cong(1,2) [OF u] assms(1,2) s sets_u wf hk [of k] by auto
  qed
  moreover have "cb_data (sets (put_blk ?s w b' u) ! x ! y) = cb_data (sets t ! x ! y)" for x y
    using put_blk_nth(1) [of ?s u w b' x y] s l sets_u b'(5) by simp
  ultimately show ?thesis using ins wf by blast
qed

text \<open>C16: Inserting a block at an empty place of the set of its address is an update of the map: the block is
  found there afterwards, every other block is where it was, and no data changes.\<close>
theorem insertBlock_refines:
  assumes "tags_wf t" "w < unat (assoc t)" "\<not> blk_isValid (sets t ! unat (extractSet t a) ! w)"
    and "cmap t (blkAlign t a, is_secure) = None" "src < maxMasters t"
  shows "\<exists>t'. insertBlock a is_secure src task (unat (extractSet t a), w) now t = Inr t' \<and> tags_wf t' \<and>
    cmap t' = (cmap t)((blkAlign t a, is_secure) \<mapsto> (unat (extractSet t a), w)) \<and>
    (\<forall>x y. cb_data (sets t' ! x ! y) = cb_data (sets t ! x ! y))"
  by (rule insertBlock_step [OF assms])

lemma invalidate_step:
  assumes "tags_wf t" "cmap t k = Some (s, w)"
  shows "\<exists>t'. tags_invalidate (s, w) t = Inr t' \<and> tags_wf t' \<and> cmap t' = (cmap t)(k := None) \<and>
    \<not> blk_isValid (sets t' ! s ! w) \<and> (\<forall>x y. cb_data (sets t' ! x ! y) = cb_data (sets t ! x ! y)) \<and>
    blkSize t' = blkSize t"
proof -
  let ?b = "sets t ! s ! w"
  have h: "s < length (sets t)" "w < unat (assoc t)" "held t k ?b" using cmap_Some [OF assms(1)] assms(2) by simp_all
  have l: "w < length (sets t ! s)" using tags_wfD(1) [OF assms(1) h(1)] h(2) by simp
  have bo: "blk_ok t s ?b" by (rule tags_wfD(2) [OF assms(1) h(1,2)])
  define b' where "b' = (blk_invalidate ?b)\<lparr>replacementData := pol_invalidate (policy t) (replacementData ?b)\<rparr>"
  define u where "u = t\<lparr>occupancies := (occupancies t)(srcMasterId ?b := occupancies t (srcMasterId ?b) - 1),
    totalRefs := totalRefs t + unat (cb_refCount ?b), sampledRefs := sampledRefs t + 1, tagsInUse := tagsInUse t - 1\<rparr>"
  have u: "same_store t u" by (simp add: u_def same_store_def)
  have sets_u: "sets u = sets t" "assoc u = assoc t" using u by (simp_all add: same_store_def)
  have b': "\<not> blk_isValid b'" "cb_status b' = 0" "cb_set b' = cb_set ?b" "cb_data b' = cb_data ?b"
    by (simp_all add: b'_def blk_invalidate_def blk_isValid_def)
  have inv: "tags_invalidate (s, w) t = Inr (put_blk s w b' u)"
    using findBlockBySetAndWay_in [OF assms(1) h(1,2)] h(3) by (simp add: tags_invalidate_def b'_def u_def held_def)
  have "blk_ok u s b'" using bo b' u by (simp add: blk_ok_def same_store_def)
  then have wf: "tags_wf (put_blk s w b' u)"
    using same_store_cong(1) [OF u] assms(1) h sets_u b'(1) by (intro put_blk_wf) (simp_all add: same_block_def)
  have "cmap (put_blk s w b' u) k' = ((cmap t)(k := None)) k'" for k'
  proof -
    have nh: "\<not> held u k' b'" using b'(1) by (simp add: held_def)
    have "cmap t k' = Some (s, w) \<longleftrightarrow> k' = k"
      using cmap_Some [OF assms(1), of k' s w] h assms(2) by (auto simp: held_def prod_eq_iff)
    then show ?thesis
      using cmap_put_blk [of u s w b' k'] same_store_cong(1,2) [OF u] assms(1) h sets_u wf nh by auto
  qed
  moreover have "sets (put_blk s w b' u) ! x ! y = (if x = s \<and> y = w then b' else sets t ! x ! y)" for x y
    using put_blk_nth(1) [of s u w b' x y] h(1) l sets_u by simp
  moreover have "blkSize u = blkSize t" by (simp add: u_def)
  ultimately show ?thesis using inv wf b' by auto
qed

text \<open>Invalidating the block of an address removes it from the map and leaves every other block in place.\<close>
theorem invalidate_refines:
  assumes "tags_wf t" "cmap t k = Some (s, w)"
  shows "\<exists>t'. tags_invalidate (s, w) t = Inr t' \<and> tags_wf t' \<and> cmap t' = (cmap t)(k := None) \<and>
    \<not> blk_isValid (sets t' ! s ! w) \<and> (\<forall>x y. cb_data (sets t' ! x ! y) = cb_data (sets t ! x ! y))"
  using invalidate_step [OF assms] by blast

section \<open>A new store\<close>

lemma Tags_new_empty:
  assumes "Tags_new pol sz block_size asc seq_access lat max_masters = Inr t" "tagShift t \<le> 32"
  shows "tags_wf t \<and> cmap t = (\<lambda>_. None) \<and> assoc t = asc \<and> blkSize t = block_size \<and> (\<exists>k. block_size = 2 ^ k) \<and> (\<exists>k. numSets t = 2 ^ k)"
proof -
  let ?n = "ucast (sz div ucast (block_size * asc)) :: u32"
  obtain ss ls where new: "block_size * asc \<noteq> 0" "floorLog2 (ucast block_size) = Inr ss" "floorLog2 (ucast ?n) = Inr ls"
    "isPowerOf2 (ucast ?n)" "\<not> block_size < 4" "isPowerOf2 (ucast block_size)"
    and t: "t = \<lparr>blkSize = block_size, assoc = asc, numSets = ?n, setShift = ss, setMask = ?n - 1, tagShift = ss + ls,
        sets = map (\<lambda>st. map (\<lambda>way. CacheBlk_new pol block_size st way) [0..<unat asc]) [0..<unat ?n],
        allocAssoc = asc, sequentialAccess = seq_access, lookupLatency = lat, maxMasters = max_masters,
        occupancies = (\<lambda>_. 0), tagsInUse = 0, tagAccesses = 0, dataAccesses = 0, totalRefs = 0, sampledRefs = 0,
        policy = pol\<rparr>"
    using assms(1) by (auto simp: Tags_new_def Let_def bindR_eq_Inr split: if_splits)
  have ss: "ss < 32" "block_size = 2 ^ ss"
    using isPowerOf2_log [OF new(6)] new(2) ucast_pow2_back [of block_size ss] by auto
  have ls: "ls < 32" "?n = 2 ^ ls"
    using isPowerOf2_log [OF new(4)] new(3) ucast_pow2_back [of ?n ls] by auto
  have un: "unat ?n = 2 ^ ls" using ls ucast_pow2 [OF ls(1)] unat_ucast_u32 [of ?n] unat_pow2 [of ls] by simp
  have asc: "0 < unat asc" using new(1) by (metis mult_zero_right unat_gt_0 word_neq_0_conv)
  have "2 \<le> ss"
  proof (rule ccontr)
    assume "\<not> 2 \<le> ss"
    then have "ss = 0 \<or> ss = 1" by auto
    then show False using new(5) ss(2) by auto
  qed
  then have g: "tags_geom t" using ss ls un assms(2) by (simp add: tags_geom_def t)
  have b: "sets t ! st ! way = CacheBlk_new pol block_size st way" if "st < unat ?n" "way < unat asc" for st way
    using that by (simp add: t)
  have nv: "\<not> blk_isValid (CacheBlk_new pol block_size st way)" for st way by (simp add: CacheBlk_new_def blk_isValid_def)
  have bo: "blk_ok t st (CacheBlk_new pol block_size st way)" if "st < unat ?n" for st way
    using that unsigned_less [of ?n, where ?'a = nat] nv [of st way]
    by (simp add: blk_ok_def CacheBlk_new_def t unat_of_nat take_bit_nat_eq_self)
  have wf: "tags_wf t"
  proof -
    have "length (sets t) = unat ?n" "assoc t = asc" by (simp_all add: t)
    moreover have "length (sets t ! st) = unat asc" if "st < unat ?n" for st using that by (simp add: t)
    ultimately show ?thesis using g asc bo b nv by (simp add: tags_wf_def same_block_def)
  qed
  have "cmap t k = None" for k
  proof (rule ccontr)
    assume "cmap t k \<noteq> None"
    then obtain st way where "cmap t k = Some (st, way)" by auto
    then have "st < length (sets t)" "way < unat (assoc t)" "held t k (sets t ! st ! way)" unfolding cmap_Some [OF wf] by blast+
    then show False using b nv by (simp add: t held_def)
  qed
  then show ?thesis using wf ss(2) ls(2) by (auto simp: t fun_eq_iff)
qed

text \<open>The constructor accepts a block size of at least 4 and a number of sets that are both powers of two, and
  then the store is well formed and empty, with every set of the given associativity; the tag and set of an
  address fit as long as the bits below the tag are at most 32.\<close>
theorem Tags_new_wf:
  assumes "Tags_new pol sz block_size asc seq_access lat max_masters = Inr t" "tagShift t \<le> 32"
  shows "tags_wf t \<and> cmap t = (\<lambda>_. None) \<and> assoc t = asc \<and> blkSize t = block_size \<and> (\<exists>k. block_size = 2 ^ k) \<and> (\<exists>k. numSets t = 2 ^ k)"
  by (rule Tags_new_empty [OF assms])

section \<open>Changes that leave every block at its place\<close>

definition blk_alike :: "'d CacheBlk \<Rightarrow> 'd CacheBlk \<Rightarrow> bool" where
  "blk_alike b c \<longleftrightarrow> cb_tag c = cb_tag b \<and> cb_set c = cb_set b \<and> blk_isValid c = blk_isValid b \<and>
     blk_isSecure c = blk_isSecure b \<and> length (cb_data c) = length (cb_data b) \<and> (\<not> blk_isValid b \<longrightarrow> cb_status c = cb_status b)"

lemma blk_alike_views:
  assumes "blk_alike b c"
  shows "blk_isValid c = blk_isValid b" "blk_isSecure c = blk_isSecure b" "blk_ok t st b \<Longrightarrow> blk_ok t st c" "held t k c = held t k b"
  using assms by (auto simp: blk_alike_def blk_ok_def held_def regenerateBlkAddr_def)

lemma alike_store:
  assumes "tags_wf t" "setShift t' = setShift t" "tagShift t' = tagShift t" "blkSize t' = blkSize t" "numSets t' = numSets t"
    "setMask t' = setMask t" "assoc t' = assoc t" "length (sets t') = length (sets t)"
    and "\<And>st. st < length (sets t) \<Longrightarrow> length (sets t' ! st) = length (sets t ! st)"
    and "\<And>st way. st < length (sets t) \<Longrightarrow> way < unat (assoc t) \<Longrightarrow> blk_alike (sets t ! st ! way) (sets t' ! st ! way)"
  shows "tags_wf t'" "cmap t' = cmap t"
proof -
  have g: "tags_geom t'" using assms(1-8) by (simp add: tags_wf_def tags_geom_def)
  have bo: "blk_ok t' st c = blk_ok t st c" and he: "held t' k c = held t k c" for st c k
    using assms(2-4) by (simp_all add: blk_ok_def held_def regenerateBlkAddr_def regenerateAddr_def)
  have sb: "same_block (sets t' ! st ! w) (sets t' ! st ! v) = same_block (sets t ! st ! w) (sets t ! st ! v)"
    if "st < length (sets t)" "w < unat (assoc t)" "v < unat (assoc t)" for st v w
    using assms(10) [OF that(1,2)] assms(10) [OF that(1,3)] by (simp add: same_block_def blk_alike_def)
  have bk: "blk_ok t st (sets t' ! st ! w)" if "st < length (sets t)" "w < unat (assoc t)" for st w
    using blk_alike_views(3) [OF assms(10) [OF that]] tags_wfD(2) [OF assms(1) that] by simp
  show wf: "tags_wf t'"
    using assms(1) g bk sb assms(7-9) unfolding tags_wf_def by (simp add: bo)
  show "cmap t' = cmap t"
  proof
    fix k
    show "cmap t' k = cmap t k"
    proof (rule option_pair_eqI)
      fix x y
      show "cmap t' k = Some (x, y) \<longleftrightarrow> cmap t k = Some (x, y)"
        using cmap_Some [OF wf, of k x y] cmap_Some [OF assms(1), of k x y] blk_alike_views(4) [OF assms(10), of x y t k] assms(7,8)
        by (auto simp: he)
    qed
  qed
qed

lemma put_blk_alike:
  assumes "tags_wf t" "st < length (sets t)" "way < unat (assoc t)" "blk_alike (sets t ! st ! way) b"
  shows "tags_wf (put_blk st way b t)" "cmap (put_blk st way b t) = cmap t"
proof -
  have l: "way < length (sets t ! st)" using tags_wfD(1) [OF assms(1,2)] assms(3) by simp
  have "blk_alike c c" for c :: "'a CacheBlk" by (simp add: blk_alike_def)
  then have "blk_alike (sets t ! x ! y) (sets (put_blk st way b t) ! x ! y)" for x y
    using assms(4) by (simp add: put_blk_nth(1) [OF assms(2) l])
  then show "tags_wf (put_blk st way b t)" "cmap (put_blk st way b t) = cmap t"
    using alike_store [OF assms(1), of "put_blk st way b t"] put_blk_nth(2) [OF assms(2) l] by simp_all
qed

section \<open>The victim of a replacement\<close>

text \<open>Two stores that differ in replacement data and statistics only.\<close>

definition blk_same :: "'d CacheBlk \<Rightarrow> 'd CacheBlk \<Rightarrow> bool" where
  "blk_same b c \<longleftrightarrow> cb_tag c = cb_tag b \<and> cb_set c = cb_set b \<and> cb_status c = cb_status b \<and> cb_data c = cb_data b"

lemma blk_same_alike: "blk_same b c \<Longrightarrow> blk_alike b c"
  by (simp add: blk_same_def blk_alike_def blk_isValid_def blk_isSecure_def)

context replacement
begin

text \<open>Choosing a victim changes replacement data only, and the victim is a way of the set of the address.\<close>

lemma findVictim_ok:
  assumes "pol_getVictim (policy t) = victim" "tags_wf t"
  shows "\<exists>v t'. findVictim t a = Inr ((unat (extractSet t a), v), t') \<and> v < unat (assoc t) \<and> tags_wf t' \<and> cmap t' = cmap t \<and>
    (\<forall>st way. st < length (sets t) \<longrightarrow> way < unat (assoc t) \<longrightarrow> blk_same (sets t ! st ! way) (sets t' ! st ! way)) \<and>
    (\<exists>ss. t' = t\<lparr>sets := ss\<rparr> \<and> length ss = length (sets t))"
proof -
  let ?st = "unat (extractSet t a)" let ?es = "sets t ! ?st"
  have g: "tags_geom t" "0 < unat (assoc t)" using assms(2) by (simp_all add: tags_wf_def)
  have st: "?st < length (sets t)" by (rule extractSet_less [OF g(1)])
  have len: "length ?es = unat (assoc t)" by (rule tags_wfD(1) [OF assms(2) st])
  then have ne: "map replacementData ?es \<noteq> []" using g(2) by auto
  obtain v ds where v: "victim (map replacementData ?es) = Inr (v, ds)" "v < unat (assoc t)" "length ds = length ?es"
    using victim_some [OF ne] len by auto
  define ss where "ss = (sets t)[?st := map2 (\<lambda>b d. b\<lparr>replacementData := d\<rparr>) ?es ds]"
  let ?t' = "t\<lparr>sets := ss\<rparr>"
  have f: "findVictim t a = Inr ((?st, v), ?t')"
    using v(1) st assms(1) by (simp add: findVictim_def getPossibleEntries_def Let_def ss_def)
  have ls: "length ss = length (sets t)" by (simp add: ss_def)
  have bs: "blk_same (sets t ! x ! y) (ss ! x ! y)" if "x < length (sets t)" "y < unat (assoc t)" for x y
    using that v(3) len by (cases "x = ?st") (simp_all add: blk_same_def ss_def)
  have ln: "length (ss ! x) = length (sets t ! x)" for x
    using st v(3) by (cases "x = ?st") (simp_all add: ss_def)
  have "tags_wf ?t'" "cmap ?t' = cmap t"
    by (rule alike_store [OF assms(2)], simp_all add: ln blk_same_alike bs ls)+
  then show ?thesis using f v(2) bs ls by auto
qed

end

section \<open>Policies\<close>

definition LRU_policy :: "LRUReplData Policy" where
  "LRU_policy = \<lparr>pol_instantiate = 0, pol_invalidate = LRU_invalidate, pol_touch = LRU_touch, pol_reset = LRU_reset,
     pol_getVictim = unchanged LRU_getVictim\<rparr>"

definition BRRIP_policy :: "BRRIP \<Rightarrow> nat \<Rightarrow> int Policy" where
  "BRRIP_policy p rnd = \<lparr>pol_instantiate = maxRRPV p + 1, pol_invalidate = BRRIP_invalidate p, pol_touch = (\<lambda>_. BRRIP_touch p),
     pol_reset = (\<lambda>_. BRRIP_reset p rnd), pol_getVictim = BRRIP_getVictim p\<rparr>"

section \<open>Examples\<close>

text \<open>Four sets of two blocks of eight bytes; one block is filled.\<close>

definition ex_tags :: "LRUReplData Tags" where
  "ex_tags = projr (Tags_new LRU_policy 64 8 2 False 1 4)"

definition ex_filled :: "LRUReplData Tags" where
  "ex_filled = projr (insertBlock 0x15 False 1 0 (2, 1) 7 ex_tags)"

lemma projr_not_isl: "\<not> isl x \<Longrightarrow> x = Inr (projr x)"
  by (cases x) simp_all

lemma ex_tags_new: "Tags_new LRU_policy 64 8 2 False 1 4 = Inr ex_tags"
  unfolding ex_tags_def by (rule projr_not_isl) code_simp

lemma ex_tags_shift: "tagShift ex_tags \<le> 32" by code_simp

lemma ex_tags_wf: "tags_wf ex_tags" "cmap ex_tags = (\<lambda>_. None)"
  using Tags_new_empty [OF ex_tags_new ex_tags_shift] by blast+

lemma ex_place: "unat (extractSet ex_tags 0x15) = 2" "blkAlign ex_tags 0x15 = 0x10" by code_simp+

lemma ex_filled_new: "insertBlock 0x15 False 1 0 (2, 1) 7 ex_tags = Inr ex_filled"
  unfolding ex_filled_def by (rule projr_not_isl) code_simp

lemma ex_hyps: "1 < unat (assoc ex_tags)" "\<not> blk_isValid (sets ex_tags ! unat (extractSet ex_tags 0x15) ! 1)" "1 < maxMasters ex_tags"
  by code_simp+

lemma ex_filled_wf: "tags_wf ex_filled"
  using insertBlock_step [OF ex_tags_wf(1) ex_hyps(1,2) _ ex_hyps(3), of False 0 7] ex_filled_new
  by (auto simp: ex_tags_wf(2) ex_place)

theorem Tags_new_wf_witness: "tags_wf ex_tags \<and> numSets ex_tags = 4"
proof -
  have "numSets ex_tags = 4" by code_simp
  then show ?thesis using Tags_new_wf [OF ex_tags_new ex_tags_shift] by blast
qed

theorem regenerate_extract_witness: "regenerateAddr ex_tags (extractTag ex_tags 0x75) (extractSet ex_tags 0x75) = 0x70"
proof -
  have "tags_geom ex_tags" using ex_tags_wf by (simp add: tags_wf_def)
  moreover have "blkAlign ex_tags 0x75 = 0x70" by code_simp
  ultimately show ?thesis using regenerate_extract [of ex_tags "0x75"] by metis
qed

theorem findBlock_refines_witness: "findBlock ex_filled 0x13 False = Inr (cmap ex_filled (0x10, False)) \<and> cmap ex_filled (0x10, False) = Some (2, 1)"
proof -
  have "blkAlign ex_filled 0x13 = 0x10" "cmap ex_filled (0x10, False) = Some (2, 1)" by code_simp+
  then show ?thesis using findBlock_refines [OF ex_filled_wf, of "0x13" False] by simp
qed

theorem insertBlock_refines_witness:
  "\<exists>t'. insertBlock 0x15 False 1 0 (2, 1) 7 ex_tags = Inr t' \<and> cmap t' = [(0x10, False) \<mapsto> (2, 1)]"
  using insertBlock_refines [OF ex_tags_wf(1) ex_hyps(1,2) _ ex_hyps(3), of False 0 7] by (auto simp: ex_tags_wf(2) ex_place)

theorem invalidate_refines_witness:
  "\<exists>t'. tags_invalidate (2, 1) ex_filled = Inr t' \<and> cmap t' (0x10, False) = None"
proof -
  have "cmap ex_filled (0x10, False) = Some (2, 1)" by code_simp
  from invalidate_refines [OF ex_filled_wf this] show ?thesis by auto
qed

end
