(* ===== verification/Cache_PIM.thy ===== *)
theory Cache_PIM
  imports Cache_Tags Abstract_Mem
begin

text \<open>
  The operations the PIM code adds to a cache: \<^verbatim>\<open>Cache::check_addr\<close> of \<^verbatim>\<open>src/mem/cache/cache.cc\<close> and
  \<^verbatim>\<open>BaseCache::flushPIM\<close> of \<^verbatim>\<open>src/mem/cache/base.cc\<close>, on the tag store of \<^verbatim>\<open>Cache_Tags\<close>. The memory
  model takes them as parameters; here the completion of an operation is put together with real
  caches.
\<close>

section \<open>The operations\<close>

text \<open>\<^verbatim>\<open>(start_addr/blkSize) * blkSize\<close> is 64 bits wide.\<close>

definition cache_line :: "'d Tags \<Rightarrow> Addr \<Rightarrow> Addr" where
  "cache_line t a = (a div ucast (blkSize t)) * ucast (blkSize t)"

definition find_either :: "'d Tags \<Rightarrow> Addr \<Rightarrow> (nat \<times> nat) option res" where
  "find_either t a = bindR (findBlock t a True) (\<lambda>l. case l of Some p \<Rightarrow> ok (Some p) | None \<Rightarrow> findBlock t a False)"

definition check_addr :: "'d Tags \<Rightarrow> Addr \<Rightarrow> bool res" where
  "check_addr t start_addr = bindR (find_either t (cache_line t start_addr)) (\<lambda>l.
     case l of
       None \<Rightarrow> ok False
     | Some (st, way) \<Rightarrow> bindR (findBlockBySetAndWay t st way) (\<lambda>b. ok (blk_isValid b)))"

text \<open>A fresh buffer has unspecified contents, the argument \<open>junk\<close>. \<^verbatim>\<open>tags->invalidate(blk)\<close> is followed by \<^verbatim>\<open>blk->invalidate()\<close>.\<close>

definition writeback :: "Tick \<Rightarrow> u8 \<Rightarrow> 'd Tags \<Rightarrow> Addr \<Rightarrow> 'd CacheBlk \<Rightarrow> Packet res" where
  "writeback now junk t address b =
     bindR (dataDynamic (replicate (unat (blkSize t)) junk) (Packet_new (Request_phys address (blkSize t) 0 0 now) WriteReq))
       (setDataFromBlock (cb_data b) (blkSize t))"

definition flushPIM :: "Tick \<Rightarrow> u8 \<Rightarrow> 'd Tags \<Rightarrow> Addr \<Rightarrow> (bool \<times> 'd Tags \<times> Packet option) res" where
  "flushPIM now junk t start_addr =
     (let address = cache_line t start_addr in
      bindR (find_either t address) (\<lambda>l.
      case l of
        None \<Rightarrow> ok (False, t, None)
      | Some (st, way) \<Rightarrow>
          bindR (findBlockBySetAndWay t st way) (\<lambda>b.
          bindR (if blk_isDirty b then bindR (writeback now junk t address b) (\<lambda>p. ok (Some p)) else ok None) (\<lambda>w.
          bindR (tags_invalidate (st, way) t) (\<lambda>t1.
          bindR (findBlockBySetAndWay t1 st way) (\<lambda>b1.
          (let t2 = put_blk st way (blk_invalidate b1) t1 in
           bindR (findBlock t2 address True) (\<lambda>l1. bindR (findBlock t2 address False) (\<lambda>l2.
           assertR (l1 = None \<and> l2 = None) (ok (True, t2, w)))))))))))"

section \<open>What they do\<close>

lemma cache_line_align:
  assumes "tags_geom t"
  shows "cache_line t a = blkAlign t a"
proof -
  have s: "setShift t < 32" "blkSize t = 2 ^ setShift t" using assms by (auto simp: tags_geom_def)
  have "cache_line t a = push_bit (setShift t) (drop_bit (setShift t) a)"
    by (simp add: cache_line_def s(2) ucast_pow2 [OF s(1)] push_bit_eq_mult drop_bit_eq_div)
  moreover have "bit (push_bit (setShift t) (drop_bit (setShift t) a)) n \<longleftrightarrow> bit (blkAlign t a) n" if "n < 64" for n
    using that by (auto simp: bit_push_bit_iff bit_drop_bit_eq bit_blkAlign [OF assms])
  ultimately show ?thesis by (intro bit_word_eqI) simp
qed

text \<open>The abstract view: where the line of an address is, whatever its security state.\<close>

definition line_at :: "'d Tags \<Rightarrow> Addr \<Rightarrow> (nat \<times> nat) option" where
  "line_at t a = (case cmap t (blkAlign t a, True) of Some l \<Rightarrow> Some l | None \<Rightarrow> cmap t (blkAlign t a, False))"

definition one_copy :: "'d Tags \<Rightarrow> bool" where
  "one_copy t \<longleftrightarrow> (\<forall>a. cmap t (a, True) = None \<or> cmap t (a, False) = None)"

lemma tags_wf_geom: "tags_wf t \<Longrightarrow> tags_geom t"
  by (simp add: tags_wf_def)

lemma find_either_line:
  assumes "tags_wf t"
  shows "find_either t (cache_line t a) = Inr (line_at t a)"
  using findBlock_map [OF assms] cache_line_align [OF tags_wf_geom [OF assms]] extract_blkAlign(3) [OF tags_wf_geom [OF assms]]
  by (simp add: find_either_def line_at_def split: option.split)

lemma line_at_held:
  assumes "tags_wf t" "line_at t a = Some (st, way)"
  shows "\<exists>sec. cmap t (blkAlign t a, sec) = Some (st, way)"
  using assms(2) unfolding line_at_def by (cases "cmap t (blkAlign t a, True)") auto

lemma check_addr_line:
  assumes "tags_wf t"
  shows "check_addr t a = Inr (line_at t a \<noteq> None)"
proof (cases "line_at t a")
  case None
  then show ?thesis using find_either_line [OF assms] by (simp add: check_addr_def)
next
  case (Some l)
  obtain st way where l: "l = (st, way)" by (cases l)
  then obtain sec where c: "cmap t (blkAlign t a, sec) = Some (st, way)" using line_at_held [OF assms] Some by blast
  then have "st < length (sets t)" "way < unat (assoc t)" "blk_isValid (sets t ! st ! way)"
    using cmap_Some [OF assms] by (auto simp: held_def)
  then show ?thesis using find_either_line [OF assms] findBlockBySetAndWay_in [OF assms] Some l by (simp add: check_addr_def)
qed

text \<open>The packet written back.\<close>

definition wb_packet :: "Tick \<Rightarrow> 'd Tags \<Rightarrow> Addr \<Rightarrow> u8 list \<Rightarrow> Packet" where
  "wb_packet now t a d = (Packet_new (Request_phys a (blkSize t) 0 0 now) WriteReq)\<lparr>pflags := 0x2300, pdata := d\<rparr>"

lemma writeback_line:
  assumes "tags_geom t" "length (cb_data b) = unat (blkSize t)"
  shows "writeback now junk t (blkAlign t a) b = Inr (wb_packet now t (blkAlign t a) (cb_data b))"
proof -
  have "blkAlign t a AND ucast (blkSize t - 1) = 0"
    by (simp add: blkAlign_def and.assoc)
  then show ?thesis using assms(2)
    by (simp add: writeback_def wb_packet_def dataDynamic_def Packet_new_phys noneSet_def set_pflags_def set_flags_def
        setDataFromBlock_def blkOffset_def getAddr_def isSet_def setData_def getPtr_def getSize_def memcpy_whole)
qed

text \<open>Invalidating a block that holds nothing changes nothing in the map.\<close>

lemma invalidate_again:
  assumes "tags_wf t" "st < length (sets t)" "way < unat (assoc t)" "\<not> blk_isValid (sets t ! st ! way)"
  shows "tags_wf (put_blk st way (blk_invalidate (sets t ! st ! way)) t)"
    "cmap (put_blk st way (blk_invalidate (sets t ! st ! way)) t) = cmap t"
proof -
  let ?b = "blk_invalidate (sets t ! st ! way)"
  have nv: "\<not> blk_isValid ?b" by (simp add: blk_invalidate_def blk_isValid_def)
  have "blk_ok t st ?b" using tags_wfD(2) [OF assms(1-3)] nv by (simp add: blk_ok_def blk_invalidate_def)
  then show wf: "tags_wf (put_blk st way ?b t)" using assms nv by (intro put_blk_wf) (simp_all add: same_block_def)
  have "cmap t k \<noteq> Some (st, way)" for k using cmap_Some [OF assms(1)] assms(4) by (auto simp: held_def)
  then show "cmap (put_blk st way ?b t) = cmap t"
    using cmap_put_blk [OF assms(1-3) wf] nv by (auto simp: fun_eq_iff held_def)
qed

definition drop_line :: "'d Tags \<Rightarrow> Addr \<Rightarrow> Addr \<times> bool \<Rightarrow> (nat \<times> nat) option" where
  "drop_line t a = (cmap t)((blkAlign t a, True) := None, (blkAlign t a, False) := None)"

definition line_data :: "'d Tags \<Rightarrow> Addr \<Rightarrow> u8 list" where
  "line_data t a = (case line_at t a of None \<Rightarrow> [] | Some (st, way) \<Rightarrow> cb_data (sets t ! st ! way))"

definition line_dirty :: "'d Tags \<Rightarrow> Addr \<Rightarrow> bool" where
  "line_dirty t a \<longleftrightarrow> (case line_at t a of None \<Rightarrow> False | Some (st, way) \<Rightarrow> blk_isDirty (sets t ! st ! way))"

lemma invalidate_line:
  assumes "tags_wf t" "cmap t k = Some (st, way)"
  shows "\<exists>t1 b1. tags_invalidate (st, way) t = Inr t1 \<and> findBlockBySetAndWay t1 st way = Inr b1 \<and>
    tags_wf (put_blk st way (blk_invalidate b1) t1) \<and> cmap (put_blk st way (blk_invalidate b1) t1) = (cmap t)(k := None) \<and>
    blkSize (put_blk st way (blk_invalidate b1) t1) = blkSize t \<and>
    (\<forall>x y. cb_data (sets (put_blk st way (blk_invalidate b1) t1) ! x ! y) = cb_data (sets t ! x ! y))"
proof -
  obtain t1 where t1: "tags_invalidate (st, way) t = Inr t1" "tags_wf t1" "cmap t1 = (cmap t)(k := None)"
    "\<not> blk_isValid (sets t1 ! st ! way)" "blkSize t1 = blkSize t"
    "\<forall>x y. cb_data (sets t1 ! x ! y) = cb_data (sets t ! x ! y)" using invalidate_step [OF assms] by blast
  have same: "length (sets t1) = length (sets t)" "assoc t1 = assoc t"
    using t1(1) by (auto simp: tags_invalidate_def bindR_eq_Inr assertR_eq_Inr)
  have w: "st < length (sets t1)" "way < unat (assoc t1)" using cmap_Some [OF assms(1), of k st way] assms(2) same by auto
  have l: "way < length (sets t1 ! st)" using tags_wfD(1) [OF t1(2) w(1)] w(2) by simp
  have "cb_data (sets (put_blk st way (blk_invalidate (sets t1 ! st ! way)) t1) ! x ! y) = cb_data (sets t ! x ! y)" for x y
    using put_blk_nth(1) [OF w(1) l, of "blk_invalidate (sets t1 ! st ! way)" x y] t1(6) by (simp add: blk_invalidate_def)
  then show ?thesis
    using t1(1,3,5) findBlockBySetAndWay_in [OF t1(2) w] invalidate_again [OF t1(2) w t1(4)] by auto
qed

lemma blkAlign_cong: "blkSize t' = blkSize t \<Longrightarrow> blkAlign t' a = blkAlign t a"
  by (simp add: blkAlign_def)

lemma flushPIM_hit:
  assumes "tags_wf t" "cmap t (blkAlign t a, sec) = Some (st, way)" "cmap t (blkAlign t a, \<not> sec) = None"
  shows "\<exists>t'. flushPIM now junk t a = Inr (True, t', if line_dirty t a then Some (wb_packet now t (blkAlign t a) (line_data t a)) else None) \<and>
    tags_wf t' \<and> cmap t' = drop_line t a \<and> blkSize t' = blkSize t \<and>
    (\<forall>x y. cb_data (sets t' ! x ! y) = cb_data (sets t ! x ! y))"
proof -
  note g = tags_wf_geom [OF assms(1)]
  let ?b = "sets t ! st ! way" let ?a = "blkAlign t a"
  have l: "line_at t a = Some (st, way)" using assms(2,3) by (cases sec) (simp_all add: line_at_def)
  have p: "st < length (sets t)" "way < unat (assoc t)" using cmap_Some [OF assms(1)] assms(2) by auto
  obtain t1 b1 where t1: "tags_invalidate (st, way) t = Inr t1" "findBlockBySetAndWay t1 st way = Inr b1"
    "tags_wf (put_blk st way (blk_invalidate b1) t1)" "cmap (put_blk st way (blk_invalidate b1) t1) = (cmap t)((?a, sec) := None)"
    "blkSize (put_blk st way (blk_invalidate b1) t1) = blkSize t"
    "\<forall>x y. cb_data (sets (put_blk st way (blk_invalidate b1) t1) ! x ! y) = cb_data (sets t ! x ! y)"
    using invalidate_line [OF assms(1,2)] by blast
  let ?t2 = "put_blk st way (blk_invalidate b1) t1"
  have c: "cmap ?t2 = drop_line t a" using assms(3) t1(4) by (cases sec) (auto simp: drop_line_def fun_eq_iff)
  have al: "blkAlign ?t2 ?a = ?a" using blkAlign_cong [OF t1(5)] extract_blkAlign(3) [OF g] by simp
  have gone: "findBlock ?t2 ?a s = Inr None" for s
    using findBlock_map [OF t1(3), of ?a s] unfolding al c by (cases s) (simp_all add: drop_line_def)
  have len: "length (cb_data ?b) = unat (blkSize t)" using tags_wfD(2) [OF assms(1) p] by (simp add: blk_ok_def)
  show ?thesis
    using find_either_line [OF assms(1), of a] l findBlockBySetAndWay_in [OF assms(1) p] writeback_line [OF g len, of now junk a]
      t1 c gone cache_line_align [OF g, of a]
    by (auto simp: flushPIM_def Let_def line_dirty_def line_data_def)
qed

lemma flushPIM_miss:
  assumes "tags_wf t" "line_at t a = None"
  shows "flushPIM now junk t a = Inr (False, t, None)"
  using find_either_line [OF assms(1), of a] assms(2) by (simp add: flushPIM_def Let_def)

lemma flushPIM_step:
  assumes "tags_wf t" "one_copy t"
  shows "\<exists>t'. flushPIM now junk t a = Inr (line_at t a \<noteq> None, t', if line_dirty t a then Some (wb_packet now t (blkAlign t a) (line_data t a)) else None) \<and>
    tags_wf t' \<and> cmap t' = drop_line t a \<and> blkSize t' = blkSize t \<and>
    (\<forall>x y. cb_data (sets t' ! x ! y) = cb_data (sets t ! x ! y))"
proof (cases "line_at t a")
  case None
  then have "cmap t (blkAlign t a, True) = None" "cmap t (blkAlign t a, False) = None"
    by (auto simp: line_at_def split: option.splits)
  then have "cmap t = drop_line t a" by (auto simp: drop_line_def fun_eq_iff)
  then show ?thesis using flushPIM_miss [OF assms(1) None] None assms(1) by (simp add: line_dirty_def)
next
  case (Some l)
  obtain st way where "l = (st, way)" by (cases l)
  then obtain sec where c: "cmap t (blkAlign t a, sec) = Some (st, way)" using line_at_held [OF assms(1)] Some by blast
  moreover have "cmap t (blkAlign t a, \<not> sec) = None" using assms(2) [unfolded one_copy_def, rule_format, of "blkAlign t a"] c by (cases sec) auto
  ultimately show ?thesis using flushPIM_hit [OF assms(1)] Some by simp
qed

text \<open>Flushing an address for PIM takes exactly its line out of the cache: the line is gone, every other line
  is where it was, and the line is written back, whole and with the bytes the cache held, exactly when it was
  dirty. The result says whether the line was there.\<close>
theorem flushPIM_exact:
  assumes "tags_wf t" "one_copy t"
  shows "\<exists>t' w. flushPIM now junk t a = Inr (line_at t a \<noteq> None, t', w) \<and> tags_wf t' \<and>
    (\<forall>x sec. cmap t' (x, sec) = (if x = blkAlign t a then None else cmap t (x, sec))) \<and>
    w = (if line_dirty t a then Some (wb_packet now t (blkAlign t a) (line_data t a)) else None)"
  using flushPIM_step [OF assms, of now junk a] by (auto simp: drop_line_def)

text \<open>A line that is in the cache both as a secure and as a non-secure block cannot be flushed: only the secure
  block is taken out, and the assertion that neither is left fails.\<close>
theorem flushPIM_two_copies:
  assumes "tags_wf t" "cmap t (blkAlign t a, True) = Some l" "cmap t (blkAlign t a, False) = Some l'"
  shows "flushPIM now junk t a = Inl AssertFailed"
proof -
  note g = tags_wf_geom [OF assms(1)]
  obtain st way where l: "l = (st, way)" by (cases l)
  let ?b = "sets t ! st ! way" let ?a = "blkAlign t a"
  have la: "line_at t a = Some (st, way)" using assms(2) l by (simp add: line_at_def)
  have p: "st < length (sets t)" "way < unat (assoc t)" using cmap_Some [OF assms(1)] assms(2) l by auto
  obtain t1 b1 where t1: "tags_invalidate (st, way) t = Inr t1" "findBlockBySetAndWay t1 st way = Inr b1"
    "tags_wf (put_blk st way (blk_invalidate b1) t1)" "cmap (put_blk st way (blk_invalidate b1) t1) = (cmap t)((?a, True) := None)"
    "blkSize (put_blk st way (blk_invalidate b1) t1) = blkSize t"
    using invalidate_line [OF assms(1) assms(2) [unfolded l]] by blast
  let ?t2 = "put_blk st way (blk_invalidate b1) t1"
  have al: "blkAlign ?t2 ?a = ?a" using blkAlign_cong [OF t1(5)] extract_blkAlign(3) [OF g] by simp
  have f: "findBlock ?t2 ?a True = Inr None" "findBlock ?t2 ?a False = Inr (Some l')"
    using findBlock_map [OF t1(3), of ?a] assms(3) unfolding al t1(4) by simp_all
  have len: "length (cb_data ?b) = unat (blkSize t)" using tags_wfD(2) [OF assms(1) p] by (simp add: blk_ok_def)
  show ?thesis
    using find_either_line [OF assms(1), of a] la findBlockBySetAndWay_in [OF assms(1) p] writeback_line [OF g len, of now junk a]
      t1 f cache_line_align [OF g, of a]
    by (auto simp: flushPIM_def Let_def)
qed

section \<open>What the processor sees\<close>

text \<open>The byte at an address: the cache's if it holds the line, else the memory's.\<close>

definition view :: "'d Tags \<Rightarrow> AbstractMemory \<Rightarrow> Addr \<Rightarrow> u8 option" where
  "view t m x = (case line_at t x of
     Some (st, way) \<Rightarrow> Some (cb_data (sets t ! st ! way) ! unat (extractBlkOffset t x))
   | None \<Rightarrow> byte_map m x)"

definition line_inside :: "'d Tags \<Rightarrow> AbstractMemory \<Rightarrow> Addr \<Rightarrow> bool" where
  "line_inside t m a \<longleftrightarrow> r_start (am_range m) \<le> blkAlign t a \<and>
     unat (blkAlign t a) + unat (blkSize t) \<le> unat (r_end (am_range m)) + 1"

definition clean_agrees :: "'d Tags \<Rightarrow> AbstractMemory \<Rightarrow> Addr \<Rightarrow> bool" where
  "clean_agrees t m a \<longleftrightarrow> (line_at t a \<noteq> None \<and> \<not> line_dirty t a \<longrightarrow>
     (\<forall>x. blkAlign t x = blkAlign t a \<longrightarrow> view t m x = byte_map m x))"

lemma geom_size:
  assumes "tags_geom t"
  shows "unat (blkSize t) = 2 ^ setShift t" "(ucast (blkSize t) :: u64) = 2 ^ setShift t" "setShift t < 64"
proof -
  have s: "setShift t < 32" "blkSize t = 2 ^ setShift t" using assms by (auto simp: tags_geom_def)
  then show u: "(ucast (blkSize t) :: u64) = 2 ^ setShift t" using ucast_pow2 [OF s(1)] by simp
  have "unat (blkSize t) < 2 ^ 64" using unsigned_less [of "blkSize t", where ?'a = nat] by simp
  then have "unat (blkSize t) = unat (ucast (blkSize t) :: u64)" by (simp add: unsigned_ucast_eq take_bit_nat_eq_self)
  then show "unat (blkSize t) = 2 ^ setShift t" using u unat_pow2 [of "setShift t"] s(1) by simp
  show "setShift t < 64" using s(1) by simp
qed

lemma blkAlign_nat:
  assumes "tags_geom t"
  shows "unat (blkAlign t a) = unat a div unat (blkSize t) * unat (blkSize t)"
proof -
  have "unat (a div ucast (blkSize t)) = unat a div unat (blkSize t)"
    using geom_size [OF assms] unat_pow2 [of "setShift t"] by (simp add: unat_div_distrib)
  moreover have "unat a div unat (blkSize t) * unat (blkSize t) < 2 ^ 64"
    using unsigned_less [of a, where ?'a = nat] by (simp add: le_less_trans [OF div_times_less_eq_dividend])
  ultimately show ?thesis
    using geom_size [OF assms] unat_pow2 [of "setShift t"]
    by (simp add: cache_line_align [OF assms, symmetric] cache_line_def unat_word_ariths)
qed

lemma offset_nat:
  assumes "tags_geom t"
  shows "unat (extractBlkOffset t a) = unat a mod unat (blkSize t)"
proof -
  have s: "setShift t < 32" "blkSize t = 2 ^ setShift t" using assms by (auto simp: tags_geom_def)
  have "extractBlkOffset t a = take_bit (setShift t) a"
    by (rule bit_word_eqI) (auto simp: extractBlkOffset_def s(2) bit_and_iff bit_low_mask [OF s(1)] bit_take_bit_iff)
  then have "unat (extractBlkOffset t a) = take_bit (setShift t) (unat a)" by (simp only: unsigned_take_bit_eq)
  then show ?thesis by (simp add: take_bit_eq_mod geom_size(1) [OF assms])
qed

lemma div_range: "0 < (n::nat) \<Longrightarrow> q * n \<le> x \<and> x < q * n + n \<longleftrightarrow> x div n = q"
  by (metis add.commute div_nat_eqI div_times_less_eq_dividend dividend_less_div_times mult.commute mult_Suc_right)

text \<open>A packet that writes a whole line.\<close>

definition line_write :: "'d Tags \<Rightarrow> Addr \<Rightarrow> u8 list \<Rightarrow> Packet \<Rightarrow> bool" where
  "line_write t a d p \<longleftrightarrow> pcmd p = WriteReq \<and> isSet (pflags p) VALID_ADDR \<and> isSet (pflags p) VALID_SIZE \<and>
     isSet (pflags p) (STATIC_DATA OR DYNAMIC_DATA) \<and> paddr p = blkAlign t a \<and> psize p = blkSize t \<and> pdata p = d"

lemma wb_packet_line: "line_write t a d (wb_packet now t (blkAlign t a) d)"
  by (simp add: line_write_def wb_packet_def Packet_new_phys isSet_def)

lemma touches_line:
  assumes "tags_geom t" "paddr p = blkAlign t a" "psize p = blkSize t"
  shows "touches p x \<longleftrightarrow> blkAlign t x = blkAlign t a"
proof -
  let ?n = "unat (blkSize t)"
  have n: "0 < ?n" by (simp add: geom_size [OF assms(1)])
  have "blkAlign t x = blkAlign t a \<longleftrightarrow> unat x div ?n = unat a div ?n"
    using n by (simp add: word_unat_eq_iff blkAlign_nat [OF assms(1)])
  moreover have "unat a div ?n * ?n \<le> unat x \<and> unat x < unat a div ?n * ?n + ?n \<longleftrightarrow> unat x div ?n = unat a div ?n"
    by (rule div_range [OF n])
  ultimately show ?thesis by (simp add: touches_def assms(2,3) word_le_nat_alt blkAlign_nat [OF assms(1)])
qed

text \<open>The bytes of a line that was written back.\<close>

definition write_back :: "Packet option \<Rightarrow> AbstractMemory \<Rightarrow> AbstractMemory res" where
  "write_back w m = (case w of
     None \<Rightarrow> ok m
   | Some p \<Rightarrow> bindR (functionalAccess (\<lambda>_ _. False) (\<lambda>c _. (c, None)) (\<lambda>_. None :: unit host_cpu option) p m) (\<lambda>(m', _). ok m'))"

lemma wb_fits:
  assumes "tags_geom t" "line_inside t m a" "length d = unat (blkSize t)" "line_write t a d p"
  shows "fits m p"
  using assms geom_size(1) [OF assms(1)] by (simp add: fits_def line_write_def line_inside_def)

lemma write_back_bytes:
  assumes "tags_geom t" "line_inside t m a" "length d = unat (blkSize t)" "line_write t a d p" "mem_wf m" "pmem m = Some mem"
  shows "\<exists>m' mem'. write_back (Some p) m = Inr m' \<and> mem_wf m' \<and> pmem m' = Some mem' \<and> am_range m' = am_range m \<and>
    byte_map m' = (\<lambda>x. if blkAlign t x = blkAlign t a then Some (d ! unat (extractBlkOffset t x)) else byte_map m x)"
proof -
  note f = wb_fits [OF assms(1-4)]
  have c: "pcmd p = WriteReq" "paddr p = blkAlign t a" "psize p = blkSize t" "pdata p = d" using assms(4) by (simp_all add: line_write_def)
  have cmds: "\<not> isPIM WriteReq" "\<not> isRead WriteReq" "isWrite WriteReq" "needsResponse WriteReq" "isRequest WriteReq" by code_simp+
  note fa = fits_accessors [OF f] fits_inside [OF f assms(5)] writeData_fits [OF f assms(5,6)]
  let ?o = "hostOffset m (paddr p)"
  let ?m = "m\<lparr>pmem := Some (take ?o mem @ pdata p @ drop (?o + unat (psize p)) mem)\<rparr>"
  have "write_back (Some p) m = Inr ?m"
    using fa c cmds assms(6) by (simp add: write_back_def functionalAccess_def makeResponse_def)
  moreover have b: "mem_wf ?m \<and> byte_map ?m = (\<lambda>x. if touches p x then Some (pdata p ! (unat x - unat (paddr p))) else byte_map m x)"
    by (rule byte_map_write [OF f assms(5,6)]) simp_all
  moreover have "(if touches p x then Some (pdata p ! (unat x - unat (paddr p))) else byte_map m x) =
      (if blkAlign t x = blkAlign t a then Some (d ! unat (extractBlkOffset t x)) else byte_map m x)" for x
  proof (cases "blkAlign t x = blkAlign t a")
    case True
    have "unat x - unat (blkAlign t x) = unat (extractBlkOffset t x)"
      unfolding blkAlign_nat [OF assms(1)] offset_nat [OF assms(1)] by (simp add: minus_div_mult_eq_mod)
    then show ?thesis using True touches_line [OF assms(1) c(2,3)] c by simp
  qed (simp add: touches_line [OF assms(1) c(2,3)])
  ultimately show ?thesis by (simp add: fun_eq_iff)
qed

text \<open>C6: Flushing takes the line of the address out of the cache and leaves every other line where it was; the line
  is written back, whole, exactly when it was dirty; and once what is written back is in the memory, every
  address reads as it did before, through the cache or the memory, so the flushed line is in the memory only.\<close>
theorem flush_keeps_view:
  assumes "tags_wf t" "one_copy t" "mem_wf m" "pmem m = Some mem" "line_inside t m a" "clean_agrees t m a"
  shows "\<exists>t' w m'. flushPIM now junk t a = Inr (line_at t a \<noteq> None, t', w) \<and> write_back w m = Inr m' \<and> tags_wf t' \<and>
    check_addr t' a = Inr False \<and> (\<forall>x sec. cmap t' (x, sec) = (if x = blkAlign t a then None else cmap t (x, sec))) \<and>
    w = (if line_dirty t a then Some (wb_packet now t (blkAlign t a) (line_data t a)) else None) \<and>
    view t' m' = view t m \<and> byte_map m' a = view t m a"
proof -
  note g = tags_wf_geom [OF assms(1)]
  obtain t' where t': "flushPIM now junk t a = Inr (line_at t a \<noteq> None, t', if line_dirty t a then Some (wb_packet now t (blkAlign t a) (line_data t a)) else None)"
    "tags_wf t'" "cmap t' = drop_line t a" "blkSize t' = blkSize t" "\<forall>x y. cb_data (sets t' ! x ! y) = cb_data (sets t ! x ! y)"
    using flushPIM_step [OF assms(1,2)] by blast
  have la: "line_at t' x = (if blkAlign t x = blkAlign t a then None else line_at t x)" for x
  proof (cases "blkAlign t x = blkAlign t a")
    case True
    then show ?thesis unfolding line_at_def t'(3) drop_line_def blkAlign_cong [OF t'(4)] True by simp
  next
    case False
    then show ?thesis unfolding line_at_def t'(3) drop_line_def blkAlign_cong [OF t'(4)] by (simp split: option.split)
  qed
  have gone: "check_addr t' a = Inr False" "\<forall>x sec. cmap t' (x, sec) = (if x = blkAlign t a then None else cmap t (x, sec))"
    using check_addr_line [OF t'(2), of a] la [of a] t'(3) by (auto simp: drop_line_def)
  have off: "extractBlkOffset t' x = extractBlkOffset t x" for x by (simp add: extractBlkOffset_def t'(4))
  have same_line: "line_at t x = line_at t a" if "blkAlign t x = blkAlign t a" for x unfolding line_at_def that by (rule refl)
  have view': "view t' m' x = (if blkAlign t x = blkAlign t a then byte_map m' x else
      (case line_at t x of None \<Rightarrow> byte_map m' x | Some (st, way) \<Rightarrow> view t m x))" for x m'
    using t'(5) by (auto simp: view_def la off split: option.split)
  show ?thesis
  proof (cases "line_dirty t a")
    case True
    then obtain st way where l: "line_at t a = Some (st, way)" by (auto simp: line_dirty_def split: option.splits)
    then have len: "length (line_data t a) = unat (blkSize t)"
      using line_at_held [OF assms(1)] cmap_Some [OF assms(1)] tags_wfD(2) [OF assms(1)] by (fastforce simp: line_data_def blk_ok_def)
    obtain m' where m': "write_back (Some (wb_packet now t (blkAlign t a) (line_data t a))) m = Inr m'"
      "byte_map m' = (\<lambda>x. if blkAlign t x = blkAlign t a then Some (line_data t a ! unat (extractBlkOffset t x)) else byte_map m x)"
      using write_back_bytes [OF g assms(5) len wb_packet_line assms(3,4)] by blast
    have seen: "view t m x = byte_map m' x" if "blkAlign t x = blkAlign t a" for x
      using that l same_line [OF that] by (simp add: view_def m'(2) line_data_def)
    have "view t' m' x = view t m x" for x
      using seen [of x] unfolding view' by (auto simp: m'(2) view_def split: option.split)
    then show ?thesis using t'(1,2) gone m'(1) True seen [of a] by (auto simp: fun_eq_iff)
  next
    case False
    have seen: "view t m x = byte_map m x" if "blkAlign t x = blkAlign t a" for x
      using that assms(6) False same_line [OF that] by (cases "line_at t a") (auto simp: clean_agrees_def view_def)
    have "view t' m x = view t m x" for x
      using seen [of x] unfolding view' by (auto simp: view_def split: option.split)
    then show ?thesis using t'(1,2) gone False seen [of a] by (auto simp: fun_eq_iff write_back_def)
  qed
qed

section \<open>The completion of an operation\<close>

text \<open>The caches of the memory model, made of tag stores; no flush fails on stores that are well formed.\<close>

definition cache_check :: "'d Tags \<Rightarrow> Addr \<Rightarrow> bool" where
  "cache_check t a \<longleftrightarrow> check_addr t a = Inr True"

definition cache_flush :: "Tick \<Rightarrow> u8 \<Rightarrow> 'd Tags flush_op" where
  "cache_flush now junk t a = (case flushPIM now junk t a of Inr (_, t', w) \<Rightarrow> (t', w) | Inl _ \<Rightarrow> (t, None))"

definition store_ok :: "'d Tags \<Rightarrow> bool" where "store_ok t \<longleftrightarrow> tags_wf t \<and> one_copy t"

lemma flush_one_line:
  assumes "store_ok t"
  shows "\<exists>t' ws'. flush_one cache_check (cache_flush now junk) a (t, ws) = (t', ws') \<and> store_ok t' \<and> blkSize t' = blkSize t \<and>
    cmap t' = drop_line t a"
proof -
  have w: "tags_wf t" "one_copy t" using assms by (simp_all add: store_ok_def)
  show ?thesis
  proof (cases "line_at t a")
    case None
    then have "cmap t = drop_line t a" by (auto simp: line_at_def drop_line_def fun_eq_iff split: option.splits)
    then show ?thesis using None check_addr_line [OF w(1), of a] assms by (simp add: flush_one_def cache_check_def)
  next
    case (Some l)
    obtain t' where t': "flushPIM now junk t a = Inr (True, t', if line_dirty t a then Some (wb_packet now t (blkAlign t a) (line_data t a)) else None)"
      "tags_wf t'" "cmap t' = drop_line t a" "blkSize t' = blkSize t"
      using flushPIM_step [OF w, of now junk a] Some by auto
    have "one_copy t'" using w(2) unfolding one_copy_def t'(3) drop_line_def by simp
    then show ?thesis using t' Some check_addr_line [OF w(1), of a]
      by (simp add: flush_one_def cache_check_def cache_flush_def store_ok_def)
  qed
qed

lemma flush_all_lines:
  assumes "store_ok t"
  shows "\<exists>t' ws'. fold (flush_one cache_check (cache_flush now junk)) as (t, ws) = (t', ws') \<and> store_ok t' \<and> blkSize t' = blkSize t \<and>
    (\<forall>x sec. cmap t' (x, sec) = (if \<exists>a \<in> set as. x = blkAlign t a then None else cmap t (x, sec)))"
  using assms
proof (induction as arbitrary: t ws)
  case (Cons a as)
  obtain t1 ws1 where t1: "flush_one cache_check (cache_flush now junk) a (t, ws) = (t1, ws1)" "store_ok t1" "blkSize t1 = blkSize t"
    "cmap t1 = drop_line t a" using flush_one_line [OF Cons.prems] by blast
  obtain t' ws' where t': "fold (flush_one cache_check (cache_flush now junk)) as (t1, ws1) = (t', ws')" "store_ok t'" "blkSize t' = blkSize t1"
    "\<forall>x sec. cmap t' (x, sec) = (if \<exists>a \<in> set as. x = blkAlign t1 a then None else cmap t1 (x, sec))"
    using Cons.IH [OF t1(2)] by blast
  show ?case using t1 t' blkAlign_cong [OF t1(3)] by (auto simp: drop_line_def)
qed simp

text \<open>The first entry of the queue with the address.\<close>

lemma find_pending_first:
  "i < length q \<Longrightarrow> \<forall>k \<le> i. ps_addr (q ! k) \<noteq> [] \<Longrightarrow> ps_addr (q ! i) ! 0 = a \<Longrightarrow> \<forall>k < i. ps_addr (q ! k) ! 0 \<noteq> a \<Longrightarrow>
    find_pending a q = Inr (Some i)"
proof (induction q arbitrary: i)
  case (Cons s ss)
  have s: "ps_addr s \<noteq> []" using Cons.prems(2) [rule_format, of 0] by simp
  show ?case
  proof (cases i)
    case (Suc i')
    have "find_pending a ss = Inr (Some i')"
      by (rule Cons.IH) (use Cons.prems Suc in \<open>fastforce+\<close>)
    then show ?thesis using s Suc Cons.prems(4) [rule_format, of 0] by (simp add: vec_at_def)
  qed (use s Cons.prems(3) in \<open>simp add: vec_at_def\<close>)
qed simp

text \<open>The processor whose caches are flushed: the only one, or the first or second by the thread of the entry.\<close>

definition host_of :: "(string \<Rightarrow> 'c host_cpu option) \<Rightarrow> PIMSenderState \<Rightarrow> 'c host_cpu option" where
  "host_of find_obj e = (case find_obj ''system.cpu'' of Some c \<Rightarrow> Some c
     | None \<Rightarrow> find_obj (if ps_threadid e \<noteq> 0 then ''system.cpu1'' else ''system.cpu0''))"

lemma complete_pim_first:
  assumes "i < length (pendingPIMqueue m)" "\<forall>k \<le> i. ps_addr (pendingPIMqueue m ! k) \<noteq> []" "ps_addr st \<noteq> []"
    and "ps_addr (pendingPIMqueue m ! i) ! 0 = ps_addr st ! 0" "\<forall>k < i. ps_addr (pendingPIMqueue m ! k) ! 0 \<noteq> ps_addr st ! 0"
    and "ps_addr (pendingPIMqueue m ! i) = [a0, a1, a2]" "host_of find_obj (pendingPIMqueue m ! i) = Some c"
    and "cpu_type m \<in> {''TimingSimpleCPU'', ''DerivO3CPU''}"
  shows "\<exists>as. (hc_caches c \<noteq> [] \<longrightarrow> as = [a0, a1, a2]) \<and> complete_pim check flush find_obj st m =
    Inr (m\<lparr>pendingPIMqueue := take i (pendingPIMqueue m) @ drop (Suc i) (pendingPIMqueue m)\<rparr>, map (flush_cache check flush as) (hc_caches c),
      if cpu_type m = ''TimingSimpleCPU'' then hc_context c else if ps_threadid (pendingPIMqueue m ! i) \<noteq> 0 then 1 else 0)"
proof -
  have f: "find_pending (ps_addr st ! 0) (pendingPIMqueue m) = Inr (Some i)" by (rule find_pending_first [OF assms(1,2,4,5)])
  have c: "(case find_obj ''system.cpu'' of Some c \<Rightarrow> Some c
      | None \<Rightarrow> find_obj (''system.cpu'' @ (if (if ps_threadid (pendingPIMqueue m ! i) \<noteq> 0 then 1 else 0 :: int) = 1 then ''1'' else ''0''))) = Some c"
    using assms(7) unfolding host_of_def by (auto split: option.splits if_splits)
  have q: "pendingPIMqueue m \<noteq> []" using assms(1) by auto
  show ?thesis unfolding complete_pim_def Let_def
    using f assms(3,8) q by (intro exI [of _ "if hc_caches c = [] then [] else [a0, a1, a2]"]) (auto simp: vec_at_def c assms(6))
qed


section \<open>Examples\<close>

definition ex_line :: "u8 list" where "ex_line = [10, 11, 12, 13, 14, 15, 16, 17]"

text \<open>The block of the example, written by the processor.\<close>

definition ex_dirty :: "LRUReplData Tags" where
  "ex_dirty = put_blk 2 1 ((sets ex_filled ! 2 ! 1)\<lparr>cb_status := BlkValid OR BlkDirty, cb_data := ex_line\<rparr>) ex_filled"

lemma ex_dirty_store: "tags_wf ex_dirty" "cmap ex_dirty = [(0x10, False) \<mapsto> (2, 1)]"
proof -
  have p: "2 < length (sets ex_filled)" "1 < unat (assoc ex_filled)"
    "blk_alike (sets ex_filled ! 2 ! 1) ((sets ex_filled ! 2 ! 1)\<lparr>cb_status := BlkValid OR BlkDirty, cb_data := ex_line\<rparr>)"
    by code_simp+
  have "cmap ex_filled = [(0x10, False) \<mapsto> (2, 1)]"
    using insertBlock_step [OF ex_tags_wf(1) ex_hyps(1,2) _ ex_hyps(3), of False 0 7] ex_filled_new
    by (auto simp: ex_tags_wf(2) ex_place)
  then show "tags_wf ex_dirty" "cmap ex_dirty = [(0x10, False) \<mapsto> (2, 1)]"
    using put_blk_alike [OF ex_filled_wf p] by (simp_all add: ex_dirty_def)
qed

lemma ex_dirty_one: "one_copy ex_dirty"
  by (simp add: one_copy_def ex_dirty_store)

lemma ex_dirty_line: "blkAlign ex_dirty 0x13 = 0x10" "line_dirty ex_dirty 0x13" "line_data ex_dirty 0x13 = ex_line"
  by code_simp+

theorem flushPIM_exact_witness:
  "\<exists>t'. flushPIM 9 0 ex_dirty 0x13 = Inr (True, t', Some (wb_packet 9 ex_dirty 0x10 ex_line)) \<and> cmap t' (0x10, False) = None"
proof -
  have "line_at ex_dirty 0x13 \<noteq> None" using ex_dirty_line(2) by (cases "line_at ex_dirty 0x13") (simp_all add: line_dirty_def)
  then show ?thesis
    using flushPIM_exact [OF ex_dirty_store(1) ex_dirty_one, of 9 0 "0x13"] ex_dirty_line by auto
qed

text \<open>The same address, filled once more as a secure block.\<close>

definition ex_both :: "LRUReplData Tags" where
  "ex_both = projr (insertBlock 0x15 True 1 0 (2, 0) 8 ex_filled)"

theorem flushPIM_two_copies_witness: "flushPIM 9 0 ex_both 0x13 = Inl AssertFailed"
proof -
  have "unat (extractSet ex_filled 0x15) = 2" by code_simp
  moreover have "insertBlock 0x15 True 1 0 (2, 0) 8 ex_filled = Inr ex_both"
    unfolding ex_both_def by (rule projr_not_isl) code_simp
  ultimately have i: "insertBlock 0x15 True 1 0 (unat (extractSet ex_filled 0x15), 0) 8 ex_filled = Inr ex_both" by simp
  have h: "0 < unat (assoc ex_filled)" "\<not> blk_isValid (sets ex_filled ! unat (extractSet ex_filled 0x15) ! 0)" "1 < maxMasters ex_filled"
    "cmap ex_filled (blkAlign ex_filled 0x15, True) = None" by code_simp+
  have wf: "tags_wf ex_both" using insertBlock_step [OF ex_filled_wf h(1,2,4,3), of 0 8] i by auto
  have "blkAlign ex_both 0x13 = 0x10" "cmap ex_both (0x10, True) = Some (2, 0)" "cmap ex_both (0x10, False) = Some (2, 1)" by code_simp+
  with flushPIM_two_copies [OF wf, of "0x13" "(2, 0)" "(2, 1)" 9 0] show ?thesis by simp
qed

definition ex_cache_mem :: AbstractMemory where
  "ex_cache_mem = (setBackingStore (replicate 64 0) (AbstractMemory_new (RangeSize 0 64) ''TimingSimpleCPU'' 64))
     \<lparr>pendingPIMqueue := [PIMSenderState_vector 0 0 [0x13, 0x20, 0x28] 0]\<rparr>"

lemma ex_cache_mem_ok: "mem_wf ex_cache_mem" "pmem ex_cache_mem = Some (replicate 64 0)" "line_inside ex_dirty ex_cache_mem 0x13"
proof -
  show "mem_wf ex_cache_mem" "pmem ex_cache_mem = Some (replicate 64 0)"
    by (simp_all add: ex_cache_mem_def mem_wf_def setBackingStore_def AbstractMemory_new_def RangeSize_def AddrRange_simple_def interleaved_def range_valid_def)
  show "line_inside ex_dirty ex_cache_mem 0x13" by code_simp
qed

theorem flush_keeps_view_witness:
  "\<exists>t' m'. flushPIM 9 0 ex_dirty 0x13 = Inr (True, t', Some (wb_packet 9 ex_dirty 0x10 ex_line)) \<and>
    write_back (Some (wb_packet 9 ex_dirty 0x10 ex_line)) ex_cache_mem = Inr m' \<and> check_addr t' 0x13 = Inr False \<and>
    view t' m' = view ex_dirty ex_cache_mem \<and> byte_map m' 0x13 = Some 13"
proof -
  have "clean_agrees ex_dirty ex_cache_mem 0x13" using ex_dirty_line by (simp add: clean_agrees_def)
  moreover have "view ex_dirty ex_cache_mem 0x13 = Some 13" by code_simp
  moreover have "line_at ex_dirty 0x13 \<noteq> None" using ex_dirty_line(2) by (cases "line_at ex_dirty 0x13") (simp_all add: line_dirty_def)
  ultimately show ?thesis
    using flush_keeps_view [OF ex_dirty_store(1) ex_dirty_one ex_cache_mem_ok, of 9 0] ex_dirty_line by auto
qed

definition ex_find :: "string \<Rightarrow> LRUReplData Tags host_cpu option" where
  "ex_find n = (if n = ''system.cpu'' then Some \<lparr>hc_caches = [ex_dirty], hc_context = 0\<rparr> else None)"

text \<open>The memory of the example with an operation at another address registered first.\<close>

definition ex_two_ops :: AbstractMemory where
  "ex_two_ops = ex_cache_mem\<lparr>pendingPIMqueue :=
     [PIMSenderState_vector 0 0 [0x30, 0x20, 0x28] 0, PIMSenderState_vector 0 0 [0x13, 0x20, 0x28] 0]\<rparr>"


end
