(* ===== verification/Cache_Base.thy ===== *)
theory Cache_Base
  imports Cache_PIM
begin

text \<open>
  What a cache does with its blocks, from \<^verbatim>\<open>src/mem/cache/base.cc\<close> and \<^verbatim>\<open>src/mem/cache/cache.cc\<close>: serving a
  request from a block, allocating a block in place of a victim, the packets that write a block back, and
  the two sweeps over the whole cache that drain it. A block is named by its set and way; the queue of
  misses is a parameter, asked whether a line has a miss in flight.

  The lemmas are about what the processor sees through the cache and the memory, \<open>view\<close> of
  \<^verbatim>\<open>Cache_PIM\<close>: a read answers with it, a write changes exactly the bytes of the packet in it, and writing the
  whole cache back makes the memory agree with it.
\<close>

section \<open>Packets for a block\<close>

definition setHasSharers :: "Packet \<Rightarrow> Packet" where "setHasSharers p = set_pflags HAS_SHARERS p"
definition hasSharers :: "Packet \<Rightarrow> bool" where "hasSharers p = isSet (pflags p) HAS_SHARERS"

definition set_status :: "u32 \<Rightarrow> 'd CacheBlk \<Rightarrow> 'd CacheBlk" where
  "set_status f b = b\<lparr>cb_status := cb_status b OR f\<rparr>"

definition clear_status :: "u32 \<Rightarrow> 'd CacheBlk \<Rightarrow> 'd CacheBlk" where
  "clear_status f b = b\<lparr>cb_status := cb_status b AND NOT f\<rparr>"

text \<open>The request for the whole block.\<close>

definition blk_request :: "16 word \<Rightarrow> Tick \<Rightarrow> 'd Tags \<Rightarrow> 'd CacheBlk \<Rightarrow> Request res" where
  "blk_request mid now t b =
     (let req = Request_phys (regenerateBlkAddr t b) (blkSize t) 0 mid now in
      if blk_isSecure b then setReqFlags SECURE req else ok req)"

text \<open>The end of both write-backs: the block gives up its write permission or tells the receiver that there are sharers.\<close>

definition give_up :: "u8 \<Rightarrow> 'd Tags \<Rightarrow> nat \<times> nat \<Rightarrow> 'd CacheBlk \<Rightarrow> Packet \<Rightarrow> (Packet \<times> 'd Tags) res" where
  "give_up junk t loc b pkt =
     (let pkt1 = (if blk_isWritable b then pkt else setHasSharers pkt);
          b1 = (if blk_isWritable b then clear_status BlkWritable b else b);
          b2 = clear_status BlkDirty b1 in
      bindR (allocate junk pkt1) (\<lambda>pkt2. bindR (setDataFromBlock (cb_data b2) (blkSize t) pkt2) (\<lambda>pkt3.
        ok (pkt3, put_blk (fst loc) (snd loc) b2 t))))"

record CacheParams =
  isReadOnly :: bool
  writebackClean :: bool

definition writebackBlk :: "CacheParams \<Rightarrow> Tick \<Rightarrow> u8 \<Rightarrow> nat \<times> nat \<Rightarrow> 'd Tags \<Rightarrow> (Packet \<times> 'd Tags) res" where
  "writebackBlk c now junk loc t =
     assertR (\<not> isReadOnly c \<or> writebackClean c)
     (bindR (findBlockBySetAndWay t (fst loc) (snd loc)) (\<lambda>b.
      assertR (blk_isValid b \<and> (blk_isDirty b \<or> writebackClean c))
      (bindR (blk_request wbMasterId now t b) (\<lambda>req.
       give_up junk t loc b (Packet_new req (if blk_isDirty b then WritebackDirty else WritebackClean))))))"

definition writecleanBlk :: "Tick \<Rightarrow> u8 \<Rightarrow> u64 \<Rightarrow> nat \<times> nat \<Rightarrow> 'd Tags \<Rightarrow> (Packet \<times> 'd Tags) res" where
  "writecleanBlk now junk dest loc t =
     bindR (findBlockBySetAndWay t (fst loc) (snd loc)) (\<lambda>b.
     bindR (blk_request wbMasterId now t b) (\<lambda>req.
     (let pkt = Packet_block req WriteClean (uint (blkSize t)) in
      bindR (if dest \<noteq> 0 then bindR (setReqFlags dest req) (\<lambda>req'. setWriteThrough (pkt\<lparr>preq := req'\<rparr>)) else ok pkt) (\<lambda>pkt1.
       give_up junk t loc b pkt1))))"

definition cleanEvictBlk :: "CacheParams \<Rightarrow> Tick \<Rightarrow> u8 \<Rightarrow> nat \<times> nat \<Rightarrow> 'd Tags \<Rightarrow> Packet res" where
  "cleanEvictBlk c now junk loc t =
     assertR (\<not> writebackClean c)
     (bindR (findBlockBySetAndWay t (fst loc) (snd loc)) (\<lambda>b.
      assertR (blk_isValid b \<and> \<not> blk_isDirty b)
      (bindR (blk_request wbMasterId now t b) (\<lambda>req. allocate junk (Packet_new req CleanEvict)))))"

definition evictBlock :: "CacheParams \<Rightarrow> Tick \<Rightarrow> u8 \<Rightarrow> nat \<times> nat \<Rightarrow> 'd Tags \<Rightarrow> (Packet \<times> 'd Tags) res" where
  "evictBlock c now junk loc t =
     bindR (findBlockBySetAndWay t (fst loc) (snd loc)) (\<lambda>b.
     bindR (if blk_isDirty b \<or> writebackClean c then writebackBlk c now junk loc t
            else bindR (cleanEvictBlk c now junk loc t) (\<lambda>p. ok (p, t))) (\<lambda>(p, t1).
     bindR (tags_invalidate loc t1) (\<lambda>t2. ok (p, t2))))"

section \<open>Allocation\<close>

text \<open>
  The miss in flight for a line, if any: whether it needs the line writable, and whether it only cleans.
  A victim with such a miss is not replaced, and nothing is allocated.
\<close>

type_synonym mshr_match = "Addr \<Rightarrow> bool \<Rightarrow> (bool \<times> bool) option"

definition victim_in_transit :: "mshr_match \<Rightarrow> 'd Tags \<Rightarrow> 'd CacheBlk \<Rightarrow> bool res" where
  "victim_in_transit mshrs t b =
     (if blk_isValid b then
        (case mshrs (regenerateBlkAddr t b) (blk_isSecure b) of
           None \<Rightarrow> ok False
         | Some (needs_writable, cleaning) \<Rightarrow> assertR (\<not> blk_isWritable b \<and> needs_writable \<or> cleaning) (ok True))
      else ok False)"

definition allocateBlock :: "CacheParams \<Rightarrow> mshr_match \<Rightarrow> Tick \<Rightarrow> u8 \<Rightarrow> u32 \<Rightarrow> Packet \<Rightarrow> 'd Tags
    \<Rightarrow> ((nat \<times> nat) option \<times> Packet list \<times> 'd Tags) res" where
  "allocateBlock c mshrs now junk task pkt t =
     bindR (getAddr pkt) (\<lambda>a. bindR (pkt_isSecure pkt) (\<lambda>is_secure.
     bindR (findVictim t a) (\<lambda>(loc, t1).
     bindR (findBlockBySetAndWay t1 (fst loc) (snd loc)) (\<lambda>b.
     bindR (victim_in_transit mshrs t1 b) (\<lambda>transit.
     if transit then ok (None, [], t1)
     else
       bindR (if blk_isValid b then bindR (evictBlock c now junk loc t1) (\<lambda>(p, t2). ok ([p], t2)) else ok ([], t1)) (\<lambda>(ps, t2).
       bindR (insertBlock a is_secure (uint (req_masterId (preq pkt))) task loc now t2) (\<lambda>t3.
         ok (Some loc, ps, t3))))))))"

section \<open>Serving a request from a block\<close>

text \<open>The value to be written is a local of eight bytes; the condition is compared with the bytes of the block.\<close>

definition cmpAndSwap :: "Packet \<Rightarrow> u32 \<Rightarrow> 'd CacheBlk \<Rightarrow> (Packet \<times> 'd CacheBlk) res" where
  "cmpAndSwap pkt blk_size b =
     assertR (isRequest (pcmd pkt))
     (bindR (blkOffset blk_size pkt) (\<lambda>off. bindR (getSize pkt) (\<lambda>n.
      assertR (8 \<ge> unat n)
      (bindR (writeData (replicate 8 0) 0 pkt) (\<lambda>overwrite_val.
       bindR (setData (cb_data b) (unat off) pkt) (\<lambda>pkt'.
       bindR (swap_condition pkt (cb_data b) (unat off)) (\<lambda>overwrite_mem.
       if overwrite_mem
       then bindR (memcpy (cb_data b) (unat off) overwrite_val 0 (unat n)) (\<lambda>d.
              ok (pkt', set_status BlkDirty (b\<lparr>cb_data := d\<rparr>)))
       else ok (pkt', b)))))))) "

definition atomic_op :: "Packet \<Rightarrow> 'd Tags \<Rightarrow> 'd CacheBlk \<Rightarrow> (Packet \<times> 'd CacheBlk) res" where
  "atomic_op pkt t b =
     bindR (getAddr pkt) (\<lambda>a. (let off = unat (extractBlkOffset t a) in
     bindR (setData (cb_data b) off pkt) (\<lambda>pkt'.
     bindR (getAtomicOpFunctor (preq pkt)) (\<lambda>f.
     bindR (memcpy (cb_data b) off (f (take (unat (psize pkt)) (drop off (cb_data b)))) 0 (unat (psize pkt))) (\<lambda>d.
       ok (pkt', set_status BlkDirty (b\<lparr>cb_data := d\<rparr>)))))))"

definition satisfyRequest :: "Packet \<Rightarrow> nat \<times> nat \<Rightarrow> 'd Tags \<Rightarrow> (Packet \<times> 'd Tags) res" where
  "satisfyRequest pkt loc t =
     assertR (isRequest (pcmd pkt))
     (bindR (findBlockBySetAndWay t (fst loc) (snd loc)) (\<lambda>b.
      assertR (blk_isValid b)
      (bindR (blkOffset (blkSize t) pkt) (\<lambda>off. bindR (getSize pkt) (\<lambda>n.
       assertR (unat off + unat n \<le> unat (blkSize t))
       (let back = (\<lambda>(p, b'). ok (p, put_blk (fst loc) (snd loc) b' t)) in
        if pcmd pkt = SwapReq then
          bindR (if isAtomic (preq pkt) then atomic_op pkt t b else cmpAndSwap pkt (blkSize t) b) back
        else if isWrite (pcmd pkt) then
          assertR (blk_isWritable b)
          (bindR (blk_checkWrite pkt b) (\<lambda>(okay, pkt', b1).
           bindR (if okay then writeDataToBlock (cb_data b1) (blkSize t) pkt' else ok (cb_data b1)) (\<lambda>d.
             back (pkt', set_status BlkDirty (b1\<lparr>cb_data := d\<rparr>)))))
        else if isRead (pcmd pkt) then
          bindR (if isLLSC (pcmd pkt) then blk_trackLoadLocked pkt b else ok b) (\<lambda>b1.
          assertR (hasRespData pkt)
          (bindR (setDataFromBlock (cb_data b1) (blkSize t) pkt) (\<lambda>pkt'. back (pkt', b1))))
        else if isUpgrade (pcmd pkt) then
          assertR (\<not> hasSharers pkt)
          (if blk_isDirty b then bindR (setCacheResponding pkt) (\<lambda>pkt'. back (pkt', clear_status BlkDirty b))
           else ok (pkt, t))
        else if isClean (pcmd pkt) then back (pkt, clear_status BlkDirty b)
        else assertR (isInvalidate (pcmd pkt)) (bindR (tags_invalidate loc t) (\<lambda>t'. ok (pkt, t')))))))))"

section \<open>Draining the cache\<close>

definition writebackVisitor :: "Tick \<Rightarrow> nat \<times> nat \<Rightarrow> 'd Tags \<Rightarrow> (Packet list \<times> 'd Tags) res" where
  "writebackVisitor now loc t =
     bindR (findBlockBySetAndWay t (fst loc) (snd loc)) (\<lambda>b.
     if blk_isDirty b then
       assertR (blk_isValid b)
       (bindR (blk_request funcMasterId now t b) (\<lambda>req.
        bindR (dataStatic (cb_data b) (Packet_new req WriteReq)) (\<lambda>p.
          ok ([p], put_blk (fst loc) (snd loc) (clear_status BlkDirty b) t))))
     else ok ([], t))"

definition invalidateVisitor :: "nat \<times> nat \<Rightarrow> 'd Tags \<Rightarrow> (Packet list \<times> 'd Tags) res" where
  "invalidateVisitor loc t =
     bindR (findBlockBySetAndWay t (fst loc) (snd loc)) (\<lambda>b.
     if blk_isValid b then assertR (\<not> blk_isDirty b) (bindR (tags_invalidate loc t) (\<lambda>t'. ok ([], t')))
     else ok ([], t))"

text \<open>\<^verbatim>\<open>forEachBlk\<close> with a visitor that changes the cache: the blocks in the order of the array.\<close>

fun visit_blocks :: "(nat \<times> nat \<Rightarrow> 'd Tags \<Rightarrow> (Packet list \<times> 'd Tags) res) \<Rightarrow> (nat \<times> nat) list \<Rightarrow> 'd Tags \<Rightarrow> (Packet list \<times> 'd Tags) res" where
  "visit_blocks f [] t = ok ([], t)"
| "visit_blocks f (l # ls) t = bindR (f l t) (\<lambda>(ps, t1). bindR (visit_blocks f ls t1) (\<lambda>(ps', t2). ok (ps @ ps', t2)))"

definition all_places :: "'d Tags \<Rightarrow> (nat \<times> nat) list" where
  "all_places t = List.product [0..<length (sets t)] [0..<unat (assoc t)]"

definition memWriteback :: "Tick \<Rightarrow> 'd Tags \<Rightarrow> (Packet list \<times> 'd Tags) res" where
  "memWriteback now t = visit_blocks (writebackVisitor now) (all_places t) t"

definition memInvalidate :: "'d Tags \<Rightarrow> (Packet list \<times> 'd Tags) res" where
  "memInvalidate t = visit_blocks invalidateVisitor (all_places t) t"

definition cache_isDirty :: "'d Tags \<Rightarrow> bool" where
  "cache_isDirty t = anyBlk blk_isDirty t"

text \<open>Checkpoints hold a flag instead of the data.\<close>

definition cache_serialize :: "'d Tags \<Rightarrow> bool" where "cache_serialize t = cache_isDirty t"
definition cache_unserialize :: "bool \<Rightarrow> 'd Tags \<Rightarrow> 'd Tags res" where
  "cache_unserialize bad_checkpoint t = (if bad_checkpoint then fail FatalError else ok t)"

section \<open>A block and its packet\<close>

lemma status_bits:
  "blk_isValid (clear_status BlkDirty b) = blk_isValid b" "blk_isSecure (clear_status BlkDirty b) = blk_isSecure b"
  "\<not> blk_isDirty (clear_status BlkDirty b)" "blk_isWritable (clear_status BlkDirty b) = blk_isWritable b"
  "blk_isValid (clear_status BlkWritable b) = blk_isValid b" "blk_isSecure (clear_status BlkWritable b) = blk_isSecure b"
  "blk_isDirty (clear_status BlkWritable b) = blk_isDirty b"
  "blk_isValid (set_status BlkDirty b) = blk_isValid b" "blk_isSecure (set_status BlkDirty b) = blk_isSecure b"
  "blk_isDirty (set_status BlkDirty b)"
  by (simp_all add: clear_status_def set_status_def blk_isValid_def blk_isSecure_def blk_isDirty_def blk_isWritable_def
      BlkDirty_def BlkValid_def BlkSecure_def BlkWritable_def and.assoc bit.conj_disj_distrib2)

lemma status_sel [simp]:
  "cb_tag (clear_status f b) = cb_tag b" "cb_set (clear_status f b) = cb_set b" "cb_data (clear_status f b) = cb_data b"
  "cb_tag (set_status f b) = cb_tag b" "cb_set (set_status f b) = cb_set b" "cb_data (set_status f b) = cb_data b"
  "lockList (set_status f b) = lockList b" "lockList (clear_status f b) = lockList b"
  by (simp_all add: clear_status_def set_status_def)

lemma clear_dirty_alike: "blk_isValid b \<Longrightarrow> blk_alike b (clear_status BlkDirty b)"
  by (simp add: blk_alike_def status_bits)

lemma blk_request_packet:
  "\<exists>req. blk_request mid now t b = Inr req \<and>
    (\<exists>r. Packet_new req c = \<lparr>pcmd = c, pflags = VALID_ADDR OR VALID_SIZE, preq = req, pdata = [], paddr = regenerateBlkAddr t b,
      pIsSecure = blk_isSecure b, psize = blkSize t, bytesValid = [], senderState = []\<rparr> \<and> r = req)"
  by (cases "blk_isSecure b")
    (simp_all add: blk_request_def Let_def setReqFlags_def Packet_new_def set_pflags_def Request_phys_def setPhys_def Request_default_def
      hasSize_def hasPaddr_def req_isSecure_def set_flags_def clear_flags_def isSet_def)

text \<open>The address of a block that is held is the address of its line.\<close>

lemma held_line:
  assumes "tags_wf t" "one_copy t" "st < length (sets t)" "way < unat (assoc t)" "blk_isValid (sets t ! st ! way)"
  shows "blkAlign t (regenerateBlkAddr t (sets t ! st ! way)) = regenerateBlkAddr t (sets t ! st ! way)"
    "line_at t x = Some (st, way) \<longleftrightarrow> blkAlign t x = regenerateBlkAddr t (sets t ! st ! way)"
proof -
  let ?b = "sets t ! st ! way" let ?k = "(regenerateBlkAddr t ?b, blk_isSecure ?b)"
  have h: "held t ?k ?b" using assms(5) by (simp add: held_def)
  show a: "blkAlign t (regenerateBlkAddr t ?b) = regenerateBlkAddr t ?b"
    using held_place(3) [OF assms(1,3,4) h] by simp
  have c: "cmap t ?k = Some (st, way)" using cmap_Some [OF assms(1)] assms(3,4) h by simp
  show "line_at t x = Some (st, way) \<longleftrightarrow> blkAlign t x = regenerateBlkAddr t ?b"
  proof
    assume "line_at t x = Some (st, way)"
    then obtain sec where "cmap t (blkAlign t x, sec) = Some (st, way)" using line_at_held [OF assms(1)] by blast
    then show "blkAlign t x = regenerateBlkAddr t ?b" using cmap_Some [OF assms(1)] by (simp add: held_def)
  next
    assume "blkAlign t x = regenerateBlkAddr t ?b"
    moreover have "cmap t (regenerateBlkAddr t ?b, \<not> blk_isSecure ?b) = None"
      using assms(2) [unfolded one_copy_def, rule_format, of "regenerateBlkAddr t ?b"] c by (cases "blk_isSecure ?b") simp_all
    ultimately show "line_at t x = Some (st, way)" using c by (cases "blk_isSecure ?b") (simp_all add: line_at_def)
  qed
qed

lemma line_at_None: "line_at t x = None \<longleftrightarrow> cmap t (blkAlign t x, True) = None \<and> cmap t (blkAlign t x, False) = None"
  by (auto simp: line_at_def split: option.splits)

lemma line_at_place:
  assumes "tags_wf t" "line_at t x = Some (st, way)"
  shows "st < length (sets t)" "way < unat (assoc t)" "blk_isValid (sets t ! st ! way)"
    "blkAlign t x = regenerateBlkAddr t (sets t ! st ! way)" "length (cb_data (sets t ! st ! way)) = unat (blkSize t)"
proof -
  obtain sec where "cmap t (blkAlign t x, sec) = Some (st, way)" using line_at_held [OF assms] by blast
  then show p: "st < length (sets t)" "way < unat (assoc t)" "blk_isValid (sets t ! st ! way)"
    "blkAlign t x = regenerateBlkAddr t (sets t ! st ! way)" using cmap_Some [OF assms(1)] by (simp_all add: held_def)
  show "length (cb_data (sets t ! st ! way)) = unat (blkSize t)" using tags_wfD(2) [OF assms(1) p(1,2)] by (simp add: blk_ok_def)
qed

section \<open>Writing the cache back\<close>

fun write_all :: "Packet list \<Rightarrow> AbstractMemory \<Rightarrow> AbstractMemory res" where
  "write_all [] m = ok m"
| "write_all (p # ps) m = bindR (write_back (Some p) m) (write_all ps)"

lemma write_all_append: "write_all (ps @ qs) m = bindR (write_all ps m) (write_all qs)"
  by (induction ps arbitrary: m) (auto simp: bindR_def split: sum.split)

text \<open>Clean lines agree with the memory, and dirty lines lie inside it.\<close>

definition coherent :: "'d Tags \<Rightarrow> AbstractMemory \<Rightarrow> bool" where
  "coherent t m \<longleftrightarrow> (\<forall>x. line_at t x \<noteq> None \<longrightarrow> (if line_dirty t x then line_inside t m x else byte_map m x = view t m x))"

text \<open>What a drain keeps.\<close>

definition drains :: "'d Tags \<Rightarrow> AbstractMemory \<Rightarrow> 'd Tags \<Rightarrow> AbstractMemory \<Rightarrow> bool" where
  "drains t m t' m' \<longleftrightarrow> tags_wf t' \<and> cmap t' = cmap t \<and> blkSize t' = blkSize t \<and> assoc t' = assoc t \<and>
     length (sets t') = length (sets t) \<and> mem_wf m' \<and> (\<exists>mem. pmem m' = Some mem) \<and> am_range m' = am_range m \<and>
     view t' m' = view t m \<and> coherent t' m'"

lemma drains_refl: "tags_wf t \<Longrightarrow> mem_wf m \<Longrightarrow> pmem m = Some mem \<Longrightarrow> coherent t m \<Longrightarrow> drains t m t m"
  by (simp add: drains_def)

lemma drains_trans: "drains t m t1 m1 \<Longrightarrow> drains t1 m1 t2 m2 \<Longrightarrow> drains t m t2 m2"
  by (simp add: drains_def)

lemma one_copy_cong: "cmap t' = cmap t \<Longrightarrow> one_copy t' = one_copy t"
  by (simp add: one_copy_def)

lemma line_at_cong:
  assumes "cmap t' = cmap t" "blkSize t' = blkSize t"
  shows "line_at t' = line_at t"
  unfolding line_at_def assms(1) blkAlign_def assms(2) by (rule refl)

lemma writebackVisitor_step:
  assumes "tags_wf t" "one_copy t" "mem_wf m" "pmem m = Some mem" "coherent t m" "st < length (sets t)" "way < unat (assoc t)"
  shows "\<exists>ps t' m'. writebackVisitor now (st, way) t = Inr (ps, t') \<and> write_all ps m = Inr m' \<and> drains t m t' m' \<and>
    (\<forall>x y. x < length (sets t) \<longrightarrow> y < unat (assoc t) \<longrightarrow>
      blk_isDirty (sets t' ! x ! y) = (blk_isDirty (sets t ! x ! y) \<and> (x, y) \<noteq> (st, way)))"
proof (cases "blk_isDirty (sets t ! st ! way)")
  case False
  then have "writebackVisitor now (st, way) t = Inr ([], t)"
    using findBlockBySetAndWay_in [OF assms(1,6,7)] by (simp add: writebackVisitor_def)
  then show ?thesis using drains_refl [OF assms(1,3,4,5)] False by auto
next
  case True
  note g = tags_wf_geom [OF assms(1)]
  let ?b = "sets t ! st ! way" let ?a = "regenerateBlkAddr t ?b"
  let ?t = "put_blk st way (clear_status BlkDirty ?b) t"
  have bo: "blk_ok t st ?b" by (rule tags_wfD(2) [OF assms(1,6,7)])
  then have v: "blk_isValid ?b" "length (cb_data ?b) = unat (blkSize t)" using True by (auto simp: blk_ok_def blk_isDirty_def split: if_splits)
  note hl = held_line [OF assms(1,2,6,7) v(1)]
  obtain req where req: "blk_request funcMasterId now t ?b = Inr req"
    "Packet_new req WriteReq = \<lparr>pcmd = WriteReq, pflags = VALID_ADDR OR VALID_SIZE, preq = req, pdata = [], paddr = ?a,
      pIsSecure = blk_isSecure ?b, psize = blkSize t, bytesValid = [], senderState = []\<rparr>"
    using blk_request_packet [of funcMasterId now t ?b WriteReq] by blast
  obtain p where p: "dataStatic (cb_data ?b) (Packet_new req WriteReq) = Inr p" "line_write t ?a (cb_data ?b) p"
    by (simp add: req(2) dataStatic_def noneSet_def set_pflags_def set_flags_def line_write_def isSet_def hl(1))
  have visit: "writebackVisitor now (st, way) t = Inr ([p], ?t)"
    using findBlockBySetAndWay_in [OF assms(1,6,7)] True v(1) req(1) p(1) by (simp add: writebackVisitor_def)
  have la: "line_at t ?a = Some (st, way)" using hl by blast
  have "line_inside t m ?a" using assms(5) la True by (auto simp: coherent_def line_dirty_def)
  from write_back_bytes [OF g this v(2) p(2) assms(3,4)] obtain m' mem' where
    m': "write_back (Some p) m = Inr m'" "mem_wf m'" "pmem m' = Some mem'" "am_range m' = am_range m"
    "byte_map m' = (\<lambda>x. if blkAlign t x = blkAlign t ?a then Some (cb_data ?b ! unat (extractBlkOffset t x)) else byte_map m x)"
    by blast
  have put: "tags_wf ?t" "cmap ?t = cmap t"
    by (rule put_blk_alike [OF assms(1,6,7) clear_dirty_alike [OF v(1)]])+
  have l: "way < length (sets t ! st)" using tags_wfD(1) [OF assms(1,6)] assms(7) by simp
  have nth: "sets ?t ! x ! y = (if x = st \<and> y = way then clear_status BlkDirty ?b else sets t ! x ! y)" for x y
    by (rule put_blk_nth(1) [OF assms(6) l])
  have lat: "line_at ?t = line_at t" by (rule line_at_cong [OF put(2)]) simp
  have dat: "cb_data (sets ?t ! x ! y) = cb_data (sets t ! x ! y)" for x y by (simp add: nth)
  have vw: "view ?t m1 x = (case line_at t x of Some (s, w) \<Rightarrow> Some (cb_data (sets t ! s ! w) ! unat (extractBlkOffset t x)) | None \<Rightarrow> byte_map m1 x)" for m1 x
    unfolding view_def lat dat extractBlkOffset_def put_blk_sel by (rule refl)
  have same: "view ?t m' x = view t m x" for x
  proof (cases "line_at t x")
    case None
    then have "blkAlign t x \<noteq> ?a" using hl(2) [of x] by simp
    moreover have "view t m x = byte_map m x" using None by (simp add: view_def)
    ultimately show ?thesis using None vw [of m' x] by (simp add: m'(5) hl(1))
  next
    case (Some l)
    then have "view t m x = view ?t m' x" using vw [of m' x] by (cases l) (simp add: view_def)
    then show ?thesis by simp
  qed
  have "coherent ?t m'"
    unfolding coherent_def
  proof (intro allI impI)
    fix x assume "line_at ?t x \<noteq> None"
    then obtain s w where x: "line_at t x = Some (s, w)" by (auto simp: lat)
    have lin: "line_inside ?t m' x = line_inside t m x" by (simp add: line_inside_def m'(4) blkAlign_def)
    show "if line_dirty ?t x then line_inside ?t m' x else byte_map m' x = view ?t m' x"
    proof (cases "(s, w) = (st, way)")
      case True
      then show ?thesis using x hl(2) [of x] by (simp add: line_dirty_def lat nth status_bits vw m'(5) hl(1))
    next
      case False
      then have "line_dirty ?t x = line_dirty t x" using x by (auto simp: line_dirty_def lat nth)
      moreover have "byte_map m' x = byte_map m x" using False x hl(2) [of x] by (auto simp: m'(5) hl(1))
      ultimately show ?thesis using assms(5) x same [of x] lin by (auto simp: coherent_def)
    qed
  qed
  then have "drains t m ?t m'" using put m' same by (auto simp: drains_def fun_eq_iff)
  then show ?thesis using visit m'(1) nth status_bits(3) by fastforce
qed

lemma writeback_visits:
  assumes "tags_wf t" "one_copy t" "mem_wf m" "pmem m = Some mem" "coherent t m"
    and "\<forall>(x, y) \<in> set ls. x < length (sets t) \<and> y < unat (assoc t)"
  shows "\<exists>ps t' m'. visit_blocks (writebackVisitor now) ls t = Inr (ps, t') \<and> write_all ps m = Inr m' \<and> drains t m t' m' \<and>
    (\<forall>x y. x < length (sets t) \<longrightarrow> y < unat (assoc t) \<longrightarrow>
      blk_isDirty (sets t' ! x ! y) = (blk_isDirty (sets t ! x ! y) \<and> (x, y) \<notin> set ls))"
  using assms
proof (induction ls arbitrary: t m mem)
  case Nil
  then show ?case using drains_refl [OF Nil.prems(1,3,4,5)] by simp
next
  case (Cons l ls)
  obtain st way where l: "l = (st, way)" "st < length (sets t)" "way < unat (assoc t)" using Cons.prems(6) by (cases l) auto
  obtain ps t1 m1 where s1: "writebackVisitor now l t = Inr (ps, t1)" "write_all ps m = Inr m1" "drains t m t1 m1"
    "\<forall>x y. x < length (sets t) \<longrightarrow> y < unat (assoc t) \<longrightarrow> blk_isDirty (sets t1 ! x ! y) = (blk_isDirty (sets t ! x ! y) \<and> (x, y) \<noteq> l)"
    using writebackVisitor_step [OF Cons.prems(1-5) l(2,3), of now] l(1) by blast
  have d: "tags_wf t1" "cmap t1 = cmap t" "assoc t1 = assoc t" "length (sets t1) = length (sets t)" "mem_wf m1" "coherent t1 m1"
    using s1(3) by (simp_all add: drains_def)
  obtain mem1 where mem1: "pmem m1 = Some mem1" using s1(3) by (auto simp: drains_def)
  have oc: "one_copy t1" using one_copy_cong [OF d(2)] Cons.prems(2) by simp
  have in_set: "\<forall>(x, y) \<in> set ls. x < length (sets t1) \<and> y < unat (assoc t1)" using Cons.prems(6) d(3,4) by auto
  obtain qs t2 m2 where s2: "visit_blocks (writebackVisitor now) ls t1 = Inr (qs, t2)" "write_all qs m1 = Inr m2" "drains t1 m1 t2 m2"
    "\<forall>x y. x < length (sets t) \<longrightarrow> y < unat (assoc t) \<longrightarrow> blk_isDirty (sets t2 ! x ! y) = (blk_isDirty (sets t1 ! x ! y) \<and> (x, y) \<notin> set ls)"
    using Cons.IH [OF d(1) oc d(5) mem1 d(6) in_set] unfolding d(3,4) by blast
  have "visit_blocks (writebackVisitor now) (l # ls) t = Inr (ps @ qs, t2)" using s1(1) s2(1) by simp
  moreover have "write_all (ps @ qs) m = Inr m2" using s1(2) s2(2) by (simp add: write_all_append)
  moreover have "drains t m t2 m2" by (rule drains_trans [OF s1(3) s2(3)])
  ultimately show ?case using s1(4) s2(4) by auto
qed

text \<open>Sweeping a clean cache empties it.\<close>

lemma invalidate_visits:
  assumes "tags_wf t" "\<forall>x y. x < length (sets t) \<longrightarrow> y < unat (assoc t) \<longrightarrow> \<not> blk_isDirty (sets t ! x ! y)"
    and "\<forall>(x, y) \<in> set ls. x < length (sets t) \<and> y < unat (assoc t)"
  shows "\<exists>t'. visit_blocks invalidateVisitor ls t = Inr ([], t') \<and> tags_wf t' \<and> blkSize t' = blkSize t \<and>
    (\<forall>k l. cmap t' k = Some l \<longleftrightarrow> cmap t k = Some l \<and> l \<notin> set ls)"
  using assms
proof (induction ls arbitrary: t)
  case (Cons l ls)
  obtain st way where l: "l = (st, way)" "st < length (sets t)" "way < unat (assoc t)" using Cons.prems(3) by (cases l) auto
  note fb = findBlockBySetAndWay_in [OF Cons.prems(1) l(2,3)]
  have "\<exists>t1. invalidateVisitor l t = Inr ([], t1) \<and> tags_wf t1 \<and> length (sets t1) = length (sets t) \<and> assoc t1 = assoc t \<and>
      blkSize t1 = blkSize t \<and> (\<forall>k l'. cmap t1 k = Some l' \<longleftrightarrow> cmap t k = Some l' \<and> l' \<noteq> l) \<and>
      (\<forall>x y. x < length (sets t) \<longrightarrow> y < unat (assoc t) \<longrightarrow> \<not> blk_isDirty (sets t1 ! x ! y))"
  proof (cases "blk_isValid (sets t ! st ! way)")
    case False
    then have "cmap t k \<noteq> Some l" for k using cmap_Some [OF Cons.prems(1), of k st way] l(1) by (simp add: held_def)
    moreover have "invalidateVisitor l t = Inr ([], t)" using False fb l(1) by (simp add: invalidateVisitor_def)
    ultimately show ?thesis using Cons.prems(1,2) by auto
  next
    case True
    let ?b = "sets t ! st ! way" let ?k = "(regenerateBlkAddr t ?b, blk_isSecure ?b)"
    have c: "cmap t ?k = Some (st, way)" using cmap_Some [OF Cons.prems(1)] l True by (simp add: held_def)
    obtain t1 where t1: "tags_invalidate (st, way) t = Inr t1" "tags_wf t1" "cmap t1 = (cmap t)(?k := None)" "\<not> blk_isValid (sets t1 ! st ! way)"
      "blkSize t1 = blkSize t" using invalidate_step [OF Cons.prems(1) c] by blast
    have w: "way < length (sets t ! st)" using tags_wfD(1) [OF Cons.prems(1) l(2)] l(3) by simp
    define b' where "b' = (blk_invalidate ?b)\<lparr>replacementData := pol_invalidate (policy t) (replacementData ?b)\<rparr>"
    obtain u where u: "t1 = put_blk st way b' u" "sets u = sets t" "assoc u = assoc t"
      using t1(1) fb True by (auto simp: tags_invalidate_def b'_def)
    have same: "length (sets t1) = length (sets t)" "assoc t1 = assoc t"
      "sets t1 ! x ! y = (if x = st \<and> y = way then b' else sets t ! x ! y)" for x y
      using put_blk_nth(1) [of st u way b' x y] l(2) w u by simp_all
    have key: "k = ?k" if "cmap t k = Some (st, way)" for k
      using that cmap_Some [OF Cons.prems(1), of k st way] by (cases k) (simp add: held_def)
    have "cmap t1 k = Some l' \<longleftrightarrow> cmap t k = Some l' \<and> l' \<noteq> l" for k l'
    proof (cases "k = ?k")
      case True
      then show ?thesis using c l(1) by (auto simp: t1(3))
    next
      case False
      then have "cmap t k \<noteq> Some l" using key [of k] l(1) by blast
      then show ?thesis using False by (auto simp: t1(3))
    qed
    moreover have "\<not> blk_isDirty b'" by (simp add: b'_def blk_invalidate_def blk_isDirty_def)
    ultimately have d: "\<forall>x y. x < length (sets t) \<longrightarrow> y < unat (assoc t) \<longrightarrow> \<not> blk_isDirty (sets t1 ! x ! y)"
      and k: "\<forall>k l'. cmap t1 k = Some l' \<longleftrightarrow> cmap t k = Some l' \<and> l' \<noteq> l" using same(3) Cons.prems(2) by simp_all
    have "\<not> blk_isDirty ?b" using Cons.prems(2) l(2,3) by simp
    then have "invalidateVisitor l t = Inr ([], t1)" using True fb t1(1) l(1) by (simp add: invalidateVisitor_def)
    then show ?thesis using t1(2,5) same(1,2) d k by blast
  qed
  then obtain t1 where t1: "invalidateVisitor l t = Inr ([], t1)" "tags_wf t1" "length (sets t1) = length (sets t)" "assoc t1 = assoc t"
      "blkSize t1 = blkSize t" "\<forall>k l'. cmap t1 k = Some l' \<longleftrightarrow> cmap t k = Some l' \<and> l' \<noteq> l"
      "\<forall>x y. x < length (sets t) \<longrightarrow> y < unat (assoc t) \<longrightarrow> \<not> blk_isDirty (sets t1 ! x ! y)" by blast
  have "\<exists>t'. visit_blocks invalidateVisitor ls t1 = Inr ([], t') \<and> tags_wf t' \<and> blkSize t' = blkSize t1 \<and>
      (\<forall>k l. cmap t' k = Some l \<longleftrightarrow> cmap t1 k = Some l \<and> l \<notin> set ls)"
    using Cons.IH [OF t1(2)] t1(3,4,7) Cons.prems(3) by simp
  then obtain t' where t': "visit_blocks invalidateVisitor ls t1 = Inr ([], t')" "tags_wf t'" "blkSize t' = blkSize t1"
      "\<forall>k l. cmap t' k = Some l \<longleftrightarrow> cmap t1 k = Some l \<and> l \<notin> set ls" by blast
  have "visit_blocks invalidateVisitor (l # ls) t = Inr ([], t')" using t1(1) t'(1) by simp
  moreover have "cmap t' k = Some x \<longleftrightarrow> cmap t k = Some x \<and> x \<notin> set (l # ls)" for k x
    using spec [OF spec [OF t1(6)], of k x] spec [OF spec [OF t'(4)], of k x] by auto
  ultimately show ?case using t1(5) t'(2,3) by auto
qed auto

lemma all_places_set: "set (all_places t) = {(x, y). x < length (sets t) \<and> y < unat (assoc t)}"
  by (auto simp: all_places_def)

lemma clean_after:
  assumes "tags_wf t" "\<forall>x y. x < length (sets t) \<longrightarrow> y < unat (assoc t) \<longrightarrow> \<not> blk_isDirty (sets t ! x ! y)"
  shows "\<not> cache_isDirty t"
proof -
  have "\<not> blk_isDirty b" if r: "r \<in> set (sets t)" "b \<in> set r" for r b
  proof -
    obtain x where x: "x < length (sets t)" "r = sets t ! x" using r(1) by (metis in_set_conv_nth)
    moreover obtain y where "y < length r" "b = r ! y" using r(2) by (metis in_set_conv_nth)
    ultimately show ?thesis using assms(2) tags_wfD(1) [OF assms(1) x(1)] by simp
  qed
  then show ?thesis by (auto simp: cache_isDirty_def anyBlk_def list_ex_iff)
qed

text \<open>C7: Draining a cache hands its contents over: after all dirty blocks are written back the cache is clean and
  can be checkpointed, it can then be invalidated without a failing assertion, and the empty cache over the
  updated memory shows every byte the processor saw before.\<close>
theorem drain_hands_over:
  assumes "tags_wf t" "one_copy t" "mem_wf m" "pmem m = Some mem" "coherent t m"
  shows "\<exists>ps t' m' t''. memWriteback now t = Inr (ps, t') \<and> write_all ps m = Inr m' \<and>
    cmap t' = cmap t \<and> \<not> cache_serialize t' \<and> cache_unserialize (cache_serialize t') t' = Inr t' \<and>
    memInvalidate t' = Inr ([], t'') \<and> tags_wf t'' \<and> cmap t'' = (\<lambda>_. None) \<and> byte_map m' = view t m \<and> view t'' m' = view t m"
proof -
  have pl: "\<forall>(x, y) \<in> set (all_places t). x < length (sets t) \<and> y < unat (assoc t)" by (simp add: all_places_set)
  obtain ps t' m' where w: "memWriteback now t = Inr (ps, t')" "write_all ps m = Inr m'" "drains t m t' m'"
    "\<forall>x y. x < length (sets t) \<longrightarrow> y < unat (assoc t) \<longrightarrow> \<not> blk_isDirty (sets t' ! x ! y)"
    using writeback_visits [OF assms pl, of now] by (auto simp: memWriteback_def all_places_set)
  have d: "tags_wf t'" "cmap t' = cmap t" "assoc t' = assoc t" "length (sets t') = length (sets t)" "view t' m' = view t m" "coherent t' m'"
    using w(3) by (simp_all add: drains_def)
  have clean: "\<forall>x y. x < length (sets t') \<longrightarrow> y < unat (assoc t') \<longrightarrow> \<not> blk_isDirty (sets t' ! x ! y)" using w(4) d(3,4) by simp
  have pl': "\<forall>(x, y) \<in> set (all_places t'). x < length (sets t') \<and> y < unat (assoc t')" by (simp add: all_places_set)
  obtain t'' where i: "memInvalidate t' = Inr ([], t'')" "tags_wf t''"
    "\<forall>k l. cmap t'' k = Some l \<longleftrightarrow> cmap t' k = Some l \<and> l \<notin> set (all_places t')"
    using invalidate_visits [OF d(1) clean pl'] by (auto simp: memInvalidate_def)
  have none: "cmap t'' k = None" for k
  proof (rule ccontr)
    assume "cmap t'' k \<noteq> None"
    then obtain x y where "cmap t'' k = Some (x, y)" by auto
    then have "cmap t' k = Some (x, y)" "(x, y) \<notin> set (all_places t')" using i(3) by blast+
    then show False using cmap_Some [OF d(1), of k x y] by (simp add: all_places_set)
  qed
  have bm: "byte_map m' x = view t m x" for x
  proof (cases "line_at t' x")
    case None
    then have "view t' m' x = byte_map m' x" by (simp add: view_def)
    then show ?thesis using d(5) by simp
  next
    case (Some l)
    obtain s wy where l: "l = (s, wy)" by (cases l)
    then have "\<not> line_dirty t' x" using line_at_place(1,2) [OF d(1)] Some clean by (simp add: line_dirty_def)
    then show ?thesis using d(5,6) Some by (auto simp: coherent_def)
  qed
  have "line_at t'' x = None" for x using none by (simp add: line_at_def)
  then have "view t'' m' x = byte_map m' x" for x by (simp add: view_def)
  then have "view t'' m' = view t m" "byte_map m' = view t m" "cmap t'' = (\<lambda>_. None)" using bm none by (simp_all add: fun_eq_iff)
  moreover have "\<not> cache_serialize t'" using clean_after [OF d(1) clean] by (simp add: cache_serialize_def)
  then have "\<not> cache_serialize t'" "cache_unserialize (cache_serialize t') t' = Inr t'" by (simp_all add: cache_unserialize_def)
  ultimately show ?thesis using w(1,2) d(2) i(1,2) by blast
qed

section \<open>Locks\<close>

definition lock_hit :: "Request \<Rightarrow> Lock \<Rightarrow> bool" where
  "lock_hit r l \<longleftrightarrow> lk_contextId l = req_contextId r \<and> req_paddr r \<ge> lowAddr l \<and> req_paddr r + ucast (req_size r) - 1 \<le> highAddr l"

definition lock_lost :: "Request \<Rightarrow> Lock \<Rightarrow> bool" where
  "lock_lost r l \<longleftrightarrow> req_paddr r \<le> highAddr l \<and> req_paddr r + ucast (req_size r) - 1 \<ge> lowAddr l \<and> lk_contextId l \<noteq> req_contextId r"

fun remove_first :: "('a \<Rightarrow> bool) \<Rightarrow> 'a list \<Rightarrow> 'a list" where
  "remove_first P [] = []"
| "remove_first P (x # xs) = (if P x then xs else x # remove_first P xs)"

definition has_locks_data :: "Request \<Rightarrow> bool" where
  "has_locks_data r \<longleftrightarrow> hasPaddr r \<and> hasSize r \<and> hasContextId r"

lemma lock_tests:
  assumes "has_locks_data r"
  shows "lock_matches r l = Inr (lock_hit r l)"
    "erase_others r ls = Inr (filter (\<lambda>l. \<not> lock_lost r l) ls)"
    "erase_match r ls = Inr (\<exists>l \<in> set ls. lock_hit r l, remove_first (lock_hit r) ls)"
proof -
  have b: "req_bounds r = Inr (req_paddr r, req_paddr r + ucast (req_size r) - 1)" "contextId r = Inr (req_contextId r)"
    using assms by (simp_all add: has_locks_data_def req_bounds_def getPaddr_def getReqSize_def contextId_def)
  then show m: "lock_matches r l = Inr (lock_hit r l)" for l by (simp add: lock_matches_def lock_hit_def)
  show "erase_others r ls = Inr (filter (\<lambda>l. \<not> lock_lost r l) ls)"
    by (induction ls) (auto simp: lock_intersects_def b lock_lost_def)
  show "erase_match r ls = Inr (\<exists>l \<in> set ls. lock_hit r l, remove_first (lock_hit r) ls)"
    by (induction ls) (auto simp: m)
qed

lemma has_locks_extra: "has_locks_data r \<Longrightarrow> has_locks_data (setExtraData d r)"
  by (simp add: has_locks_data_def setExtraData_def hasPaddr_def hasSize_def hasContextId_def isSet_def set_flags_def
      bit.conj_disj_distrib2)

text \<open>A store-conditional succeeds exactly if its context holds a lock that covers it; a normal write always does.\<close>

lemma checkWrite_ok:
  assumes "isWrite (pcmd p)" "lockList b = [] \<or> has_locks_data (preq p)"
  shows "\<exists>q b1. blk_checkWrite p b = Inr (isLLSC (pcmd p) \<longrightarrow> (\<exists>l \<in> set (lockList b). lock_hit (preq p) l), q, b1) \<and>
    (\<exists>r. q = p\<lparr>preq := r\<rparr>) \<and> (\<exists>ls. b1 = b\<lparr>lockList := ls\<rparr>)"
proof -
  have self: "\<exists>r. p = p\<lparr>preq := r\<rparr>" "\<exists>ls. b = b\<lparr>lockList := ls\<rparr>" by (metis Packet.surjective Packet.update_convs(3), metis CacheBlk.surjective CacheBlk.update_convs(9))
  show ?thesis
  proof (cases "lockList b = []")
    case True
    then show ?thesis using assms(1) self
      by (cases "isLLSC (pcmd p)") (auto simp: blk_checkWrite_def clearLoadLocks_def Let_def)
  next
    case False
    then have r: "has_locks_data (preq p)" using assms(2) by simp
    show ?thesis using False assms(1) self(1) lock_tests(2,3) [OF r] lock_tests(2) [OF has_locks_extra [OF r]]
      by (cases "isLLSC (pcmd p)") (auto simp: blk_checkWrite_def clearLoadLocks_def Let_def)
  qed
qed

section \<open>Packets within a line\<close>

definition in_line :: "'d Tags \<Rightarrow> Packet \<Rightarrow> bool" where
  "in_line t p \<longleftrightarrow> isSet (pflags p) VALID_ADDR \<and> isSet (pflags p) VALID_SIZE \<and> isSet (pflags p) (STATIC_DATA OR DYNAMIC_DATA) \<and>
     length (pdata p) = unat (psize p) \<and> unat (extractBlkOffset t (paddr p)) + unat (psize p) \<le> unat (blkSize t)"

lemma within_block:
  fixes a x b n :: nat
  assumes "a mod b + n \<le> b"
  shows "a \<le> x \<and> x < a + n \<longleftrightarrow> x div b = a div b \<and> a mod b \<le> x mod b \<and> x mod b < a mod b + n"
    "a \<le> x \<Longrightarrow> x < a + n \<Longrightarrow> x mod b = a mod b + (x - a)"
proof -
  have f: "x div b = a div b" "x mod b = a mod b + (x - a)" if "a \<le> x" "x < a + n"
  proof -
    define c q where c: "c = a mod b + (x - a)" and q: "q = a div b"
    have x: "x = c + q * b" using that(1) unfolding c q by (metis add.assoc add.commute le_add_diff_inverse mod_div_mult_eq)
    have l: "c < b" using that assms unfolding c by simp
    have "x div b = q" "x mod b = c" unfolding x using l by simp_all
    then show "x div b = a div b" "x mod b = a mod b + (x - a)" by (simp_all add: c q)
  qed
  show "a \<le> x \<Longrightarrow> x < a + n \<Longrightarrow> x mod b = a mod b + (x - a)" using f(2) by blast
  show "a \<le> x \<and> x < a + n \<longleftrightarrow> x div b = a div b \<and> a mod b \<le> x mod b \<and> x mod b < a mod b + n"
  proof
    assume "a \<le> x \<and> x < a + n"
    then show "x div b = a div b \<and> a mod b \<le> x mod b \<and> x mod b < a mod b + n" using f(1,2) by (intro conjI; linarith)
  next
    assume h: "x div b = a div b \<and> a mod b \<le> x mod b \<and> x mod b < a mod b + n"
    have "x = a div b * b + x mod b" "a = a div b * b + a mod b" using h by (metis div_mult_mod_eq)+
    then show "a \<le> x \<and> x < a + n" using h by linarith
  qed
qed

lemma in_line_touches:
  assumes "tags_geom t" "in_line t p"
  shows "touches p x \<longleftrightarrow> blkAlign t x = blkAlign t (paddr p) \<and> unat (extractBlkOffset t (paddr p)) \<le> unat (extractBlkOffset t x) \<and>
      unat (extractBlkOffset t x) < unat (extractBlkOffset t (paddr p)) + unat (psize p)"
    "touches p x \<Longrightarrow> unat (extractBlkOffset t x) = unat (extractBlkOffset t (paddr p)) + (unat x - unat (paddr p))"
proof -
  let ?b = "unat (blkSize t)"
  have b: "0 < ?b" by (simp add: geom_size(1) [OF assms(1)])
  have al: "blkAlign t x = blkAlign t (paddr p) \<longleftrightarrow> unat x div ?b = unat (paddr p) div ?b"
    using b by (simp add: word_unat_eq_iff blkAlign_nat [OF assms(1)])
  have w: "unat (paddr p) mod ?b + unat (psize p) \<le> ?b" using assms(2) by (simp add: in_line_def offset_nat [OF assms(1)])
  show "touches p x \<longleftrightarrow> blkAlign t x = blkAlign t (paddr p) \<and> unat (extractBlkOffset t (paddr p)) \<le> unat (extractBlkOffset t x) \<and>
      unat (extractBlkOffset t x) < unat (extractBlkOffset t (paddr p)) + unat (psize p)"
    unfolding al offset_nat [OF assms(1)] touches_def word_le_nat_alt by (rule within_block(1) [OF w])
  show "touches p x \<Longrightarrow> unat (extractBlkOffset t x) = unat (extractBlkOffset t (paddr p)) + (unat x - unat (paddr p))"
    unfolding offset_nat [OF assms(1)] touches_def word_le_nat_alt using within_block(2) [OF w] by blast
qed

text \<open>Storing a block with other data at its place.\<close>

lemma put_data_view:
  assumes "tags_wf t" "one_copy t" "line_at t a = Some (st, way)" "blk_alike (sets t ! st ! way) b'"
  shows "tags_wf (put_blk st way b' t)" "cmap (put_blk st way b' t) = cmap t"
    "view (put_blk st way b' t) m = (\<lambda>x. if blkAlign t x = blkAlign t a then Some (cb_data b' ! unat (extractBlkOffset t x)) else view t m x)"
    "line_dirty (put_blk st way b' t) a = blk_isDirty b'"
proof -
  let ?t = "put_blk st way b' t"
  note p = line_at_place [OF assms(1,3)]
  show c: "tags_wf ?t" "cmap ?t = cmap t" by (rule put_blk_alike [OF assms(1) p(1,2) assms(4)])+
  have l: "way < length (sets t ! st)" using tags_wfD(1) [OF assms(1) p(1)] p(2) by simp
  have nth: "sets ?t ! x ! y = (if x = st \<and> y = way then b' else sets t ! x ! y)" for x y by (rule put_blk_nth(1) [OF p(1) l])
  have lat: "line_at ?t = line_at t" by (rule line_at_cong [OF c(2)]) simp
  have here: "line_at t x = Some (st, way) \<longleftrightarrow> blkAlign t x = blkAlign t a" for x
    using held_line(2) [OF assms(1,2) p(1-3), of x] p(4) by simp
  have "view ?t m x = (if blkAlign t x = blkAlign t a then Some (cb_data b' ! unat (extractBlkOffset t x)) else view t m x)" for x
  proof (cases "blkAlign t x = blkAlign t a")
    case True
    then show ?thesis using here [of x] by (simp add: view_def lat nth extractBlkOffset_def)
  next
    case False
    then have "line_at t x \<noteq> Some (st, way)" using here by simp
    then show ?thesis using False by (auto simp: view_def lat nth extractBlkOffset_def split: option.split)
  qed
  then show "view ?t m = (\<lambda>x. if blkAlign t x = blkAlign t a then Some (cb_data b' ! unat (extractBlkOffset t x)) else view t m x)" by blast
  show "line_dirty ?t a = blk_isDirty b'" using assms(3) by (simp add: line_dirty_def lat nth)
qed

lemma in_line_accessors:
  assumes "in_line t p"
  shows "getSize p = Inr (psize p)" "getPtr p = Inr (pdata p)" "blkOffset (blkSize t) p = Inr (extractBlkOffset t (paddr p))"
  using assms by (simp_all add: in_line_def getSize_def getPtr_def blkOffset_def getAddr_def extractBlkOffset_def)

text \<open>The bytes of a block that a packet covers.\<close>

definition blk_part :: "'d Tags \<Rightarrow> Packet \<Rightarrow> 'd CacheBlk \<Rightarrow> u8 list" where
  "blk_part t p b = take (unat (psize p)) (drop (unat (extractBlkOffset t (paddr p))) (cb_data b))"

lemma setData_line:
  assumes "in_line t p" "length (cb_data b) = unat (blkSize t)"
  shows "setData (cb_data b) (unat (extractBlkOffset t (paddr p))) p = Inr (p\<lparr>pdata := blk_part t p b\<rparr>)"
    "setDataFromBlock (cb_data b) (blkSize t) p = Inr (p\<lparr>pdata := blk_part t p b\<rparr>)"
  using assms in_line_accessors [OF assms(1)] by (simp_all add: setDataFromBlock_def setData_def memcpy_def in_line_def blk_part_def)

lemma blk_part_view:
  assumes "tags_wf t" "line_at t (paddr p) = Some (st, way)" "in_line t p" "touches p x"
  shows "view t m x = Some (blk_part t p (sets t ! st ! way) ! (unat x - unat (paddr p)))"
proof -
  note g = tags_wf_geom [OF assms(1)]
  note p = line_at_place [OF assms(1,2)]
  have x: "blkAlign t x = blkAlign t (paddr p)" using in_line_touches(1) [OF g assms(3)] assms(4) by blast
  have "line_at t x = Some (st, way)" using assms(2) unfolding line_at_def x .
  moreover have o: "unat (extractBlkOffset t x) = unat (extractBlkOffset t (paddr p)) + (unat x - unat (paddr p))"
    by (rule in_line_touches(2) [OF g assms(3,4)])
  moreover have "unat x - unat (paddr p) < unat (psize p)" using assms(4) by (auto simp: touches_def word_le_nat_alt)
  moreover have "unat (extractBlkOffset t (paddr p)) + unat (psize p) \<le> length (cb_data (sets t ! st ! way))"
    using assms(3) p(5) by (simp add: in_line_def)
  ultimately show ?thesis by (simp add: view_def blk_part_def)
qed

definition splice :: "u8 list \<Rightarrow> nat \<Rightarrow> u8 list \<Rightarrow> u8 list" where
  "splice old off new = take off old @ new @ drop (off + length new) old"

lemma splice_view:
  assumes "tags_wf t" "one_copy t" "line_at t (paddr p) = Some (st, way)" "in_line t p" "length new = unat (psize p)"
    and "blk_alike (sets t ! st ! way) b'" "cb_data b' = splice (cb_data (sets t ! st ! way)) (unat (extractBlkOffset t (paddr p))) new"
  shows "view (put_blk st way b' t) m = (\<lambda>x. if touches p x then Some (new ! (unat x - unat (paddr p))) else view t m x)"
proof -
  note g = tags_wf_geom [OF assms(1)]
  let ?o = "unat (extractBlkOffset t (paddr p))" let ?b = "sets t ! st ! way"
  note p = line_at_place [OF assms(1,3)]
  have len: "?o + unat (psize p) \<le> length (cb_data ?b)" using assms(4) p(5) by (simp add: in_line_def)
  have "view (put_blk st way b' t) m x = (if touches p x then Some (new ! (unat x - unat (paddr p))) else view t m x)" for x
  proof (cases "blkAlign t x = blkAlign t (paddr p)")
    case False
    then have "\<not> touches p x" using in_line_touches(1) [OF g assms(4)] by blast
    then show ?thesis using False put_data_view(3) [OF assms(1-3,6)] by simp
  next
    case True
    have "line_at t x = Some (st, way)" using assms(3) unfolding line_at_def True .
    then have old: "view t m x = Some (cb_data ?b ! unat (extractBlkOffset t x))" by (simp add: view_def)
    have new: "view (put_blk st way b' t) m x = Some (cb_data b' ! unat (extractBlkOffset t x))"
      using True put_data_view(3) [OF assms(1-3,6)] by simp
    show ?thesis
    proof (cases "touches p x")
      case True
      have "unat x - unat (paddr p) < unat (psize p)" using True by (auto simp: touches_def word_le_nat_alt)
      then show ?thesis using True new in_line_touches(2) [OF g assms(4) True] len assms(5,7) by (simp add: splice_def nth_append)
    next
      case False
      then have "unat (extractBlkOffset t x) < ?o \<or> ?o + unat (psize p) \<le> unat (extractBlkOffset t x)"
        using in_line_touches(1) [OF g assms(4), of x] \<open>blkAlign t x = _\<close> by auto
      then show ?thesis using False new old len assms(5,7) by (auto simp: splice_def nth_append)
    qed
  qed
  then show ?thesis by blast
qed

section \<open>Requests served by a block\<close>

lemma loadLocked_ok:
  assumes "isLLSC (pcmd p)" "has_locks_data (preq p)"
  shows "\<exists>ls l. blk_trackLoadLocked p b = Inr (b\<lparr>lockList := l # ls\<rparr>) \<and> lk_contextId l = req_contextId (preq p) \<and>
    lowAddr l = req_paddr (preq p) \<and> highAddr l = req_paddr (preq p) + ucast (req_size (preq p)) - 1"
proof -
  have b: "req_bounds (preq p) = Inr (req_paddr (preq p), req_paddr (preq p) + ucast (req_size (preq p)) - 1)" "contextId (preq p) = Inr (req_contextId (preq p))"
    using assms(2) by (simp_all add: has_locks_data_def req_bounds_def getPaddr_def getReqSize_def contextId_def)
  have "\<exists>ls'. erase_intersecting (preq p) ls = Inr ls'" for ls
    by (induction ls) (auto simp: lock_intersects_def b)
  then obtain ls where "erase_intersecting (preq p) (lockList b) = Inr ls" by blast
  then have "blk_trackLoadLocked p b = Inr (b\<lparr>lockList := \<lparr>lk_contextId = req_contextId (preq p), lowAddr = req_paddr (preq p),
      highAddr = req_paddr (preq p) + ucast (req_size (preq p)) - 1\<rparr> # ls\<rparr>)"
    using assms(1) b by (simp add: blk_trackLoadLocked_def Lock_new_def)
  then show ?thesis by (intro exI conjI) (assumption, simp_all)
qed

lemma satisfy_enter:
  assumes "tags_wf t" "line_at t (paddr p) = Some (st, way)" "in_line t p"
  shows "findBlockBySetAndWay t st way = Inr (sets t ! st ! way)" "blk_isValid (sets t ! st ! way)"
    "blkOffset (blkSize t) p = Inr (extractBlkOffset t (paddr p))" "getSize p = Inr (psize p)"
    "unat (extractBlkOffset t (paddr p)) + unat (psize p) \<le> unat (blkSize t)"
  using line_at_place [OF assms(1,2)] findBlockBySetAndWay_in [OF assms(1)] in_line_accessors [OF assms(3)] assms(3)
  by (simp_all add: in_line_def)

lemma lock_alike: "blk_alike b (b\<lparr>lockList := ls\<rparr>)"
  by (simp add: blk_alike_def blk_isValid_def blk_isSecure_def)

text \<open>A read served by the cache answers with the bytes the processor sees at the addresses of the packet, and
  changes none; a load-locked read leaves a lock of its context on exactly these addresses.\<close>
theorem cache_read_exact:
  assumes "tags_wf t" "one_copy t" "line_at t (paddr p) = Some (st, way)" "in_line t p"
    and "isRequest (pcmd p)" "isRead (pcmd p)" "\<not> isWrite (pcmd p)" "hasRespData p" "isLLSC (pcmd p) \<longrightarrow> has_locks_data (preq p)"
  shows "\<exists>q t'. satisfyRequest p (st, way) t = Inr (q, t') \<and> tags_wf t' \<and> cmap t' = cmap t \<and> view t' m = view t m \<and>
    (\<forall>x. touches p x \<longrightarrow> view t m x = Some (pdata q ! (unat x - unat (paddr p)))) \<and>
    (isLLSC (pcmd p) \<longrightarrow> (\<exists>l \<in> set (lockList (sets t' ! st ! way)). lk_contextId l = req_contextId (preq p) \<and>
      lowAddr l = req_paddr (preq p) \<and> highAddr l = req_paddr (preq p) + ucast (req_size (preq p)) - 1))"
proof -
  let ?b = "sets t ! st ! way"
  note e = satisfy_enter [OF assms(1,3,4)]
  have "isWrite SwapReq" by code_simp
  then have ns: "pcmd p \<noteq> SwapReq" using assms(7) by metis
  obtain ls where ls: "(if isLLSC (pcmd p) then blk_trackLoadLocked p ?b else ok ?b) = Inr (?b\<lparr>lockList := ls\<rparr>)"
    "isLLSC (pcmd p) \<longrightarrow> (\<exists>l \<in> set ls. lk_contextId l = req_contextId (preq p) \<and> lowAddr l = req_paddr (preq p) \<and>
      highAddr l = req_paddr (preq p) + ucast (req_size (preq p)) - 1)"
  proof (cases "isLLSC (pcmd p)")
    case True
    then show ?thesis using loadLocked_ok [OF True, of ?b] assms(9) that by fastforce
  next
    case False
    have "?b = ?b\<lparr>lockList := lockList ?b\<rparr>" by simp
    then show ?thesis using False that by metis
  qed
  let ?b1 = "?b\<lparr>lockList := ls\<rparr>" let ?t = "put_blk st way ?b1 t" let ?q = "p\<lparr>pdata := blk_part t p ?b\<rparr>"
  have "cb_data ?b1 = cb_data ?b" by simp
  then have "satisfyRequest p (st, way) t = Inr (?q, ?t)"
    using e assms(5-8) ns ls(1) setData_line(2) [OF assms(4), of ?b] line_at_place(5) [OF assms(1,3)]
    by (simp add: satisfyRequest_def Let_def)
  moreover have "view ?t m x = view t m x" for x
  proof (cases "blkAlign t x = blkAlign t (paddr p)")
    case True
    have "line_at t x = Some (st, way)" using assms(3) unfolding line_at_def True .
    then show ?thesis using True put_data_view(3) [OF assms(1-3) lock_alike] by (simp add: view_def)
  qed (simp add: put_data_view(3) [OF assms(1-3) lock_alike])
  moreover have "sets ?t ! st ! way = ?b1"
    using put_blk_nth(1) [of st t way] line_at_place(1,2) [OF assms(1,3)] tags_wfD(1) [OF assms(1)] by simp
  ultimately show ?thesis
    using put_data_view(1,2) [OF assms(1-3) lock_alike] blk_part_view [OF assms(1,3,4), of _ m] ls(2) by (auto simp: fun_eq_iff)
qed

text \<open>C9: A write served by the cache changes what the processor sees exactly at the addresses of the packet, to its
  bytes, unless it is a store-conditional whose context holds no lock covering it; the line is dirty afterwards
  in either case.\<close>
theorem cache_write_exact:
  assumes "tags_wf t" "one_copy t" "line_at t (paddr p) = Some (st, way)" "in_line t p"
    and "isRequest (pcmd p)" "isWrite (pcmd p)" "pcmd p \<noteq> SwapReq" "blk_isWritable (sets t ! st ! way)"
    and "lockList (sets t ! st ! way) = [] \<or> has_locks_data (preq p)"
  shows "\<exists>q t'. satisfyRequest p (st, way) t = Inr (q, t') \<and> tags_wf t' \<and> cmap t' = cmap t \<and> line_dirty t' (paddr p) \<and>
    view t' m = (\<lambda>x. if (isLLSC (pcmd p) \<longrightarrow> (\<exists>l \<in> set (lockList (sets t ! st ! way)). lock_hit (preq p) l)) \<and> touches p x
      then Some (pdata p ! (unat x - unat (paddr p))) else view t m x)"
proof -
  let ?b = "sets t ! st ! way" let ?okay = "isLLSC (pcmd p) \<longrightarrow> (\<exists>l \<in> set (lockList ?b). lock_hit (preq p) l)"
  let ?o = "unat (extractBlkOffset t (paddr p))"
  note e = satisfy_enter [OF assms(1,3,4)]
  have len: "length (cb_data ?b) = unat (blkSize t)" by (rule line_at_place(5) [OF assms(1,3)])
  obtain r ls where cw: "blk_checkWrite p ?b = Inr (?okay, p\<lparr>preq := r\<rparr>, ?b\<lparr>lockList := ls\<rparr>)"
    using checkWrite_ok [OF assms(6,9)] by blast
  define d where "d = (if ?okay then splice (cb_data ?b) ?o (pdata p) else cb_data ?b)"
  let ?b1 = "set_status BlkDirty (?b\<lparr>lockList := ls, cb_data := d\<rparr>)" let ?t = "put_blk st way ?b1 t"
  have pd: "length (pdata p) = unat (psize p)" using assms(4) by (simp add: in_line_def)
  have "in_line t (p\<lparr>preq := r\<rparr>)" using assms(4) by (simp add: in_line_def)
  from in_line_accessors [OF this] have w: "(if ?okay then writeDataToBlock (cb_data (?b\<lparr>lockList := ls\<rparr>)) (blkSize t) (p\<lparr>preq := r\<rparr>)
      else ok (cb_data (?b\<lparr>lockList := ls\<rparr>))) = Inr d"
    using len e(5) pd by (simp add: d_def writeDataToBlock_def writeData_def memcpy_def splice_def)
  have sat: "satisfyRequest p (st, way) t = Inr (p\<lparr>preq := r\<rparr>, ?t)"
    using e assms(5-8) cw w by (simp add: satisfyRequest_def Let_def split del: if_split)
  have ld: "length d = length (cb_data ?b)" using len e(5) pd by (simp add: d_def splice_def)
  have "blk_isValid (?b\<lparr>lockList := ls, cb_data := d\<rparr>)" "blk_isSecure (?b\<lparr>lockList := ls, cb_data := d\<rparr>) = blk_isSecure ?b"
    using e(2) by (simp_all add: blk_isValid_def blk_isSecure_def)
  then have al: "blk_alike ?b ?b1" using e(2) ld by (simp add: blk_alike_def status_bits)
  note pv = put_data_view [OF assms(1-3) al]
  have dt: "cb_data ?b1 = d" by (simp add: set_status_def)
  have "view ?t m x = (if ?okay \<and> touches p x then Some (pdata p ! (unat x - unat (paddr p))) else view t m x)" for x
  proof (cases ?okay)
    case True
    then have "cb_data ?b1 = splice (cb_data ?b) ?o (pdata p)" using dt by (simp add: d_def)
    from splice_view [OF assms(1-4) pd al this] True show ?thesis by simp
  next
    case False
    then have "cb_data ?b1 = cb_data ?b" using dt by (simp only: d_def if_False)
    moreover have "line_at t x = Some (st, way)" if "blkAlign t x = blkAlign t (paddr p)" using assms(3) unfolding line_at_def that .
    ultimately show ?thesis using False pv(3) by (auto simp: view_def)
  qed
  then show ?thesis using sat pv(1,2,4) status_bits(10) by (auto simp: fun_eq_iff)
qed

text \<open>An exchange served by the cache answers with the bytes that were there and writes the packet's bytes in their
  place; a conditional exchange writes only if the bytes that were there are those of the request's extra data.\<close>
theorem cache_swap_exact:
  assumes "tags_wf t" "one_copy t" "line_at t (paddr p) = Some (st, way)" "in_line t p"
    and "pcmd p = SwapReq" "\<not> isAtomic (preq p)" "unat (psize p) \<le> 8"
    and "isCondSwap (preq p) \<longrightarrow> (psize p = 4 \<or> psize p = 8) \<and> getExtraData (preq p) = Inr e"
  shows "\<exists>q t'. satisfyRequest p (st, way) t = Inr (q, t') \<and> tags_wf t' \<and> cmap t' = cmap t \<and>
    (\<forall>x. touches p x \<longrightarrow> view t m x = Some (pdata q ! (unat x - unat (paddr p)))) \<and>
    view t' m = (\<lambda>x. if (isCondSwap (preq p) \<longrightarrow> le_bytes (unat (psize p)) e = pdata q) \<and> touches p x
      then Some (pdata p ! (unat x - unat (paddr p))) else view t m x)"
proof -
  let ?b = "sets t ! st ! way" let ?o = "unat (extractBlkOffset t (paddr p))" let ?n = "unat (psize p)"
  let ?q = "p\<lparr>pdata := blk_part t p ?b\<rparr>"
  define sw where "sw \<longleftrightarrow> (isCondSwap (preq p) \<longrightarrow> le_bytes ?n e = blk_part t p ?b)"
  note en = satisfy_enter [OF assms(1,3,4)]
  have len: "length (cb_data ?b) = unat (blkSize t)" by (rule line_at_place(5) [OF assms(1,3)])
  have pd: "length (pdata p) = ?n" using assms(4) by (simp add: in_line_def)
  have rq: "isRequest SwapReq" by code_simp
  have ov: "writeData (replicate 8 0) 0 p = Inr (pdata p @ drop ?n (replicate 8 0))"
    using in_line_accessors [OF assms(4)] pd assms(7) by (simp add: writeData_def memcpy_def)
  have sc: "swap_condition p (cb_data ?b) ?o = Inr sw"
    using assms(8) in_line_accessors(1) [OF assms(4)] by (auto simp: swap_condition_def sw_def blk_part_def)
  have mc: "memcpy (cb_data ?b) ?o (pdata p @ drop ?n (replicate 8 0)) 0 ?n = Inr (splice (cb_data ?b) ?o (pdata p))"
    using len en(5) pd by (simp add: memcpy_def splice_def)
  define b' where "b' = (if sw then set_status BlkDirty (?b\<lparr>cb_data := splice (cb_data ?b) ?o (pdata p)\<rparr>) else ?b)"
  have "cmpAndSwap p (blkSize t) ?b = Inr (?q, b')"
    using rq assms(5,7) en(3,4) ov setData_line(1) [OF assms(4) len] sc mc by (simp add: cmpAndSwap_def b'_def)
  then have sat: "satisfyRequest p (st, way) t = Inr (?q, put_blk st way b' t)"
    using rq en assms(5,6) by (simp add: satisfyRequest_def Let_def)
  have al: "blk_alike ?b b'"
    using en(2,5) len pd by (auto simp: blk_alike_def b'_def status_bits blk_isValid_def blk_isSecure_def set_status_def
        BlkDirty_def BlkValid_def BlkSecure_def splice_def bit.conj_disj_distrib2)
  note pv = put_data_view [OF assms(1-3) al]
  have "view (put_blk st way b' t) m x = (if sw \<and> touches p x then Some (pdata p ! (unat x - unat (paddr p))) else view t m x)" for x
  proof (cases sw)
    case True
    then have "cb_data b' = splice (cb_data ?b) ?o (pdata p)" by (simp add: b'_def)
    from splice_view [OF assms(1-4) pd al this] True show ?thesis by simp
  next
    case False
    have "line_at t x = Some (st, way)" if "blkAlign t x = blkAlign t (paddr p)" using assms(3) unfolding line_at_def that .
    then show ?thesis using False pv(3) by (auto simp: view_def b'_def)
  qed
  moreover have "\<forall>x. touches p x \<longrightarrow> view t m x = Some (pdata ?q ! (unat x - unat (paddr p)))"
    using blk_part_view [OF assms(1,3,4)] by simp
  ultimately show ?thesis using sat pv(1,2) by (intro exI [of _ ?q] exI [of _ "put_blk st way b' t"]) (simp add: sw_def fun_eq_iff)
qed

section \<open>Examples\<close>

text \<open>The line of the examples, dirty and writable, and packets for two of its bytes.\<close>

definition ex_owned :: "LRUReplData Tags" where
  "ex_owned = put_blk 2 1 ((sets ex_filled ! 2 ! 1)\<lparr>cb_status := BlkValid OR BlkWritable OR BlkDirty, cb_data := ex_line\<rparr>) ex_filled"

definition ex_packet :: "Command \<Rightarrow> u8 list \<Rightarrow> Packet" where
  "ex_packet c d = (Packet_new (Request_phys 0x13 (of_nat (length d)) 0 1 0) c)\<lparr>pflags := 0x2300, pdata := d\<rparr>"

lemma ex_owned_store: "tags_wf ex_owned" "cmap ex_owned = [(0x10, False) \<mapsto> (2, 1)]"
proof -
  have p: "2 < length (sets ex_filled)" "1 < unat (assoc ex_filled)"
    "blk_alike (sets ex_filled ! 2 ! 1) ((sets ex_filled ! 2 ! 1)\<lparr>cb_status := BlkValid OR BlkWritable OR BlkDirty, cb_data := ex_line\<rparr>)"
    by code_simp+
  have "cmap ex_filled = [(0x10, False) \<mapsto> (2, 1)]"
    using insertBlock_step [OF ex_tags_wf(1) ex_hyps(1,2) _ ex_hyps(3), of False 0 7] ex_filled_new
    by (auto simp: ex_tags_wf(2) ex_place)
  then show "tags_wf ex_owned" "cmap ex_owned = [(0x10, False) \<mapsto> (2, 1)]"
    using put_blk_alike [OF ex_filled_wf p] by (simp_all add: ex_owned_def)
qed

lemma ex_owned_one: "one_copy ex_owned"
  by (simp add: one_copy_def ex_owned_store)

lemma ex_owned_line:
  "line_at ex_owned (paddr (ex_packet ReadReq [0, 0])) = Some (2, 1)" "line_at ex_owned (paddr (ex_packet WriteReq [1, 2])) = Some (2, 1)"
  "line_at ex_owned (paddr (ex_packet SwapReq [1, 2])) = Some (2, 1)"
  "in_line ex_owned (ex_packet ReadReq [0, 0])" "in_line ex_owned (ex_packet WriteReq [1, 2])" "in_line ex_owned (ex_packet SwapReq [1, 2])"
  "blk_isWritable (sets ex_owned ! 2 ! 1)" "lockList (sets ex_owned ! 2 ! 1) = []"
  by code_simp+

lemma ex_owned_dirty: "blkAlign ex_owned 0x13 = 0x10" "line_dirty ex_owned 0x13" "line_inside ex_owned ex_cache_mem 0x13"
  by code_simp+

lemma ex_owned_coherent: "coherent ex_owned ex_cache_mem"
  unfolding coherent_def
proof (intro allI impI)
  fix x
  assume "line_at ex_owned x \<noteq> None"
  then have x: "blkAlign ex_owned x = blkAlign ex_owned 0x13"
    unfolding line_at_None ex_owned_store(2) ex_owned_dirty(1) by (simp split: if_splits)
  have "line_dirty ex_owned x" using ex_owned_dirty(2) unfolding line_dirty_def line_at_def x .
  moreover have "line_inside ex_owned ex_cache_mem x" using ex_owned_dirty(3) unfolding line_inside_def x .
  ultimately show "if line_dirty ex_owned x then line_inside ex_owned ex_cache_mem x else byte_map ex_cache_mem x = view ex_owned ex_cache_mem x"
    by simp
qed

theorem drain_hands_over_witness:
  "\<exists>ps t' m'. memWriteback 9 ex_owned = Inr (ps, t') \<and> write_all ps ex_cache_mem = Inr m' \<and> \<not> cache_serialize t' \<and>
    byte_map m' 0x13 = Some 13"
proof -
  have v: "view ex_owned ex_cache_mem 0x13 = Some 13" by code_simp
  obtain ps t' m' where d: "memWriteback 9 ex_owned = Inr (ps, t')" "write_all ps ex_cache_mem = Inr m'" "\<not> cache_serialize t'"
    "byte_map m' = view ex_owned ex_cache_mem"
    using drain_hands_over [OF ex_owned_store(1) ex_owned_one ex_cache_mem_ok(1,2) ex_owned_coherent, of 9] by blast
  have "byte_map m' 0x13 = Some 13" unfolding d(4) by (rule v)
  then show ?thesis using d(1-3) by blast
qed

theorem cache_read_exact_witness:
  "\<exists>q t'. satisfyRequest (ex_packet ReadReq [0, 0]) (2, 1) ex_owned = Inr (q, t') \<and> pdata q ! 1 = 14 \<and> view t' ex_cache_mem 0x14 = Some 14"
proof -
  have c: "isRequest (pcmd (ex_packet ReadReq [0, 0]))" "isRead (pcmd (ex_packet ReadReq [0, 0]))" "\<not> isWrite (pcmd (ex_packet ReadReq [0, 0]))"
    "hasRespData (ex_packet ReadReq [0, 0])" "\<not> isLLSC (pcmd (ex_packet ReadReq [0, 0]))"
    and v: "view ex_owned ex_cache_mem 0x14 = Some 14" "touches (ex_packet ReadReq [0, 0]) 0x14" "unat (0x14 :: Addr) - unat (paddr (ex_packet ReadReq [0, 0])) = 1"
    by code_simp+
  then obtain q t' where "satisfyRequest (ex_packet ReadReq [0, 0]) (2, 1) ex_owned = Inr (q, t')" "view t' ex_cache_mem = view ex_owned ex_cache_mem"
    "\<forall>x. touches (ex_packet ReadReq [0, 0]) x \<longrightarrow> view ex_owned ex_cache_mem x = Some (pdata q ! (unat x - unat (paddr (ex_packet ReadReq [0, 0]))))"
    using cache_read_exact [OF ex_owned_store(1) ex_owned_one ex_owned_line(1,4) c(1-4), of ex_cache_mem] by blast
  then show ?thesis using v by (metis option.inject)
qed

theorem cache_write_exact_witness:
  "\<exists>q t'. satisfyRequest (ex_packet WriteReq [1, 2]) (2, 1) ex_owned = Inr (q, t') \<and> view t' ex_cache_mem 0x14 = Some 2 \<and>
    view t' ex_cache_mem 0x15 = Some 15"
proof -
  let ?p = "ex_packet WriteReq [1, 2]"
  have c: "isRequest (pcmd ?p)" "isWrite (pcmd ?p)" "pcmd ?p \<noteq> SwapReq" "\<not> isLLSC (pcmd ?p)"
    and v: "view ex_owned ex_cache_mem 0x15 = Some 15" "touches ?p 0x14" "\<not> touches ?p 0x15" "pdata ?p ! (unat (0x14 :: Addr) - unat (paddr ?p)) = 2"
    by code_simp+
  have "lockList (sets ex_owned ! 2 ! 1) = [] \<or> has_locks_data (preq ?p)" using ex_owned_line(8) by blast
  from cache_write_exact [OF ex_owned_store(1) ex_owned_one ex_owned_line(2,5) c(1-3) ex_owned_line(7) this, of ex_cache_mem]
  show ?thesis using c(4) v by auto
qed

theorem cache_swap_exact_witness:
  "\<exists>q t'. satisfyRequest (ex_packet SwapReq [1, 2]) (2, 1) ex_owned = Inr (q, t') \<and> pdata q ! 1 = 14 \<and> view t' ex_cache_mem 0x14 = Some 2"
proof -
  let ?p = "ex_packet SwapReq [1, 2]"
  have c: "pcmd ?p = SwapReq" "\<not> isAtomic (preq ?p)" "unat (psize ?p) \<le> 8" "\<not> isCondSwap (preq ?p)"
    and v: "view ex_owned ex_cache_mem 0x14 = Some 14" "touches ?p 0x14" "unat (0x14 :: Addr) - unat (paddr ?p) = 1" "pdata ?p ! 1 = 2"
    by code_simp+
  then have cs: "isCondSwap (preq ?p) \<longrightarrow> (psize ?p = 4 \<or> psize ?p = 8) \<and> getExtraData (preq ?p) = Inr 0" by simp
  from cache_swap_exact [OF ex_owned_store(1) ex_owned_one ex_owned_line(3,6) c(1-3) cs, of ex_cache_mem]
  show ?thesis using c(4) v by fastforce
qed

end
