(* ===== verification/Cache_Alloc.thy ===== *)
theory Cache_Alloc
  imports Cache_Base
begin

text \<open>
  Replacement in a cache: the packet an evicted block leaves in, as the memory receives it, and the whole of
  \<^verbatim>\<open>BaseCache::allocateBlock\<close> over the operations of \<^verbatim>\<open>Cache_Base\<close> and \<^verbatim>\<open>Cache_Tags\<close>, for any replacement
  policy that satisfies the interface \<^verbatim>\<open>replacement\<close>.
\<close>

section \<open>The packet of an evicted block\<close>

text \<open>The packet that leaves with a block: its command says what the receiver does with the data.\<close>

definition evict_cmd :: "CacheParams \<Rightarrow> 'd CacheBlk \<Rightarrow> Command" where
  "evict_cmd c b = (if blk_isDirty b then WritebackDirty else if writebackClean c then WritebackClean else CleanEvict)"

lemma request_phys_flags:
  assumes "blk_request mid now t b = Inr req"
  shows "req_flags req = (if blk_isSecure b then SECURE else 0)"
  using assms by (auto simp: blk_request_def Let_def setReqFlags_def Request_phys_def setPhys_def Request_default_def
      hasSize_def hasPaddr_def set_flags_def clear_flags_def isSet_def split: if_splits)

lemma evict_commands:
  "hasData WritebackDirty" "hasData WritebackClean" "\<not> hasData CleanEvict" "isWrite WritebackDirty" "\<not> isRead WritebackDirty"
  "isRequest WritebackDirty" "\<not> needsResponse WritebackDirty" "\<not> isLLSC WritebackDirty" "\<not> hasData (responseCommand CleanEvict)"
  by code_simp+

lemma writebackBlk_ok:
  assumes "tags_wf t" "one_copy t" "st < length (sets t)" "way < unat (assoc t)" "blk_isValid (sets t ! st ! way)"
    and "blk_isDirty (sets t ! st ! way) \<or> writebackClean c" "isReadOnly c \<longrightarrow> writebackClean c"
  shows "\<exists>p b'. writebackBlk c now junk (st, way) t = Inr (p, put_blk st way b' t) \<and> blk_alike (sets t ! st ! way) b' \<and>
    cb_data b' = cb_data (sets t ! st ! way) \<and> pcmd p = evict_cmd c (sets t ! st ! way) \<and> \<not> cacheResponding p \<and>
    \<not> isInstFetch (preq p) \<and>
    line_write t (regenerateBlkAddr t (sets t ! st ! way)) (cb_data (sets t ! st ! way)) (p\<lparr>pcmd := WriteReq\<rparr>)"
proof -
  let ?b = "sets t ! st ! way" let ?c = "if blk_isDirty ?b then WritebackDirty else WritebackClean"
  note al = held_line(1) [OF assms(1-5)]
  obtain req where req: "blk_request wbMasterId now t ?b = Inr req"
    "Packet_new req ?c = \<lparr>pcmd = ?c, pflags = VALID_ADDR OR VALID_SIZE, preq = req, pdata = [], paddr = regenerateBlkAddr t ?b,
      pIsSecure = blk_isSecure ?b, psize = blkSize t, bytesValid = [], senderState = []\<rparr>" using blk_request_packet by metis
  let ?p = "Packet_new req ?c"
  let ?p1 = "if blk_isWritable ?b then ?p else setHasSharers ?p"
  let ?b1 = "clear_status BlkDirty (if blk_isWritable ?b then clear_status BlkWritable ?b else ?b)"
  define q where "q = (set_pflags DYNAMIC_DATA ?p1)\<lparr>pdata := cb_data ?b\<rparr>"
  have pc: "pcmd (Packet_new req x) = x" for x by (simp add: Packet_new_def Let_def set_pflags_def)
  have len: "length (cb_data ?b) = unat (blkSize t)" using tags_wfD(2) [OF assms(1,3,4)] by (simp add: blk_ok_def)
  have hd: "hasData ?c" by (simp add: evict_commands)
  have "allocate junk ?p1 = Inr ((set_pflags DYNAMIC_DATA ?p1)\<lparr>pdata := replicate (unat (blkSize t)) junk\<rparr>)"
    using hd by (simp add: allocate_def req(2) noneSet_def getSize_def setHasSharers_def set_pflags_def set_flags_def isSet_def)
  moreover have "regenerateBlkAddr t ?b AND ucast (blkSize t - 1) = 0"
    by (subst al [symmetric]) (simp add: blkAlign_def and.assoc)
  then have "setDataFromBlock (cb_data ?b1) (blkSize t) ((set_pflags DYNAMIC_DATA ?p1)\<lparr>pdata := replicate (unat (blkSize t)) junk\<rparr>) = Inr q"
    using len by (simp add: q_def req(2) setDataFromBlock_def blkOffset_def getAddr_def setData_def getPtr_def getSize_def memcpy_whole
        setHasSharers_def set_pflags_def set_flags_def isSet_def)
  ultimately have gu: "give_up junk t (st, way) ?b ?p = Inr (q, put_blk st way ?b1 t)" by (simp add: give_up_def Let_def)
  have "writebackBlk c now junk (st, way) t = Inr (q, put_blk st way ?b1 t)"
    using findBlockBySetAndWay_in [OF assms(1,3,4)] assms(5-7) req(1) gu by (auto simp: writebackBlk_def)
  moreover have "blk_alike ?b ?b1" using assms(5) by (simp add: blk_alike_def status_bits)
  moreover have "pcmd q = evict_cmd c ?b" using assms(6)
    by (auto simp: q_def pc evict_cmd_def setHasSharers_def set_pflags_def)
  moreover have "\<not> cacheResponding q"
    by (simp add: q_def req(2) cacheResponding_def setHasSharers_def set_pflags_def set_flags_def isSet_def)
  moreover have "\<not> isInstFetch (preq q)" using request_phys_flags [OF req(1)]
    by (simp add: q_def req(2) isInstFetch_def setHasSharers_def set_pflags_def isSet_def)
  moreover have "line_write t (regenerateBlkAddr t ?b) (cb_data ?b) (q\<lparr>pcmd := WriteReq\<rparr>)"
    by (simp add: line_write_def q_def req(2) al setHasSharers_def set_pflags_def set_flags_def isSet_def)
  ultimately show ?thesis by auto
qed

text \<open>What the memory makes of it: a dirty block is written, the other two packets are ignored.\<close>

lemma access_evicted:
  assumes "tags_geom t" "mem_wf m" "pmem m = Some mem" "lockedAddrList m = []" "length d = unat (blkSize t)"
    and "line_write t a d (p\<lparr>pcmd := WriteReq\<rparr>)" "\<not> cacheResponding p" "\<not> isInstFetch (preq p)"
    and "pcmd p = WritebackDirty" "line_inside t m a"
  shows "\<exists>m' mem' r. access p m = Inr (m', r, []) \<and> mem_wf m' \<and> pmem m' = Some mem' \<and> am_range m' = am_range m \<and>
    lockedAddrList m' = [] \<and>
    byte_map m' = (\<lambda>x. if blkAlign t x = blkAlign t a then Some (d ! unat (extractBlkOffset t x)) else byte_map m x)"
proof -
  note f' = wb_fits [OF assms(1,10,5,6)]
  then have f: "fits m p" by (simp add: fits_def)
  have c: "paddr p = blkAlign t a" "psize p = blkSize t" "pdata p = d" using assms(6) by (simp_all add: line_write_def)
  note wc = write_commands [rule_format, of WritebackDirty]
  obtain m' where m': "access_write p m = Inr (m', p, [])" "am_range m' = am_range m"
    "pmem m' = Some (take (hostOffset m (paddr p)) mem @ pdata p @ drop (hostOffset m (paddr p) + unat (psize p)) mem)"
    "lockedAddrList m' = []"
    using writeData_fits [OF f assms(2,3)] fits_accessors [OF f] assms(3,4,8,9) evict_commands(8)
    by (simp add: access_write_def writeOK_def assertR_def Let_def)
  have "access p m = Inr (m', p, [])"
    using f assms(2,7,9) wc m'(1) evict_commands by (simp add: access_fits respond_def)
  moreover have "(if touches p x then Some (pdata p ! (unat x - unat (paddr p))) else byte_map m x) =
      (if blkAlign t x = blkAlign t a then Some (d ! unat (extractBlkOffset t x)) else byte_map m x)" for x
  proof (cases "blkAlign t x = blkAlign t a")
    case True
    have "unat x - unat (blkAlign t x) = unat (extractBlkOffset t x)"
      unfolding blkAlign_nat [OF assms(1)] offset_nat [OF assms(1)] by (simp add: minus_div_mult_eq_mod)
    then show ?thesis using True touches_line [OF assms(1) c(1,2)] c by simp
  qed (simp add: touches_line [OF assms(1) c(1,2)])
  ultimately show ?thesis
    using m' byte_map_write [OF f assms(2,3) m'(3,2)] by (simp add: fun_eq_iff)
qed

section \<open>Eviction\<close>

lemma cleanEvictBlk_ok:
  assumes "tags_wf t" "st < length (sets t)" "way < unat (assoc t)" "blk_isValid (sets t ! st ! way)"
    and "\<not> blk_isDirty (sets t ! st ! way)" "\<not> writebackClean c"
  shows "\<exists>p. cleanEvictBlk c now junk (st, way) t = Inr p \<and> pcmd p = CleanEvict \<and> \<not> cacheResponding p"
proof -
  obtain req where req: "blk_request wbMasterId now t (sets t ! st ! way) = Inr req"
    "Packet_new req CleanEvict = \<lparr>pcmd = CleanEvict, pflags = VALID_ADDR OR VALID_SIZE, preq = req, pdata = [],
      paddr = regenerateBlkAddr t (sets t ! st ! way), pIsSecure = blk_isSecure (sets t ! st ! way), psize = blkSize t,
      bytesValid = [], senderState = []\<rparr>" using blk_request_packet by metis
  then have "allocate junk (Packet_new req CleanEvict) = Inr (Packet_new req CleanEvict)"
    by (simp add: allocate_def hasRespData_def evict_commands)
  then show ?thesis using findBlockBySetAndWay_in [OF assms(1-3)] assms(4-6) req
    by (simp add: cleanEvictBlk_def cacheResponding_def isSet_def)
qed

text \<open>Invalidating a block touches this block and statistics only.\<close>

definition same_shape :: "'d Tags \<Rightarrow> 'd Tags \<Rightarrow> bool" where
  "same_shape t t' \<longleftrightarrow> blkSize t' = blkSize t \<and> assoc t' = assoc t \<and> maxMasters t' = maxMasters t \<and>
     length (sets t') = length (sets t) \<and> policy t' = policy t \<and> (\<forall>a. extractSet t' a = extractSet t a)"

lemma same_shape_refl: "same_shape t t"
  by (simp add: same_shape_def)

lemma same_shape_trans: "same_shape t t1 \<Longrightarrow> same_shape t1 t2 \<Longrightarrow> same_shape t t2"
  by (simp add: same_shape_def)

lemma put_blk_shape: "same_shape t (put_blk st way b t)"
  by (simp add: same_shape_def extractSet_def put_blk_def)

lemma invalidate_shape: "tags_invalidate (st, way) t = Inr t' \<Longrightarrow> same_shape t t'"
  by (auto simp: tags_invalidate_def bindR_eq_Inr assertR_eq_Inr same_shape_def extractSet_def put_blk_def)

lemma insert_shape: "insertBlock a is_secure src task loc now t = Inr t' \<Longrightarrow> same_shape t t'"
  by (auto simp: insertBlock_def bindR_eq_Inr assertR_eq_Inr same_shape_def extractSet_def put_blk_def)

definition evicted :: "'d Tags \<Rightarrow> AbstractMemory \<Rightarrow> Addr \<times> bool \<Rightarrow> nat \<times> nat \<Rightarrow> 'd Tags \<Rightarrow> AbstractMemory \<Rightarrow> bool" where
  "evicted t m k loc t' m' \<longleftrightarrow> tags_wf t' \<and> cmap t' = (cmap t)(k := None) \<and> \<not> blk_isValid (sets t' ! fst loc ! snd loc) \<and>
     (\<forall>x y. cb_data (sets t' ! x ! y) = cb_data (sets t ! x ! y)) \<and> same_shape t t' \<and>
     mem_wf m' \<and> (\<exists>mem. pmem m' = Some mem) \<and> lockedAddrList m' = [] \<and>
     byte_map m' = (\<lambda>x. if blkAlign t x = fst k then view t m x else byte_map m x)"

lemma evict_step:
  assumes "tags_wf t" "one_copy t" "mem_wf m" "pmem m = Some mem" "lockedAddrList m = []" "coherent t m"
    and "cmap t k = Some (st, way)" "isReadOnly c \<longrightarrow> writebackClean c"
  shows "\<exists>p t' m' r. evictBlock c now junk (st, way) t = Inr (p, t') \<and> access p m = Inr (m', r, []) \<and>
    pcmd p = evict_cmd c (sets t ! st ! way) \<and> evicted t m k (st, way) t' m'"
proof -
  let ?b = "sets t ! st ! way" let ?a = "regenerateBlkAddr t ?b"
  note g = tags_wf_geom [OF assms(1)]
  have pl: "st < length (sets t)" "way < unat (assoc t)" "blk_isValid ?b" "fst k = ?a"
    using cmap_Some [OF assms(1), of k st way] assms(7) by (simp_all add: held_def)
  note hl = held_line [OF assms(1,2) pl(1-3)]
  note fb = findBlockBySetAndWay_in [OF assms(1) pl(1,2)]
  have len: "length (cb_data ?b) = unat (blkSize t)" using tags_wfD(2) [OF assms(1) pl(1,2)] by (simp add: blk_ok_def)
  have here: "line_at t x = Some (st, way)" if "blkAlign t x = ?a" for x using hl(2) [of x] that by simp
  have vw: "view t m x = Some (cb_data ?b ! unat (extractBlkOffset t x))" if "blkAlign t x = ?a" for x
    using here [OF that] by (simp add: view_def)
  have la: "line_at t ?a = Some (st, way)" using here [OF hl(1)] .
  have clean: "byte_map m = (\<lambda>x. if blkAlign t x = fst k then view t m x else byte_map m x)" if "\<not> blk_isDirty ?b"
  proof
    fix x
    have "byte_map m x = view t m x" if "blkAlign t x = ?a"
      using assms(6) here [OF that] \<open>\<not> blk_isDirty ?b\<close> by (simp add: coherent_def line_dirty_def)
    then show "byte_map m x = (if blkAlign t x = fst k then view t m x else byte_map m x)" by (simp add: pl(4))
  qed
  show ?thesis
  proof (cases "blk_isDirty ?b \<or> writebackClean c")
    case True
    obtain p b' where p: "writebackBlk c now junk (st, way) t = Inr (p, put_blk st way b' t)" "blk_alike ?b b'" "cb_data b' = cb_data ?b"
      "pcmd p = evict_cmd c ?b" "\<not> cacheResponding p" "\<not> isInstFetch (preq p)" "line_write t ?a (cb_data ?b) (p\<lparr>pcmd := WriteReq\<rparr>)"
      using writebackBlk_ok [OF assms(1,2) pl(1-3) True assms(8)] by blast
    let ?t = "put_blk st way b' t"
    note al = put_blk_alike [OF assms(1) pl(1,2) p(2)]
    have l: "way < length (sets t ! st)" using tags_wfD(1) [OF assms(1) pl(1)] pl(2) by simp
    have dat: "cb_data (sets ?t ! x ! y) = cb_data (sets t ! x ! y)" for x y by (simp add: put_blk_nth(1) [OF pl(1) l] p(3))
    have "cmap ?t k = Some (st, way)" using assms(7) al(2) by simp
    from invalidate_step [OF al(1) this] obtain t' where t': "tags_invalidate (st, way) ?t = Inr t'" "tags_wf t'"
      "cmap t' = (cmap ?t)(k := None)" "\<not> blk_isValid (sets t' ! st ! way)" "\<forall>x y. cb_data (sets t' ! x ! y) = cb_data (sets ?t ! x ! y)"
      by blast
    have ev: "evictBlock c now junk (st, way) t = Inr (p, t')" using fb True p(1) t'(1) by (simp add: evictBlock_def)
    have sh: "same_shape t t'" using same_shape_trans [OF put_blk_shape invalidate_shape [OF t'(1)]] .
    show ?thesis
    proof (cases "blk_isDirty ?b")
      case True
      have li: "line_inside t m ?a" using assms(6) la True by (auto simp: coherent_def line_dirty_def)
      have "pcmd p = WritebackDirty" using p(4) True by (simp add: evict_cmd_def)
      from access_evicted [OF g assms(3-5) len p(7,5,6) this li] obtain m' mem' r where
        m': "access p m = Inr (m', r, [])" "mem_wf m'" "pmem m' = Some mem'" "lockedAddrList m' = []"
        "byte_map m' = (\<lambda>x. if blkAlign t x = blkAlign t ?a then Some (cb_data ?b ! unat (extractBlkOffset t x)) else byte_map m x)"
        by blast
      have "byte_map m' = (\<lambda>x. if blkAlign t x = fst k then view t m x else byte_map m x)"
        by (rule ext) (simp add: m'(5) hl(1) pl(4) vw)
      then show ?thesis using ev m'(1-4) p(4) t'(2-5) al(2) dat sh by (auto simp: evicted_def)
    next
      case False
      then have "pcmd p = WritebackClean" using p(4) \<open>blk_isDirty ?b \<or> writebackClean c\<close> by (simp add: evict_cmd_def)
      then have "access p m = Inr (m, p, [])" using p(5) by (simp add: access_def)
      then show ?thesis using ev p(4) t'(2-5) al(2) dat sh clean [OF False] assms(3-5) by (auto simp: evicted_def)
    qed
  next
    case False
    obtain p where p: "cleanEvictBlk c now junk (st, way) t = Inr p" "pcmd p = CleanEvict" "\<not> cacheResponding p"
      using cleanEvictBlk_ok [OF assms(1) pl(1-3)] False by blast
    from invalidate_step [OF assms(1,7)] obtain t' where t': "tags_invalidate (st, way) t = Inr t'" "tags_wf t'"
      "cmap t' = (cmap t)(k := None)" "\<not> blk_isValid (sets t' ! st ! way)" "\<forall>x y. cb_data (sets t' ! x ! y) = cb_data (sets t ! x ! y)"
      by blast
    have "evictBlock c now junk (st, way) t = Inr (p, t')" using fb False p(1) t'(1) by (simp add: evictBlock_def)
    moreover have "access p m = Inr (m, p, [])" using p(2,3) by (simp add: access_def)
    ultimately show ?thesis using p(2) t'(2-5) invalidate_shape [OF t'(1)] clean False assms(3-5)
      by (auto simp: evicted_def evict_cmd_def)
  qed
qed

text \<open>Where a line is depends on its two keys only.\<close>

lemma line_at_keys:
  assumes "\<forall>b. cmap t' (blkAlign t x, b) = cmap t (blkAlign t x, b)" "blkSize t' = blkSize t"
  shows "line_at t' x = line_at t x"
  unfolding line_at_def blkAlign_cong [OF assms(2)] spec [OF assms(1), of True] spec [OF assms(1), of False] by (rule refl)

text \<open>Handing a block to the memory changes nothing the processor sees.\<close>

lemma evicted_view:
  assumes "tags_wf t" "one_copy t" "cmap t k = Some (st, way)" "evicted t m k (st, way) t' m'"
  shows "view t' m' = view t m" "one_copy t'"
proof -
  have e: "cmap t' = (cmap t)(k := None)" "\<forall>x y. cb_data (sets t' ! x ! y) = cb_data (sets t ! x ! y)" "blkSize t' = blkSize t"
    "byte_map m' = (\<lambda>x. if blkAlign t x = fst k then view t m x else byte_map m x)"
    using assms(4) unfolding evicted_def same_shape_def by blast+
  have oc: "cmap t (a, True) = None \<or> cmap t (a, False) = None" for a using assms(2) unfolding one_copy_def by (rule spec)
  have off: "extractBlkOffset t' x = extractBlkOffset t x" for x by (simp add: extractBlkOffset_def e(3))
  have "view t' m' x = view t m x" for x
  proof (cases "blkAlign t x = fst k")
    case True
    have "((cmap t)(k := None)) (fst k, b) = None" for b
      using oc [of "fst k"] assms(3) by (cases k; cases b; cases "snd k") simp_all
    then have "line_at t' x = None" unfolding line_at_None e(1) blkAlign_cong [OF e(3)] True by blast
    then show ?thesis using True by (simp add: view_def [of t'] e(4))
  next
    case False
    have "line_at t' x = line_at t x" using False e(1) by (intro line_at_keys [OF _ e(3)]) (cases k, simp)
    moreover have "byte_map m' x = byte_map m x" using False by (simp add: e(4))
    ultimately show ?thesis using e(2) by (simp add: view_def off split: option.split)
  qed
  then show "view t' m' = view t m" by blast
  show "one_copy t'" unfolding one_copy_def e(1)
  proof
    fix a show "((cmap t)(k := None)) (a, True) = None \<or> ((cmap t)(k := None)) (a, False) = None" using oc [of a] by auto
  qed
qed

section \<open>Allocation\<close>

fun access_all :: "Packet list \<Rightarrow> AbstractMemory \<Rightarrow> AbstractMemory res" where
  "access_all [] m = ok m"
| "access_all (p # ps) m = bindR (access p m) (\<lambda>(m', _, _). access_all ps m')"

text \<open>Stores that differ in replacement data only show the same.\<close>

lemma same_blocks_view:
  assumes "tags_wf t" "cmap t' = cmap t" "blkSize t' = blkSize t"
    and "\<forall>x y. x < length (sets t) \<longrightarrow> y < unat (assoc t) \<longrightarrow> blk_same (sets t ! x ! y) (sets t' ! x ! y)"
  shows "view t' m = view t m" "coherent t' m = coherent t m"
proof -
  have lat: "line_at t' = line_at t" by (rule line_at_cong [OF assms(2,3)])
  have b: "blk_same (sets t ! s ! w) (sets t' ! s ! w)" if "line_at t x = Some (s, w)" for x s w
    using line_at_place(1,2) [OF assms(1) that] assms(4) by blast
  have "view t' m x = view t m x" for x
    using b [of x] by (auto simp: view_def lat extractBlkOffset_def assms(3) blk_same_def split: option.split)
  then show v: "view t' m = view t m" by blast
  have "line_dirty t' x = line_dirty t x" for x
    using b [of x] by (auto simp: line_dirty_def lat blk_same_def blk_isDirty_def split: option.split)
  then show "coherent t' m = coherent t m"
    by (simp add: coherent_def lat v line_inside_def assms(3) blkAlign_cong [OF assms(3)])
qed

text \<open>C8: Allocating a block for a line the cache does not hold, with no miss in flight for the victim: the block of the
  line is at the victim's place, the line that was there is gone from the cache, every other line is
  where it was, and once the memory has received the packet of the victim, every byte the processor saw is
  still there: in the memory for the new line, whose block waits to be filled, and as before for every other.\<close>
theorem allocate_keeps_view:
  assumes "tags_wf t" "one_copy t" "mem_wf m" "pmem m = Some mem" "lockedAddrList m = []" "coherent t m"
    and "replacement (pol_getVictim (policy t))" "isReadOnly c \<longrightarrow> writebackClean c" "\<forall>a s. mshrs a s = None"
    and "getAddr pkt = Inr a" "pkt_isSecure pkt = Inr sec" "line_at t a = None" "uint (req_masterId (preq pkt)) < maxMasters t"
  shows "\<exists>v ps t' m'. allocateBlock c mshrs now junk task pkt t = Inr (Some (unat (extractSet t a), v), ps, t') \<and>
    access_all ps m = Inr m' \<and> v < unat (assoc t) \<and> tags_wf t' \<and> one_copy t' \<and>
    cmap t' = (\<lambda>k. if k = (blkAlign t a, sec) then Some (unat (extractSet t a), v)
      else if cmap t k = Some (unat (extractSet t a), v) then None else cmap t k) \<and>
    (\<forall>x. view t m x = (if blkAlign t x = blkAlign t a then byte_map m' x else view t' m' x))"
proof -
  let ?s = "unat (extractSet t a)" let ?new = "(blkAlign t a, sec)"
  obtain v t1 where f: "findVictim t a = Inr ((?s, v), t1)" "v < unat (assoc t)" "tags_wf t1" "cmap t1 = cmap t"
    "\<forall>x y. x < length (sets t) \<longrightarrow> y < unat (assoc t) \<longrightarrow> blk_same (sets t ! x ! y) (sets t1 ! x ! y)"
    "\<exists>ss. t1 = t\<lparr>sets := ss\<rparr> \<and> length ss = length (sets t)"
    using replacement.findVictim_ok [OF assms(7) refl assms(1)] by blast
  have sh1: "same_shape t t1" using f(6) by (auto simp: same_shape_def extractSet_def)
  then have bs1: "blkSize t1 = blkSize t" by (simp add: same_shape_def)
  note sb = same_blocks_view [OF assms(1) f(4) bs1 f(5)]
  have oc1: "one_copy t1" using assms(2) one_copy_cong [OF f(4)] by simp
  have co1: "coherent t1 m" using sb(2) assms(6) by simp
  have s1: "?s < length (sets t1)" "v < unat (assoc t1)"
    using extractSet_less [OF tags_wf_geom [OF assms(1)]] f(2) sh1 by (simp_all add: same_shape_def)
  let ?b = "sets t1 ! ?s ! v"
  note fb = findBlockBySetAndWay_in [OF f(3) s1]
  have key: "cmap t k = Some (?s, v) \<longleftrightarrow> blk_isValid ?b \<and> k = (regenerateBlkAddr t1 ?b, blk_isSecure ?b)" for k
    using cmap_Some [OF f(3), of k ?s v] s1 f(4) by (cases k) (auto simp: held_def)
  have fresh: "cmap t (blkAlign t a, x) = None" for x
    using assms(12) by (cases x) (simp_all add: line_at_None)
  have tr: "victim_in_transit mshrs t1 ?b = Inr False" by (simp add: victim_in_transit_def assms(9))
  obtain ps t2 m' where ev: "(if blk_isValid ?b then bindR (evictBlock c now junk (?s, v) t1) (\<lambda>(p, t2). ok ([p], t2)) else ok ([], t1)) = Inr (ps, t2)"
    "access_all ps m = Inr m'" "tags_wf t2" "cmap t2 = (\<lambda>k. if cmap t k = Some (?s, v) then None else cmap t k)"
    "\<not> blk_isValid (sets t2 ! ?s ! v)" "same_shape t t2" "view t2 m' = view t m" "one_copy t2"
  proof (cases "blk_isValid ?b")
    case False
    then have "cmap t k \<noteq> Some (?s, v)" for k using key [of k] by blast
    then show ?thesis using that [of "[]" t1 m] False f(3,4) sh1 sb(1) oc1 by (simp add: fun_eq_iff)
  next
    case True
    let ?k = "(regenerateBlkAddr t1 ?b, blk_isSecure ?b)"
    have k: "cmap t1 ?k = Some (?s, v)" using key [of ?k] True f(4) by simp
    obtain p t2 m' r where e: "evictBlock c now junk (?s, v) t1 = Inr (p, t2)" "access p m = Inr (m', r, [])" "evicted t1 m ?k (?s, v) t2 m'"
      using evict_step [OF f(3) oc1 assms(3-5) co1 k assms(8)] by blast
    have c: "cmap t2 = (\<lambda>k. if cmap t k = Some (?s, v) then None else cmap t k)"
      using e(3) key True f(4) by (auto simp: evicted_def fun_eq_iff)
    show ?thesis
      by (rule that [of "[p]" t2 m'])
        (use True e c evicted_view [OF f(3) oc1 k e(3)] sb(1) same_shape_trans [OF sh1] in \<open>simp_all add: evicted_def\<close>)
  qed
  have g2: "extractSet t2 a = extractSet t a" "blkAlign t2 x = blkAlign t x" "assoc t2 = assoc t" "maxMasters t2 = maxMasters t" for x
    using ev(6) by (simp_all add: same_shape_def blkAlign_def)
  have h: "v < unat (assoc t2)" "\<not> blk_isValid (sets t2 ! unat (extractSet t2 a) ! v)" "cmap t2 (blkAlign t2 a, sec) = None"
    "uint (req_masterId (preq pkt)) < maxMasters t2"
    using f(2) ev(5) fresh [of sec] assms(13) by (simp_all add: g2 ev(4))
  from insertBlock_step [OF ev(3) h, of task now] obtain t' where t': "insertBlock a sec (uint (req_masterId (preq pkt))) task (?s, v) now t2 = Inr t'"
    "tags_wf t'" "cmap t' = (cmap t2)(?new \<mapsto> (?s, v))" "\<forall>x y. cb_data (sets t' ! x ! y) = cb_data (sets t2 ! x ! y)"
    unfolding g2 by blast
  have al: "allocateBlock c mshrs now junk task pkt t = Inr (Some (?s, v), ps, t')"
    using assms(10,11) f(1) fb tr ev(1) t'(1) by (simp add: allocateBlock_def)
  have cm: "cmap t' = (\<lambda>k. if k = ?new then Some (?s, v) else if cmap t k = Some (?s, v) then None else cmap t k)"
    by (rule ext) (simp add: t'(3) ev(4))
  have bs: "blkSize t2 = blkSize t" "blkSize t' = blkSize t" using insert_shape [OF t'(1)] ev(6) by (simp_all add: same_shape_def)
  have "view t m x = (if blkAlign t x = blkAlign t a then byte_map m' x else view t' m' x)" for x
  proof (cases "blkAlign t x = blkAlign t a")
    case True
    have "line_at t2 x = None" unfolding line_at_None ev(4) blkAlign_cong [OF bs(1)] True by (simp add: fresh)
    then have "view t2 m' x = byte_map m' x" by (simp add: view_def)
    then show ?thesis using True fun_cong [OF ev(7), of x] by simp
  next
    case False
    then have "line_at t' x = line_at t2 x" using t'(3) bs by (intro line_at_keys) (simp_all add: blkAlign_cong [OF bs(1)])
    then have "view t' m' x = view t2 m' x" using t'(4) by (simp add: view_def extractBlkOffset_def bs split: option.split)
    then show ?thesis using False ev(7) by simp
  qed
  moreover have "one_copy t'"
    unfolding one_copy_def
  proof
    fix y
    have o: "cmap t2 (y, True) = None \<or> cmap t2 (y, False) = None" using ev(8) unfolding one_copy_def by (rule spec)
    have n: "cmap t2 (blkAlign t a, z) = None" for z by (simp add: ev(4) fresh)
    show "cmap t' (y, True) = None \<or> cmap t' (y, False) = None"
      using o n by (cases "y = blkAlign t a"; cases sec) (simp_all add: t'(3))
  qed
  ultimately show ?thesis using al ev(2) f(2) t'(2) cm by blast
qed

section \<open>An example\<close>

text \<open>A read of 0x53, whose line belongs to the set of the dirty line of the example.\<close>

definition ex_fill :: Packet where
  "ex_fill = Packet_new (Request_phys 0x53 2 0 1 0) ReadReq"

lemma Tags_new_policy: "Tags_new pol n bs ways seq lat mm = Inr t \<Longrightarrow> policy t = pol"
  by (auto simp: Tags_new_def Let_def bindR_eq_Inr assertR_eq_Inr split: if_splits)

lemma ex_policy: "policy ex_owned = LRU_policy"
proof -
  have "policy ex_tags = LRU_policy" by (rule Tags_new_policy [OF ex_tags_new])
  then have "policy ex_filled = LRU_policy" using insert_shape [OF ex_filled_new] by (simp add: same_shape_def)
  then show ?thesis using put_blk_shape by (simp add: ex_owned_def put_blk_def)
qed

theorem allocate_keeps_view_witness:
  "\<exists>v ps t' m'. allocateBlock \<lparr>isReadOnly = False, writebackClean = False\<rparr> (\<lambda>_ _. None) 9 0 0 ex_fill ex_owned = Inr (Some (2, v), ps, t') \<and>
    access_all ps ex_cache_mem = Inr m' \<and> cmap t' (0x50, False) = Some (2, v)"
proof -
  have h: "getAddr ex_fill = Inr 0x53" "pkt_isSecure ex_fill = Inr False" "line_at ex_owned 0x53 = None"
    "uint (req_masterId (preq ex_fill)) < maxMasters ex_owned" "lockedAddrList ex_cache_mem = []"
    "unat (extractSet ex_owned 0x53) = 2" "blkAlign ex_owned 0x53 = 0x50" by code_simp+
  have r: "replacement (pol_getVictim (policy ex_owned))"
    by (simp add: ex_policy LRU_policy_def lru.replacement_axioms)
  let ?c = "\<lparr>isReadOnly = False, writebackClean = False\<rparr>" let ?m = "\<lambda>(_::Addr) (_::bool). None :: (bool \<times> bool) option"
  have c: "isReadOnly ?c \<longrightarrow> writebackClean ?c" "\<forall>a s. ?m a s = None" by simp_all
  obtain v ps t' m' where w: "allocateBlock ?c ?m 9 0 0 ex_fill ex_owned = Inr (Some (2, v), ps, t')" "access_all ps ex_cache_mem = Inr m'"
    "cmap t' = (\<lambda>k. if k = (0x50, False) then Some (2, v) else if cmap ex_owned k = Some (2, v) then None else cmap ex_owned k)"
    using allocate_keeps_view [OF ex_owned_store(1) ex_owned_one ex_cache_mem_ok(1,2) h(5) ex_owned_coherent r c h(1-4), of 9 0 0]
    unfolding h(6,7) by blast
  have "cmap t' (0x50, False) = Some (2, v)" unfolding w(3) by simp
  then show ?thesis using w(1,2) by blast
qed

end
