(* ===== verification/Sim_Drain.thy ===== *)
theory Sim_Drain
  imports PIM_Prelude
begin

text \<open>
  Draining the simulator before a checkpoint, from \<^verbatim>\<open>src/sim/drain.cc\<close>: the manager asks every object to drain,
  counts those that need more time, is told by each when it is done, and resumes them all. What an
  object does is a parameter: \<open>drain\<close> answers with the object's new state, \<open>resume\<close> with the object resumed.
\<close>

section \<open>The manager\<close>

datatype DrainState = DrainRunning | Draining | Drained | Resuming

record 'o Drainable =
  drainState :: DrainState
  drainObj :: 'o

record 'o DrainManager =
  dm_count :: u32
  dm_state :: DrainState
  allDrainable :: "'o Drainable list"

definition DrainManager_new :: "'o DrainManager" where
  "DrainManager_new = \<lparr>dm_count = 0, dm_state = DrainRunning, allDrainable = []\<rparr>"

text \<open>An object registers when it is constructed and takes the state of the manager.\<close>

definition Drainable_new :: "'o \<Rightarrow> 'o DrainManager \<Rightarrow> 'o DrainManager" where
  "Drainable_new x m = m\<lparr>allDrainable := allDrainable m @ [\<lparr>drainState = dm_state m, drainObj = x\<rparr>]\<rparr>"

definition Drainable_delete :: "nat \<Rightarrow> 'o DrainManager \<Rightarrow> 'o DrainManager res" where
  "Drainable_delete i m = assertR (i < length (allDrainable m))
     (ok (m\<lparr>allDrainable := take i (allDrainable m) @ drop (Suc i) (allDrainable m)\<rparr>))"

definition dmDrain :: "('o \<Rightarrow> DrainState \<times> 'o) \<Rightarrow> 'o Drainable \<Rightarrow> 'o Drainable res" where
  "dmDrain drain d = (let (s, x) = drain (drainObj d) in
     assertR (s = Draining \<or> s = Drained) (ok \<lparr>drainState = s, drainObj = x\<rparr>))"

definition dmDrainResume :: "('o \<Rightarrow> 'o) \<Rightarrow> 'o Drainable \<Rightarrow> 'o Drainable res" where
  "dmDrainResume resume d =
     (if drainState d \<noteq> Drained \<and> drainState d \<noteq> Resuming then fail Panicked
      else ok \<lparr>drainState = DrainRunning, drainObj = resume (drainObj d)\<rparr>)"

fun drain_all :: "('o \<Rightarrow> DrainState \<times> 'o) \<Rightarrow> 'o Drainable list \<Rightarrow> u32 \<Rightarrow> ('o Drainable list \<times> u32) res" where
  "drain_all drain [] n = ok ([], n)"
| "drain_all drain (d # ds) n =
     bindR (dmDrain drain d) (\<lambda>d'.
     bindR (drain_all drain ds (n + (if drainState d' = Drained then 0 else 1))) (\<lambda>(ds', n'). ok (d' # ds', n')))"

definition tryDrain :: "('o \<Rightarrow> DrainState \<times> 'o) \<Rightarrow> 'o DrainManager \<Rightarrow> (bool \<times> 'o DrainManager) res" where
  "tryDrain drain m =
     (if dm_state m = Drained then fail Panicked
      else if dm_count m \<noteq> 0 then fail Panicked
      else bindR (drain_all drain (allDrainable m) (dm_count m)) (\<lambda>(ds, n).
        if n = 0 then ok (True, m\<lparr>allDrainable := ds, dm_count := n, dm_state := Drained\<rparr>)
        else ok (False, m\<lparr>allDrainable := ds, dm_count := n, dm_state := Draining\<rparr>)))"

text \<open>The answer is whether the simulation loop exits, all objects being done.\<close>

definition dm_signalDrainDone :: "'o DrainManager \<Rightarrow> (bool \<times> 'o DrainManager) res" where
  "dm_signalDrainDone m = assertR (dm_count m > 0) (ok (dm_count m - 1 = 0, m\<lparr>dm_count := dm_count m - 1\<rparr>))"

definition signalDrainDone :: "nat \<Rightarrow> 'o DrainManager \<Rightarrow> (bool \<times> 'o DrainManager) res" where
  "signalDrainDone i m =
     bindR (vec_at (allDrainable m) i) (\<lambda>d.
     if drainState d = Draining
     then dm_signalDrainDone (m\<lparr>allDrainable := (allDrainable m)[i := d\<lparr>drainState := Drained\<rparr>]\<rparr>)
     else ok (False, m))"

fun resume_all :: "('o \<Rightarrow> 'o) \<Rightarrow> 'o Drainable list \<Rightarrow> 'o Drainable list res" where
  "resume_all resume [] = ok []"
| "resume_all resume (d # ds) =
     bindR (if drainState d \<noteq> DrainRunning
            then assertR (drainState d = Drained \<or> drainState d = Resuming) (dmDrainResume resume d) else ok d) (\<lambda>d'.
     bindR (resume_all resume ds) (\<lambda>ds'. ok (d' # ds')))"

definition allInState :: "DrainState \<Rightarrow> 'o Drainable list \<Rightarrow> bool" where
  "allInState s ds \<longleftrightarrow> list_all (\<lambda>d. drainState d = s) ds"

text \<open>The loop runs until every object is running; objects created on the way are not modelled.\<close>

lemma resume_all_running: "resume_all resume ds = Inr ds' \<Longrightarrow> allInState DrainRunning ds'"
  by (induction ds arbitrary: ds')
    (auto simp: allInState_def dmDrainResume_def bindR_eq_Inr assertR_eq_Inr split: if_splits)

lemma resume_all_again: "allInState DrainRunning ds \<Longrightarrow> resume_all resume ds = Inr ds"
  by (induction ds) (auto simp: allInState_def)

function resume_loop :: "('o \<Rightarrow> 'o) \<Rightarrow> 'o Drainable list \<Rightarrow> 'o Drainable list res" where
  "resume_loop resume ds =
     (case resume_all resume ds of
        Inl e \<Rightarrow> Inl e
      | Inr ds' \<Rightarrow> if \<not> allInState DrainRunning ds' then resume_loop resume ds' else ok ds')"
  by pat_completeness auto
termination
  by (relation "measure (\<lambda>(_, ds). if allInState DrainRunning ds then 0 else 1)")
    (auto dest: resume_all_running)

definition resumeDrain :: "('o \<Rightarrow> 'o) \<Rightarrow> 'o DrainManager \<Rightarrow> 'o DrainManager res" where
  "resumeDrain resume m =
     (if dm_state m = DrainRunning then fail Panicked
      else if dm_state m = Resuming then fail Panicked
      else if dm_count m \<noteq> 0 then fail Panicked
      else bindR (resume_loop resume (allDrainable m)) (\<lambda>ds. ok (m\<lparr>allDrainable := ds, dm_state := DrainRunning\<rparr>)))"

definition preCheckpointRestore :: "'o DrainManager \<Rightarrow> 'o DrainManager res" where
  "preCheckpointRestore m =
     (if dm_state m \<noteq> DrainRunning then fail Panicked
      else ok (m\<lparr>dm_state := Drained, allDrainable := map (\<lambda>d. d\<lparr>drainState := Drained\<rparr>) (allDrainable m)\<rparr>))"

section \<open>The count of a drain cycle\<close>

text \<open>While a cycle is under way the count is the number of objects that are still draining.\<close>

definition undrained :: "'o DrainManager \<Rightarrow> nat" where
  "undrained m = length (filter (\<lambda>d. drainState d = Draining) (allDrainable m))"

definition cycle_ok :: "'o DrainManager \<Rightarrow> bool" where
  "cycle_ok m \<longleftrightarrow> unat (dm_count m) = undrained m \<and> list_all (\<lambda>d. drainState d = Draining \<or> drainState d = Drained) (allDrainable m) \<and>
     (if undrained m = 0 then dm_state m \<in> {Draining, Drained} else dm_state m = Draining)"

definition drain_ok :: "('o \<Rightarrow> DrainState \<times> 'o) \<Rightarrow> bool" where
  "drain_ok drain \<longleftrightarrow> (\<forall>x. fst (drain x) = Draining \<or> fst (drain x) = Drained)"

lemma drain_all_count:
  assumes "drain_ok drain" "unat n + length ds < 2 ^ 32"
  shows "\<exists>ds' n'. drain_all drain ds n = Inr (ds', n') \<and> length ds' = length ds \<and>
    unat n' = unat n + length (filter (\<lambda>d. drainState d = Draining) ds') \<and>
    list_all (\<lambda>d. drainState d = Draining \<or> drainState d = Drained) ds' \<and>
    map drainObj ds' = map (\<lambda>d. snd (drain (drainObj d))) ds \<and> map drainState ds' = map (\<lambda>d. fst (drain (drainObj d))) ds"
  using assms(2)
proof (induction ds arbitrary: n)
  case (Cons d ds)
  obtain s x where d: "drain (drainObj d) = (s, x)" by (cases "drain (drainObj d)")
  then have s: "s = Draining \<or> s = Drained" using assms(1) by (metis drain_ok_def fst_conv)
  let ?n = "n + (if s = Drained then 0 else 1)"
  have u: "unat ?n = unat n + (if s = Drained then 0 else 1)"
    using Cons.prems by (simp add: unat_add_lem [THEN iffD1])
  have "unat ?n + length ds < 2 ^ 32" using Cons.prems u by simp
  from Cons.IH [OF this] obtain ds' n' where "drain_all drain ds ?n = Inr (ds', n')" "length ds' = length ds"
    "unat n' = unat ?n + length (filter (\<lambda>d. drainState d = Draining) ds')"
    "list_all (\<lambda>d. drainState d = Draining \<or> drainState d = Drained) ds'"
    "map drainObj ds' = map (\<lambda>d. snd (drain (drainObj d))) ds" "map drainState ds' = map (\<lambda>d. fst (drain (drainObj d))) ds" by blast
  then show ?case using d s u by (auto simp: dmDrain_def)
qed simp

text \<open>Asking the system to drain calls every object once; the answer is yes exactly if all are drained, and the count
  is the number of those that need more time.\<close>
theorem tryDrain_counts:
  assumes "dm_state m \<noteq> Drained" "dm_count m = 0" "drain_ok drain" "length (allDrainable m) < 2 ^ 32"
  shows "\<exists>b m'. tryDrain drain m = Inr (b, m') \<and> cycle_ok m' \<and> b = allInState Drained (allDrainable m') \<and>
    dm_state m' = (if b then Drained else Draining) \<and>
    allDrainable m' = map (\<lambda>d. \<lparr>drainState = fst (drain (drainObj d)), drainObj = snd (drain (drainObj d))\<rparr>) (allDrainable m)"
proof -
  have "unat (dm_count m) + length (allDrainable m) < 2 ^ 32" using assms(2,4) by simp
  from drain_all_count [OF assms(3) this] obtain ds n where d: "drain_all drain (allDrainable m) (dm_count m) = Inr (ds, n)"
    "length ds = length (allDrainable m)" "unat n = length (filter (\<lambda>d. drainState d = Draining) ds)"
    "list_all (\<lambda>d. drainState d = Draining \<or> drainState d = Drained) ds"
    "map drainObj ds = map (\<lambda>d. snd (drain (drainObj d))) (allDrainable m)"
    "map drainState ds = map (\<lambda>d. fst (drain (drainObj d))) (allDrainable m)" using assms(2) by auto
  have ds: "ds = map (\<lambda>d. \<lparr>drainState = fst (drain (drainObj d)), drainObj = snd (drain (drainObj d))\<rparr>) (allDrainable m)"
  proof (rule nth_equalityI)
    fix i assume i: "i < length ds"
    then have "drainState (ds ! i) = fst (drain (drainObj (allDrainable m ! i)))" "drainObj (ds ! i) = snd (drain (drainObj (allDrainable m ! i)))"
      using arg_cong [OF d(6), of "\<lambda>l. l ! i"] arg_cong [OF d(5), of "\<lambda>l. l ! i"] d(2) by simp_all
    then show "ds ! i = map (\<lambda>d. \<lparr>drainState = fst (drain (drainObj d)), drainObj = snd (drain (drainObj d))\<rparr>) (allDrainable m) ! i"
      using i d(2) by simp
  qed (simp add: d(2))
  have z: "n = 0 \<longleftrightarrow> allInState Drained ds"
  proof -
    have "n = 0 \<longleftrightarrow> (\<forall>d \<in> set ds. drainState d \<noteq> Draining)" using d(3) by (simp add: unat_eq_0 [symmetric] filter_empty_conv)
    also have "\<dots> \<longleftrightarrow> allInState Drained ds" using d(4) by (auto simp: allInState_def list_all_iff)
    finally show ?thesis .
  qed
  define m' where "m' = m\<lparr>allDrainable := ds, dm_count := n, dm_state := if n = 0 then Drained else Draining\<rparr>"
  have "tryDrain drain m = Inr (n = 0, m')" using assms(1,2) d(1) by (simp add: tryDrain_def m'_def)
  moreover have "cycle_ok m'" using d(3,4) by (auto simp: cycle_ok_def undrained_def m'_def unat_eq_0)
  ultimately show ?thesis using z ds by (auto simp: m'_def)
qed

lemma filter_update_count:
  assumes "i < length xs" "P (xs ! i)" "\<not> P y"
  shows "Suc (length (filter P (xs[i := y]))) = length (filter P xs)"
  using assms
proof (induction xs arbitrary: i)
  case (Cons x xs)
  then show ?case by (cases i) auto
qed simp

lemma signal_step:
  assumes "cycle_ok m" "i < length (allDrainable m)"
  shows "\<exists>e m'. signalDrainDone i m = Inr (e, m') \<and> cycle_ok m' \<and> length (allDrainable m') = length (allDrainable m) \<and>
    drainState (allDrainable m' ! i) = Drained \<and> (e \<longleftrightarrow> 0 < undrained m \<and> undrained m' = 0) \<and> undrained m' \<le> undrained m \<and>
    (\<forall>j < length (allDrainable m). drainState (allDrainable m ! j) = Drained \<longrightarrow> drainState (allDrainable m' ! j) = Drained)"
proof (cases "drainState (allDrainable m ! i) = Draining")
  case True
  define ds where "ds = (allDrainable m)[i := (allDrainable m ! i)\<lparr>drainState := Drained\<rparr>]"
  define m' where "m' = m\<lparr>allDrainable := ds, dm_count := dm_count m - 1\<rparr>"
  have c: "Suc (length (filter (\<lambda>d. drainState d = Draining) ds)) = undrained m"
    unfolding ds_def undrained_def using filter_update_count [OF assms(2), of "\<lambda>d. drainState d = Draining"] True by simp
  then have pos: "0 < dm_count m" using assms(1) by (auto simp: cycle_ok_def word_greater_zero_iff unat_eq_0 [symmetric])
  then have u: "unat (dm_count m - 1) = undrained m'"
    using c assms(1) unat_minus_one [of "dm_count m"] by (auto simp: cycle_ok_def m'_def undrained_def)
  have "signalDrainDone i m = Inr (dm_count m - 1 = 0, m')"
    using assms(2) True pos by (simp add: signalDrainDone_def dm_signalDrainDone_def vec_at_def m'_def ds_def)
  moreover have l: "list_all (\<lambda>d. drainState d = Draining \<or> drainState d = Drained) ds"
    using assms(1) by (auto simp: cycle_ok_def ds_def list_all_iff dest!: set_update_subset_insert [THEN subsetD])
  have "dm_state m = Draining" using assms(1) c by (simp add: cycle_ok_def split: if_splits)
  with l u have "cycle_ok m'" by (auto simp: cycle_ok_def m'_def undrained_def)
  moreover have "dm_count m - 1 = 0 \<longleftrightarrow> undrained m' = 0" using u by (simp add: unat_eq_0 [symmetric])
  moreover have "undrained m' \<le> undrained m" using c by (simp add: m'_def undrained_def)
  moreover have "0 < undrained m" using c by linarith
  moreover have "drainState (allDrainable m' ! j) = Drained" if "drainState (allDrainable m ! j) = Drained" "j < length (allDrainable m)" for j
    using that by (cases "j = i") (simp_all add: m'_def ds_def)
  ultimately show ?thesis using assms(2) by (auto simp: m'_def ds_def)
next
  case False
  then have "drainState (allDrainable m ! i) = Drained" using assms by (auto simp: cycle_ok_def list_all_length)
  moreover have "signalDrainDone i m = Inr (False, m)" using assms(2) False by (simp add: signalDrainDone_def vec_at_def)
  ultimately show ?thesis using assms(1) by auto
qed

fun signal_all :: "nat list \<Rightarrow> 'o DrainManager \<Rightarrow> (bool list \<times> 'o DrainManager) res" where
  "signal_all [] m = ok ([], m)"
| "signal_all (i # is) m =
     bindR (signalDrainDone i m) (\<lambda>(e, m'). bindR (signal_all is m') (\<lambda>(es, m''). ok (e # es, m'')))"

text \<open>However the objects report, in any order and more than once, the count never goes below zero, and the
  simulation loop is left exactly once, when the last object that was still draining reports.\<close>
theorem signals_count_down:
  assumes "cycle_ok m" "\<forall>i \<in> set is. i < length (allDrainable m)"
  shows "\<exists>es m'. signal_all is m = Inr (es, m') \<and> cycle_ok m' \<and> (\<forall>i \<in> set is. drainState (allDrainable m' ! i) = Drained) \<and>
    length (filter (\<lambda>e. e) es) = (if 0 < undrained m \<and> undrained m' = 0 then 1 else 0)"
proof -
  have "\<exists>es m'. signal_all is m = Inr (es, m') \<and> cycle_ok m' \<and> (\<forall>i \<in> set is. drainState (allDrainable m' ! i) = Drained) \<and>
    (\<forall>j < length (allDrainable m). drainState (allDrainable m ! j) = Drained \<longrightarrow> drainState (allDrainable m' ! j) = Drained) \<and>
    undrained m' \<le> undrained m \<and>
    length (filter (\<lambda>e. e) es) = (if 0 < undrained m \<and> undrained m' = 0 then 1 else 0)"
    using assms
  proof (induction "is" arbitrary: m)
    case (Cons i js)
    have i: "i < length (allDrainable m)" using Cons.prems(2) by simp
    obtain e m1 where s1: "signalDrainDone i m = Inr (e, m1)" "cycle_ok m1" "length (allDrainable m1) = length (allDrainable m)"
      "drainState (allDrainable m1 ! i) = Drained" "e \<longleftrightarrow> 0 < undrained m \<and> undrained m1 = 0" "undrained m1 \<le> undrained m"
      "\<forall>j < length (allDrainable m). drainState (allDrainable m ! j) = Drained \<longrightarrow> drainState (allDrainable m1 ! j) = Drained"
      using signal_step [OF Cons.prems(1) i] by blast
    have js: "\<forall>j \<in> set js. j < length (allDrainable m1)" using Cons.prems(2) s1(3) by simp
    obtain es m2 where s2: "signal_all js m1 = Inr (es, m2)" "cycle_ok m2" "\<forall>j \<in> set js. drainState (allDrainable m2 ! j) = Drained"
      "\<forall>j < length (allDrainable m). drainState (allDrainable m1 ! j) = Drained \<longrightarrow> drainState (allDrainable m2 ! j) = Drained"
      "undrained m2 \<le> undrained m1" "length (filter (\<lambda>e. e) es) = (if 0 < undrained m1 \<and> undrained m2 = 0 then 1 else 0)"
      using Cons.IH [OF s1(2) js] s1(3) by auto
    have "signal_all (i # js) m = Inr (e # es, m2)" using s1(1) s2(1) by simp
    moreover have "length (filter (\<lambda>e. e) (e # es)) = (if 0 < undrained m \<and> undrained m2 = 0 then 1 else 0)"
      using s1(5,6) s2(5,6) by auto
    moreover have "\<forall>j \<in> set (i # js). drainState (allDrainable m2 ! j) = Drained" using s2(3,4) s1(4) i by simp
    ultimately show ?case using s1(6,7) s2(2,4,5) by (intro exI [of _ "e # es"] exI [of _ m2]) auto
  qed auto
  then show ?thesis by blast
qed

text \<open>Once every object has reported, resuming brings all of them back to the running state, each resumed once, and
  the simulator stops on an attempt to resume before that.\<close>
theorem resume_after_drain:
  assumes "cycle_ok m"
  shows "resumeDrain resume m = (if undrained m = 0
    then Inr (m\<lparr>allDrainable := map (\<lambda>d. \<lparr>drainState = DrainRunning, drainObj = resume (drainObj d)\<rparr>) (allDrainable m),
      dm_state := DrainRunning\<rparr>)
    else Inl Panicked)"
proof (cases "undrained m = 0")
  case True
  then have d: "\<forall>d \<in> set (allDrainable m). drainState d = Drained"
    using assms by (auto simp: cycle_ok_def list_all_iff undrained_def filter_empty_conv)
  have r: "resume_all resume ds = Inr (map (\<lambda>d. \<lparr>drainState = DrainRunning, drainObj = resume (drainObj d)\<rparr>) ds)"
    if "\<forall>d \<in> set ds. drainState d = Drained" for ds
    using that by (induction ds) (auto simp: dmDrainResume_def)
  have "resume_loop resume (allDrainable m) = Inr (map (\<lambda>d. \<lparr>drainState = DrainRunning, drainObj = resume (drainObj d)\<rparr>) (allDrainable m))"
    using r [OF d] by (subst resume_loop.simps) (simp add: allInState_def list_all_iff)
  moreover have "dm_count m = 0" "dm_state m \<in> {Draining, Drained}" using assms True by (auto simp: cycle_ok_def unat_eq_0)
  ultimately show ?thesis using True by (auto simp: resumeDrain_def)
next
  case False
  then show ?thesis using assms by (auto simp: cycle_ok_def resumeDrain_def)
qed

section \<open>An example\<close>

text \<open>Two objects, of which the second needs more time.\<close>

definition ex_drain :: "nat \<Rightarrow> DrainState \<times> nat" where
  "ex_drain n = (if n = 0 then Drained else Draining, n)"

definition ex_manager :: "nat DrainManager" where
  "ex_manager = Drainable_new 3 (Drainable_new 0 DrainManager_new)"

theorem tryDrain_counts_witness:
  "\<exists>m'. tryDrain ex_drain ex_manager = Inr (False, m') \<and> cycle_ok m' \<and> dm_state m' = Draining"
proof -
  have h: "dm_state ex_manager \<noteq> Drained" "dm_count ex_manager = 0" "drain_ok ex_drain" "length (allDrainable ex_manager) < 2 ^ 32"
    by (simp_all add: ex_manager_def Drainable_new_def DrainManager_new_def drain_ok_def ex_drain_def)
  from tryDrain_counts [OF h] show ?thesis
    by (auto simp: allInState_def ex_manager_def Drainable_new_def DrainManager_new_def ex_drain_def)
qed

definition ex_cycle :: "nat DrainManager" where
  "ex_cycle = \<lparr>dm_count = 1, dm_state = Draining, allDrainable = [\<lparr>drainState = Drained, drainObj = 0\<rparr>, \<lparr>drainState = Draining, drainObj = 3\<rparr>]\<rparr>"

lemma ex_cycle_ok: "cycle_ok ex_cycle" "undrained ex_cycle = 1"
  by (simp_all add: cycle_ok_def ex_cycle_def undrained_def)

theorem signals_count_down_witness:
  "\<exists>es m'. signal_all [0, 1, 1] ex_cycle = Inr (es, m') \<and> drainState (allDrainable m' ! 1) = Drained \<and> length (filter (\<lambda>e. e) es) \<le> 1"
proof -
  have "\<forall>i \<in> set [0, 1, 1]. i < length (allDrainable ex_cycle)" by (simp add: ex_cycle_def)
  from signals_count_down [OF ex_cycle_ok(1) this] show ?thesis by fastforce
qed

theorem resume_after_drain_witness: "resumeDrain Suc ex_cycle = Inl Panicked"
  using resume_after_drain [OF ex_cycle_ok(1), of Suc] ex_cycle_ok(2) by simp

end
