(* ===== verification/Packet_Queue.thy ===== *)
theory Packet_Queue
  imports Mem_Packet Sim_Drain "HOL-Library.Multiset"
begin

text \<open>
  The queue of a port, from \<^verbatim>\<open>src/mem/packet_queue.cc\<close>: packets wait until their tick and leave one at a time; a
  receiver that refuses a packet owes a retry. What the port answers is an argument of the operations: whether the
  packet was taken, and the packets that sending it caused to be queued on the way.
\<close>

section \<open>The queue\<close>

definition isExpressSnoop :: "Packet \<Rightarrow> bool" where
  "isExpressSnoop p = isSet (pflags p) EXPRESS_SNOOP"

record PacketQueue =
  transmitList :: "(Tick \<times> Packet) list"
  sendEvent :: "Tick option"
  disableSanityCheck :: bool
  waitingOnRetry :: bool
  pq_drainState :: DrainState

definition PacketQueue_new :: "bool \<Rightarrow> DrainState \<Rightarrow> PacketQueue" where
  "PacketQueue_new no_check s = \<lparr>transmitList = [], sendEvent = None, disableSanityCheck = no_check, waitingOnRetry = False, pq_drainState = s\<rparr>"

definition deferredPacketReady :: "Tick \<Rightarrow> PacketQueue \<Rightarrow> bool" where
  "deferredPacketReady now q \<longleftrightarrow> transmitList q \<noteq> [] \<and> fst (hd (transmitList q)) \<le> now"

definition deferredPacketReadyTime :: "PacketQueue \<Rightarrow> Tick" where
  "deferredPacketReadyTime q = (if transmitList q = [] then MaxTick else fst (hd (transmitList q)))"

fun queued_addr :: "Addr \<Rightarrow> (Tick \<times> Packet) list \<Rightarrow> bool res" where
  "queued_addr a [] = ok False"
| "queued_addr a (e # es) = bindR (getAddr (snd e)) (\<lambda>b. if b = a then ok True else queued_addr a es)"

definition hasAddr :: "Addr \<Rightarrow> PacketQueue \<Rightarrow> bool res" where
  "hasAddr a q = queued_addr a (transmitList q)"

text \<open>
  A functional access takes its bytes from the packets in the queue, or leaves them there: the data of a
  packet in the queue is the value in flight.
\<close>

definition trySatisfyPacket :: "Packet \<Rightarrow> Packet \<Rightarrow> (bool \<times> Packet \<times> Packet) res" where
  "trySatisfyPacket pkt other =
     bindR (getAddr other) (\<lambda>a. bindR (getSize other) (\<lambda>n.
     bindR (if hasData (pcmd other) then bindR (getPtr other) (\<lambda>d. ok (Some d)) else ok None) (\<lambda>d.
     bindR (trySatisfyFunctional a (pIsSecure other) (uint n) d pkt) (\<lambda>(found, pkt', d').
       ok (found, pkt', (case d' of None \<Rightarrow> other | Some b \<Rightarrow> other\<lparr>pdata := b\<rparr>))))))"

fun satisfy_queued :: "Packet \<Rightarrow> (Tick \<times> Packet) list \<Rightarrow> (bool \<times> Packet \<times> (Tick \<times> Packet) list) res" where
  "satisfy_queued pkt [] = ok (False, pkt, [])"
| "satisfy_queued pkt (e # es) =
     bindR (trySatisfyPacket pkt (snd e)) (\<lambda>(found, pkt', other).
     if found then ok (True, pkt', (fst e, other) # es)
     else bindR (satisfy_queued pkt' es) (\<lambda>(f, p, es'). ok (f, p, (fst e, other) # es')))"

definition pq_trySatisfyFunctional :: "Packet \<Rightarrow> PacketQueue \<Rightarrow> (bool \<times> Packet \<times> PacketQueue) res" where
  "pq_trySatisfyFunctional pkt q =
     bindR (satisfy_queued pkt (transmitList q)) (\<lambda>(f, p, es). ok (f, p, q\<lparr>transmitList := es\<rparr>))"

section \<open>Scheduling\<close>

definition pq_schedule :: "Tick \<Rightarrow> Tick \<Rightarrow> PacketQueue \<Rightarrow> PacketQueue res" where
  "pq_schedule now when q = assertR (when \<ge> now \<and> sendEvent q = None) (ok (q\<lparr>sendEvent := Some when\<rparr>))"

definition pq_reschedule :: "Tick \<Rightarrow> Tick \<Rightarrow> PacketQueue \<Rightarrow> PacketQueue res" where
  "pq_reschedule now when q = assertR (when \<ge> now \<and> sendEvent q \<noteq> None) (ok (q\<lparr>sendEvent := Some when\<rparr>))"

definition schedSendEvent :: "Tick \<Rightarrow> Tick \<Rightarrow> PacketQueue \<Rightarrow> PacketQueue res" where
  "schedSendEvent now when q =
     (if waitingOnRetry q then assertR (sendEvent q = None) (ok q)
      else if when \<noteq> MaxTick then
        (let w = max when (now + 1) in
         case sendEvent q of
           None \<Rightarrow> pq_schedule now w q
         | Some s \<Rightarrow> if w < s then pq_reschedule now w q else ok q)
      else if pq_drainState q = Draining \<and> transmitList q = [] \<and> sendEvent q = None
        then ok (q\<lparr>pq_drainState := Drained\<rparr>)
      else ok q)"

text \<open>The search from the end: the place after which a packet goes, never before the first one.\<close>

fun place_back :: "('e \<Rightarrow> bool res) \<Rightarrow> 'e list \<Rightarrow> nat \<Rightarrow> nat res" where
  "place_back pass l 0 = ok 0"
| "place_back pass l (Suc i) = bindR (pass (l ! Suc i)) (\<lambda>b. if b then place_back pass l i else ok (Suc i))"

definition passes :: "Tick \<Rightarrow> bool \<Rightarrow> Packet \<Rightarrow> Tick \<times> Packet \<Rightarrow> bool res" where
  "passes when force_order pkt e =
     (if when < fst e then
        if force_order then bindR (getAddr (snd e)) (\<lambda>a. bindR (getAddr pkt) (\<lambda>b. ok (a \<noteq> b)))
        else ok True
      else ok False)"

definition schedSendTiming :: "Tick \<Rightarrow> Packet \<Rightarrow> Tick \<Rightarrow> bool \<Rightarrow> PacketQueue \<Rightarrow> PacketQueue res" where
  "schedSendTiming now pkt when force_order q =
     assertR (when \<ge> now) (assertR (\<not> isExpressSnoop pkt)
     (if \<not> disableSanityCheck q \<and> length (transmitList q) > 100 then fail Panicked
      else if transmitList q = [] then schedSendEvent now when (q\<lparr>transmitList := [(when, pkt)]\<rparr>)
      else bindR (place_back (passes when force_order pkt) (transmitList q) (length (transmitList q) - 1)) (\<lambda>i.
        ok (q\<lparr>transmitList := take (Suc i) (transmitList q) @ (when, pkt) # drop (Suc i) (transmitList q)\<rparr>))))"

section \<open>Sending\<close>

text \<open>A call made while a packet is being sent.\<close>

type_synonym pq_call = "Packet \<times> Tick \<times> bool"

fun sched_calls :: "Tick \<Rightarrow> pq_call list \<Rightarrow> PacketQueue \<Rightarrow> PacketQueue res" where
  "sched_calls now [] q = ok q"
| "sched_calls now ((p, w, f) # cs) q = bindR (schedSendTiming now p w f q) (sched_calls now cs)"

definition sendDeferredPacket :: "Tick \<Rightarrow> bool \<times> pq_call list \<Rightarrow> PacketQueue \<Rightarrow> PacketQueue res" where
  "sendDeferredPacket now answer q =
     assertR (\<not> waitingOnRetry q) (assertR (deferredPacketReady now q)
     (let dp = hd (transmitList q) in
      bindR (sched_calls now (snd answer) (q\<lparr>transmitList := tl (transmitList q)\<rparr>)) (\<lambda>q1.
      (let q2 = q1\<lparr>waitingOnRetry := \<not> fst answer\<rparr> in
       if \<not> waitingOnRetry q2 then schedSendEvent now (deferredPacketReadyTime q2) q2
       else ok (q2\<lparr>transmitList := dp # transmitList q2\<rparr>)))))"

text \<open>The event is served: it is off the event queue when its function runs.\<close>

definition processSendEvent :: "Tick \<Rightarrow> bool \<times> pq_call list \<Rightarrow> PacketQueue \<Rightarrow> PacketQueue res" where
  "processSendEvent now answer q =
     assertR (\<not> waitingOnRetry q) (sendDeferredPacket now answer (q\<lparr>sendEvent := None\<rparr>))"

definition pq_retry :: "Tick \<Rightarrow> bool \<times> pq_call list \<Rightarrow> PacketQueue \<Rightarrow> PacketQueue res" where
  "pq_retry now answer q = assertR (waitingOnRetry q) (sendDeferredPacket now answer (q\<lparr>waitingOnRetry := False\<rparr>))"

definition pq_drain :: "PacketQueue \<Rightarrow> DrainState" where
  "pq_drain q = (if transmitList q = [] then Drained else Draining)"

section \<open>Where a packet goes\<close>

lemma place_back_ok:
  assumes "\<forall>e \<in> set l. pass e = Inr (P e)" "n < length l"
  shows "\<exists>i. place_back pass l n = Inr i \<and> i \<le> n \<and> (\<forall>j. i < j \<and> j \<le> n \<longrightarrow> P (l ! j))"
  using assms(2)
proof (induction n)
  case (Suc n)
  have p: "pass (l ! Suc n) = Inr (P (l ! Suc n))" using assms(1) Suc.prems by simp
  show ?case
  proof (cases "P (l ! Suc n)")
    case True
    obtain i where "place_back pass l n = Inr i" "i \<le> n" "\<forall>j. i < j \<and> j \<le> n \<longrightarrow> P (l ! j)" using Suc by auto
    then show ?thesis using p True by (auto simp: le_Suc_eq)
  qed (use p in auto)
qed simp

definition items_ok :: "(Tick \<times> Packet) list \<Rightarrow> bool" where
  "items_ok l \<longleftrightarrow> (\<forall>e \<in> set l. isSet (pflags (snd e)) VALID_ADDR \<and> fst e < MaxTick)"

definition call_ok :: "Tick \<Rightarrow> pq_call \<Rightarrow> bool" where
  "call_ok now c \<longleftrightarrow> (case c of (p, w, f) \<Rightarrow> now \<le> w \<and> w < MaxTick \<and> \<not> isExpressSnoop p \<and> isSet (pflags p) VALID_ADDR)"

definition room :: "nat \<Rightarrow> PacketQueue \<Rightarrow> bool" where
  "room n q \<longleftrightarrow> disableSanityCheck q \<or> length (transmitList q) + n \<le> 101"

text \<open>The packets a new one is put in front of leave later than it, and with forced order go elsewhere.\<close>

definition inserted :: "pq_call \<Rightarrow> (Tick \<times> Packet) list \<Rightarrow> (Tick \<times> Packet) list \<Rightarrow> bool" where
  "inserted c l l' \<longleftrightarrow> (case c of (p, w, f) \<Rightarrow> \<exists>xs ys. l = xs @ ys \<and> l' = xs @ (w, p) # ys \<and> (l \<noteq> [] \<longrightarrow> xs \<noteq> []) \<and>
     (\<forall>e \<in> set ys. w < fst e \<and> (f \<longrightarrow> paddr (snd e) \<noteq> paddr p)))"

lemma place_inserted:
  assumes "items_ok l" "l \<noteq> []" "isSet (pflags p) VALID_ADDR"
  shows "\<exists>i. place_back (passes w f p) l (length l - 1) = Inr i \<and> inserted (p, w, f) l (take (Suc i) l @ (w, p) # drop (Suc i) l)"
proof -
  let ?P = "\<lambda>e. w < fst e \<and> (f \<longrightarrow> paddr (snd e) \<noteq> paddr p)"
  have ps: "\<forall>e \<in> set l. passes w f p e = Inr (?P e)"
    using assms(1,3) by (auto simp: passes_def items_ok_def getAddr_def)
  have n: "length l - 1 < length l" using assms(2) by (cases l) simp_all
  obtain i where i: "place_back (passes w f p) l (length l - 1) = Inr i" "i \<le> length l - 1"
    "\<forall>j. i < j \<and> j \<le> length l - 1 \<longrightarrow> ?P (l ! j)" using place_back_ok [OF ps n] by blast
  have "?P (drop (Suc i) l ! k)" if "k < length (drop (Suc i) l)" for k
    using spec [OF i(3), of "Suc i + k"] that by simp
  then have "\<forall>e \<in> set (drop (Suc i) l). ?P e" by (metis in_set_conv_nth)
  then have "inserted (p, w, f) l (take (Suc i) l @ (w, p) # drop (Suc i) l)"
    unfolding inserted_def prod.case using assms(2)
    by (intro exI [of _ "take (Suc i) l"] exI [of _ "drop (Suc i) l"]) simp
  then show ?thesis using i(1) by blast
qed

lemma schedSendTiming_step:
  assumes "items_ok (transmitList q)" "call_ok now (p, w, f)" "room 1 q" "now < MaxTick"
    and "transmitList q = [] \<longrightarrow> \<not> waitingOnRetry q \<and> sendEvent q = None"
  shows "\<exists>l. schedSendTiming now p w f q = Inr (q\<lparr>transmitList := l,
      sendEvent := if transmitList q = [] then Some (max w (now + 1)) else sendEvent q\<rparr>) \<and> inserted (p, w, f) (transmitList q) l"
proof -
  have c: "now \<le> w" "w \<noteq> MaxTick" "\<not> isExpressSnoop p" "isSet (pflags p) VALID_ADDR" using assms(2) by (auto simp: call_ok_def)
  have sz: "\<not> (\<not> disableSanityCheck q \<and> length (transmitList q) > 100)" using assms(3) by (auto simp: room_def)
  show ?thesis
  proof (cases "transmitList q = []")
    case True
    have m: "now \<le> max w (now + 1)" using c(1) by (simp add: le_max_iff_disj)
    have "schedSendEvent now w (q\<lparr>transmitList := [(w, p)]\<rparr>) = Inr (q\<lparr>transmitList := [(w, p)], sendEvent := Some (max w (now + 1))\<rparr>)"
      using assms(5) True c(2) m by (simp add: schedSendEvent_def pq_schedule_def Let_def)
    then have "schedSendTiming now p w f q = Inr (q\<lparr>transmitList := [(w, p)], sendEvent := Some (max w (now + 1))\<rparr>)"
      using True c(1,3) by (simp add: schedSendTiming_def)
    moreover have "inserted (p, w, f) (transmitList q) [(w, p)]" using True by (simp add: inserted_def)
    ultimately show ?thesis using True by auto
  next
    case False
    let ?l = "transmitList q"
    obtain i where i: "place_back (passes w f p) ?l (length ?l - 1) = Inr i"
      "inserted (p, w, f) ?l (take (Suc i) ?l @ (w, p) # drop (Suc i) ?l)" using place_inserted [OF assms(1) False c(4), of w f] by blast
    let ?l' = "take (Suc i) ?l @ (w, p) # drop (Suc i) ?l"
    have "inserted (p, w, f) ?l ?l'" by (rule i(2))
    moreover have "schedSendTiming now p w f q = Inr (q\<lparr>transmitList := ?l'\<rparr>)"
      using c sz False i(1) by (simp add: schedSendTiming_def)
    ultimately show ?thesis using False by (intro exI [of _ ?l']) simp
  qed
qed

section \<open>The life of a queue\<close>

definition pq_ok :: "Tick \<Rightarrow> PacketQueue \<Rightarrow> bool" where
  "pq_ok now q \<longleftrightarrow> items_ok (transmitList q) \<and> now < MaxTick \<and>
     (if waitingOnRetry q then sendEvent q = None \<and> deferredPacketReady now q
      else (case sendEvent q of
        None \<Rightarrow> transmitList q = []
      | Some w \<Rightarrow> transmitList q \<noteq> [] \<and> now \<le> w \<and> fst (hd (transmitList q)) \<le> w))"

text \<open>The queue while a packet is being sent: the packet is off the list.\<close>

definition sending :: "Tick \<Rightarrow> PacketQueue \<Rightarrow> bool" where
  "sending now q \<longleftrightarrow> items_ok (transmitList q) \<and> now < MaxTick \<and> \<not> waitingOnRetry q \<and>
     (case sendEvent q of None \<Rightarrow> True | Some w \<Rightarrow> transmitList q \<noteq> [] \<and> now \<le> w \<and> fst (hd (transmitList q)) \<le> w)"

lemma inserted_keeps:
  assumes "inserted (p, w, f) l l'" "items_ok l" "isSet (pflags p) VALID_ADDR" "w < MaxTick"
  shows "items_ok l'" "l' \<noteq> []" "hd l' = (if l = [] then (w, p) else hd l)" "length l' = Suc (length l)"
    "mset l' = add_mset (w, p) (mset l)"
    "f \<Longrightarrow> filter (\<lambda>e. paddr (snd e) = a) l' = filter (\<lambda>e. paddr (snd e) = a) l @ (if paddr p = a then [(w, p)] else [])"
proof -
  obtain xs ys where x: "l = xs @ ys" "l' = xs @ (w, p) # ys" "l \<noteq> [] \<longrightarrow> xs \<noteq> []"
    "\<forall>e \<in> set ys. w < fst e \<and> (f \<longrightarrow> paddr (snd e) \<noteq> paddr p)" using assms(1) unfolding inserted_def prod.case by blast
  show "items_ok l'" using assms(2-4) x(1,2) by (auto simp: items_ok_def)
  show "l' \<noteq> []" "length l' = Suc (length l)" "mset l' = add_mset (w, p) (mset l)" using x(1,2) by simp_all
  show "hd l' = (if l = [] then (w, p) else hd l)" using x by (cases xs) auto
  show "filter (\<lambda>e. paddr (snd e) = a) l' = filter (\<lambda>e. paddr (snd e) = a) l @ (if paddr p = a then [(w, p)] else [])" if f
    using x(1,2,4) that by (auto simp: filter_empty_conv)
qed

lemma call_ok_packet: "call_ok now (p, w, f) \<Longrightarrow> isSet (pflags p) VALID_ADDR" "call_ok now (p, w, f) \<Longrightarrow> w < MaxTick"
  by (simp_all add: call_ok_def)

definition by_addr :: "Addr \<Rightarrow> (Tick \<times> Packet) list \<Rightarrow> (Tick \<times> Packet) list" where
  "by_addr a l = filter (\<lambda>e. paddr (snd e) = a) l"

definition calls_made :: "pq_call list \<Rightarrow> (Tick \<times> Packet) list" where
  "calls_made cs = map (\<lambda>(p, w, f). (w, p)) cs"

text \<open>What queueing adds, per address and in all.\<close>

definition queued :: "pq_call list \<Rightarrow> (Tick \<times> Packet) list \<Rightarrow> (Tick \<times> Packet) list \<Rightarrow> bool" where
  "queued cs l l' \<longleftrightarrow> mset l' = mset l + mset (calls_made cs) \<and>
     (list_all (\<lambda>(p, w, f). f) cs \<longrightarrow> (\<forall>a. by_addr a l' = by_addr a l @ by_addr a (calls_made cs)))"

lemma sched_calls_step:
  assumes "sending now q" "list_all (call_ok now) cs" "room (length cs) q" "transmitList q = [] \<longrightarrow> sendEvent q = None"
  shows "\<exists>q'. sched_calls now cs q = Inr q' \<and> sending now q' \<and> queued cs (transmitList q) (transmitList q') \<and>
    (transmitList q' = [] \<longrightarrow> sendEvent q' = None)"
  using assms
proof (induction cs arbitrary: q)
  case Nil
  then show ?case by (simp add: queued_def calls_made_def by_addr_def)
next
  case (Cons c cs)
  obtain p w f where c: "c = (p, w, f)" by (cases c) auto
  have s: "items_ok (transmitList q)" "now < MaxTick" "\<not> waitingOnRetry q" using Cons.prems(1) by (simp_all add: sending_def)
  have ok: "call_ok now (p, w, f)" "room 1 q" using Cons.prems(2,3) c by (auto simp: room_def)
  obtain l where l: "schedSendTiming now p w f q = Inr (q\<lparr>transmitList := l,
      sendEvent := if transmitList q = [] then Some (max w (now + 1)) else sendEvent q\<rparr>)" "inserted (p, w, f) (transmitList q) l"
    using schedSendTiming_step [OF s(1) ok s(2)] s(3) Cons.prems(4) by blast
  let ?q = "q\<lparr>transmitList := l, sendEvent := if transmitList q = [] then Some (max w (now + 1)) else sendEvent q\<rparr>"
  note k = inserted_keeps [OF l(2) s(1) call_ok_packet [OF ok(1)]]
  have "sending now ?q"
    using Cons.prems(1) k(1-3) ok(1) s(2) by (auto simp: sending_def call_ok_def max_def split: option.splits)
  moreover have "room (length cs) ?q" using Cons.prems(3) k(4) by (auto simp: room_def)
  ultimately obtain q' where q': "sched_calls now cs ?q = Inr q'" "sending now q'" "queued cs l (transmitList q')"
    "transmitList q' = [] \<longrightarrow> sendEvent q' = None" using Cons.IH [of ?q] Cons.prems(2) k(2) by auto
  moreover have "queued (c # cs) (transmitList q) (transmitList q')"
    using q'(3) k(5,6) c by (auto simp: queued_def calls_made_def by_addr_def)
  ultimately show ?case using l(1) c by auto
qed

lemma schedSendEvent_ready:
  assumes "sending now q" "transmitList q = [] \<longrightarrow> sendEvent q = None"
  shows "\<exists>q'. schedSendEvent now (deferredPacketReadyTime q) q = Inr q' \<and> pq_ok now q' \<and> transmitList q' = transmitList q"
proof (cases "transmitList q = []")
  case True
  then show ?thesis using assms by (auto simp: schedSendEvent_def deferredPacketReadyTime_def sending_def pq_ok_def)
next
  case False
  let ?t = "fst (hd (transmitList q))" let ?w = "max ?t (now + 1)"
  have s: "items_ok (transmitList q)" "now < MaxTick" "\<not> waitingOnRetry q" using assms(1) by (simp_all add: sending_def)
  have "hd (transmitList q) \<in> set (transmitList q)" using False by simp
  then have t: "?t \<noteq> MaxTick" using s(1) by (auto simp: items_ok_def)
  have nn: "now \<le> now + 1" using s(2) by (simp add: MaxTick_def word_le_nat_alt word_less_nat_alt unat_plus_if')
  then have m: "now \<le> ?w" "?t \<le> ?w" by (simp_all add: le_max_iff_disj)
  show ?thesis
  proof (cases "sendEvent q")
    case None
    then have "schedSendEvent now (deferredPacketReadyTime q) q = Inr (q\<lparr>sendEvent := Some ?w\<rparr>)"
      using False s(3) t m(1) by (simp add: schedSendEvent_def deferredPacketReadyTime_def pq_schedule_def Let_def)
    then show ?thesis using False s m by (simp add: pq_ok_def)
  next
    case (Some e)
    then have e: "now \<le> e" "?t \<le> e" using assms(1) by (simp_all add: sending_def)
    have "schedSendEvent now (deferredPacketReadyTime q) q = Inr (if ?w < e then q\<lparr>sendEvent := Some ?w\<rparr> else q)"
      using Some False s(3) t m(1) by (simp add: schedSendEvent_def deferredPacketReadyTime_def pq_reschedule_def Let_def)
    then show ?thesis using False s m e Some by (simp add: pq_ok_def)
  qed
qed

text \<open>What the port may answer: calls it makes are in order, and it makes none if it refuses the packet.\<close>

definition answer_ok :: "Tick \<Rightarrow> PacketQueue \<Rightarrow> bool \<times> pq_call list \<Rightarrow> bool" where
  "answer_ok now q ans \<longleftrightarrow> list_all (call_ok now) (snd ans) \<and> room (length (snd ans)) q \<and> (\<not> fst ans \<longrightarrow> snd ans = [])"

lemma send_step:
  assumes "items_ok (transmitList q)" "now < MaxTick" "\<not> waitingOnRetry q" "sendEvent q = None" "deferredPacketReady now q"
    and "answer_ok now q ans"
  shows "\<exists>q'. sendDeferredPacket now ans q = Inr q' \<and> pq_ok now q' \<and>
    (if fst ans then queued (snd ans) (tl (transmitList q)) (transmitList q') else transmitList q' = transmitList q \<and> waitingOnRetry q')"
proof -
  let ?q = "q\<lparr>transmitList := tl (transmitList q)\<rparr>"
  have ne: "transmitList q \<noteq> []" using assms(5) by (simp add: deferredPacketReady_def)
  have "set (tl (transmitList q)) \<subseteq> set (transmitList q)" by (cases "transmitList q") auto
  then have s: "sending now ?q" using assms(1-4) by (auto simp: sending_def items_ok_def)
  have r: "room (length (snd ans)) ?q" using assms(6) by (auto simp: answer_ok_def room_def)
  obtain q1 where q1: "sched_calls now (snd ans) ?q = Inr q1" "sending now q1" "queued (snd ans) (tl (transmitList q)) (transmitList q1)"
    "transmitList q1 = [] \<longrightarrow> sendEvent q1 = None"
    using sched_calls_step [OF s _ r] assms(4,6) by (auto simp: answer_ok_def)
  show ?thesis
  proof (cases "fst ans")
    case True
    have "q1\<lparr>waitingOnRetry := False\<rparr> = q1" using q1(2) by (simp add: sending_def)
    then show ?thesis using True assms(3,5) q1 schedSendEvent_ready [OF q1(2,4)]
      by (auto simp: sendDeferredPacket_def Let_def)
  next
    case False
    then have "snd ans = []" using assms(6) by (simp add: answer_ok_def)
    then have "sendDeferredPacket now ans q = Inr (q\<lparr>transmitList := hd (transmitList q) # tl (transmitList q), waitingOnRetry := True\<rparr>)"
      using False assms(3,5) by (simp add: sendDeferredPacket_def Let_def)
    then show ?thesis using False ne assms by (simp add: pq_ok_def deferredPacketReady_def)
  qed
qed

text \<open>
  A queue from its construction on: time passes up to the send event, packets are queued in order, the event is
  served when it is due, retries come when they are owed. The trace has the packets queued and those sent.
\<close>

inductive pq_reach :: "Tick \<Rightarrow> PacketQueue \<Rightarrow> (Tick \<times> Packet) list \<Rightarrow> (Tick \<times> Tick \<times> Packet) list \<Rightarrow> bool" where
  pq_start: "now < MaxTick \<Longrightarrow> pq_reach now (PacketQueue_new b s) [] []"
| pq_wait: "pq_reach now q E S \<Longrightarrow> now \<le> t \<Longrightarrow> t < MaxTick \<Longrightarrow> (\<forall>w. sendEvent q = Some w \<longrightarrow> t \<le> w) \<Longrightarrow> pq_reach t q E S"
| pq_queue: "pq_reach now q E S \<Longrightarrow> call_ok now (p, w, True) \<Longrightarrow> room 1 q \<Longrightarrow> schedSendTiming now p w True q = Inr q' \<Longrightarrow>
    pq_reach now q' (E @ [(w, p)]) S"
| pq_event: "pq_reach now q E S \<Longrightarrow> sendEvent q = Some now \<Longrightarrow> answer_ok now q ans \<Longrightarrow> list_all (\<lambda>(p, w, f). f) (snd ans) \<Longrightarrow>
    processSendEvent now ans q = Inr q' \<Longrightarrow>
    pq_reach now q' (E @ calls_made (snd ans)) (S @ (if fst ans then [(now, hd (transmitList q))] else []))"
| pq_again: "pq_reach now q E S \<Longrightarrow> waitingOnRetry q \<Longrightarrow> answer_ok now q ans \<Longrightarrow> list_all (\<lambda>(p, w, f). f) (snd ans) \<Longrightarrow>
    pq_retry now ans q = Inr q' \<Longrightarrow>
    pq_reach now q' (E @ calls_made (snd ans)) (S @ (if fst ans then [(now, hd (transmitList q))] else []))"
| pq_draining: "pq_reach now q E S \<Longrightarrow> pq_reach now (q\<lparr>pq_drainState := s\<rparr>) E S"

definition pq_trace :: "(Tick \<times> Packet) list \<Rightarrow> (Tick \<times> Packet) list \<Rightarrow> (Tick \<times> Tick \<times> Packet) list \<Rightarrow> bool" where
  "pq_trace l E S \<longleftrightarrow> mset E = mset (map snd S) + mset l \<and> (\<forall>a. by_addr a E = by_addr a (map snd S) @ by_addr a l) \<and>
     (\<forall>(t, w, p) \<in> set S. w \<le> t)"

lemma by_addr_append [simp]: "by_addr a (xs @ ys) = by_addr a xs @ by_addr a ys"
  by (simp add: by_addr_def)

lemma trace_queue:
  assumes "pq_trace l E S" "queued cs l l'" "list_all (\<lambda>(p, w, f). f) cs"
  shows "pq_trace l' (E @ calls_made cs) S"
  using assms by (auto simp: pq_trace_def queued_def)

lemma trace_send:
  assumes "pq_trace l E S" "l \<noteq> []" "fst (hd l) \<le> now"
  shows "pq_trace (tl l) E (S @ [(now, hd l)])"
  using assms by (cases l) (auto simp: pq_trace_def by_addr_def)

lemma due_step:
  assumes "pq_ok now q" "answer_ok now q ans"
  shows "sendEvent q = Some now \<Longrightarrow> \<exists>q'. processSendEvent now ans q = Inr q' \<and> pq_ok now q' \<and>
      (if fst ans then queued (snd ans) (tl (transmitList q)) (transmitList q') else transmitList q' = transmitList q)"
    "waitingOnRetry q \<Longrightarrow> \<exists>q'. pq_retry now ans q = Inr q' \<and> pq_ok now q' \<and>
      (if fst ans then queued (snd ans) (tl (transmitList q)) (transmitList q') else transmitList q' = transmitList q)"
    "sendEvent q = Some now \<or> waitingOnRetry q \<Longrightarrow> transmitList q \<noteq> [] \<and> fst (hd (transmitList q)) \<le> now"
proof -
  have i: "items_ok (transmitList q)" "now < MaxTick" using assms(1) by (simp_all add: pq_ok_def)
  show "\<exists>q'. processSendEvent now ans q = Inr q' \<and> pq_ok now q' \<and>
      (if fst ans then queued (snd ans) (tl (transmitList q)) (transmitList q') else transmitList q' = transmitList q)" if e: "sendEvent q = Some now"
  proof -
    have w: "\<not> waitingOnRetry q" "deferredPacketReady now q" using assms(1) e by (auto simp: pq_ok_def deferredPacketReady_def split: if_splits)
    have "answer_ok now (q\<lparr>sendEvent := None\<rparr>) ans" using assms(2) by (simp add: answer_ok_def room_def)
    from send_step [of "q\<lparr>sendEvent := None\<rparr>" now ans, OF _ i(2) _ _ _ this] i(1) w show ?thesis
      by (auto simp: processSendEvent_def deferredPacketReady_def split: if_splits)
  qed
  show "\<exists>q'. pq_retry now ans q = Inr q' \<and> pq_ok now q' \<and>
      (if fst ans then queued (snd ans) (tl (transmitList q)) (transmitList q') else transmitList q' = transmitList q)" if e: "waitingOnRetry q"
  proof -
    have w: "sendEvent q = None" "deferredPacketReady now q" using assms(1) e by (auto simp: pq_ok_def)
    have "answer_ok now (q\<lparr>waitingOnRetry := False\<rparr>) ans" using assms(2) by (simp add: answer_ok_def room_def)
    from send_step [of "q\<lparr>waitingOnRetry := False\<rparr>" now ans, OF _ i(2) _ _ _ this] i(1) w e show ?thesis
      by (auto simp: pq_retry_def deferredPacketReady_def split: if_splits)
  qed
  show "transmitList q \<noteq> [] \<and> fst (hd (transmitList q)) \<le> now" if "sendEvent q = Some now \<or> waitingOnRetry q"
    using that assms(1) by (auto simp: pq_ok_def deferredPacketReady_def split: if_splits)
qed

lemma queue_step:
  assumes "pq_ok now q" "call_ok now (p, w, f)" "room 1 q"
  shows "\<exists>q'. schedSendTiming now p w f q = Inr q' \<and> pq_ok now q' \<and> queued [(p, w, f)] (transmitList q) (transmitList q')"
proof -
  have i: "items_ok (transmitList q)" "now < MaxTick" using assms(1) by (simp_all add: pq_ok_def)
  have e: "transmitList q = [] \<longrightarrow> \<not> waitingOnRetry q \<and> sendEvent q = None"
    using assms(1) by (auto simp: pq_ok_def deferredPacketReady_def split: if_splits option.splits)
  obtain l where l: "schedSendTiming now p w f q = Inr (q\<lparr>transmitList := l,
      sendEvent := if transmitList q = [] then Some (max w (now + 1)) else sendEvent q\<rparr>)" "inserted (p, w, f) (transmitList q) l"
    using schedSendTiming_step [OF i(1) assms(2,3) i(2) e] by blast
  note k = inserted_keeps [OF l(2) i(1) call_ok_packet [OF assms(2)]]
  have m: "now \<le> max w (now + 1)" "w \<le> max w (now + 1)" using assms(2) by (auto simp: call_ok_def le_max_iff_disj)
  have "pq_ok now (q\<lparr>transmitList := l, sendEvent := if transmitList q = [] then Some (max w (now + 1)) else sendEvent q\<rparr>)"
  proof (cases "transmitList q = []")
    case True
    then show ?thesis using e k(1-3) m i(2) by (simp add: pq_ok_def)
  next
    case False
    then show ?thesis using assms(1) k(1-3)
      by (cases "waitingOnRetry q"; cases "sendEvent q") (simp_all add: pq_ok_def deferredPacketReady_def)
  qed
  moreover have "queued [(p, w, f)] (transmitList q) l" using k(5,6) by (auto simp: queued_def calls_made_def by_addr_def)
  ultimately show ?thesis using l(1) by simp
qed

lemma pq_invariant: "pq_reach now q E S \<Longrightarrow> pq_ok now q \<and> pq_trace (transmitList q) E S"
proof (induction rule: pq_reach.induct)
  case (pq_start now b s)
  then show ?case by (simp add: pq_ok_def items_ok_def PacketQueue_new_def pq_trace_def by_addr_def)
next
  case (pq_wait now q E S t)
  then show ?case by (auto simp: pq_ok_def deferredPacketReady_def split: option.splits if_splits)
next
  case (pq_queue now q E S p w q')
  have ok: "pq_ok now q" using pq_queue.IH by simp
  have "pq_ok now q'" "queued [(p, w, True)] (transmitList q) (transmitList q')"
    using queue_step [OF ok pq_queue.hyps(2,3)] pq_queue.hyps(4) by auto
  then show ?case using pq_queue.IH trace_queue [of "transmitList q" E S "[(p, w, True)]"] by (simp add: calls_made_def)
next
  case (pq_event now q E S ans q')
  have ok: "pq_ok now q" and tr: "pq_trace (transmitList q) E S" using pq_event.IH by simp_all
  have st: "pq_ok now q'" "if fst ans then queued (snd ans) (tl (transmitList q)) (transmitList q') else transmitList q' = transmitList q"
    using due_step(1) [OF ok pq_event.hyps(3,2)] pq_event.hyps(5) by auto
  have hd: "transmitList q \<noteq> []" "fst (hd (transmitList q)) \<le> now" using due_step(3) [OF ok pq_event.hyps(3)] pq_event.hyps(2) by simp_all
  show ?case
  proof (cases "fst ans")
    case True
    then show ?thesis using st trace_queue [OF trace_send [OF tr hd] _ pq_event.hyps(4)] by simp
  next
    case False
    then show ?thesis using st tr pq_event.hyps(3) by (simp add: answer_ok_def calls_made_def)
  qed
next
  case (pq_again now q E S ans q')
  have ok: "pq_ok now q" and tr: "pq_trace (transmitList q) E S" using pq_again.IH by simp_all
  have st: "pq_ok now q'" "if fst ans then queued (snd ans) (tl (transmitList q)) (transmitList q') else transmitList q' = transmitList q"
    using due_step(2) [OF ok pq_again.hyps(3,2)] pq_again.hyps(5) by auto
  have hd: "transmitList q \<noteq> []" "fst (hd (transmitList q)) \<le> now" using due_step(3) [OF ok pq_again.hyps(3)] pq_again.hyps(2) by simp_all
  show ?case
  proof (cases "fst ans")
    case True
    then show ?thesis using st trace_queue [OF trace_send [OF tr hd] _ pq_again.hyps(4)] by simp
  next
    case False
    then show ?thesis using st tr pq_again.hyps(3) by (simp add: answer_ok_def calls_made_def)
  qed
next
  case (pq_draining now q E S s)
  then show ?case by (cases "sendEvent q") (auto simp: pq_ok_def deferredPacketReady_def)
qed

text \<open>A queue never gets stuck and no assertion of it fails: while packets wait, either its event is scheduled, not
  before the first packet is ready, or a retry is owed; the event and the retry are served without an error,
  and a packet is accepted at any time as long as the sanity check allows it.\<close>
theorem pq_never_stuck:
  assumes "pq_reach now q E S"
  shows "(transmitList q = [] \<or> waitingOnRetry q \<or> (\<exists>w \<ge> now. sendEvent q = Some w \<and> fst (hd (transmitList q)) \<le> w)) \<and>
    (sendEvent q = Some now \<and> answer_ok now q ans \<longrightarrow> (\<exists>q'. processSendEvent now ans q = Inr q')) \<and>
    (waitingOnRetry q \<and> answer_ok now q ans \<longrightarrow> (\<exists>q'. pq_retry now ans q = Inr q')) \<and>
    (call_ok now (p, w, f) \<and> room 1 q \<longrightarrow> (\<exists>q'. schedSendTiming now p w f q = Inr q'))"
proof -
  have ok: "pq_ok now q" using pq_invariant [OF assms] by simp
  have "transmitList q = [] \<or> waitingOnRetry q \<or> (\<exists>w \<ge> now. sendEvent q = Some w \<and> fst (hd (transmitList q)) \<le> w)"
    using ok by (cases "sendEvent q") (auto simp: pq_ok_def)
  then show ?thesis using due_step(1,2) [OF ok] queue_step [OF ok] by blast
qed

text \<open>C32: Packets queued with forced order leave per address in the order in which they came, none is lost or sent twice,
  and none leaves before its tick.\<close>
theorem pq_keeps_order:
  assumes "pq_reach now q E S"
  shows "(\<forall>a. by_addr a E = by_addr a (map snd S) @ by_addr a (transmitList q)) \<and>
    mset E = mset (map snd S) + mset (transmitList q) \<and> (\<forall>(t, w, p) \<in> set S. w \<le> t)"
  using pq_invariant [OF assms] unfolding pq_trace_def by blast

text \<open>The packet at the front stays there, also if the new one is ready earlier.\<close>

lemma first_not_overtaken:
  assumes "pq_ok now q" "call_ok now (p, w, f)" "room 1 q" "transmitList q \<noteq> []"
  shows "\<exists>q'. schedSendTiming now p w f q = Inr q' \<and> hd (transmitList q') = hd (transmitList q) \<and> sendEvent q' = sendEvent q"
proof -
  have i: "items_ok (transmitList q)" "now < MaxTick" using assms(1) by (simp_all add: pq_ok_def)
  obtain l where l: "schedSendTiming now p w f q = Inr (q\<lparr>transmitList := l,
      sendEvent := if transmitList q = [] then Some (max w (now + 1)) else sendEvent q\<rparr>)" "inserted (p, w, f) (transmitList q) l"
    using schedSendTiming_step [OF i(1) assms(2,3) i(2)] assms(4) by blast
  then show ?thesis using inserted_keeps(3) [OF l(2) i(1) call_ok_packet [OF assms(2)]] assms(4) by simp
qed

section \<open>An example\<close>

definition ex_queue :: PacketQueue where "ex_queue = PacketQueue_new False DrainRunning"

definition ex_queued :: Packet where "ex_queued = Packet_new (Request_phys 64 4 0 1 0) ReadReq"

lemma ex_queue_start: "pq_reach 0 ex_queue [] []" "call_ok 0 (ex_queued, 5, True)" "room 1 ex_queue"
  unfolding ex_queue_def by (rule pq_start, code_simp) code_simp+

lemma ex_queue_one:
  "\<exists>q. schedSendTiming 0 ex_queued 5 True ex_queue = Inr q \<and> pq_reach 0 q [(5, ex_queued)] [] \<and> transmitList q = [(5, ex_queued)] \<and> sendEvent q = Some 5 \<and>
    disableSanityCheck q = False"
proof -
  have e: "transmitList ex_queue = []" "\<not> waitingOnRetry ex_queue" "sendEvent ex_queue = None" "items_ok (transmitList ex_queue)" "(0::Tick) < MaxTick"
    "disableSanityCheck ex_queue = False"
    by (simp_all add: ex_queue_def PacketQueue_new_def items_ok_def MaxTick_def)
  obtain l where l: "schedSendTiming 0 ex_queued 5 True ex_queue = Inr (ex_queue\<lparr>transmitList := l, sendEvent := Some (max 5 (0 + 1))\<rparr>)"
    "inserted (ex_queued, 5, True) [] l"
    using schedSendTiming_step [OF e(4) ex_queue_start(2,3) e(5)] e(1-3) by auto
  have "max 5 (0 + 1) = (5::Tick)" by simp
  moreover have "l = [(5, ex_queued)]" using l(2) by (simp add: inserted_def)
  ultimately show ?thesis using l(1) pq_queue [OF ex_queue_start, of "ex_queue\<lparr>transmitList := l, sendEvent := Some (max 5 (0 + 1))\<rparr>"] e(6) by simp
qed

theorem pq_never_stuck_witness:
  "\<exists>q. schedSendTiming 0 ex_queued 5 True ex_queue = Inr q \<and> (\<exists>w. sendEvent q = Some w)"
proof -
  obtain q where q: "schedSendTiming 0 ex_queued 5 True ex_queue = Inr q" "pq_reach 0 q [(5, ex_queued)] []" "transmitList q = [(5, ex_queued)]"
    "sendEvent q = Some 5" using ex_queue_one by blast
  then have "\<not> waitingOnRetry q" using pq_invariant [OF q(2)] by (auto simp: pq_ok_def)
  moreover have "transmitList q = [] \<or> waitingOnRetry q \<or> (\<exists>w \<ge> 0. sendEvent q = Some w \<and> fst (hd (transmitList q)) \<le> w)"
    using pq_never_stuck [OF q(2)] by blast
  ultimately show ?thesis using q(1,3) by auto
qed

theorem pq_keeps_order_witness:
  "\<exists>q q'. schedSendTiming 0 ex_queued 5 True ex_queue = Inr q \<and> processSendEvent 5 (True, []) q = Inr q' \<and> transmitList q' = []"
proof -
  obtain q where q: "schedSendTiming 0 ex_queued 5 True ex_queue = Inr q" "pq_reach 0 q [(5, ex_queued)] []" "transmitList q = [(5, ex_queued)]"
    "sendEvent q = Some 5" "disableSanityCheck q = False" using ex_queue_one by blast
  have r: "pq_reach 5 q [(5, ex_queued)] []" using pq_wait [OF q(2), of 5] q(4) by (simp add: MaxTick_def)
  have a: "answer_ok 5 q (True, [])" using q(3) by (simp add: answer_ok_def room_def)
  have ok: "pq_ok 5 q" using pq_invariant [OF r] by simp
  obtain q' where q': "processSendEvent 5 (True, []) q = Inr q'" using due_step(1) [OF ok a q(4)] by blast
  have "pq_reach 5 q' [(5, ex_queued)] [(5, 5, ex_queued)]" using pq_event [OF r q(4) a _ q'] q(3) by (simp add: calls_made_def)
  from pq_keeps_order [OF this] show ?thesis using q(1) q' by auto
qed

end
