(* ===== verification/Mem_Bridge.thy ===== *)
theory Mem_Bridge
  imports Packet_Queue Clocked
begin

text \<open>
  The bridge between two buses, from \<^verbatim>\<open>src/mem/bridge.cc\<close>: requests cross in one direction and responses in the
  other, each through a queue of limited length; the place of a response is reserved when its request is
  accepted. What a port answers is an argument of the operations, and a retry the bridge sends is part of their
  result: it is the last thing both operations do.
\<close>

section \<open>The bridge\<close>

record Bridge =
  br_reqs :: "(Tick \<times> Packet) list"
  br_reqEvent :: "Tick option"
  reqQueueLimit :: u32
  br_resps :: "(Tick \<times> Packet) list"
  br_respEvent :: "Tick option"
  respQueueLimit :: u32
  outstandingResponses :: u32
  br_retryReq :: bool
  br_delay :: u64
  br_period :: Tick
  br_clock :: Clock

definition Bridge_new :: "Tick \<Rightarrow> Tick \<Rightarrow> u32 \<Rightarrow> u32 \<Rightarrow> Bridge" where
  "Bridge_new period delay req_limit resp_limit = \<lparr>br_reqs = [], br_reqEvent = None, reqQueueLimit = req_limit, br_resps = [], br_respEvent = None,
     respQueueLimit = resp_limit, outstandingResponses = 0, br_retryReq = False, br_delay = ticksToCycles period delay,
     br_period = period, br_clock = Clock_init\<rparr>"

definition respQueueFull :: "Bridge \<Rightarrow> bool" where
  "respQueueFull b \<longleftrightarrow> outstandingResponses b = respQueueLimit b"

definition reqQueueFull :: "Bridge \<Rightarrow> bool" where
  "reqQueueFull b \<longleftrightarrow> length (br_reqs b) = unat (reqQueueLimit b)"

definition br_clockEdge :: "Tick \<Rightarrow> u64 \<Rightarrow> Bridge \<Rightarrow> Tick \<times> Bridge" where
  "br_clockEdge now n b = (let (t, c) = clockEdge (br_period b) now n (br_clock b) in (t, b\<lparr>br_clock := c\<rparr>))"

definition sched_req :: "Tick \<Rightarrow> Tick \<Rightarrow> Bridge \<Rightarrow> Bridge res" where
  "sched_req now when b = assertR (when \<ge> now \<and> br_reqEvent b = None) (ok (b\<lparr>br_reqEvent := Some when\<rparr>))"

definition sched_resp :: "Tick \<Rightarrow> Tick \<Rightarrow> Bridge \<Rightarrow> Bridge res" where
  "sched_resp now when b = assertR (when \<ge> now \<and> br_respEvent b = None) (ok (b\<lparr>br_respEvent := Some when\<rparr>))"

definition schedTimingReq :: "Tick \<Rightarrow> Packet \<Rightarrow> Tick \<Rightarrow> Bridge \<Rightarrow> Bridge res" where
  "schedTimingReq now pkt when b =
     bindR (if br_reqs b = [] then sched_req now when b else ok b) (\<lambda>b1.
     assertR (length (br_reqs b1) \<noteq> unat (reqQueueLimit b1)) (ok (b1\<lparr>br_reqs := br_reqs b1 @ [(when, pkt)]\<rparr>)))"

definition schedTimingResp :: "Tick \<Rightarrow> Packet \<Rightarrow> Tick \<Rightarrow> Bridge \<Rightarrow> Bridge res" where
  "schedTimingResp now pkt when b =
     bindR (if br_resps b = [] then sched_resp now when b else ok b) (\<lambda>b1. ok (b1\<lparr>br_resps := br_resps b1 @ [(when, pkt)]\<rparr>))"

text \<open>The delay of the packet itself comes on top of that of the bridge.\<close>

definition bridge_recvTimingResp :: "Tick \<Rightarrow> Packet \<Rightarrow> Tick \<Rightarrow> Bridge \<Rightarrow> Bridge res" where
  "bridge_recvTimingResp now pkt receive_delay b =
     (let (t, b1) = br_clockEdge now (br_delay b) b in schedTimingResp now pkt (t + receive_delay) b1)"

definition bridge_recvTimingReq :: "Tick \<Rightarrow> Packet \<Rightarrow> Tick \<Rightarrow> Bridge \<Rightarrow> (bool \<times> Bridge) res" where
  "bridge_recvTimingReq now pkt receive_delay b =
     (if cacheResponding pkt then fail Panicked
      else if br_retryReq b then ok (False, b)
      else if reqQueueFull b then ok (False, b\<lparr>br_retryReq := True\<rparr>)
      else if needsResponse (pcmd pkt) \<and> respQueueFull b then ok (False, b\<lparr>br_retryReq := True\<rparr>)
      else
        bindR (if needsResponse (pcmd pkt)
               then assertR (outstandingResponses b \<noteq> respQueueLimit b) (ok (b\<lparr>outstandingResponses := outstandingResponses b + 1\<rparr>))
               else ok b) (\<lambda>b1.
        (let (t, b2) = br_clockEdge now (br_delay b1) b1 in
         bindR (schedTimingReq now pkt (t + receive_delay) b2) (\<lambda>b3. ok (True, b3)))))"

definition retryStalledReq :: "Bridge \<Rightarrow> bool \<times> Bridge" where
  "retryStalledReq b = (if br_retryReq b then (True, b\<lparr>br_retryReq := False\<rparr>) else (False, b))"

text \<open>The result is whether a retry is sent, and the bridge.\<close>

definition trySendTimingReq :: "Tick \<Rightarrow> bool \<Rightarrow> Bridge \<Rightarrow> (bool \<times> Bridge) res" where
  "trySendTimingReq now sent b =
     assertR (br_reqs b \<noteq> []) (assertR (fst (hd (br_reqs b)) \<le> now)
     (if sent then
        (let b1 = b\<lparr>br_reqs := tl (br_reqs b)\<rparr> in
         bindR (if br_reqs b1 \<noteq> []
                then (let (t, b2) = br_clockEdge now 0 b1 in sched_req now (max (fst (hd (br_reqs b2))) t) b2)
                else ok b1) (\<lambda>b3. ok (retryStalledReq b3)))
      else ok (False, b)))"

text \<open>Taking a response may make the requester send requests at once, before the response is off the queue.\<close>

fun recv_reqs :: "Tick \<Rightarrow> (Packet \<times> Tick) list \<Rightarrow> Bridge \<Rightarrow> (bool list \<times> Bridge) res" where
  "recv_reqs now [] b = ok ([], b)"
| "recv_reqs now ((p, d) # rs) b =
     bindR (bridge_recvTimingReq now p d b) (\<lambda>(x, b1). bindR (recv_reqs now rs b1) (\<lambda>(xs, b2). ok (x # xs, b2)))"

definition trySendTimingResp :: "Tick \<Rightarrow> bool \<times> (Packet \<times> Tick) list \<Rightarrow> Bridge \<Rightarrow> (bool \<times> bool list \<times> Bridge) res" where
  "trySendTimingResp now answer b =
     assertR (br_resps b \<noteq> []) (assertR (fst (hd (br_resps b)) \<le> now)
     (bindR (recv_reqs now (snd answer) b) (\<lambda>(acc, b0).
      if fst answer then
        (let b1 = b0\<lparr>br_resps := tl (br_resps b0)\<rparr> in
         assertR (outstandingResponses b1 \<noteq> 0)
         (let b2 = b1\<lparr>outstandingResponses := outstandingResponses b1 - 1\<rparr> in
          bindR (if br_resps b2 \<noteq> []
                 then (let (t, b3) = br_clockEdge now 0 b2 in sched_resp now (max (fst (hd (br_resps b3))) t) b3)
                 else ok b2) (\<lambda>b4.
          ok (if \<not> reqQueueFull b4 \<and> br_retryReq b4 then (True, acc, b4\<lparr>br_retryReq := False\<rparr>) else (False, acc, b4)))))
      else ok (False, acc, b0))))"

text \<open>The events of the two queues are off the event queue when they are served; a retry comes when none is scheduled.\<close>

definition reqSendEvent :: "Tick \<Rightarrow> bool \<Rightarrow> Bridge \<Rightarrow> (bool \<times> Bridge) res" where
  "reqSendEvent now sent b = trySendTimingReq now sent (b\<lparr>br_reqEvent := None\<rparr>)"

definition bridge_recvReqRetry :: "Tick \<Rightarrow> bool \<Rightarrow> Bridge \<Rightarrow> (bool \<times> Bridge) res" where
  "bridge_recvReqRetry now sent b = trySendTimingReq now sent b"

definition respSendEvent :: "Tick \<Rightarrow> bool \<times> (Packet \<times> Tick) list \<Rightarrow> Bridge \<Rightarrow> (bool \<times> bool list \<times> Bridge) res" where
  "respSendEvent now answer b = trySendTimingResp now answer (b\<lparr>br_respEvent := None\<rparr>)"

definition bridge_recvRespRetry :: "Tick \<Rightarrow> bool \<times> (Packet \<times> Tick) list \<Rightarrow> Bridge \<Rightarrow> (bool \<times> bool list \<times> Bridge) res" where
  "bridge_recvRespRetry now answer b = trySendTimingResp now answer b"

definition bridge_recvAtomic :: "Packet \<Rightarrow> Tick \<Rightarrow> Bridge \<Rightarrow> Tick res" where
  "bridge_recvAtomic pkt lat b = (if cacheResponding pkt then fail Panicked else ok (br_delay b * br_period b + lat))"

text \<open>
  A functional access is answered from the responses waiting, then from the requests waiting; otherwise it is
  passed on, which the last component of the result says.
\<close>

definition bridge_recvFunctional :: "Packet \<Rightarrow> Bridge \<Rightarrow> (Packet \<times> Bridge \<times> bool) res" where
  "bridge_recvFunctional pkt b =
     bindR (satisfy_queued pkt (br_resps b)) (\<lambda>(found, p, es).
     if found then bindR (makeResponse p) (\<lambda>r. ok (r, b\<lparr>br_resps := es\<rparr>, False))
     else bindR (satisfy_queued p (br_reqs b)) (\<lambda>(found', p', es').
       if found' then bindR (makeResponse p') (\<lambda>r. ok (r, b\<lparr>br_resps := es, br_reqs := es'\<rparr>, False))
       else ok (p', b\<lparr>br_resps := es, br_reqs := es'\<rparr>, True)))"

section \<open>What holds of a bridge\<close>

text \<open>
  The ports around the bridge: whether the receiver of a request and the receiver of a response owe a retry, and how
  many requests that need a response are further down.
\<close>

record br_world =
  bw_waitReq :: bool
  bw_waitResp :: bool
  bw_down :: nat

definition reserved_places :: "br_world \<Rightarrow> Bridge \<Rightarrow> nat" where
  "reserved_places w b = length (filter (\<lambda>e. needsResponse (pcmd (snd e))) (br_reqs b)) + bw_down w + length (br_resps b)"

text \<open>A queue with its event: waiting for a retry, or scheduled not before its first packet is due.\<close>

definition timed :: "Tick \<Rightarrow> bool \<Rightarrow> Tick option \<Rightarrow> (Tick \<times> Packet) list \<Rightarrow> bool" where
  "timed now wait ev l \<longleftrightarrow>
     (if l = [] then ev = None \<and> \<not> wait
      else if wait then ev = None \<and> fst (hd l) \<le> now
      else (case ev of None \<Rightarrow> False | Some w \<Rightarrow> now \<le> w \<and> fst (hd l) \<le> w))"

definition br_ok :: "Tick \<Rightarrow> br_world \<Rightarrow> Bridge \<Rightarrow> bool" where
  "br_ok now w b \<longleftrightarrow> timed now (bw_waitReq w) (br_reqEvent b) (br_reqs b) \<and> timed now (bw_waitResp w) (br_respEvent b) (br_resps b) \<and>
     length (br_reqs b) \<le> unat (reqQueueLimit b) \<and> unat (outstandingResponses b) = reserved_places w b \<and>
     reserved_places w b \<le> unat (respQueueLimit b) \<and> 0 < unat (reqQueueLimit b) \<and> 0 < unat (respQueueLimit b) \<and>
     (br_retryReq b \<longrightarrow> br_reqs b \<noteq> [] \<or> 0 < reserved_places w b) \<and>
     0 < unat (br_period b) \<and> clock_inv (br_period b) now (br_clock b)"

text \<open>Time is far enough from its end.\<close>

definition br_time :: "Tick \<Rightarrow> Tick \<Rightarrow> Bridge \<Rightarrow> bool" where
  "br_time now d b \<longleftrightarrow> unat now + 2 * unat (br_period b) + unat (br_period b) * unat (br_delay b) + unat d < 2 ^ 64"

definition same_bridge :: "Bridge \<Rightarrow> Bridge \<Rightarrow> bool" where
  "same_bridge b b' \<longleftrightarrow> reqQueueLimit b' = reqQueueLimit b \<and> respQueueLimit b' = respQueueLimit b \<and> br_delay b' = br_delay b \<and> br_period b' = br_period b"

lemma same_bridge_time: "same_bridge b b' \<Longrightarrow> br_time now d b' = br_time now d b"
  by (simp add: same_bridge_def br_time_def)

lemma br_clockEdge_ok:
  assumes "clock_inv (br_period b) now (br_clock b)" "0 < unat (br_period b)"
    and "unat now + 2 * unat (br_period b) + unat (br_period b) * unat n + unat d < 2 ^ 64"
  shows "\<exists>t c. br_clockEdge now n b = (t, b\<lparr>br_clock := c\<rparr>) \<and> now \<le> t + d \<and> clock_inv (br_period b) now c"
  using clockEdge_ok [OF assms] by (auto simp: br_clockEdge_def)

lemma timed_append:
  assumes "timed now wait ev l" "l = [] \<longrightarrow> ev' = Some w" "l \<noteq> [] \<longrightarrow> ev' = ev" "now \<le> w"
  shows "timed now wait ev' (l @ [(w, p)])"
  using assms by (cases l; cases ev; cases wait) (auto simp: timed_def)

lemma recvReq_step:
  assumes "br_ok now w b" "\<not> cacheResponding pkt" "br_time now d b"
  shows "\<exists>x b' t. bridge_recvTimingReq now pkt d b = Inr (x, b') \<and> br_ok now w b' \<and> br_resps b' = br_resps b \<and> br_respEvent b' = br_respEvent b \<and>
    br_reqs b' = br_reqs b @ (if x then [(t, pkt)] else []) \<and> (\<not> x \<longrightarrow> br_retryReq b') \<and> same_bridge b b'"
proof -
  have nr: "b = b\<lparr>br_retryReq := False\<rparr>" if "\<not> br_retryReq b" using that by simp
  have lim: "0 < unat (reqQueueLimit b)" "0 < unat (respQueueLimit b)" "unat (outstandingResponses b) = reserved_places w b"
    using assms(1) by (simp_all add: br_ok_def)
  consider "br_retryReq b" | "\<not> br_retryReq b" "reqQueueFull b \<or> needsResponse (pcmd pkt) \<and> respQueueFull b"
    | "\<not> br_retryReq b" "\<not> reqQueueFull b" "\<not> (needsResponse (pcmd pkt) \<and> respQueueFull b)" by blast
  then show ?thesis
  proof cases
    case 1
    then show ?thesis using assms(1,2) by (intro exI [of _ False] exI [of _ b]) (simp add: bridge_recvTimingReq_def same_bridge_def)
  next
    case 2
    have "br_reqs b \<noteq> [] \<or> 0 < reserved_places w b"
      using 2(2) lim by (auto simp: reqQueueFull_def respQueueFull_def)
    then have "br_ok now w (b\<lparr>br_retryReq := True\<rparr>)" using assms(1) by (simp add: br_ok_def reserved_places_def)
    moreover have "bridge_recvTimingReq now pkt d b = Inr (False, b\<lparr>br_retryReq := True\<rparr>)"
      using 2 assms(2) by (auto simp: bridge_recvTimingReq_def)
    ultimately show ?thesis by (intro exI [of _ False] exI [of _ "b\<lparr>br_retryReq := True\<rparr>"]) (simp add: same_bridge_def)
  next
    case 3
    let ?n = "needsResponse (pcmd pkt)"
    let ?b1 = "if ?n then b\<lparr>outstandingResponses := outstandingResponses b + 1\<rparr> else b"
    have out: "unat (outstandingResponses ?b1) = reserved_places w b + (if ?n then 1 else 0) \<and> reserved_places w b + (if ?n then 1 else 0) \<le> unat (respQueueLimit b)"
    proof (cases ?n)
      case True
      then have "reserved_places w b < unat (respQueueLimit b)"
        using 3(3) assms(1) lim(3) by (auto simp: br_ok_def respQueueFull_def word_unat_eq_iff)
      moreover have "unat (respQueueLimit b) < 2 ^ 32" using unsigned_less [of "respQueueLimit b", where ?'a = nat] by simp
      ultimately show ?thesis using True lim(3) by (simp add: unat_word_ariths)
    qed (use assms(1) in \<open>simp add: br_ok_def\<close>)
    have r: "unat now + 2 * unat (br_period ?b1) + unat (br_period ?b1) * unat (br_delay ?b1) + unat d < 2 ^ 64"
      using assms(3) by (simp add: br_time_def)
    have c: "clock_inv (br_period ?b1) now (br_clock ?b1)" "0 < unat (br_period ?b1)" using assms(1) by (simp_all add: br_ok_def)
    obtain t c where e: "br_clockEdge now (br_delay ?b1) ?b1 = (t, ?b1\<lparr>br_clock := c\<rparr>)" "now \<le> t + d" "clock_inv (br_period ?b1) now c"
      using br_clockEdge_ok [OF c r] by blast
    let ?w = "t + d"
    let ?b' = "?b1\<lparr>br_clock := c, br_reqEvent := if br_reqs b = [] then Some ?w else br_reqEvent b, br_reqs := br_reqs b @ [(?w, pkt)]\<rparr>"
    have ev: "br_reqEvent b = None" if "br_reqs b = []" using that assms(1) by (simp add: br_ok_def timed_def)
    have st: "schedTimingReq now pkt ?w (?b1\<lparr>br_clock := c\<rparr>) = Inr ?b'"
      using e(2) 3(2) ev by (auto simp: schedTimingReq_def sched_req_def reqQueueFull_def)
    have "bridge_recvTimingReq now pkt d b = Inr (True, ?b')"
      using 3 assms(2) e(1) st by (auto simp: bridge_recvTimingReq_def respQueueFull_def)
    moreover have "br_ok now w ?b'"
    proof -
      have "timed now (bw_waitReq w) (if br_reqs b = [] then Some ?w else br_reqEvent b) (br_reqs b @ [(?w, pkt)])"
        using assms(1) e(2) by (intro timed_append [of now "bw_waitReq w" "br_reqEvent b"]) (simp_all add: br_ok_def)
      moreover have "length (br_reqs b) < unat (reqQueueLimit b)" using assms(1) 3(2) by (simp add: br_ok_def reqQueueFull_def)
      moreover have "reserved_places w ?b' = reserved_places w b + (if ?n then 1 else 0)" by (simp add: reserved_places_def)
      ultimately show ?thesis using assms(1) out e(3) c(2) 3(1) by (cases ?n) (simp_all add: br_ok_def)
    qed
    ultimately show ?thesis by (intro exI [of _ True] exI [of _ ?b'] exI [of _ ?w]) (simp add: same_bridge_def)
  qed
qed

lemma recv_reqs_step:
  assumes "br_ok now w b" "\<forall>(p, d) \<in> set rs. \<not> cacheResponding p \<and> br_time now d b"
  shows "\<exists>xs b'. recv_reqs now rs b = Inr (xs, b') \<and> br_ok now w b' \<and> br_resps b' = br_resps b \<and> br_respEvent b' = br_respEvent b \<and>
    length xs = length rs \<and> map snd (br_reqs b') = map snd (br_reqs b) @ map fst (map snd (filter fst (zip xs rs))) \<and> same_bridge b b'"
  using assms
proof (induction rs arbitrary: b)
  case Nil
  then show ?case by (simp add: same_bridge_def)
next
  case (Cons r rs)
  obtain p d where r: "r = (p, d)" by (cases r)
  obtain x b1 t where s1: "bridge_recvTimingReq now p d b = Inr (x, b1)" "br_ok now w b1" "br_resps b1 = br_resps b"
    "br_respEvent b1 = br_respEvent b" "br_reqs b1 = br_reqs b @ (if x then [(t, p)] else [])" "same_bridge b b1"
    using recvReq_step [OF Cons.prems(1), of p d] Cons.prems(2) r by auto
  have "\<forall>(p, d) \<in> set rs. \<not> cacheResponding p \<and> br_time now d b1" using Cons.prems(2) same_bridge_time [OF s1(6)] by auto
  from Cons.IH [OF s1(2) this] obtain xs b2 where s2: "recv_reqs now rs b1 = Inr (xs, b2)" "br_ok now w b2" "br_resps b2 = br_resps b1"
    "br_respEvent b2 = br_respEvent b1" "length xs = length rs"
    "map snd (br_reqs b2) = map snd (br_reqs b1) @ map fst (map snd (filter fst (zip xs rs)))" "same_bridge b1 b2" by blast
  have "recv_reqs now (r # rs) b = Inr (x # xs, b2)" using s1(1) s2(1) r by simp
  moreover have "same_bridge b b2" using s1(6) s2(7) by (simp add: same_bridge_def)
  ultimately show ?case using s1(3-5) s2(2-6) r by (intro exI [of _ "x # xs"] exI [of _ b2]) simp
qed

definition req_due :: "Tick \<Rightarrow> br_world \<Rightarrow> Bridge \<Rightarrow> bool" where
  "req_due now w b \<longleftrightarrow> br_reqEvent b = Some now \<or> bw_waitReq w"

definition resp_due :: "Tick \<Rightarrow> br_world \<Rightarrow> Bridge \<Rightarrow> bool" where
  "resp_due now w b \<longleftrightarrow> br_respEvent b = Some now \<or> bw_waitResp w"

text \<open>Both ways of getting a queue to send come down to the same operation, with the event off the event queue.\<close>

definition send_req :: "Tick \<Rightarrow> br_world \<Rightarrow> bool \<Rightarrow> Bridge \<Rightarrow> (bool \<times> Bridge) res" where
  "send_req now w sent b = (if bw_waitReq w then bridge_recvReqRetry now sent b else reqSendEvent now sent b)"

definition send_resp :: "Tick \<Rightarrow> br_world \<Rightarrow> bool \<times> (Packet \<times> Tick) list \<Rightarrow> Bridge \<Rightarrow> (bool \<times> bool list \<times> Bridge) res" where
  "send_resp now w ans b = (if bw_waitResp w then bridge_recvRespRetry now ans b else respSendEvent now ans b)"

lemma timed_due:
  assumes "timed now wait ev l" "ev = Some now \<or> wait"
  shows "l \<noteq> []" "fst (hd l) \<le> now" "wait \<Longrightarrow> ev = None"
  using assms by (auto simp: timed_def split: if_splits)

lemma timed_wait: "l \<noteq> [] \<Longrightarrow> fst (hd l) \<le> now \<Longrightarrow> timed now True None l"
  by (simp add: timed_def)

lemma timed_next: "l \<noteq> [] \<Longrightarrow> now \<le> t \<Longrightarrow> timed now False (Some (max (fst (hd l)) t)) l"
  by (simp add: timed_def le_max_iff_disj)

lemma sendReq_step:
  assumes "br_ok now w b" "req_due now w b" "br_time now 0 b"
  shows "\<exists>x b'. send_req now w sent b = Inr (x, b') \<and> same_bridge b b' \<and> br_resps b' = br_resps b \<and>
    br_reqs b' = (if sent then tl (br_reqs b) else br_reqs b) \<and>
    br_ok now (w\<lparr>bw_waitReq := \<not> sent, bw_down := bw_down w + (if sent \<and> needsResponse (pcmd (snd (hd (br_reqs b)))) then 1 else 0)\<rparr>) b' \<and>
    (x \<longleftrightarrow> sent \<and> br_retryReq b) \<and> (sent \<longrightarrow> \<not> br_retryReq b')"
proof -
  let ?b = "b\<lparr>br_reqEvent := None\<rparr>"
  have td: "timed now (bw_waitReq w) (br_reqEvent b) (br_reqs b)" using assms(1) by (simp add: br_ok_def)
  note due = timed_due [OF td assms(2) [unfolded req_due_def]]
  have "?b = b" if "bw_waitReq w" using due(3) [OF that] by (cases b) simp
  then have sr: "send_req now w sent b = trySendTimingReq now sent ?b"
    by (cases "bw_waitReq w") (simp_all add: send_req_def bridge_recvReqRetry_def reqSendEvent_def)
  obtain h l where l: "br_reqs b = h # l" using due(1) by (cases "br_reqs b") simp_all
  show ?thesis
  proof (cases sent)
    case False
    have "br_ok now (w\<lparr>bw_waitReq := True\<rparr>) ?b"
      using assms(1) timed_wait [OF due(1,2)] by (simp add: br_ok_def reserved_places_def)
    moreover have "trySendTimingReq now sent ?b = Inr (False, ?b)" using False due(1,2) by (simp add: trySendTimingReq_def)
    ultimately show ?thesis using False sr by (intro exI [of _ False] exI [of _ ?b]) (simp add: same_bridge_def)
  next
    case True
    have c: "clock_inv (br_period ?b) now (br_clock ?b)" "0 < unat (br_period ?b)" using assms(1) by (simp_all add: br_ok_def)
    have r: "unat now + 2 * unat (br_period ?b) + unat (br_period ?b) * unat (0 :: u64) + unat (0 :: Tick) < 2 ^ 64"
      using assms(3) by (simp add: br_time_def)
    let ?l = "?b\<lparr>br_reqs := l\<rparr>"
    have cl: "clock_inv (br_period ?l) now (br_clock ?l)" "0 < unat (br_period ?l)" using c by simp_all
    have rl: "unat now + 2 * unat (br_period ?l) + unat (br_period ?l) * unat (0 :: u64) + unat (0 :: Tick) < 2 ^ 64" using r by simp
    obtain t k where e: "br_clockEdge now 0 ?l = (t, ?l\<lparr>br_clock := k\<rparr>)" "now \<le> t" "clock_inv (br_period b) now k"
      using br_clockEdge_ok [OF cl rl] by auto
    define b' where "b' = (if l = [] then ?l else ?l\<lparr>br_clock := k, br_reqEvent := Some (max (fst (hd l)) t)\<rparr>)\<lparr>br_retryReq := False\<rparr>"
    have "now \<le> max (fst (hd l)) t" using e(2) by (simp add: le_max_iff_disj)
    then have "trySendTimingReq now sent ?b = Inr (br_retryReq b, b')"
      using True due(1,2) l e(1) by (cases "br_retryReq b") (simp_all add: trySendTimingReq_def Let_def sched_req_def retryStalledReq_def b'_def)
    moreover have "br_ok now (w\<lparr>bw_waitReq := False, bw_down := bw_down w + (if needsResponse (pcmd (snd h)) then 1 else 0)\<rparr>) b'"
    proof -
      have "timed now False (br_reqEvent b') l"
        using timed_next [OF _ e(2), of l] by (simp add: b'_def timed_def [of now False None])
      then show ?thesis using assms(1) l e(3) by (auto simp: br_ok_def reserved_places_def b'_def)
    qed
    moreover have "same_bridge b b'" "br_resps b' = br_resps b" "br_reqs b' = l" "\<not> br_retryReq b'" by (simp_all add: same_bridge_def b'_def)
    ultimately show ?thesis using True l sr by auto
  qed
qed

lemma sendResp_step:
  assumes "br_ok now w b" "resp_due now w b" "br_time now 0 b"
    and "\<forall>(p, d) \<in> set (snd ans). \<not> cacheResponding p \<and> br_time now d b"
  shows "\<exists>x xs b'. send_resp now w ans b = Inr (x, xs, b') \<and> same_bridge b b' \<and>
    br_resps b' = (if fst ans then tl (br_resps b) else br_resps b) \<and> length xs = length (snd ans) \<and>
    map snd (br_reqs b') = map snd (br_reqs b) @ map fst (map snd (filter fst (zip xs (snd ans)))) \<and>
    br_ok now (w\<lparr>bw_waitResp := \<not> fst ans\<rparr>) b'"
proof -
  let ?b = "b\<lparr>br_respEvent := None\<rparr>" let ?w = "w\<lparr>bw_waitResp := True\<rparr>"
  have td: "timed now (bw_waitResp w) (br_respEvent b) (br_resps b)" using assms(1) by (simp add: br_ok_def)
  note due = timed_due [OF td assms(2) [unfolded resp_due_def]]
  have "?b = b" if "bw_waitResp w" using due(3) [OF that] by (cases b) simp
  then have sr: "send_resp now w ans b = trySendTimingResp now ans ?b"
    by (cases "bw_waitResp w") (simp_all add: send_resp_def bridge_recvRespRetry_def respSendEvent_def)
  have ok: "br_ok now ?w ?b" using assms(1) timed_wait [OF due(1,2)] by (simp add: br_ok_def reserved_places_def)
  have calls: "\<forall>(p, d) \<in> set (snd ans). \<not> cacheResponding p \<and> br_time now d ?b" using assms(4) by (simp add: br_time_def)
  obtain xs b0 where b0: "recv_reqs now (snd ans) ?b = Inr (xs, b0)" "br_ok now ?w b0" "br_resps b0 = br_resps b" "br_respEvent b0 = None"
    "length xs = length (snd ans)" "map snd (br_reqs b0) = map snd (br_reqs b) @ map fst (map snd (filter fst (zip xs (snd ans))))"
    "same_bridge b b0"
    using recv_reqs_step [OF ok calls] by (auto simp: same_bridge_def)
  obtain h l where l: "br_resps b = h # l" using due(1) by (cases "br_resps b") simp_all
  show ?thesis
  proof (cases "fst ans")
    case False
    then have "trySendTimingResp now ans ?b = Inr (False, xs, b0)" using due(1,2) b0(1) by (simp add: trySendTimingResp_def)
    then show ?thesis using False sr b0 by (intro exI [of _ False] exI [of _ xs] exI [of _ b0]) simp
  next
    case True
    have out: "unat (outstandingResponses b0) = reserved_places ?w b0" "0 < reserved_places ?w b0"
      using b0(2,3) l by (simp_all add: br_ok_def reserved_places_def)
    then have nz: "outstandingResponses b0 \<noteq> 0" by (metis less_irrefl unat_0)
    then have dec: "unat (outstandingResponses b0 - 1) = reserved_places ?w b0 - 1" using out(1) unat_minus_one [of "outstandingResponses b0"] by simp
    let ?l = "b0\<lparr>br_resps := l, outstandingResponses := outstandingResponses b0 - 1\<rparr>"
    have cl: "clock_inv (br_period ?l) now (br_clock ?l)" "0 < unat (br_period ?l)" using b0(2) by (simp_all add: br_ok_def)
    have rl: "unat now + 2 * unat (br_period ?l) + unat (br_period ?l) * unat (0 :: u64) + unat (0 :: Tick) < 2 ^ 64"
      using assms(3) b0(7) by (simp add: br_time_def same_bridge_def)
    obtain t k where e: "br_clockEdge now 0 ?l = (t, ?l\<lparr>br_clock := k\<rparr>)" "now \<le> t" "clock_inv (br_period b0) now k"
      using br_clockEdge_ok [OF cl rl] by auto
    define b4 where "b4 = (if l = [] then ?l else ?l\<lparr>br_clock := k, br_respEvent := Some (max (fst (hd l)) t)\<rparr>)"
    define x where "x \<longleftrightarrow> \<not> reqQueueFull b4 \<and> br_retryReq b4"
    define b' where "b' = (if x then b4\<lparr>br_retryReq := False\<rparr> else b4)"
    have "now \<le> max (fst (hd l)) t" using e(2) by (simp add: le_max_iff_disj)
    then have "trySendTimingResp now ans ?b = Inr (x, xs, b')"
      using True due(1,2) b0(1,3,4) nz l e(1)
      by (simp add: trySendTimingResp_def Let_def sched_resp_def b4_def [symmetric] x_def b'_def) (simp add: b4_def)
    moreover have "br_ok now (w\<lparr>bw_waitResp := False\<rparr>) b'"
    proof -
      have "timed now False (br_respEvent b4) l"
        using timed_next [OF _ e(2), of l] b0(4) by (simp add: b4_def timed_def [of now False None])
      moreover have "br_retryReq b' \<longrightarrow> br_reqs b' \<noteq> []"
        using b0(2) by (auto simp: b'_def x_def reqQueueFull_def br_ok_def b4_def)
      moreover have sel: "br_reqs b' = br_reqs b0" "br_reqEvent b' = br_reqEvent b0" "br_resps b' = l" "br_respEvent b' = br_respEvent b4"
        "outstandingResponses b' = outstandingResponses b0 - 1" "reqQueueLimit b' = reqQueueLimit b0" "respQueueLimit b' = respQueueLimit b0"
        "br_period b' = br_period b0" "clock_inv (br_period b0) now (br_clock b')"
        using e(3) cl(1) by (simp_all add: b'_def b4_def)
      moreover have rp: "reserved_places (w\<lparr>bw_waitResp := False\<rparr>) b' = reserved_places ?w b0 - 1"
        using b0(3) l by (simp add: reserved_places_def sel)
      moreover have "reserved_places ?w b0 - 1 \<le> unat (respQueueLimit b0)" using b0(2) by (auto simp: br_ok_def)
      ultimately show ?thesis using b0(2) dec unfolding br_ok_def sel rp by simp
    qed
    moreover have "same_bridge b b'" "br_resps b' = l" "br_reqs b' = br_reqs b0" using b0(7) by (simp_all add: same_bridge_def b'_def b4_def)
    ultimately show ?thesis using True l sr b0(5,6) by (intro exI [of _ x] exI [of _ xs] exI [of _ b']) simp
  qed
qed

lemma recvResp_step:
  assumes "br_ok now w b" "0 < bw_down w" "br_time now d b"
  shows "\<exists>b' t. bridge_recvTimingResp now p d b = Inr b' \<and> br_ok now (w\<lparr>bw_down := bw_down w - 1\<rparr>) b' \<and> same_bridge b b' \<and>
    br_resps b' = br_resps b @ [(t, p)] \<and> br_reqs b' = br_reqs b"
proof -
  have c: "clock_inv (br_period b) now (br_clock b)" "0 < unat (br_period b)" using assms(1) by (simp_all add: br_ok_def)
  have r: "unat now + 2 * unat (br_period b) + unat (br_period b) * unat (br_delay b) + unat d < 2 ^ 64" using assms(3) by (simp add: br_time_def)
  obtain t k where e: "br_clockEdge now (br_delay b) b = (t, b\<lparr>br_clock := k\<rparr>)" "now \<le> t + d" "clock_inv (br_period b) now k"
    using br_clockEdge_ok [OF c r] by blast
  let ?w = "t + d"
  let ?b' = "b\<lparr>br_clock := k, br_respEvent := if br_resps b = [] then Some ?w else br_respEvent b, br_resps := br_resps b @ [(?w, p)]\<rparr>"
  have ev: "br_respEvent b = None" if "br_resps b = []" using that assms(1) by (simp add: br_ok_def timed_def)
  have "bridge_recvTimingResp now p d b = Inr ?b'"
    using e(1,2) ev by (auto simp: bridge_recvTimingResp_def schedTimingResp_def sched_resp_def)
  moreover have "timed now (bw_waitResp w) (if br_resps b = [] then Some ?w else br_respEvent b) (br_resps b @ [(?w, p)])"
    using assms(1) e(2) by (intro timed_append [of now "bw_waitResp w" "br_respEvent b"]) (simp_all add: br_ok_def)
  moreover have rp: "reserved_places (w\<lparr>bw_down := bw_down w - 1\<rparr>) ?b' = reserved_places w b" using assms(2) by (simp add: reserved_places_def)
  ultimately have "br_ok now (w\<lparr>bw_down := bw_down w - 1\<rparr>) ?b'"
    using assms(1) e(3) unfolding br_ok_def rp by auto
  then show ?thesis using \<open>bridge_recvTimingResp now p d b = Inr ?b'\<close> by (intro exI [of _ ?b'] exI [of _ ?w]) (simp add: same_bridge_def)
qed

section \<open>The life of a bridge\<close>

text \<open>
  The trace has the requests accepted and those sent on, the responses received and those delivered. A response comes
  only for a request that was sent on and needs one.
\<close>

inductive br_reach :: "Tick \<Rightarrow> br_world \<Rightarrow> Bridge \<Rightarrow> Packet list \<Rightarrow> Packet list \<Rightarrow> Packet list \<Rightarrow> Packet list \<Rightarrow> bool" where
  br_start: "0 < period \<Longrightarrow> 0 < req_limit \<Longrightarrow> 0 < resp_limit \<Longrightarrow>
    br_reach now \<lparr>bw_waitReq = False, bw_waitResp = False, bw_down = 0\<rparr> (Bridge_new period delay req_limit resp_limit) [] [] [] []"
| br_wait: "br_reach now w b A F R D \<Longrightarrow> now \<le> t \<Longrightarrow> (\<forall>x. br_reqEvent b = Some x \<or> br_respEvent b = Some x \<longrightarrow> t \<le> x) \<Longrightarrow> br_reach t w b A F R D"
| br_request: "br_reach now w b A F R D \<Longrightarrow> \<not> cacheResponding p \<Longrightarrow> br_time now d b \<Longrightarrow> bridge_recvTimingReq now p d b = Inr (x, b') \<Longrightarrow>
    br_reach now w b' (A @ (if x then [p] else [])) F R D"
| br_forward: "br_reach now w b A F R D \<Longrightarrow> req_due now w b \<Longrightarrow> br_time now 0 b \<Longrightarrow> send_req now w sent b = Inr (x, b') \<Longrightarrow>
    br_reach now (w\<lparr>bw_waitReq := \<not> sent, bw_down := bw_down w + (if sent \<and> needsResponse (pcmd (snd (hd (br_reqs b)))) then 1 else 0)\<rparr>) b'
      A (F @ (if sent then [snd (hd (br_reqs b))] else [])) R D"
| br_response: "br_reach now w b A F R D \<Longrightarrow> 0 < bw_down w \<Longrightarrow> br_time now d b \<Longrightarrow> bridge_recvTimingResp now p d b = Inr b' \<Longrightarrow>
    br_reach now (w\<lparr>bw_down := bw_down w - 1\<rparr>) b' A F (R @ [p]) D"
| br_deliver: "br_reach now w b A F R D \<Longrightarrow> resp_due now w b \<Longrightarrow> br_time now 0 b \<Longrightarrow>
    (\<forall>(p, d) \<in> set (snd ans). \<not> cacheResponding p \<and> br_time now d b) \<Longrightarrow> send_resp now w ans b = Inr (x, xs, b') \<Longrightarrow>
    br_reach now (w\<lparr>bw_waitResp := \<not> fst ans\<rparr>) b' (A @ map fst (map snd (filter fst (zip xs (snd ans))))) F
      R (D @ (if fst ans then [snd (hd (br_resps b))] else []))"

lemma timed_later: "timed now wait ev l \<Longrightarrow> now \<le> t \<Longrightarrow> (\<forall>x. ev = Some x \<longrightarrow> t \<le> x) \<Longrightarrow> timed t wait ev l"
  by (cases ev) (auto simp: timed_def split: if_splits)

lemma br_invariant:
  "br_reach now w b A F R D \<Longrightarrow> br_ok now w b \<and> A = F @ map snd (br_reqs b) \<and> R = D @ map snd (br_resps b)"
proof (induction rule: br_reach.induct)
  case (br_start period req_limit resp_limit now delay)
  then have "0 < unat period" "0 < unat req_limit" "0 < unat resp_limit" by (simp_all add: word_less_nat_alt)
  then show ?case by (simp add: Bridge_new_def br_ok_def timed_def reserved_places_def clock_inv_def Clock_init_def)
next
  case (br_wait now w b A F R D t)
  have "clock_inv (br_period b) t (br_clock b)" using br_wait.IH br_wait.hyps(2) by (auto simp: br_ok_def clock_inv_def word_le_nat_alt)
  moreover have "timed t (bw_waitReq w) (br_reqEvent b) (br_reqs b)" "timed t (bw_waitResp w) (br_respEvent b) (br_resps b)"
    using br_wait.IH timed_later [OF _ br_wait.hyps(2)] br_wait.hyps(3) by (simp_all add: br_ok_def)
  ultimately show ?case using br_wait.IH by (simp add: br_ok_def)
next
  case (br_request now w b A F R D p d x b')
  have ok: "br_ok now w b" using br_request.IH by blast
  show ?case using recvReq_step [OF ok br_request.hyps(2,3)] br_request.hyps(4) br_request.IH by auto
next
  case (br_forward now w b A F R D sent x b')
  have ok: "br_ok now w b" using br_forward.IH by blast
  have ne: "br_reqs b \<noteq> []"
    using timed_due(1) [of now "bw_waitReq w" "br_reqEvent b" "br_reqs b"] ok br_forward.hyps(2) by (simp add: br_ok_def req_due_def)
  have "br_ok now (w\<lparr>bw_waitReq := \<not> sent, bw_down := bw_down w + (if sent \<and> needsResponse (pcmd (snd (hd (br_reqs b)))) then 1 else 0)\<rparr>) b'"
    "br_resps b' = br_resps b" "br_reqs b' = (if sent then tl (br_reqs b) else br_reqs b)"
    using sendReq_step [OF ok br_forward.hyps(2,3), of sent] br_forward.hyps(4) by auto
  then show ?case using br_forward.IH ne by (cases "br_reqs b") auto
next
  case (br_response now w b A F R D d p b')
  have ok: "br_ok now w b" using br_response.IH by blast
  show ?case using recvResp_step [OF ok br_response.hyps(2,3), of p] br_response.hyps(4) br_response.IH by auto
next
  case (br_deliver now w b A F R D ans x xs b')
  have ok: "br_ok now w b" using br_deliver.IH by blast
  have ne: "br_resps b \<noteq> []"
    using timed_due(1) [of now "bw_waitResp w" "br_respEvent b" "br_resps b"] ok br_deliver.hyps(2) by (simp add: br_ok_def resp_due_def)
  have "br_ok now (w\<lparr>bw_waitResp := \<not> fst ans\<rparr>) b'" "br_resps b' = (if fst ans then tl (br_resps b) else br_resps b)"
    "map snd (br_reqs b') = map snd (br_reqs b) @ map fst (map snd (filter fst (zip xs (snd ans))))"
    using sendResp_step [OF ok br_deliver.hyps(2-4)] br_deliver.hyps(5) by auto
  then show ?case using br_deliver.IH ne by (cases "br_resps b") auto
qed

text \<open>C30: A bridge delivers requests and responses in the order in which it accepted them, loses none and sends none twice,
  and neither queue grows beyond its limit: the place of a response is there when it comes.\<close>
theorem bridge_keeps_order:
  assumes "br_reach now w b A F R D"
  shows "A = F @ map snd (br_reqs b) \<and> R = D @ map snd (br_resps b) \<and>
    length (br_reqs b) \<le> unat (reqQueueLimit b) \<and> length (br_resps b) \<le> unat (respQueueLimit b)"
  using br_invariant [OF assms] by (auto simp: br_ok_def reserved_places_def)

text \<open>C31: A bridge never gets stuck and no assertion of it fails: every queue that is not empty has its event scheduled or
  is owed a retry, a requester that was refused is owed a retry only while there is something left whose
  progress brings it, and every request, response, event and retry is handled without an error.\<close>
theorem bridge_never_stuck:
  assumes "br_reach now w b A F R D" "br_time now d b"
  shows "(br_reqs b = [] \<or> bw_waitReq w \<or> (\<exists>t \<ge> now. br_reqEvent b = Some t \<and> fst (hd (br_reqs b)) \<le> t)) \<and>
    (br_resps b = [] \<or> bw_waitResp w \<or> (\<exists>t \<ge> now. br_respEvent b = Some t \<and> fst (hd (br_resps b)) \<le> t)) \<and>
    (br_retryReq b \<longrightarrow> br_reqs b \<noteq> [] \<or> br_resps b \<noteq> [] \<or> 0 < bw_down w) \<and>
    (\<not> cacheResponding p \<longrightarrow> (\<exists>x b'. bridge_recvTimingReq now p d b = Inr (x, b') \<and> (x \<or> br_retryReq b'))) \<and>
    (0 < bw_down w \<longrightarrow> (\<exists>b'. bridge_recvTimingResp now p d b = Inr b')) \<and>
    (req_due now w b \<longrightarrow> (\<exists>x b'. send_req now w sent b = Inr (x, b') \<and> (sent \<longrightarrow> x = br_retryReq b))) \<and>
    (resp_due now w b \<longrightarrow> (\<exists>x xs b'. send_resp now w (sent, []) b = Inr (x, xs, b')))"
proof -
  have ok: "br_ok now w b" using br_invariant [OF assms(1)] by blast
  have t0: "br_time now 0 b" using assms(2) by (simp add: br_time_def)
  have "br_reqs b = [] \<or> bw_waitReq w \<or> (\<exists>t \<ge> now. br_reqEvent b = Some t \<and> fst (hd (br_reqs b)) \<le> t)"
    "br_resps b = [] \<or> bw_waitResp w \<or> (\<exists>t \<ge> now. br_respEvent b = Some t \<and> fst (hd (br_resps b)) \<le> t)"
    using ok by (auto simp: br_ok_def timed_def split: if_splits option.splits)
  moreover have "br_retryReq b \<longrightarrow> br_reqs b \<noteq> [] \<or> br_resps b \<noteq> [] \<or> 0 < bw_down w"
    using ok by (auto simp: br_ok_def reserved_places_def)
  moreover have "\<exists>x b'. bridge_recvTimingReq now p d b = Inr (x, b') \<and> (x \<or> br_retryReq b')" if "\<not> cacheResponding p"
    using recvReq_step [OF ok that assms(2)] by blast
  moreover have "\<exists>b'. bridge_recvTimingResp now p d b = Inr b'" if "0 < bw_down w" using recvResp_step [OF ok that assms(2)] by blast
  moreover have "\<exists>x b'. send_req now w sent b = Inr (x, b') \<and> (sent \<longrightarrow> x = br_retryReq b)" if "req_due now w b"
    using sendReq_step [OF ok that t0, of sent] by blast
  moreover have "\<exists>x xs b'. send_resp now w (sent, []) b = Inr (x, xs, b')" if "resp_due now w b"
    using sendResp_step [OF ok that t0, of "(sent, [])"] by auto
  ultimately show ?thesis by blast
qed

section \<open>An example\<close>

definition ex_bridge :: Bridge where "ex_bridge = Bridge_new 2 4 1 1"

lemma ex_bridge_start:
  "br_reach 0 \<lparr>bw_waitReq = False, bw_waitResp = False, bw_down = 0\<rparr> ex_bridge [] [] [] []" "br_time 0 0 ex_bridge" "\<not> cacheResponding ex_queued"
proof -
  show "br_reach 0 \<lparr>bw_waitReq = False, bw_waitResp = False, bw_down = 0\<rparr> ex_bridge [] [] [] []"
    unfolding ex_bridge_def by (rule br_start) simp_all
  have "ticksToCycles 2 4 = 2" by code_simp
  then show "br_time 0 0 ex_bridge" by (simp add: br_time_def ex_bridge_def Bridge_new_def)
  show "\<not> cacheResponding ex_queued" by (simp add: cacheResponding_def ex_queued_def Packet_new_phys isSet_def)
qed

theorem bridge_never_stuck_witness:
  "\<exists>x b'. bridge_recvTimingReq 0 ex_queued 0 ex_bridge = Inr (x, b') \<and> (x \<or> br_retryReq b')"
proof -
  have "\<not> cacheResponding ex_queued \<longrightarrow> (\<exists>x b'. bridge_recvTimingReq 0 ex_queued 0 ex_bridge = Inr (x, b') \<and> (x \<or> br_retryReq b'))"
    using bridge_never_stuck [OF ex_bridge_start(1,2), of ex_queued False] by (elim conjE) assumption
  then show ?thesis using ex_bridge_start(3) by (rule mp)
qed

theorem bridge_keeps_order_witness:
  "\<exists>x b'. bridge_recvTimingReq 0 ex_queued 0 ex_bridge = Inr (x, b') \<and> map snd (br_reqs b') = (if x then [ex_queued] else [])"
proof -
  obtain x b' where b': "bridge_recvTimingReq 0 ex_queued 0 ex_bridge = Inr (x, b')"
    using recvReq_step [OF _ ex_bridge_start(3,2)] br_invariant [OF ex_bridge_start(1)] by blast
  from bridge_keeps_order [OF br_request [OF ex_bridge_start(1,3,2) b']] show ?thesis using b' by auto
qed

end
