(* ===== verification/Port_Proxy.thy ===== *)
theory Port_Proxy
  imports Abstract_Mem Int_Math
begin

text \<open>
  Blocks of bytes read and written over a port, from \<^verbatim>\<open>src/mem/port_proxy.cc\<close>: the block is cut at the boundaries
  of cache lines by the generator of \<^verbatim>\<open>src/base/chunk_generator.hh\<close>, and each piece is one functional access.
  The port is a parameter; the theorems take the memory for it.
\<close>

section \<open>Chunks\<close>

record ChunkGenerator =
  curAddr :: Addr
  nextAddr :: Addr
  curSize :: u32
  sizeLeft :: u32
  startAddr :: Addr
  chunkSize :: u32

definition ChunkGenerator_new :: "Addr \<Rightarrow> u32 \<Rightarrow> u32 \<Rightarrow> ChunkGenerator res" where
  "ChunkGenerator_new start tot chunk =
     assertR (chunk = 0 \<or> isPowerOf2 (ucast chunk :: u64))
     (let next0 = (if chunk = 0 then start + ucast tot
                   else (let r = roundUp start (ucast chunk) in if start = r then r + ucast chunk else r));
          left_in_chunk = ucast (next0 - start) :: u32;
          sz = min tot left_in_chunk in
      ok \<lparr>curAddr = start, nextAddr = next0, curSize = sz, sizeLeft = tot - sz, startAddr = start, chunkSize = chunk\<rparr>)"

definition cg_complete :: "ChunkGenerator \<Rightarrow> u32" where "cg_complete g = ucast (curAddr g - startAddr g)"
definition cg_done :: "ChunkGenerator \<Rightarrow> bool" where "cg_done g \<longleftrightarrow> curSize g = 0"
definition cg_last :: "ChunkGenerator \<Rightarrow> bool" where "cg_last g \<longleftrightarrow> sizeLeft g = 0"

definition cg_next :: "ChunkGenerator \<Rightarrow> bool \<times> ChunkGenerator" where
  "cg_next g =
     (if sizeLeft g = 0 then (False, g\<lparr>curSize := 0\<rparr>)
      else (let n = min (sizeLeft g) (chunkSize g) in
        (True, g\<lparr>curAddr := nextAddr g, curSize := n, sizeLeft := sizeLeft g - n, nextAddr := nextAddr g + ucast n\<rparr>)))"

lemma cg_next_less:
  assumes "\<not> cg_done g"
  shows "unat (curSize (snd (cg_next g))) + unat (sizeLeft (snd (cg_next g))) < unat (curSize g) + unat (sizeLeft g)"
proof (cases "sizeLeft g = 0")
  case True
  then show ?thesis using assms by (simp add: cg_next_def cg_done_def unat_gt_0)
next
  case False
  let ?n = "min (sizeLeft g) (chunkSize g)"
  have "?n \<le> sizeLeft g" by simp
  then have "unat (sizeLeft g - ?n) = unat (sizeLeft g) - unat ?n" "unat ?n \<le> unat (sizeLeft g)"
    by (simp_all only: unat_sub word_le_nat_alt)
  moreover have "0 < unat (curSize g)" using assms by (simp add: cg_done_def unat_gt_0)
  ultimately show ?thesis using False by (simp add: cg_next_def Let_def)
qed

text \<open>The loop over the chunks of a region; the body gets the address and the size of each.\<close>

function for_chunks :: "(Addr \<Rightarrow> u32 \<Rightarrow> 's \<Rightarrow> 's res) \<Rightarrow> ChunkGenerator \<Rightarrow> 's \<Rightarrow> 's res" where
  "for_chunks body g s =
     (if cg_done g then ok s
      else bindR (body (curAddr g) (curSize g) s) (\<lambda>s'. for_chunks body (snd (cg_next g)) s'))"
  by pat_completeness auto
termination
  by (relation "measure (\<lambda>(_, g, _). unat (curSize g) + unat (sizeLeft g))") (use cg_next_less in auto)

declare for_chunks.simps [simp del]

section \<open>Block accesses\<close>

type_synonym 's port = "Packet \<Rightarrow> 's \<Rightarrow> (Packet \<times> 's) res"

text \<open>A read leaves the bytes of the answer in the caller's buffer, which is the data of the packet.\<close>

definition read_chunk :: "'s port \<Rightarrow> u64 \<Rightarrow> Tick \<Rightarrow> Addr \<Rightarrow> u32 \<Rightarrow> u8 list \<times> nat \<times> 's \<Rightarrow> (u8 list \<times> nat \<times> 's) res" where
  "read_chunk port flags now a n = (\<lambda>(buf, off, s).
     bindR (memcpy (replicate (unat n) 0) 0 buf off (unat n)) (\<lambda>d.
     bindR (dataStatic d (Packet_new (Request_phys a n flags funcMasterId now) ReadReq)) (\<lambda>p.
     bindR (port p s) (\<lambda>(r, s').
     bindR (memcpy buf off (pdata r) 0 (unat n)) (\<lambda>buf'. ok (buf', off + unat n, s'))))))"

definition readBlobPhys :: "'s port \<Rightarrow> u32 \<Rightarrow> Tick \<Rightarrow> Addr \<Rightarrow> u64 \<Rightarrow> u8 list \<Rightarrow> int \<Rightarrow> 's \<Rightarrow> (u8 list \<times> 's) res" where
  "readBlobPhys port line now a flags buf sz s =
     bindR (ChunkGenerator_new a (word_of_int sz) line) (\<lambda>g.
     bindR (for_chunks (read_chunk port flags now) g (buf, 0, s)) (\<lambda>(buf', _, s'). ok (buf', s')))"

definition write_chunk :: "'s port \<Rightarrow> u64 \<Rightarrow> Tick \<Rightarrow> u8 list \<Rightarrow> Addr \<Rightarrow> u32 \<Rightarrow> nat \<times> 's \<Rightarrow> (nat \<times> 's) res" where
  "write_chunk port flags now buf a n = (\<lambda>(off, s).
     bindR (memcpy (replicate (unat n) 0) 0 buf off (unat n)) (\<lambda>d.
     bindR (dataStatic d (Packet_new (Request_phys a n flags funcMasterId now) WriteReq)) (\<lambda>p.
     bindR (port p s) (\<lambda>(_, s'). ok (off + unat n, s')))))"

definition writeBlobPhys :: "'s port \<Rightarrow> u32 \<Rightarrow> Tick \<Rightarrow> Addr \<Rightarrow> u64 \<Rightarrow> u8 list \<Rightarrow> int \<Rightarrow> 's \<Rightarrow> 's res" where
  "writeBlobPhys port line now a flags buf sz s =
     bindR (ChunkGenerator_new a (word_of_int sz) line) (\<lambda>g.
     bindR (for_chunks (write_chunk port flags now buf) g (0, s)) (\<lambda>(_, s'). ok s'))"

definition memsetBlobPhys :: "'s port \<Rightarrow> u32 \<Rightarrow> Tick \<Rightarrow> Addr \<Rightarrow> u64 \<Rightarrow> u8 \<Rightarrow> int \<Rightarrow> 's \<Rightarrow> 's res" where
  "memsetBlobPhys port line now a flags v sz s =
     (if sz < 0 then fail OutOfRange else writeBlobPhys port line now a flags (replicate (nat sz) v) sz s)"

definition secure_readBlob :: "'s port \<Rightarrow> u32 \<Rightarrow> Tick \<Rightarrow> Addr \<Rightarrow> u8 list \<Rightarrow> int \<Rightarrow> 's \<Rightarrow> (u8 list \<times> 's) res" where
  "secure_readBlob port line now a buf sz s = readBlobPhys port line now a SECURE buf sz s"

definition secure_writeBlob :: "'s port \<Rightarrow> u32 \<Rightarrow> Tick \<Rightarrow> Addr \<Rightarrow> u8 list \<Rightarrow> int \<Rightarrow> 's \<Rightarrow> 's res" where
  "secure_writeBlob port line now a buf sz s = writeBlobPhys port line now a SECURE buf sz s"

definition secure_memsetBlob :: "'s port \<Rightarrow> u32 \<Rightarrow> Tick \<Rightarrow> Addr \<Rightarrow> u8 \<Rightarrow> int \<Rightarrow> 's \<Rightarrow> 's res" where
  "secure_memsetBlob port line now a v sz s = memsetBlobPhys port line now a SECURE v sz s"

text \<open>An object of so many bytes, in the order of the host.\<close>

definition proxy_read :: "'s port \<Rightarrow> u32 \<Rightarrow> Tick \<Rightarrow> nat \<Rightarrow> Addr \<Rightarrow> 's \<Rightarrow> (u64 \<times> 's) res" where
  "proxy_read port line now n a s =
     bindR (readBlobPhys port line now a 0 (replicate n 0) (int n) s) (\<lambda>(d, s'). ok (of_le_bytes d, s'))"

definition proxy_write :: "'s port \<Rightarrow> u32 \<Rightarrow> Tick \<Rightarrow> nat \<Rightarrow> Addr \<Rightarrow> u64 \<Rightarrow> 's \<Rightarrow> 's res" where
  "proxy_write port line now n a x s = writeBlobPhys port line now a 0 (le_bytes n x) (int n) s"

section \<open>The chunks of a region\<close>

text \<open>After \<open>k\<close> bytes: the current chunk is next to them and inside one line, and the rest follows it.\<close>

definition cg_ok :: "Addr \<Rightarrow> nat \<Rightarrow> nat \<Rightarrow> ChunkGenerator \<Rightarrow> bool" where
  "cg_ok base tot k g \<longleftrightarrow> k + unat (curSize g) + unat (sizeLeft g) = tot \<and>
     (if curSize g = 0 then sizeLeft g = 0
      else unat (curAddr g) = unat base + k \<and>
        (chunkSize g \<noteq> 0 \<longrightarrow> unat (curAddr g) mod unat (chunkSize g) + unat (curSize g) \<le> unat (chunkSize g))) \<and>
     (sizeLeft g \<noteq> 0 \<longrightarrow> chunkSize g \<noteq> 0 \<and> unat (nextAddr g) = unat base + k + unat (curSize g) \<and>
        unat (nextAddr g) mod unat (chunkSize g) = 0)"

lemma cg_next_ok:
  assumes "cg_ok base tot k g" "curSize g \<noteq> 0" "unat base + tot \<le> 2 ^ 64"
  shows "cg_ok base tot (k + unat (curSize g)) (snd (cg_next g))" "chunkSize (snd (cg_next g)) = chunkSize g"
proof -
  show "chunkSize (snd (cg_next g)) = chunkSize g" by (simp add: cg_next_def Let_def)
  show "cg_ok base tot (k + unat (curSize g)) (snd (cg_next g))"
  proof (cases "sizeLeft g = 0")
    case True
    then show ?thesis using assms(1) by (simp add: cg_ok_def cg_next_def)
  next
    case False
    let ?n = "min (sizeLeft g) (chunkSize g)"
    have c: "chunkSize g \<noteq> 0" "unat (nextAddr g) = unat base + k + unat (curSize g)" "unat (nextAddr g) mod unat (chunkSize g) = 0"
      "k + unat (curSize g) + unat (sizeLeft g) = tot" using assms(1) False unfolding cg_ok_def by blast+
    have n: "?n \<noteq> 0" using c(1) False by (simp add: min_def)
    have un: "unat ?n = min (unat (sizeLeft g)) (unat (chunkSize g))" by (simp add: min_def word_le_nat_alt)
    have "?n \<le> sizeLeft g" by simp
    then have l: "unat (sizeLeft g - ?n) = unat (sizeLeft g) - unat ?n" "unat ?n \<le> unat (sizeLeft g)"
      by (simp_all only: unat_sub word_le_nat_alt)
    have nx: "unat (nextAddr g + ucast ?n) = unat (nextAddr g) + unat ?n" if "sizeLeft g - ?n \<noteq> 0"
    proof -
      have "0 < unat (sizeLeft g - ?n)" using that by (simp add: unat_gt_0)
      then have "unat (nextAddr g) + unat ?n < 2 ^ 64" using l c(2,4) assms(3) by linarith
      moreover have "unat (nextAddr g + ucast ?n) = (unat (nextAddr g) + unat ?n) mod 2 ^ 64"
        by (simp only: unat_word_ariths unat_ucast_u32) simp
      ultimately show ?thesis by simp
    qed
    have full: "unat ?n = unat (chunkSize g)" if "sizeLeft g - ?n \<noteq> 0"
      using that by (simp add: min_def split: if_splits)
    show ?thesis using False n l nx full c un by (simp add: cg_ok_def cg_next_def Let_def)
  qed
qed

lemma for_chunks_rule:
  assumes "cg_ok base tot k g" "unat base + tot \<le> 2 ^ 64" "chunkSize g = c" "I k s"
    and step: "\<forall>k a n s. I k s \<longrightarrow> unat a = unat base + k \<longrightarrow> 0 < unat n \<longrightarrow> k + unat n \<le> tot \<longrightarrow>
      (c \<noteq> 0 \<longrightarrow> unat a mod unat c + unat n \<le> unat c) \<longrightarrow> (\<exists>s'. body a n s = Inr s' \<and> I (k + unat n) s')"
  shows "\<exists>s'. for_chunks body g s = Inr s' \<and> I tot s'"
  using assms(1,3,4)
proof (induction "unat (curSize g) + unat (sizeLeft g)" arbitrary: g k s rule: less_induct)
  case less
  show ?case
  proof (cases "curSize g = 0")
    case True
    then have "k = tot" using less.prems(1) by (auto simp: cg_ok_def)
    then show ?thesis using True less.prems(3) by (simp add: for_chunks.simps [of body g s] cg_done_def)
  next
    case False
    have nd: "\<not> cg_done g" using False by (simp add: cg_done_def)
    have c: "unat (curAddr g) = unat base + k" "0 < unat (curSize g)" "k + unat (curSize g) \<le> tot"
      "c \<noteq> 0 \<longrightarrow> unat (curAddr g) mod unat c + unat (curSize g) \<le> unat c"
      using less.prems(1,2) False by (auto simp: cg_ok_def unat_gt_0)
    obtain s1 where s1: "body (curAddr g) (curSize g) s = Inr s1" "I (k + unat (curSize g)) s1"
      using step [rule_format, OF less.prems(3) c(1,2,3)] c(4) by blast
    note n = cg_next_ok [OF less.prems(1) False assms(2)]
    have "chunkSize (snd (cg_next g)) = c" using n(2) less.prems(2) by simp
    from less.hyps [OF cg_next_less [OF nd] n(1) this s1(2)] obtain s' where
      "for_chunks body (snd (cg_next g)) s1 = Inr s'" "I tot s'" by blast
    then show ?thesis using s1(1) nd by (simp add: for_chunks.simps [of body g s])
  qed
qed

text \<open>Line sizes the generator takes: none, or a power of two.\<close>

definition line_size :: "u32 \<Rightarrow> bool" where
  "line_size c \<longleftrightarrow> c = 0 \<or> isPowerOf2 (ucast c)"

lemma unat_add_nat: "unat ((a :: u64) + of_nat l) = (unat a + l) mod 2 ^ 64"
  by (simp add: unat_word_ariths unat_of_nat mod_add_right_eq)

lemma next_line:
  assumes "k < 32" "unat a + 2 ^ k \<le> 2 ^ 64"
  defines "r \<equiv> roundUp a (2 ^ k)"
  defines "nx \<equiv> (if a = r then r + 2 ^ k else r)"
  shows "nx - a = of_nat (2 ^ k - unat a mod 2 ^ k)" "unat a + (2 ^ k - unat a mod 2 ^ k) < 2 ^ 64 \<Longrightarrow> unat nx = unat a + (2 ^ k - unat a mod 2 ^ k)"
proof -
  let ?m = "unat a mod 2 ^ k"
  have p: "(0::nat) < 2 ^ k" "?m < 2 ^ k" by simp_all
  have r: "unat r = (unat a + 2 ^ k - 1) div 2 ^ k * 2 ^ k" unfolding r_def using assms(1,2) by (intro roundUp_spec) simp_all
  have d: "unat a = unat a div 2 ^ k * 2 ^ k + ?m" by (rule div_mult_mod_eq [symmetric])
  have eq: "unat r = (if ?m = 0 then unat a else unat a + (2 ^ k - ?m))"
  proof (cases "?m = 0")
    case True
    have "unat a + 2 ^ k - 1 = (2 ^ k - 1) + unat a div 2 ^ k * 2 ^ k" using True d p(1) by linarith
    moreover have "((2 ^ k - 1) + unat a div 2 ^ k * 2 ^ k) div 2 ^ k = unat a div 2 ^ k + (2 ^ k - 1) div 2 ^ k" by (rule div_mult_self1) simp
    moreover have "((2::nat) ^ k - 1) div 2 ^ k = 0" by (rule div_less) simp
    ultimately have "(unat a + 2 ^ k - 1) div 2 ^ k = unat a div 2 ^ k" by simp
    then show ?thesis using True r d by simp
  next
    case False
    have "unat a + 2 ^ k - 1 = (?m - 1) + Suc (unat a div 2 ^ k) * 2 ^ k" using False d p(1) by (simp only: mult_Suc)
    moreover have "(?m - 1) div 2 ^ k = 0" by (rule div_less) (use p(2) in linarith)
    moreover have "((?m - 1) + Suc (unat a div 2 ^ k) * 2 ^ k) div 2 ^ k = Suc (unat a div 2 ^ k) + (?m - 1) div 2 ^ k"
      by (rule div_mult_self1) simp
    ultimately have "(unat a + 2 ^ k - 1) div 2 ^ k = Suc (unat a div 2 ^ k)" by (simp only: add_0_right)
    then have "unat r = 2 ^ k + unat a div 2 ^ k * 2 ^ k" by (simp only: r mult_Suc)
    then have "unat r = unat a + (2 ^ k - ?m)" using d p(2) by linarith
    then show ?thesis using False by simp
  qed
  have nxw: "nx = a + of_nat (2 ^ k - ?m)"
  proof (cases "?m = 0")
    case True
    then have "a = r" using eq by (simp add: word_unat_eq_iff)
    then show ?thesis using True by (simp add: nx_def)
  next
    case False
    then have "unat r = unat a + (2 ^ k - ?m)" using eq by simp
    then have "unat r \<noteq> unat a" using p(2) by linarith
    then have ne: "a \<noteq> r" by auto
    have "unat r < 2 ^ 64" using unsigned_less [of r, where ?'a = nat] by simp
    then have "unat r = unat (a + of_nat (2 ^ k - ?m))"
      unfolding unat_add_nat using \<open>unat r = unat a + (2 ^ k - ?m)\<close> by (simp only: mod_less)
    then show ?thesis using ne by (simp add: nx_def word_unat_eq_iff)
  qed
  then show "nx - a = of_nat (2 ^ k - ?m)" by simp
  show "unat nx = unat a + (2 ^ k - ?m)" if "unat a + (2 ^ k - ?m) < 2 ^ 64"
    unfolding nxw unat_add_nat using that by (rule mod_less)
qed

lemma unat_narrow: "n < 2 ^ 32 \<Longrightarrow> unat (ucast (of_nat n :: u64) :: u32) = n"
  by (simp add: unsigned_ucast_eq unat_of_nat take_bit_eq_mod)

lemma ChunkGenerator_new_ok:
  assumes "line_size c" "unat a + unat n \<le> 2 ^ 64" "unat a + unat c \<le> 2 ^ 64"
  shows "\<exists>g. ChunkGenerator_new a n c = Inr g \<and> cg_ok a (unat n) 0 g \<and> chunkSize g = c"
proof (cases "c = 0")
  case True
  have "(ucast ((a + ucast n) - a :: u64) :: u32) = n"
    by (rule bit_word_eqI) (simp add: bit_unsigned_iff)
  then show ?thesis using True by (auto simp: ChunkGenerator_new_def cg_ok_def Let_def)
next
  case False
  then have p: "isPowerOf2 (ucast c)" using assms(1) by (simp add: line_size_def)
  obtain k where k: "k < 64" "(ucast c :: u64) = 2 ^ k" using isPowerOf2_log [OF p] by blast
  have k32: "k < 32" "c = 2 ^ k" by (rule ucast_pow2_back [OF k(2,1)])+
  have uc: "unat c = 2 ^ k" using unat_ucast_u32 [of c] unat_pow2 [OF k(1)] k(2) by simp
  let ?m = "unat a mod 2 ^ k" let ?l = "2 ^ k - ?m"
  define r where "r = roundUp a (2 ^ k)"
  define nx where "nx = (if a = r then r + 2 ^ k else r)"
  have "unat a + 2 ^ k \<le> 2 ^ 64" using assms(3) uc by simp
  note nl = next_line [OF k32(1) this, folded r_def, folded nx_def]
  have "(2::nat) ^ k < 2 ^ 32" by (rule power_strict_increasing [OF k32(1)]) simp
  then have l: "?l < 2 ^ 32" "0 < ?l" by simp_all
  have left: "unat (ucast (nx - a) :: u32) = ?l" unfolding nl(1) by (rule unat_narrow [OF l(1)])
  define sz where "sz = min n (ucast (nx - a) :: u32)"
  have sz: "unat sz = min (unat n) ?l" using left by (simp add: sz_def min_def word_le_nat_alt)
  have "sz \<le> n" by (simp add: sz_def)
  then have sl: "unat (n - sz) = unat n - unat sz" by (simp only: unat_sub)
  have "unat sz = 0 \<longleftrightarrow> unat n = 0"
  proof (cases "unat n \<le> ?l")
    case True
    then show ?thesis by (simp only: sz min_absorb1)
  next
    case False
    then have "unat sz = ?l" "unat n \<noteq> 0" using sz by simp_all
    moreover from this l(2) have "unat sz \<noteq> 0" by linarith
    ultimately show ?thesis by blast
  qed
  then have z: "sz = 0 \<longleftrightarrow> n = 0" by (simp only: unat_eq_0)
  let ?g = "\<lparr>curAddr = a, nextAddr = nx, curSize = sz, sizeLeft = n - sz, startAddr = a, chunkSize = c\<rparr>"
  have "ChunkGenerator_new a n c = Inr ?g"
    using False p by (simp add: ChunkGenerator_new_def Let_def k(2) r_def nx_def sz_def)
  moreover have "cg_ok a (unat n) 0 ?g"
  proof -
    have more: "unat sz = ?l" "unat nx = unat a + ?l" "unat nx mod 2 ^ k = 0" if "n - sz \<noteq> 0"
    proof -
      have "0 < unat (n - sz)" using that by (simp add: unat_gt_0)
      then have "unat sz < unat n" using sl by simp
      then show s: "unat sz = ?l" using sz by simp
      have "unat a + ?l < 2 ^ 64" using assms(2) s \<open>unat sz < unat n\<close> by linarith
      then show n: "unat nx = unat a + ?l" by (rule nl(2))
      have "unat a + ?l = (unat a div 2 ^ k + 1) * 2 ^ k"
        using div_mult_mod_eq [of "unat a" "2 ^ k"] l(2) by (simp only: distrib_right mult_1)
      then show "unat nx mod 2 ^ k = 0" by (simp only: n mod_mult_self2_is_0)
    qed
    have "unat sz + unat (n - sz) = unat n" using sl sz by simp
    moreover have "unat sz \<le> ?l" using sz by simp
    then have "?m + unat sz \<le> 2 ^ k" using l(2) by linarith
    ultimately show ?thesis using False more z by (simp add: cg_ok_def uc)
  qed
  ultimately show ?thesis by auto
qed

section \<open>Blocks in memory\<close>

definition mem_port :: "AbstractMemory port" where
  "mem_port p m = bindR (functionalAccess (\<lambda>_ _. False) (\<lambda>c _. (c, None)) (\<lambda>_. None :: unit host_cpu option) p m) (\<lambda>(m', r, _).
     ok (case r of Some q \<Rightarrow> q | None \<Rightarrow> p, m'))"

lemma chunk_packet:
  assumes "length d = unat n"
  shows "\<exists>p. dataStatic d (Packet_new (Request_phys a n fl mid now) c) = Inr p \<and> pcmd p = c \<and> paddr p = a \<and> psize p = n \<and> pdata p = d \<and>
    isSet (pflags p) VALID_ADDR \<and> isSet (pflags p) VALID_SIZE \<and> isSet (pflags p) (STATIC_DATA OR DYNAMIC_DATA)"
  by (simp add: dataStatic_def Packet_new_def Let_def set_pflags_def Request_phys_def setPhys_def Request_default_def
      hasSize_def hasPaddr_def set_flags_def clear_flags_def isSet_def noneSet_def)

lemma func_commands:
  "\<not> isPIM WriteReq" "\<not> isRead WriteReq" "isWrite WriteReq" "needsResponse WriteReq" "isRequest WriteReq"
  "\<not> isPIM ReadReq" "isRead ReadReq" "needsResponse ReadReq" "isRequest ReadReq"
  by code_simp+

lemma mem_port_write:
  assumes "mem_wf m" "pmem m = Some mem" "fits m p" "pcmd p = WriteReq"
  shows "\<exists>r m' mem'. mem_port p m = Inr (r, m') \<and> mem_wf m' \<and> pmem m' = Some mem' \<and> am_range m' = am_range m \<and>
    byte_map m' = (\<lambda>x. if touches p x then Some (pdata p ! (unat x - unat (paddr p))) else byte_map m x)"
proof -
  note fa = fits_accessors [OF assms(3)] fits_inside [OF assms(3,1)] writeData_fits [OF assms(3,1,2)]
  let ?o = "hostOffset m (paddr p)"
  let ?m = "m\<lparr>pmem := Some (take ?o mem @ pdata p @ drop (?o + unat (psize p)) mem)\<rparr>"
  have "\<exists>r. mem_port p m = Inr (r, ?m)" using fa assms(2,4) func_commands by (simp add: mem_port_def functionalAccess_def makeResponse_def)
  moreover have "mem_wf ?m \<and> byte_map ?m = (\<lambda>x. if touches p x then Some (pdata p ! (unat x - unat (paddr p))) else byte_map m x)"
    by (rule byte_map_write [OF assms(3,1,2)]) simp_all
  ultimately show ?thesis by auto
qed

lemma mem_port_read:
  assumes "mem_wf m" "pmem m = Some mem" "fits m p" "pcmd p = ReadReq"
  shows "\<exists>r. mem_port p m = Inr (r, m) \<and> length (pdata r) = unat (psize p) \<and>
    (\<forall>x. touches p x \<longrightarrow> byte_map m x = Some (pdata r ! (unat x - unat (paddr p))))"
proof -
  note fa = fits_accessors [OF assms(3)] fits_inside [OF assms(3,1)] setData_fits [OF assms(3,1,2)]
  let ?d = "take (unat (psize p)) (drop (hostOffset m (paddr p)) mem)"
  have "\<exists>r. mem_port p m = Inr (r, m) \<and> pdata r = ?d" using fa assms(2,4) func_commands
    by (simp add: mem_port_def functionalAccess_def makeResponse_def clear_pflags_def)
  moreover have "length ?d = unat (psize p)" using fits_offset(1) [OF assms(3,1,2)] by simp
  ultimately show ?thesis using byte_map_fits [OF assms(3,1,2)] by auto
qed

text \<open>A region of the memory.\<close>

definition inside :: "AbstractMemory \<Rightarrow> Addr \<Rightarrow> nat \<Rightarrow> bool" where
  "inside m a n \<longleftrightarrow> r_start (am_range m) \<le> a \<and> unat a + n \<le> unat (r_end (am_range m)) + 1"

lemma inside_fits:
  assumes "inside m base tot" "unat a = unat base + k" "0 < unat n" "k + unat n \<le> tot" "paddr p = a" "psize p = n" "length (pdata p) = unat n"
    and "isSet (pflags p) VALID_ADDR" "isSet (pflags p) VALID_SIZE" "isSet (pflags p) (STATIC_DATA OR DYNAMIC_DATA)"
  shows "fits m p" "touches p x \<longleftrightarrow> unat base + k \<le> unat x \<and> unat x < unat base + k + unat n"
  using assms by (auto simp: fits_def inside_def touches_def word_le_nat_alt)

definition patched :: "Addr \<Rightarrow> u8 list \<Rightarrow> nat \<Rightarrow> (Addr \<Rightarrow> u8 option) \<Rightarrow> Addr \<Rightarrow> u8 option" where
  "patched base d n f = (\<lambda>x. if base \<le> x \<and> unat x < unat base + n then Some (d ! (unat x - unat base)) else f x)"

lemma write_chunks:
  assumes "mem_wf m" "pmem m = Some mem" "inside m base tot" "tot \<le> length d" "cg_ok base tot 0 g"
  shows "\<exists>n m'. for_chunks (write_chunk mem_port fl now d) g (0, m) = Inr (n, m') \<and> mem_wf m' \<and> (\<exists>mem'. pmem m' = Some mem') \<and>
    am_range m' = am_range m \<and> byte_map m' = patched base d tot (byte_map m)"
proof -
  define I where "I = (\<lambda>k (off, m'). off = k \<and> k \<le> tot \<and> mem_wf m' \<and> (\<exists>mem'. pmem m' = Some mem') \<and> am_range m' = am_range m \<and>
    byte_map m' = patched base d k (byte_map m))"
  have top: "unat base + tot \<le> 2 ^ 64"
    using assms(3) unsigned_less [of "r_end (am_range m)", where ?'a = nat] by (simp add: inside_def)
  have i0: "I 0 (0, m)" using assms(1,2) by (auto simp: I_def patched_def word_le_nat_alt fun_eq_iff)
  have step: "\<exists>s'. write_chunk mem_port fl now d a n s = Inr s' \<and> I (k + unat n) s'"
    if h: "I k s" "unat a = unat base + k" "0 < unat n" "k + unat n \<le> tot" for k a n s
  proof -
    obtain m1 mem1 where s: "s = (k, m1)" "mem_wf m1" "pmem m1 = Some mem1" "am_range m1 = am_range m" "byte_map m1 = patched base d k (byte_map m)"
      using h(1) by (cases s) (auto simp: I_def)
    let ?d = "take (unat n) (drop k d)"
    have len: "length ?d = unat n" using h(4) assms(4) by simp
    have mc: "memcpy (replicate (unat n) 0) 0 d k (unat n) = Inr ?d" using h(4) assms(4) by (simp add: memcpy_def)
    obtain p where p: "dataStatic ?d (Packet_new (Request_phys a n fl funcMasterId now) WriteReq) = Inr p" "pcmd p = WriteReq" "paddr p = a"
      "psize p = n" "pdata p = ?d" "isSet (pflags p) VALID_ADDR" "isSet (pflags p) VALID_SIZE" "isSet (pflags p) (STATIC_DATA OR DYNAMIC_DATA)"
      using chunk_packet [OF len] by blast
    have ins: "inside m1 base tot" using assms(3) s(4) by (simp add: inside_def)
    have lp: "length (pdata p) = unat n" using p(5) len by simp
    note f = inside_fits [OF ins h(2-4) p(3,4) lp p(6-8)]
    obtain r m2 mem2 where m2: "mem_port p m1 = Inr (r, m2)" "mem_wf m2" "pmem m2 = Some mem2" "am_range m2 = am_range m1"
      "byte_map m2 = (\<lambda>x. if touches p x then Some (pdata p ! (unat x - unat (paddr p))) else byte_map m1 x)"
      using mem_port_write [OF s(2,3) f(1) p(2)] by blast
    have "byte_map m2 x = patched base d (k + unat n) (byte_map m) x" for x
      using f(2) [of x] p(3,5) h(2,4) assms(4) unfolding m2(5) s(5) patched_def by (auto simp: word_le_nat_alt)
    then have "I (k + unat n) (k + unat n, m2)" using m2 s(4) h(4) by (simp add: I_def fun_eq_iff)
    moreover have "write_chunk mem_port fl now d a n s = Inr (k + unat n, m2)" using s(1) mc p(1) m2(1) by (simp add: write_chunk_def)
    ultimately show ?thesis by blast
  qed
  obtain s' where "for_chunks (write_chunk mem_port fl now d) g (0, m) = Inr s'" "I tot s'"
    using for_chunks_rule [OF assms(5) top refl, of I "(0, m)" "write_chunk mem_port fl now d"] i0 step by blast
  then show ?thesis by (cases s') (auto simp: I_def)
qed

lemma read_chunks:
  assumes "mem_wf m" "pmem m = Some mem" "inside m base tot" "tot \<le> length buf" "cg_ok base tot 0 g"
  shows "\<exists>n buf'. for_chunks (read_chunk mem_port fl now) g (buf, 0, m) = Inr (buf', n, m) \<and> length buf' = length buf \<and>
    (\<forall>x. base \<le> x \<and> unat x < unat base + tot \<longrightarrow> byte_map m x = Some (buf' ! (unat x - unat base))) \<and>
    (\<forall>i < length buf. tot \<le> i \<longrightarrow> buf' ! i = buf ! i)"
proof -
  define I where "I = (\<lambda>k (b :: u8 list, off, m'). off = k \<and> m' = m \<and> k \<le> tot \<and> length b = length buf \<and>
    (\<forall>x. base \<le> x \<and> unat x < unat base + k \<longrightarrow> byte_map m x = Some (b ! (unat x - unat base))) \<and>
    (\<forall>i < length buf. k \<le> i \<longrightarrow> b ! i = buf ! i))"
  have top: "unat base + tot \<le> 2 ^ 64"
    using assms(3) unsigned_less [of "r_end (am_range m)", where ?'a = nat] by (simp add: inside_def)
  have i0: "I 0 (buf, 0, m)" by (auto simp: I_def word_le_nat_alt)
  have step: "\<exists>s'. read_chunk mem_port fl now a n s = Inr s' \<and> I (k + unat n) s'"
    if h: "I k s" "unat a = unat base + k" "0 < unat n" "k + unat n \<le> tot" for k a n s
  proof -
    obtain b where s: "s = (b, k, m)" "length b = length buf"
      "\<forall>x. base \<le> x \<and> unat x < unat base + k \<longrightarrow> byte_map m x = Some (b ! (unat x - unat base))"
      "\<forall>i < length buf. k \<le> i \<longrightarrow> b ! i = buf ! i"
      using h(1) by (cases s) (auto simp: I_def)
    let ?d = "take (unat n) (drop k b)"
    have len: "length ?d = unat n" using h(4) assms(4) s(2) by simp
    have mc: "memcpy (replicate (unat n) 0) 0 b k (unat n) = Inr ?d" using h(4) assms(4) s(2) by (simp add: memcpy_def)
    obtain p where p: "dataStatic ?d (Packet_new (Request_phys a n fl funcMasterId now) ReadReq) = Inr p" "pcmd p = ReadReq" "paddr p = a"
      "psize p = n" "pdata p = ?d" "isSet (pflags p) VALID_ADDR" "isSet (pflags p) VALID_SIZE" "isSet (pflags p) (STATIC_DATA OR DYNAMIC_DATA)"
      using chunk_packet [OF len] by blast
    have lp: "length (pdata p) = unat n" using p(5) len by simp
    note f = inside_fits [OF assms(3) h(2-4) p(3,4) lp p(6-8)]
    obtain r where r: "mem_port p m = Inr (r, m)" "length (pdata r) = unat n"
      "\<forall>x. touches p x \<longrightarrow> byte_map m x = Some (pdata r ! (unat x - unat a))"
      using mem_port_read [OF assms(1,2) f(1) p(2)] p(3,4) by auto
    define b' where "b' = take k b @ pdata r @ drop (k + unat n) b"
    have mb: "memcpy b k (pdata r) 0 (unat n) = Inr b'" using h(4) assms(4) s(2) r(2) by (simp add: memcpy_def b'_def)
    have lb: "length b' = length buf" using h(4) assms(4) s(2) r(2) by (simp add: b'_def)
    have "byte_map m x = Some (b' ! (unat x - unat base))" if "base \<le> x" "unat x < unat base + (k + unat n)" for x
    proof (cases "unat x < unat base + k")
      case True
      then have "unat x - unat base < k" using that(1) unfolding word_le_nat_alt by linarith
      then have "b' ! (unat x - unat base) = b ! (unat x - unat base)"
        using h(4) assms(4) s(2) by (simp add: b'_def nth_append word_le_nat_alt)
      then show ?thesis using s(3) that(1) True by simp
    next
      case False
      then have w: "unat x - unat base = k + (unat x - unat a)" "unat x - unat a < unat n"
        using that h(2) unfolding word_le_nat_alt by linarith+
      have "b' ! (unat x - unat base) = pdata r ! (unat x - unat a)"
        unfolding w(1) using w(2) h(4) assms(4) s(2) r(2) by (simp add: b'_def nth_append)
      moreover have "touches p x" using f(2) [of x] False that by simp
      ultimately show ?thesis using r(3) by simp
    qed
    moreover have "b' ! i = buf ! i" if "i < length buf" "k + unat n \<le> i" for i
    proof -
      have "\<not> i - k < unat n" "\<not> i < k" "k + (unat n + (i - k - unat n)) = i" using that(2) by linarith+
      then show ?thesis using that s(2,4) r(2) h(4) assms(4) by (simp add: b'_def nth_append)
    qed
    ultimately have "I (k + unat n) (b', k + unat n, m)" using lb h(4) by (simp add: I_def)
    moreover have "read_chunk mem_port fl now a n s = Inr (b', k + unat n, m)" using s(1) mc p(1) r(1) mb by (simp add: read_chunk_def)
    ultimately show ?thesis by blast
  qed
  obtain s' where "for_chunks (read_chunk mem_port fl now) g (buf, 0, m) = Inr s'" "I tot s'"
    using for_chunks_rule [OF assms(5) top refl, of I "(buf, 0, m)" "read_chunk mem_port fl now"] i0 step by blast
  then show ?thesis by (cases s') (auto simp: I_def)
qed

lemma blob_generator:
  assumes "line_size c" "inside m a n" "n < 2 ^ 31" "unat a + unat c \<le> 2 ^ 64"
  shows "\<exists>g. ChunkGenerator_new a (word_of_int (int n)) c = Inr g \<and> cg_ok a n 0 g"
proof -
  have n: "unat (word_of_int (int n) :: u32) = n" using assms(3) by (simp add: unat_of_nat)
  have "unat a + n \<le> 2 ^ 64"
    using assms(2) unsigned_less [of "r_end (am_range m)", where ?'a = nat] by (simp add: inside_def)
  then show ?thesis using ChunkGenerator_new_ok [OF assms(1) _ assms(4), of "word_of_int (int n)"] n by auto
qed

lemma blob_written:
  assumes "mem_wf m" "pmem m = Some mem" "inside m a (length d)" "line_size c" "length d < 2 ^ 31" "unat a + unat c \<le> 2 ^ 64"
  shows "\<exists>m' mem'. writeBlobPhys mem_port c now a fl d (int (length d)) m = Inr m' \<and> mem_wf m' \<and> pmem m' = Some mem' \<and>
    am_range m' = am_range m \<and> byte_map m' = patched a d (length d) (byte_map m)"
proof -
  obtain g where g: "ChunkGenerator_new a (word_of_int (int (length d))) c = Inr g" "cg_ok a (length d) 0 g"
    using blob_generator [OF assms(4,3,5,6)] by blast
  show ?thesis using write_chunks [OF assms(1-3) le_refl g(2), of fl now] g(1) by (auto simp: writeBlobPhys_def)
qed

text \<open>C33: A block written over a port changes exactly its bytes in the memory, at any address and in any number of
  pieces, with any line size the generator takes.\<close>
theorem blob_write_exact:
  assumes "mem_wf m" "pmem m = Some mem" "inside m a (length d)" "line_size c" "length d < 2 ^ 31" "unat a + unat c \<le> 2 ^ 64"
  shows "\<exists>m' mem'. writeBlobPhys mem_port c now a fl d (int (length d)) m = Inr m' \<and> mem_wf m' \<and> pmem m' = Some mem' \<and>
    am_range m' = am_range m \<and> byte_map m' = (\<lambda>x. if a \<le> x \<and> unat x < unat a + length d then Some (d ! (unat x - unat a)) else byte_map m x)"
  using blob_written [OF assms] unfolding patched_def .

text \<open>A block that was written is read back whole, whatever line sizes the writer and the reader use, and reading
  changes nothing.\<close>
theorem blob_round_trip:
  assumes "mem_wf m" "pmem m = Some mem" "inside m a (length d)" "line_size c" "length d < 2 ^ 31" "unat a + unat c \<le> 2 ^ 64"
    and "line_size c'" "unat a + unat c' \<le> 2 ^ 64" "length buf = length d"
  shows "\<exists>m'. writeBlobPhys mem_port c now a fl d (int (length d)) m = Inr m' \<and>
    readBlobPhys mem_port c' now' a fl' buf (int (length d)) m' = Inr (d, m')"
proof -
  obtain m' mem' where w: "writeBlobPhys mem_port c now a fl d (int (length d)) m = Inr m'" "mem_wf m'" "pmem m' = Some mem'"
    "am_range m' = am_range m" "byte_map m' = patched a d (length d) (byte_map m)" using blob_written [OF assms(1-6)] by blast
  have ins: "inside m' a (length d)" using assms(3) w(4) by (simp add: inside_def)
  obtain g where g: "ChunkGenerator_new a (word_of_int (int (length d))) c' = Inr g" "cg_ok a (length d) 0 g"
    using blob_generator [OF assms(7) ins assms(5,8)] by blast
  have lb: "length d \<le> length buf" using assms(9) by simp
  obtain n b where b: "for_chunks (read_chunk mem_port fl' now') g (buf, 0, m') = Inr (b, n, m')" "length b = length buf"
    "\<forall>x. a \<le> x \<and> unat x < unat a + length d \<longrightarrow> byte_map m' x = Some (b ! (unat x - unat a))"
    using read_chunks [OF w(2,3) ins lb g(2)] by blast
  have top: "unat a + length d \<le> 2 ^ 64"
    using assms(3) unsigned_less [of "r_end (am_range m)", where ?'a = nat] by (simp add: inside_def)
  have "b = d"
  proof (rule nth_equalityI)
    show "length b = length d" using b(2) assms(9) by simp
    fix i assume "i < length b"
    then have i: "i < length d" using b(2) assms(9) by simp
    let ?x = "a + of_nat i"
    have x: "unat ?x = unat a + i" unfolding unat_add_nat using i top by simp
    have "byte_map m' ?x = Some (b ! i)" using b(3) x i by (simp add: word_le_nat_alt)
    moreover have "byte_map m' ?x = Some (d ! i)" using x i by (simp add: w(5) patched_def word_le_nat_alt)
    ultimately show "b ! i = d ! i" by simp
  qed
  then show ?thesis using w(1) g(1) b(1) by (simp add: readBlobPhys_def)
qed

section \<open>An example\<close>

text \<open>Five bytes from 0x1006 on, in lines of four bytes.\<close>

lemma ex_blob:
  "inside (small_mem []) 0x1006 (length [1, 2, 3, 4, 5 :: u8])" "line_size 4" "line_size 0"
  by (simp add: inside_def small_mem_wf RangeSize_def AddrRange_simple_def word_le_nat_alt) code_simp+

theorem blob_write_exact_witness:
  "\<exists>m'. writeBlobPhys mem_port 4 9 0x1006 0 [1, 2, 3, 4, 5] 5 (small_mem []) = Inr m' \<and> byte_map m' 0x1009 = Some 4"
proof -
  obtain m' where m': "writeBlobPhys mem_port 4 9 0x1006 0 [1, 2, 3, 4, 5] (int (length [1, 2, 3, 4, 5 :: u8])) (small_mem []) = Inr m'"
    "byte_map m' = (\<lambda>x. if 0x1006 \<le> x \<and> unat x < unat (0x1006 :: Addr) + length [1, 2, 3, 4, 5 :: u8]
      then Some ([1, 2, 3, 4, 5] ! (unat x - unat (0x1006 :: Addr))) else byte_map (small_mem []) x)"
    using blob_write_exact [OF small_mem_wf(1,2) ex_blob(1,2), of 9 0] by auto
  have "byte_map m' 0x1009 = Some 4" unfolding m'(2) by simp
  then show ?thesis using m'(1) by simp
qed

theorem blob_round_trip_witness:
  "\<exists>m'. writeBlobPhys mem_port 4 9 0x1006 0 [1, 2, 3, 4, 5] 5 (small_mem []) = Inr m' \<and>
    readBlobPhys mem_port 0 9 0x1006 0 [0, 0, 0, 0, 0] 5 m' = Inr ([1, 2, 3, 4, 5], m')"
  using blob_round_trip [OF small_mem_wf(1,2) ex_blob(1,2) _ _ ex_blob(3), of "[0, 0, 0, 0, 0]" 9 0 9 0] by simp

end
