(* ===== verification/Simple_Mem.thy ===== *)
theory Simple_Mem
  imports Abstract_Mem Packet_Queue
begin

text \<open>
  The memory controller with a fixed latency, from \<^verbatim>\<open>src/mem/simple_mem.cc\<close>: requests are refused while the bandwidth
  limit keeps it busy, and responses wait in a queue until they are due. The time a packet of some size keeps the
  memory busy (a product of floating point numbers) is an argument, and so are the random parts of a latency and the
  answers of the port.
\<close>

section \<open>The controller\<close>

record SimpleMemory =
  sm_mem :: AbstractMemory
  sm_latency :: Tick
  latency_var :: Tick
  packetQueue :: "(Tick \<times> Packet) list"
  isBusy :: bool
  sm_retryReq :: bool
  retryResp :: bool
  releaseEvent :: "Tick option"
  dequeueEvent :: "Tick option"
  sm_drainState :: DrainState

definition SimpleMemory_new :: "AbstractMemory \<Rightarrow> Tick \<Rightarrow> Tick \<Rightarrow> DrainState \<Rightarrow> SimpleMemory" where
  "SimpleMemory_new m lat var s = \<lparr>sm_mem = m, sm_latency = lat, latency_var = var, packetQueue = [], isBusy = False,
     sm_retryReq = False, retryResp = False, releaseEvent = None, dequeueEvent = None, sm_drainState = s\<rparr>"

text \<open>The random number is drawn between 0 and \<open>latency_var\<close>.\<close>

definition getLatency :: "Tick \<Rightarrow> SimpleMemory \<Rightarrow> Tick" where
  "getLatency rnd s = sm_latency s + (if latency_var s \<noteq> 0 then rnd else 0)"

text \<open>The result also has the contexts whose exclusive monitors the access cleared.\<close>

definition sm_recvAtomic :: "Packet \<Rightarrow> Tick \<Rightarrow> SimpleMemory \<Rightarrow> (Tick \<times> Packet \<times> int list \<times> SimpleMemory) res" where
  "sm_recvAtomic pkt rnd s =
     (if cacheResponding pkt then fail Panicked
      else bindR (access pkt (sm_mem s)) (\<lambda>(m, p, cl).
        (let s1 = s\<lparr>sm_mem := m\<rparr> in ok (getLatency rnd s1, p, cl, s1))))"

text \<open>
  A functional access goes to the memory, and then to the packets in the queue. The memory deletes the packet of a
  registration; the code goes on with it all the same, which the model stops at like at a null pointer.
\<close>

definition sm_recvFunctional :: "('c \<Rightarrow> Addr \<Rightarrow> bool) \<Rightarrow> 'c flush_op \<Rightarrow> (string \<Rightarrow> 'c host_cpu option) \<Rightarrow> Packet \<Rightarrow> SimpleMemory \<Rightarrow>
    (Packet \<times> (('c \<times> Packet list) list \<times> int) option \<times> SimpleMemory) res" where
  "sm_recvFunctional check flush find_obj pkt s =
     bindR (functionalAccess check flush find_obj pkt (sm_mem s)) (\<lambda>(m, r, done).
       (case r of
          None \<Rightarrow> fail NullPointer
        | Some p \<Rightarrow> bindR (satisfy_queued p (packetQueue s)) (\<lambda>(_, p', l).
            ok (p', done, s\<lparr>sm_mem := m, packetQueue := l\<rparr>))))"

definition sched_release :: "Tick \<Rightarrow> Tick \<Rightarrow> SimpleMemory \<Rightarrow> SimpleMemory res" where
  "sched_release now when s = assertR (when \<ge> now \<and> releaseEvent s = None) (ok (s\<lparr>releaseEvent := Some when\<rparr>))"

definition sched_dequeue :: "Tick \<Rightarrow> Tick \<Rightarrow> SimpleMemory \<Rightarrow> SimpleMemory res" where
  "sched_dequeue now when s = assertR (when \<ge> now \<and> dequeueEvent s = None) (ok (s\<lparr>dequeueEvent := Some when\<rparr>))"

text \<open>
  The place of a response: the search starts at the last element. In an empty list there is none, and the code steps
  back from the end all the same; the response is then the only one.
\<close>

definition sm_insert :: "Tick \<Rightarrow> Packet \<Rightarrow> (Tick \<times> Packet) list \<Rightarrow> (Tick \<times> Packet) list res" where
  "sm_insert when pkt l =
     (if l = [] then ok [(when, pkt)]
      else bindR (place_back (passes when True pkt) l (length l - 1)) (\<lambda>i. ok (take (Suc i) l @ (when, pkt) # drop (Suc i) l)))"

text \<open>A request as it comes: the packet, its delay, and the random parts of the two latencies that are asked for.\<close>

type_synonym sm_req = "Packet \<times> Tick \<times> Tick \<times> Tick"

definition sm_recvTimingReq :: "Tick \<Rightarrow> (u32 \<Rightarrow> Tick) \<Rightarrow> sm_req \<Rightarrow> SimpleMemory \<Rightarrow> (bool \<times> int list \<times> SimpleMemory) res" where
  "sm_recvTimingReq now dur = (\<lambda>(pkt, receive_delay, rnd1, rnd2) s.
     if cacheResponding pkt then fail Panicked
     else if \<not> (isRead (pcmd pkt) \<or> isWrite (pcmd pkt)) then fail Panicked
     else if sm_retryReq s then ok (False, [], s)
     else if isBusy s then ok (False, [], s\<lparr>sm_retryReq := True\<rparr>)
     else
       bindR (getSize pkt) (\<lambda>n.
       bindR (if dur n \<noteq> 0
              then bindR (sched_release now (now + dur n) s) (\<lambda>s'. ok (s'\<lparr>isBusy := True\<rparr>))
              else ok s) (\<lambda>s1.
       bindR (sm_recvAtomic pkt rnd1 s1) (\<lambda>(_, p, cl, s2).
       if needsResponse (pcmd pkt) then
         assertR (isResponse (pcmd p))
         (bindR (sm_insert (now + receive_delay + getLatency rnd2 s2) p (packetQueue s2)) (\<lambda>l.
          (let s3 = s2\<lparr>packetQueue := l\<rparr> in
           bindR (if \<not> retryResp s3 \<and> dequeueEvent s3 = None then sched_dequeue now (fst (last (packetQueue s3))) s3 else ok s3) (\<lambda>s4.
           ok (True, cl, s4)))))
       else ok (True, cl, s2)))))"

text \<open>The event is off the event queue when it is served. The result is whether a retry is sent, and the memory.\<close>

definition sm_release :: "SimpleMemory \<Rightarrow> (bool \<times> SimpleMemory) res" where
  "sm_release s0 =
     (let s = s0\<lparr>releaseEvent := None\<rparr> in
      assertR (isBusy s)
      (if sm_retryReq s then ok (True, s\<lparr>isBusy := False, sm_retryReq := False\<rparr>) else ok (False, s\<lparr>isBusy := False\<rparr>)))"

text \<open>Taking a response may make the requester send requests at once, before the response is off the queue.\<close>

fun sm_recv_all :: "Tick \<Rightarrow> (u32 \<Rightarrow> Tick) \<Rightarrow> sm_req list \<Rightarrow> SimpleMemory \<Rightarrow> (bool list \<times> int list \<times> SimpleMemory) res" where
  "sm_recv_all now dur [] s = ok ([], [], s)"
| "sm_recv_all now dur (r # rs) s =
     bindR (sm_recvTimingReq now dur r s) (\<lambda>(x, cl, s1).
     bindR (sm_recv_all now dur rs s1) (\<lambda>(xs, cls, s2). ok (x # xs, cl @ cls, s2)))"

text \<open>\<open>reschedule\<close> with its last argument true also schedules an event that is not scheduled.\<close>

definition dequeue :: "Tick \<Rightarrow> (u32 \<Rightarrow> Tick) \<Rightarrow> bool \<times> sm_req list \<Rightarrow> SimpleMemory \<Rightarrow> (bool list \<times> int list \<times> SimpleMemory) res" where
  "dequeue now dur answer s =
     assertR (packetQueue s \<noteq> [])
     (bindR (sm_recv_all now dur (snd answer) s) (\<lambda>(xs, cls, s1).
      (let s2 = s1\<lparr>retryResp := \<not> fst answer\<rparr> in
       if \<not> retryResp s2 then
         (let s3 = s2\<lparr>packetQueue := tl (packetQueue s2)\<rparr> in
          if packetQueue s3 \<noteq> [] then
            (let w = max (fst (hd (packetQueue s3))) now in assertR (w \<ge> now) (ok (xs, cls, s3\<lparr>dequeueEvent := Some w\<rparr>)))
          else if sm_drainState s3 = Draining then ok (xs, cls, s3\<lparr>sm_drainState := Drained\<rparr>)
          else ok (xs, cls, s3))
       else ok (xs, cls, s2))))"

definition sm_dequeueEvent :: "Tick \<Rightarrow> (u32 \<Rightarrow> Tick) \<Rightarrow> bool \<times> sm_req list \<Rightarrow> SimpleMemory \<Rightarrow> (bool list \<times> int list \<times> SimpleMemory) res" where
  "sm_dequeueEvent now dur answer s = dequeue now dur answer (s\<lparr>dequeueEvent := None\<rparr>)"

definition sm_recvRespRetry :: "Tick \<Rightarrow> (u32 \<Rightarrow> Tick) \<Rightarrow> bool \<times> sm_req list \<Rightarrow> SimpleMemory \<Rightarrow> (bool list \<times> int list \<times> SimpleMemory) res" where
  "sm_recvRespRetry now dur answer s = assertR (retryResp s) (dequeue now dur answer s)"

definition sm_drain :: "SimpleMemory \<Rightarrow> DrainState" where
  "sm_drain s = (if packetQueue s \<noteq> [] then Draining else Drained)"

section \<open>What an access leaves of a packet\<close>

text \<open>The header of a packet: where it goes, and how much it carries.\<close>

definition same_head :: "Packet \<Rightarrow> Packet \<Rightarrow> bool" where
  "same_head p q \<longleftrightarrow> paddr q = paddr p \<and> psize q = psize p \<and> pcmd q = pcmd p \<and> pflags q = pflags p"

lemma setData_head: "setData b off p = Inr q \<Longrightarrow> same_head p q"
  by (auto simp: setData_def bindR_eq_Inr same_head_def)

lemma access_swap_head: "access_swap p m = Inr (m', q) \<Longrightarrow> same_head p q"
  by (auto simp: access_swap_def Let_def bindR_eq_Inr assertR_eq_Inr dest: setData_head split: if_splits option.splits)
    (simp add: same_head_def)

lemma access_read_head: "access_read p m = Inr (m', q) \<Longrightarrow> same_head p q"
  by (auto simp: access_read_def Let_def bindR_eq_Inr assertR_eq_Inr dest: setData_head split: option.splits)
    (simp add: same_head_def)

lemma writeOK_head: "writeOK p m = Inr (b, q, m', cl) \<Longrightarrow> same_head p q"
  by (auto simp: writeOK_def checkLockedAddrList_def Let_def bindR_eq_Inr same_head_def split: if_splits)

lemma access_write_head: "access_write p m = Inr (m', q, cl) \<Longrightarrow> same_head p q"
  by (auto simp: access_write_def Let_def bindR_eq_Inr assertR_eq_Inr dest: writeOK_head split: if_splits)

lemma answered_commands: "needsResponse c \<Longrightarrow> isRequest c \<Longrightarrow> isResponse (responseCommand c)"
proof -
  have "\<forall>c. needsResponse c \<and> isRequest c \<longrightarrow> isResponse (responseCommand c)" by code_simp
  then show "needsResponse c \<Longrightarrow> isRequest c \<Longrightarrow> isResponse (responseCommand c)" by blast
qed

lemma silent_commands: "\<not> needsResponse CleanEvict" "\<not> needsResponse WritebackClean"
  by code_simp+

lemma clear_snoop: "isSet (clear_flags EXPRESS_SNOOP f) VALID_ADDR = isSet f VALID_ADDR"
  by (simp add: flag_simps)

lemma respond_head:
  assumes "respond p = Inr r"
  shows "paddr r = paddr p" "psize r = psize p" "isSet (pflags r) VALID_ADDR = isSet (pflags p) VALID_ADDR"
    "needsResponse (pcmd p) \<Longrightarrow> isResponse (pcmd r)"
proof -
  have "r = (if needsResponse (pcmd p) then clear_pflags EXPRESS_SNOOP (p\<lparr>pcmd := responseCommand (pcmd p)\<rparr>) else p) \<and>
    (needsResponse (pcmd p) \<longrightarrow> isRequest (pcmd p))"
    using assms by (simp add: respond_def makeResponse_def assertR_eq_Inr split: if_splits)
  then show "paddr r = paddr p" "psize r = psize p" "isSet (pflags r) VALID_ADDR = isSet (pflags p) VALID_ADDR"
    "needsResponse (pcmd p) \<Longrightarrow> isResponse (pcmd r)"
    by (simp_all add: clear_pflags_def clear_snoop answered_commands)
qed

lemma access_answers:
  assumes "access p m = Inr (m', r, cl)" "\<not> cacheResponding p" "\<not> (pcmd p = CleanEvict \<or> pcmd p = WritebackClean)"
  shows "\<exists>q. same_head p q \<and> respond q = Inr r"
proof -
  define body where "body = (if pcmd p = SwapReq then bindR (access_swap p m) (\<lambda>(m', p'). ok (m', p', []))
           else if isRead (pcmd p) then bindR (access_read p m) (\<lambda>(m', p'). ok (m', p', []))
           else if isInvalidate (pcmd p) \<or> isClean (pcmd p)
             then assertR (\<not> isWrite (pcmd p)) (ok (m, p, []))
           else if isWrite (pcmd p) then access_write p m
           else fail Panicked)"
  have "\<exists>m1 q cl1. body = Inr (m1, q, cl1) \<and> respond q = Inr r"
    using assms unfolding access_def body_def [symmetric] by (auto simp: bindR_eq_Inr assertR_eq_Inr simp del: de_Morgan_disj)
  then obtain m1 q cl1 where q: "body = Inr (m1, q, cl1)" "respond q = Inr r" by blast
  have "same_head p q"
  proof (cases "pcmd p = SwapReq")
    case True
    then show ?thesis using q(1) access_swap_head by (auto simp: body_def bindR_eq_Inr)
  next
    case s: False
    show ?thesis
    proof (cases "isRead (pcmd p)")
      case True
      then show ?thesis using s q(1) access_read_head by (auto simp: body_def bindR_eq_Inr)
    next
      case False
      then have "body = Inr (m, p, []) \<or> body = access_write p m \<or> body = fail AssertFailed \<or> body = fail Panicked"
        using s by (simp add: body_def assertR_def)
      then consider "q = p" | "access_write p m = Inr (m1, q, cl1)" using q(1) by auto
      then show ?thesis using access_write_head by cases (auto simp: same_head_def)
    qed
  qed
  then show ?thesis using q(2) by blast
qed

lemma access_head:
  assumes "access p m = Inr (m', r, cl)" "\<not> cacheResponding p"
  shows "paddr r = paddr p" "psize r = psize p" "isSet (pflags r) VALID_ADDR = isSet (pflags p) VALID_ADDR"
    "needsResponse (pcmd p) \<Longrightarrow> isResponse (pcmd r)"
proof -
  have "(r = p \<and> \<not> needsResponse (pcmd p)) \<or> (\<exists>q. same_head p q \<and> respond q = Inr r)"
  proof (cases "pcmd p = CleanEvict \<or> pcmd p = WritebackClean")
    case True
    then have "access p m = Inr (m, p, [])" using assms(2) unfolding access_def by simp
    then show ?thesis using assms(1) True silent_commands by auto
  next
    case False
    then show ?thesis using access_answers [OF assms False] by blast
  qed
  then consider "r = p" "\<not> needsResponse (pcmd p)" | q where "same_head p q" "respond q = Inr r" by blast
  then have "paddr r = paddr p \<and> psize r = psize p \<and> isSet (pflags r) VALID_ADDR = isSet (pflags p) VALID_ADDR \<and>
    (needsResponse (pcmd p) \<longrightarrow> isResponse (pcmd r))"
  proof cases
    case 2
    then show ?thesis using respond_head [OF 2(2)] by (simp add: same_head_def)
  qed simp
  then show "paddr r = paddr p" "psize r = psize p" "isSet (pflags r) VALID_ADDR = isSet (pflags p) VALID_ADDR"
    "needsResponse (pcmd p) \<Longrightarrow> isResponse (pcmd r)" by blast+
qed

section \<open>What holds of a controller\<close>

definition sm_core :: "Tick \<Rightarrow> SimpleMemory \<Rightarrow> bool" where
  "sm_core now s \<longleftrightarrow> items_ok (packetQueue s) \<and> now < MaxTick \<and>
     (if isBusy s then (case releaseEvent s of None \<Rightarrow> False | Some w \<Rightarrow> now \<le> w) else releaseEvent s = None \<and> \<not> sm_retryReq s)"

definition sm_timed :: "Tick \<Rightarrow> SimpleMemory \<Rightarrow> bool" where
  "sm_timed now s \<longleftrightarrow>
     (if retryResp s then dequeueEvent s = None \<and> packetQueue s \<noteq> [] \<and> fst (hd (packetQueue s)) \<le> now
      else (case dequeueEvent s of
        None \<Rightarrow> packetQueue s = []
      | Some w \<Rightarrow> packetQueue s \<noteq> [] \<and> now \<le> w \<and> fst (hd (packetQueue s)) \<le> w))"

lemma sm_timed_cong:
  "retryResp s' = retryResp s \<Longrightarrow> dequeueEvent s' = dequeueEvent s \<Longrightarrow> packetQueue s' = packetQueue s \<Longrightarrow> sm_timed now s' = sm_timed now s"
  by (cases "dequeueEvent s") (simp_all add: sm_timed_def)

lemma sm_core_keep:
  "sm_core now s \<Longrightarrow> items_ok (packetQueue s') \<Longrightarrow> isBusy s' = isBusy s \<Longrightarrow> releaseEvent s' = releaseEvent s \<Longrightarrow> sm_retryReq s' = sm_retryReq s \<Longrightarrow>
    sm_core now s'"
  by (cases "isBusy s"; cases "releaseEvent s") (simp_all add: sm_core_def)

lemma sm_core_items: "sm_core now s \<Longrightarrow> items_ok (packetQueue s)"
  by (simp add: sm_core_def)

text \<open>While a response is being sent it is still in the queue, and its event is not scheduled any more.\<close>

definition sm_sending :: "Tick \<Rightarrow> SimpleMemory \<Rightarrow> bool" where
  "sm_sending now s \<longleftrightarrow> packetQueue s \<noteq> [] \<and> fst (hd (packetQueue s)) \<le> now \<and> (dequeueEvent s \<noteq> None \<longrightarrow> 2 \<le> length (packetQueue s))"

text \<open>A request the memory is made for, at a time from which no tick runs over.\<close>

definition sm_when :: "Tick \<Rightarrow> sm_req \<Rightarrow> SimpleMemory \<Rightarrow> Tick" where
  "sm_when now = (\<lambda>(p, d, rnd1, rnd2) s. now + d + getLatency rnd2 s)"

definition req_ok :: "Tick \<Rightarrow> (u32 \<Rightarrow> Tick) \<Rightarrow> SimpleMemory \<Rightarrow> sm_req \<Rightarrow> bool" where
  "req_ok now dur s r \<longleftrightarrow> (let p = fst r in \<not> cacheResponding p \<and> (isRead (pcmd p) \<or> isWrite (pcmd p)) \<and>
     isSet (pflags p) VALID_ADDR \<and> isSet (pflags p) VALID_SIZE \<and> now \<le> now + dur (psize p)) \<and>
     now \<le> sm_when now r s \<and> sm_when now r s < MaxTick"

definition same_memory :: "SimpleMemory \<Rightarrow> SimpleMemory \<Rightarrow> bool" where
  "same_memory s s' \<longleftrightarrow> sm_latency s' = sm_latency s \<and> latency_var s' = latency_var s \<and> retryResp s' = retryResp s"

lemma same_memory_req: "same_memory s s' \<Longrightarrow> req_ok now dur s' r = req_ok now dur s r"
  by (cases r) (simp add: req_ok_def sm_when_def same_memory_def getLatency_def)

lemma sm_insert_place:
  assumes "items_ok l" "isSet (pflags p) VALID_ADDR"
  shows "\<exists>l'. sm_insert w p l = Inr l' \<and> inserted (p, w, True) l l'"
proof (cases "l = []")
  case True
  then show ?thesis by (simp add: sm_insert_def inserted_def)
next
  case False
  then show ?thesis using place_inserted [OF assms(1) False assms(2), of w True] by (auto simp: sm_insert_def)
qed

lemma inserted_last:
  assumes "inserted (p, w, f) l l'" "now \<le> w"
  shows "now \<le> fst (last l')"
proof -
  obtain xs ys where x: "l' = xs @ (w, p) # ys" "\<forall>e \<in> set ys. w < fst e" using assms(1) by (auto simp: inserted_def)
  show ?thesis
  proof (cases "ys = []")
    case False
    then have "last l' \<in> set ys" using x(1) by simp
    then show ?thesis using x(2) assms(2) by (meson order_trans less_imp_le)
  qed (use x assms(2) in simp)
qed

text \<open>The result of a request that is accepted.\<close>

lemma recv_accepts:
  assumes "sm_core now s" "sm_timed now s \<or> sm_sending now s" "req_ok now dur s (p, d, rnd1, rnd2)" "\<not> isBusy s"
    and a: "access p (sm_mem s) = Inr (m, r, cl)"
  shows "\<exists>l. sm_recvTimingReq now dur (p, d, rnd1, rnd2) s = Inr (True, cl, s\<lparr>sm_mem := m, packetQueue := l,
      isBusy := dur (psize p) \<noteq> 0, releaseEvent := if dur (psize p) \<noteq> 0 then Some (now + dur (psize p)) else None,
      dequeueEvent := if needsResponse (pcmd p) \<and> \<not> retryResp s \<and> dequeueEvent s = None then Some (fst (last l)) else dequeueEvent s\<rparr>) \<and>
    (if needsResponse (pcmd p) then inserted (r, sm_when now (p, d, rnd1, rnd2) s, True) (packetQueue s) l else l = packetQueue s)"
proof -
  let ?w = "now + d + getLatency rnd2 s"
  let ?s = "s\<lparr>isBusy := dur (psize p) \<noteq> 0, releaseEvent := if dur (psize p) \<noteq> 0 then Some (now + dur (psize p)) else None\<rparr>"
  have r: "\<not> cacheResponding p" "isRead (pcmd p) \<or> isWrite (pcmd p)" "isSet (pflags p) VALID_ADDR" "isSet (pflags p) VALID_SIZE"
    "now \<le> now + dur (psize p)" "now \<le> ?w" "?w < MaxTick" using assms(3) by (auto simp: req_ok_def Let_def sm_when_def)
  have c: "items_ok (packetQueue s)" "releaseEvent s = None" "\<not> sm_retryReq s" using assms(1,4) by (simp_all add: sm_core_def)
  have n: "getSize p = Inr (psize p)" using r(4) by (simp add: getSize_def assertR_def)
  have b: "(if dur (psize p) \<noteq> 0 then bindR (sched_release now (now + dur (psize p)) s) (\<lambda>s'. ok (s'\<lparr>isBusy := True\<rparr>)) else ok s) = Inr ?s"
    using assms(4) c(2) r(5) by (cases s) (simp add: sched_release_def assertR_def)
  have at: "sm_recvAtomic p rnd1 ?s = Inr (getLatency rnd1 ?s, r, cl, ?s\<lparr>sm_mem := m\<rparr>)"
    using r(1) a by (simp add: sm_recvAtomic_def Let_def getLatency_def)
  note h = access_head [OF a r(1)]
  obtain l where l: "sm_insert ?w r (packetQueue s) = Inr l" "inserted (r, ?w, True) (packetQueue s) l"
    using sm_insert_place [OF c(1), of r ?w] h(3) r(3) by auto
  have g: "getLatency rnd2 (?s\<lparr>sm_mem := m\<rparr>) = getLatency rnd2 s" by (simp add: getLatency_def)
  have lst: "now \<le> fst (last l)" using inserted_last [OF l(2) r(6)] .
  show ?thesis
  proof (cases "needsResponse (pcmd p)")
    case True
    have "sm_recvTimingReq now dur (p, d, rnd1, rnd2) s = Inr (True, cl, s\<lparr>sm_mem := m, packetQueue := l,
      isBusy := dur (psize p) \<noteq> 0, releaseEvent := if dur (psize p) \<noteq> 0 then Some (now + dur (psize p)) else None,
      dequeueEvent := if \<not> retryResp s \<and> dequeueEvent s = None then Some (fst (last l)) else dequeueEvent s\<rparr>)"
      unfolding sm_recvTimingReq_def prod.case n b at bindR_simps g
      using True r(1,2) c(3) assms(4) h(4) l(1) lst by (simp add: Let_def sched_dequeue_def assertR_def)
    then show ?thesis using True l(2) by (intro exI [of _ l]) (simp add: sm_when_def)
  next
    case False
    have "sm_recvTimingReq now dur (p, d, rnd1, rnd2) s = Inr (True, cl, ?s\<lparr>sm_mem := m\<rparr>)"
      unfolding sm_recvTimingReq_def prod.case n b at bindR_simps
      using False r(1,2) c(3) assms(4) by simp
    then show ?thesis using False by (cases s) simp
  qed
qed

lemma recv_refuses:
  assumes "sm_core now s" "req_ok now dur s r" "isBusy s"
  shows "sm_recvTimingReq now dur r s = Inr (False, [], s\<lparr>sm_retryReq := True\<rparr>)"
proof -
  obtain p d rnd1 rnd2 where r: "r = (p, d, rnd1, rnd2)" by (cases r)
  have "\<not> cacheResponding p" "isRead (pcmd p) \<or> isWrite (pcmd p)" using assms(2) r by (auto simp: req_ok_def Let_def)
  moreover have "sm_retryReq s \<Longrightarrow> s\<lparr>sm_retryReq := True\<rparr> = s" by (cases s) simp
  ultimately show ?thesis using assms(3) r by (simp add: sm_recvTimingReq_def)
qed

text \<open>The memory with no timing: the accesses one after the other, with the responses of those that need one.\<close>

fun atomic_run :: "Packet list \<Rightarrow> AbstractMemory \<Rightarrow> (AbstractMemory \<times> Packet list) res" where
  "atomic_run [] m = ok (m, [])"
| "atomic_run (p # ps) m =
     bindR (access p m) (\<lambda>(m1, r, _). bindR (atomic_run ps m1) (\<lambda>(m2, rs).
       ok (m2, (if needsResponse (pcmd p) then [r] else []) @ rs)))"

lemma atomic_run_append:
  assumes "atomic_run ps m = Inr (m1, rs)" "atomic_run qs m1 = Inr (m2, rs')"
  shows "atomic_run (ps @ qs) m = Inr (m2, rs @ rs')"
  using assms(1)
proof (induction ps arbitrary: m rs)
  case (Cons p ps)
  obtain m0 r c where a: "access p m = Inr (m0, r, c)" using Cons.prems by (auto simp: bindR_eq_Inr)
  obtain rs0 where "atomic_run ps m0 = Inr (m1, rs0)" "rs = (if needsResponse (pcmd p) then [r] else []) @ rs0"
    using Cons.prems a by (auto simp: bindR_eq_Inr)
  then show ?case using a Cons.IH by simp
qed (use assms(2) in simp)

definition grown :: "(Tick \<times> Packet) list \<Rightarrow> (Tick \<times> Packet) list \<Rightarrow> (Tick \<times> Packet) list \<Rightarrow> bool" where
  "grown l E l' \<longleftrightarrow> mset l' = mset l + mset E \<and> (\<forall>a. by_addr a l' = by_addr a l @ by_addr a E) \<and> (l \<noteq> [] \<longrightarrow> l' \<noteq> [] \<and> hd l' = hd l)"

lemma grown_refl: "grown l [] l"
  by (simp add: grown_def by_addr_def)

lemma grown_trans: "grown l E l1 \<Longrightarrow> grown l1 E' l2 \<Longrightarrow> grown l (E @ E') l2"
  by (auto simp: grown_def)

lemma trace_grown: "pq_trace l E S \<Longrightarrow> grown l E' l' \<Longrightarrow> pq_trace l' (E @ E') S"
  by (auto simp: pq_trace_def grown_def)

definition sm_step :: "SimpleMemory \<Rightarrow> SimpleMemory \<Rightarrow> Packet list \<Rightarrow> bool" where
  "sm_step s s' A \<longleftrightarrow> (\<exists>E. atomic_run A (sm_mem s) = Inr (sm_mem s', map snd E) \<and> grown (packetQueue s) E (packetQueue s'))"

lemma sm_step_refl: "sm_mem s' = sm_mem s \<Longrightarrow> packetQueue s' = packetQueue s \<Longrightarrow> sm_step s s' []"
  unfolding sm_step_def by (rule exI [of _ "[]"]) (simp add: grown_refl)

lemma sm_step_trans:
  assumes "sm_step s s1 A" "sm_step s1 s2 B"
  shows "sm_step s s2 (A @ B)"
proof -
  obtain E where E: "atomic_run A (sm_mem s) = Inr (sm_mem s1, map snd E)" "grown (packetQueue s) E (packetQueue s1)"
    using assms(1) by (auto simp: sm_step_def)
  obtain E' where E': "atomic_run B (sm_mem s1) = Inr (sm_mem s2, map snd E')" "grown (packetQueue s1) E' (packetQueue s2)"
    using assms(2) by (auto simp: sm_step_def)
  show ?thesis using atomic_run_append [OF E(1) E'(1)] grown_trans [OF E(2) E'(2)]
    unfolding sm_step_def by (intro exI [of _ "E @ E'"]) simp
qed

definition accepted :: "sm_req list \<Rightarrow> bool list \<Rightarrow> Packet list" where
  "accepted rs xs = map (\<lambda>(r, x). fst r) (filter snd (zip rs xs))"

lemma accepted_step:
  assumes "sm_core now s" "sm_timed now s \<or> sm_sending now s" "req_ok now dur s r" "sm_recvTimingReq now dur r s = Inr (x, cl, s')"
  shows "sm_core now s'" "sm_timed now s \<Longrightarrow> sm_timed now s'" "sm_sending now s \<Longrightarrow> sm_sending now s'"
    "sm_step s s' (accepted [r] [x])" "same_memory s s'" "x \<or> sm_retryReq s'"
proof -
  obtain p d rnd1 rnd2 where r: "r = (p, d, rnd1, rnd2)" by (cases r)
  have "sm_core now s' \<and> (sm_timed now s \<longrightarrow> sm_timed now s') \<and> (sm_sending now s \<longrightarrow> sm_sending now s') \<and>
    sm_step s s' (accepted [r] [x]) \<and> same_memory s s' \<and> (x \<or> sm_retryReq s')"
  proof (cases "isBusy s")
    case True
    have s': "s' = s\<lparr>sm_retryReq := True\<rparr>" "x = False" using recv_refuses [OF assms(1,3) True] assms(4) by auto
    have "sm_step s s' (accepted [r] [x])" using s' sm_step_refl [of s' s] by (simp add: accepted_def)
    moreover have "sm_timed now s' = sm_timed now s" using s' by (intro sm_timed_cong) simp_all
    moreover have "sm_core now s'" "sm_sending now s' = sm_sending now s" "same_memory s s'"
      using s' assms(1) True by (simp_all add: sm_core_def sm_sending_def same_memory_def)
    ultimately show ?thesis using s' by simp
  next
    case False
    have q: "\<not> cacheResponding p" "isRead (pcmd p) \<or> isWrite (pcmd p)" "\<not> sm_retryReq s" "isSet (pflags p) VALID_ADDR"
      "now \<le> now + dur (psize p)" "now \<le> sm_when now r s" "sm_when now r s < MaxTick"
      using assms(1,3) False r by (auto simp: req_ok_def sm_core_def Let_def)
    have "\<exists>m q cl'. access p (sm_mem s) = Inr (m, q, cl')"
      using assms(4) q(1-3) False r by (auto simp: sm_recvTimingReq_def bindR_eq_Inr sm_recvAtomic_def sched_release_def assertR_eq_Inr split: if_splits)
    then obtain m q cl' where a: "access p (sm_mem s) = Inr (m, q, cl')" by blast
    obtain l where l: "Inr (x, cl, s') = Inr (True, cl', s\<lparr>sm_mem := m, packetQueue := l,
      isBusy := dur (psize p) \<noteq> 0, releaseEvent := if dur (psize p) \<noteq> 0 then Some (now + dur (psize p)) else None,
      dequeueEvent := if needsResponse (pcmd p) \<and> \<not> retryResp s \<and> dequeueEvent s = None then Some (fst (last l)) else dequeueEvent s\<rparr>)"
      "if needsResponse (pcmd p) then inserted (q, sm_when now r s, True) (packetQueue s) l else l = packetQueue s"
      using recv_accepts [OF assms(1,2) assms(3) [unfolded r] False a] assms(4) r by auto
    have x: "x = True" and f: "sm_mem s' = m" "packetQueue s' = l" "isBusy s' = (dur (psize p) \<noteq> 0)"
      "releaseEvent s' = (if dur (psize p) \<noteq> 0 then Some (now + dur (psize p)) else None)" "retryResp s' = retryResp s"
      "dequeueEvent s' = (if needsResponse (pcmd p) \<and> \<not> retryResp s \<and> dequeueEvent s = None then Some (fst (last l)) else dequeueEvent s)"
      "sm_retryReq s' = sm_retryReq s" "same_memory s s'" using l(1) by (simp_all add: same_memory_def)
    have i: "items_ok (packetQueue s)" "now < MaxTick" using assms(1) by (simp_all add: sm_core_def)
    show ?thesis
    proof (cases "needsResponse (pcmd p)")
      case False
      then have "l = packetQueue s" using l(2) by simp
      moreover have "sm_step s s' (accepted [r] [x])"
        unfolding sm_step_def using a False x r f(1,2) \<open>l = packetQueue s\<close> grown_refl by (intro exI [of _ "[]"]) (simp add: accepted_def)
      moreover have "sm_timed now s' = sm_timed now s" using False f \<open>l = packetQueue s\<close> by (intro sm_timed_cong) simp_all
      ultimately show ?thesis using False f i q(3,5) x by (simp add: sm_core_def sm_sending_def)
    next
      case True
      let ?w = "sm_when now r s"
      have ins: "inserted (q, ?w, True) (packetQueue s) l" using l(2) True by simp
      have va: "isSet (pflags q) VALID_ADDR" using access_head(3) [OF a q(1)] q(4) by simp
      have ok: "items_ok l" "l \<noteq> []" "hd l = (if packetQueue s = [] then (?w, q) else hd (packetQueue s))"
        "length l = Suc (length (packetQueue s))" "mset l = add_mset (?w, q) (mset (packetQueue s))"
        "\<And>a. filter (\<lambda>e. paddr (snd e) = a) l = filter (\<lambda>e. paddr (snd e) = a) (packetQueue s) @ (if paddr q = a then [(?w, q)] else [])"
        using inserted_keeps [OF ins i(1) va q(7)] by simp_all
      have "grown (packetQueue s) [(?w, q)] l" using ok(2,3,5,6) by (simp add: grown_def by_addr_def)
      then have "sm_step s s' (accepted [r] [x])"
        unfolding sm_step_def using a True x r f(1,2) by (intro exI [of _ "[(?w, q)]"]) (simp add: accepted_def)
      moreover have "sm_core now s'" using f i q(3,5) ok(1) by (simp add: sm_core_def)
      moreover have "sm_timed now s'" if t: "sm_timed now s"
      proof (cases "packetQueue s = []")
        case True
        then have "l = [(?w, q)]" using ok(2-4) by (cases l) auto
        then show ?thesis using t True \<open>needsResponse (pcmd p)\<close> f(2,5,6) q(6) by (simp add: sm_timed_def split: if_splits option.splits)
      next
        case False
        then show ?thesis using t f(2,5,6) ok(2,3) by (auto simp: sm_timed_def split: if_splits option.splits)
      qed
      moreover have "sm_sending now s'" if t: "sm_sending now s"
        using t f(2) ok(2-4) by (cases "packetQueue s") (auto simp: sm_sending_def)
      ultimately show ?thesis using f(8) x by blast
    qed
  qed
  then show "sm_core now s'" "sm_timed now s \<Longrightarrow> sm_timed now s'" "sm_sending now s \<Longrightarrow> sm_sending now s'"
    "sm_step s s' (accepted [r] [x])" "same_memory s s'" "x \<or> sm_retryReq s'" by blast+
qed

lemma recv_all_step:
  assumes "sm_core now s" "sm_sending now s" "list_all (req_ok now dur s) rs" "sm_recv_all now dur rs s = Inr (xs, cl, s')"
  shows "sm_core now s' \<and> sm_sending now s' \<and> sm_step s s' (accepted rs xs) \<and> same_memory s s'"
  using assms
proof (induction rs arbitrary: s xs cl)
  case Nil
  then show ?case using sm_step_refl [of s s] by (auto simp: accepted_def same_memory_def)
next
  case (Cons r rs)
  obtain x c s1 xs1 c1 where r: "sm_recvTimingReq now dur r s = Inr (x, c, s1)" "sm_recv_all now dur rs s1 = Inr (xs1, c1, s')"
    "xs = x # xs1" using Cons.prems(4) by (auto simp: bindR_eq_Inr)
  have "req_ok now dur s r" using Cons.prems(3) by simp
  note st = accepted_step [OF Cons.prems(1) disjI2 [OF Cons.prems(2)] this r(1)]
  have "list_all (req_ok now dur s1) rs" using Cons.prems(3) same_memory_req [OF st(5)] by (simp add: list_all_iff)
  from Cons.IH [OF st(1) st(3) [OF Cons.prems(2)] this r(2)]
  have IH: "sm_core now s'" "sm_sending now s'" "sm_step s1 s' (accepted rs xs1)" "same_memory s1 s'" by simp_all
  have "accepted (r # rs) xs = accepted [r] [x] @ accepted rs xs1" using r(3) by (simp add: accepted_def)
  then show ?case using IH sm_step_trans [OF st(4) IH(3)] st(5) by (simp add: same_memory_def)
qed

text \<open>What the requester may answer: its requests are in order, and there are none if it refuses the response.\<close>

definition reply_ok :: "Tick \<Rightarrow> (u32 \<Rightarrow> Tick) \<Rightarrow> SimpleMemory \<Rightarrow> bool \<times> sm_req list \<Rightarrow> bool" where
  "reply_ok now dur s ans \<longleftrightarrow> list_all (req_ok now dur s) (snd ans) \<and> (\<not> fst ans \<longrightarrow> snd ans = [])"

definition sm_trace :: "AbstractMemory \<Rightarrow> SimpleMemory \<Rightarrow> Packet list \<Rightarrow> (Tick \<times> Tick \<times> Packet) list \<Rightarrow> bool" where
  "sm_trace m0 s A S \<longleftrightarrow> (\<exists>E. atomic_run A m0 = Inr (sm_mem s, map snd E) \<and> pq_trace (packetQueue s) E S)"

lemma trace_step:
  assumes "sm_trace m0 s A S" "sm_step s s' B"
  shows "sm_trace m0 s' (A @ B) S"
proof -
  obtain E where E: "atomic_run A m0 = Inr (sm_mem s, map snd E)" "pq_trace (packetQueue s) E S"
    using assms(1) by (auto simp: sm_trace_def)
  obtain E' where E': "atomic_run B (sm_mem s) = Inr (sm_mem s', map snd E')" "grown (packetQueue s) E' (packetQueue s')"
    using assms(2) by (auto simp: sm_step_def)
  show ?thesis using atomic_run_append [OF E(1) E'(1)] trace_grown [OF E(2) E'(2)]
    unfolding sm_trace_def by (intro exI [of _ "E @ E'"]) simp
qed

text \<open>The memory after a response has been taken.\<close>

definition popped :: "Tick \<Rightarrow> SimpleMemory \<Rightarrow> SimpleMemory" where
  "popped now s = (let l = tl (packetQueue s) in
     s\<lparr>packetQueue := l, retryResp := False,
       dequeueEvent := if l = [] then dequeueEvent s else Some (max (fst (hd l)) now),
       sm_drainState := if l = [] \<and> sm_drainState s = Draining then Drained else sm_drainState s\<rparr>)"

lemma popped_ok:
  assumes "sm_core now s" "sm_sending now s"
  shows "sm_core now (popped now s)" "sm_timed now (popped now s)"
proof -
  have i: "items_ok (tl (packetQueue s))"
    using assms(1) by (cases "packetQueue s") (auto simp: sm_core_def items_ok_def)
  then show "sm_core now (popped now s)" by (intro sm_core_keep [OF assms(1)]) (simp_all add: popped_def Let_def)
  show "sm_timed now (popped now s)"
  proof (cases "tl (packetQueue s) = []")
    case True
    then have "length (packetQueue s) \<le> 1" by (cases "packetQueue s") simp_all
    then have "dequeueEvent s = None" using assms(2) by (auto simp: sm_sending_def)
    then show ?thesis using True by (simp add: sm_timed_def popped_def)
  qed (simp add: sm_timed_def popped_def Let_def)
qed

lemma dequeue_taken:
  assumes "packetQueue s \<noteq> []" "sm_recv_all now dur rs s = Inr (xs, cls, s1)"
  shows "dequeue now dur (True, rs) s = Inr (xs, cls, popped now s1)"
proof -
  let ?l = "tl (packetQueue s1)"
  have d: "dequeue now dur (True, rs) s =
      (if ?l \<noteq> [] then Inr (xs, cls, s1\<lparr>retryResp := False, packetQueue := ?l, dequeueEvent := Some (max (fst (hd ?l)) now)\<rparr>)
       else if sm_drainState s1 = Draining then Inr (xs, cls, s1\<lparr>retryResp := False, packetQueue := ?l, sm_drainState := Drained\<rparr>)
       else Inr (xs, cls, s1\<lparr>retryResp := False, packetQueue := ?l\<rparr>))"
    unfolding dequeue_def snd_conv fst_conv assms(2) bindR_simps prod.case using assms(1) by (simp add: assertR_def Let_def)
  consider "?l \<noteq> []" | "?l = []" "sm_drainState s1 = Draining" | "?l = []" "sm_drainState s1 \<noteq> Draining" by blast
  then show ?thesis
  proof cases
    case 1
    have "popped now s1 = s1\<lparr>retryResp := False, packetQueue := ?l, dequeueEvent := Some (max (fst (hd ?l)) now)\<rparr>"
      using 1 by (intro SimpleMemory.equality) (simp_all add: popped_def Let_def)
    then show ?thesis using d 1 by simp
  next
    case 2
    have "popped now s1 = s1\<lparr>retryResp := False, packetQueue := ?l, sm_drainState := Drained\<rparr>"
      using 2 by (intro SimpleMemory.equality) (simp_all add: popped_def)
    then show ?thesis using d 2 by simp
  next
    case 3
    have "popped now s1 = s1\<lparr>retryResp := False, packetQueue := ?l\<rparr>"
      using 3 by (intro SimpleMemory.equality) (simp_all add: popped_def)
    then show ?thesis using d 3 by simp
  qed
qed

lemma dequeue_step:
  assumes "sm_core now s" "sm_sending now s" "dequeueEvent s = None" "reply_ok now dur s ans" "dequeue now dur ans s = Inr (xs, cl, s')"
    and tr: "sm_trace m0 s A S"
  shows "sm_core now s' \<and> sm_timed now s' \<and>
    sm_trace m0 s' (A @ accepted (snd ans) xs) (S @ (if fst ans then [(now, hd (packetQueue s))] else []))"
proof (cases "fst ans")
  case True
  obtain rs where a: "ans = (True, rs)" using True by (cases ans) simp
  have ne: "packetQueue s \<noteq> []" using assms(2) by (simp add: sm_sending_def)
  have "\<exists>xs1 cls s1. sm_recv_all now dur rs s = Inr (xs1, cls, s1)"
    using assms(5) ne a by (auto simp: dequeue_def bindR_eq_Inr assertR_eq_Inr)
  then obtain xs1 cls s1 where r: "sm_recv_all now dur rs s = Inr (xs1, cls, s1)" by blast
  have s': "s' = popped now s1" "xs = xs1" using dequeue_taken [OF ne r] assms(5) a by simp_all
  have ok: "list_all (req_ok now dur s) rs" using assms(4) a by (simp add: reply_ok_def)
  have s1: "sm_core now s1" "sm_sending now s1" "sm_step s s1 (accepted rs xs1)"
    using recv_all_step [OF assms(1,2) ok r] by simp_all
  have hd: "packetQueue s1 \<noteq> []" "hd (packetQueue s1) = hd (packetQueue s)" "fst (hd (packetQueue s1)) \<le> now"
    using s1(2,3) ne by (auto simp: sm_step_def grown_def sm_sending_def)
  obtain E where E: "atomic_run (A @ accepted rs xs1) m0 = Inr (sm_mem s1, map snd E)" "pq_trace (packetQueue s1) E S"
    using trace_step [OF tr s1(3)] by (auto simp: sm_trace_def)
  have "sm_trace m0 s' (A @ accepted rs xs1) (S @ [(now, hd (packetQueue s))])"
    using trace_send [OF E(2) hd(1,3)] E(1) hd(2) s'(1) unfolding sm_trace_def by (intro exI [of _ E]) (simp add: popped_def Let_def)
  then show ?thesis using popped_ok [OF s1(1,2)] s' a by simp
next
  case False
  then have "snd ans = []" using assms(4) by (simp add: reply_ok_def)
  then have s': "s' = s\<lparr>retryResp := True\<rparr>" "xs = []" using assms(2,5) False by (simp_all add: dequeue_def assertR_def Let_def sm_sending_def)
  have "sm_core now s'" using s' sm_core_items [OF assms(1)] by (intro sm_core_keep [OF assms(1)]) simp_all
  moreover have "sm_timed now s'" using s' assms(2,3) by (simp add: sm_timed_def sm_sending_def)
  moreover have "sm_trace m0 s' A S" using tr s' by (simp add: sm_trace_def)
  ultimately show ?thesis using False \<open>snd ans = []\<close> s'(2) by (simp add: accepted_def)
qed

section \<open>The life of a memory\<close>

text \<open>
  A memory from its construction on: time passes up to the next event, requests come, the events are served when they
  are due, and retries come when they are owed. The trace has the requests accepted and the responses sent.
\<close>

inductive sm_reach :: "(u32 \<Rightarrow> Tick) \<Rightarrow> AbstractMemory \<Rightarrow> Tick \<Rightarrow> SimpleMemory \<Rightarrow> Packet list \<Rightarrow> (Tick \<times> Tick \<times> Packet) list \<Rightarrow> bool"
  for dur m0 where
  sm_start: "now < MaxTick \<Longrightarrow> sm_reach dur m0 now (SimpleMemory_new m0 lat var ds) [] []"
| sm_wait: "sm_reach dur m0 now s A S \<Longrightarrow> now \<le> t \<Longrightarrow> t < MaxTick \<Longrightarrow> (\<forall>w. dequeueEvent s = Some w \<longrightarrow> t \<le> w) \<Longrightarrow>
    (\<forall>w. releaseEvent s = Some w \<longrightarrow> t \<le> w) \<Longrightarrow> sm_reach dur m0 t s A S"
| sm_request: "sm_reach dur m0 now s A S \<Longrightarrow> req_ok now dur s r \<Longrightarrow> sm_recvTimingReq now dur r s = Inr (x, cl, s') \<Longrightarrow>
    sm_reach dur m0 now s' (A @ accepted [r] [x]) S"
| sm_released: "sm_reach dur m0 now s A S \<Longrightarrow> releaseEvent s = Some now \<Longrightarrow> sm_release s = Inr (b, s') \<Longrightarrow> sm_reach dur m0 now s' A S"
| sm_event: "sm_reach dur m0 now s A S \<Longrightarrow> dequeueEvent s = Some now \<Longrightarrow> reply_ok now dur s ans \<Longrightarrow>
    sm_dequeueEvent now dur ans s = Inr (xs, cl, s') \<Longrightarrow>
    sm_reach dur m0 now s' (A @ accepted (snd ans) xs) (S @ (if fst ans then [(now, hd (packetQueue s))] else []))"
| sm_retry: "sm_reach dur m0 now s A S \<Longrightarrow> retryResp s \<Longrightarrow> reply_ok now dur s ans \<Longrightarrow> sm_recvRespRetry now dur ans s = Inr (xs, cl, s') \<Longrightarrow>
    sm_reach dur m0 now s' (A @ accepted (snd ans) xs) (S @ (if fst ans then [(now, hd (packetQueue s))] else []))"
| sm_draining: "sm_reach dur m0 now s A S \<Longrightarrow> sm_reach dur m0 now (s\<lparr>sm_drainState := ds\<rparr>) A S"

text \<open>Both the event and the retry find the memory as it is while it sends.\<close>

lemma due_sending:
  assumes "sm_core now s" "sm_timed now s"
  shows "dequeueEvent s = Some now \<Longrightarrow> sm_core now (s\<lparr>dequeueEvent := None\<rparr>) \<and> sm_sending now (s\<lparr>dequeueEvent := None\<rparr>)"
    "retryResp s \<Longrightarrow> sm_sending now s \<and> dequeueEvent s = None"
  using assms by (cases "releaseEvent s", auto simp: sm_core_def sm_timed_def sm_sending_def split: if_splits)

lemma release_step:
  assumes "sm_core now s" "releaseEvent s = Some now"
  shows "sm_release s = Inr (sm_retryReq s, s\<lparr>releaseEvent := None, isBusy := False, sm_retryReq := False\<rparr>)"
proof -
  have b: "isBusy s" using assms by (auto simp: sm_core_def split: if_splits)
  show ?thesis
  proof (cases "sm_retryReq s")
    case False
    then show ?thesis using b by (cases s) (simp add: sm_release_def assertR_def Let_def)
  qed (use b in \<open>simp add: sm_release_def assertR_def Let_def\<close>)
qed

lemma sm_invariant: "sm_reach dur m0 now s A S \<Longrightarrow> sm_core now s \<and> sm_timed now s \<and> sm_trace m0 s A S"
proof (induction rule: sm_reach.induct)
  case (sm_start now lat var ds)
  have "pq_trace [] [] []" by (simp add: pq_trace_def by_addr_def)
  then have "sm_trace m0 (SimpleMemory_new m0 lat var ds) [] []"
    unfolding sm_trace_def by (intro exI [of _ "[]"]) (simp add: SimpleMemory_new_def)
  then show ?case using sm_start by (simp add: SimpleMemory_new_def sm_core_def sm_timed_def items_ok_def)
next
  case (sm_wait now s A S t)
  have "sm_core t s" using sm_wait by (auto simp: sm_core_def split: if_splits option.splits)
  moreover have "sm_timed t s" using sm_wait by (auto simp: sm_timed_def split: if_splits option.splits)
  ultimately show ?case using sm_wait.IH by simp
next
  case (sm_request now s A S r x cl s')
  then have "sm_core now s" "sm_timed now s" "sm_trace m0 s A S" by simp_all
  then show ?case using accepted_step [OF _ disjI1 sm_request.hyps(2,3)] trace_step by blast
next
  case (sm_released now s A S b s')
  have i: "sm_core now s" "sm_timed now s" "sm_trace m0 s A S" using sm_released.IH by simp_all
  have s': "s' = s\<lparr>releaseEvent := None, isBusy := False, sm_retryReq := False\<rparr>"
    using release_step [OF i(1) sm_released.hyps(2)] sm_released.hyps(3) by simp
  have "sm_timed now s' = sm_timed now s" using s' by (intro sm_timed_cong) simp_all
  then show ?case using i s' by (simp add: sm_core_def sm_trace_def)
next
  case (sm_event now s A S ans xs cl s')
  have i: "sm_core now s" "sm_timed now s" "sm_trace m0 s A S" using sm_event.IH by simp_all
  have d: "sm_core now (s\<lparr>dequeueEvent := None\<rparr>)" "sm_sending now (s\<lparr>dequeueEvent := None\<rparr>)"
    using due_sending(1) [OF i(1,2) sm_event.hyps(2)] by simp_all
  have "same_memory s (s\<lparr>dequeueEvent := None\<rparr>)" by (simp add: same_memory_def)
  then have r: "reply_ok now dur (s\<lparr>dequeueEvent := None\<rparr>) ans"
    using sm_event.hyps(3) same_memory_req by (simp add: reply_ok_def list_all_iff)
  have t: "sm_trace m0 (s\<lparr>dequeueEvent := None\<rparr>) A S" using i(3) by (simp add: sm_trace_def)
  show ?case using dequeue_step [OF d _ r sm_event.hyps(4) [unfolded sm_dequeueEvent_def] t]
    by (cases "fst ans") simp_all
next
  case (sm_retry now s A S ans xs cl s')
  have i: "sm_core now s" "sm_timed now s" "sm_trace m0 s A S" using sm_retry.IH by simp_all
  have d: "sm_sending now s" "dequeueEvent s = None" using due_sending(2) [OF i(1,2) sm_retry.hyps(2)] by simp_all
  have "dequeue now dur ans s = Inr (xs, cl, s')" using sm_retry.hyps(2,4) by (simp add: sm_recvRespRetry_def assertR_def)
  from dequeue_step [OF i(1) d sm_retry.hyps(3) this i(3)] show ?case .
next
  case (sm_draining now s A S ds)
  have "sm_timed now (s\<lparr>sm_drainState := ds\<rparr>) = sm_timed now s" by (intro sm_timed_cong) simp_all
  moreover have c: "sm_core now s" using sm_draining.IH by simp
  have "sm_core now (s\<lparr>sm_drainState := ds\<rparr>)"
    using sm_core_items [OF c] by (intro sm_core_keep [OF c]) simp_all
  ultimately show ?case using sm_draining.IH by (simp add: sm_trace_def)
qed

text \<open>C20: The memory with its timing implements the memory without: its contents and the responses are those of the
  accepted requests served one after the other, the responses to an address leave in the order in which their
  requests were accepted, none is lost or sent twice, and none leaves before its tick.\<close>
theorem simple_memory_refines:
  assumes "sm_reach dur m0 now s A S"
  shows "\<exists>E. atomic_run A m0 = Inr (sm_mem s, map snd E) \<and> mset E = mset (map snd S) + mset (packetQueue s) \<and>
    (\<forall>a. by_addr a E = by_addr a (map snd S) @ by_addr a (packetQueue s)) \<and> (\<forall>(t, w, p) \<in> set S. w \<le> t)"
proof -
  obtain E where "atomic_run A m0 = Inr (sm_mem s, map snd E)" "pq_trace (packetQueue s) E S"
    using sm_invariant [OF assms] by (auto simp: sm_trace_def)
  then show ?thesis by (intro exI [of _ E]) (simp add: pq_trace_def)
qed

lemma recv_served:
  assumes "sm_core now s" "sm_timed now s" "req_ok now dur s r" "access (fst r) (sm_mem s) = Inr z"
  shows "\<exists>x cl s'. sm_recvTimingReq now dur r s = Inr (x, cl, s') \<and> (x \<or> sm_retryReq s')"
proof (cases "isBusy s")
  case True
  then show ?thesis using recv_refuses [OF assms(1,3)]
    by (intro exI [of _ False] exI [of _ "[]"] exI [of _ "s\<lparr>sm_retryReq := True\<rparr>"]) simp
next
  case False
  obtain p d rnd1 rnd2 where r: "r = (p, d, rnd1, rnd2)" by (cases r)
  obtain m q cl where z: "access p (sm_mem s) = Inr (m, q, cl)" using assms(4) r by (cases z) simp
  show ?thesis using recv_accepts [OF assms(1) disjI1 [OF assms(2)] assms(3) [unfolded r] False z] r by blast
qed

text \<open>Requests sent from within the delivery of a response: as soon as one keeps the memory busy, the others are refused.\<close>

lemma recv_all_refused:
  assumes "sm_core now s" "isBusy s" "list_all (req_ok now dur s) rs"
  shows "\<exists>y. sm_recv_all now dur rs s = Inr y"
  using assms
proof (induction rs arbitrary: s)
  case (Cons r rs)
  let ?s = "s\<lparr>sm_retryReq := True\<rparr>"
  have "sm_recvTimingReq now dur r s = Inr (False, [], ?s)" using recv_refuses [OF Cons.prems(1) _ Cons.prems(2)] Cons.prems(3) by simp
  moreover have "list_all (req_ok now dur ?s) rs"
    using Cons.prems(3) same_memory_req [of s ?s] by (simp add: same_memory_def list_all_iff)
  moreover have "sm_core now ?s" using Cons.prems(1,2) by (simp add: sm_core_def)
  ultimately show ?case using Cons.IH [of ?s] Cons.prems(2) by auto
qed simp

lemma recv_all_served:
  assumes "sm_core now s" "sm_sending now s" "list_all (req_ok now dur s) rs" "atomic_run (map fst rs) (sm_mem s) = Inr z"
  shows "\<exists>y. sm_recv_all now dur rs s = Inr y"
  using assms
proof (induction rs arbitrary: s z)
  case (Cons r rs)
  show ?case
  proof (cases "isBusy s")
    case True
    then show ?thesis by (rule recv_all_refused [OF Cons.prems(1) _ Cons.prems(3)])
  next
    case False
    obtain p d rnd1 rnd2 where r: "r = (p, d, rnd1, rnd2)" by (cases r)
    obtain m q cl z' where a: "access p (sm_mem s) = Inr (m, q, cl)" "atomic_run (map fst rs) m = Inr z'"
      using Cons.prems(4) r by (auto simp: bindR_eq_Inr)
    have ok: "req_ok now dur s r" using Cons.prems(3) by simp
    obtain s1 where s1: "sm_recvTimingReq now dur r s = Inr (True, cl, s1)" "sm_mem s1 = m"
      using recv_accepts [OF Cons.prems(1) disjI2 [OF Cons.prems(2)] ok [unfolded r] False a(1)] r by auto
    note st = accepted_step [OF Cons.prems(1) disjI2 [OF Cons.prems(2)] ok s1(1)]
    have "list_all (req_ok now dur s1) rs" using Cons.prems(3) same_memory_req [OF st(5)] by (simp add: list_all_iff)
    then show ?thesis using Cons.IH [OF st(1) st(3) [OF Cons.prems(2)]] a(2) s1 by fastforce
  qed
qed simp

lemma dequeue_served:
  assumes "sm_core now s" "sm_sending now s" "list_all (req_ok now dur s) rs" "atomic_run (map fst rs) (sm_mem s) = Inr z"
  shows "\<exists>y. dequeue now dur (taken, rs) s = Inr y"
proof -
  have ne: "packetQueue s \<noteq> []" using assms(2) by (simp add: sm_sending_def)
  obtain xs cls s1 where r: "sm_recv_all now dur rs s = Inr (xs, cls, s1)" using recv_all_served [OF assms] by auto
  show ?thesis
  proof (cases taken)
    case True
    then show ?thesis using dequeue_taken [OF ne r] by simp
  qed (use ne r in \<open>simp add: dequeue_def assertR_def Let_def\<close>)
qed

lemma event_served:
  assumes "sm_core now s" "sm_timed now s" "dequeueEvent s = Some now" "list_all (req_ok now dur s) rs"
    and "atomic_run (map fst rs) (sm_mem s) = Inr z"
  shows "\<exists>y. sm_dequeueEvent now dur (taken, rs) s = Inr y"
proof -
  let ?s = "s\<lparr>dequeueEvent := None\<rparr>"
  have d: "sm_core now ?s" "sm_sending now ?s" using due_sending(1) [OF assms(1-3)] by simp_all
  have "list_all (req_ok now dur ?s) rs" using assms(4) same_memory_req [of s ?s] by (simp add: same_memory_def list_all_iff)
  from dequeue_served [OF d this, of z taken] show ?thesis using assms(5) by (simp add: sm_dequeueEvent_def)
qed

lemma retry_served:
  assumes "sm_core now s" "sm_timed now s" "retryResp s" "list_all (req_ok now dur s) rs" "atomic_run (map fst rs) (sm_mem s) = Inr z"
  shows "\<exists>y. sm_recvRespRetry now dur (taken, rs) s = Inr y"
  using dequeue_served [OF assms(1) _ assms(4,5), of taken] due_sending(2) [OF assms(1-3)] assms(3)
  by (simp add: sm_recvRespRetry_def assertR_def)

text \<open>C21: The memory is never stuck and no assertion of it fails: while responses wait the dequeue event is scheduled or
  a retry is owed; a requester that was refused is owed a retry, and the release event that sends it is
  scheduled; requests that can be accessed are taken or refused; the release event is served; and the dequeue
  event and the retry are served whether the requester takes the response or not, and whatever requests it
  sends from within the delivery, as long as each is a read or write with a size and an address whose ticks
  do not overflow, and the accesses succeed one after the other. In particular a response queued by such a
  request, which schedules the dequeue event itself, does not collide with the event scheduled for the next
  response.\<close>
theorem simple_memory_never_stuck:
  assumes "sm_reach dur m0 now s A S"
  shows "(packetQueue s = [] \<or> retryResp s \<or> (\<exists>w \<ge> now. dequeueEvent s = Some w \<and> fst (hd (packetQueue s)) \<le> w)) \<and>
    (sm_retryReq s \<longrightarrow> (\<exists>w \<ge> now. releaseEvent s = Some w)) \<and>
    (req_ok now dur s r \<and> access (fst r) (sm_mem s) = Inr z \<longrightarrow>
      (\<exists>x cl s'. sm_recvTimingReq now dur r s = Inr (x, cl, s') \<and> (x \<or> sm_retryReq s'))) \<and>
    (releaseEvent s = Some now \<longrightarrow> (\<exists>s'. sm_release s = Inr (sm_retryReq s, s') \<and> \<not> isBusy s')) \<and>
    (list_all (req_ok now dur s) rs \<and> atomic_run (map fst rs) (sm_mem s) = Inr z' \<longrightarrow>
      (dequeueEvent s = Some now \<longrightarrow> (\<exists>y. sm_dequeueEvent now dur (taken, rs) s = Inr y)) \<and>
      (retryResp s \<longrightarrow> (\<exists>y. sm_recvRespRetry now dur (taken, rs) s = Inr y)))"
proof -
  have i: "sm_core now s" "sm_timed now s" using sm_invariant [OF assms] by simp_all
  have 1: "packetQueue s = [] \<or> retryResp s \<or> (\<exists>w \<ge> now. dequeueEvent s = Some w \<and> fst (hd (packetQueue s)) \<le> w)"
    using i(2) by (cases "dequeueEvent s") (auto simp: sm_timed_def)
  have 2: "sm_retryReq s \<longrightarrow> (\<exists>w \<ge> now. releaseEvent s = Some w)"
    using i(1) by (cases "releaseEvent s") (auto simp: sm_core_def split: if_splits)
  have 3: "releaseEvent s = Some now \<longrightarrow> (\<exists>s'. sm_release s = Inr (sm_retryReq s, s') \<and> \<not> isBusy s')"
    using release_step [OF i(1)] by simp
  show ?thesis using 1 2 3 event_served [OF i] retry_served [OF i] recv_served [OF i] by blast
qed

section \<open>An example\<close>

text \<open>A store to a memory that is busy for ten ticks with every request and answers after five.\<close>

definition ex_memory :: SimpleMemory where "ex_memory = SimpleMemory_new (small_mem []) 5 0 DrainRunning"

definition ex_store :: sm_req where "ex_store = (ctx_packet WriteReq 0x1004 [1, 2] 7, 0, 0, 0)"

lemma ex_store_ok:
  "sm_reach dur (small_mem []) 0 ex_memory [] []" "req_ok 0 (\<lambda>_. 10) ex_memory ex_store" "\<not> isBusy ex_memory" "packetQueue ex_memory = []"
  "sm_mem ex_memory = small_mem []" "sm_when 0 ex_store ex_memory = 5"
proof -
  have c: "isWrite WriteReq" by code_simp
  show "sm_reach dur (small_mem []) 0 ex_memory [] []" unfolding ex_memory_def by (rule sm_start) (simp add: MaxTick_def)
  show w: "sm_when 0 ex_store ex_memory = 5" "\<not> isBusy ex_memory" "packetQueue ex_memory = []" "sm_mem ex_memory = small_mem []"
    by (simp_all add: sm_when_def ex_store_def ex_memory_def SimpleMemory_new_def getLatency_def)
  show "req_ok 0 (\<lambda>_. 10) ex_memory ex_store"
    using w(1) c by (simp add: req_ok_def Let_def ex_store_def ctx_packet_ok MaxTick_def) (simp add: ctx_packet_def isSet_def)
qed

lemma ex_store_access:
  "\<exists>m' r. access (fst ex_store) (small_mem []) = Inr (m', r, []) \<and> byte_map m' 0x1005 = Some 2"
proof -
  let ?p = "ctx_packet WriteReq 0x1004 [1, 2] 7"
  have cmd: "isRequest WriteReq" "isWrite WriteReq" "\<not> isRead WriteReq" "\<not> isLLSC WriteReq" "needsResponse WriteReq" "WriteReq \<noteq> WritebackClean"
    by code_simp+
  have t: "touches ?p 0x1005" "pdata ?p ! (unat (0x1005 :: u64) - unat (paddr ?p)) = 2"
    by (simp_all add: touches_def ctx_packet_def word_le_nat_alt)
  show ?thesis
    using access_write_bytes [OF small_mem_wf(1,3,2) small_fits, of WriteReq 7] cmd t ctx_packet_ok(3,5,6)
    by (fastforce simp: ex_store_def)
qed

text \<open>A memory that is never busy, with the response of the store queued; when it is sent, the same store comes again.\<close>

lemma ex_twice:
  "case sm_recvTimingReq 0 (\<lambda>_. 0) ex_store ex_memory of Inl _ \<Rightarrow> False
   | Inr (x, cl, s1) \<Rightarrow> x \<and> dequeueEvent s1 = Some 5 \<and> releaseEvent s1 = None \<and> req_ok 0 (\<lambda>_. 0) ex_memory ex_store \<and>
       list_all (req_ok 5 (\<lambda>_. 0) s1) [ex_store] \<and> \<not> isl (atomic_run (map fst [ex_store]) (sm_mem s1))"
  by code_simp

theorem simple_memory_never_stuck_witness:
  "\<exists>cl s1 y. sm_recvTimingReq 0 (\<lambda>_. 0) ex_store ex_memory = Inr (True, cl, s1) \<and>
    sm_dequeueEvent 5 (\<lambda>_. 0) (True, [ex_store]) s1 = Inr y"
proof -
  obtain cl s1 where s1: "sm_recvTimingReq 0 (\<lambda>_. 0) ex_store ex_memory = Inr (True, cl, s1)" "dequeueEvent s1 = Some 5"
    "releaseEvent s1 = None" "req_ok 0 (\<lambda>_. 0) ex_memory ex_store" "list_all (req_ok 5 (\<lambda>_. 0) s1) [ex_store]"
    "\<not> isl (atomic_run (map fst [ex_store]) (sm_mem s1))"
    using ex_twice by (auto split: sum.splits)
  obtain z where z: "atomic_run (map fst [ex_store]) (sm_mem s1) = Inr z"
    using s1(6) by (cases "atomic_run (map fst [ex_store]) (sm_mem s1)") auto
  have "sm_reach (\<lambda>_. 0) (small_mem []) 0 s1 ([] @ accepted [ex_store] [True]) []"
    by (rule sm_request [OF ex_store_ok(1) s1(4,1)])
  then have "sm_reach (\<lambda>_. 0) (small_mem []) 5 s1 ([] @ accepted [ex_store] [True]) []"
    by (rule sm_wait) (simp_all add: s1(2,3) MaxTick_def)
  from simple_memory_never_stuck [OF this, of _ _ "[ex_store]" z True] s1(2,5) z
  have "\<exists>y. sm_dequeueEvent 5 (\<lambda>_. 0) (True, [ex_store]) s1 = Inr y" by blast
  then show ?thesis using s1(1) by blast
qed

theorem simple_memory_refines_witness:
  "\<exists>cl s'. sm_recvTimingReq 0 (\<lambda>_. 10) ex_store ex_memory = Inr (True, cl, s') \<and> byte_map (sm_mem s') 0x1005 = Some 2 \<and> length (packetQueue s') = 1"
proof -
  obtain m' r where a: "access (fst ex_store) (small_mem []) = Inr (m', r, [])" "byte_map m' 0x1005 = Some 2" using ex_store_access by blast
  have i: "sm_core 0 ex_memory" "sm_timed 0 ex_memory" using sm_invariant [OF ex_store_ok(1)] by simp_all
  obtain p where p: "ex_store = (p, 0, 0, 0)" "fst ex_store = p" "pcmd p = WriteReq" by (simp add: ex_store_def ctx_packet_ok)
  obtain l s' where s': "sm_recvTimingReq 0 (\<lambda>_. 10) ex_store ex_memory = Inr (True, [], s')"
    using recv_accepts [OF i(1) disjI1 [OF i(2)] ex_store_ok(2) [unfolded p(1)] ex_store_ok(3) a(1) [unfolded p(2), folded ex_store_ok(5)]] p(1) by auto
  have "sm_reach (\<lambda>_. 10) (small_mem []) 0 s' [p] []"
    using sm_request [OF ex_store_ok(1,2) s'] p(2) by (simp add: accepted_def case_prod_unfold)
  from simple_memory_refines [OF this] obtain E where
    E: "atomic_run [p] (small_mem []) = Inr (sm_mem s', map snd E)" "mset E = mset (packetQueue s')" by auto
  have "needsResponse WriteReq" by code_simp
  then have "sm_mem s' = m'" "length E = 1" using E(1) a(1) p(2,3) by (auto dest: arg_cong [of _ _ length])
  moreover have "length (packetQueue s') = length E" using E(2) by (metis size_mset)
  ultimately show ?thesis using s' a(2) by auto
qed

end
