(* ===== verification/XBar_Layer.thy ===== *)
theory XBar_Layer
  imports Sim_Drain
begin

text \<open>
  The layers of a crossbar, from \<^verbatim>\<open>src/mem/xbar.cc\<close>: every destination has a layer that takes one packet at a time.
  A port that finds the layer occupied waits for a retry of the layer, a port whose packet the destination refused
  waits for a retry of the destination. Ports are of a type \<open>'p\<close>, the source type of the template.
\<close>

section \<open>A layer\<close>

datatype LayerState = IDLE | BUSY | RETRY

record 'p Layer =
  xl_state :: LayerState
  waitingForLayer :: "'p list"
  waitingForPeer :: "'p option"
  xl_releaseEvent :: "Tick option"
  xl_occupancy :: nat
  xl_drainState :: DrainState

definition Layer_new :: "DrainState \<Rightarrow> 'p Layer" where
  "Layer_new s = \<lparr>xl_state = IDLE, waitingForLayer = [], waitingForPeer = None, xl_releaseEvent = None, xl_occupancy = 0, xl_drainState = s\<rparr>"

definition occupyLayer :: "Tick \<Rightarrow> Tick \<Rightarrow> 'p Layer \<Rightarrow> 'p Layer res" where
  "occupyLayer now until l =
     assertR (xl_state l = BUSY) (assertR (until \<noteq> 0) (assertR (until \<ge> now \<and> xl_releaseEvent l = None)
     (ok (l\<lparr>xl_releaseEvent := Some until, xl_occupancy := xl_occupancy l + unat (until - now)\<rparr>))))"

definition tryTiming :: "'p \<Rightarrow> 'p Layer \<Rightarrow> (bool \<times> 'p Layer) res" where
  "tryTiming src l =
     (if xl_state l = BUSY \<or> waitingForPeer l \<noteq> None
      then assertR (src \<notin> set (waitingForLayer l)) (ok (False, l\<lparr>waitingForLayer := waitingForLayer l @ [src]\<rparr>))
      else ok (True, l\<lparr>xl_state := BUSY\<rparr>))"

definition succeededTiming :: "Tick \<Rightarrow> Tick \<Rightarrow> 'p Layer \<Rightarrow> 'p Layer res" where
  "succeededTiming now busy_time l = assertR (xl_state l = BUSY) (occupyLayer now busy_time l)"

definition failedTiming :: "Tick \<Rightarrow> 'p \<Rightarrow> Tick \<Rightarrow> 'p Layer \<Rightarrow> 'p Layer res" where
  "failedTiming now src busy_time l =
     assertR (waitingForPeer l = None)
     (let l1 = l\<lparr>waitingForPeer := Some src\<rparr> in assertR (xl_state l1 = BUSY) (occupyLayer now busy_time l1))"

text \<open>
  What a crossbar does with a packet for the layer: the port it comes from, whether the destination takes it, and until
  when the layer is occupied. The result is whether the layer accepted the packet.
\<close>

type_synonym 'p layer_req = "'p \<times> bool \<times> Tick"

definition layer_send :: "Tick \<Rightarrow> 'p layer_req \<Rightarrow> 'p Layer \<Rightarrow> (bool \<times> 'p Layer) res" where
  "layer_send now = (\<lambda>(src, taken, until) l.
     bindR (tryTiming src l) (\<lambda>(b, l1).
       if \<not> b then ok (False, l1)
       else bindR (if taken then succeededTiming now until l1 else failedTiming now src until l1) (\<lambda>l2. ok (True, l2))))"

fun layer_sends :: "Tick \<Rightarrow> 'p layer_req list \<Rightarrow> 'p Layer \<Rightarrow> (bool list \<times> 'p Layer) res" where
  "layer_sends now [] l = ok ([], l)"
| "layer_sends now (s # ss) l =
     bindR (layer_send now s l) (\<lambda>(b, l1). bindR (layer_sends now ss l1) (\<lambda>(bs, l2). ok (b # bs, l2)))"

text \<open>
  A retry may make the port, or what is behind it, send at once. The part of \<^verbatim>\<open>retryWaiting\<close> before the retry is sent,
  with the port that is told to retry, and the part afterwards: if nothing came back, the layer is occupied
  until the next clock edge.
\<close>

definition retry_begin :: "'p Layer \<Rightarrow> ('p \<times> 'p Layer) res" where
  "retry_begin l =
     assertR (waitingForLayer l \<noteq> []) (assertR (xl_state l = IDLE)
     (ok (hd (waitingForLayer l), l\<lparr>xl_state := RETRY, waitingForLayer := tl (waitingForLayer l)\<rparr>)))"

definition retry_end :: "Tick \<Rightarrow> Tick \<Rightarrow> 'p Layer \<Rightarrow> 'p Layer res" where
  "retry_end now edge l = (if xl_state l = RETRY then occupyLayer now edge (l\<lparr>xl_state := BUSY\<rparr>) else ok l)"

definition retryWaiting :: "Tick \<Rightarrow> Tick \<Rightarrow> 'p layer_req list \<Rightarrow> 'p Layer \<Rightarrow> ('p option \<times> bool list \<times> 'p Layer) res" where
  "retryWaiting now edge calls l =
     bindR (retry_begin l) (\<lambda>(p, l1). bindR (layer_sends now calls l1) (\<lambda>(bs, l2).
     bindR (retry_end now edge l2) (\<lambda>l3. ok (Some p, bs, l3))))"

text \<open>\<^verbatim>\<open>releaseLayer\<close> and \<^verbatim>\<open>recvRetry\<close> up to the point where they may retry a waiting port, which the first result says.\<close>

definition release_begin :: "'p Layer \<Rightarrow> (bool \<times> 'p Layer) res" where
  "release_begin l =
     assertR (xl_state l = BUSY) (assertR (xl_releaseEvent l = None)
     (let l1 = l\<lparr>xl_state := IDLE\<rparr> in
      if waitingForLayer l1 \<noteq> [] then ok (waitingForPeer l1 = None, l1)
      else if waitingForPeer l1 = None \<and> xl_drainState l1 = Draining then ok (False, l1\<lparr>xl_drainState := Drained\<rparr>)
      else ok (False, l1)))"

definition recvRetry_begin :: "'p Layer \<Rightarrow> (bool \<times> 'p Layer) res" where
  "recvRetry_begin l =
     (case waitingForPeer l of
        None \<Rightarrow> fail AssertFailed
      | Some p \<Rightarrow>
          (let l1 = l\<lparr>waitingForLayer := p # waitingForLayer l, waitingForPeer := None\<rparr> in
           if xl_state l1 = IDLE then ok (True, l1) else assertR (xl_state l1 = BUSY) (ok (False, l1))))"

text \<open>
  Both in full, with the packets that come back to the layer. The result has the port that was told to retry. The release
  event is off the event queue when it is served.
\<close>

definition releaseLayer :: "Tick \<Rightarrow> Tick \<Rightarrow> 'p layer_req list \<Rightarrow> 'p Layer \<Rightarrow> ('p option \<times> bool list \<times> 'p Layer) res" where
  "releaseLayer now edge calls l =
     bindR (release_begin (l\<lparr>xl_releaseEvent := None\<rparr>)) (\<lambda>(again, l1). if again then retryWaiting now edge calls l1 else ok (None, [], l1))"

definition layer_recvRetry :: "Tick \<Rightarrow> Tick \<Rightarrow> 'p layer_req list \<Rightarrow> 'p Layer \<Rightarrow> ('p option \<times> bool list \<times> 'p Layer) res" where
  "layer_recvRetry now edge calls l =
     bindR (recvRetry_begin l) (\<lambda>(again, l1). if again then retryWaiting now edge calls l1 else ok (None, [], l1))"

definition layer_drain :: "'p Layer \<Rightarrow> DrainState" where
  "layer_drain l = (if xl_state l \<noteq> IDLE then Draining else Drained)"

section \<open>What holds of a layer\<close>

definition peer_list :: "'p Layer \<Rightarrow> 'p list" where
  "peer_list l = (case waitingForPeer l of None \<Rightarrow> [] | Some p \<Rightarrow> [p])"

definition layer_ok :: "Tick \<Rightarrow> 'p Layer \<Rightarrow> bool" where
  "layer_ok now l \<longleftrightarrow> distinct (peer_list l @ waitingForLayer l) \<and>
     (case xl_state l of
        IDLE \<Rightarrow> xl_releaseEvent l = None \<and> (waitingForPeer l = None \<longrightarrow> waitingForLayer l = [])
      | BUSY \<Rightarrow> (\<exists>w \<ge> now. xl_releaseEvent l = Some w)
      | RETRY \<Rightarrow> xl_releaseEvent l = None \<and> waitingForPeer l = None)"

text \<open>A port sends if it is not waiting, and the layer is occupied until some time to come.\<close>

definition send_ok :: "Tick \<Rightarrow> 'p layer_req \<Rightarrow> 'p Layer \<Rightarrow> bool" where
  "send_ok now = (\<lambda>(src, taken, until) l. src \<notin> set (peer_list l @ waitingForLayer l) \<and> now \<le> until \<and> until \<noteq> 0)"

fun sends_ok :: "Tick \<Rightarrow> 'p layer_req list \<Rightarrow> 'p Layer \<Rightarrow> bool" where
  "sends_ok now [] l \<longleftrightarrow> True"
| "sends_ok now (s # ss) l \<longleftrightarrow> send_ok now s l \<and> (case layer_send now s l of Inl _ \<Rightarrow> True | Inr (b, l1) \<Rightarrow> sends_ok now ss l1)"

text \<open>The ports that the layer refused.\<close>

definition refused :: "'p layer_req list \<Rightarrow> bool list \<Rightarrow> 'p list" where
  "refused ss bs = map (\<lambda>(s, b). fst s) (filter (\<lambda>(s, b). \<not> b) (zip ss bs))"

lemma layer_send_step:
  assumes "layer_ok now l" "send_ok now s l"
  shows "\<exists>b l'. layer_send now s l = Inr (b, l') \<and> layer_ok now l' \<and> xl_state l' \<noteq> RETRY \<and>
    waitingForLayer l' = waitingForLayer l @ refused [s] [b] \<and> (xl_state l = RETRY \<longrightarrow> b) \<and> (xl_state l = BUSY \<longrightarrow> \<not> b)"
proof -
  obtain src taken until where s: "s = (src, taken, until)" by (cases s)
  have n: "src \<notin> set (peer_list l)" "src \<notin> set (waitingForLayer l)" "now \<le> until" "until \<noteq> 0" using assms(2) s by (auto simp: send_ok_def)
  have d: "distinct (peer_list l @ waitingForLayer l)" using assms(1) by (simp add: layer_ok_def)
  show ?thesis
  proof (cases "xl_state l = BUSY \<or> waitingForPeer l \<noteq> None")
    case True
    let ?l = "l\<lparr>waitingForLayer := waitingForLayer l @ [src]\<rparr>"
    have "layer_send now s l = Inr (False, ?l)" using True n s by (auto simp: layer_send_def tryTiming_def assertR_def)
    moreover have "layer_ok now ?l" "xl_state l \<noteq> RETRY"
      using True assms(1) n d by (cases "xl_state l"; auto simp: layer_ok_def peer_list_def)+
    ultimately show ?thesis using s by (auto simp: refused_def)
  next
    case False
    then have f: "xl_state l \<noteq> BUSY" "waitingForPeer l = None" "xl_releaseEvent l = None" using assms(1) by (cases "xl_state l"; auto simp: layer_ok_def)+
    let ?l = "l\<lparr>xl_state := BUSY, waitingForPeer := if taken then None else Some src, xl_releaseEvent := Some until,
        xl_occupancy := xl_occupancy l + unat (until - now)\<rparr>"
    have "layer_send now s l = Inr (True, ?l)"
      using f n s by (cases l) (auto simp: layer_send_def tryTiming_def succeededTiming_def failedTiming_def occupyLayer_def assertR_def Let_def)
    moreover have "layer_ok now ?l" using n d f(2) by (simp add: layer_ok_def peer_list_def)
    ultimately show ?thesis using f(1) s by (auto simp: refused_def)
  qed
qed

lemma refused_Cons: "refused (s # ss) (b # bs) = refused [s] [b] @ refused ss bs"
  by (simp add: refused_def)

lemma layer_sends_step:
  assumes "layer_ok now l" "sends_ok now ss l"
  shows "\<exists>bs l'. layer_sends now ss l = Inr (bs, l') \<and> layer_ok now l' \<and> (xl_state l' = RETRY \<longrightarrow> ss = []) \<and>
    waitingForLayer l' = waitingForLayer l @ refused ss bs \<and> (ss = [] \<longrightarrow> l' = l)"
  using assms
proof (induction ss arbitrary: l)
  case Nil
  then show ?case by (simp add: refused_def)
next
  case (Cons s ss)
  obtain b l1 where l1: "layer_send now s l = Inr (b, l1)" "layer_ok now l1" "xl_state l1 \<noteq> RETRY"
    "waitingForLayer l1 = waitingForLayer l @ refused [s] [b]" using layer_send_step [OF Cons.prems(1), of s] Cons.prems(2) by auto
  have "sends_ok now ss l1" using Cons.prems(2) l1(1) by simp
  then obtain bs l' where l': "layer_sends now ss l1 = Inr (bs, l')" "layer_ok now l'" "xl_state l' = RETRY \<longrightarrow> ss = []"
    "waitingForLayer l' = waitingForLayer l1 @ refused ss bs" "ss = [] \<longrightarrow> l' = l1" using Cons.IH [OF l1(2)] by blast
  then show ?case using l1 by (auto simp: refused_Cons [of s ss b bs])
qed

lemma retryWaiting_step:
  assumes "xl_state l = IDLE" "xl_releaseEvent l = None" "waitingForPeer l = None" "waitingForLayer l = p # ps" "distinct (p # ps)"
    and "sends_ok now calls (l\<lparr>xl_state := RETRY, waitingForLayer := ps\<rparr>)" "now \<le> edge" "edge \<noteq> 0"
  shows "\<exists>bs l'. retryWaiting now edge calls l = Inr (Some p, bs, l') \<and> layer_ok now l' \<and> xl_state l' \<noteq> RETRY \<and> waitingForLayer l' = ps @ refused calls bs"
proof -
  let ?l = "l\<lparr>xl_state := RETRY, waitingForLayer := ps\<rparr>"
  have ok: "layer_ok now ?l" using assms(2,3,5) by (simp add: layer_ok_def peer_list_def)
  obtain bs l2 where l2: "layer_sends now calls ?l = Inr (bs, l2)" "layer_ok now l2" "xl_state l2 = RETRY \<longrightarrow> calls = []"
    "waitingForLayer l2 = ps @ refused calls bs" "calls = [] \<longrightarrow> l2 = ?l" using layer_sends_step [OF ok assms(6)] by auto
  have r: "retryWaiting now edge calls l = bindR (retry_end now edge l2) (\<lambda>l3. ok (Some p, bs, l3))"
    using assms(1,4) l2(1) by (simp add: retryWaiting_def retry_begin_def assertR_def)
  show ?thesis
  proof (cases "xl_state l2 = RETRY")
    case False
    then show ?thesis using r l2 by (simp add: retry_end_def)
  next
    case True
    let ?l3 = "l2\<lparr>xl_state := BUSY, xl_releaseEvent := Some edge, xl_occupancy := xl_occupancy l2 + unat (edge - now)\<rparr>"
    have "retry_end now edge l2 = Inr ?l3"
      using True l2(2) assms(7,8) by (simp add: retry_end_def occupyLayer_def assertR_def layer_ok_def)
    moreover have "layer_ok now ?l3" using l2(2) assms(7) by (simp add: layer_ok_def peer_list_def)
    ultimately show ?thesis using True r l2(4) by simp
  qed
qed

section \<open>The life of a layer\<close>

text \<open>What comes back to the layer while it retries, and when the next clock edge is.\<close>

definition retrying :: "'p Layer \<Rightarrow> 'p Layer" where
  "retrying l = l\<lparr>xl_state := RETRY, xl_releaseEvent := None, waitingForPeer := None,
     waitingForLayer := (if waitingForPeer l = None then tl (waitingForLayer l) else waitingForLayer l)\<rparr>"

definition calls_ok :: "Tick \<Rightarrow> Tick \<Rightarrow> 'p layer_req list \<Rightarrow> 'p Layer \<Rightarrow> bool" where
  "calls_ok now edge calls l \<longleftrightarrow> now \<le> edge \<and> edge \<noteq> 0 \<and> sends_ok now calls (retrying l)"

lemma released_step:
  assumes "layer_ok now l" "xl_releaseEvent l = Some now" "calls_ok now edge calls l"
  shows "\<exists>q bs l'. releaseLayer now edge calls l = Inr (q, bs, l') \<and> layer_ok now l' \<and> xl_state l' \<noteq> RETRY \<and>
    (if waitingForLayer l \<noteq> [] \<and> waitingForPeer l = None
     then q = Some (hd (waitingForLayer l)) \<and> waitingForLayer l' = tl (waitingForLayer l) @ refused calls bs
     else q = None \<and> bs = [] \<and> waitingForLayer l' = waitingForLayer l \<and> waitingForPeer l' = waitingForPeer l)"
proof -
  have b: "xl_state l = BUSY" using assms(1,2) by (cases "xl_state l") (auto simp: layer_ok_def)
  have d: "distinct (peer_list l @ waitingForLayer l)" using assms(1) by (simp add: layer_ok_def)
  let ?l = "l\<lparr>xl_releaseEvent := None, xl_state := IDLE\<rparr>"
  show ?thesis
  proof (cases "waitingForLayer l \<noteq> [] \<and> waitingForPeer l = None")
    case True
    then obtain p ps where w: "waitingForLayer l = p # ps" by (cases "waitingForLayer l") auto
    have "retrying l = ?l\<lparr>xl_state := RETRY, waitingForLayer := ps\<rparr>" using True w by (cases l) (simp add: retrying_def)
    then have s: "sends_ok now calls (?l\<lparr>xl_state := RETRY, waitingForLayer := ps\<rparr>)" "now \<le> edge" "edge \<noteq> 0"
      using assms(3) by (simp_all add: calls_ok_def)
    have dp: "distinct (p # ps)" using d w True by (simp add: peer_list_def)
    obtain bs l' where l': "retryWaiting now edge calls ?l = Inr (Some p, bs, l')" "layer_ok now l'" "xl_state l' \<noteq> RETRY"
      "waitingForLayer l' = ps @ refused calls bs"
      using retryWaiting_step [of ?l p ps, OF _ _ _ _ dp s] True w by auto
    have "releaseLayer now edge calls l = Inr (Some p, bs, l')"
      using b True l'(1) by (simp add: releaseLayer_def release_begin_def assertR_def Let_def)
    then show ?thesis using True w l' by simp
  next
    case False
    obtain s where "releaseLayer now edge calls l = Inr (None, [], ?l\<lparr>xl_drainState := s\<rparr>)"
    proof (cases "waitingForLayer l = [] \<and> waitingForPeer l = None \<and> xl_drainState l = Draining")
      case True
      then have "releaseLayer now edge calls l = Inr (None, [], ?l\<lparr>xl_drainState := Drained\<rparr>)"
        using b by (simp add: releaseLayer_def release_begin_def assertR_def Let_def)
      then show ?thesis by (rule that)
    next
      case n: False
      have "?l\<lparr>xl_drainState := xl_drainState l\<rparr> = ?l" by (cases l) simp
      then have "releaseLayer now edge calls l = Inr (None, [], ?l\<lparr>xl_drainState := xl_drainState l\<rparr>)"
        using b False n by (auto simp: releaseLayer_def release_begin_def assertR_def Let_def)
      then show ?thesis by (rule that)
    qed
    moreover have "layer_ok now (?l\<lparr>xl_drainState := s\<rparr>)" using False d by (auto simp: layer_ok_def peer_list_def)
    ultimately show ?thesis using False by (cases "waitingForPeer l") auto
  qed
qed

lemma recvRetry_step:
  assumes "layer_ok now l" "xl_state l \<noteq> RETRY" "waitingForPeer l = Some p" "calls_ok now edge calls l"
  shows "\<exists>q bs l'. layer_recvRetry now edge calls l = Inr (q, bs, l') \<and> layer_ok now l' \<and> xl_state l' \<noteq> RETRY \<and>
    (if xl_state l = IDLE then q = Some p \<and> waitingForLayer l' = waitingForLayer l @ refused calls bs
     else q = None \<and> bs = [] \<and> xl_state l' = BUSY \<and> waitingForLayer l' = p # waitingForLayer l \<and> waitingForPeer l' = None)"
proof -
  have d: "distinct (p # waitingForLayer l)" using assms(1,3) by (simp add: layer_ok_def peer_list_def)
  let ?l = "l\<lparr>waitingForLayer := p # waitingForLayer l, waitingForPeer := None\<rparr>"
  show ?thesis
  proof (cases "xl_state l = IDLE")
    case True
    have e: "xl_releaseEvent l = None" using assms(1) True by (simp add: layer_ok_def)
    have "retrying l = ?l\<lparr>xl_state := RETRY, waitingForLayer := waitingForLayer l\<rparr>" using assms(3) e by (cases l) (simp add: retrying_def)
    then have s: "sends_ok now calls (?l\<lparr>xl_state := RETRY, waitingForLayer := waitingForLayer l\<rparr>)" "now \<le> edge" "edge \<noteq> 0"
      using assms(4) by (simp_all add: calls_ok_def)
    obtain bs l' where l': "retryWaiting now edge calls ?l = Inr (Some p, bs, l')" "layer_ok now l'" "xl_state l' \<noteq> RETRY"
      "waitingForLayer l' = waitingForLayer l @ refused calls bs"
      using retryWaiting_step [of ?l p "waitingForLayer l", OF _ _ _ _ d s] True e by auto
    then show ?thesis using True assms(3) by (simp add: layer_recvRetry_def recvRetry_begin_def Let_def)
  next
    case False
    then have b: "xl_state l = BUSY" using assms(2) by (cases "xl_state l") auto
    have "layer_recvRetry now edge calls l = Inr (None, [], ?l)" using b assms(3) by (simp add: layer_recvRetry_def recvRetry_begin_def Let_def assertR_def)
    moreover have "layer_ok now ?l" using assms(1) b d by (simp add: layer_ok_def peer_list_def)
    ultimately show ?thesis using False b by simp
  qed
qed

text \<open>
  A layer from its construction on. The first trace has the ports the layer refused, in order; the second those it told
  to retry, except after a retry of the destination: that goes to the port whose packet the destination refused, at
  once or, when the layer is occupied, as the first one afterwards, which the flag says.
\<close>

definition told :: "bool \<Rightarrow> 'p option \<Rightarrow> 'p list" where
  "told f q = (case q of None \<Rightarrow> [] | Some p \<Rightarrow> if f then [] else [p])"

inductive layer_reach :: "Tick \<Rightarrow> 'p Layer \<Rightarrow> 'p list \<Rightarrow> 'p list \<Rightarrow> bool \<Rightarrow> bool" where
  layer_start: "layer_reach now (Layer_new s) [] [] False"
| layer_wait: "layer_reach now l W G f \<Longrightarrow> now \<le> t \<Longrightarrow> (\<forall>w. xl_releaseEvent l = Some w \<longrightarrow> t \<le> w) \<Longrightarrow> layer_reach t l W G f"
| layer_packet: "layer_reach now l W G f \<Longrightarrow> send_ok now s l \<Longrightarrow> layer_send now s l = Inr (b, l') \<Longrightarrow>
    layer_reach now l' (W @ refused [s] [b]) G f"
| layer_release: "layer_reach now l W G f \<Longrightarrow> xl_releaseEvent l = Some now \<Longrightarrow> calls_ok now edge calls l \<Longrightarrow>
    releaseLayer now edge calls l = Inr (q, bs, l') \<Longrightarrow> layer_reach now l' (W @ refused calls bs) (G @ told f q) (f \<and> q = None)"
| layer_retry: "layer_reach now l W G f \<Longrightarrow> waitingForPeer l \<noteq> None \<Longrightarrow> calls_ok now edge calls l \<Longrightarrow>
    layer_recvRetry now edge calls l = Inr (q, bs, l') \<Longrightarrow> layer_reach now l' (W @ refused calls bs) G (q = None)"
| layer_draining: "layer_reach now l W G f \<Longrightarrow> layer_reach now (l\<lparr>xl_drainState := s\<rparr>) W G f"

definition in_order :: "'p Layer \<Rightarrow> 'p list \<Rightarrow> 'p list \<Rightarrow> bool \<Rightarrow> bool" where
  "in_order l W G f \<longleftrightarrow> W = G @ (if f then tl (waitingForLayer l) else waitingForLayer l) \<and>
     (f \<longrightarrow> waitingForPeer l = None \<and> waitingForLayer l \<noteq> [] \<and> xl_state l = BUSY)"

lemma layer_ok_drain: "layer_ok now (l\<lparr>xl_drainState := s\<rparr>) = layer_ok now l"
  by (cases "xl_state l") (simp_all add: layer_ok_def peer_list_def)

lemma layer_invariant: "layer_reach now l W G f \<Longrightarrow> layer_ok now l \<and> xl_state l \<noteq> RETRY \<and> in_order l W G f"
proof (induction rule: layer_reach.induct)
  case (layer_start now s)
  then show ?case by (simp add: layer_ok_def peer_list_def in_order_def Layer_new_def)
next
  case (layer_wait now l W G f t)
  then show ?case by (cases "xl_state l") (auto simp: layer_ok_def)
next
  case (layer_packet now l W G f s b l')
  then have i: "layer_ok now l" "xl_state l \<noteq> RETRY" "in_order l W G f" by simp_all
  have l': "layer_ok now l'" "xl_state l' \<noteq> RETRY" "waitingForLayer l' = waitingForLayer l @ refused [s] [b]" "xl_state l = BUSY \<longrightarrow> \<not> b"
    using layer_send_step [OF i(1) layer_packet.hyps(2)] layer_packet.hyps(3) by auto
  show ?case
  proof (cases f)
    case True
    then have b: "xl_state l = BUSY" "waitingForPeer l = None" "waitingForLayer l \<noteq> []" using i(3) by (simp_all add: in_order_def)
    obtain src taken until where s: "s = (src, taken, until)" by (cases s)
    have "src \<notin> set (waitingForLayer l)" using layer_packet.hyps(2) s by (simp add: send_ok_def)
    then have "layer_send now s l = Inr (False, l\<lparr>waitingForLayer := waitingForLayer l @ [src]\<rparr>)"
      using b(1) s by (simp add: layer_send_def tryTiming_def assertR_def)
    then have "xl_state l' = BUSY" "waitingForPeer l' = None" using layer_packet.hyps(3) b(1,2) by auto
    moreover have "tl (waitingForLayer l') = tl (waitingForLayer l) @ refused [s] [b]" "waitingForLayer l' \<noteq> []"
      using b(3) by (simp_all only: l'(3) tl_append2 append_is_Nil_conv simp_thms)
    moreover have "W = G @ tl (waitingForLayer l)" using i(3) True by (simp add: in_order_def)
    ultimately show ?thesis using True l'(1,2) by (simp add: in_order_def)
  next
    case False
    then have "W = G @ waitingForLayer l" using i(3) by (simp add: in_order_def)
    then show ?thesis using False l'(1-3) by (simp add: in_order_def)
  qed
next
  case (layer_release now l W G f edge calls q bs l')
  then have i: "layer_ok now l" "in_order l W G f" by simp_all
  have l': "layer_ok now l'" "xl_state l' \<noteq> RETRY" "if waitingForLayer l \<noteq> [] \<and> waitingForPeer l = None
     then q = Some (hd (waitingForLayer l)) \<and> waitingForLayer l' = tl (waitingForLayer l) @ refused calls bs
     else q = None \<and> bs = [] \<and> waitingForLayer l' = waitingForLayer l \<and> waitingForPeer l' = waitingForPeer l"
    using released_step [OF i(1) layer_release.hyps(2,3)] layer_release.hyps(4) by auto
  show ?case
  proof (cases "waitingForLayer l \<noteq> [] \<and> waitingForPeer l = None")
    case True
    then obtain p ps where "waitingForLayer l = p # ps" by (cases "waitingForLayer l") auto
    then show ?thesis using True l' i(2) by (auto simp: in_order_def told_def)
  next
    case False
    then show ?thesis using l' i(2) by (auto simp: in_order_def told_def refused_def)
  qed
next
  case (layer_retry now l W G f edge calls q bs l')
  then have i: "layer_ok now l" "xl_state l \<noteq> RETRY" "in_order l W G f" by simp_all
  obtain p where p: "waitingForPeer l = Some p" using layer_retry.hyps(2) by blast
  then have "\<not> f" using i(3) by (simp add: in_order_def)
  have l': "layer_ok now l'" "xl_state l' \<noteq> RETRY" "if xl_state l = IDLE then q = Some p \<and> waitingForLayer l' = waitingForLayer l @ refused calls bs
     else q = None \<and> bs = [] \<and> xl_state l' = BUSY \<and> waitingForLayer l' = p # waitingForLayer l \<and> waitingForPeer l' = None"
    using recvRetry_step [OF i(1,2) p layer_retry.hyps(3)] layer_retry.hyps(4) by auto
  then show ?case using i(3) \<open>\<not> f\<close> by (auto simp: in_order_def refused_def split: if_splits)
next
  case (layer_draining now l W G f s)
  then show ?case by (simp add: layer_ok_drain in_order_def)
qed

text \<open>C22: A layer tells the ports it had to refuse to retry in the order in which they came, each once, and no port waits
  twice; only a port whose packet the destination refused goes first when the destination is ready again.\<close>
theorem layer_serves_in_order:
  assumes "layer_reach now l W G f"
  shows "W = G @ (if f then tl (waitingForLayer l) else waitingForLayer l) \<and> distinct (peer_list l @ waitingForLayer l)"
  using layer_invariant [OF assms] by (simp add: in_order_def layer_ok_def)

text \<open>C23: A layer is never stuck and no assertion of it fails: while a port waits, the layer is occupied and its release is
  scheduled, or the destination owes a retry; packets, the release and the retry are handled, and afterwards the
  layer is idle or occupied.\<close>
theorem layer_never_stuck:
  assumes "layer_reach now l W G f"
  shows "(waitingForLayer l \<noteq> [] \<longrightarrow> waitingForPeer l \<noteq> None \<or> (\<exists>w \<ge> now. xl_releaseEvent l = Some w)) \<and>
    (xl_state l = BUSY \<longleftrightarrow> xl_releaseEvent l \<noteq> None) \<and> xl_state l \<noteq> RETRY \<and>
    (send_ok now s l \<longrightarrow> (\<exists>b l'. layer_send now s l = Inr (b, l') \<and> (b \<or> fst s \<in> set (waitingForLayer l')))) \<and>
    (xl_releaseEvent l = Some now \<and> calls_ok now edge calls l \<longrightarrow> (\<exists>q bs l'. releaseLayer now edge calls l = Inr (q, bs, l'))) \<and>
    (waitingForPeer l \<noteq> None \<and> calls_ok now edge calls l \<longrightarrow> (\<exists>q bs l'. layer_recvRetry now edge calls l = Inr (q, bs, l')))"
proof -
  have i: "layer_ok now l" "xl_state l \<noteq> RETRY" using layer_invariant [OF assms] by simp_all
  have 1: "waitingForLayer l \<noteq> [] \<longrightarrow> waitingForPeer l \<noteq> None \<or> (\<exists>w \<ge> now. xl_releaseEvent l = Some w)"
    "xl_state l = BUSY \<longleftrightarrow> xl_releaseEvent l \<noteq> None" using i by (cases "xl_state l"; auto simp: layer_ok_def)+
  have 2: "\<exists>b l'. layer_send now s l = Inr (b, l') \<and> (b \<or> fst s \<in> set (waitingForLayer l'))" if so: "send_ok now s l"
  proof -
    obtain b l' where "layer_send now s l = Inr (b, l')" "waitingForLayer l' = waitingForLayer l @ refused [s] [b]"
      using layer_send_step [OF i(1) so] by blast
    then show ?thesis by (cases b) (auto simp: refused_def)
  qed
  have 3: "\<exists>q bs l'. releaseLayer now edge calls l = Inr (q, bs, l')" if "xl_releaseEvent l = Some now" "calls_ok now edge calls l"
    using released_step [OF i(1) that] by blast
  have 4: "\<exists>q bs l'. layer_recvRetry now edge calls l = Inr (q, bs, l')" if "waitingForPeer l \<noteq> None" "calls_ok now edge calls l"
  proof -
    obtain p where "waitingForPeer l = Some p" using \<open>waitingForPeer l \<noteq> None\<close> by blast
    from recvRetry_step [OF i this \<open>calls_ok now edge calls l\<close>] show ?thesis by blast
  qed
  show ?thesis using 1 2 3 4 i(2) by blast
qed

section \<open>An example\<close>

text \<open>Port 1 sends a packet the destination refuses, ports 2 and 3 come while the layer is occupied.\<close>

definition ex_layer :: "nat Layer" where "ex_layer = Layer_new DrainRunning"

definition ex_sends :: "nat layer_req list" where "ex_sends = [(1, False, 10), (2, True, 10), (3, True, 10)]"

lemma ex_layer_run:
  "\<exists>l. layer_sends 5 ex_sends ex_layer = Inr ([True, False, False], l) \<and> layer_reach 5 l [2, 3] [] False \<and>
    waitingForPeer l = Some 1 \<and> waitingForLayer l = [2, 3] \<and> xl_state l = BUSY \<and> xl_releaseEvent l = Some 10"
proof -
  define l1 where "l1 = \<lparr>xl_state = BUSY, waitingForLayer = [], waitingForPeer = Some (1::nat), xl_releaseEvent = Some 10, xl_occupancy = 5, xl_drainState = DrainRunning\<rparr>"
  define l2 where "l2 = l1\<lparr>waitingForLayer := [2]\<rparr>"
  define l3 where "l3 = l1\<lparr>waitingForLayer := [2, 3]\<rparr>"
  have s: "layer_send 5 (1, False, 10) ex_layer = Inr (True, l1)" "layer_send 5 (2, True, 10) l1 = Inr (False, l2)"
    "layer_send 5 (3, True, 10) l2 = Inr (False, l3)"
    by (simp_all add: layer_send_def tryTiming_def failedTiming_def occupyLayer_def assertR_def Let_def ex_layer_def Layer_new_def l1_def l2_def l3_def)
  have r1: "layer_reach 5 l1 [] [] False"
    using layer_packet [OF layer_start, of 5 "(1, False, 10)" DrainRunning True l1] s(1)
    by (simp add: ex_layer_def send_ok_def peer_list_def Layer_new_def refused_def)
  have r2: "layer_reach 5 l2 [2] [] False"
    using layer_packet [OF r1 _ s(2)] by (simp add: send_ok_def peer_list_def l1_def refused_def)
  have r3: "layer_reach 5 l3 [2, 3] [] False"
    using layer_packet [OF r2 _ s(3)] by (simp add: send_ok_def peer_list_def l2_def l1_def refused_def)
  show ?thesis using s r3 by (simp add: ex_sends_def l3_def l1_def)
qed

theorem layer_serves_in_order_witness:
  "\<exists>l q bs l'. layer_sends 5 ex_sends ex_layer = Inr ([True, False, False], l) \<and> layer_recvRetry 5 20 [] l = Inr (q, bs, l') \<and>
    waitingForLayer l' = [1, 2, 3]"
proof -
  obtain l where l: "layer_sends 5 ex_sends ex_layer = Inr ([True, False, False], l)" "layer_reach 5 l [2, 3] [] False"
    "waitingForPeer l = Some 1" "xl_state l = BUSY" "waitingForLayer l = [2, 3]" using ex_layer_run by blast
  let ?l = "l\<lparr>waitingForLayer := [1, 2, 3], waitingForPeer := None\<rparr>"
  have r: "layer_recvRetry 5 20 [] l = Inr (None, [], ?l)" using l(3-5) by (simp add: layer_recvRetry_def recvRetry_begin_def Let_def assertR_def)
  have "layer_reach 5 ?l [2, 3] [] True"
    using layer_retry [OF l(2) _ _ r] l(3) by (simp add: calls_ok_def refused_def)
  from layer_serves_in_order [OF this] have "distinct (waitingForLayer ?l)" by simp
  then show ?thesis using l(1) r by auto
qed

theorem layer_never_stuck_witness:
  "\<exists>l q bs l'. layer_sends 5 ex_sends ex_layer = Inr ([True, False, False], l) \<and> releaseLayer 10 20 [] l = Inr (q, bs, l')"
proof -
  obtain l where l: "layer_sends 5 ex_sends ex_layer = Inr ([True, False, False], l)" "layer_reach 5 l [2, 3] [] False"
    "xl_releaseEvent l = Some 10" using ex_layer_run by blast
  have r: "layer_reach 10 l [2, 3] [] False" using layer_wait [OF l(2), of 10] l(3) by simp
  have "xl_releaseEvent l = Some 10 \<and> calls_ok 10 20 [] l \<longrightarrow> (\<exists>q bs l'. releaseLayer 10 20 [] l = Inr (q, bs, l'))"
    using layer_never_stuck [OF r, of "(0, True, 0)" 20 "[]"] by (elim conjE) assumption
  moreover have "calls_ok 10 20 [] l" by (simp add: calls_ok_def)
  ultimately show ?thesis using l(1,3) by blast
qed

text \<open>A layer with waiting ports says that it is drained once it is idle, although the packet it could not deliver is still to come.\<close>

lemma drained_with_waiting:
  "\<exists>l :: nat Layer. layer_reach 10 l [2, 3] [] False \<and> waitingForPeer l = Some 1 \<and> waitingForLayer l = [2, 3] \<and> layer_drain l = Drained"
proof -
  obtain l :: "nat Layer" where l: "layer_reach 5 l [2, 3] [] False" "xl_releaseEvent l = Some 10" "waitingForPeer l = Some 1" "waitingForLayer l = [2, 3]"
    "xl_state l = BUSY" using ex_layer_run by blast
  let ?l = "l\<lparr>xl_releaseEvent := None, xl_state := IDLE\<rparr>"
  have r: "layer_reach 10 l [2, 3] [] False" using layer_wait [OF l(1), of 10] l(2) by simp
  have "releaseLayer 10 20 [] l = Inr (None, [], ?l)" using l(3-5) by (simp add: releaseLayer_def release_begin_def assertR_def Let_def)
  from layer_release [OF r l(2) _ this] have "layer_reach 10 ?l [2, 3] [] False" by (simp add: calls_ok_def refused_def told_def)
  then show ?thesis using l(3,4) by (intro exI [of _ ?l]) (simp add: layer_drain_def)
qed

end
