(* ===== verification/XBar_Noncoherent.thy ===== *)
theory XBar_Noncoherent
  imports XBar_Layer Packet_Queue Addr_Range_Map Clocked
begin

text \<open>
  The crossbar without coherence, from \<^verbatim>\<open>src/mem/xbar.cc\<close> and \<^verbatim>\<open>src/mem/noncoherent_xbar.cc\<close>: requests are decoded by address
  and pass the layer of their destination, responses go back to the port their request came from and wait in
  the queue of that port. A request is known by the pointer to it, which stays the same on its way; here it is a
  number. Whether a neighbour takes a packet is an argument, and so are the delays a packet comes with.
  The number of a port, 16 bits wide in the code, is an integer; a crossbar has fewer ports than that.
\<close>

section \<open>The crossbar\<close>

type_synonym PortID = int

definition InvalidPortID :: PortID where "InvalidPortID = -1"

record XBar =
  frontendLatency :: u64
  forwardLatency :: u64
  responseLatency :: u64
  xb_width :: u32
  portMap :: "PortID AddrRangeMap"
  routeTo :: "nat \<rightharpoonup> PortID"
  xbarRanges :: "AddrRange list"
  defaultRange :: AddrRange
  gotAddrRanges :: "bool list"
  gotAllAddrRanges :: bool
  defaultPortID :: PortID
  useDefaultRange :: bool
  xb_period :: Tick
  xb_clock :: Clock
  reqLayers :: "PortID Layer list"
  respLayers :: "PortID Layer list"
  slaveQueues :: "PacketQueue list"
  transDist :: "Command \<Rightarrow> nat"
  pktCount :: "PortID \<times> PortID \<Rightarrow> nat"
  pktSize :: "PortID \<times> PortID \<Rightarrow> nat"

text \<open>There are \<open>masters\<close> master ports, one more if there is a default device, and \<open>slaves\<close> slave ports.\<close>

definition NoncoherentXBar_new :: "Tick \<Rightarrow> u64 \<Rightarrow> u64 \<Rightarrow> u64 \<Rightarrow> u32 \<Rightarrow> nat \<Rightarrow> bool \<Rightarrow> nat \<Rightarrow> bool \<Rightarrow> DrainState \<Rightarrow> XBar" where
  "NoncoherentXBar_new period fe fwd rsp width masters has_default slaves use_default ds =
     (let n = masters + (if has_default then 1 else 0) in
      \<lparr>frontendLatency = fe, forwardLatency = fwd, responseLatency = rsp, xb_width = width, portMap = map_empty, routeTo = Map.empty,
       xbarRanges = [], defaultRange = AddrRange_default, gotAddrRanges = replicate n False, gotAllAddrRanges = False,
       defaultPortID = (if has_default then int masters else InvalidPortID), useDefaultRange = use_default, xb_period = period,
       xb_clock = Clock_init, reqLayers = replicate n (Layer_new ds), respLayers = replicate slaves (Layer_new ds),
       slaveQueues = replicate slaves (PacketQueue_new False ds), transDist = (\<lambda>_. 0), pktCount = (\<lambda>_. 0), pktSize = (\<lambda>_. 0)\<rparr>)"

definition port_at :: "'a list \<Rightarrow> PortID \<Rightarrow> 'a res" where
  "port_at xs i = (if i < 0 then fail OutOfRange else vec_at xs (nat i))"

definition put_reqLayer :: "PortID \<Rightarrow> PortID Layer \<Rightarrow> XBar \<Rightarrow> XBar" where
  "put_reqLayer i l x = x\<lparr>reqLayers := (reqLayers x)[nat i := l]\<rparr>"

definition put_respLayer :: "PortID \<Rightarrow> PortID Layer \<Rightarrow> XBar \<Rightarrow> XBar" where
  "put_respLayer i l x = x\<lparr>respLayers := (respLayers x)[nat i := l]\<rparr>"

definition put_queue :: "PortID \<Rightarrow> PacketQueue \<Rightarrow> XBar \<Rightarrow> XBar" where
  "put_queue i q x = x\<lparr>slaveQueues := (slaveQueues x)[nat i := q]\<rparr>"

definition xb_clockEdge :: "Tick \<Rightarrow> u64 \<Rightarrow> XBar \<Rightarrow> Tick \<times> XBar" where
  "xb_clockEdge now n x = (let (t, c) = clockEdge (xb_period x) now n (xb_clock x) in (t, x\<lparr>xb_clock := c\<rparr>))"

section \<open>Address ranges\<close>

definition findPort :: "AddrRange \<Rightarrow> XBar \<Rightarrow> (PortID \<times> XBar) res" where
  "findPort r x =
     assertR (gotAllAddrRanges x)
     (bindR (map_contains 3 r (portMap x)) (\<lambda>(i, m).
      (let x1 = x\<lparr>portMap := m\<rparr> in
       case i of
         Some e \<Rightarrow> ok (snd e, x1)
       | None \<Rightarrow>
           if useDefaultRange x1 then
             bindR (isSubset r (defaultRange x1)) (\<lambda>b. if b then ok (defaultPortID x1, x1) else fail FatalError)
           else if defaultPortID x1 \<noteq> InvalidPortID then ok (defaultPortID x1, x1)
           else fail FatalError)))"

fun erase_port :: "PortID \<Rightarrow> (AddrRange \<times> PortID) list \<Rightarrow> PortID AddrRangeMap \<Rightarrow> PortID AddrRangeMap" where
  "erase_port i [] m = m"
| "erase_port i (e # es) m = erase_port i es (if snd e = i then map_erase e m else m)"

fun add_ranges :: "PortID \<Rightarrow> AddrRange list \<Rightarrow> PortID AddrRangeMap \<Rightarrow> PortID AddrRangeMap res" where
  "add_ranges i [] m = ok m"
| "add_ranges i (r # rs) m =
     bindR (map_insert 3 r i m) (\<lambda>(it, m1). if it = None then fail FatalError else add_ranges i rs m1)"

text \<open>A range is kept unless it is part of the default range; interleaved ranges are collected and merged first.\<close>

definition keep_range :: "AddrRange \<Rightarrow> AddrRange list \<Rightarrow> XBar \<Rightarrow> AddrRange list res" where
  "keep_range r acc x =
     bindR (if useDefaultRange x then isSubset r (defaultRange x) else ok False) (\<lambda>b. ok (if b then acc else acc @ [r]))"

fun merge_ranges :: "XBar \<Rightarrow> AddrRange list \<Rightarrow> AddrRange list \<Rightarrow> AddrRange list \<Rightarrow> AddrRange list res" where
  "merge_ranges x [] intlv acc =
     (if intlv \<noteq> [] then bindR (AddrRange_merge intlv) (\<lambda>m. keep_range m acc x) else ok acc)"
| "merge_ranges x (r # rs) intlv acc =
     (if interleaved r then
        if intlv \<noteq> [] \<and> \<not> mergesWith (last intlv) r
        then bindR (AddrRange_merge intlv) (\<lambda>m. bindR (keep_range m acc x) (\<lambda>acc'. merge_ranges x rs [r] acc'))
        else merge_ranges x rs (intlv @ [r]) acc
      else bindR (keep_range r acc x) (\<lambda>acc'. merge_ranges x rs intlv acc'))"

fun check_default :: "AddrRange \<Rightarrow> AddrRange list \<Rightarrow> unit res" where
  "check_default d [] = ok ()"
| "check_default d (r # rs) =
     bindR (intersects r d) (\<lambda>b.
     bindR (if b then isSubset r d else ok True) (\<lambda>s. if b \<and> \<not> s then fail FatalError else check_default d rs))"

definition aggregate_ranges :: "XBar \<Rightarrow> XBar res" where
  "aggregate_ranges x =
     bindR (if useDefaultRange x
            then bindR (port_at (gotAddrRanges x) (defaultPortID x)) (\<lambda>g. if \<not> g then fail FatalError else ok [defaultRange x])
            else ok []) (\<lambda>acc.
     bindR (merge_ranges x (map fst (tree (portMap x))) [] acc) (\<lambda>rs.
     bindR (if useDefaultRange x then check_default (defaultRange x) rs else ok ()) (\<lambda>_. ok (x\<lparr>xbarRanges := rs\<rparr>))))"

text \<open>
  A neighbour has changed its ranges: \<open>ranges\<close> is what it reports now. The result is whether the crossbar tells its own
  neighbours, which it does once it knows all ranges.
\<close>

definition recvRangeChange :: "PortID \<Rightarrow> AddrRange list \<Rightarrow> XBar \<Rightarrow> (bool \<times> XBar) res" where
  "recvRangeChange i ranges x =
     bindR (port_at (gotAddrRanges x) i) (\<lambda>_.
     (let got = (gotAddrRanges x)[nat i := True];
          x1 = x\<lparr>gotAddrRanges := got, gotAllAddrRanges := gotAllAddrRanges x \<or> list_all (\<lambda>b. b) got\<rparr> in
      bindR (if i = defaultPortID x1 then
               if useDefaultRange x1 then (if length ranges \<noteq> 1 then fail FatalError else ok (x1\<lparr>defaultRange := hd ranges\<rparr>))
               else ok x1
             else bindR (add_ranges i ranges (erase_port i (tree (portMap x1)) (portMap x1))) (\<lambda>m. ok (x1\<lparr>portMap := m\<rparr>))) (\<lambda>x2.
      if gotAllAddrRanges x2 then bindR (aggregate_ranges x2) (\<lambda>x3. ok (True, x3)) else ok (False, x2))))"

definition getAddrRanges :: "XBar \<Rightarrow> AddrRange list res" where
  "getAddrRanges x = assertR (gotAllAddrRanges x) (ok (xbarRanges x))"

section \<open>Packets\<close>

text \<open>The delays of a packet are those of its header and of its payload; \<open>us\<close> is the number of ticks of a microsecond.\<close>

definition calcPacketTiming :: "Tick \<Rightarrow> Tick \<Rightarrow> Packet \<Rightarrow> Tick \<times> Tick \<Rightarrow> Tick \<Rightarrow> XBar \<Rightarrow> ((Tick \<times> Tick) \<times> XBar) res" where
  "calcPacketTiming us now pkt delays header_delay x =
     (let (t, x1) = xb_clockEdge now 0 x; offset = t - now; hdr = fst delays + (offset + header_delay) in
      if hdr > us then fail Panicked
      else if hasData (pcmd pkt) then
        bindR (getSize pkt) (\<lambda>n.
        if xb_width x1 = 0 then fail DivisionByZero
        else ok ((hdr, max (snd delays) (ucast ((n + xb_width x1 - 1) div xb_width x1) * xb_period x1)), x1))
      else ok ((hdr, snd delays), x1))"

definition packet_range :: "Packet \<Rightarrow> AddrRange res" where
  "packet_range pkt = bindR (getAddr pkt) (\<lambda>a. bindR (getSize pkt) (\<lambda>n. ok (RangeSize a (ucast n))))"

definition stat_size :: "Packet \<Rightarrow> nat res" where
  "stat_size pkt = (if hasData (pcmd pkt) then bindR (getSize pkt) (\<lambda>n. ok (unat n)) else ok 0)"

definition count_packet :: "PortID \<Rightarrow> PortID \<Rightarrow> nat \<Rightarrow> Command \<Rightarrow> XBar \<Rightarrow> XBar" where
  "count_packet s m n c x = x\<lparr>pktCount := (pktCount x)((s, m) := pktCount x (s, m) + 1),
     pktSize := (pktSize x)((s, m) := pktSize x (s, m) + n), transDist := (transDist x)(c := transDist x c + 1)\<rparr>"

text \<open>A request as it comes: its number, the packet, the two delays, the slave port, and whether the destination takes it.\<close>

record xb_req =
  xr_id :: nat
  xr_pkt :: Packet
  xr_delays :: "Tick \<times> Tick"
  xr_port :: PortID
  xr_taken :: bool

text \<open>
  The request has won the layer of its destination. The result is the port it was sent to if the destination took it, its
  delays afterwards, and the crossbar.
\<close>

definition xb_forward :: "Tick \<Rightarrow> Tick \<Rightarrow> xb_req \<Rightarrow> PortID \<Rightarrow> PortID Layer \<Rightarrow> XBar \<Rightarrow> (PortID option \<times> (Tick \<times> Tick) \<times> XBar) res" where
  "xb_forward us now r dst l x =
     (let pkt = xr_pkt r; src = xr_port r in
      bindR (stat_size pkt) (\<lambda>pkt_size.
      bindR (calcPacketTiming us now pkt (xr_delays r) ((frontendLatency x + forwardLatency x) * xb_period x) x) (\<lambda>(delays, x1).
      (let (t, x2) = xb_clockEdge now 1 x1; packetFinishTime = t + snd delays;
           expect_response = (needsResponse (pcmd pkt) \<and> \<not> cacheResponding pkt) in
       if \<not> xr_taken r then
         bindR (failedTiming now src t l) (\<lambda>l1. ok (None, (fst (xr_delays r), snd delays), put_reqLayer dst l1 x2))
       else
         assertR (expect_response \<longrightarrow> routeTo x2 (xr_id r) = None)
         (let x3 = (if expect_response then x2\<lparr>routeTo := (routeTo x2)(xr_id r \<mapsto> src)\<rparr> else x2) in
          bindR (succeededTiming now packetFinishTime l) (\<lambda>l1.
          ok (Some dst, delays, count_packet src dst pkt_size (pcmd pkt) (put_reqLayer dst l1 x3))))))))"

definition xb_recvTimingReq :: "Tick \<Rightarrow> Tick \<Rightarrow> xb_req \<Rightarrow> XBar \<Rightarrow> (PortID option \<times> (Tick \<times> Tick) \<times> XBar) res" where
  "xb_recvTimingReq us now r x =
     bindR (port_at (slaveQueues x) (xr_port r)) (\<lambda>_.
     assertR (\<not> isExpressSnoop (xr_pkt r))
     (bindR (packet_range (xr_pkt r)) (\<lambda>range.
      bindR (findPort range x) (\<lambda>(dst, x1).
      bindR (port_at (reqLayers x1) dst) (\<lambda>l.
      bindR (tryTiming (xr_port r) l) (\<lambda>(b, l1).
      if \<not> b then ok (None, xr_delays r, put_reqLayer dst l1 x1)
      else xb_forward us now r dst l1 (put_reqLayer dst l1 x1)))))))"

text \<open>A response comes from a master port. The result is the slave port it goes to if it is accepted.\<close>

record xb_resp =
  xs_id :: nat
  xs_pkt :: Packet
  xs_delays :: "Tick \<times> Tick"
  xs_port :: PortID

definition xb_deliver :: "Tick \<Rightarrow> Tick \<Rightarrow> xb_resp \<Rightarrow> PortID \<Rightarrow> PortID Layer \<Rightarrow> XBar \<Rightarrow> (PortID option \<times> XBar) res" where
  "xb_deliver us now r dst l x =
     (let pkt = xs_pkt r; src = xs_port r in
      bindR (stat_size pkt) (\<lambda>pkt_size.
      bindR (calcPacketTiming us now pkt (xs_delays r) (responseLatency x * xb_period x) x) (\<lambda>(delays, x1).
      (let (t, x2) = xb_clockEdge now 1 x1; packetFinishTime = t + snd delays in
       bindR (port_at (slaveQueues x2) dst) (\<lambda>q.
       bindR (schedSendTiming now pkt (now + fst delays) False q) (\<lambda>q1.
       (let x3 = (put_queue dst q1 x2)\<lparr>routeTo := (routeTo x2)(xs_id r := None)\<rparr> in
        bindR (succeededTiming now packetFinishTime l) (\<lambda>l1.
        ok (Some dst, count_packet dst src pkt_size (pcmd pkt) (put_respLayer dst l1 x3))))))))))"

definition xb_recvTimingResp :: "Tick \<Rightarrow> Tick \<Rightarrow> xb_resp \<Rightarrow> XBar \<Rightarrow> (PortID option \<times> XBar) res" where
  "xb_recvTimingResp us now r x =
     bindR (port_at (reqLayers x) (xs_port r)) (\<lambda>_.
     (case routeTo x (xs_id r) of
       None \<Rightarrow> fail AssertFailed
     | Some dst \<Rightarrow>
         assertR (dst \<noteq> InvalidPortID) (assertR (0 \<le> dst \<and> nat dst < length (respLayers x))
         (bindR (port_at (respLayers x) dst) (\<lambda>l.
          bindR (tryTiming (xs_port r) l) (\<lambda>(b, l1).
          if \<not> b then ok (None, put_respLayer dst l1 x)
          else xb_deliver us now r dst l1 (put_respLayer dst l1 x)))))))"

text \<open>
  A retry to a waiting slave port may bring requests back at once, to any layer; a retry to a waiting master port brings
  responses.
\<close>

fun xb_recv_reqs :: "Tick \<Rightarrow> Tick \<Rightarrow> xb_req list \<Rightarrow> XBar \<Rightarrow> (PortID option list \<times> XBar) res" where
  "xb_recv_reqs us now [] x = ok ([], x)"
| "xb_recv_reqs us now (r # rs) x =
     bindR (xb_recvTimingReq us now r x) (\<lambda>(d, _, x1). bindR (xb_recv_reqs us now rs x1) (\<lambda>(ds, x2). ok (d # ds, x2)))"

fun xb_recv_resps :: "Tick \<Rightarrow> Tick \<Rightarrow> xb_resp list \<Rightarrow> XBar \<Rightarrow> (PortID option list \<times> XBar) res" where
  "xb_recv_resps us now [] x = ok ([], x)"
| "xb_recv_resps us now (r # rs) x =
     bindR (xb_recvTimingResp us now r x) (\<lambda>(d, x1). bindR (xb_recv_resps us now rs x1) (\<lambda>(ds, x2). ok (d # ds, x2)))"

definition xb_retryReq :: "Tick \<Rightarrow> Tick \<Rightarrow> PortID \<Rightarrow> xb_req list \<Rightarrow> XBar \<Rightarrow> (PortID option \<times> PortID option list \<times> XBar) res" where
  "xb_retryReq us now i reqs x =
     bindR (port_at (reqLayers x) i) (\<lambda>l.
     bindR (retry_begin l) (\<lambda>(p, l1).
     bindR (xb_recv_reqs us now reqs (put_reqLayer i l1 x)) (\<lambda>(ds, x1).
     bindR (port_at (reqLayers x1) i) (\<lambda>l2.
     (let (t, x2) = (if xl_state l2 = RETRY then xb_clockEdge now 0 x1 else (0, x1)) in
      bindR (retry_end now t l2) (\<lambda>l3. ok (Some p, ds, put_reqLayer i l3 x2)))))))"

definition xb_releaseReq :: "Tick \<Rightarrow> Tick \<Rightarrow> PortID \<Rightarrow> xb_req list \<Rightarrow> XBar \<Rightarrow> (PortID option \<times> PortID option list \<times> XBar) res" where
  "xb_releaseReq us now i reqs x =
     bindR (port_at (reqLayers x) i) (\<lambda>l.
     bindR (release_begin (l\<lparr>xl_releaseEvent := None\<rparr>)) (\<lambda>(again, l1).
     if again then xb_retryReq us now i reqs (put_reqLayer i l1 x) else ok (None, [], put_reqLayer i l1 x)))"

definition xb_retryResp :: "Tick \<Rightarrow> Tick \<Rightarrow> PortID \<Rightarrow> xb_resp list \<Rightarrow> XBar \<Rightarrow> (PortID option \<times> PortID option list \<times> XBar) res" where
  "xb_retryResp us now i resps x =
     bindR (port_at (respLayers x) i) (\<lambda>l.
     bindR (retry_begin l) (\<lambda>(p, l1).
     bindR (xb_recv_resps us now resps (put_respLayer i l1 x)) (\<lambda>(ds, x1).
     bindR (port_at (respLayers x1) i) (\<lambda>l2.
     (let (t, x2) = (if xl_state l2 = RETRY then xb_clockEdge now 0 x1 else (0, x1)) in
      bindR (retry_end now t l2) (\<lambda>l3. ok (Some p, ds, put_respLayer i l3 x2)))))))"

definition xb_releaseResp :: "Tick \<Rightarrow> Tick \<Rightarrow> PortID \<Rightarrow> xb_resp list \<Rightarrow> XBar \<Rightarrow> (PortID option \<times> PortID option list \<times> XBar) res" where
  "xb_releaseResp us now i resps x =
     bindR (port_at (respLayers x) i) (\<lambda>l.
     bindR (release_begin (l\<lparr>xl_releaseEvent := None\<rparr>)) (\<lambda>(again, l1).
     if again then xb_retryResp us now i resps (put_respLayer i l1 x) else ok (None, [], put_respLayer i l1 x)))"

definition xb_recvReqRetry :: "Tick \<Rightarrow> Tick \<Rightarrow> PortID \<Rightarrow> xb_req list \<Rightarrow> XBar \<Rightarrow> (PortID option \<times> PortID option list \<times> XBar) res" where
  "xb_recvReqRetry us now i reqs x =
     bindR (port_at (reqLayers x) i) (\<lambda>l.
     bindR (recvRetry_begin l) (\<lambda>(again, l1).
     if again then xb_retryReq us now i reqs (put_reqLayer i l1 x) else ok (None, [], put_reqLayer i l1 x)))"

text \<open>The queue of a slave port sends a response when its event is served or after a retry.\<close>

definition xb_queueEvent :: "Tick \<Rightarrow> PortID \<Rightarrow> bool \<Rightarrow> XBar \<Rightarrow> XBar res" where
  "xb_queueEvent now i taken x =
     bindR (port_at (slaveQueues x) i) (\<lambda>q. bindR (processSendEvent now (taken, []) q) (\<lambda>q1. ok (put_queue i q1 x)))"

definition xb_recvRespRetry :: "Tick \<Rightarrow> PortID \<Rightarrow> bool \<Rightarrow> XBar \<Rightarrow> XBar res" where
  "xb_recvRespRetry now i taken x =
     bindR (port_at (slaveQueues x) i) (\<lambda>q. bindR (pq_retry now (taken, []) q) (\<lambda>q1. ok (put_queue i q1 x)))"

definition xb_recvAtomic :: "Packet \<Rightarrow> PortID \<Rightarrow> Packet \<Rightarrow> Tick \<Rightarrow> XBar \<Rightarrow> (PortID \<times> Tick \<times> XBar) res" where
  "xb_recvAtomic pkt src answer latency x =
     bindR (stat_size pkt) (\<lambda>pkt_size.
     bindR (packet_range pkt) (\<lambda>range.
     bindR (findPort range x) (\<lambda>(dst, x1).
     bindR (port_at (reqLayers x1) dst) (\<lambda>_.
     (let x2 = count_packet src dst pkt_size (pcmd pkt) x1 in
      if isResponse (pcmd answer)
      then bindR (stat_size answer) (\<lambda>n. ok (dst, latency, count_packet src dst n (pcmd answer) x2))
      else ok (dst, latency, x2))))))"

text \<open>A functional access looks into the queues of the slave ports, and then goes to its destination, which the result says.\<close>

fun satisfy_ports :: "Packet \<Rightarrow> PacketQueue list \<Rightarrow> (bool \<times> Packet \<times> PacketQueue list) res" where
  "satisfy_ports p [] = ok (False, p, [])"
| "satisfy_ports p (q # qs) =
     bindR (pq_trySatisfyFunctional p q) (\<lambda>(found, p1, q1).
     if found then ok (True, p1, q1 # qs)
     else bindR (satisfy_ports p1 qs) (\<lambda>(f, p2, qs2). ok (f, p2, q1 # qs2)))"

definition xb_recvFunctional :: "Packet \<Rightarrow> XBar \<Rightarrow> (Packet \<times> PortID option \<times> XBar) res" where
  "xb_recvFunctional pkt x =
     bindR (satisfy_ports pkt (slaveQueues x)) (\<lambda>(found, p, qs).
     (let x1 = x\<lparr>slaveQueues := qs\<rparr> in
      if found then
        (if needsResponse (pcmd p) then bindR (makeResponse p) (\<lambda>r. ok (r, None, x1)) else ok (p, None, x1))
      else
        bindR (packet_range p) (\<lambda>range.
        bindR (findPort range x1) (\<lambda>(dst, x2).
        bindR (port_at (reqLayers x2) dst) (\<lambda>_. ok (p, Some dst, x2))))))"

section \<open>Routes\<close>

text \<open>
  What happens to requests and responses: a request that expects a response is accepted from a port, a response is
  delivered to the queue of a port, and the first packet of a queue is sent to the neighbour.
\<close>

datatype route_event = Accepted nat PortID | Delivered nat PortID | Sent PortID

fun routes_after :: "route_event list \<Rightarrow> (nat \<rightharpoonup> PortID) \<Rightarrow> (nat \<rightharpoonup> PortID) option" where
  "routes_after [] m = Some m"
| "routes_after (Accepted i p # es) m = (if m i = None then routes_after es (m(i \<mapsto> p)) else None)"
| "routes_after (Delivered i p # es) m = (if m i = Some p then routes_after es (m(i := None)) else None)"
| "routes_after (Sent p # es) m = routes_after es m"

lemma routes_after_append:
  "routes_after (es @ fs) m = (case routes_after es m of None \<Rightarrow> None | Some m' \<Rightarrow> routes_after fs m')"
proof (induction es arbitrary: m)
  case (Cons e es)
  then show ?case by (cases e) (simp_all add: fun_upd_def)
qed simp

definition req_events :: "xb_req \<Rightarrow> PortID option \<Rightarrow> route_event list" where
  "req_events r d = (if d \<noteq> None \<and> needsResponse (pcmd (xr_pkt r)) \<and> \<not> cacheResponding (xr_pkt r) then [Accepted (xr_id r) (xr_port r)] else [])"

definition resp_events :: "xb_resp \<Rightarrow> PortID option \<Rightarrow> route_event list" where
  "resp_events r d = (case d of None \<Rightarrow> [] | Some p \<Rightarrow> [Delivered (xs_id r) p])"

definition sent_events :: "PortID \<Rightarrow> bool \<Rightarrow> route_event list" where
  "sent_events i taken = (if taken then [Sent i] else [])"

text \<open>Everything but the two operations on packets leaves the routes alone.\<close>

lemma put_routes [simp]:
  "routeTo (put_reqLayer i l x) = routeTo x" "routeTo (put_respLayer i l x) = routeTo x" "routeTo (put_queue i q x) = routeTo x"
  "routeTo (count_packet s m n c x) = routeTo x"
  by (simp_all add: put_reqLayer_def put_respLayer_def put_queue_def count_packet_def)

lemma clockEdge_routes_snd [simp]: "routeTo (snd (xb_clockEdge now n x)) = routeTo x"
  by (simp add: xb_clockEdge_def case_prod_unfold Let_def)

lemma clockEdge_routes: "xb_clockEdge now n x = (t, x') \<Longrightarrow> routeTo x' = routeTo x"
  by (auto simp: xb_clockEdge_def split: prod.splits)

lemma findPort_routes: "findPort r x = Inr (p, x') \<Longrightarrow> routeTo x' = routeTo x"
  by (auto simp: findPort_def bindR_eq_Inr assertR_eq_Inr Let_def split: option.splits if_splits)

lemma calcPacketTiming_routes: "calcPacketTiming us now pkt d h x = Inr (d', x') \<Longrightarrow> routeTo x' = routeTo x"
  by (auto simp: calcPacketTiming_def bindR_eq_Inr Let_def split: prod.splits if_splits dest!: clockEdge_routes)

lemma forward_routes:
  assumes "xb_forward us now r dst l x = Inr (d, delays, x')"
  shows "routes_after (req_events r d) (routeTo x) = Some (routeTo x')"
proof -
  let ?pkt = "xr_pkt r" let ?expect = "needsResponse (pcmd ?pkt) \<and> \<not> cacheResponding ?pkt"
  let ?calc = "calcPacketTiming us now ?pkt (xr_delays r) ((frontendLatency x + forwardLatency x) * xb_period x) x"
  obtain n where n: "stat_size ?pkt = Inr n" using assms by (cases "stat_size ?pkt") (simp_all add: xb_forward_def)
  obtain z where "?calc = Inr z" using assms n by (cases ?calc) (simp_all add: xb_forward_def)
  moreover obtain dl x1 where "z = (dl, x1)" by (cases z)
  moreover obtain t x2 where "xb_clockEdge now 1 x1 = (t, x2)" by (cases "xb_clockEdge now 1 x1")
  ultimately have c: "?calc = Inr (dl, x1)" "xb_clockEdge now 1 x1 = (t, x2)" "stat_size ?pkt = Inr n" using n by simp_all
  have x2: "routeTo x2 = routeTo x" using clockEdge_routes [OF c(2)] calcPacketTiming_routes [OF c(1)] by simp
  have f: "(if \<not> xr_taken r then
         bindR (failedTiming now (xr_port r) t l) (\<lambda>l1. ok (None, (fst (xr_delays r), snd dl), put_reqLayer dst l1 x2))
       else
         assertR (?expect \<longrightarrow> routeTo x2 (xr_id r) = None)
         (bindR (succeededTiming now (t + snd dl) l) (\<lambda>l1.
          ok (Some dst, dl, count_packet (xr_port r) dst n (pcmd ?pkt) (put_reqLayer dst l1
            (if ?expect then x2\<lparr>routeTo := (routeTo x2)(xr_id r \<mapsto> xr_port r)\<rparr> else x2)))))) = Inr (d, delays, x')"
    using assms c unfolding xb_forward_def Let_def by simp
  show ?thesis
  proof (cases "xr_taken r")
    case False
    then have "d = None" "routeTo x' = routeTo x2" using f by (auto simp: bindR_eq_Inr)
    then show ?thesis using x2 by (simp add: req_events_def)
  next
    case True
    then have "?expect \<longrightarrow> routeTo x2 (xr_id r) = None" "d = Some dst"
      "routeTo x' = (if ?expect then (routeTo x2)(xr_id r \<mapsto> xr_port r) else routeTo x2)"
      using f by (auto simp: bindR_eq_Inr assertR_eq_Inr)
    then show ?thesis using x2 by (simp add: req_events_def)
  qed
qed

lemma recvTimingReq_routes:
  assumes "xb_recvTimingReq us now r x = Inr (d, delays, x')"
  shows "routes_after (req_events r d) (routeTo x) = Some (routeTo x')"
proof -
  obtain range dst x1 l b l1 where f: "findPort range x = Inr (dst, x1)"
    "(if \<not> b then ok (None, xr_delays r, put_reqLayer dst l1 x1) else xb_forward us now r dst l1 (put_reqLayer dst l1 x1)) = Inr (d, delays, x')"
    using assms unfolding xb_recvTimingReq_def bindR_eq_Inr assertR_eq_Inr by (elim exE conjE) (auto simp: bindR_eq_Inr)
  have x1: "routeTo x1 = routeTo x" using findPort_routes [OF f(1)] .
  show ?thesis
  proof (cases b)
    case False
    then show ?thesis using f(2) x1 by (auto simp: req_events_def)
  next
    case True
    then show ?thesis using forward_routes [of us now r dst l1 "put_reqLayer dst l1 x1" d delays x'] f(2) x1 by simp
  qed
qed

text \<open>A response that is delivered goes into the queue of its port and no other.\<close>

lemma same_queues [simp]:
  "slaveQueues (put_reqLayer i l x) = slaveQueues x" "slaveQueues (put_respLayer i l x) = slaveQueues x"
  "slaveQueues (put_queue i q x) = (slaveQueues x)[nat i := q]" "slaveQueues (count_packet s m n c x) = slaveQueues x"
  "slaveQueues (snd (xb_clockEdge now k x)) = slaveQueues x"
  by (simp_all add: put_reqLayer_def put_respLayer_def put_queue_def count_packet_def xb_clockEdge_def case_prod_unfold Let_def)

lemma clockEdge_queues: "xb_clockEdge now n x = (t, x') \<Longrightarrow> slaveQueues x' = slaveQueues x"
  by (auto simp: xb_clockEdge_def split: prod.splits)

lemma findPort_queues: "findPort r x = Inr (p, x') \<Longrightarrow> slaveQueues x' = slaveQueues x"
  by (auto simp: findPort_def bindR_eq_Inr assertR_eq_Inr Let_def split: option.splits if_splits)

lemma calcPacketTiming_queues: "calcPacketTiming us now pkt d h x = Inr (d', x') \<Longrightarrow> slaveQueues x' = slaveQueues x"
  by (auto simp: calcPacketTiming_def bindR_eq_Inr Let_def split: prod.splits if_splits dest!: clockEdge_queues)

lemma deliver_parts:
  assumes "xb_deliver us now r dst l x = Inr (d, x')"
  shows "d = Some dst \<and> routeTo x' = (routeTo x)(xs_id r := None) \<and>
    (\<exists>w q. schedSendTiming now (xs_pkt r) w False (slaveQueues x ! nat dst) = Inr q \<and> 0 \<le> dst \<and> nat dst < length (slaveQueues x) \<and>
      slaveQueues x' = (slaveQueues x)[nat dst := q])"
proof -
  let ?calc = "calcPacketTiming us now (xs_pkt r) (xs_delays r) (responseLatency x * xb_period x) x"
  obtain n where n: "stat_size (xs_pkt r) = Inr n" using assms(1) by (cases "stat_size (xs_pkt r)") (simp_all add: xb_deliver_def)
  obtain z where "?calc = Inr z" using assms(1) n by (cases ?calc) (simp_all add: xb_deliver_def)
  moreover obtain dl x1 where "z = (dl, x1)" by (cases z)
  moreover obtain t x2 where "xb_clockEdge now 1 x1 = (t, x2)" by (cases "xb_clockEdge now 1 x1")
  ultimately have c: "?calc = Inr (dl, x1)" "xb_clockEdge now 1 x1 = (t, x2)" by simp_all
  have x2: "routeTo x2 = routeTo x" "slaveQueues x2 = slaveQueues x"
    using clockEdge_routes [OF c(2)] calcPacketTiming_routes [OF c(1)] clockEdge_queues [OF c(2)] calcPacketTiming_queues [OF c(1)] by simp_all
  have "d = Some dst" "routeTo x' = (routeTo x2)(xs_id r := None)"
    "\<exists>q. schedSendTiming now (xs_pkt r) (now + fst dl) False (slaveQueues x2 ! nat dst) = Inr q \<and> 0 \<le> dst \<and>
      nat dst < length (slaveQueues x2) \<and> slaveQueues x' = (slaveQueues x2)[nat dst := q]"
    using assms(1) c by (auto simp: xb_deliver_def Let_def bindR_eq_Inr port_at_def vec_at_eq_Inr split: if_splits)
  then show ?thesis using x2 by (intro conjI exI [of _ "now + fst dl"]) simp_all
qed

lemma deliver_routes:
  assumes "xb_deliver us now r dst l x = Inr (d, x')" "routeTo x (xs_id r) = Some dst"
  shows "routes_after (resp_events r d) (routeTo x) = Some (routeTo x')"
  using deliver_parts [OF assms(1)] assms(2) by (simp add: resp_events_def)

lemma recvTimingResp_routes:
  assumes "xb_recvTimingResp us now r x = Inr (d, x')"
  shows "routes_after (resp_events r d) (routeTo x) = Some (routeTo x')"
proof -
  obtain dst where dst: "routeTo x (xs_id r) = Some dst"
    using assms by (cases "routeTo x (xs_id r)") (auto simp: xb_recvTimingResp_def bindR_eq_Inr)
  obtain l b l1 where f: "(if \<not> b then ok (None, put_respLayer dst l1 x) else xb_deliver us now r dst l1 (put_respLayer dst l1 x)) = Inr (d, x')"
    using assms dst by (auto simp: xb_recvTimingResp_def bindR_eq_Inr assertR_eq_Inr)
  show ?thesis
  proof (cases b)
    case False
    then show ?thesis using f by (auto simp: resp_events_def)
  next
    case True
    then show ?thesis using deliver_routes [of us now r dst l1 "put_respLayer dst l1 x" d x'] f dst by simp
  qed
qed

text \<open>Several packets, and the handlers that may receive some.\<close>

fun reqs_events :: "xb_req list \<Rightarrow> PortID option list \<Rightarrow> route_event list" where
  "reqs_events (r # rs) (d # ds) = req_events r d @ reqs_events rs ds"
| "reqs_events _ _ = []"

fun resps_events :: "xb_resp list \<Rightarrow> PortID option list \<Rightarrow> route_event list" where
  "resps_events (r # rs) (d # ds) = resp_events r d @ resps_events rs ds"
| "resps_events _ _ = []"

lemma recv_reqs_routes: "xb_recv_reqs us now rs x = Inr (ds, x') \<Longrightarrow> routes_after (reqs_events rs ds) (routeTo x) = Some (routeTo x')"
proof (induction rs arbitrary: x ds)
  case (Cons r rs)
  obtain d dl x1 ds1 where c: "xb_recvTimingReq us now r x = Inr (d, dl, x1)" "xb_recv_reqs us now rs x1 = Inr (ds1, x')" "ds = d # ds1"
    using Cons.prems by (auto simp: bindR_eq_Inr)
  then show ?case using recvTimingReq_routes [OF c(1)] Cons.IH [OF c(2)] by (simp add: routes_after_append)
qed simp

lemma recv_resps_routes: "xb_recv_resps us now rs x = Inr (ds, x') \<Longrightarrow> routes_after (resps_events rs ds) (routeTo x) = Some (routeTo x')"
proof (induction rs arbitrary: x ds)
  case (Cons r rs)
  obtain d x1 ds1 where c: "xb_recvTimingResp us now r x = Inr (d, x1)" "xb_recv_resps us now rs x1 = Inr (ds1, x')" "ds = d # ds1"
    using Cons.prems by (auto simp: bindR_eq_Inr)
  then show ?case using recvTimingResp_routes [OF c(1)] Cons.IH [OF c(2)] by (simp add: routes_after_append)
qed simp

lemma retryReq_routes:
  assumes "xb_retryReq us now i reqs x = Inr (p, ds, x')"
  shows "routes_after (reqs_events reqs ds) (routeTo x) = Some (routeTo x')"
proof -
  obtain l1 x1 where c: "xb_recv_reqs us now reqs (put_reqLayer i l1 x) = Inr (ds, x1)" "routeTo x' = routeTo x1"
    using assms by (auto simp: xb_retryReq_def bindR_eq_Inr Let_def case_prod_unfold if_distrib [of snd])
  then show ?thesis using recv_reqs_routes [OF c(1)] by simp
qed

lemma retryResp_routes:
  assumes "xb_retryResp us now i resps x = Inr (p, ds, x')"
  shows "routes_after (resps_events resps ds) (routeTo x) = Some (routeTo x')"
proof -
  obtain l1 x1 where c: "xb_recv_resps us now resps (put_respLayer i l1 x) = Inr (ds, x1)" "routeTo x' = routeTo x1"
    using assms by (auto simp: xb_retryResp_def bindR_eq_Inr Let_def case_prod_unfold if_distrib [of snd])
  then show ?thesis using recv_resps_routes [OF c(1)] by simp
qed

lemma reqs_events_none: "reqs_events rs [] = []" "resps_events ss [] = []"
  by (cases rs; simp) (cases ss; simp)

lemma handler_routes:
  "xb_releaseReq us now i reqs x = Inr (p, ds, x') \<Longrightarrow> routes_after (reqs_events reqs ds) (routeTo x) = Some (routeTo x')"
  "xb_recvReqRetry us now i reqs x = Inr (p, ds, x') \<Longrightarrow> routes_after (reqs_events reqs ds) (routeTo x) = Some (routeTo x')"
  "xb_releaseResp us now i resps x = Inr (p, ds, x') \<Longrightarrow> routes_after (resps_events resps ds) (routeTo x) = Some (routeTo x')"
  by (auto simp: xb_releaseReq_def xb_recvReqRetry_def xb_releaseResp_def bindR_eq_Inr reqs_events_none split: if_splits
      dest!: retryReq_routes retryResp_routes)

lemma quiet_routes:
  "recvRangeChange i ranges x = Inr (b, x') \<Longrightarrow> routeTo x' = routeTo x"
  "xb_queueEvent now i taken x = Inr x' \<Longrightarrow> routeTo x' = routeTo x" "xb_recvRespRetry now i taken x = Inr x' \<Longrightarrow> routeTo x' = routeTo x"
  "xb_recvAtomic pkt src answer lat x = Inr (dst, t, x') \<Longrightarrow> routeTo x' = routeTo x"
  "xb_recvFunctional pkt x = Inr (p, to, x') \<Longrightarrow> routeTo x' = routeTo x"
  subgoal by (auto simp: recvRangeChange_def aggregate_ranges_def bindR_eq_Inr Let_def split: if_splits)
  subgoal by (auto simp: xb_queueEvent_def bindR_eq_Inr)
  subgoal by (auto simp: xb_recvRespRetry_def bindR_eq_Inr)
  subgoal by (auto simp: xb_recvAtomic_def bindR_eq_Inr Let_def split: if_splits dest!: findPort_routes)
  subgoal by (auto simp: xb_recvFunctional_def bindR_eq_Inr Let_def split: if_splits dest!: findPort_routes)
  done

text \<open>A crossbar from its construction on, with what happened to routes.\<close>

inductive xb_steps :: "XBar \<Rightarrow> route_event list \<Rightarrow> bool" where
  xb_start: "xb_steps (NoncoherentXBar_new period fe fwd rsp width masters has_default slaves use_default ds) []"
| xb_ranges: "xb_steps x T \<Longrightarrow> recvRangeChange i ranges x = Inr (b, x') \<Longrightarrow> xb_steps x' T"
| xb_request: "xb_steps x T \<Longrightarrow> xb_recvTimingReq us now r x = Inr (d, dl, x') \<Longrightarrow> xb_steps x' (T @ req_events r d)"
| xb_response: "xb_steps x T \<Longrightarrow> xb_recvTimingResp us now s x = Inr (d, x') \<Longrightarrow> xb_steps x' (T @ resp_events s d)"
| xb_relReq: "xb_steps x T \<Longrightarrow> xb_releaseReq us now i rs x = Inr (p, ds, x') \<Longrightarrow> xb_steps x' (T @ reqs_events rs ds)"
| xb_relResp: "xb_steps x T \<Longrightarrow> xb_releaseResp us now i ss x = Inr (p, ds, x') \<Longrightarrow> xb_steps x' (T @ resps_events ss ds)"
| xb_retry: "xb_steps x T \<Longrightarrow> xb_recvReqRetry us now i rs x = Inr (p, ds, x') \<Longrightarrow> xb_steps x' (T @ reqs_events rs ds)"
| xb_event: "xb_steps x T \<Longrightarrow> xb_queueEvent now i taken x = Inr x' \<Longrightarrow> xb_steps x' (T @ sent_events i taken)"
| xb_respRetry: "xb_steps x T \<Longrightarrow> xb_recvRespRetry now i taken x = Inr x' \<Longrightarrow> xb_steps x' (T @ sent_events i taken)"
| xb_atomic: "xb_steps x T \<Longrightarrow> xb_recvAtomic pkt src answer lat x = Inr (dst, t, x') \<Longrightarrow> xb_steps x' T"
| xb_functional: "xb_steps x T \<Longrightarrow> xb_recvFunctional pkt x = Inr (q, dest, x') \<Longrightarrow> xb_steps x' T"

lemma routes_extend: "routes_after T m = Some (routeTo x) \<Longrightarrow> routes_after E (routeTo x) = Some (routeTo x') \<Longrightarrow> routes_after (T @ E) m = Some (routeTo x')"
  by (simp add: routes_after_append)

lemma xb_routes: "xb_steps x T \<Longrightarrow> routes_after T Map.empty = Some (routeTo x)"
proof (induction rule: xb_steps.induct)
  case xb_start
  then show ?case by (simp add: NoncoherentXBar_new_def Let_def)
next
  case (xb_request x T us now r d dl x')
  then show ?case using routes_extend recvTimingReq_routes by blast
next
  case (xb_response x T us now s d x')
  then show ?case using routes_extend recvTimingResp_routes by blast
next
  case (xb_relReq x T us now i rs p ds x')
  then show ?case using routes_extend handler_routes(1) by blast
next
  case (xb_relResp x T us now i ss p ds x')
  then show ?case using routes_extend handler_routes(3) by blast
next
  case (xb_retry x T us now i rs p ds x')
  then show ?case using routes_extend handler_routes(2) by blast
qed (simp_all add: quiet_routes routes_after_append sent_events_def)

text \<open>A route that is open was opened by the last event with its number.\<close>

definition last_accepted :: "nat \<Rightarrow> PortID \<Rightarrow> route_event list \<Rightarrow> bool" where
  "last_accepted i p T \<longleftrightarrow> (\<exists>U V. T = U @ Accepted i p # V \<and> (\<forall>q. Accepted i q \<notin> set V \<and> Delivered i q \<notin> set V))"

lemma last_accepted_snoc:
  "last_accepted i p T \<Longrightarrow> (\<forall>q. e \<noteq> Accepted i q \<and> e \<noteq> Delivered i q) \<Longrightarrow> last_accepted i p (T @ [e])"
  unfolding last_accepted_def by (metis (no_types, lifting) Cons_eq_appendI append_assoc rotate1.simps(2) set_ConsD set_rotate1)

lemma open_route:
  assumes "routes_after T m = Some m'" "m i = None" "m' i = Some p"
  shows "last_accepted i p T"
  using assms(1,3)
proof (induction T arbitrary: m' rule: rev_induct)
  case Nil
  then show ?case using assms(2) by simp
next
  case (snoc e T)
  obtain m1 where m1: "routes_after T m = Some m1" "routes_after [e] m1 = Some m'"
    using snoc.prems(1) by (auto simp: routes_after_append split: option.splits)
  show ?case
  proof (cases e)
    case (Accepted j q)
    then have m': "m1 j = None" "m' = m1(j \<mapsto> q)" using m1(2) by (simp_all split: if_splits)
    show ?thesis
    proof (cases "j = i")
      case True
      then have "q = p" using m' snoc.prems(2) by simp
      then show ?thesis unfolding last_accepted_def using True Accepted by (intro exI [of _ T] exI [of _ "[]"]) simp
    next
      case False
      then have "m1 i = Some p" using m' snoc.prems(2) by simp
      then show ?thesis using snoc.IH [OF m1(1)] False Accepted by (intro last_accepted_snoc) auto
    qed
  next
    case (Delivered j q)
    then have m': "m' = m1(j := None)" using m1(2) by (simp split: if_splits)
    then have "j \<noteq> i" "m1 i = Some p" using snoc.prems(2) by (auto split: if_splits)
    then show ?thesis using snoc.IH [OF m1(1)] Delivered by (intro last_accepted_snoc) auto
  next
    case (Sent q)
    then show ?thesis using snoc.IH [OF m1(1)] m1(2) snoc.prems(2) by (intro last_accepted_snoc) auto
  qed
qed

section \<open>What the queues of the slave ports hold\<close>

lemma schedSendEvent_list: "schedSendEvent now w q = Inr q' \<Longrightarrow> transmitList q' = transmitList q"
  by (auto simp: schedSendEvent_def pq_schedule_def pq_reschedule_def Let_def assertR_eq_Inr split: if_splits option.splits)

lemma schedSendTiming_adds:
  assumes "schedSendTiming now p w f q = Inr q'"
  shows "now \<le> w \<and> mset (transmitList q') = add_mset (w, p) (mset (transmitList q))"
proof -
  have w: "now \<le> w" using assms by (simp add: schedSendTiming_def assertR_eq_Inr)
  show ?thesis
  proof (cases "transmitList q = []")
    case True
    then have "schedSendEvent now w (q\<lparr>transmitList := [(w, p)]\<rparr>) = Inr q'"
      using assms by (simp add: schedSendTiming_def assertR_eq_Inr split: if_splits)
    then show ?thesis using w True schedSendEvent_list by fastforce
  next
    case False
    then obtain i where "q' = q\<lparr>transmitList := take (Suc i) (transmitList q) @ (w, p) # drop (Suc i) (transmitList q)\<rparr>"
      using assms by (auto simp: schedSendTiming_def assertR_eq_Inr bindR_eq_Inr split: if_splits)
    moreover have "mset (take (Suc i) (transmitList q)) + mset (drop (Suc i) (transmitList q)) = mset (transmitList q)"
      by (metis append_take_drop_id mset_append)
    ultimately show ?thesis using w by simp
  qed
qed

lemma recvTimingResp_queue:
  assumes "xb_recvTimingResp us now r x = Inr (d, x')"
  shows "case d of None \<Rightarrow> slaveQueues x' = slaveQueues x
    | Some p \<Rightarrow> routeTo x (xs_id r) = Some p \<and> 0 \<le> p \<and> nat p < length (slaveQueues x) \<and> length (slaveQueues x') = length (slaveQueues x) \<and>
        (\<exists>w \<ge> now. mset (transmitList (slaveQueues x' ! nat p)) = add_mset (w, xs_pkt r) (mset (transmitList (slaveQueues x ! nat p)))) \<and>
        (\<forall>k. k \<noteq> nat p \<longrightarrow> slaveQueues x' ! k = slaveQueues x ! k)"
proof -
  obtain dst where dst: "routeTo x (xs_id r) = Some dst"
    using assms by (cases "routeTo x (xs_id r)") (auto simp: xb_recvTimingResp_def bindR_eq_Inr)
  obtain b l1 where f: "(if \<not> b then ok (None, put_respLayer dst l1 x) else xb_deliver us now r dst l1 (put_respLayer dst l1 x)) = Inr (d, x')"
    using assms dst by (auto simp: xb_recvTimingResp_def bindR_eq_Inr assertR_eq_Inr)
  show ?thesis
  proof (cases b)
    case False
    then show ?thesis using f by auto
  next
    case True
    then obtain w q where q: "d = Some dst" "schedSendTiming now (xs_pkt r) w False (slaveQueues x ! nat dst) = Inr q" "0 \<le> dst"
      "nat dst < length (slaveQueues x)" "slaveQueues x' = (slaveQueues x)[nat dst := q]"
      using deliver_parts [of us now r dst l1 "put_respLayer dst l1 x" d x'] f by auto
    then show ?thesis using schedSendTiming_adds [OF q(2)] dst by auto
  qed
qed

lemma forward_queues:
  assumes "xb_forward us now r dst l x = Inr (d, delays, x')"
  shows "slaveQueues x' = slaveQueues x"
proof -
  let ?calc = "calcPacketTiming us now (xr_pkt r) (xr_delays r) ((frontendLatency x + forwardLatency x) * xb_period x) x"
  obtain n where n: "stat_size (xr_pkt r) = Inr n" using assms by (cases "stat_size (xr_pkt r)") (simp_all add: xb_forward_def)
  obtain z where "?calc = Inr z" using assms n by (cases ?calc) (simp_all add: xb_forward_def)
  moreover obtain dl x1 where "z = (dl, x1)" by (cases z)
  moreover obtain t x2 where "xb_clockEdge now 1 x1 = (t, x2)" by (cases "xb_clockEdge now 1 x1")
  ultimately have c: "?calc = Inr (dl, x1)" "xb_clockEdge now 1 x1 = (t, x2)" by simp_all
  have "slaveQueues x2 = slaveQueues x" using clockEdge_queues [OF c(2)] calcPacketTiming_queues [OF c(1)] by simp
  moreover have "slaveQueues x' = slaveQueues x2"
    using assms n c by (auto simp: xb_forward_def Let_def bindR_eq_Inr assertR_eq_Inr split: if_splits)
  ultimately show ?thesis by simp
qed

lemma recvTimingReq_queues:
  assumes "xb_recvTimingReq us now r x = Inr (d, delays, x')"
  shows "slaveQueues x' = slaveQueues x"
proof -
  obtain range dst x1 b l1 where f: "findPort range x = Inr (dst, x1)"
    "(if \<not> b then ok (None, xr_delays r, put_reqLayer dst l1 x1) else xb_forward us now r dst l1 (put_reqLayer dst l1 x1)) = Inr (d, delays, x')"
    using assms unfolding xb_recvTimingReq_def bindR_eq_Inr assertR_eq_Inr by (elim exE conjE) (auto simp: bindR_eq_Inr)
  then show ?thesis using findPort_queues [OF f(1)] forward_queues [of us now r dst l1 "put_reqLayer dst l1 x1" d delays x']
    by (cases b) auto
qed

lemma recv_reqs_queues: "xb_recv_reqs us now rs x = Inr (ds, x') \<Longrightarrow> slaveQueues x' = slaveQueues x"
proof (induction rs arbitrary: x ds)
  case (Cons r rs)
  then show ?case by (auto simp: bindR_eq_Inr dest!: recvTimingReq_queues)
qed simp

lemma retryReq_queues: "xb_retryReq us now i rs x = Inr (p, ds, x') \<Longrightarrow> slaveQueues x' = slaveQueues x"
  by (auto simp: xb_retryReq_def bindR_eq_Inr Let_def case_prod_unfold if_distrib [of snd] dest!: recv_reqs_queues)

lemma req_handler_queues:
  "xb_releaseReq us now i rs x = Inr (p, ds, x') \<Longrightarrow> slaveQueues x' = slaveQueues x"
  "xb_recvReqRetry us now i rs x = Inr (p, ds, x') \<Longrightarrow> slaveQueues x' = slaveQueues x"
  by (auto simp: xb_releaseReq_def xb_recvReqRetry_def bindR_eq_Inr split: if_splits dest!: retryReq_queues)

text \<open>The packets in a queue are those delivered to it and not sent yet.\<close>

definition delivered_to :: "PortID \<Rightarrow> route_event list \<Rightarrow> nat" where
  "delivered_to p T = length (filter (\<lambda>e. case e of Delivered i q \<Rightarrow> q = p | _ \<Rightarrow> False) T)"

definition sent_from :: "PortID \<Rightarrow> route_event list \<Rightarrow> nat" where
  "sent_from p T = length (filter (\<lambda>e. e = Sent p) T)"

definition waiting_at :: "PortID \<Rightarrow> XBar \<Rightarrow> nat" where
  "waiting_at p x = length (transmitList (slaveQueues x ! nat p))"

definition balanced :: "XBar \<Rightarrow> route_event list \<Rightarrow> XBar \<Rightarrow> bool" where
  "balanced x E x' \<longleftrightarrow> length (slaveQueues x') = length (slaveQueues x) \<and>
     (\<forall>p. 0 \<le> p \<and> nat p < length (slaveQueues x) \<longrightarrow> waiting_at p x' + sent_from p E = waiting_at p x + delivered_to p E)"

lemma counts_append [simp]:
  "delivered_to p (T @ E) = delivered_to p T + delivered_to p E" "sent_from p (T @ E) = sent_from p T + sent_from p E"
  "delivered_to p [] = 0" "sent_from p [] = 0"
  by (simp_all add: delivered_to_def sent_from_def)

lemma balanced_same: "slaveQueues x' = slaveQueues x \<Longrightarrow> balanced x [] x'"
  by (simp add: balanced_def waiting_at_def)

lemma balanced_trans: "balanced x E x1 \<Longrightarrow> balanced x1 F x' \<Longrightarrow> balanced x (E @ F) x'"
  unfolding balanced_def by (simp, metis add.commute add.left_commute)

lemma balanced_cong: "balanced x E x' \<Longrightarrow> slaveQueues y = slaveQueues x \<Longrightarrow> slaveQueues y' = slaveQueues x' \<Longrightarrow> balanced y E y'"
  by (simp add: balanced_def waiting_at_def)

lemma req_counts: "delivered_to p (req_events r d) = 0" "sent_from p (req_events r d) = 0"
  "delivered_to p (reqs_events rs ds) = 0" "sent_from p (reqs_events rs ds) = 0"
proof -
  show c: "delivered_to p (req_events r d) = 0" "sent_from p (req_events r d) = 0" for r d
    by (simp_all add: req_events_def delivered_to_def sent_from_def)
  show "delivered_to p (reqs_events rs ds) = 0" "sent_from p (reqs_events rs ds) = 0"
    using c by (induction rs ds rule: reqs_events.induct) simp_all
qed

lemma balanced_reqs: "slaveQueues x' = slaveQueues x \<Longrightarrow> balanced x (req_events r d) x'"
  "slaveQueues x' = slaveQueues x \<Longrightarrow> balanced x (reqs_events rs ds) x'"
  by (simp_all add: balanced_def waiting_at_def req_counts)

lemma balanced_resp:
  assumes "xb_recvTimingResp us now r x = Inr (d, x')"
  shows "balanced x (resp_events r d) x'"
proof (cases d)
  case None
  then show ?thesis using recvTimingResp_queue [OF assms] balanced_same by (simp add: resp_events_def)
next
  case (Some p)
  then obtain w where q: "0 \<le> p" "length (slaveQueues x') = length (slaveQueues x)"
    "mset (transmitList (slaveQueues x' ! nat p)) = add_mset (w, xs_pkt r) (mset (transmitList (slaveQueues x ! nat p)))"
    "\<forall>k. k \<noteq> nat p \<longrightarrow> slaveQueues x' ! k = slaveQueues x ! k" using recvTimingResp_queue [OF assms] by auto
  have "waiting_at p x' = Suc (waiting_at p x)" using arg_cong [OF q(3), of size] by (simp add: waiting_at_def)
  moreover have "waiting_at k x' = waiting_at k x" if "0 \<le> k" "k \<noteq> p" for k
  proof -
    have "nat k \<noteq> nat p" using that q(1) by simp
    then show ?thesis using q(4) by (simp add: waiting_at_def)
  qed
  moreover have "delivered_to k (resp_events r d) = (if k = p then 1 else 0)" "sent_from k (resp_events r d) = 0" for k
    using Some by (simp_all add: resp_events_def delivered_to_def sent_from_def)
  ultimately show ?thesis using q(2) by (simp add: balanced_def)
qed

lemma balanced_resps: "xb_recv_resps us now rs x = Inr (ds, x') \<Longrightarrow> balanced x (resps_events rs ds) x'"
proof (induction rs arbitrary: x ds)
  case (Cons r rs)
  obtain d x1 ds1 where c: "xb_recvTimingResp us now r x = Inr (d, x1)" "xb_recv_resps us now rs x1 = Inr (ds1, x')" "ds = d # ds1"
    using Cons.prems by (auto simp: bindR_eq_Inr)
  then show ?case using balanced_trans [OF balanced_resp [OF c(1)] Cons.IH [OF c(2)]] by simp
qed (simp add: balanced_same)

lemma balanced_retryResp:
  assumes "xb_retryResp us now i resps x = Inr (p, ds, x')"
  shows "balanced x (resps_events resps ds) x'"
proof -
  obtain l1 x1 where c: "xb_recv_resps us now resps (put_respLayer i l1 x) = Inr (ds, x1)" "slaveQueues x' = slaveQueues x1"
    using assms by (auto simp: xb_retryResp_def bindR_eq_Inr Let_def case_prod_unfold if_distrib [of snd])
  show ?thesis by (rule balanced_cong [OF balanced_resps [OF c(1)]]) (simp_all add: c(2))
qed

lemma balanced_releaseResp:
  assumes "xb_releaseResp us now i resps x = Inr (p, ds, x')"
  shows "balanced x (resps_events resps ds) x'"
proof -
  consider l1 where "xb_retryResp us now i resps (put_respLayer i l1 x) = Inr (p, ds, x')" | l1 where "ds = []" "x' = put_respLayer i l1 x"
    using assms by (auto simp: xb_releaseResp_def bindR_eq_Inr split: if_splits)
  then show ?thesis
  proof cases
    case 1
    from balanced_retryResp [OF this] show ?thesis by (rule balanced_cong) simp_all
  qed (simp add: balanced_same reqs_events_none)
qed

text \<open>A queue that sends its first packet loses it if the neighbour takes it.\<close>

lemma send_lengths:
  assumes "sendDeferredPacket now (taken, []) q = Inr q'"
  shows "length (transmitList q') + (if taken then 1 else 0) = length (transmitList q)"
proof -
  have ne: "transmitList q \<noteq> []" using assms by (simp add: sendDeferredPacket_def assertR_eq_Inr deferredPacketReady_def)
  have "transmitList q' = (if taken then tl (transmitList q) else transmitList q)"
    using assms ne by (cases taken) (auto simp: sendDeferredPacket_def assertR_eq_Inr Let_def dest!: schedSendEvent_list)
  then show ?thesis using ne by (cases "transmitList q") auto
qed

lemma balanced_sent:
  assumes "0 \<le> i" "nat i < length (slaveQueues x)" "slaveQueues x' = (slaveQueues x)[nat i := q']"
    and "length (transmitList q') + (if taken then 1 else 0) = waiting_at i x"
  shows "balanced x (sent_events i taken) x'"
proof -
  have "waiting_at k x' + sent_from k (sent_events i taken) = waiting_at k x + delivered_to k (sent_events i taken)" if "0 \<le> k" for k
  proof (cases "k = i")
    case True
    then show ?thesis using assms by (cases taken) (simp_all add: waiting_at_def sent_events_def delivered_to_def sent_from_def)
  next
    case False
    then have "nat k \<noteq> nat i" using that assms(1) by simp
    then show ?thesis using False assms(3) by (simp add: waiting_at_def sent_events_def delivered_to_def sent_from_def)
  qed
  then show ?thesis using assms(3) by (simp add: balanced_def)
qed

lemma balanced_queue:
  "xb_queueEvent now i taken x = Inr x' \<Longrightarrow> balanced x (sent_events i taken) x'"
  "xb_recvRespRetry now i taken x = Inr x' \<Longrightarrow> balanced x (sent_events i taken) x'"
proof -
  assume "xb_queueEvent now i taken x = Inr x'"
  then obtain q' where q: "0 \<le> i" "nat i < length (slaveQueues x)" "processSendEvent now (taken, []) (slaveQueues x ! nat i) = Inr q'"
    "x' = put_queue i q' x" by (auto simp: xb_queueEvent_def bindR_eq_Inr port_at_def vec_at_eq_Inr split: if_splits)
  then have "sendDeferredPacket now (taken, []) ((slaveQueues x ! nat i)\<lparr>sendEvent := None\<rparr>) = Inr q'"
    by (simp add: processSendEvent_def assertR_eq_Inr)
  from send_lengths [OF this] show "balanced x (sent_events i taken) x'"
    using q by (intro balanced_sent [of i x x' q']) (simp_all add: waiting_at_def)
next
  assume "xb_recvRespRetry now i taken x = Inr x'"
  then obtain q' where q: "0 \<le> i" "nat i < length (slaveQueues x)" "pq_retry now (taken, []) (slaveQueues x ! nat i) = Inr q'"
    "x' = put_queue i q' x" by (auto simp: xb_recvRespRetry_def bindR_eq_Inr port_at_def vec_at_eq_Inr split: if_splits)
  then have "sendDeferredPacket now (taken, []) ((slaveQueues x ! nat i)\<lparr>waitingOnRetry := False\<rparr>) = Inr q'"
    by (simp add: pq_retry_def assertR_eq_Inr)
  from send_lengths [OF this] show "balanced x (sent_events i taken) x'"
    using q by (intro balanced_sent [of i x x' q']) (simp_all add: waiting_at_def)
qed

text \<open>The other operations leave the queues, or at least how much they hold.\<close>

lemma satisfy_queued_length: "satisfy_queued p l = Inr (f, p', l') \<Longrightarrow> length l' = length l"
proof (induction l arbitrary: p f p' l')
  case (Cons e es)
  obtain b p1 o1 where q: "trySatisfyPacket p (snd e) = Inr (b, p1, o1)"
    using Cons.prems by (cases "trySatisfyPacket p (snd e)") auto
  show ?case
  proof (cases b)
    case True
    then show ?thesis using Cons.prems q by auto
  next
    case False
    obtain f2 p2 es2 where r: "satisfy_queued p1 es = Inr (f2, p2, es2)"
      using Cons.prems q False by (cases "satisfy_queued p1 es") auto
    then show ?thesis using Cons.prems q False Cons.IH [OF r] by auto
  qed
qed simp

lemma satisfy_ports_lengths:
  "satisfy_ports p qs = Inr (f, p', qs') \<Longrightarrow> map (\<lambda>q. length (transmitList q)) qs' = map (\<lambda>q. length (transmitList q)) qs"
proof (induction qs arbitrary: p f p' qs')
  case (Cons q qs)
  obtain b p1 l where q: "satisfy_queued p (transmitList q) = Inr (b, p1, l)"
    using Cons.prems by (cases "satisfy_queued p (transmitList q)") (auto simp: pq_trySatisfyFunctional_def)
  have l: "length l = length (transmitList q)" by (rule satisfy_queued_length [OF q])
  show ?case
  proof (cases b)
    case True
    then show ?thesis using Cons.prems q l by (auto simp: pq_trySatisfyFunctional_def)
  next
    case False
    obtain f2 p2 qs2 where r: "satisfy_ports p1 qs = Inr (f2, p2, qs2)"
      using Cons.prems q False by (cases "satisfy_ports p1 qs") (auto simp: pq_trySatisfyFunctional_def)
    then show ?thesis using Cons.prems q l False Cons.IH [OF r] by (auto simp: pq_trySatisfyFunctional_def)
  qed
qed simp

lemma balanced_functional:
  assumes "xb_recvFunctional pkt x = Inr (p, dest, x')"
  shows "balanced x [] x'"
proof -
  obtain f p1 qs where s1: "satisfy_ports pkt (slaveQueues x) = Inr (f, p1, qs)"
    using assms by (cases "satisfy_ports pkt (slaveQueues x)") (auto simp: xb_recvFunctional_def)
  have "slaveQueues x' = qs"
  proof (cases f)
    case True
    then show ?thesis using assms s1 by (auto simp: xb_recvFunctional_def Let_def bindR_eq_Inr split: if_splits)
  next
    case False
    then show ?thesis using assms s1 by (auto simp: xb_recvFunctional_def Let_def bindR_eq_Inr dest!: findPort_queues)
  qed
  note s = s1 this
  note l = satisfy_ports_lengths [OF s(1)]
  have len: "length qs = length (slaveQueues x)" using map_eq_imp_length_eq [OF l] .
  have "length (transmitList (qs ! k)) = length (transmitList (slaveQueues x ! k))" if "k < length (slaveQueues x)" for k
    using arg_cong [OF l, of "\<lambda>xs. xs ! k"] that len by simp
  then show ?thesis using len s(2) by (simp add: balanced_def waiting_at_def)
qed

lemma quiet_queues:
  "recvRangeChange i ranges x = Inr (b, x') \<Longrightarrow> slaveQueues x' = slaveQueues x"
  "xb_recvAtomic pkt src answer lat x = Inr (dst, t, x') \<Longrightarrow> slaveQueues x' = slaveQueues x"
  subgoal by (auto simp: recvRangeChange_def aggregate_ranges_def bindR_eq_Inr Let_def split: if_splits)
  subgoal by (auto simp: xb_recvAtomic_def bindR_eq_Inr Let_def split: if_splits dest!: findPort_queues)
  done

definition port_books :: "XBar \<Rightarrow> route_event list \<Rightarrow> bool" where
  "port_books x T \<longleftrightarrow> (\<forall>p. 0 \<le> p \<and> nat p < length (slaveQueues x) \<longrightarrow> delivered_to p T = waiting_at p x + sent_from p T)"

lemma books_extend:
  assumes "port_books x T" "balanced x E x'"
  shows "port_books x' (T @ E)"
  unfolding port_books_def
proof (intro allI impI)
  fix p :: PortID
  assume "0 \<le> p \<and> nat p < length (slaveQueues x')"
  then have p: "0 \<le> p \<and> nat p < length (slaveQueues x)" using assms(2) by (simp add: balanced_def)
  have "delivered_to p T = waiting_at p x + sent_from p T" using assms(1) p by (simp add: port_books_def)
  moreover have "waiting_at p x' + sent_from p E = waiting_at p x + delivered_to p E" using assms(2) p by (simp add: balanced_def)
  ultimately show "delivered_to p (T @ E) = waiting_at p x' + sent_from p (T @ E)" by simp
qed

lemma books_quiet: "port_books x T \<Longrightarrow> balanced x [] x' \<Longrightarrow> port_books x' T"
  using books_extend [of x T "[]" x'] by simp

lemma xb_books: "xb_steps x T \<Longrightarrow> port_books x T"
proof (induction rule: xb_steps.induct)
  case xb_start
  show ?case by (simp add: port_books_def NoncoherentXBar_new_def Let_def waiting_at_def PacketQueue_new_def)
next
  case (xb_ranges x T i ranges b x')
  show ?case by (rule books_quiet [OF xb_ranges.IH balanced_same [OF quiet_queues(1) [OF xb_ranges.hyps(2)]]])
next
  case (xb_request x T us now r d dl x')
  show ?case by (rule books_extend [OF xb_request.IH balanced_reqs(1) [OF recvTimingReq_queues [OF xb_request.hyps(2)]]])
next
  case (xb_response x T us now s d x')
  show ?case by (rule books_extend [OF xb_response.IH balanced_resp [OF xb_response.hyps(2)]])
next
  case (xb_relReq x T us now i rs p ds x')
  show ?case by (rule books_extend [OF xb_relReq.IH balanced_reqs(2) [OF req_handler_queues(1) [OF xb_relReq.hyps(2)]]])
next
  case (xb_relResp x T us now i ss p ds x')
  show ?case by (rule books_extend [OF xb_relResp.IH balanced_releaseResp [OF xb_relResp.hyps(2)]])
next
  case (xb_retry x T us now i rs p ds x')
  show ?case by (rule books_extend [OF xb_retry.IH balanced_reqs(2) [OF req_handler_queues(2) [OF xb_retry.hyps(2)]]])
next
  case (xb_event x T now i taken x')
  show ?case by (rule books_extend [OF xb_event.IH balanced_queue(1) [OF xb_event.hyps(2)]])
next
  case (xb_respRetry x T now i taken x')
  show ?case by (rule books_extend [OF xb_respRetry.IH balanced_queue(2) [OF xb_respRetry.hyps(2)]])
next
  case (xb_atomic x T pkt src answer lat dst t x')
  show ?case by (rule books_quiet [OF xb_atomic.IH balanced_same [OF quiet_queues(2) [OF xb_atomic.hyps(2)]]])
next
  case (xb_functional x T pkt q dest x')
  show ?case by (rule books_quiet [OF xb_functional.IH balanced_functional [OF xb_functional.hyps(2)]])
qed

lemma routes_home:
  assumes "routes_after T Map.empty = Some m" "T = T1 @ Delivered i p # T2"
  shows "last_accepted i p T1"
proof -
  obtain m1 where m1: "routes_after T1 Map.empty = Some m1" "routes_after (Delivered i p # T2) m1 = Some m"
    using assms by (auto simp: routes_after_append split: option.splits)
  then have "m1 i = Some p" by (simp split: if_splits)
  then show ?thesis using open_route [OF m1(1)] by simp
qed


section \<open>Decoding\<close>

definition whole :: "AddrRange \<Rightarrow> AddrRange \<Rightarrow> bool" where
  "whole r e \<longleftrightarrow> r_start e \<le> r_start r \<and> r_end r \<le> r_end e"

lemma whole_unique:
  assumes "map_wf m" "plain r" "e \<in> set (tree m)" "f \<in> set (tree m)" "whole r (fst e)" "whole r (fst f)"
  shows "snd e = snd f"
proof -
  have v: "r_start r \<le> r_end r" using assms(2) by (simp add: plain_def range_valid_def)
  have c: "contains (fst e) (r_start r)" "contains (fst f) (r_start r)"
    using assms v by (auto simp: map_wf_def whole_def contains_plain plain_def)
  show ?thesis using decode_unique [OF assms(1,3) c(1)] decode_unique [OF assms(1,4) c(2)] by simp
qed

text \<open>C25: A request goes to the port whose range holds all its bytes. If there is none it goes to the default port, if the
  default port takes any address or its range holds the request; otherwise the simulator stops. The ranges stay as they are.\<close>
theorem findPort_decodes:
  assumes "map_wf (portMap x)" "plain r" "gotAllAddrRanges x" "useDefaultRange x \<longrightarrow> plain (defaultRange x)"
  shows "(\<forall>e \<in> set (tree (portMap x)). whole r (fst e) \<longrightarrow>
      (\<exists>m. findPort r x = Inr (snd e, x\<lparr>portMap := m\<rparr>) \<and> map_wf m \<and> decode m = decode (portMap x))) \<and>
    ((\<forall>e \<in> set (tree (portMap x)). \<not> whole r (fst e)) \<longrightarrow>
      (if (if useDefaultRange x then whole r (defaultRange x) else defaultPortID x \<noteq> InvalidPortID)
       then \<exists>m. findPort r x = Inr (defaultPortID x, x\<lparr>portMap := m\<rparr>) \<and> map_wf m \<and> decode m = decode (portMap x)
       else findPort r x = Inl FatalError))"
proof -
  obtain res m where m: "map_contains 3 r (portMap x) = Inr (res, m)" "tree m = tree (portMap x)" "map_wf m"
    "case res of None \<Rightarrow> \<forall>e\<in>set (tree (portMap x)). \<not> whole r (fst e) | Some e \<Rightarrow> e \<in> set (tree (portMap x)) \<and> whole r (fst e)"
    using map_contains_exact [OF assms(1,2), of 3] unfolding whole_def by blast
  have d: "decode m = decode (portMap x)" by (rule decode_cong_tree [OF m(2)])
  show ?thesis
  proof (cases res)
    case (Some e)
    then have e: "e \<in> set (tree (portMap x))" "whole r (fst e)" using m(4) by simp_all
    have "findPort r x = Inr (snd e, x\<lparr>portMap := m\<rparr>)" using assms(3) m(1) Some by (simp add: findPort_def assertR_def Let_def)
    then have "\<exists>m. findPort r x = Inr (snd f, x\<lparr>portMap := m\<rparr>) \<and> map_wf m \<and> decode m = decode (portMap x)"
      if "f \<in> set (tree (portMap x))" "whole r (fst f)" for f
      using whole_unique [OF assms(1,2) that(1) e(1) that(2) e(2)] m(3) d by (intro exI [of _ m]) simp
    then show ?thesis using e by blast
  next
    case None
    then have n: "\<forall>e\<in>set (tree (portMap x)). \<not> whole r (fst e)" using m(4) by simp
    have "findPort r x = (if (if useDefaultRange x then whole r (defaultRange x) else defaultPortID x \<noteq> InvalidPortID)
       then Inr (defaultPortID x, x\<lparr>portMap := m\<rparr>) else Inl FatalError)"
      using assms(2-4) m(1) None plain_isSubset [OF assms(2), of "defaultRange x"]
      by (cases "useDefaultRange x") (simp_all add: findPort_def assertR_def Let_def whole_def)
    then have "if (if useDefaultRange x then whole r (defaultRange x) else defaultPortID x \<noteq> InvalidPortID)
       then \<exists>m. findPort r x = Inr (defaultPortID x, x\<lparr>portMap := m\<rparr>) \<and> map_wf m \<and> decode m = decode (portMap x)
       else findPort r x = Inl FatalError" using m(3) d by (auto simp only: if_True if_False split: if_splits)
    then show ?thesis using n by blast
  qed
qed

lemma sorted_distinct: "sorted_wrt P xs \<Longrightarrow> (\<forall>e \<in> set xs. \<not> P e e) \<Longrightarrow> distinct xs"
  by (induction xs) auto

lemma wf_distinct: "map_wf m \<Longrightarrow> distinct (tree m)"
  by (rule sorted_distinct [of apart]) (auto simp: map_wf_def plain_def range_valid_def apart_def)

lemma erase_port_tree:
  assumes "map_wf m"
  shows "map_wf (erase_port i es m) \<and> tree (erase_port i es m) = filter (\<lambda>e. \<not> (snd e = i \<and> e \<in> set es)) (tree m)"
  using assms
proof (induction es arbitrary: m)
  case (Cons e es)
  let ?m = "if snd e = i then map_erase e m else m"
  have w: "map_wf ?m" using Cons.prems by (simp add: map_erase_wf)
  have "tree ?m = filter (\<lambda>f. \<not> (snd f = i \<and> f = e)) (tree m)"
  proof (cases "snd e = i")
    case True
    then have "tree ?m = filter (\<lambda>f. f \<noteq> e) (tree m)"
      using wf_distinct [OF Cons.prems] by (simp add: map_erase_def distinct_remove1_removeAll removeAll_filter_not_eq) (auto intro: filter_cong)
    then show ?thesis using True by (auto intro: filter_cong)
  next
    case False
    then show ?thesis by (auto intro!: filter_True [symmetric])
  qed
  then show ?case using Cons.IH [OF w] by (auto intro: filter_cong)
qed simp

lemma add_ranges_register: "add_ranges i rs m = arm.register 3 (map (\<lambda>r. (r, i)) rs) m"
proof (induction rs arbitrary: m)
  case (Cons r rs)
  show ?case
  proof (cases "map_insert 3 r i m")
    case (Inl e)
    then have "decoder_insert 3 r i m = Inl e" by (simp add: decoder_insert_def)
    then show ?thesis using Inl by simp
  next
    case (Inr res)
    obtain it m1 where res: "res = (it, m1)" by (cases res)
    have "decoder_insert 3 r i m = Inr (it \<noteq> None, m1)" using Inr res by (simp add: decoder_insert_def)
    then show ?thesis using Inr res by (cases it) (simp_all add: Cons.IH)
  qed
qed simp

text \<open>The addresses left to the other ports when a port gives up its ranges.\<close>

definition without_port :: "PortID \<Rightarrow> (Addr \<Rightarrow> PortID option) \<Rightarrow> Addr \<Rightarrow> PortID option" where
  "without_port i f = (\<lambda>a. if f a = Some i then None else f a)"

lemma decode_erased:
  assumes "map_wf m"
  shows "decode (erase_port i (tree m) m) = without_port i (decode m)"
proof
  fix a
  let ?m = "erase_port i (tree m) m"
  have t: "map_wf ?m" "tree ?m = filter (\<lambda>e. snd e \<noteq> i) (tree m)"
    using erase_port_tree [OF assms, of i "tree m"] by (auto intro: filter_cong)
  show "decode ?m a = without_port i (decode m) a"
  proof (cases "decode m a")
    case None
    then have "\<forall>e \<in> set (tree m). \<not> contains (fst e) a" by (simp only: decode_None)
    then have "decode ?m a = None" unfolding decode_None t(2) by simp
    then show ?thesis using None by (simp add: without_port_def)
  next
    case (Some d)
    then obtain e where e: "e \<in> set (tree m)" "contains (fst e) a"
      by (metis decode_None option.distinct(1))
    then have d: "snd e = d" using decode_unique [OF assms e] Some by simp
    show ?thesis
    proof (cases "d = i")
      case False
      then have "decode ?m a = Some d" using decode_unique [OF t(1), of e a] e d t(2) by simp
      then show ?thesis using False Some by (simp add: without_port_def)
    next
      case True
      have "\<not> contains (fst f) a" if "f \<in> set (tree ?m)" for f
      proof
        assume "contains (fst f) a"
        then have "decode m a = Some (snd f)" using decode_unique [OF assms, of f a] that t(2) by simp
        then show False using that t(2) Some True by simp
      qed
      then have "decode ?m a = None" by (simp add: decode_None)
      then show ?thesis using True Some by (simp add: without_port_def)
    qed
  qed
qed

text \<open>What the crossbar reports: its ranges, or the default range and those that are not part of it.\<close>

definition reported_ranges :: "bool \<Rightarrow> AddrRange \<Rightarrow> AddrRange list \<Rightarrow> AddrRange list" where
  "reported_ranges use d rs = (if use then d # filter (\<lambda>r. \<not> whole r d) rs else rs)"

definition fits_default :: "AddrRange \<Rightarrow> AddrRange list \<Rightarrow> bool" where
  "fits_default d rs \<longleftrightarrow> (\<forall>r \<in> set rs. whole r d \<or> \<not> (\<exists>a. contains r a \<and> contains d a))"

lemma merge_plain:
  assumes "\<forall>r \<in> set rs. plain r" "useDefaultRange x \<longrightarrow> plain (defaultRange x)"
  shows "merge_ranges x rs [] acc = Inr (acc @ (if useDefaultRange x then filter (\<lambda>r. \<not> whole r (defaultRange x)) rs else rs))"
  using assms(1)
proof (induction rs arbitrary: acc)
  case (Cons r rs)
  have r: "\<not> interleaved r" "plain r" using Cons.prems by (simp_all add: plain_def)
  have "keep_range r acc x = Inr (if useDefaultRange x \<and> whole r (defaultRange x) then acc else acc @ [r])"
    using assms(2) plain_isSubset [OF r(2), of "defaultRange x"] by (simp add: keep_range_def whole_def)
  then show ?case using Cons r(1) by simp
qed simp

lemma plain_meet:
  assumes "plain r" "plain d"
  shows "(\<exists>a. contains r a \<and> contains d a) \<longleftrightarrow> r_start r \<le> r_end d \<and> r_start d \<le> r_end r"
proof
  assume "r_start r \<le> r_end d \<and> r_start d \<le> r_end r"
  then have "contains r (max (r_start r) (r_start d)) \<and> contains d (max (r_start r) (r_start d))"
    using assms by (cases "r_start r \<le> r_start d") (auto simp: contains_plain plain_def range_valid_def max_def)
  then show "\<exists>a. contains r a \<and> contains d a" by blast
qed (use assms in \<open>auto simp: contains_plain plain_def intro: order_trans\<close>)

lemma check_default_plain:
  assumes "plain d" "\<forall>r \<in> set rs. plain r"
  shows "check_default d rs = (if fits_default d rs then Inr () else Inl FatalError)"
  using assms(2)
proof (induction rs)
  case (Cons r rs)
  have r: "plain r" using Cons.prems by simp
  define m where "m = (\<exists>a. contains r a \<and> contains d a)"
  have "intersects r d = Inr m" "isSubset r d = Inr (whole r d)"
    using plain_intersects [OF r assms(1)] plain_meet [OF r assms(1)] plain_isSubset [OF r assms(1)] by (simp_all add: whole_def m_def)
  then have "check_default d (r # rs) = (if m \<and> \<not> whole r d then Inl FatalError else check_default d rs)" by (cases m) simp_all
  moreover have "fits_default d (r # rs) = ((whole r d \<or> \<not> m) \<and> fits_default d rs)" unfolding fits_default_def m_def by simp
  ultimately show ?case using Cons by (cases m; cases "whole r d") simp_all
qed (simp add: fits_default_def)

lemma aggregate_plain:
  assumes "\<forall>r \<in> set (map fst (tree (portMap x))). plain r"
    and "useDefaultRange x \<longrightarrow> plain (defaultRange x) \<and> port_at (gotAddrRanges x) (defaultPortID x) = Inr True"
  shows "aggregate_ranges x = (if useDefaultRange x \<and> \<not> fits_default (defaultRange x) (map fst (tree (portMap x))) then Inl FatalError
    else Inr (x\<lparr>xbarRanges := reported_ranges (useDefaultRange x) (defaultRange x) (map fst (tree (portMap x)))\<rparr>))"
proof (cases "useDefaultRange x")
  case False
  then show ?thesis using merge_plain [OF assms(1), of x "[]"] by (simp add: aggregate_ranges_def reported_ranges_def)
next
  case True
  let ?d = "defaultRange x" and ?rs = "map fst (tree (portMap x))"
  have d: "plain ?d" "port_at (gotAddrRanges x) (defaultPortID x) = Inr True" using True assms(2) by simp_all
  have m: "merge_ranges x ?rs [] [?d] = Inr (reported_ranges True ?d ?rs)"
    using merge_plain [OF assms(1), of x "[?d]"] True d(1) by (simp add: reported_ranges_def)
  have "whole ?d ?d" using d(1) by (simp add: whole_def)
  then have f: "fits_default ?d (reported_ranges True ?d ?rs) = fits_default ?d ?rs"
    by (auto simp: fits_default_def reported_ranges_def)
  have "\<forall>r \<in> set (reported_ranges True ?d ?rs). plain r" using assms(1) d(1) by (auto simp: reported_ranges_def)
  from check_default_plain [OF d(1) this] show ?thesis
    using True d(2) m f by (simp add: aggregate_ranges_def)
qed

text \<open>A crossbar that uses a default range but has no default port reads outside of its list before it can report that.\<close>

lemma default_range_without_port:
  "useDefaultRange x \<Longrightarrow> defaultPortID x = InvalidPortID \<Longrightarrow> aggregate_ranges x = Inl OutOfRange"
  by (simp add: aggregate_ranges_def port_at_def InvalidPortID_def)

definition ranges_apart :: "AddrRange list \<Rightarrow> bool" where
  "ranges_apart rs \<longleftrightarrow> sorted_wrt (\<lambda>r s. \<forall>a. \<not> (contains r a \<and> contains s a)) rs"

lemma add_ranges_apart:
  assumes "map_wf m" "\<forall>r \<in> set rs. plain r"
  shows "if ranges_apart rs \<and> (\<forall>r \<in> set rs. \<forall>a. contains r a \<longrightarrow> decode m a = None)
    then \<exists>m'. add_ranges i rs m = Inr m' \<and> map_wf m' \<and> decode m' = (\<lambda>a. if \<exists>r \<in> set rs. contains r a then Some i else decode m a)
    else add_ranges i rs m = Inl FatalError"
proof -
  let ?rs = "map (\<lambda>r. (r, i)) rs"
  have p: "\<forall>e \<in> set ?rs. plain (fst e)" using assms(2) by simp
  have s: "sorted_wrt (\<lambda>e f. \<forall>a. \<not> (contains (fst e) a \<and> contains (fst f) a)) ?rs = ranges_apart rs"
    by (simp add: ranges_apart_def sorted_wrt_map)
  show ?thesis
  proof (cases "ranges_apart rs \<and> (\<forall>r \<in> set rs. \<forall>a. contains r a \<longrightarrow> decode m a = None)")
    case True
    then have "\<forall>e \<in> set ?rs. \<forall>a. contains (fst e) a \<longrightarrow> decode m a = None" by simp
    from arm.register_disjoint [OF assms(1) p this] True s obtain m' where m': "arm.register 3 ?rs m = Inr m'" "map_wf m'"
      "\<forall>e\<in>set ?rs. \<forall>a. contains (fst e) a \<longrightarrow> decode m' a = Some (snd e)"
      "\<forall>a. (\<forall>e\<in>set ?rs. \<not> contains (fst e) a) \<longrightarrow> decode m' a = decode m a" by blast
    have "decode m' = (\<lambda>a. if \<exists>r \<in> set rs. contains r a then Some i else decode m a)" using m'(3,4) by (auto simp: fun_eq_iff)
    then show ?thesis using True m'(1,2) by (simp add: add_ranges_register)
  next
    case False
    then have "\<not> sorted_wrt (\<lambda>e f. \<forall>a. \<not> (contains (fst e) a \<and> contains (fst f) a)) ?rs \<or> (\<exists>e \<in> set ?rs. \<exists>a. contains (fst e) a \<and> decode m a \<noteq> None)"
      using s by auto
    then have "arm.register 3 ?rs m = Inl FatalError" by (rule arm.register_overlap [OF assms(1) p])
    then show ?thesis using False by (simp only: add_ranges_register if_False)
  qed
qed

lemma got_all_default:
  assumes "useDefaultRange x \<longrightarrow> 0 \<le> defaultPortID x \<and> nat (defaultPortID x) < length (gotAddrRanges x)"
    and "useDefaultRange x \<and> port_at (gotAddrRanges x) (defaultPortID x) = Inr True \<longrightarrow> plain (defaultRange x)"
    and "gotAllAddrRanges x \<longrightarrow> list_all (\<lambda>g. g) (gotAddrRanges x)" "0 \<le> i" "useDefaultRange x"
    and "gotAllAddrRanges x \<or> list_all (\<lambda>g. g) ((gotAddrRanges x)[nat i := True])"
  shows "port_at ((gotAddrRanges x)[nat i := True]) (defaultPortID x) = Inr True" "i \<noteq> defaultPortID x \<Longrightarrow> plain (defaultRange x)"
proof -
  let ?n = "nat (defaultPortID x)" and ?got = "(gotAddrRanges x)[nat i := True]"
  have d: "0 \<le> defaultPortID x" "?n < length (gotAddrRanges x)" using assms(1,5) by simp_all
  have "?got ! ?n"
  proof (cases "gotAllAddrRanges x")
    case True
    then have "gotAddrRanges x ! ?n" using assms(3) d(2) by (simp add: list_all_length)
    then show ?thesis using d(2) by (cases "nat i = ?n") simp_all
  next
    case False
    then have "list_all (\<lambda>g. g) ?got" using assms(6) by simp
    then show ?thesis using d(2) by (simp add: list_all_length)
  qed
  then have g: "?got ! ?n = True" by simp
  show "port_at ?got (defaultPortID x) = Inr True" using d g by (simp add: port_at_def)
  show "plain (defaultRange x)" if "i \<noteq> defaultPortID x"
  proof -
    have "nat i \<noteq> ?n" using that d(1) assms(4) by simp
    then show ?thesis using assms(2,5) d g by (simp add: port_at_def)
  qed
qed

text \<open>C26: What a neighbour's report of its ranges does, for ranges that are not interleaved. A port other than the default
  port: exactly its addresses change; those it had are given up, and those in the new ranges are decoded to it;
  ranges that overlap each other or those of another port stop the simulator. The default port: the decoding of
  addresses stays as it is, and if the crossbar uses a default range, the one range reported becomes that range,
  and another number of ranges stops the simulator. Once all ports have reported, the crossbar reports its own
  ranges: those of the ports, or, with a default range, that range and those which are not part of it; a
  range partly in the default range stops the simulator. Before that it reports nothing. (The map is well formed, the crossbar takes
  all ranges for known only when all ports have reported, and with a default range the default port is one of
  the ports, and a default range already reported is not interleaved either.)\<close>
theorem range_change_exact:
  assumes "map_wf (portMap x)" "\<forall>r \<in> set ranges. plain r" "0 \<le> i" "nat i < length (gotAddrRanges x)"
    and "useDefaultRange x \<longrightarrow> 0 \<le> defaultPortID x \<and> nat (defaultPortID x) < length (gotAddrRanges x)"
    and "useDefaultRange x \<and> port_at (gotAddrRanges x) (defaultPortID x) = Inr True \<longrightarrow> plain (defaultRange x)"
    and "gotAllAddrRanges x \<longrightarrow> list_all (\<lambda>g. g) (gotAddrRanges x)"
  shows "if (if i = defaultPortID x then useDefaultRange x \<longrightarrow> length ranges = 1
        else ranges_apart ranges \<and> (\<forall>r \<in> set ranges. \<forall>a. contains r a \<longrightarrow> without_port i (decode (portMap x)) a = None))
    then \<exists>m. map_wf m \<and>
      decode m = (if i = defaultPortID x then decode (portMap x)
        else (\<lambda>a. if \<exists>r \<in> set ranges. contains r a then Some i else without_port i (decode (portMap x)) a)) \<and>
      recvRangeChange i ranges x =
        (let got = (gotAddrRanges x)[nat i := True]; all_got = gotAllAddrRanges x \<or> list_all (\<lambda>g. g) got;
             d = (if i = defaultPortID x \<and> useDefaultRange x then hd ranges else defaultRange x); rs = map fst (tree m);
             x1 = x\<lparr>gotAddrRanges := got, gotAllAddrRanges := all_got, defaultRange := d, portMap := m\<rparr> in
         if \<not> all_got then Inr (False, x1)
         else if useDefaultRange x \<and> \<not> fits_default d rs then Inl FatalError
         else Inr (True, x1\<lparr>xbarRanges := reported_ranges (useDefaultRange x) d rs\<rparr>))
    else recvRangeChange i ranges x = Inl FatalError"
proof -
  let ?got = "(gotAddrRanges x)[nat i := True]"
  let ?b = "gotAllAddrRanges x \<or> list_all (\<lambda>g. g) ?got"
  let ?x = "\<lambda>d m. x\<lparr>gotAddrRanges := ?got, gotAllAddrRanges := ?b, defaultRange := d, portMap := m\<rparr>"
  let ?result = "\<lambda>d m. if \<not> ?b then Inr (False, ?x d m) else if useDefaultRange x \<and> \<not> fits_default d (map fst (tree m)) then Inl FatalError
         else Inr (True, (?x d m)\<lparr>xbarRanges := reported_ranges (useDefaultRange x) d (map fst (tree m))\<rparr>)"
  have p: "port_at (gotAddrRanges x) i = Inr (gotAddrRanges x ! nat i)" using assms(3,4) by (simp add: port_at_def)
  note def = got_all_default [OF assms(5-7,3)]
  have report: "(if ?b then bindR (aggregate_ranges (?x d m)) (\<lambda>x3. ok (True, x3)) else ok (False, ?x d m)) = ?result d m"
    if m: "map_wf m" and d: "useDefaultRange x \<and> ?b \<longrightarrow> plain d" for d m
  proof (cases ?b)
    case True
    have pl: "\<forall>r \<in> set (map fst (tree (portMap (?x d m)))). plain r" using m by (simp add: map_wf_def)
    have "useDefaultRange (?x d m) \<longrightarrow> plain (defaultRange (?x d m)) \<and> port_at (gotAddrRanges (?x d m)) (defaultPortID (?x d m)) = Inr True"
      using d def(1) True by simp
    from aggregate_plain [OF pl this] show ?thesis using True by simp
  qed simp
  have same: "x\<lparr>gotAddrRanges := g, gotAllAddrRanges := b, portMap := m\<rparr> = x\<lparr>gotAddrRanges := g, gotAllAddrRanges := b, defaultRange := defaultRange x, portMap := m\<rparr>" for g b m
    by (rule XBar.equality) simp_all
  have same': "x\<lparr>gotAddrRanges := g, gotAllAddrRanges := b, defaultRange := d\<rparr> = x\<lparr>gotAddrRanges := g, gotAllAddrRanges := b, defaultRange := d, portMap := portMap x\<rparr>" for g b d
    by (rule XBar.equality) simp_all
  show ?thesis
  proof (cases "i = defaultPortID x")
    case True
    let ?d = "if useDefaultRange x then hd ranges else defaultRange x"
    have eq: "x\<lparr>gotAddrRanges := ?got, gotAllAddrRanges := ?b\<rparr> = ?x (defaultRange x) (portMap x)" by (rule XBar.equality) simp_all
    have r: "recvRangeChange i ranges x = (if useDefaultRange x \<and> length ranges \<noteq> 1 then Inl FatalError
        else if ?b then bindR (aggregate_ranges (?x ?d (portMap x))) (\<lambda>x3. ok (True, x3)) else ok (False, ?x ?d (portMap x)))"
      using True p eq same' [where g = ?got and b = ?b and d = "hd ranges"] by (simp add: recvRangeChange_def Let_def)
    show ?thesis
    proof (cases "useDefaultRange x \<longrightarrow> length ranges = 1")
      case len: True
      then have "useDefaultRange x \<and> ?b \<longrightarrow> plain ?d" using assms(2) by (cases ranges) auto
      from report [OF assms(1) this] r len have "recvRangeChange i ranges x = ?result ?d (portMap x)" by auto
      then have "map_wf (portMap x) \<and> decode (portMap x) = decode (portMap x) \<and> recvRangeChange i ranges x = ?result ?d (portMap x)"
        using assms(1) by blast
      then show ?thesis unfolding if_P [OF True] if_P [OF len] Let_def using True by (intro exI [of _ "portMap x"]) simp
    qed (use r True in simp)
  next
    case False
    let ?m = "erase_port i (tree (portMap x)) (portMap x)"
    have w: "map_wf ?m" using erase_port_tree [OF assms(1)] by simp
    note ad = add_ranges_apart [OF w assms(2), of i, unfolded decode_erased [OF assms(1)]]
    have r: "recvRangeChange i ranges x = bindR (add_ranges i ranges ?m) (\<lambda>m.
        if ?b then bindR (aggregate_ranges (?x (defaultRange x) m)) (\<lambda>x3. ok (True, x3)) else ok (False, ?x (defaultRange x) m))"
      using False p same [where g = ?got and b = ?b] by (cases "add_ranges i ranges ?m") (simp_all add: recvRangeChange_def Let_def)
    show ?thesis
    proof (cases "ranges_apart ranges \<and> (\<forall>r \<in> set ranges. \<forall>a. contains r a \<longrightarrow> without_port i (decode (portMap x)) a = None)")
      case free: True
      then obtain m where m: "add_ranges i ranges ?m = Inr m" "map_wf m"
        "decode m = (\<lambda>a. if \<exists>r \<in> set ranges. contains r a then Some i else without_port i (decode (portMap x)) a)" using ad by auto
      have "useDefaultRange x \<and> ?b \<longrightarrow> plain (defaultRange x)" using def(2) False by blast
      from report [OF m(2) this] r m(1) have "recvRangeChange i ranges x = ?result (defaultRange x) m" by simp
      then show ?thesis unfolding if_not_P [OF False] if_P [OF free] Let_def using m(2,3) False by (intro exI [of _ m]) simp
    next
      case clash: False
      then have "add_ranges i ranges ?m = Inl FatalError" using ad by (simp only: if_False)
      then show ?thesis unfolding if_not_P [OF False] if_not_P [OF clash] using r by (simp only: bindR_simps)
    qed
  qed
qed

section \<open>Witnesses\<close>

text \<open>A crossbar with one master port, which decodes the first 256 bytes, and two slave ports; a read from slave port 1.\<close>

definition ex_xbar_new :: XBar where "ex_xbar_new = NoncoherentXBar_new 500 1 1 1 8 1 False 2 False DrainRunning"

definition ex_xb_req :: xb_req where "ex_xb_req = \<lparr>xr_id = 7, xr_pkt = ex_queued, xr_delays = (0, 0), xr_port = 1, xr_taken = True\<rparr>"

definition ex_xb_resp :: xb_resp where
  "ex_xb_resp = \<lparr>xs_id = 7, xs_pkt = Packet_new (Request_phys 64 4 0 1 0) ReadResp, xs_delays = (0, 0), xs_port = 0\<rparr>"

lemma ex_xbar_runs:
  "case recvRangeChange 0 [RangeSize 0 256] ex_xbar_new of Inl _ \<Rightarrow> False | Inr (b, x) \<Rightarrow>
    (case xb_recvTimingReq 1000000 0 ex_xb_req x of Inl _ \<Rightarrow> False | Inr (d, dl, x1) \<Rightarrow> d = Some 0 \<and>
      (case xb_recvTimingResp 1000000 1000 ex_xb_resp x1 of Inl _ \<Rightarrow> False | Inr (d1, x2) \<Rightarrow> d1 = Some 1))"
  by code_simp


lemma ex_xbar_map: "case add_ranges 0 [RangeSize 0 256] map_empty of Inl _ \<Rightarrow> False | Inr m \<Rightarrow> tree m = [(RangeSize 0 256, 0)]"
  by code_simp

lemma ex_xbar_plain: "plain (RangeSize 0 256)" "plain (RangeSize 64 4)" "whole (RangeSize 64 4) (RangeSize 0 256)"
  by code_simp+

theorem findPort_decodes_witness:
  "\<exists>m m'. add_ranges 0 [RangeSize 0 256] map_empty = Inr m \<and>
    findPort (RangeSize 64 4) (ex_xbar_new\<lparr>portMap := m, gotAllAddrRanges := True\<rparr>) =
      Inr (0, ex_xbar_new\<lparr>portMap := m', gotAllAddrRanges := True\<rparr>)"
proof -
  obtain m where m: "add_ranges 0 [RangeSize 0 256] map_empty = Inr m" "tree m = [(RangeSize 0 256, 0)]"
    using ex_xbar_map by (auto split: sum.splits)
  have "map_wf m" using add_ranges_apart [OF map_empty_wf(1), of "[RangeSize 0 256]" 0] ex_xbar_plain(1) m(1)
    by (auto split: if_splits)
  let ?x = "ex_xbar_new\<lparr>portMap := m, gotAllAddrRanges := True\<rparr>"
  have "map_wf (portMap ?x)" "gotAllAddrRanges ?x" "useDefaultRange ?x \<longrightarrow> plain (defaultRange ?x)"
    using \<open>map_wf m\<close> by (simp_all add: ex_xbar_new_def NoncoherentXBar_new_def Let_def)
  from findPort_decodes [OF this(1) ex_xbar_plain(2) this(2,3)] m(2) ex_xbar_plain(3)
  obtain m' where "findPort (RangeSize 64 4) ?x = Inr (0, ?x\<lparr>portMap := m'\<rparr>)" by auto
  then show ?thesis using m(1) by (intro exI [of _ m] exI [of _ m']) simp
qed

text \<open>A crossbar with a default port and a default range, which has heard from its other port.\<close>

definition ex_default_xbar :: XBar where
  "ex_default_xbar = (NoncoherentXBar_new 500 1 1 1 8 1 True 2 True DrainRunning)\<lparr>gotAddrRanges := [True, False]\<rparr>"

theorem range_change_exact_witness:
  "(\<exists>x. recvRangeChange 0 [RangeSize 0 256] ex_xbar_new = Inr (True, x) \<and> decode (portMap x) 64 = Some 0 \<and> decode (portMap x) 256 = None) \<and>
   recvRangeChange 1 [RangeSize 0 256, RangeSize 256 256] ex_default_xbar = Inl FatalError"
proof
  have f: "ranges_apart [RangeSize 0 256]" "decode (portMap ex_xbar_new) = (\<lambda>_. None)" "map_wf (portMap ex_xbar_new)"
    "0 \<noteq> defaultPortID ex_xbar_new" "nat 0 < length (gotAddrRanges ex_xbar_new)" "\<not> useDefaultRange ex_xbar_new"
    "list_all (\<lambda>g. g) ((gotAddrRanges ex_xbar_new)[nat 0 := True])" "\<not> gotAllAddrRanges ex_xbar_new"
    by (simp_all add: ranges_apart_def ex_xbar_new_def NoncoherentXBar_new_def Let_def map_empty_wf InvalidPortID_def)
  have c: "contains (RangeSize 0 256) 64" "\<not> contains (RangeSize 0 256) 256" by code_simp+
  have w: "without_port 0 (\<lambda>_. None) = (\<lambda>_. None)" by (simp add: without_port_def)
  have ok: "if 0 = defaultPortID ex_xbar_new then useDefaultRange ex_xbar_new \<longrightarrow> length [RangeSize 0 256] = 1
      else ranges_apart [RangeSize 0 256] \<and>
        (\<forall>r \<in> set [RangeSize 0 256]. \<forall>a. contains r a \<longrightarrow> without_port 0 (decode (portMap ex_xbar_new)) a = None)"
    using f w by simp
  have h: "\<forall>r \<in> set [RangeSize 0 256]. plain r" "(0 :: PortID) \<le> 0"
    "useDefaultRange ex_xbar_new \<longrightarrow> 0 \<le> defaultPortID ex_xbar_new \<and> nat (defaultPortID ex_xbar_new) < length (gotAddrRanges ex_xbar_new)"
    "useDefaultRange ex_xbar_new \<and> port_at (gotAddrRanges ex_xbar_new) (defaultPortID ex_xbar_new) = Inr True \<longrightarrow> plain (defaultRange ex_xbar_new)"
    "gotAllAddrRanges ex_xbar_new \<longrightarrow> list_all (\<lambda>g. g) (gotAddrRanges ex_xbar_new)"
    using ex_xbar_plain(1) f by simp_all
  obtain m x where m: "decode m = (\<lambda>a. if \<exists>r \<in> set [RangeSize 0 256]. contains r a then Some 0 else without_port 0 (decode (portMap ex_xbar_new)) a)"
    "recvRangeChange 0 [RangeSize 0 256] ex_xbar_new = Inr (True, x)" "portMap x = m"
    using range_change_exact [OF f(3) h(1,2) f(5) h(3-5), unfolded if_P [OF ok]] f(4-8) by (auto simp: Let_def)
  have "decode (portMap x) 64 = Some 0 \<and> decode (portMap x) 256 = None" unfolding m(3) m(1) f(2) w using c by simp
  then show "\<exists>x. recvRangeChange 0 [RangeSize 0 256] ex_xbar_new = Inr (True, x) \<and> decode (portMap x) 64 = Some 0 \<and> decode (portMap x) 256 = None"
    using m(2) by blast
next
  let ?x = ex_default_xbar and ?rs = "[RangeSize 0 256, RangeSize 256 256]"
  have f: "map_wf (portMap ?x)" "\<forall>r \<in> set ?rs. plain r" "(0 :: PortID) \<le> 1" "nat 1 < length (gotAddrRanges ?x)"
    "useDefaultRange ?x \<longrightarrow> 0 \<le> defaultPortID ?x \<and> nat (defaultPortID ?x) < length (gotAddrRanges ?x)"
    "useDefaultRange ?x \<and> port_at (gotAddrRanges ?x) (defaultPortID ?x) = Inr True \<longrightarrow> plain (defaultRange ?x)"
    "gotAllAddrRanges ?x \<longrightarrow> list_all (\<lambda>g. g) (gotAddrRanges ?x)" "defaultPortID ?x = 1" "useDefaultRange ?x"
    by (simp_all add: ex_default_xbar_def NoncoherentXBar_new_def Let_def map_empty_wf port_at_def vec_at_def RangeSize_def
        AddrRange_simple_def plain_def interleaved_def range_valid_def)
  from range_change_exact [OF f(1-7)] f(8,9) show "recvRangeChange 1 ?rs ?x = Inl FatalError" by simp
qed

end
