(* ===== verification/Snoop_Filter.thy ===== *)
theory Snoop_Filter
  imports XBar_Noncoherent Cache_Base "HOL-Library.AList"
begin

text \<open>
  The snoop filter of a coherent crossbar, from \<^verbatim>\<open>src/mem/snoop_filter.hh\<close> and \<^verbatim>\<open>src/mem/snoop_filter.cc\<close>: for each line above the
  crossbar, the ports that have asked for it and those that may hold it, as masks of 64 bits. The hash map is an association
  list and an iterator into it is the address it points to. The environment of the filter is described by the copies the
  ports hold and by the requests they have outstanding; the filter covers both.
\<close>

section \<open>State\<close>

type_synonym SnoopMask = u64

record SnoopItem =
  si_requested :: SnoopMask
  si_holder :: SnoopMask

record SnoopPort =
  sp_id :: PortID
  sp_snooping :: bool

record SnoopFilter =
  cachedLocations :: "(Addr \<times> SnoopItem) list"
  reqLookupResult :: "Addr option"
  retryItem :: SnoopItem
  sf_ports :: "SnoopPort list"
  localSlavePortIds :: "PortID list"
  sf_linesize :: u32
  sf_lookupLatency :: u64
  maxEntryCount :: u32
  totRequests :: nat
  hitSingleRequests :: nat
  hitMultiRequests :: nat
  totSnoops :: nat
  hitSingleSnoops :: nat
  hitMultiSnoops :: nat

definition no_item :: SnoopItem where "no_item = \<lparr>si_requested = 0, si_holder = 0\<rparr>"

definition SnoopFilter_new :: "u32 \<Rightarrow> u64 \<Rightarrow> u64 \<Rightarrow> SnoopFilter res" where
  "SnoopFilter_new line_size latency max_capacity =
     (if line_size = 0 then fail DivisionByZero
      else ok \<lparr>cachedLocations = [], reqLookupResult = None, retryItem = no_item, sf_ports = [], localSlavePortIds = [],
        sf_linesize = line_size, sf_lookupLatency = latency, maxEntryCount = ucast (max_capacity div ucast line_size),
        totRequests = 0, hitSingleRequests = 0, hitMultiRequests = 0, totSnoops = 0, hitSingleSnoops = 0, hitMultiSnoops = 0\<rparr>)"

text \<open>Ports that snoop get the bits of the mask in turn.\<close>

definition resize_ids :: "nat \<Rightarrow> PortID list \<Rightarrow> PortID list" where
  "resize_ids n ids = take n ids @ replicate (n - length ids) InvalidPortID"

fun add_ports :: "SnoopPort list \<Rightarrow> PortID \<Rightarrow> SnoopFilter \<Rightarrow> (PortID \<times> SnoopFilter) res" where
  "add_ports [] i s = ok (i, s)"
| "add_ports (p # ps) i s =
     (if sp_snooping p then
        bindR (port_at (localSlavePortIds s) (sp_id p)) (\<lambda>_.
        add_ports ps (i + 1) (s\<lparr>sf_ports := sf_ports s @ [p], localSlavePortIds := (localSlavePortIds s)[nat (sp_id p) := i]\<rparr>))
      else add_ports ps i s)"

definition setSlavePorts :: "SnoopPort list \<Rightarrow> SnoopFilter \<Rightarrow> SnoopFilter res" where
  "setSlavePorts ports s =
     bindR (add_ports ports 0 (s\<lparr>localSlavePortIds := resize_ids (length ports) (localSlavePortIds s)\<rparr>)) (\<lambda>(i, s1).
     if i > 64 then fail FatalError else ok s1)"

section \<open>Masks of ports\<close>

definition portToMask :: "SnoopPort \<Rightarrow> SnoopFilter \<Rightarrow> SnoopMask res" where
  "portToMask p s =
     assertR (sp_id p \<noteq> InvalidPortID)
     (if \<not> sp_snooping p then ok 0
      else bindR (port_at (localSlavePortIds s) (sp_id p)) (\<lambda>k.
           if 0 \<le> k \<and> k < 64 then ok (push_bit (nat k) 1) else fail OutOfRange))"

fun select_ports :: "SnoopMask \<Rightarrow> SnoopPort list \<Rightarrow> SnoopFilter \<Rightarrow> SnoopPort list res" where
  "select_ports m [] s = ok []"
| "select_ports m (p # ps) s =
     bindR (portToMask p s) (\<lambda>k. bindR (select_ports m ps s) (\<lambda>qs. ok (if m AND k \<noteq> 0 then p # qs else qs)))"

definition maskToPortList :: "SnoopMask \<Rightarrow> SnoopFilter \<Rightarrow> SnoopPort list res" where
  "maskToPortList m s = select_ports m (sf_ports s) s"

definition snoopAll :: "SnoopFilter \<Rightarrow> SnoopPort list \<times> u64" where "snoopAll s = (sf_ports s, sf_lookupLatency s)"

definition snoopSelected :: "SnoopPort list \<Rightarrow> SnoopFilter \<Rightarrow> SnoopPort list \<times> u64" where
  "snoopSelected ps s = (ps, sf_lookupLatency s)"

definition snoopDown :: "SnoopFilter \<Rightarrow> SnoopPort list \<times> u64" where "snoopDown s = ([], sf_lookupLatency s)"

section \<open>Entries\<close>

definition put_item :: "Addr \<Rightarrow> SnoopItem \<Rightarrow> SnoopFilter \<Rightarrow> SnoopFilter" where
  "put_item a i s = s\<lparr>cachedLocations := AList.update a i (cachedLocations s)\<rparr>"

definition eraseIfNullEntry :: "Addr \<Rightarrow> SnoopFilter \<Rightarrow> SnoopFilter" where
  "eraseIfNullEntry a s =
     (case map_of (cachedLocations s) a of
       None \<Rightarrow> s
     | Some i \<Rightarrow> if si_requested i OR si_holder i = 0 then s\<lparr>cachedLocations := AList.delete a (cachedLocations s)\<rparr> else s)"

definition sf_line :: "Packet \<Rightarrow> SnoopFilter \<Rightarrow> Addr res" where
  "sf_line pkt s = bindR (getBlockAddr (sf_linesize s) pkt) (\<lambda>a. bindR (pkt_isSecure pkt) (\<lambda>b. ok (if b then a OR 1 else a)))"

definition isBlockCached :: "Packet \<Rightarrow> bool" where "isBlockCached p = isSet (pflags p) BLOCK_CACHED"

definition count_request :: "bool \<Rightarrow> SnoopMask \<Rightarrow> SnoopFilter \<Rightarrow> SnoopFilter" where
  "count_request hit m s =
     (let s1 = s\<lparr>totRequests := totRequests s + 1\<rparr> in
      if \<not> hit then s1
      else if isPow2 m then s1\<lparr>hitSingleRequests := hitSingleRequests s1 + 1\<rparr>
      else s1\<lparr>hitMultiRequests := hitMultiRequests s1 + 1\<rparr>)"

definition count_snoop :: "SnoopMask \<Rightarrow> SnoopFilter \<Rightarrow> SnoopFilter" where
  "count_snoop m s =
     (let s1 = s\<lparr>totSnoops := totSnoops s + 1\<rparr> in
      if isPow2 m then s1\<lparr>hitSingleSnoops := hitSingleSnoops s1 + 1\<rparr> else s1\<lparr>hitMultiSnoops := hitMultiSnoops s1 + 1\<rparr>)"

section \<open>Requests\<close>

definition request_item :: "Packet \<Rightarrow> SnoopMask \<Rightarrow> SnoopItem \<Rightarrow> SnoopItem res" where
  "request_item pkt m i =
     (if needsResponse (pcmd pkt) then
        if \<not> cacheResponding pkt then
          if si_requested i AND m \<noteq> 0 then fail Panicked else ok (i\<lparr>si_requested := si_requested i OR m\<rparr>)
        else if si_holder i AND m = 0 then fail Panicked else ok i
      else assertR (isEviction (pcmd pkt))
        (if si_holder i AND m = 0 then fail Panicked
         else if \<not> isBlockCached pkt then ok (i\<lparr>si_holder := si_holder i AND NOT m\<rparr>) else ok i))"

definition sf_allocates :: "Packet \<Rightarrow> SnoopPort \<Rightarrow> bool" where
  "sf_allocates pkt p \<longleftrightarrow> \<not> isUncacheable (preq pkt) \<and> sp_snooping p \<and> fromCache (pcmd pkt)"

definition lookupRequest :: "Packet \<Rightarrow> SnoopPort \<Rightarrow> SnoopFilter \<Rightarrow> ((SnoopPort list \<times> u64) \<times> SnoopFilter) res" where
  "lookupRequest pkt p s =
     bindR (sf_line pkt s) (\<lambda>a.
     bindR (portToMask p s) (\<lambda>req_port.
     (let found = map_of (cachedLocations s) a in
      if found = None \<and> \<not> sf_allocates pkt p then ok (snoopDown s, s\<lparr>reqLookupResult := None\<rparr>)
      else
        (let item = (case found of None \<Rightarrow> no_item | Some i \<Rightarrow> i); interested = si_holder item OR si_requested item;
             s1 = count_request (found \<noteq> None) interested (put_item a item (s\<lparr>reqLookupResult := Some a, retryItem := item\<rparr>)) in
         bindR (if \<not> sf_allocates pkt p then ok item else request_item pkt req_port item) (\<lambda>item1.
         bindR (maskToPortList (interested AND NOT req_port) s1) (\<lambda>ps. ok (snoopSelected ps s1, put_item a item1 s1)))))))"

definition finishRequest :: "bool \<Rightarrow> Addr \<Rightarrow> bool \<Rightarrow> SnoopFilter \<Rightarrow> SnoopFilter res" where
  "finishRequest will_retry addr is_secure s =
     (case reqLookupResult s of
       None \<Rightarrow> ok s
     | Some a \<Rightarrow>
         if map_of (cachedLocations s) a = None then fail NullPointer
         else assertR (a = (let l = addr AND NOT (ucast (sf_linesize s - 1)) in if is_secure then l OR 1 else l))
           (ok (eraseIfNullEntry a (if will_retry then put_item a (retryItem s) s else s))))"

section \<open>Snoops and responses\<close>

definition lookupSnoop :: "Packet \<Rightarrow> SnoopFilter \<Rightarrow> ((SnoopPort list \<times> u64) \<times> SnoopFilter) res" where
  "lookupSnoop pkt s =
     assertR (isRequest (pcmd pkt))
     (bindR (sf_line pkt s) (\<lambda>a.
      (case map_of (cachedLocations s) a of
        None \<Rightarrow> if unat (maxEntryCount s) \<le> length (cachedLocations s) then fail Panicked else ok (snoopDown s, s)
      | Some item \<Rightarrow>
          (let interested = si_holder item OR si_requested item; s1 = count_snoop interested s in
           assertR (isWriteback (pcmd pkt) \<or> isUncacheable (preq pkt) \<or> isInvalidate (pcmd pkt) = needsWritable (pcmd pkt) \<or>
             isCacheMaintenance (preq pkt))
           (let item1 = (if isInvalidate (pcmd pkt) \<and> si_requested item = 0 then item\<lparr>si_holder := 0\<rparr> else item) in
            bindR (maskToPortList interested s1) (\<lambda>ps. ok (snoopSelected ps s1, eraseIfNullEntry a (put_item a item1 s1))))))))"

definition updateSnoopResponse :: "Packet \<Rightarrow> SnoopPort \<Rightarrow> SnoopPort \<Rightarrow> SnoopFilter \<Rightarrow> SnoopFilter res" where
  "updateSnoopResponse pkt rsp req s =
     assertR (isResponse (pcmd pkt)) (assertR (cacheResponding pkt)
     (if isUncacheable (preq pkt) \<or> \<not> sp_snooping req then ok s
      else
        bindR (sf_line pkt s) (\<lambda>a.
        bindR (portToMask rsp s) (\<lambda>rsp_mask.
        bindR (portToMask req s) (\<lambda>req_mask.
        (let item = (case map_of (cachedLocations s) a of None \<Rightarrow> no_item | Some i \<Rightarrow> i) in
         if si_holder item AND rsp_mask = 0 then fail Panicked
         else if si_requested item AND req_mask = 0 then fail Panicked
         else
           (let h = (if \<not> hasSharers pkt then 0 else si_holder item) in
            assertR (\<not> isWriteback (pcmd pkt))
            (let item1 = \<lparr>si_requested = si_requested item AND NOT req_mask, si_holder = h OR req_mask\<rparr> in
             assertR (si_requested item1 OR si_holder item1 \<noteq> 0) (ok (put_item a item1 s))))))))))"

definition updateSnoopForward :: "Packet \<Rightarrow> SnoopFilter \<Rightarrow> SnoopFilter res" where
  "updateSnoopForward pkt s =
     assertR (isResponse (pcmd pkt)) (assertR (cacheResponding pkt)
     (bindR (sf_line pkt s) (\<lambda>a.
      (case map_of (cachedLocations s) a of
        None \<Rightarrow> ok s
      | Some item \<Rightarrow> ok (eraseIfNullEntry a (put_item a (if \<not> hasSharers pkt then item\<lparr>si_holder := 0\<rparr> else item) s))))))"

definition updateResponse :: "Packet \<Rightarrow> SnoopPort \<Rightarrow> SnoopFilter \<Rightarrow> SnoopFilter res" where
  "updateResponse pkt p s =
     assertR (isResponse (pcmd pkt))
     (if isUncacheable (preq pkt) \<or> \<not> sp_snooping p then ok s
      else
        bindR (sf_line pkt s) (\<lambda>a.
        (case map_of (cachedLocations s) a of
          None \<Rightarrow> ok s
        | Some item \<Rightarrow>
            bindR (portToMask p s) (\<lambda>m.
            if si_requested item AND m = 0 then fail Panicked
            else
              (let item1 = item\<lparr>si_requested := si_requested item AND NOT m\<rparr> in
               if isCacheMaintenance (preq pkt) then
                 ok (eraseIfNullEntry a (put_item a
                   (if isInvalidate (pcmd pkt) then item1\<lparr>si_holder := si_holder item1 AND NOT m\<rparr> else item1) s))
               else
                 (let item2 = item1\<lparr>si_holder := si_holder item1 OR m\<rparr> in
                  assertR (si_holder item2 OR si_requested item2 \<noteq> 0) (ok (put_item a item2 s))))))))"

section \<open>Bits of the masks\<close>

lemma and_one_bit: "k < 64 \<Longrightarrow> (m :: u64) AND 2 ^ k = 0 \<longleftrightarrow> \<not> bit m k"
  by (auto simp: bit_eq_iff [of "m AND 2 ^ k" 0] bit_and_iff bit_exp_iff)

lemma bit_or_one: "k < 64 \<Longrightarrow> j < 64 \<Longrightarrow> bit ((m :: u64) OR 2 ^ k) j \<longleftrightarrow> bit m j \<or> j = k"
  by (auto simp: bit_or_iff bit_exp_iff)

lemma bit_clear_one: "k < 64 \<Longrightarrow> j < 64 \<Longrightarrow> bit ((m :: u64) AND NOT (2 ^ k)) j \<longleftrightarrow> bit m j \<and> j \<noteq> k"
  by (auto simp: bit_and_iff bit_not_iff bit_exp_iff)

lemma or_no_bits: "(m :: u64) OR n = 0 \<longleftrightarrow> m = 0 \<and> n = 0"
  by (auto simp: or_eq_0_iff)

definition slot :: "SnoopFilter \<Rightarrow> SnoopPort \<Rightarrow> nat" where
  "slot s p = nat (localSlavePortIds s ! nat (sp_id p))"

text \<open>Every snooping port has a bit of its own.\<close>

definition ports_ok :: "SnoopFilter \<Rightarrow> bool" where
  "ports_ok s \<longleftrightarrow> length (sf_ports s) \<le> 64 \<and> (\<forall>k < length (sf_ports s). sp_snooping (sf_ports s ! k) \<and> 0 \<le> sp_id (sf_ports s ! k) \<and>
     nat (sp_id (sf_ports s ! k)) < length (localSlavePortIds s) \<and> localSlavePortIds s ! nat (sp_id (sf_ports s ! k)) = int k)"

lemma port_slot:
  assumes "ports_ok s" "p \<in> set (sf_ports s)"
  shows "slot s p < length (sf_ports s)" "slot s p < 64" "sf_ports s ! slot s p = p" "portToMask p s = Inr (2 ^ slot s p)"
    "sp_snooping p"
proof -
  obtain k where k: "k < length (sf_ports s)" "sf_ports s ! k = p" using assms(2) by (auto simp: in_set_conv_nth)
  then have p: "sp_snooping p" "0 \<le> sp_id p" "nat (sp_id p) < length (localSlavePortIds s)" "localSlavePortIds s ! nat (sp_id p) = int k"
    "length (sf_ports s) \<le> 64" using assms(1) by (auto simp: ports_ok_def)
  then have "slot s p = k" by (simp add: slot_def)
  then show "slot s p < length (sf_ports s)" "slot s p < 64" "sf_ports s ! slot s p = p" "sp_snooping p" using k p(1,5) by simp_all
  show "portToMask p s = Inr (2 ^ slot s p)" using p k by (simp add: portToMask_def port_at_def InvalidPortID_def assertR_def slot_def)
qed

lemma slot_inj: "ports_ok s \<Longrightarrow> p \<in> set (sf_ports s) \<Longrightarrow> q \<in> set (sf_ports s) \<Longrightarrow> slot s p = slot s q \<longleftrightarrow> p = q"
  using port_slot(3) by metis

lemma selected_ports:
  assumes "ports_ok s"
  shows "maskToPortList m s = Inr (filter (\<lambda>p. bit m (slot s p)) (sf_ports s))"
proof -
  have "select_ports m ps s = Inr (filter (\<lambda>p. bit m (slot s p)) ps)" if "set ps \<subseteq> set (sf_ports s)" for ps
    using that by (induction ps) (auto simp: port_slot(4) [OF assms] and_one_bit port_slot(2) [OF assms])
  then show ?thesis by (simp add: maskToPortList_def)
qed

text \<open>What stays the same.\<close>

definition same_ports :: "SnoopFilter \<Rightarrow> SnoopFilter \<Rightarrow> bool" where
  "same_ports s s' \<longleftrightarrow> sf_ports s' = sf_ports s \<and> localSlavePortIds s' = localSlavePortIds s \<and> sf_linesize s' = sf_linesize s"

lemma same_ports_slot: "same_ports s s' \<Longrightarrow> slot s' = slot s" "same_ports s s' \<Longrightarrow> ports_ok s' = ports_ok s"
  "same_ports s s' \<Longrightarrow> set (sf_ports s') = set (sf_ports s)"
  by (auto simp: same_ports_def slot_def ports_ok_def fun_eq_iff)

lemma count_same [simp]:
  "cachedLocations (count_request b m s) = cachedLocations s" "cachedLocations (count_snoop m s) = cachedLocations s"
  "sf_ports (count_request b m s) = sf_ports s" "sf_ports (count_snoop m s) = sf_ports s"
  "localSlavePortIds (count_request b m s) = localSlavePortIds s" "localSlavePortIds (count_snoop m s) = localSlavePortIds s"
  "sf_linesize (count_request b m s) = sf_linesize s" "sf_linesize (count_snoop m s) = sf_linesize s"
  "reqLookupResult (count_request b m s) = reqLookupResult s" "retryItem (count_request b m s) = retryItem s"
  by (simp_all add: count_request_def count_snoop_def Let_def)

lemma put_item_same [simp]:
  "map_of (cachedLocations (put_item a i s)) = (map_of (cachedLocations s))(a \<mapsto> i)" "sf_ports (put_item a i s) = sf_ports s"
  "localSlavePortIds (put_item a i s) = localSlavePortIds s" "sf_linesize (put_item a i s) = sf_linesize s"
  "reqLookupResult (put_item a i s) = reqLookupResult s" "retryItem (put_item a i s) = retryItem s"
  by (simp_all add: put_item_def update_conv')

lemma erase_same [simp]:
  "map_of (cachedLocations (eraseIfNullEntry a s)) = (case map_of (cachedLocations s) a of None \<Rightarrow> map_of (cachedLocations s)
     | Some i \<Rightarrow> if si_requested i OR si_holder i = 0 then (map_of (cachedLocations s))(a := None) else map_of (cachedLocations s))"
  "sf_ports (eraseIfNullEntry a s) = sf_ports s" "localSlavePortIds (eraseIfNullEntry a s) = localSlavePortIds s"
  "sf_linesize (eraseIfNullEntry a s) = sf_linesize s"
  by (simp_all add: eraseIfNullEntry_def delete_conv' split: option.split)

definition item_at :: "SnoopFilter \<Rightarrow> Addr \<Rightarrow> SnoopItem" where
  "item_at s a = (case map_of (cachedLocations s) a of None \<Rightarrow> no_item | Some i \<Rightarrow> i)"

definition null_item :: "SnoopItem \<Rightarrow> bool" where "null_item i \<longleftrightarrow> si_requested i OR si_holder i = 0"

text \<open>An operation replaces the entry of one line, or removes it if nobody is left in it.\<close>

definition set_line :: "Addr \<Rightarrow> SnoopItem \<Rightarrow> SnoopFilter \<Rightarrow> SnoopFilter \<Rightarrow> bool" where
  "set_line a i s s' \<longleftrightarrow> same_ports s s' \<and>
     map_of (cachedLocations s') = (map_of (cachedLocations s))(a := if null_item i then None else Some i)"

lemma null_no_item: "null_item i \<longleftrightarrow> i = no_item"
  by (cases i) (simp add: null_item_def no_item_def or_no_bits)

lemma set_line_item: "set_line a i s s' \<Longrightarrow> item_at s' b = (if b = a then i else item_at s b)"
  by (simp add: set_line_def item_at_def null_no_item)

section \<open>What the operations do to their line\<close>

definition no_null :: "SnoopFilter \<Rightarrow> bool" where
  "no_null s \<longleftrightarrow> (\<forall>a i. map_of (cachedLocations s) a = Some i \<longrightarrow> \<not> null_item i)"

lemma set_line_no_null: "no_null s \<Longrightarrow> set_line a i s s' \<Longrightarrow> no_null s'"
  by (auto simp: no_null_def set_line_def split: if_splits)

lemma item_null: "no_null s \<Longrightarrow> null_item (item_at s a) \<longleftrightarrow> map_of (cachedLocations s) a = None"
  by (auto simp: no_null_def item_at_def null_no_item split: option.split)

lemma set_line_same: "no_null s \<Longrightarrow> same_ports s s' \<Longrightarrow> map_of (cachedLocations s') = map_of (cachedLocations s) \<Longrightarrow> set_line a (item_at s a) s s'"
  by (auto simp: set_line_def item_null fun_eq_iff) (auto simp: item_at_def)

lemma erase_put_line:
  assumes "same_ports s t" "map_of (cachedLocations t) = (map_of (cachedLocations s))(a := x)"
  shows "set_line a i s (eraseIfNullEntry a (put_item a i t))"
  using assms by (simp add: set_line_def same_ports_def null_item_def)

lemma put_line: "\<not> null_item i \<Longrightarrow> set_line a i s (put_item a i s)"
  by (simp add: set_line_def same_ports_def)

definition interested :: "SnoopItem \<Rightarrow> SnoopMask" where "interested i = si_holder i OR si_requested i"

definition snooped :: "SnoopFilter \<Rightarrow> SnoopMask \<Rightarrow> SnoopPort list" where
  "snooped s m = filter (\<lambda>p. bit m (slot s p)) (sf_ports s)"

text \<open>The crossbar looks a request up, sends it, and says whether it will come again.\<close>

definition sf_request :: "Packet \<Rightarrow> SnoopPort \<Rightarrow> bool \<Rightarrow> SnoopFilter \<Rightarrow> ((SnoopPort list \<times> u64) \<times> SnoopFilter) res" where
  "sf_request pkt p retry s =
     bindR (lookupRequest pkt p s) (\<lambda>(r, s1).
     bindR (getAddr pkt) (\<lambda>addr. bindR (pkt_isSecure pkt) (\<lambda>b.
     bindR (finishRequest retry addr b s1) (\<lambda>s2. ok (r, s2)))))"

definition asked_item :: "Packet \<Rightarrow> SnoopPort \<Rightarrow> SnoopMask \<Rightarrow> SnoopItem \<Rightarrow> SnoopItem res" where
  "asked_item pkt p m i = (if sf_allocates pkt p then request_item pkt m i else ok i)"

lemma request_effect:
  assumes "no_null s" "ports_ok s" "sf_line pkt s = Inr a" "portToMask p s = Inr m"
  shows "case asked_item pkt p m (item_at s a) of
      Inl e \<Rightarrow> sf_request pkt p retry s = Inl e
    | Inr i \<Rightarrow> \<exists>s'. sf_request pkt p retry s = Inr ((snooped s (interested (item_at s a) AND NOT m), sf_lookupLatency s), s') \<and>
        set_line a (if retry then item_at s a else i) s s'"
proof -
  let ?found = "map_of (cachedLocations s) a" and ?item = "item_at s a"
  have v: "getAddr pkt = Inr (paddr pkt)" "pkt_isSecure pkt = Inr (pIsSecure pkt)"
    "a = (let l = paddr pkt AND NOT (ucast (sf_linesize s - 1)) in if pIsSecure pkt then l OR 1 else l)"
    using assms(3) by (auto simp: sf_line_def getBlockAddr_def getAddr_def pkt_isSecure_def bindR_eq_Inr assertR_eq_Inr Let_def)
  show ?thesis
  proof (cases "?found = None \<and> \<not> sf_allocates pkt p")
    case True
    let ?s = "s\<lparr>reqLookupResult := None\<rparr>"
    have i: "?item = no_item" "asked_item pkt p m ?item = Inr ?item" using True by (simp_all add: item_at_def asked_item_def)
    have "sf_request pkt p retry s = Inr (snoopDown s, ?s)"
      using True assms(3,4) v(1,2) by (simp add: sf_request_def lookupRequest_def finishRequest_def Let_def)
    moreover have "snoopDown s = (snooped s (interested ?item AND NOT m), sf_lookupLatency s)"
      using i(1) by (simp add: snoopDown_def snooped_def interested_def no_item_def)
    moreover have "set_line a ?item s ?s" using assms(1) by (rule set_line_same) (simp_all add: same_ports_def)
    ultimately show ?thesis using i(2) by simp
  next
    case False
    let ?s = "count_request (?found \<noteq> None) (si_holder ?item OR si_requested ?item) (put_item a ?item (s\<lparr>reqLookupResult := Some a, retryItem := ?item\<rparr>))"
    have same: "same_ports s ?s" by (simp add: same_ports_def)
    have sel: "maskToPortList k ?s = Inr (snooped s k)" for k
      using selected_ports [of ?s k] assms(2) same_ports_slot [OF same] same by (simp add: same_ports_def snooped_def)
    have lat: "sf_lookupLatency ?s = sf_lookupLatency s" by (simp add: count_request_def put_item_def Let_def)
    have l: "lookupRequest pkt p s = bindR (asked_item pkt p m ?item) (\<lambda>i.
        ok ((snooped s (interested ?item AND NOT m), sf_lookupLatency s), put_item a i ?s))"
      using False assms(3,4) sel lat unfolding lookupRequest_def asked_item_def item_at_def Let_def interested_def snoopSelected_def
      by (simp only: bindR_simps if_False) (auto simp: interested_def intro!: arg_cong2 [of _ _ _ _ bindR])
    show ?thesis
    proof (cases "asked_item pkt p m ?item")
      case (Inl e)
      then show ?thesis using l by (simp add: sf_request_def)
    next
      case (Inr i)
      let ?t = "put_item a i ?s"
      have t: "reqLookupResult ?t = Some a" "map_of (cachedLocations ?t) = (map_of (cachedLocations s))(a \<mapsto> i)" "retryItem ?t = ?item"
        "sf_linesize ?t = sf_linesize s" by simp_all
      let ?s' = "eraseIfNullEntry a (if retry then put_item a (retryItem ?t) ?t else ?t)"
      have "finishRequest retry (paddr pkt) (pIsSecure pkt) ?t = Inr ?s'"
        unfolding finishRequest_def t(1,4) using v(3) t(2) by simp
      then have "sf_request pkt p retry s = Inr ((snooped s (interested ?item AND NOT m), sf_lookupLatency s), ?s')"
        using l Inr v(1,2) by (simp add: sf_request_def)
      moreover have "set_line a (if retry then ?item else i) s ?s'"
      proof (cases retry)
        case True
        have "same_ports s ?t" using same by (simp add: same_ports_def)
        from erase_put_line [OF this t(2)] show ?thesis using True t(3) by simp
      next
        case False
        have "set_line a i s (eraseIfNullEntry a ?t)" by (rule erase_put_line [OF same, of _ "Some ?item"]) simp
        then show ?thesis using False by simp
      qed
      ultimately show ?thesis using Inr by auto
    qed
  qed
qed

text \<open>The assertion on snoops that hit.\<close>

definition snoop_legal :: "Packet \<Rightarrow> bool" where
  "snoop_legal pkt \<longleftrightarrow> isWriteback (pcmd pkt) \<or> isUncacheable (preq pkt) \<or> isInvalidate (pcmd pkt) = needsWritable (pcmd pkt) \<or>
     isCacheMaintenance (preq pkt)"

lemma snoop_effect:
  assumes "no_null s" "ports_ok s" "sf_line pkt s = Inr a" "isRequest (pcmd pkt)"
    "\<not> null_item (item_at s a) \<longrightarrow> snoop_legal pkt"
    "null_item (item_at s a) \<longrightarrow> length (cachedLocations s) < unat (maxEntryCount s)"
  shows "\<exists>s'. lookupSnoop pkt s = Inr ((snooped s (interested (item_at s a)), sf_lookupLatency s), s') \<and>
    set_line a (if isInvalidate (pcmd pkt) \<and> si_requested (item_at s a) = 0 then (item_at s a)\<lparr>si_holder := 0\<rparr> else item_at s a) s s'"
proof (cases "map_of (cachedLocations s) a")
  case None
  then have i: "item_at s a = no_item" "null_item (item_at s a)" by (simp_all add: item_at_def null_no_item)
  then have "lookupSnoop pkt s = Inr (snoopDown s, s)" using None assms by (simp add: lookupSnoop_def)
  moreover have "snoopDown s = (snooped s (interested (item_at s a)), sf_lookupLatency s)"
    using i by (simp add: snoopDown_def snooped_def interested_def no_item_def)
  moreover have "set_line a (item_at s a) s s" using assms(1) by (rule set_line_same) (simp_all add: same_ports_def)
  ultimately show ?thesis using i by (simp add: no_item_def)
next
  case (Some item)
  let ?s = "count_snoop (si_holder item OR si_requested item) s"
  let ?item = "if isInvalidate (pcmd pkt) \<and> si_requested item = 0 then item\<lparr>si_holder := 0\<rparr> else item"
  have i: "item_at s a = item" using Some by (simp add: item_at_def)
  have same: "same_ports s ?s" by (simp add: same_ports_def)
  have sel: "maskToPortList k ?s = Inr (snooped s k)" for k
    using selected_ports [of ?s k] assms(2) same_ports_slot [OF same] same by (simp add: same_ports_def snooped_def)
  have lat: "sf_lookupLatency ?s = sf_lookupLatency s" by (simp add: count_snoop_def Let_def)
  have "snoop_legal pkt" using assms(1,5) Some i by (simp add: no_null_def)
  then have "lookupSnoop pkt s = Inr ((snooped s (interested item), sf_lookupLatency s), eraseIfNullEntry a (put_item a ?item ?s))"
    using Some assms(3,4) sel lat unfolding lookupSnoop_def Let_def interested_def snoopSelected_def snoop_legal_def by (simp add: assertR_def)
  moreover have "set_line a ?item s (eraseIfNullEntry a (put_item a ?item ?s))"
    by (rule erase_put_line [OF same, of _ "Some item"]) (use Some in \<open>simp add: fun_upd_idem\<close>)
  ultimately show ?thesis unfolding i by blast
qed

definition answered_item :: "Packet \<Rightarrow> SnoopMask \<Rightarrow> SnoopItem \<Rightarrow> SnoopItem" where
  "answered_item pkt m i = \<lparr>si_requested = si_requested i AND NOT m,
     si_holder = (if isCacheMaintenance (preq pkt) then (if isInvalidate (pcmd pkt) then si_holder i AND NOT m else si_holder i)
       else si_holder i OR m)\<rparr>"

lemma not_null_bit: "k < 64 \<Longrightarrow> bit (si_requested i) k \<or> bit (si_holder i) k \<Longrightarrow> \<not> null_item i"
  by (auto simp: null_item_def or_no_bits)

lemma item_upd: "i\<lparr>si_requested := r, si_holder := h\<rparr> = \<lparr>si_requested = r, si_holder = h\<rparr>"
  "i\<lparr>si_requested := r\<rparr> = \<lparr>si_requested = r, si_holder = si_holder i\<rparr>"
  by (cases i; simp)+

lemma response_effect:
  assumes "ports_ok s" "sf_line pkt s = Inr a" "isResponse (pcmd pkt)" "\<not> isUncacheable (preq pkt)"
    "p \<in> set (sf_ports s)" "bit (si_requested (item_at s a)) (slot s p)"
  shows "\<exists>s'. updateResponse pkt p s = Inr s' \<and> set_line a (answered_item pkt (2 ^ slot s p) (item_at s a)) s s'"
proof -
  obtain item where item: "map_of (cachedLocations s) a = Some item" "item_at s a = item"
    using assms(6) by (cases "map_of (cachedLocations s) a") (auto simp: item_at_def no_item_def)
  let ?m = "2 ^ slot s p :: u64" let ?item = "answered_item pkt ?m item"
  have p: "sp_snooping p" "portToMask p s = Inr ?m" "si_requested item AND ?m \<noteq> 0" "slot s p < 64"
    using port_slot [OF assms(1,5)] assms(6) item(2) by (simp_all add: and_one_bit)
  have erase: "set_line a ?item s (eraseIfNullEntry a (put_item a ?item s))"
    by (rule erase_put_line [of s s a "Some item"]) (use item(1) in \<open>simp_all add: same_ports_def fun_upd_idem\<close>)
  show ?thesis
  proof (cases "isCacheMaintenance (preq pkt)")
    case True
    have "updateResponse pkt p s = Inr (eraseIfNullEntry a (put_item a ?item s))"
      using True assms(2-4) item p by (simp add: updateResponse_def answered_item_def Let_def item_upd)
    then show ?thesis using erase item(2) by blast
  next
    case False
    have "bit (si_holder ?item) (slot s p)" using False p(4) by (simp add: answered_item_def bit_or_one)
    then have n: "\<not> null_item ?item" using not_null_bit [OF p(4)] by blast
    then have "updateResponse pkt p s = Inr (put_item a ?item s)"
      using False assms(2-4) item p by (simp add: updateResponse_def answered_item_def Let_def null_item_def or.commute item_upd)
    then show ?thesis using put_line [OF n] item(2) by blast
  qed
qed

definition transferred_item :: "Packet \<Rightarrow> SnoopMask \<Rightarrow> SnoopItem \<Rightarrow> SnoopItem" where
  "transferred_item pkt m i = \<lparr>si_requested = si_requested i AND NOT m, si_holder = (if \<not> hasSharers pkt then 0 else si_holder i) OR m\<rparr>"

lemma snoop_response_effect:
  assumes "ports_ok s" "sf_line pkt s = Inr a" "isResponse (pcmd pkt)" "cacheResponding pkt" "\<not> isWriteback (pcmd pkt)"
    "\<not> isUncacheable (preq pkt)" "rsp \<in> set (sf_ports s)" "req \<in> set (sf_ports s)"
    "bit (si_holder (item_at s a)) (slot s rsp)" "bit (si_requested (item_at s a)) (slot s req)"
  shows "\<exists>s'. updateSnoopResponse pkt rsp req s = Inr s' \<and> set_line a (transferred_item pkt (2 ^ slot s req) (item_at s a)) s s'"
proof -
  let ?m = "2 ^ slot s req :: u64" let ?item = "transferred_item pkt ?m (item_at s a)"
  have p: "sp_snooping req" "portToMask req s = Inr ?m" "portToMask rsp s = Inr (2 ^ slot s rsp)" "slot s req < 64"
    "si_requested (item_at s a) AND ?m \<noteq> 0" "si_holder (item_at s a) AND 2 ^ slot s rsp \<noteq> 0"
    using port_slot [OF assms(1,7)] port_slot [OF assms(1,8)] assms(9,10) by (simp_all add: and_one_bit)
  have "bit (si_holder ?item) (slot s req)" using p(4) by (simp add: transferred_item_def bit_or_one)
  then have n: "\<not> null_item ?item" using not_null_bit [OF p(4)] by blast
  then have "updateSnoopResponse pkt rsp req s = Inr (put_item a ?item s)"
    using assms(2-6) p unfolding updateSnoopResponse_def transferred_item_def null_item_def item_at_def Let_def by simp
  then show ?thesis using put_line [OF n] by blast
qed

lemma forward_effect:
  assumes "no_null s" "sf_line pkt s = Inr a" "isResponse (pcmd pkt)" "cacheResponding pkt"
  shows "\<exists>s'. updateSnoopForward pkt s = Inr s' \<and>
    set_line a (if \<not> hasSharers pkt then (item_at s a)\<lparr>si_holder := 0\<rparr> else item_at s a) s s'"
proof (cases "map_of (cachedLocations s) a")
  case None
  then have i: "item_at s a = no_item" by (simp add: item_at_def)
  have "set_line a (item_at s a) s s" using assms(1) by (rule set_line_same) (simp_all add: same_ports_def)
  then show ?thesis using None assms i by (simp add: updateSnoopForward_def no_item_def)
next
  case (Some item)
  let ?item = "if \<not> hasSharers pkt then item\<lparr>si_holder := 0\<rparr> else item"
  have "set_line a ?item s (eraseIfNullEntry a (put_item a ?item s))"
    by (rule erase_put_line [of s s a "Some item"]) (use Some in \<open>simp_all add: same_ports_def fun_upd_idem\<close>)
  moreover have "updateSnoopForward pkt s = Inr (eraseIfNullEntry a (put_item a ?item s))" using Some assms by (simp add: updateSnoopForward_def)
  moreover have "item_at s a = item" using Some by (simp add: item_at_def)
  ultimately show ?thesis by blast
qed

section \<open>The filter and the caches above it\<close>

text \<open>
  \<open>C a\<close> are the ports above which there may be a copy of line \<open>a\<close>, \<open>Q a\<close> those with an outstanding request for it. A cache
  may lose a copy at any time. It asks only for lines it has not asked for, and evicts only lines it has.
\<close>

definition may_request :: "Packet \<Rightarrow> SnoopPort \<Rightarrow> SnoopFilter \<Rightarrow> SnoopPort set \<Rightarrow> SnoopPort set \<Rightarrow> bool" where
  "may_request pkt p s c q \<longleftrightarrow> sp_id p \<noteq> InvalidPortID \<and> (sp_snooping p \<longrightarrow> p \<in> set (sf_ports s)) \<and>
     (sf_allocates pkt p \<longrightarrow>
       (if needsResponse (pcmd pkt) then (if cacheResponding pkt then p \<in> c else p \<notin> q) else isEviction (pcmd pkt) \<and> p \<in> c))"

definition copies_after :: "Packet \<Rightarrow> SnoopPort \<Rightarrow> bool \<Rightarrow> SnoopPort set \<Rightarrow> SnoopPort set" where
  "copies_after pkt p retry c =
     (if sf_allocates pkt p \<and> \<not> retry \<and> \<not> needsResponse (pcmd pkt) \<and> \<not> isBlockCached pkt then c - {p} else c)"

definition asked_after :: "Packet \<Rightarrow> SnoopPort \<Rightarrow> bool \<Rightarrow> SnoopPort set \<Rightarrow> SnoopPort set" where
  "asked_after pkt p retry q =
     (if sf_allocates pkt p \<and> \<not> retry \<and> needsResponse (pcmd pkt) \<and> \<not> cacheResponding pkt then insert p q else q)"

definition copies_answered :: "Packet \<Rightarrow> SnoopPort \<Rightarrow> SnoopPort set \<Rightarrow> SnoopPort set" where
  "copies_answered pkt p c =
     (if isCacheMaintenance (preq pkt) then (if isInvalidate (pcmd pkt) then c - {p} else c) else insert p c)"

inductive sf_run :: "SnoopFilter \<Rightarrow> (Addr \<Rightarrow> SnoopPort set) \<Rightarrow> (Addr \<Rightarrow> SnoopPort set) \<Rightarrow> bool" where
  sf_start: "SnoopFilter_new line latency capacity = Inr s0 \<Longrightarrow> map sp_id ports = map int [0..<length ports] \<Longrightarrow>
    setSlavePorts ports s0 = Inr s \<Longrightarrow> sf_run s (\<lambda>_. {}) (\<lambda>_. {})"
| sf_req: "sf_run s C Q \<Longrightarrow> sf_line pkt s = Inr a \<Longrightarrow> may_request pkt p s (C a) (Q a) \<Longrightarrow> sf_request pkt p retry s = Inr (r, s') \<Longrightarrow>
    sf_run s' (C(a := copies_after pkt p retry (C a))) (Q(a := asked_after pkt p retry (Q a)))"
| sf_snoop: "sf_run s C Q \<Longrightarrow> sf_line pkt s = Inr a \<Longrightarrow> lookupSnoop pkt s = Inr (r, s') \<Longrightarrow>
    sf_run s' (if isInvalidate (pcmd pkt) \<and> Q a = {} then C(a := {}) else C) Q"
| sf_transfer: "sf_run s C Q \<Longrightarrow> sf_line pkt s = Inr a \<Longrightarrow> \<not> isUncacheable (preq pkt) \<Longrightarrow> rsp \<in> C a \<Longrightarrow> req \<in> Q a \<Longrightarrow>
    updateSnoopResponse pkt rsp req s = Inr s' \<Longrightarrow>
    sf_run s' (C(a := insert req (if hasSharers pkt then C a else {}))) (Q(a := Q a - {req}))"
| sf_forward: "sf_run s C Q \<Longrightarrow> sf_line pkt s = Inr a \<Longrightarrow> updateSnoopForward pkt s = Inr s' \<Longrightarrow>
    sf_run s' (if hasSharers pkt then C else C(a := {})) Q"
| sf_answer: "sf_run s C Q \<Longrightarrow> sf_line pkt s = Inr a \<Longrightarrow> \<not> isUncacheable (preq pkt) \<Longrightarrow> p \<in> Q a \<Longrightarrow>
    updateResponse pkt p s = Inr s' \<Longrightarrow> sf_run s' (C(a := copies_answered pkt p (C a))) (Q(a := Q a - {p}))"
| sf_lose: "sf_run s C Q \<Longrightarrow> (\<And>a. C' a \<subseteq> C a) \<Longrightarrow> sf_run s C' Q"

text \<open>The filter has a bit for every copy, and exactly the bits of the outstanding requests.\<close>

definition sf_inv :: "SnoopFilter \<Rightarrow> (Addr \<Rightarrow> SnoopPort set) \<Rightarrow> (Addr \<Rightarrow> SnoopPort set) \<Rightarrow> bool" where
  "sf_inv s C Q \<longleftrightarrow> ports_ok s \<and> no_null s \<and> (\<forall>a. C a \<subseteq> {p \<in> set (sf_ports s). bit (si_holder (item_at s a)) (slot s p)}) \<and>
     (\<forall>a. Q a = {p \<in> set (sf_ports s). bit (si_requested (item_at s a)) (slot s p)})"

lemma set_line_inv:
  assumes "sf_inv s C Q" "set_line a i s s'" "\<forall>b. b \<noteq> a \<longrightarrow> C' b = C b \<and> Q' b = Q b"
    "C' a \<subseteq> {p \<in> set (sf_ports s). bit (si_holder i) (slot s p)}" "Q' a = {p \<in> set (sf_ports s). bit (si_requested i) (slot s p)}"
  shows "sf_inv s' C' Q'"
proof -
  have same: "same_ports s s'" using assms(2) by (simp add: set_line_def)
  have inv: "ports_ok s" "no_null s" "C b \<subseteq> {p \<in> set (sf_ports s). bit (si_holder (item_at s b)) (slot s p)}"
    "Q b = {p \<in> set (sf_ports s). bit (si_requested (item_at s b)) (slot s p)}" for b using assms(1) by (simp_all add: sf_inv_def)
  have "C' b \<subseteq> {p \<in> set (sf_ports s). bit (si_holder (item_at s' b)) (slot s p)}"
    "Q' b = {p \<in> set (sf_ports s). bit (si_requested (item_at s' b)) (slot s p)}" for b
    using assms(3-5) inv(3,4) [of b] unfolding set_line_item [OF assms(2)] by (cases "b = a"; simp)+
  then show ?thesis unfolding sf_inv_def same_ports_slot [OF same] using inv(1) set_line_no_null [OF inv(2) assms(2)] by simp
qed

lemma run_request:
  assumes "sf_inv s C Q" "sf_line pkt s = Inr a" "may_request pkt p s (C a) (Q a)"
  shows "\<exists>s' m. portToMask p s = Inr m \<and>
    sf_request pkt p retry s = Inr ((snooped s (interested (item_at s a) AND NOT m), sf_lookupLatency s), s') \<and>
    sf_inv s' (C(a := copies_after pkt p retry (C a))) (Q(a := asked_after pkt p retry (Q a))) \<and>
    (retry \<longrightarrow> set_line a (item_at s a) s s')"
proof -
  let ?i = "item_at s a"
  have inv: "ports_ok s" "no_null s" "C a \<subseteq> {p \<in> set (sf_ports s). bit (si_holder ?i) (slot s p)}"
    "Q a = {p \<in> set (sf_ports s). bit (si_requested ?i) (slot s p)}" using assms(1) by (simp_all add: sf_inv_def)
  obtain m where m: "portToMask p s = Inr m" "sp_snooping p \<longrightarrow> m = 2 ^ slot s p"
  proof (cases "sp_snooping p")
    case True
    then have "portToMask p s = Inr (2 ^ slot s p)" using assms(3) port_slot(4) [OF inv(1)] by (simp add: may_request_def)
    then show thesis using that by blast
  next
    case False
    then have "portToMask p s = Inr 0" using assms(3) by (simp add: may_request_def portToMask_def)
    then show thesis using that False by blast
  qed
  note eff = request_effect [OF inv(2,1) assms(2) m(1), of retry]
  have keep: "sf_inv s' C Q" if "set_line a ?i s s'" for s'
    using set_line_inv [OF assms(1) that, of C Q] inv(3,4) by simp
  show ?thesis
  proof (cases "sf_allocates pkt p")
    case False
    then have "asked_item pkt p m ?i = Inr ?i" "copies_after pkt p retry (C a) = C a" "asked_after pkt p retry (Q a) = Q a"
      by (simp_all add: asked_item_def copies_after_def asked_after_def)
    then show ?thesis using eff m(1) keep by (auto simp: fun_upd_idem)
  next
    case True
    have p: "p \<in> set (sf_ports s)" "m = 2 ^ slot s p" "slot s p < 64"
      using True assms(3) m(2) port_slot(2) [OF inv(1)] by (auto simp: may_request_def sf_allocates_def)
    have other: "slot s q = slot s p \<longleftrightarrow> q = p" "slot s q < 64" if "q \<in> set (sf_ports s)" for q
      using slot_inj [OF inv(1)] that p(1) port_slot(2) [OF inv(1)] by auto
    have req: "needsResponse (pcmd pkt) \<Longrightarrow> cacheResponding pkt \<Longrightarrow> p \<in> C a" "needsResponse (pcmd pkt) \<Longrightarrow> \<not> cacheResponding pkt \<Longrightarrow> p \<notin> Q a"
      "\<not> needsResponse (pcmd pkt) \<Longrightarrow> isEviction (pcmd pkt) \<and> p \<in> C a" using True assms(3) by (auto simp: may_request_def)
    obtain i where i: "asked_item pkt p m ?i = Inr i"
      "copies_after pkt p False (C a) \<subseteq> {p \<in> set (sf_ports s). bit (si_holder i) (slot s p)}"
      "asked_after pkt p False (Q a) = {p \<in> set (sf_ports s). bit (si_requested i) (slot s p)}"
    proof (cases "needsResponse (pcmd pkt)")
      case n: True
      show thesis
      proof (cases "cacheResponding pkt")
        case c: True
        have "asked_item pkt p m ?i = Inr ?i"
          using True n c req(1) inv(3) p by (auto simp: asked_item_def request_item_def and_one_bit)
        then show thesis using that [of ?i] n c inv(3,4) by (simp add: copies_after_def asked_after_def)
      next
        case c: False
        let ?j = "?i\<lparr>si_requested := si_requested ?i OR m\<rparr>"
        have "asked_item pkt p m ?i = Inr ?j"
          using True n c req(2) inv(4) p by (auto simp: asked_item_def request_item_def and_one_bit)
        moreover have "asked_after pkt p False (Q a) = {p \<in> set (sf_ports s). bit (si_requested ?j) (slot s p)}"
          using True n c inv(4) p other by (auto simp: asked_after_def bit_or_one)
        ultimately show thesis using that [of ?j] n inv(3) by (simp add: copies_after_def)
      qed
    next
      case n: False
      let ?j = "if isBlockCached pkt then ?i else ?i\<lparr>si_holder := si_holder ?i AND NOT m\<rparr>"
      have "asked_item pkt p m ?i = Inr ?j"
        using True n req(3) inv(3) p by (auto simp: asked_item_def request_item_def and_one_bit)
      moreover have "copies_after pkt p False (C a) \<subseteq> {p \<in> set (sf_ports s). bit (si_holder ?j) (slot s p)}"
        using True n inv(3) p other by (auto simp: copies_after_def bit_clear_one)
      ultimately show thesis using that [of ?j] n inv(4) by (simp add: asked_after_def)
    qed
    obtain s' where s': "sf_request pkt p retry s = Inr ((snooped s (interested ?i AND NOT m), sf_lookupLatency s), s')"
      "set_line a (if retry then ?i else i) s s'" using eff i(1) by auto
    have "sf_inv s' (C(a := copies_after pkt p retry (C a))) (Q(a := asked_after pkt p retry (Q a)))"
    proof (cases retry)
      case r: True
      then have "copies_after pkt p retry (C a) = C a" "asked_after pkt p retry (Q a) = Q a" by (simp_all add: copies_after_def asked_after_def)
      then show ?thesis using keep s'(2) r by (simp add: fun_upd_idem)
    next
      case r: False
      then have "set_line a i s s'" using s'(2) by simp
      from set_line_inv [OF assms(1) this] show ?thesis using i(2,3) r by simp
    qed
    moreover have "retry \<longrightarrow> set_line a ?i s s'" using s'(2) by auto
    ultimately show ?thesis using s'(1) m(1) by blast
  qed
qed

lemma run_snoop:
  assumes "sf_inv s C Q" "sf_line pkt s = Inr a" "isRequest (pcmd pkt)"
    "\<not> null_item (item_at s a) \<longrightarrow> snoop_legal pkt"
    "null_item (item_at s a) \<longrightarrow> length (cachedLocations s) < unat (maxEntryCount s)"
  shows "\<exists>s'. lookupSnoop pkt s = Inr ((snooped s (interested (item_at s a)), sf_lookupLatency s), s') \<and>
    sf_inv s' (if isInvalidate (pcmd pkt) \<and> Q a = {} then C(a := {}) else C) Q"
proof -
  let ?i = "item_at s a" and ?C = "if isInvalidate (pcmd pkt) \<and> Q a = {} then C(a := {}) else C"
  have inv: "ports_ok s" "no_null s" "C a \<subseteq> {p \<in> set (sf_ports s). bit (si_holder ?i) (slot s p)}"
    "Q a = {p \<in> set (sf_ports s). bit (si_requested ?i) (slot s p)}" using assms(1) by (simp_all add: sf_inv_def)
  obtain s' where s': "lookupSnoop pkt s = Inr ((snooped s (interested ?i), sf_lookupLatency s), s')"
    "set_line a (if isInvalidate (pcmd pkt) \<and> si_requested ?i = 0 then ?i\<lparr>si_holder := 0\<rparr> else ?i) s s'"
    using snoop_effect [OF inv(2,1) assms(2-5)] by blast
  have "sf_inv s' ?C Q"
  proof (cases "isInvalidate (pcmd pkt) \<and> si_requested ?i = 0")
    case True
    then have "Q a = {}" using inv(4) by simp
    then show ?thesis using set_line_inv [OF assms(1) s'(2), of ?C Q] True inv(4) by simp
  next
    case False
    then have "set_line a ?i s s'" using s'(2) by (simp only: if_False)
    from set_line_inv [OF assms(1) this, of ?C Q] show ?thesis using inv(3,4) by simp
  qed
  then show ?thesis using s'(1) by blast
qed

lemma run_answer:
  assumes "sf_inv s C Q" "sf_line pkt s = Inr a" "isResponse (pcmd pkt)" "\<not> isUncacheable (preq pkt)" "p \<in> Q a"
  shows "\<exists>s'. updateResponse pkt p s = Inr s' \<and> sf_inv s' (C(a := copies_answered pkt p (C a))) (Q(a := Q a - {p}))"
proof -
  let ?i = "item_at s a" let ?j = "answered_item pkt (2 ^ slot s p) ?i"
  have inv: "ports_ok s" "C a \<subseteq> {p \<in> set (sf_ports s). bit (si_holder ?i) (slot s p)}"
    "Q a = {p \<in> set (sf_ports s). bit (si_requested ?i) (slot s p)}" using assms(1) by (simp_all add: sf_inv_def)
  have p: "p \<in> set (sf_ports s)" "bit (si_requested ?i) (slot s p)" using assms(5) inv(3) by simp_all
  have other: "slot s q = slot s p \<longleftrightarrow> q = p" "slot s q < 64" if "q \<in> set (sf_ports s)" for q
    using slot_inj [OF inv(1)] that p(1) port_slot(2) [OF inv(1)] by auto
  obtain s' where s': "updateResponse pkt p s = Inr s'" "set_line a ?j s s'" using response_effect [OF inv(1) assms(2-4) p] by blast
  have "copies_answered pkt p (C a) \<subseteq> {q \<in> set (sf_ports s). bit (si_holder ?j) (slot s q)}"
    using inv(2) other p(1) by (auto simp: copies_answered_def answered_item_def bit_or_one bit_clear_one)
  moreover have "Q a - {p} = {q \<in> set (sf_ports s). bit (si_requested ?j) (slot s q)}"
    using inv(3) other p(1) by (auto simp: answered_item_def bit_clear_one)
  ultimately have "sf_inv s' (C(a := copies_answered pkt p (C a))) (Q(a := Q a - {p}))"
    using set_line_inv [OF assms(1) s'(2), of "C(a := copies_answered pkt p (C a))" "Q(a := Q a - {p})"] by simp
  then show ?thesis using s'(1) by blast
qed

lemma run_transfer:
  assumes "sf_inv s C Q" "sf_line pkt s = Inr a" "isResponse (pcmd pkt)" "cacheResponding pkt" "\<not> isWriteback (pcmd pkt)"
    "\<not> isUncacheable (preq pkt)" "rsp \<in> C a" "req \<in> Q a"
  shows "\<exists>s'. updateSnoopResponse pkt rsp req s = Inr s' \<and>
    sf_inv s' (C(a := insert req (if hasSharers pkt then C a else {}))) (Q(a := Q a - {req}))"
proof -
  let ?i = "item_at s a" let ?j = "transferred_item pkt (2 ^ slot s req) ?i"
  have inv: "ports_ok s" "C a \<subseteq> {p \<in> set (sf_ports s). bit (si_holder ?i) (slot s p)}"
    "Q a = {p \<in> set (sf_ports s). bit (si_requested ?i) (slot s p)}" using assms(1) by (simp_all add: sf_inv_def)
  have p: "rsp \<in> set (sf_ports s)" "req \<in> set (sf_ports s)" "bit (si_holder ?i) (slot s rsp)" "bit (si_requested ?i) (slot s req)"
    using assms(7,8) inv(2,3) by auto
  have other: "slot s q = slot s req \<longleftrightarrow> q = req" "slot s q < 64" if "q \<in> set (sf_ports s)" for q
    using slot_inj [OF inv(1)] that p(2) port_slot(2) [OF inv(1)] by auto
  obtain s' where s': "updateSnoopResponse pkt rsp req s = Inr s'" "set_line a ?j s s'"
    using snoop_response_effect [OF inv(1) assms(2-6) p] by blast
  have "insert req (if hasSharers pkt then C a else {}) \<subseteq> {q \<in> set (sf_ports s). bit (si_holder ?j) (slot s q)}"
    using inv(2) other p(2) by (auto simp: transferred_item_def bit_or_one)
  moreover have "Q a - {req} = {q \<in> set (sf_ports s). bit (si_requested ?j) (slot s q)}"
    using inv(3) other p(2) by (auto simp: transferred_item_def bit_clear_one)
  ultimately show ?thesis
    using set_line_inv [OF assms(1) s'(2), of "C(a := insert req (if hasSharers pkt then C a else {}))" "Q(a := Q a - {req})"] s'(1) by simp
qed

lemma run_forward:
  assumes "sf_inv s C Q" "sf_line pkt s = Inr a" "isResponse (pcmd pkt)" "cacheResponding pkt"
  shows "\<exists>s'. updateSnoopForward pkt s = Inr s' \<and> sf_inv s' (if hasSharers pkt then C else C(a := {})) Q"
proof -
  let ?i = "item_at s a"
  have inv: "no_null s" "C a \<subseteq> {p \<in> set (sf_ports s). bit (si_holder ?i) (slot s p)}"
    "Q a = {p \<in> set (sf_ports s). bit (si_requested ?i) (slot s p)}" using assms(1) by (simp_all add: sf_inv_def)
  obtain s' where s': "updateSnoopForward pkt s = Inr s'" "set_line a (if \<not> hasSharers pkt then ?i\<lparr>si_holder := 0\<rparr> else ?i) s s'"
    using forward_effect [OF inv(1) assms(2-4)] by blast
  show ?thesis using set_line_inv [OF assms(1) s'(2), of "if hasSharers pkt then C else C(a := {})" Q] s'(1) inv(2,3)
    by (cases "hasSharers pkt") simp_all
qed

section \<open>Registering the ports\<close>

definition ports_numbered :: "SnoopFilter \<Rightarrow> int \<Rightarrow> bool" where
  "ports_numbered s i \<longleftrightarrow> i = int (length (sf_ports s)) \<and> (\<forall>k < length (sf_ports s). sp_snooping (sf_ports s ! k) \<and> 0 \<le> sp_id (sf_ports s ! k) \<and>
     nat (sp_id (sf_ports s ! k)) < length (localSlavePortIds s) \<and> localSlavePortIds s ! nat (sp_id (sf_ports s ! k)) = int k)"

lemma add_ports_numbered:
  "add_ports ps i s = Inr (j, s') \<Longrightarrow> ports_numbered s i \<Longrightarrow> distinct (map sp_id ps) \<Longrightarrow> sp_id ` set (sf_ports s) \<inter> sp_id ` set ps = {} \<Longrightarrow>
    ports_numbered s' j \<and> cachedLocations s' = cachedLocations s"
proof (induction ps arbitrary: i s)
  case (Cons p ps)
  show ?case
  proof (cases "sp_snooping p")
    case True
    let ?s = "s\<lparr>sf_ports := sf_ports s @ [p], localSlavePortIds := (localSlavePortIds s)[nat (sp_id p) := i]\<rparr>"
    have p: "0 \<le> sp_id p" "nat (sp_id p) < length (localSlavePortIds s)" "add_ports ps (i + 1) ?s = Inr (j, s')"
      using Cons.prems(1) True by (auto simp: bindR_eq_Inr port_at_def vec_at_eq_Inr split: if_splits)
    have old: "sp_id (sf_ports s ! k) \<noteq> sp_id p" if "k < length (sf_ports s)" for k
    proof -
      have "sp_id (sf_ports s ! k) \<in> sp_id ` set (sf_ports s)" using nth_mem [OF that] by (rule imageI)
      then show ?thesis using Cons.prems(4) by auto
    qed
    have "ports_numbered ?s (i + 1)"
      unfolding ports_numbered_def
    proof (intro conjI allI impI)
      show "i + 1 = int (length (sf_ports ?s))" using Cons.prems(2) by (simp add: ports_numbered_def)
      fix k assume k: "k < length (sf_ports ?s)"
      consider "k < length (sf_ports s)" | "k = length (sf_ports s)" using k by fastforce
      then show "sp_snooping (sf_ports ?s ! k)" "0 \<le> sp_id (sf_ports ?s ! k)" "nat (sp_id (sf_ports ?s ! k)) < length (localSlavePortIds ?s)"
        "localSlavePortIds ?s ! nat (sp_id (sf_ports ?s ! k)) = int k"
        using Cons.prems(2) p(1,2) True old [of k]
        by (cases; auto simp: ports_numbered_def nth_append nth_list_update)+
    qed
    then show ?thesis using Cons.IH [OF p(3)] Cons.prems(3,4) by auto
  next
    case False
    then show ?thesis using Cons.prems Cons.IH [of i s] by auto
  qed
qed simp

lemma setSlavePorts_ok:
  assumes "SnoopFilter_new line latency capacity = Inr s0" "map sp_id ports = map int [0..<length ports]" "setSlavePorts ports s0 = Inr s"
  shows "ports_ok s" "cachedLocations s = []"
proof -
  let ?s = "s0\<lparr>localSlavePortIds := resize_ids (length ports) (localSlavePortIds s0)\<rparr>"
  have n: "sf_ports s0 = []" "cachedLocations s0 = []" using assms(1) by (auto simp: SnoopFilter_new_def split: if_splits)
  obtain i where i: "add_ports ports 0 ?s = Inr (i, s)" "\<not> i > 64"
    using assms(3) by (auto simp: setSlavePorts_def bindR_eq_Inr split: if_splits)
  have "distinct (map sp_id ports)" unfolding assms(2) by (simp add: distinct_map)
  then have "ports_numbered s i \<and> cachedLocations s = []"
    using add_ports_numbered [OF i(1)] n by (simp add: ports_numbered_def)
  then show "ports_ok s" "cachedLocations s = []" using i(2) by (simp_all add: ports_ok_def ports_numbered_def)
qed

section \<open>What the filter promises\<close>

lemma snoop_was_legal:
  assumes "lookupSnoop pkt s = Inr (r, s')" "sf_line pkt s = Inr a" "no_null s"
  shows "isRequest (pcmd pkt)" "\<not> null_item (item_at s a) \<longrightarrow> snoop_legal pkt"
    "null_item (item_at s a) \<longrightarrow> length (cachedLocations s) < unat (maxEntryCount s)"
proof -
  show "isRequest (pcmd pkt)" using assms(1) by (simp add: lookupSnoop_def assertR_eq_Inr)
  show "\<not> null_item (item_at s a) \<longrightarrow> snoop_legal pkt" "null_item (item_at s a) \<longrightarrow> length (cachedLocations s) < unat (maxEntryCount s)"
    using assms(1,2) unfolding item_null [OF assms(3)]
    by (cases "map_of (cachedLocations s) a"; simp add: lookupSnoop_def snoop_legal_def assertR_eq_Inr Let_def split: if_splits)+
qed

lemma sf_run_inv: "sf_run s C Q \<Longrightarrow> sf_inv s C Q"
proof (induction rule: sf_run.induct)
  case (sf_start line latency capacity s0 ports s)
  then have s: "ports_ok s" "cachedLocations s = []" using setSlavePorts_ok by blast+
  then show ?case by (simp add: sf_inv_def no_null_def item_at_def no_item_def)
next
  case (sf_req s C Q pkt a p retry r s')
  obtain s1 m where "sf_request pkt p retry s = Inr ((snooped s (interested (item_at s a) AND NOT m), sf_lookupLatency s), s1)"
    "sf_inv s1 (C(a := copies_after pkt p retry (C a))) (Q(a := asked_after pkt p retry (Q a)))"
    using run_request [OF sf_req.IH sf_req.hyps(2,3), of retry] by blast
  then show ?case using sf_req.hyps(4) by (simp add: fun_upd_def)
next
  case (sf_snoop s C Q pkt a r s')
  have "no_null s" using sf_snoop.IH by (simp add: sf_inv_def)
  from run_snoop [OF sf_snoop.IH sf_snoop.hyps(2) snoop_was_legal [OF sf_snoop.hyps(3,2) this]]
  show ?case using sf_snoop.hyps(3) by auto
next
  case (sf_transfer s C Q pkt a rsp req s')
  have p: "req \<in> set (sf_ports s)" "rsp \<in> set (sf_ports s)" "ports_ok s" using sf_transfer.IH sf_transfer.hyps(4,5) by (auto simp: sf_inv_def)
  have "isResponse (pcmd pkt)" "cacheResponding pkt" "\<not> isWriteback (pcmd pkt)"
    using sf_transfer.hyps(2,3,6) port_slot [OF p(3,1)] port_slot [OF p(3,2)]
    by (auto simp: updateSnoopResponse_def assertR_eq_Inr bindR_eq_Inr Let_def split: if_splits)
  from run_transfer [OF sf_transfer.IH sf_transfer.hyps(2) this sf_transfer.hyps(3-5)] show ?case using sf_transfer.hyps(6) by (auto simp: fun_upd_def)
next
  case (sf_forward s C Q pkt a s')
  have "isResponse (pcmd pkt)" "cacheResponding pkt" using sf_forward.hyps(3) by (simp_all add: updateSnoopForward_def assertR_eq_Inr)
  from run_forward [OF sf_forward.IH sf_forward.hyps(2) this] show ?case using sf_forward.hyps(3) by auto
next
  case (sf_answer s C Q pkt a p s')
  have "isResponse (pcmd pkt)" using sf_answer.hyps(5) by (simp add: updateResponse_def assertR_eq_Inr)
  from run_answer [OF sf_answer.IH sf_answer.hyps(2) this sf_answer.hyps(3,4)] show ?case using sf_answer.hyps(5) by (auto simp: fun_upd_def)
next
  case (sf_lose s C Q C')
  have "C' a \<subseteq> {p \<in> set (sf_ports s). bit (si_holder (item_at s a)) (slot s p)}" for a
    using sf_lose.hyps(2) [of a] sf_lose.IH by (auto simp: sf_inv_def)
  then show ?case using sf_lose.IH by (simp add: sf_inv_def)
qed

lemma snooped_interested:
  assumes "sf_inv s C Q"
  shows "C a \<union> Q a \<subseteq> set (snooped s (interested (item_at s a)))"
  using assms by (auto simp: sf_inv_def snooped_def interested_def bit_or_iff)

text \<open>C27: Snoops reach every cache they have to: a request is snooped at all ports above which there may be a copy of the line
  or which asked for it, apart from its own; a snoop from below is passed to all of them.\<close>
theorem snoops_reach_copies:
  assumes "sf_run s C Q" "sf_line pkt s = Inr a"
  shows "(\<forall>p retry ps lat s'. may_request pkt p s (C a) (Q a) \<and> sf_request pkt p retry s = Inr ((ps, lat), s') \<longrightarrow>
      (C a \<union> Q a) - {p} \<subseteq> set ps \<and> p \<notin> set ps) \<and>
    (\<forall>ps lat s'. lookupSnoop pkt s = Inr ((ps, lat), s') \<longrightarrow> C a \<union> Q a \<subseteq> set ps)"
proof (intro conjI allI impI)
  have inv: "sf_inv s C Q" "ports_ok s" "no_null s" using sf_run_inv [OF assms(1)] by (simp_all add: sf_inv_def)
  note all = snooped_interested [OF inv(1), of a]
  fix p retry ps lat s'
  assume "may_request pkt p s (C a) (Q a) \<and> sf_request pkt p retry s = Inr ((ps, lat), s')"
  then have req: "may_request pkt p s (C a) (Q a)" "sf_request pkt p retry s = Inr ((ps, lat), s')" by simp_all
  obtain m where m: "portToMask p s = Inr m" "ps = snooped s (interested (item_at s a) AND NOT m)"
    using run_request [OF inv(1) assms(2) req(1), of retry] req(2) by auto
  have reg: "sp_snooping p \<longrightarrow> p \<in> set (sf_ports s)" "sp_id p \<noteq> InvalidPortID" using req(1) by (simp_all add: may_request_def)
  have "m = (if sp_snooping p then 2 ^ slot s p else 0)"
  proof (cases "sp_snooping p")
    case True
    then show ?thesis using m(1) reg(1) port_slot(4) [OF inv(2)] by simp
  next
    case False
    then show ?thesis using m(1) reg(2) by (simp add: portToMask_def)
  qed
  moreover note reg(1)
  moreover have "slot s q = slot s p \<longleftrightarrow> q = p" if "q \<in> set (sf_ports s)" "p \<in> set (sf_ports s)" for q
    using slot_inj [OF inv(2)] that by auto
  moreover have "slot s q < 64 \<and> sp_snooping q" if "q \<in> set (sf_ports s)" for q using port_slot [OF inv(2) that] by simp
  ultimately have "set ps = set (snooped s (interested (item_at s a))) - {p}"
    unfolding m(2) by (auto simp: snooped_def bit_clear_one)
  then show "(C a \<union> Q a) - {p} \<subseteq> set ps" "p \<notin> set ps" using all by auto
next
  have inv: "sf_inv s C Q" "no_null s" using sf_run_inv [OF assms(1)] by (simp_all add: sf_inv_def)
  fix ps lat s'
  assume l: "lookupSnoop pkt s = Inr ((ps, lat), s')"
  from run_snoop [OF inv(1) assms(2) snoop_was_legal [OF l assms(2) inv(2)]] l
  have "ps = snooped s (interested (item_at s a))" by auto
  then show "C a \<union> Q a \<subseteq> set ps" using snooped_interested [OF inv(1), of a] by simp
qed

text \<open>C28: The filter never stops the simulator while the caches keep to the protocol: they ask once for a line, evict and answer for
  lines they have, and answers come to those who asked; snoops pass while there is room.\<close>
theorem filter_never_stops:
  assumes "sf_run s C Q" "sf_line pkt s = Inr a"
  shows "(\<forall>p retry. may_request pkt p s (C a) (Q a) \<longrightarrow> (\<exists>r s'. sf_request pkt p retry s = Inr (r, s'))) \<and>
    (isRequest (pcmd pkt) \<and> snoop_legal pkt \<and> length (cachedLocations s) < unat (maxEntryCount s) \<longrightarrow> (\<exists>r s'. lookupSnoop pkt s = Inr (r, s'))) \<and>
    (isResponse (pcmd pkt) \<longrightarrow> (\<forall>p. (\<not> isUncacheable (preq pkt) \<and> sp_snooping p \<longrightarrow> p \<in> Q a) \<longrightarrow> (\<exists>s'. updateResponse pkt p s = Inr s'))) \<and>
    (isResponse (pcmd pkt) \<and> cacheResponding pkt \<and> \<not> isWriteback (pcmd pkt) \<longrightarrow>
      (\<exists>s'. updateSnoopForward pkt s = Inr s') \<and>
      (\<forall>rsp req. (\<not> isUncacheable (preq pkt) \<and> sp_snooping req \<longrightarrow> rsp \<in> C a \<and> req \<in> Q a) \<longrightarrow> (\<exists>s'. updateSnoopResponse pkt rsp req s = Inr s')))"
proof -
  have inv: "sf_inv s C Q" by (rule sf_run_inv [OF assms(1)])
  have "\<exists>s'. updateResponse pkt p s = Inr s'"
    if "isResponse (pcmd pkt)" "\<not> isUncacheable (preq pkt) \<and> sp_snooping p \<longrightarrow> p \<in> Q a" for p
  proof (cases "isUncacheable (preq pkt) \<or> \<not> sp_snooping p")
    case True
    then show ?thesis using that(1) by (simp add: updateResponse_def)
  next
    case False
    then show ?thesis using run_answer [OF inv assms(2) that(1), of p] that(2) by blast
  qed
  moreover have "\<exists>s'. updateSnoopResponse pkt rsp req s = Inr s'"
    if "isResponse (pcmd pkt)" "cacheResponding pkt" "\<not> isWriteback (pcmd pkt)"
      "\<not> isUncacheable (preq pkt) \<and> sp_snooping req \<longrightarrow> rsp \<in> C a \<and> req \<in> Q a" for rsp req
  proof (cases "isUncacheable (preq pkt) \<or> \<not> sp_snooping req")
    case True
    then show ?thesis using that(1,2) by (simp add: updateSnoopResponse_def)
  next
    case False
    then show ?thesis using run_transfer [OF inv assms(2) that(1-3), of rsp req] that(4) by blast
  qed
  ultimately show ?thesis using run_request [OF inv assms(2)] run_snoop [OF inv assms(2)] run_forward [OF inv assms(2)] by blast
qed

text \<open>C29: A request that will come again leaves no trace: the filter knows of every line what it knew before.\<close>
theorem retry_leaves_no_trace:
  assumes "sf_run s C Q" "sf_line pkt s = Inr a" "may_request pkt p s (C a) (Q a)"
  shows "\<exists>r s'. sf_request pkt p True s = Inr (r, s') \<and> map_of (cachedLocations s') = map_of (cachedLocations s) \<and> same_ports s s' \<and> sf_inv s' C Q"
proof -
  have inv: "sf_inv s C Q" "no_null s" using sf_run_inv [OF assms(1)] by (simp_all add: sf_inv_def)
  obtain r s' where s': "sf_request pkt p True s = Inr (r, s')" "set_line a (item_at s a) s s'"
    "sf_inv s' (C(a := copies_after pkt p True (C a))) (Q(a := asked_after pkt p True (Q a)))"
    using run_request [OF inv(1) assms(2,3), of True] by auto
  have "map_of (cachedLocations s') = map_of (cachedLocations s)"
    using s'(2) inv(2) by (auto simp: set_line_def item_null fun_eq_iff) (auto simp: item_at_def)
  then show ?thesis using s' by (auto simp: set_line_def copies_after_def asked_after_def)
qed

text \<open>
  A port that snoops but whose requests do not come from a cache is not entered. If another port has the line, the
  answer to such a request stops the simulator.
\<close>

lemma answer_to_plain_reader_panics:
  assumes "sf_run s C Q" "sf_line pkt s = Inr a" "isResponse (pcmd pkt)" "\<not> isUncacheable (preq pkt)"
    "p \<in> set (sf_ports s)" "p \<notin> Q a" "q \<in> C a"
  shows "updateResponse pkt p s = Inl Panicked"
proof -
  have inv: "ports_ok s" "no_null s" "C a \<subseteq> {p \<in> set (sf_ports s). bit (si_holder (item_at s a)) (slot s p)}"
    "Q a = {p \<in> set (sf_ports s). bit (si_requested (item_at s a)) (slot s p)}" using sf_run_inv [OF assms(1)] by (simp_all add: sf_inv_def)
  obtain item where item: "map_of (cachedLocations s) a = Some item" "item_at s a = item"
    using inv(3) assms(7) by (cases "map_of (cachedLocations s) a") (auto simp: item_at_def no_item_def)
  have "si_requested item AND 2 ^ slot s p = 0" using inv(4) assms(5,6) item(2) port_slot(2) [OF inv(1) assms(5)] by (simp add: and_one_bit)
  then show ?thesis using assms(2-4) item(1) port_slot(4,5) [OF inv(1) assms(5)] by (simp add: updateResponse_def)
qed

section \<open>Witnesses\<close>

text \<open>A filter for two snooping ports. Port 0 asks for a line and gets it; then port 1 asks for the same line.\<close>

definition ex_port :: "PortID \<Rightarrow> SnoopPort" where "ex_port i = \<lparr>sp_id = i, sp_snooping = True\<rparr>"

definition ex_line_req :: Packet where "ex_line_req = Packet_new (Request_phys 0x40 4 0 1 0) ReadSharedReq"

definition ex_line_resp :: Packet where "ex_line_resp = Packet_new (Request_phys 0x40 4 0 1 0) ReadResp"

definition ex_filter :: "SnoopFilter res" where
  "ex_filter = bindR (SnoopFilter_new 64 1 1024) (setSlavePorts [ex_port 0, ex_port 1])"

lemma case_runs: "(case m of Inl _ \<Rightarrow> False | Inr x \<Rightarrow> P x) \<longleftrightarrow> (\<exists>x. m = Inr x \<and> P x)"
  by (cases m) simp_all

lemma ex_filter_runs:
  "case ex_filter of Inl _ \<Rightarrow> False | Inr s \<Rightarrow>
    sf_line ex_line_req s = Inr 0x40 \<and> sf_ports s = [ex_port 0, ex_port 1] \<and>
    (case sf_request ex_line_req (ex_port 0) False s of Inl _ \<Rightarrow> False | Inr z \<Rightarrow>
      sf_line ex_line_resp (snd z) = Inr 0x40 \<and>
      (case updateResponse ex_line_resp (ex_port 0) (snd z) of Inl _ \<Rightarrow> False | Inr u \<Rightarrow>
        sf_line ex_line_req u = Inr 0x40 \<and> sf_ports u = [ex_port 0, ex_port 1] \<and>
        (case sf_request ex_line_req (ex_port 1) False u of Inl _ \<Rightarrow> False | Inr _ \<Rightarrow> True)))"
  by code_simp

lemma ex_line_facts:
  "needsResponse (pcmd ex_line_req)" "\<not> cacheResponding ex_line_req" "\<not> isUncacheable (preq ex_line_resp)"
  "\<not> isCacheMaintenance (preq ex_line_resp)" "ex_port 0 \<noteq> ex_port 1" "sp_id (ex_port 0) \<noteq> InvalidPortID" "sp_id (ex_port 1) \<noteq> InvalidPortID"
  "sf_allocates ex_line_req (ex_port 0)" "sf_allocates ex_line_req (ex_port 1)"
  by code_simp+

lemma ex_filter_run:
  "\<exists>s. sf_run s (\<lambda>a. if a = 0x40 then {ex_port 0} else {}) (\<lambda>_. {}) \<and> sf_line ex_line_req s = Inr 0x40 \<and>
    may_request ex_line_req (ex_port 1) s {ex_port 0} {} \<and> (\<exists>r s'. sf_request ex_line_req (ex_port 1) False s = Inr (r, s'))"
proof -
  obtain s z u y where s: "ex_filter = Inr s" and s1: "sf_line ex_line_req s = Inr 0x40" "sf_ports s = [ex_port 0, ex_port 1]"
    and z: "sf_request ex_line_req (ex_port 0) False s = Inr z" and t1: "sf_line ex_line_resp (snd z) = Inr 0x40"
    and u: "updateResponse ex_line_resp (ex_port 0) (snd z) = Inr u"
    and u1: "sf_line ex_line_req u = Inr 0x40" "sf_ports u = [ex_port 0, ex_port 1]"
    and y: "sf_request ex_line_req (ex_port 1) False u = Inr y"
    using ex_filter_runs unfolding case_runs by blast
  obtain r t r' v where zy: "z = (r, t)" "y = (r', v)" by (cases z; cases y) blast
  note t = z [unfolded zy(1)] and t1 = t1 [unfolded zy(1) snd_conv] and u = u [unfolded zy(1) snd_conv] and v = y [unfolded zy(2)]
  obtain s0 where s0: "SnoopFilter_new 64 1 1024 = Inr s0" "setSlavePorts [ex_port 0, ex_port 1] s0 = Inr s"
    using s by (auto simp: ex_filter_def bindR_eq_Inr)
  have "sf_run s (\<lambda>_. {}) (\<lambda>_. {})" by (rule sf_start [OF s0(1) _ s0(2)]) (simp add: ex_port_def upt_rec)
  moreover have "may_request ex_line_req (ex_port 0) s {} {}" using ex_line_facts s1(2) by (simp add: may_request_def)
  ultimately have "sf_run t ((\<lambda>_. {})(0x40 := {})) ((\<lambda>_. {})(0x40 := {ex_port 0}))"
    using sf_req [OF _ s1(1) _ t, of "\<lambda>_. {}" "\<lambda>_. {}"] ex_line_facts by (simp add: copies_after_def asked_after_def)
  from sf_answer [OF this t1 ex_line_facts(3) _ u] have "sf_run u ((\<lambda>_. {})(0x40 := {ex_port 0})) (\<lambda>_. {})"
    using ex_line_facts by (simp add: copies_answered_def fun_upd_idem)
  then have "sf_run u (\<lambda>a. if a = 0x40 then {ex_port 0} else {}) (\<lambda>_. {})" by (simp add: fun_upd_def)
  moreover have "may_request ex_line_req (ex_port 1) u {ex_port 0} {}" using ex_line_facts u1(2) by (simp add: may_request_def)
  ultimately show ?thesis using u1(1) v by blast
qed

theorem snoops_reach_copies_witness:
  "\<exists>s ps lat s'. sf_request ex_line_req (ex_port 1) False s = Inr ((ps, lat), s') \<and> ex_port 0 \<in> set ps \<and> ex_port 1 \<notin> set ps"
proof -
  obtain s r s' where s: "sf_run s (\<lambda>a. if a = 0x40 then {ex_port 0} else {}) (\<lambda>_. {})" "sf_line ex_line_req s = Inr 0x40"
    "may_request ex_line_req (ex_port 1) s {ex_port 0} {}" "sf_request ex_line_req (ex_port 1) False s = Inr (r, s')" using ex_filter_run by blast
  obtain ps lat where r: "r = (ps, lat)" by (cases r)
  have "may_request ex_line_req (ex_port 1) s (if (0x40::Addr) = 0x40 then {ex_port 0} else {}) {} \<and>
    sf_request ex_line_req (ex_port 1) False s = Inr ((ps, lat), s')" using s(3,4) r by simp
  from conjunct1 [OF snoops_reach_copies [OF s(1,2)], THEN spec, THEN spec, THEN spec, THEN spec, THEN spec, THEN mp, OF this]
  have "{ex_port 0} - {ex_port 1} \<subseteq> set ps \<and> ex_port 1 \<notin> set ps" by simp
  then show ?thesis using s(4) r ex_line_facts(5) by blast
qed

theorem filter_never_stops_witness:
  "\<exists>s r s'. sf_run s (\<lambda>a. if a = 0x40 then {ex_port 0} else {}) (\<lambda>_. {}) \<and> sf_request ex_line_req (ex_port 1) True s = Inr (r, s')"
proof -
  obtain s where s: "sf_run s (\<lambda>a. if a = 0x40 then {ex_port 0} else {}) (\<lambda>_. {})" "sf_line ex_line_req s = Inr 0x40"
    "may_request ex_line_req (ex_port 1) s {ex_port 0} {}" using ex_filter_run by blast
  from filter_never_stops [OF s(1,2)] s(3) show ?thesis using s(1) by auto
qed

theorem retry_leaves_no_trace_witness:
  "\<exists>s r s'. sf_request ex_line_req (ex_port 1) True s = Inr (r, s') \<and> map_of (cachedLocations s') = map_of (cachedLocations s)"
proof -
  obtain s where s: "sf_run s (\<lambda>a. if a = 0x40 then {ex_port 0} else {}) (\<lambda>_. {})" "sf_line ex_line_req s = Inr 0x40"
    "may_request ex_line_req (ex_port 1) s {ex_port 0} {}" using ex_filter_run by blast
  have "may_request ex_line_req (ex_port 1) s ((\<lambda>a. if a = (0x40::Addr) then {ex_port 0} else {}) 0x40) {}" using s(3) by simp
  from retry_leaves_no_trace [OF s(1,2) this] show ?thesis by blast
qed

end
