(* ===== verification/Cache_Queue.thy ===== *)
theory Cache_Queue
  imports Packet_Queue "HOL-Library.Multiset"
begin

text \<open>
  The queue of misses and of writes of a cache, from \<^verbatim>\<open>src/mem/cache/queue.hh\<close> and \<^verbatim>\<open>src/mem/cache/queue_entry.hh\<close>, and the write queue
  of \<^verbatim>\<open>src/mem/cache/write_queue.cc\<close> with the entries of \<^verbatim>\<open>src/mem/cache/write_queue_entry.cc\<close>. A pointer to an entry is its
  index, and the class of the entries, a parameter of the template, is an extension of the record \<open>QueueEntry\<close>. What
  the queue needs of that class is the locale \<open>entry_class\<close>.
\<close>

section \<open>Entries and the queue\<close>

record QueueEntry =
  qe_readyTime :: Tick
  qe_uncacheable :: bool
  qe_inService :: bool
  qe_order :: u64
  qe_blkAddr :: Addr
  qe_blkSize :: u32
  qe_isSecure :: bool

record 'e Queue =
  numEntries :: int
  numReserve :: int
  qentries :: "'e list"
  allocatedList :: "nat list"
  readyList :: "nat list"
  freeList :: "nat list"
  q_numInService :: int
  q_allocated :: int
  q_drain :: DrainState

definition Queue_new :: "'e \<Rightarrow> nat \<Rightarrow> nat \<Rightarrow> DrainState \<Rightarrow> 'e Queue" where
  "Queue_new e n reserve ds =
     \<lparr>numEntries = int (n + reserve), numReserve = int reserve, qentries = replicate (n + reserve) e, allocatedList = [],
      readyList = [], freeList = [0..<n + reserve], q_numInService = 0, q_allocated = 0, q_drain = ds\<rparr>"

fun ready_before :: "('a QueueEntry_scheme) list \<Rightarrow> nat \<Rightarrow> nat list \<Rightarrow> nat list res" where
  "ready_before es i [] = fail Panicked"
| "ready_before es i (j # js) =
     (if qe_readyTime (es ! j) > qe_readyTime (es ! i) then ok (i # j # js)
      else bindR (ready_before es i js) (\<lambda>l. ok (j # l)))"

definition addToReadyList :: "nat \<Rightarrow> ('a QueueEntry_scheme) Queue \<Rightarrow> ('a QueueEntry_scheme) Queue res" where
  "addToReadyList i q =
     (let es = qentries q; l = readyList q in
      bindR (if l = [] \<or> qe_readyTime (es ! last l) \<le> qe_readyTime (es ! i) then ok (l @ [i]) else ready_before es i l)
        (\<lambda>l1. ok (q\<lparr>readyList := l1\<rparr>)))"

definition q_isEmpty :: "'e Queue \<Rightarrow> bool" where "q_isEmpty q \<longleftrightarrow> q_allocated q = 0"

definition q_isFull :: "'e Queue \<Rightarrow> bool" where "q_isFull q \<longleftrightarrow> q_allocated q \<ge> numEntries q - numReserve q"

definition findMatch :: "Addr \<Rightarrow> bool \<Rightarrow> bool \<Rightarrow> ('a QueueEntry_scheme) Queue \<Rightarrow> nat option" where
  "findMatch blk_addr is_secure ignore_uncacheable q =
     find (\<lambda>i. let e = qentries q ! i in \<not> (ignore_uncacheable \<and> qe_uncacheable e) \<and> qe_blkAddr e = blk_addr \<and> qe_isSecure e = is_secure)
       (allocatedList q)"

definition findPending :: "Addr \<Rightarrow> bool \<Rightarrow> ('a QueueEntry_scheme) Queue \<Rightarrow> nat option" where
  "findPending blk_addr is_secure q =
     find (\<lambda>i. let e = qentries q ! i in qe_blkAddr e = blk_addr \<and> qe_isSecure e = is_secure) (readyList q)"

definition getNext :: "Tick \<Rightarrow> ('a QueueEntry_scheme) Queue \<Rightarrow> nat option" where
  "getNext now q =
     (if readyList q = [] \<or> qe_readyTime (qentries q ! hd (readyList q)) > now then None else Some (hd (readyList q)))"

definition nextReadyTime :: "('a QueueEntry_scheme) Queue \<Rightarrow> Tick" where
  "nextReadyTime q = (if readyList q = [] then MaxTick else qe_readyTime (qentries q ! hd (readyList q)))"

text \<open>
  Erasing what is not in a list is undefined. The result says whether the drain manager is told that the queue is drained.
\<close>

definition q_deallocate :: "('a QueueEntry_scheme \<Rightarrow> 'a QueueEntry_scheme res) \<Rightarrow> nat \<Rightarrow> ('a QueueEntry_scheme) Queue \<Rightarrow>
    (bool \<times> ('a QueueEntry_scheme) Queue) res" where
  "q_deallocate stop i q =
     (if i \<notin> set (allocatedList q) then fail NullPointer
      else
        (let e = qentries q ! i;
             q1 = q\<lparr>allocatedList := remove1 i (allocatedList q), freeList := i # freeList q, q_allocated := q_allocated q - 1\<rparr> in
         bindR (if qe_inService e then ok (q1\<lparr>q_numInService := q_numInService q1 - 1\<rparr>)
                else if i \<notin> set (readyList q1) then fail NullPointer else ok (q1\<lparr>readyList := remove1 i (readyList q1)\<rparr>)) (\<lambda>q2.
         bindR (stop e) (\<lambda>e1.
         (let q3 = q2\<lparr>qentries := (qentries q2)[i := e1]\<rparr> in
          if q_drain q3 = Draining \<and> q_allocated q3 = 0 then ok (True, q3\<lparr>q_drain := Drained\<rparr>) else ok (False, q3))))))"

definition q_drain_fn :: "'e Queue \<Rightarrow> DrainState" where
  "q_drain_fn q = (if q_allocated q = 0 then Drained else Draining)"

text \<open>A functional access asks the entries of its block in turn; labels are only for printing.\<close>

fun q_satisfy :: "(Packet \<Rightarrow> 'a QueueEntry_scheme \<Rightarrow> (bool \<times> Packet \<times> 'a QueueEntry_scheme) res) \<Rightarrow> Packet \<Rightarrow> Addr \<Rightarrow> nat list \<Rightarrow>
    ('a QueueEntry_scheme) list \<Rightarrow> (bool \<times> Packet \<times> ('a QueueEntry_scheme) list) res" where
  "q_satisfy sat pkt blk_addr [] es = ok (False, pkt, es)"
| "q_satisfy sat pkt blk_addr (i # is) es =
     (if qe_blkAddr (es ! i) \<noteq> blk_addr then q_satisfy sat pkt blk_addr is es
      else bindR (sat pkt (es ! i)) (\<lambda>(found, pkt1, e).
        if found then ok (True, pkt1, es[i := e]) else q_satisfy sat pkt1 blk_addr is (es[i := e])))"

definition q_trySatisfyFunctional :: "(Packet \<Rightarrow> 'a QueueEntry_scheme \<Rightarrow> (bool \<times> Packet \<times> 'a QueueEntry_scheme) res) \<Rightarrow> Packet \<Rightarrow> Addr \<Rightarrow>
    ('a QueueEntry_scheme) Queue \<Rightarrow> (bool \<times> Packet \<times> ('a QueueEntry_scheme) Queue) res" where
  "q_trySatisfyFunctional sat pkt blk_addr q =
     bindR (q_satisfy sat pkt blk_addr (allocatedList q) (qentries q)) (\<lambda>(found, p, es). ok (found, p, q\<lparr>qentries := es\<rparr>))"

text \<open>Both queues take the first free entry, fill it, and put it into the lists.\<close>

definition q_allocate :: "('a QueueEntry_scheme \<Rightarrow> 'a QueueEntry_scheme res) \<Rightarrow> ('a QueueEntry_scheme) Queue \<Rightarrow>
    (nat \<times> ('a QueueEntry_scheme) Queue) res" where
  "q_allocate start q =
     (case freeList q of
       [] \<Rightarrow> fail AssertFailed
     | i # is \<Rightarrow>
         bindR (start (qentries q ! i)) (\<lambda>e.
         bindR (addToReadyList i (q\<lparr>freeList := is, qentries := (qentries q)[i := e], allocatedList := allocatedList q @ [i]\<rparr>)) (\<lambda>q1.
         ok (i, q1\<lparr>q_allocated := q_allocated q1 + 1\<rparr>))))"

section \<open>The write queue\<close>

record wq_Target =
  wt_recvTime :: Tick
  wt_readyTime :: Tick
  wt_order :: u64
  wt_pkt :: Packet

record WriteQueueEntry = QueueEntry +
  wq_targets :: "wq_Target list"

type_synonym WriteQueue = "WriteQueueEntry Queue"

definition WriteQueueEntry_new :: WriteQueueEntry where
  "WriteQueueEntry_new = \<lparr>qe_readyTime = 0, qe_uncacheable = False, qe_inService = False, qe_order = 0, qe_blkAddr = 0, qe_blkSize = 0,
     qe_isSecure = False, wq_targets = []\<rparr>"

definition wq_add :: "Tick \<Rightarrow> Packet \<Rightarrow> Tick \<Rightarrow> u64 \<Rightarrow> wq_Target list \<Rightarrow> wq_Target list" where
  "wq_add now pkt ready ord ts = ts @ [\<lparr>wt_recvTime = now, wt_readyTime = ready, wt_order = ord, wt_pkt = pkt\<rparr>]"

definition wqe_allocate :: "Tick \<Rightarrow> Addr \<Rightarrow> u32 \<Rightarrow> Packet \<Rightarrow> Tick \<Rightarrow> u64 \<Rightarrow> WriteQueueEntry \<Rightarrow> WriteQueueEntry res" where
  "wqe_allocate now blk_addr blk_size target when_ready ord e =
     bindR (pkt_isSecure target) (\<lambda>secure.
     (let unc = isUncacheable (preq target);
          e1 = e\<lparr>qe_blkAddr := blk_addr, qe_blkSize := blk_size, qe_isSecure := secure, qe_readyTime := when_ready, qe_order := ord,
                 qe_uncacheable := unc, qe_inService := False\<rparr> in
      if \<not> unc \<and> wq_targets e1 \<noteq> [] then fail Panicked
      else if \<not> ((isWrite (pcmd target) \<and> unc) \<or> (isEviction (pcmd target) \<and> \<not> unc) \<or> pcmd target = WriteClean) then fail Panicked
      else ok (e1\<lparr>wq_targets := wq_add now target when_ready ord (wq_targets e1)\<rparr>)))"

definition wqe_deallocate :: "WriteQueueEntry \<Rightarrow> WriteQueueEntry res" where
  "wqe_deallocate e = assertR (wq_targets e = []) (ok (e\<lparr>qe_inService := False\<rparr>))"

definition wqe_popTarget :: "WriteQueueEntry \<Rightarrow> WriteQueueEntry res" where
  "wqe_popTarget e = (if wq_targets e = [] then fail OutOfRange else ok (e\<lparr>wq_targets := tl (wq_targets e)\<rparr>))"

fun satisfy_targets :: "Packet \<Rightarrow> wq_Target list \<Rightarrow> (bool \<times> Packet \<times> wq_Target list) res" where
  "satisfy_targets pkt [] = ok (False, pkt, [])"
| "satisfy_targets pkt (t # ts) =
     bindR (trySatisfyPacket pkt (wt_pkt t)) (\<lambda>(found, pkt1, other).
     if found then ok (True, pkt1, t\<lparr>wt_pkt := other\<rparr> # ts)
     else bindR (satisfy_targets pkt1 ts) (\<lambda>(f, p, us). ok (f, p, t\<lparr>wt_pkt := other\<rparr> # us)))"

definition wqe_trySatisfyFunctional :: "Packet \<Rightarrow> WriteQueueEntry \<Rightarrow> (bool \<times> Packet \<times> WriteQueueEntry) res" where
  "wqe_trySatisfyFunctional pkt e =
     (if isPrint (pcmd pkt) then
        bindR (trySatisfyFunctional (qe_blkAddr e) (qe_isSecure e) (uint (qe_blkSize e)) None pkt) (\<lambda>(_, p, _). ok (False, p, e))
      else bindR (satisfy_targets pkt (wq_targets e)) (\<lambda>(f, p, ts). ok (f, p, e\<lparr>wq_targets := ts\<rparr>)))"

definition WriteQueue_new :: "nat \<Rightarrow> nat \<Rightarrow> DrainState \<Rightarrow> WriteQueue" where
  "WriteQueue_new n reserve ds = Queue_new WriteQueueEntry_new n reserve ds"

definition wq_allocate :: "Tick \<Rightarrow> Addr \<Rightarrow> u32 \<Rightarrow> Packet \<Rightarrow> Tick \<Rightarrow> u64 \<Rightarrow> WriteQueue \<Rightarrow> (nat \<times> WriteQueue) res" where
  "wq_allocate now blk_addr blk_size pkt when_ready ord q =
     q_allocate (\<lambda>e. assertR (wq_targets e = []) (wqe_allocate now blk_addr blk_size pkt when_ready ord e)) q"

definition wq_markInService :: "nat \<Rightarrow> WriteQueue \<Rightarrow> (bool \<times> WriteQueue) res" where
  "wq_markInService i q =
     (if i < length (qentries q) then
        bindR (wqe_popTarget (qentries q ! i)) (\<lambda>e. q_deallocate wqe_deallocate i (q\<lparr>qentries := (qentries q)[i := e]\<rparr>))
      else fail OutOfRange)"

section \<open>The books of a queue\<close>

definition queue_ok :: "('a QueueEntry_scheme \<Rightarrow> bool) \<Rightarrow> ('a QueueEntry_scheme) Queue \<Rightarrow> bool" where
  "queue_ok fr q \<longleftrightarrow> distinct (allocatedList q @ freeList q) \<and> set (allocatedList q @ freeList q) = {..<length (qentries q)} \<and>
     numEntries q = int (length (qentries q)) \<and> q_allocated q = int (length (allocatedList q)) \<and> distinct (readyList q) \<and>
     set (readyList q) = {i \<in> set (allocatedList q). \<not> qe_inService (qentries q ! i)} \<and>
     q_numInService q = int (length (filter (\<lambda>i. qe_inService (qentries q ! i)) (allocatedList q))) \<and>
     (\<forall>i \<in> set (freeList q). fr (qentries q ! i))"

lemma queue_okD:
  assumes "queue_ok fr q"
  shows "distinct (allocatedList q)" "distinct (freeList q)" "set (allocatedList q) \<inter> set (freeList q) = {}"
    "set (allocatedList q) \<union> set (freeList q) = {..<length (qentries q)}" "i \<in> set (allocatedList q) \<Longrightarrow> i < length (qentries q)"
    "i \<in> set (freeList q) \<Longrightarrow> i < length (qentries q)" "numEntries q = int (length (qentries q))" "q_allocated q = int (length (allocatedList q))"
    "distinct (readyList q)" "set (readyList q) = {i \<in> set (allocatedList q). \<not> qe_inService (qentries q ! i)}"
    "q_numInService q = int (length (filter (\<lambda>i. qe_inService (qentries q ! i)) (allocatedList q)))"
    "\<forall>i \<in> set (freeList q). fr (qentries q ! i)"
  using assms unfolding queue_ok_def by (simp_all; auto)+

lemma queue_ok_new: "fr e \<Longrightarrow> queue_ok fr (Queue_new e n reserve ds)"
  by (auto simp: queue_ok_def Queue_new_def atLeast0LessThan)

lemma queue_ok_lengths: "queue_ok fr q \<Longrightarrow> length (allocatedList q) + length (freeList q) = length (qentries q)"
proof -
  assume q: "queue_ok fr q"
  have "card (set (allocatedList q @ freeList q)) = length (allocatedList q @ freeList q)" using q by (intro distinct_card) (simp add: queue_ok_def)
  then show ?thesis using q by (simp add: queue_ok_def)
qed

definition by_time :: "('a QueueEntry_scheme) Queue \<Rightarrow> nat list \<Rightarrow> bool" where
  "by_time q l \<longleftrightarrow> sorted_wrt (\<lambda>i j. qe_readyTime (qentries q ! i) \<le> qe_readyTime (qentries q ! j)) l"

lemma by_time_cong:
  "\<forall>j \<in> set l. qe_readyTime (qentries q' ! j) = qe_readyTime (qentries q ! j) \<Longrightarrow> by_time q' l = by_time q l"
  unfolding by_time_def by (induction l) auto

lemma int_length_remove1: "int (length (remove1 x xs)) = int (length xs) - (if x \<in> set xs then 1 else 0)"
  by (induction xs) auto

lemma ready_before_ok:
  "\<exists>j \<in> set l. qe_readyTime (es ! j) > qe_readyTime (es ! i) \<Longrightarrow>
    \<exists>as bs. ready_before es i l = Inr (as @ i # bs) \<and> l = as @ bs \<and> (\<forall>j \<in> set as. qe_readyTime (es ! j) \<le> qe_readyTime (es ! i)) \<and>
      bs \<noteq> [] \<and> qe_readyTime (es ! hd bs) > qe_readyTime (es ! i)"
proof (induction l)
  case (Cons j l)
  show ?case
  proof (cases "qe_readyTime (es ! j) > qe_readyTime (es ! i)")
    case True
    then show ?thesis by (intro exI [of _ "[]"] exI [of _ "j # l"]) simp
  next
    case False
    then obtain as bs where "ready_before es i l = Inr (as @ i # bs)" "l = as @ bs" "\<forall>j \<in> set as. qe_readyTime (es ! j) \<le> qe_readyTime (es ! i)"
      "bs \<noteq> []" "qe_readyTime (es ! hd bs) > qe_readyTime (es ! i)" using Cons by auto
    then show ?thesis using False by (intro exI [of _ "j # as"] exI [of _ bs]) auto
  qed
qed simp

text \<open>The new entry goes behind those that are ready no later; the list is never searched in vain.\<close>

lemma addToReadyList_ok:
  "\<exists>as bs. addToReadyList i q = Inr (q\<lparr>readyList := as @ i # bs\<rparr>) \<and> readyList q = as @ bs \<and>
    (by_time q (readyList q) \<longrightarrow> (\<forall>j \<in> set as. qe_readyTime (qentries q ! j) \<le> qe_readyTime (qentries q ! i)) \<and>
      (\<forall>j \<in> set bs. qe_readyTime (qentries q ! j) > qe_readyTime (qentries q ! i)))"
proof (cases "readyList q = [] \<or> qe_readyTime (qentries q ! last (readyList q)) \<le> qe_readyTime (qentries q ! i)")
  case True
  have "\<forall>j \<in> set (readyList q). qe_readyTime (qentries q ! j) \<le> qe_readyTime (qentries q ! i)" if "by_time q (readyList q)"
  proof
    fix j assume j: "j \<in> set (readyList q)"
    then obtain l where l: "readyList q = l @ [last (readyList q)]" by (metis append_butlast_last_id list.set(1) empty_iff)
    then have "j = last (readyList q) \<or> j \<in> set l" using j by (metis Un_iff insertE list.set(1) list.set(2) set_append empty_iff)
    moreover have "j \<in> set l \<Longrightarrow> qe_readyTime (qentries q ! j) \<le> qe_readyTime (qentries q ! last (readyList q))"
      using that unfolding by_time_def by (subst (asm) l) (simp add: sorted_wrt_append)
    ultimately show "qe_readyTime (qentries q ! j) \<le> qe_readyTime (qentries q ! i)" using True j by (auto simp: empty_iff)
  qed
  then show ?thesis using True by (intro exI [of _ "readyList q"] exI [of _ "[]"]) (simp add: addToReadyList_def Let_def)
next
  case False
  then have "\<exists>j \<in> set (readyList q). qe_readyTime (qentries q ! j) > qe_readyTime (qentries q ! i)" using last_in_set by fastforce
  from ready_before_ok [OF this] obtain as bs where r: "ready_before (qentries q) i (readyList q) = Inr (as @ i # bs)" "readyList q = as @ bs"
    "\<forall>j \<in> set as. qe_readyTime (qentries q ! j) \<le> qe_readyTime (qentries q ! i)" "bs \<noteq> []"
    "qe_readyTime (qentries q ! hd bs) > qe_readyTime (qentries q ! i)" by blast
  have "\<forall>j \<in> set bs. qe_readyTime (qentries q ! j) > qe_readyTime (qentries q ! i)" if "by_time q (readyList q)"
  proof -
    have "sorted_wrt (\<lambda>i j. qe_readyTime (qentries q ! i) \<le> qe_readyTime (qentries q ! j)) bs" using that r(2) by (simp add: by_time_def sorted_wrt_append)
    then show ?thesis using r(4,5) by (cases bs) (auto intro: less_le_trans)
  qed
  then show ?thesis using False r(1-3) by (intro exI [of _ as] exI [of _ bs]) (simp add: addToReadyList_def Let_def)
qed

lemma allocate_step:
  assumes "queue_ok fr q" "freeList q = i # is" "start (qentries q ! i) = Inr e" "\<not> qe_inService e"
  shows "\<exists>q' as bs. q_allocate start q = Inr (i, q') \<and> queue_ok fr q' \<and> allocatedList q' = allocatedList q @ [i] \<and>
    qentries q' = (qentries q)[i := e] \<and> readyList q' = as @ i # bs \<and> readyList q = as @ bs \<and> q_drain q' = q_drain q \<and>
    numEntries q' = numEntries q \<and> numReserve q' = numReserve q \<and>
    (by_time q (readyList q) \<longrightarrow> (\<forall>j \<in> set as. qe_readyTime (qentries q ! j) \<le> qe_readyTime e) \<and>
      (\<forall>j \<in> set bs. qe_readyTime (qentries q ! j) > qe_readyTime e))"
proof -
  let ?q = "q\<lparr>freeList := is, qentries := (qentries q)[i := e], allocatedList := allocatedList q @ [i]\<rparr>"
  note ok = queue_okD [OF assms(1)]
  have i: "i < length (qentries q)" "i \<notin> set (allocatedList q)" "i \<notin> set is" "i \<notin> set (readyList q)" "distinct is" using ok assms(2) by auto
  obtain as bs where r: "addToReadyList i ?q = Inr (?q\<lparr>readyList := as @ i # bs\<rparr>)" "readyList q = as @ bs"
    "by_time ?q (readyList ?q) \<longrightarrow> (\<forall>j \<in> set as. qe_readyTime (qentries ?q ! j) \<le> qe_readyTime (qentries ?q ! i)) \<and>
      (\<forall>j \<in> set bs. qe_readyTime (qentries ?q ! j) > qe_readyTime (qentries ?q ! i))"
    using addToReadyList_ok [of i ?q] by auto
  have other: "(qentries q)[i := e] ! j = qentries q ! j" if "j \<in> set (allocatedList q)" for j
    using that i(2) by (metis nth_list_update_neq)
  have sorted: "by_time ?q (readyList ?q) = by_time q (readyList q)"
  proof -
    have "\<forall>j \<in> set (readyList q). qe_readyTime (qentries ?q ! j) = qe_readyTime (qentries q ! j)"
    proof
      fix j assume "j \<in> set (readyList q)"
      then have "j \<noteq> i" using i(4) by blast
      then show "qe_readyTime (qentries ?q ! j) = qe_readyTime (qentries q ! j)" by simp
    qed
    from by_time_cong [OF this] show ?thesis by simp
  qed
  let ?q' = "?q\<lparr>readyList := as @ i # bs, q_allocated := q_allocated q + 1\<rparr>"
  have "q_allocate start q = Inr (i, ?q')" using assms(2,3) r(1) by (simp add: q_allocate_def)
  moreover have "queue_ok fr ?q'"
  proof -
    have "filter (\<lambda>j. qe_inService ((qentries q)[i := e] ! j)) (allocatedList q) = filter (\<lambda>j. qe_inService (qentries q ! j)) (allocatedList q)"
      by (intro filter_cong) (simp_all add: other)
    then show ?thesis using ok i r(2) assms(2,4) unfolding queue_ok_def by (auto simp: nth_list_update other)
  qed
  moreover have "(\<forall>j \<in> set as. qe_readyTime (qentries q ! j) \<le> qe_readyTime e) \<and> (\<forall>j \<in> set bs. qe_readyTime (qentries q ! j) > qe_readyTime e)"
    if "by_time q (readyList q)" using r(2,3) sorted that i(1,4) by (auto simp: nth_list_update split: if_splits)
  ultimately show ?thesis using r(2) by (intro exI [of _ ?q'] exI [of _ as] exI [of _ bs]) simp
qed

lemma deallocate_step:
  assumes "queue_ok fr q" "i \<in> set (allocatedList q)" "stop (qentries q ! i) = Inr e" "fr e"
  shows "\<exists>q'. q_deallocate stop i q = Inr (q_drain q = Draining \<and> length (allocatedList q) = 1, q') \<and> queue_ok fr q' \<and>
    allocatedList q' = remove1 i (allocatedList q) \<and> qentries q' = (qentries q)[i := e] \<and> readyList q' = remove1 i (readyList q) \<and>
    numEntries q' = numEntries q \<and> numReserve q' = numReserve q \<and>
    q_drain q' = (if q_drain q = Draining \<and> length (allocatedList q) = 1 then Drained else q_drain q)"
proof -
  note ok = queue_okD [OF assms(1)]
  let ?e = "qentries q ! i"
  have i: "i < length (qentries q)" "i \<notin> set (freeList q)" using ok assms(2) by auto
  have r: "qe_inService ?e \<longleftrightarrow> i \<notin> set (readyList q)" using ok(10) assms(2) by auto
  let ?last = "q_drain q = Draining \<and> length (allocatedList q) = 1"
  let ?q' = "q\<lparr>allocatedList := remove1 i (allocatedList q), freeList := i # freeList q, q_allocated := q_allocated q - 1,
    q_numInService := q_numInService q - (if qe_inService ?e then 1 else 0), readyList := remove1 i (readyList q),
    qentries := (qentries q)[i := e], q_drain := (if ?last then Drained else q_drain q)\<rparr>"
  have "q_allocated q - 1 = 0 \<longleftrightarrow> length (allocatedList q) = 1" using ok(8) assms(2) by auto
  then have "q_deallocate stop i q = Inr (?last, ?q')"
    using assms(2,3) r by (cases "qe_inService ?e") (auto simp: q_deallocate_def Let_def remove1_idem)
  moreover have "queue_ok fr ?q'"
  proof -
    have f: "filter (\<lambda>j. qe_inService ((qentries q)[i := e] ! j)) (remove1 i (allocatedList q)) = remove1 i (filter (\<lambda>j. qe_inService (qentries q ! j)) (allocatedList q))"
      unfolding filter_remove1 [symmetric] using ok(1) by (intro filter_cong) (auto simp: nth_list_update)
    have "i \<in> set (filter (\<lambda>j. qe_inService (qentries q ! j)) (allocatedList q)) \<longleftrightarrow> qe_inService ?e" using assms(2) by simp
    then have "int (length (remove1 i (filter (\<lambda>j. qe_inService (qentries q ! j)) (allocatedList q)))) = q_numInService q - (if qe_inService ?e then 1 else 0)"
      using ok(11) by (simp add: int_length_remove1)
    moreover have "int (length (remove1 i (allocatedList q))) = q_allocated q - 1"
      using ok(8) assms(2) by (simp add: int_length_remove1)
    ultimately show ?thesis using ok i assms(2,4) f unfolding queue_ok_def by (auto simp: nth_list_update distinct_remove1)
  qed
  ultimately show ?thesis by (intro exI [of _ ?q']) simp
qed

text \<open>
  What a queue needs of its entries: a started entry is not in service, a stopped one is free again. The books of the
  queue are then kept by every allocation and every deallocation.
\<close>

locale entry_class =
  fixes free_entry :: "'a QueueEntry_scheme \<Rightarrow> bool"
    and start :: "'x \<Rightarrow> 'a QueueEntry_scheme \<Rightarrow> 'a QueueEntry_scheme res"
    and stop :: "'a QueueEntry_scheme \<Rightarrow> 'a QueueEntry_scheme res"
  assumes start_law: "start x e = Inr e' \<Longrightarrow> free_entry e \<and> \<not> qe_inService e'"
    and stop_law: "stop e = Inr e' \<Longrightarrow> free_entry e'"
begin

lemma allocate_keeps:
  assumes "queue_ok free_entry q" "q_allocate (start x) q = Inr (i, q')"
  shows "queue_ok free_entry q' \<and> hd (freeList q) = i \<and> allocatedList q' = allocatedList q @ [i] \<and> i < length (qentries q) \<and> i \<notin> set (allocatedList q) \<and>
    (\<exists>e. start x (qentries q ! i) = Inr e \<and> qentries q' = (qentries q)[i := e] \<and> (\<exists>as bs. readyList q' = as @ i # bs \<and> readyList q = as @ bs \<and>
      (by_time q (readyList q) \<longrightarrow> (\<forall>j \<in> set as. qe_readyTime (qentries q ! j) \<le> qe_readyTime e) \<and>
        (\<forall>j \<in> set bs. qe_readyTime (qentries q ! j) > qe_readyTime e))))"
proof -
  obtain j js e where j: "freeList q = j # js" "start x (qentries q ! j) = Inr e"
    using assms(2) by (auto simp: q_allocate_def bindR_eq_Inr split: list.splits)
  have e: "\<not> qe_inService e" using start_law [OF j(2)] by simp
  have "j < length (qentries q)" "j \<notin> set (allocatedList q)" using queue_okD(3) [OF assms(1)] queue_okD(6) [OF assms(1), of j] j(1) by auto
  then show ?thesis using allocate_step [of free_entry q j js "start x" e, OF assms(1) j e] assms(2) j by auto
qed

lemma deallocate_keeps:
  assumes "queue_ok free_entry q" "q_deallocate stop i q = Inr (b, q')"
  shows "queue_ok free_entry q' \<and> i \<in> set (allocatedList q) \<and> allocatedList q' = remove1 i (allocatedList q) \<and>
    readyList q' = remove1 i (readyList q) \<and> (\<exists>e. stop (qentries q ! i) = Inr e \<and> qentries q' = (qentries q)[i := e]) \<and>
    (b \<longleftrightarrow> q_drain q = Draining \<and> length (allocatedList q) = 1)"
proof -
  have i: "i \<in> set (allocatedList q)" using assms(2) by (auto simp: q_deallocate_def split: if_splits)
  obtain e where e: "stop (qentries q ! i) = Inr e" using assms(2) i by (auto simp: q_deallocate_def bindR_eq_Inr Let_def split: if_splits)
  from deallocate_step [of free_entry q i stop e, OF assms(1) i e stop_law [OF e]] assms(2) i e show ?thesis by auto
qed

text \<open>There is always room below the full mark, and above it while the reserve lasts.\<close>

lemma room_below_full:
  assumes "queue_ok free_entry q" "\<not> q_isFull q \<or> q_allocated q < numEntries q" "0 \<le> numReserve q"
  shows "\<exists>i js. freeList q = i # js \<and> i < length (qentries q) \<and> free_entry (qentries q ! i)"
proof -
  have "length (allocatedList q) < length (qentries q)"
    using assms(2,3) queue_okD(7,8) [OF assms(1)] by (auto simp: q_isFull_def)
  then obtain i js where "freeList q = i # js" using queue_ok_lengths [OF assms(1)] by (cases "freeList q") auto
  then show ?thesis using queue_okD(6,12) [OF assms(1)] by auto
qed

end

text \<open>The write queue.\<close>

interpretation wq: entry_class "\<lambda>e. wq_targets e = []"
  "\<lambda>(now, blk_addr, blk_size, pkt, ready, ord) e. assertR (wq_targets e = []) (wqe_allocate now blk_addr blk_size pkt ready ord e)" wqe_deallocate
  by unfold_locales (auto simp: assertR_eq_Inr wqe_allocate_def bindR_eq_Inr wqe_deallocate_def Let_def split: if_splits)

section \<open>The write queue is a queue by time\<close>

inductive wq_reach :: "WriteQueue \<Rightarrow> bool" where
  wq_start: "wq_reach (WriteQueue_new n reserve ds)"
| wq_alloc: "wq_reach q \<Longrightarrow> wq_allocate now blk_addr blk_size pkt ready ord q = Inr (i, q') \<Longrightarrow> wq_reach q'"
| wq_sent: "wq_reach q \<Longrightarrow> wq_markInService i q = Inr (b, q') \<Longrightarrow> wq_reach q'"
| wq_draining: "wq_reach q \<Longrightarrow> wq_reach (q\<lparr>q_drain := d\<rparr>)"
| wq_func: "wq_reach q \<Longrightarrow> q_trySatisfyFunctional wqe_trySatisfyFunctional pkt a q = Inr (f, p, q') \<Longrightarrow> wq_reach q'"

definition ready_time :: "('a QueueEntry_scheme) Queue \<Rightarrow> nat \<Rightarrow> Tick" where
  "ready_time q i = qe_readyTime (qentries q ! i)"

definition wq_inv :: "WriteQueue \<Rightarrow> bool" where
  "wq_inv q \<longleftrightarrow> queue_ok (\<lambda>e. wq_targets e = []) q \<and> 0 \<le> numReserve q \<and>
     (\<forall>i \<in> set (allocatedList q). \<not> qe_inService (qentries q ! i) \<and> length (wq_targets (qentries q ! i)) = 1) \<and>
     readyList q = sort_key (ready_time q) (allocatedList q)"

lemma insort_key_cong_set: "f x = g x \<Longrightarrow> (\<forall>y \<in> set xs. f y = g y) \<Longrightarrow> insort_key f x xs = insort_key g x xs"
  by (induction xs) auto

lemma sort_key_cong_set: "(\<forall>x \<in> set xs. f x = g x) \<Longrightarrow> sort_key f xs = sort_key g xs"
proof (induction xs)
  case (Cons x xs)
  then have "sort_key f xs = sort_key g xs" by simp
  then show ?case using insort_key_cong_set [of f x g "sort_key g xs"] Cons.prems by simp
qed simp

lemma sort_key_keeps: "filter (\<lambda>y. f k = f y) (sort_key f xs) = filter (\<lambda>y. f k = f y) xs"
  using sort_key_stable [of f "f k" xs] by (simp add: eq_commute)

lemma sort_key_append:
  assumes "sort_key f xs = as @ bs" "\<forall>y \<in> set as. f y \<le> f x" "\<forall>y \<in> set bs. f y > f (x :: 'a)"
  shows "sort_key f (xs @ [x]) = as @ x # bs"
proof (rule properties_for_sort_key)
  show "mset (as @ x # bs) = mset (xs @ [x])" using arg_cong [OF assms(1), of mset] by simp
  have s: "sorted (map f (as @ bs))" using assms(1) sorted_sort_key by metis
  then show "sorted (map f (as @ x # bs))" using assms(2,3) by (auto simp: sorted_append less_imp_le)
  fix k
  have "filter (\<lambda>y. f k = f y) (as @ bs) = filter (\<lambda>y. f k = f y) xs" using sort_key_keeps [of f k xs] assms(1) by simp
  moreover have "filter (\<lambda>y. f k = f y) bs = []" if "f k = f x" using that assms(3) by (auto simp: filter_empty_conv)
  ultimately show "filter (\<lambda>y. f k = f y) (as @ x # bs) = filter (\<lambda>y. f k = f y) (xs @ [x])" by auto
qed

lemma sort_key_remove1: "distinct xs \<Longrightarrow> sort_key f (remove1 x xs) = remove1 x (sort_key f xs)"
  by (simp add: distinct_remove1_removeAll removeAll_filter_not_eq filter_sort)

lemma queue_ok_entries:
  assumes "queue_ok fr q" "length es = length (qentries q)" "\<forall>i. qe_inService (es ! i) = qe_inService (qentries q ! i)"
    "\<forall>i \<in> set (freeList q). fr (es ! i)"
  shows "queue_ok fr (q\<lparr>qentries := es\<rparr>)"
  using assms unfolding queue_ok_def by simp

text \<open>Functional accesses may write the data of a waiting packet, nothing else.\<close>

definition same_wq :: "WriteQueueEntry list \<Rightarrow> WriteQueueEntry list \<Rightarrow> bool" where
  "same_wq es es' \<longleftrightarrow> length es' = length es \<and>
     (\<forall>i. \<exists>ts. length ts = length (wq_targets (es ! i)) \<and> es' ! i = (es ! i)\<lparr>wq_targets := ts\<rparr>)"

lemma satisfy_targets_length: "satisfy_targets pkt ts = Inr (f, p, us) \<Longrightarrow> length us = length ts"
proof (induction ts arbitrary: pkt f p us)
  case (Cons t ts)
  obtain found pkt1 other where o: "trySatisfyPacket pkt (wt_pkt t) = Inr (found, pkt1, other)"
    using Cons.prems by (cases "trySatisfyPacket pkt (wt_pkt t)") auto
  show ?case
  proof (cases found)
    case True
    then show ?thesis using Cons.prems o by auto
  next
    case False
    then obtain g p1 vs where "satisfy_targets pkt1 ts = Inr (g, p1, vs)" "us = t\<lparr>wt_pkt := other\<rparr> # vs"
      using Cons.prems o by (cases "satisfy_targets pkt1 ts") auto
    then show ?thesis using Cons.IH by simp
  qed
qed simp

lemma same_wq_refl: "same_wq es es"
proof -
  have "es ! i = (es ! i)\<lparr>wq_targets := wq_targets (es ! i)\<rparr>" for i by (cases "es ! i") simp
  then show ?thesis unfolding same_wq_def by blast
qed

lemma same_wq_trans:
  assumes "same_wq es fs" "same_wq fs gs"
  shows "same_wq es gs"
proof -
  have "\<exists>ts. length ts = length (wq_targets (es ! i)) \<and> gs ! i = (es ! i)\<lparr>wq_targets := ts\<rparr>" for i
  proof -
    obtain ts where "length ts = length (wq_targets (es ! i))" "fs ! i = (es ! i)\<lparr>wq_targets := ts\<rparr>"
      using assms(1) unfolding same_wq_def by blast
    moreover obtain us where "length us = length (wq_targets (fs ! i))" "gs ! i = (fs ! i)\<lparr>wq_targets := us\<rparr>"
      using assms(2) unfolding same_wq_def by blast
    ultimately show ?thesis by (intro exI [of _ us]) simp
  qed
  then show ?thesis using assms by (simp add: same_wq_def)
qed

lemma same_wq_update:
  assumes "wqe_trySatisfyFunctional pkt (es ! i) = Inr (f, p, e)"
  shows "same_wq es (es[i := e])"
proof -
  obtain ts where ts: "length ts = length (wq_targets (es ! i))" "e = (es ! i)\<lparr>wq_targets := ts\<rparr>"
  proof (cases "isPrint (pcmd pkt)")
    case True
    then have "e = es ! i" using assms by (auto simp: wqe_trySatisfyFunctional_def bindR_eq_Inr)
    then show thesis using that [of "wq_targets (es ! i)"] by (cases "es ! i") simp
  next
    case False
    then obtain g p1 us where "satisfy_targets pkt (wq_targets (es ! i)) = Inr (g, p1, us)" "e = (es ! i)\<lparr>wq_targets := us\<rparr>"
      using assms by (cases "satisfy_targets pkt (wq_targets (es ! i))") (auto simp: wqe_trySatisfyFunctional_def)
    then show thesis using that [of us] satisfy_targets_length by blast
  qed
  have "\<exists>us. length us = length (wq_targets (es ! j)) \<and> es[i := e] ! j = (es ! j)\<lparr>wq_targets := us\<rparr>" for j
  proof (cases "j = i \<and> i < length es")
    case True
    then show ?thesis using ts by auto
  next
    case False
    then have "es[i := e] ! j = es ! j" by (metis list_update_beyond not_le nth_list_update_neq)
    then show ?thesis by (intro exI [of _ "wq_targets (es ! j)"]) (cases "es ! j"; simp)
  qed
  then show ?thesis by (simp add: same_wq_def)
qed

lemma q_satisfy_same: "q_satisfy wqe_trySatisfyFunctional pkt a is es = Inr (f, p, es') \<Longrightarrow> same_wq es es'"
proof (induction "is" arbitrary: pkt es)
  case (Cons i "is")
  show ?case
  proof (cases "qe_blkAddr (es ! i) \<noteq> a")
    case True
    then show ?thesis using Cons by simp
  next
    case False
    obtain found pkt1 e where e: "wqe_trySatisfyFunctional pkt (es ! i) = Inr (found, pkt1, e)"
      using Cons.prems False by (cases "wqe_trySatisfyFunctional pkt (es ! i)") auto
    show ?thesis
    proof (cases found)
      case True
      then show ?thesis using Cons.prems False e same_wq_update [OF e] by simp
    next
      case nf: False
      then have "q_satisfy wqe_trySatisfyFunctional pkt1 a is (es[i := e]) = Inr (f, p, es')" using Cons.prems False e by simp
      from Cons.IH [OF this] show ?thesis by (rule same_wq_trans [OF same_wq_update [OF e]])
    qed
  qed
qed (simp add: same_wq_refl)

lemma same_wqD:
  assumes "same_wq es es'"
  shows "length es' = length es" "qe_inService (es' ! i) = qe_inService (es ! i)" "qe_readyTime (es' ! i) = qe_readyTime (es ! i)"
    "length (wq_targets (es' ! i)) = length (wq_targets (es ! i))"
proof -
  obtain ts where "length ts = length (wq_targets (es ! i))" "es' ! i = (es ! i)\<lparr>wq_targets := ts\<rparr>" using assms by (auto simp: same_wq_def)
  then show "qe_inService (es' ! i) = qe_inService (es ! i)" "qe_readyTime (es' ! i) = qe_readyTime (es ! i)"
    "length (wq_targets (es' ! i)) = length (wq_targets (es ! i))" by simp_all
qed (use assms in \<open>simp add: same_wq_def\<close>)

lemma by_time_sorted: "by_time q l \<longleftrightarrow> sorted (map (ready_time q) l)"
  by (simp add: by_time_def ready_time_def sorted_map)

lemma wq_alloc_inv:
  assumes "wq_inv q" "wq_allocate now blk_addr blk_size pkt ready ord q = Inr (i, q')"
  shows "wq_inv q'"
proof -
  let ?x = "(now, blk_addr, blk_size, pkt, ready, ord)"
  have ok: "queue_ok (\<lambda>e. wq_targets e = []) q" and inv: "0 \<le> numReserve q"
    "\<forall>i \<in> set (allocatedList q). \<not> qe_inService (qentries q ! i) \<and> length (wq_targets (qentries q ! i)) = 1"
    "readyList q = sort_key (ready_time q) (allocatedList q)" using assms(1) by (simp_all add: wq_inv_def)
  have a: "q_allocate ((\<lambda>(now, blk_addr, blk_size, pkt, ready, ord) e. assertR (wq_targets e = []) (wqe_allocate now blk_addr blk_size pkt ready ord e)) ?x) q =
    Inr (i, q')" using assms(2) by (simp add: wq_allocate_def)
  from wq.allocate_keeps [OF ok a] obtain e as bs where q': "queue_ok (\<lambda>e. wq_targets e = []) q'" "allocatedList q' = allocatedList q @ [i]"
    "i < length (qentries q)" "i \<notin> set (allocatedList q)" "assertR (wq_targets (qentries q ! i) = []) (wqe_allocate now blk_addr blk_size pkt ready ord (qentries q ! i)) = Inr e"
    "qentries q' = (qentries q)[i := e]" "readyList q' = as @ i # bs" "readyList q = as @ bs"
    "by_time q (readyList q) \<longrightarrow> (\<forall>j \<in> set as. qe_readyTime (qentries q ! j) \<le> qe_readyTime e) \<and> (\<forall>j \<in> set bs. qe_readyTime (qentries q ! j) > qe_readyTime e)"
    by auto
  have e: "\<not> qe_inService e" "length (wq_targets e) = 1"
    using q'(5) by (auto simp: assertR_eq_Inr wqe_allocate_def bindR_eq_Inr wq_add_def Let_def split: if_splits)
  have other: "qentries q' ! j = qentries q ! j" if "j \<in> set (allocatedList q)" for j using that q'(4,6) by (metis nth_list_update_neq)
  have mem: "set as \<union> set bs = set (allocatedList q)" using q'(8) inv(3) by (metis set_append set_sort)
  have "by_time q (readyList q)" unfolding by_time_sorted inv(3) by (rule sorted_sort_key)
  then have "\<forall>j \<in> set as. ready_time q' j \<le> ready_time q' i" "\<forall>j \<in> set bs. ready_time q' j > ready_time q' i"
  proof -
    have "ready_time q' i = qe_readyTime e" using q'(3,6) by (simp add: ready_time_def)
    moreover have "ready_time q' j = qe_readyTime (qentries q ! j)" if "j \<in> set as \<union> set bs" for j
      using that mem other by (simp add: ready_time_def)
    ultimately show "\<forall>j \<in> set as. ready_time q' j \<le> ready_time q' i" "\<forall>j \<in> set bs. ready_time q' j > ready_time q' i"
      using q'(9) \<open>by_time q (readyList q)\<close> by simp_all
  qed
  moreover have "sort_key (ready_time q') (allocatedList q) = as @ bs"
    using sort_key_cong_set [of "allocatedList q" "ready_time q'" "ready_time q"] other inv(3) q'(8) by (simp add: ready_time_def)
  ultimately have "sort_key (ready_time q') (allocatedList q @ [i]) = as @ i # bs" using sort_key_append [of "ready_time q'" "allocatedList q" as bs i] by simp
  moreover have "numReserve q' = numReserve q" using a by (auto simp: q_allocate_def bindR_eq_Inr addToReadyList_def Let_def split: list.splits)
  ultimately show ?thesis using q'(1-3,6,7) inv e other by (auto simp: wq_inv_def)
qed

lemma wq_sent_inv:
  assumes "wq_inv q" "i \<in> set (allocatedList q)"
  shows "\<exists>q'. wq_markInService i q = Inr (q_drain q = Draining \<and> length (allocatedList q) = 1, q') \<and> wq_inv q' \<and>
    allocatedList q' = remove1 i (allocatedList q) \<and> readyList q' = remove1 i (readyList q)"
proof -
  have ok: "queue_ok (\<lambda>e. wq_targets e = []) q" and inv: "0 \<le> numReserve q"
    "\<forall>i \<in> set (allocatedList q). \<not> qe_inService (qentries q ! i) \<and> length (wq_targets (qentries q ! i)) = 1"
    "readyList q = sort_key (ready_time q) (allocatedList q)" using assms(1) by (simp_all add: wq_inv_def)
  note okD = queue_okD [OF ok]
  let ?e = "(qentries q ! i)\<lparr>wq_targets := []\<rparr>"
  let ?q = "q\<lparr>qentries := (qentries q)[i := ?e]\<rparr>"
  have i: "i < length (qentries q)" "i \<notin> set (freeList q)" using okD assms(2) by auto
  obtain t where t: "wq_targets (qentries q ! i) = [t]" using inv(2) assms(2) by (auto simp: length_Suc_conv)
  then have pop: "wqe_popTarget (qentries q ! i) = Inr ?e" by (simp add: wqe_popTarget_def)
  have srv: "qe_inService ((qentries q)[i := ?e] ! j) = qe_inService (qentries q ! j)" for j
    using i(1) by (cases "j = i") simp_all
  have "\<forall>j \<in> set (freeList q). wq_targets ((qentries q)[i := ?e] ! j) = []" using okD(12) i(2) by (metis nth_list_update_neq)
  then have ok1: "queue_ok (\<lambda>e. wq_targets e = []) ?q" using queue_ok_entries [OF ok] srv by simp
  have stop: "wqe_deallocate (qentries ?q ! i) = Inr (?e\<lparr>qe_inService := False\<rparr>)" using i(1) by (simp add: wqe_deallocate_def)
  obtain q' where q': "q_deallocate wqe_deallocate i ?q = Inr (q_drain q = Draining \<and> length (allocatedList q) = 1, q')"
    "queue_ok (\<lambda>e. wq_targets e = []) q'" "allocatedList q' = remove1 i (allocatedList q)" "qentries q' = (qentries ?q)[i := ?e\<lparr>qe_inService := False\<rparr>]"
    "readyList q' = remove1 i (readyList q)" "numReserve q' = numReserve q"
    using deallocate_step [of _ ?q i wqe_deallocate, OF ok1 _ stop] assms(2) by auto
  have other: "qentries q' ! j = qentries q ! j" if "j \<in> set (remove1 i (allocatedList q))" for j
  proof -
    have "j \<noteq> i" using that okD(1) by auto
    then show ?thesis using q'(4) by simp
  qed
  have "sort_key (ready_time q') (remove1 i (allocatedList q)) = sort_key (ready_time q) (remove1 i (allocatedList q))"
    by (rule sort_key_cong_set) (simp add: ready_time_def other)
  also have "\<dots> = remove1 i (sort_key (ready_time q) (allocatedList q))" by (rule sort_key_remove1 [OF okD(1)])
  finally have "readyList q' = sort_key (ready_time q') (allocatedList q')" using inv(3) q'(3,5) by simp
  moreover have srv': "\<forall>j \<in> set (allocatedList q'). \<not> qe_inService (qentries q' ! j) \<and> length (wq_targets (qentries q' ! j)) = 1"
    using other inv(2) q'(3) by (metis notin_set_remove1)
  ultimately have "wq_inv q'" using q'(2,6) inv(1) by (simp add: wq_inv_def)
  moreover have "wq_markInService i q = q_deallocate wqe_deallocate i ?q" using i(1) pop by (simp add: wq_markInService_def)
  ultimately show ?thesis using q' by auto
qed

lemma wq_func_inv:
  assumes "wq_inv q" "q_trySatisfyFunctional wqe_trySatisfyFunctional pkt a q = Inr (f, p, q')"
  shows "wq_inv q'"
proof -
  obtain es where es: "q_satisfy wqe_trySatisfyFunctional pkt a (allocatedList q) (qentries q) = Inr (f, p, es)" "q' = q\<lparr>qentries := es\<rparr>"
    using assms(2) by (auto simp: q_trySatisfyFunctional_def bindR_eq_Inr)
  note same = same_wqD [OF q_satisfy_same [OF es(1)]]
  have ok: "queue_ok (\<lambda>e. wq_targets e = []) q" using assms(1) by (simp add: wq_inv_def)
  have free: "\<forall>j \<in> set (freeList q). wq_targets (es ! j) = []" using queue_okD(12) [OF ok] same(4) by (metis length_0_conv)
  have "ready_time (q\<lparr>qentries := es\<rparr>) = ready_time q" using same(3) by (simp add: ready_time_def fun_eq_iff)
  then show ?thesis using assms(1) es(2) queue_ok_entries [OF ok same(1) _ free] same(2,4) by (simp add: wq_inv_def)
qed

lemma wq_reach_inv: "wq_reach q \<Longrightarrow> wq_inv q"
proof (induction rule: wq_reach.induct)
  case (wq_start n reserve ds)
  have "queue_ok (\<lambda>e. wq_targets e = []) (WriteQueue_new n reserve ds)" unfolding WriteQueue_new_def
    by (rule queue_ok_new) (simp add: WriteQueueEntry_new_def)
  then show ?case by (simp add: wq_inv_def WriteQueue_new_def Queue_new_def)
next
  case (wq_sent q i b q')
  have "i \<in> set (allocatedList q)" using wq_sent.hyps(2) by (auto simp: wq_markInService_def q_deallocate_def bindR_eq_Inr split: if_splits)
  from wq_sent_inv [OF wq_sent.IH this] show ?case using wq_sent.hyps(2) by auto
next
  case (wq_draining q d)
  have "ready_time (q\<lparr>q_drain := d\<rparr>) = ready_time q" by (simp add: ready_time_def fun_eq_iff)
  moreover have "queue_ok fr (q\<lparr>q_drain := d\<rparr>) = queue_ok fr q" for fr by (simp add: queue_ok_def)
  ultimately show ?case using wq_draining.IH by (simp add: wq_inv_def)
qed (use wq_alloc_inv wq_func_inv in blast)+

text \<open>C18: The write queue is a queue by time that keeps the order of arrival: its ready list is its entries in order of arrival,
  sorted stably by the time they are ready, so that the next entry is the earliest, and there is none only if none is ready.\<close>
theorem write_queue_by_time:
  assumes "wq_reach q"
  shows "readyList q = sort_key (ready_time q) (allocatedList q) \<and>
    (case getNext now q of None \<Rightarrow> \<forall>j \<in> set (allocatedList q). ready_time q j > now
     | Some i \<Rightarrow> i \<in> set (allocatedList q) \<and> ready_time q i \<le> now \<and> (\<forall>j \<in> set (allocatedList q). ready_time q i \<le> ready_time q j)) \<and>
    nextReadyTime q = (if allocatedList q = [] then MaxTick else Min (ready_time q ` set (allocatedList q)))"
proof -
  have r: "readyList q = sort_key (ready_time q) (allocatedList q)" using wq_reach_inv [OF assms] by (simp add: wq_inv_def)
  then have s: "set (readyList q) = set (allocatedList q)" "sorted (map (ready_time q) (readyList q))" by simp_all
  show ?thesis
  proof (cases "readyList q")
    case Nil
    then have "allocatedList q = []" using s(1) by simp
    then show ?thesis using r Nil by (simp add: getNext_def nextReadyTime_def)
  next
    case (Cons i l)
    then have least: "i \<in> set (allocatedList q)" "\<forall>j \<in> set (allocatedList q). ready_time q i \<le> ready_time q j"
      using s by (auto simp: sorted_append)
    then have "Min (ready_time q ` set (allocatedList q)) = ready_time q i" by (intro Min_eqI) auto
    moreover have "allocatedList q \<noteq> []" using least(1) by auto
    moreover have "nextReadyTime q = ready_time q i" "getNext now q = (if ready_time q i > now then None else Some i)"
      using Cons by (simp_all add: nextReadyTime_def getNext_def ready_time_def)
    moreover have "ready_time q i > now \<Longrightarrow> \<forall>j \<in> set (allocatedList q). ready_time q j > now" using least(2) by (meson less_le_trans)
    ultimately show ?thesis using r least by (auto simp: not_less)
  qed
qed

definition wq_legal :: "Packet \<Rightarrow> bool" where
  "wq_legal pkt \<longleftrightarrow> isSet (pflags pkt) VALID_ADDR \<and>
     ((isWrite (pcmd pkt) \<and> isUncacheable (preq pkt)) \<or> (isEviction (pcmd pkt) \<and> \<not> isUncacheable (preq pkt)) \<or> pcmd pkt = WriteClean)"

text \<open>C19: The books of the write queue are right: every entry in it can be sent, which takes it out and tells the drain manager exactly
  when it was the last; while the queue is not full there is a free entry for every legal packet.\<close>
theorem write_queue_books:
  assumes "wq_reach q"
  shows "(\<forall>i \<in> set (allocatedList q). \<exists>q'. wq_markInService i q = Inr (q_drain q = Draining \<and> length (allocatedList q) = 1, q') \<and>
      allocatedList q' = remove1 i (allocatedList q)) \<and>
    (\<not> q_isFull q \<and> wq_legal pkt \<longrightarrow> (\<exists>i q'. wq_allocate now blk_addr blk_size pkt ready ord q = Inr (i, q') \<and> i \<notin> set (allocatedList q) \<and>
      allocatedList q' = allocatedList q @ [i])) \<and>
    (q_isEmpty q \<longleftrightarrow> allocatedList q = []) \<and> (q_isFull q \<longleftrightarrow> int (length (allocatedList q)) \<ge> numEntries q - numReserve q)"
proof -
  have inv: "wq_inv q" by (rule wq_reach_inv [OF assms])
  then have ok: "queue_ok (\<lambda>e. wq_targets e = []) q" "0 \<le> numReserve q" by (simp_all add: wq_inv_def)
  have "\<exists>i q'. wq_allocate now blk_addr blk_size pkt ready ord q = Inr (i, q') \<and> i \<notin> set (allocatedList q) \<and> allocatedList q' = allocatedList q @ [i]"
    if so: "\<not> q_isFull q" "wq_legal pkt"
  proof -
    obtain i js where f: "freeList q = i # js" "i < length (qentries q)" "wq_targets (qentries q ! i) = []"
      using wq.room_below_full [OF ok(1) _ ok(2)] so(1) by blast
    then obtain e where e: "assertR (wq_targets (qentries q ! i) = []) (wqe_allocate now blk_addr blk_size pkt ready ord (qentries q ! i)) = Inr e"
      using so(2) by (auto simp: wqe_allocate_def wq_legal_def pkt_isSecure_def Let_def)
    then have "\<not> qe_inService e" by (auto simp: assertR_eq_Inr wqe_allocate_def bindR_eq_Inr Let_def split: if_splits)
    from allocate_step [of _ q i js "\<lambda>e. assertR (wq_targets e = []) (wqe_allocate now blk_addr blk_size pkt ready ord e)" e, OF ok(1) f(1) e this]
    obtain q' where "wq_allocate now blk_addr blk_size pkt ready ord q = Inr (i, q')" "allocatedList q' = allocatedList q @ [i]"
      by (auto simp: wq_allocate_def)
    moreover have "i \<notin> set (allocatedList q)" using queue_okD(3) [OF ok(1)] f(1) by auto
    ultimately show ?thesis by blast
  qed
  moreover have "\<forall>i \<in> set (allocatedList q). \<exists>q'. wq_markInService i q = Inr (q_drain q = Draining \<and> length (allocatedList q) = 1, q') \<and>
      allocatedList q' = remove1 i (allocatedList q)" using wq_sent_inv [OF inv] by blast
  moreover have "q_isEmpty q \<longleftrightarrow> allocatedList q = []" "q_isFull q \<longleftrightarrow> int (length (allocatedList q)) \<ge> numEntries q - numReserve q"
    using queue_okD(8) [OF ok(1)] by (simp_all add: q_isEmpty_def q_isFull_def)
  ultimately show ?thesis by blast
qed

section \<open>Witnesses\<close>

definition ex_writeback :: Packet where "ex_writeback = Packet_new (Request_phys 64 64 0 1 0) WritebackDirty"

lemma ex_wq_runs:
  "case wq_allocate 0 64 64 ex_writeback 9 1 (WriteQueue_new 2 1 DrainRunning) of Inl _ \<Rightarrow> False | Inr z \<Rightarrow>
    (case wq_allocate 0 128 64 ex_writeback 5 2 (snd z) of Inl _ \<Rightarrow> False | Inr y \<Rightarrow>
      allocatedList (snd y) = [0, 1] \<and> map (ready_time (snd y)) [0, 1] = [9, 5])"
  by code_simp

lemma case_res: "(case m of Inl _ \<Rightarrow> False | Inr x \<Rightarrow> P x) \<longleftrightarrow> (\<exists>x. m = Inr x \<and> P x)"
  by (cases m) simp_all

lemma ex_wq_reach: "\<exists>q. wq_reach q \<and> allocatedList q = [0, 1] \<and> ready_time q 0 = 9 \<and> ready_time q 1 = 5"
proof -
  obtain z y where z: "wq_allocate 0 64 64 ex_writeback 9 1 (WriteQueue_new 2 1 DrainRunning) = Inr z"
    "wq_allocate 0 128 64 ex_writeback 5 2 (snd z) = Inr y" "allocatedList (snd y) = [0, 1]" "map (ready_time (snd y)) [0, 1] = [9, 5]"
    using ex_wq_runs unfolding case_res by (elim exE conjE) (rule that)
  have "wq_reach (snd z)" using wq_alloc [OF wq_start, of 0 64 64 ex_writeback 9 1 2 1 DrainRunning "fst z" "snd z"] z(1) by simp
  from wq_alloc [OF this, of 0 128 64 ex_writeback 5 2 "fst y" "snd y"] z(2) have "wq_reach (snd y)" by simp
  then show ?thesis using z(3,4) by (intro exI [of _ "snd y"]) simp
qed

theorem write_queue_by_time_witness:
  "\<exists>q. allocatedList q = [0, 1] \<and> getNext 7 q = Some 1 \<and> nextReadyTime q = 5 \<and> wq_reach q"
proof -
  obtain q where q: "wq_reach q" "allocatedList q = [0, 1]" "ready_time q 0 = 9" "ready_time q 1 = 5" using ex_wq_reach by blast
  from write_queue_by_time [OF q(1), of 7] q(2-4)
  have "case getNext 7 q of None \<Rightarrow> False | Some i \<Rightarrow> i \<in> {0, 1} \<and> ready_time q i \<le> 7" "nextReadyTime q = Min {9, 5}"
    by (auto split: option.splits)
  then show ?thesis using q by (auto split: option.splits)
qed

theorem write_queue_books_witness:
  "\<exists>q q' i q''. wq_reach q \<and> wq_markInService 0 q = Inr (False, q') \<and> allocatedList q' = [1] \<and>
    (q_isFull q \<or> wq_allocate 0 192 64 ex_writeback 3 3 q = Inr (i, q''))"
proof -
  obtain q where q: "wq_reach q" "allocatedList q = [0, 1]" using ex_wq_reach by blast
  note b = write_queue_books [OF q(1), of ex_writeback 0 192 64 3 3]
  have "0 \<in> set (allocatedList q)" "wq_legal ex_writeback" using q(2) by (simp, code_simp)
  then show ?thesis using b q by fastforce
qed

end
