(* ===== verification/Cache_MSHR.thy ===== *)
theory Cache_MSHR
  imports Cache_Queue Cache_Base
begin

text \<open>
  The registers that hold the misses of a cache, from \<^verbatim>\<open>src/mem/cache/mshr.hh\<close>, \<^verbatim>\<open>src/mem/cache/mshr.cc\<close> and
  \<^verbatim>\<open>src/mem/cache/mshr_queue.cc\<close>: each has the targets that wait for its line and those deferred until its response. The
  \<^verbatim>\<open>dynamic_cast\<close> that finds the register of the cache above in the sender states of a packet is the
  parameter \<open>upm\<close>; the calls to that register are part of the result. The contents of fresh
  buffers are the parameter \<open>fill\<close>.
\<close>

section \<open>State\<close>

datatype Source = FromCPU | FromSnoop | FromPrefetcher

record MTarget =
  mt_recvTime :: Tick
  mt_readyTime :: Tick
  mt_order :: u64
  mt_pkt :: Packet
  mt_source :: Source
  mt_markedPending :: bool
  mt_allocOnFill :: bool

record TargetList =
  tl_list :: "MTarget list"
  tl_needsWritable :: bool
  tl_hasUpgrade :: bool
  tl_allocOnFill :: bool
  tl_hasFromCache :: bool
  tl_blkAddr :: Addr
  tl_blkSize :: Addr
  tl_onlyWrites :: bool
  tl_bitmap :: "bool list"

record MSHR = QueueEntry +
  downstreamPending :: bool
  pendingModified :: bool
  postInvalidate :: bool
  postDowngrade :: bool
  wasWholeLineWrite :: bool
  isForward :: bool
  ms_targets :: TargetList
  deferredTargets :: TargetList

datatype pending_call = SetPending nat | ClearPending nat

type_synonym upper = "SenderState list \<Rightarrow> nat option"

text \<open>The constructor leaves some members of a list of targets unset; \<open>init\<close> sets them before they are used.\<close>

definition TargetList_new :: TargetList where
  "TargetList_new = \<lparr>tl_list = [], tl_needsWritable = False, tl_hasUpgrade = False, tl_allocOnFill = False, tl_hasFromCache = False,
     tl_blkAddr = 0, tl_blkSize = 0, tl_onlyWrites = True, tl_bitmap = []\<rparr>"

definition MSHR_new :: MSHR where
  "MSHR_new = \<lparr>qe_readyTime = 0, qe_uncacheable = False, qe_inService = False, qe_order = 0, qe_blkAddr = 0, qe_blkSize = 0, qe_isSecure = False,
     downstreamPending = False, pendingModified = False, postInvalidate = False, postDowngrade = False, wasWholeLineWrite = False,
     isForward = False, ms_targets = TargetList_new, deferredTargets = TargetList_new\<rparr>"

section \<open>Lists of targets\<close>

definition resetFlags :: "TargetList \<Rightarrow> TargetList" where
  "resetFlags l = l\<lparr>tl_onlyWrites := True, tl_bitmap := replicate (length (tl_bitmap l)) False, tl_needsWritable := False,
     tl_hasUpgrade := False, tl_allocOnFill := False, tl_hasFromCache := False\<rparr>"

definition tl_init :: "Addr \<Rightarrow> Addr \<Rightarrow> TargetList \<Rightarrow> TargetList" where
  "tl_init blk_addr blk_size l =
     (let n = unat blk_size; b = tl_bitmap l in
      resetFlags (l\<lparr>tl_blkAddr := blk_addr, tl_blkSize := blk_size, tl_bitmap := take n b @ replicate (n - length b) False\<rparr>))"

definition tl_isWholeLineWrite :: "TargetList \<Rightarrow> bool" where
  "tl_isWholeLineWrite l \<longleftrightarrow> tl_onlyWrites l \<and> list_all (\<lambda>b. b) (tl_bitmap l)"

definition noMergeFlags :: u64 where
  "noMergeFlags = UNCACHEABLE OR STRICT_ORDER OR MMAPPED_IPR OR PRIVILEGED OR LLSC OR MEM_SWAP OR MEM_SWAP_COND OR SECURE"

definition can_merge :: "Packet \<Rightarrow> bool" where
  "can_merge pkt \<longleftrightarrow> isWrite (pcmd pkt) \<and> req_flags (preq pkt) AND noMergeFlags = 0"

definition fill_true :: "nat \<Rightarrow> nat \<Rightarrow> bool list \<Rightarrow> bool list res" where
  "fill_true off n b = (if off + n \<le> length b then ok (take off b @ replicate n True @ drop (off + n) b) else fail OutOfRange)"

definition updateWriteFlags :: "Packet \<Rightarrow> TargetList \<Rightarrow> TargetList res" where
  "updateWriteFlags pkt l =
     (if tl_isWholeLineWrite l then ok l
      else
        (let l1 = l\<lparr>tl_onlyWrites := tl_onlyWrites l \<and> can_merge pkt\<rparr> in
         if tl_onlyWrites l1 then
           bindR (blkOffset (ucast (tl_blkSize l1)) pkt) (\<lambda>off. bindR (getSize pkt) (\<lambda>n.
           bindR (fill_true (unat off) (unat n) (tl_bitmap l1)) (\<lambda>b. ok (l1\<lparr>tl_bitmap := b\<rparr>))))
         else ok l1))"

definition tl_updateFlags :: "Packet \<Rightarrow> Source \<Rightarrow> bool \<Rightarrow> TargetList \<Rightarrow> TargetList res" where
  "tl_updateFlags pkt source alloc_on_fill l =
     (if source = FromSnoop then ok l
      else bindR (pkt_needsWritable pkt) (\<lambda>w.
        (let l1 = (if w then l\<lparr>tl_needsWritable := True\<rparr> else l);
             l2 = (if isUpgrade (pcmd pkt) \<or> pcmd pkt = StoreCondReq then l1\<lparr>tl_hasUpgrade := True\<rparr> else l1);
             l3 = l2\<lparr>tl_allocOnFill := tl_allocOnFill l2 \<or> alloc_on_fill\<rparr> in
         if source = FromPrefetcher then ok l3
         else updateWriteFlags pkt (l3\<lparr>tl_hasFromCache := tl_hasFromCache l3 \<or> fromCache (pcmd pkt)\<rparr>))))"

fun update_all_flags :: "MTarget list \<Rightarrow> TargetList \<Rightarrow> TargetList res" where
  "update_all_flags [] l = ok l"
| "update_all_flags (t # ts) l =
     bindR (tl_updateFlags (mt_pkt t) (mt_source t) (mt_allocOnFill t) l) (\<lambda>l1. update_all_flags ts l1)"

definition populateFlags :: "TargetList \<Rightarrow> TargetList res" where
  "populateFlags l = update_all_flags (tl_list l) (resetFlags l)"

definition tl_isReset :: "TargetList \<Rightarrow> bool" where
  "tl_isReset l \<longleftrightarrow> \<not> tl_needsWritable l \<and> \<not> tl_hasUpgrade l \<and> \<not> tl_allocOnFill l \<and> \<not> tl_hasFromCache l \<and> tl_onlyWrites l"

definition mark_calls :: "upper \<Rightarrow> Packet \<Rightarrow> bool \<Rightarrow> pending_call list" where
  "mark_calls upm pkt mark = (if mark then (case upm (senderState pkt) of None \<Rightarrow> [] | Some i \<Rightarrow> [SetPending i]) else [])"

definition tl_add :: "upper \<Rightarrow> Tick \<Rightarrow> Packet \<Rightarrow> Tick \<Rightarrow> u64 \<Rightarrow> Source \<Rightarrow> bool \<Rightarrow> bool \<Rightarrow> TargetList \<Rightarrow> (pending_call list \<times> TargetList) res" where
  "tl_add upm now pkt ready ord source mark alloc_on_fill l =
     bindR (tl_updateFlags pkt source alloc_on_fill l) (\<lambda>l1.
     ok (mark_calls upm pkt mark,
         l1\<lparr>tl_list := tl_list l1 @ [\<lparr>mt_recvTime = now, mt_readyTime = ready, mt_order = ord, mt_pkt = pkt, mt_source = source,
           mt_markedPending = mark \<and> upm (senderState pkt) \<noteq> None, mt_allocOnFill = alloc_on_fill\<rparr>]\<rparr>))"

definition upgraded :: "Command \<Rightarrow> Command" where
  "upgraded c = (if c = UpgradeReq then ReadExReq else if c = SCUpgradeReq then SCUpgradeFailReq
     else if c = StoreCondReq then StoreCondFailReq else c)"

definition replaceUpgrade :: "u8 \<Rightarrow> Packet \<Rightarrow> Packet res" where
  "replaceUpgrade fill pkt =
     (let has_data = (hasData (pcmd pkt) \<or> hasRespData pkt); p = pkt\<lparr>pcmd := upgraded (pcmd pkt)\<rparr> in
      if \<not> has_data then assertR (\<not> hasData (pcmd p)) (if hasRespData p then allocate fill p else ok p) else ok p)"

fun replace_all :: "u8 \<Rightarrow> MTarget list \<Rightarrow> MTarget list res" where
  "replace_all fill [] = ok []"
| "replace_all fill (t # ts) =
     bindR (replaceUpgrade fill (mt_pkt t)) (\<lambda>p. bindR (replace_all fill ts) (\<lambda>us. ok (t\<lparr>mt_pkt := p\<rparr> # us)))"

definition replaceUpgrades :: "u8 \<Rightarrow> TargetList \<Rightarrow> TargetList res" where
  "replaceUpgrades fill l =
     (if \<not> tl_hasUpgrade l then ok l
      else bindR (replace_all fill (tl_list l)) (\<lambda>ts. ok (l\<lparr>tl_list := ts, tl_hasUpgrade := False\<rparr>)))"

definition clear_calls :: "upper \<Rightarrow> MTarget list \<Rightarrow> pending_call list" where
  "clear_calls upm ts = concat (map (\<lambda>t. if mt_markedPending t
     then (case upm (senderState (mt_pkt t)) of None \<Rightarrow> [] | Some i \<Rightarrow> [ClearPending i]) else []) ts)"

definition unmark :: "MTarget \<Rightarrow> MTarget" where "unmark t = t\<lparr>mt_markedPending := False\<rparr>"

definition tl_clearDownstreamPending :: "upper \<Rightarrow> TargetList \<Rightarrow> pending_call list \<times> TargetList" where
  "tl_clearDownstreamPending upm l = (clear_calls upm (tl_list l), l\<lparr>tl_list := map unmark (tl_list l)\<rparr>)"

fun satisfy_mtargets :: "Packet \<Rightarrow> MTarget list \<Rightarrow> (bool \<times> Packet \<times> MTarget list) res" where
  "satisfy_mtargets pkt [] = ok (False, pkt, [])"
| "satisfy_mtargets pkt (t # ts) =
     bindR (trySatisfyPacket pkt (mt_pkt t)) (\<lambda>(found, pkt1, other).
     if found then ok (True, pkt1, t\<lparr>mt_pkt := other\<rparr> # ts)
     else bindR (satisfy_mtargets pkt1 ts) (\<lambda>(f, p, us). ok (f, p, t\<lparr>mt_pkt := other\<rparr> # us)))"

section \<open>The register\<close>

definition hasTargets :: "MSHR \<Rightarrow> bool" where "hasTargets m \<longleftrightarrow> tl_list (ms_targets m) \<noteq> []"

definition getNumTargets :: "MSHR \<Rightarrow> nat" where
  "getNumTargets m = length (tl_list (ms_targets m)) + length (tl_list (deferredTargets m))"

definition front_pkt :: "MSHR \<Rightarrow> Packet res" where
  "front_pkt m = (case tl_list (ms_targets m) of [] \<Rightarrow> fail OutOfRange | t # _ \<Rightarrow> ok (mt_pkt t))"

definition ms_isCleaning :: "MSHR \<Rightarrow> bool res" where
  "ms_isCleaning m = bindR (front_pkt m) (\<lambda>p. ok (isClean (pcmd p)))"

definition isPendingModified :: "MSHR \<Rightarrow> bool res" where "isPendingModified m = assertR (qe_inService m) (ok (pendingModified m))"
definition hasPostInvalidate :: "MSHR \<Rightarrow> bool res" where "hasPostInvalidate m = assertR (qe_inService m) (ok (postInvalidate m))"
definition hasPostDowngrade :: "MSHR \<Rightarrow> bool res" where "hasPostDowngrade m = assertR (qe_inService m) (ok (postDowngrade m))"

definition mshr_allocate :: "upper \<Rightarrow> Tick \<Rightarrow> Addr \<Rightarrow> u32 \<Rightarrow> Packet \<Rightarrow> Tick \<Rightarrow> u64 \<Rightarrow> bool \<Rightarrow> MSHR \<Rightarrow> (pending_call list \<times> MSHR) res" where
  "mshr_allocate upm now blk_addr blk_size target when_ready ord alloc_on_fill m =
     bindR (pkt_isSecure target) (\<lambda>secure.
     (let m1 = m\<lparr>qe_blkAddr := blk_addr, qe_blkSize := blk_size, qe_isSecure := secure, qe_readyTime := when_ready, qe_order := ord,
            isForward := False, wasWholeLineWrite := False, qe_uncacheable := isUncacheable (preq target), qe_inService := False,
            downstreamPending := False, ms_targets := tl_init blk_addr (ucast blk_size) (ms_targets m),
            deferredTargets := tl_init blk_addr (ucast blk_size) (deferredTargets m)\<rparr>;
          source = (if pcmd target = HardPFReq then FromPrefetcher else FromCPU) in
      bindR (tl_add upm now target when_ready ord source True alloc_on_fill (ms_targets m1)) (\<lambda>(calls, l). ok (calls, m1\<lparr>ms_targets := l\<rparr>))))"

definition mshr_setDownstreamPending :: "MSHR \<Rightarrow> MSHR res" where
  "mshr_setDownstreamPending m = assertR (\<not> downstreamPending m) (ok (m\<lparr>downstreamPending := True\<rparr>))"

definition mshr_clearDownstreamPending :: "upper \<Rightarrow> MSHR \<Rightarrow> (pending_call list \<times> MSHR) res" where
  "mshr_clearDownstreamPending upm m =
     assertR (downstreamPending m)
     (let (calls, l) = tl_clearDownstreamPending upm (ms_targets m) in ok (calls, m\<lparr>downstreamPending := False, ms_targets := l\<rparr>))"

definition mshr_markInService :: "upper \<Rightarrow> bool \<Rightarrow> MSHR \<Rightarrow> (pending_call list \<times> MSHR) res" where
  "mshr_markInService upm pending_modified_resp m =
     assertR (\<not> qe_inService m)
     (let m1 = m\<lparr>qe_inService := True, pendingModified := tl_needsWritable (ms_targets m) \<or> pending_modified_resp,
            postInvalidate := False, postDowngrade := False\<rparr>;
          (calls, l) = (if \<not> downstreamPending m1 then tl_clearDownstreamPending upm (ms_targets m1) else ([], ms_targets m1));
          m2 = m1\<lparr>ms_targets := l\<rparr> in
      ok (calls, m2\<lparr>wasWholeLineWrite := tl_isWholeLineWrite (ms_targets m2)\<rparr>))"

definition mshr_deallocate :: "MSHR \<Rightarrow> MSHR res" where
  "mshr_deallocate m =
     assertR (tl_list (ms_targets m) = []) (assertR (tl_isReset (deferredTargets m))
     (ok (m\<lparr>ms_targets := resetFlags (ms_targets m), qe_inService := False\<rparr>)))"

text \<open>A further request for the line: it waits with the others, or is deferred until the response.\<close>

definition must_defer :: "Packet \<Rightarrow> Packet \<Rightarrow> MSHR \<Rightarrow> bool res" where
  "must_defer pkt tgt_pkt m =
     (if isCacheMaintenance (preq pkt) \<or> isCacheMaintenance (preq tgt_pkt) \<or> tl_list (deferredTargets m) \<noteq> [] then ok True
      else if \<not> qe_inService m then ok False
      else bindR (hasPostInvalidate m) (\<lambda>pi.
        if pi then ok True
        else bindR (pkt_needsWritable pkt) (\<lambda>w.
          if \<not> w then ok False
          else bindR (isPendingModified m) (\<lambda>pm.
            if \<not> pm then ok True
            else bindR (hasPostDowngrade m) (\<lambda>pd. ok (pd \<or> isForward m))))))"

definition mshr_allocateTarget :: "u8 \<Rightarrow> upper \<Rightarrow> Tick \<Rightarrow> Packet \<Rightarrow> Tick \<Rightarrow> u64 \<Rightarrow> bool \<Rightarrow> MSHR \<Rightarrow> (pending_call list \<times> MSHR) res" where
  "mshr_allocateTarget fill upm now pkt ready ord alloc_on_fill m =
     assertR (pcmd pkt \<noteq> HardPFReq)
     (bindR (front_pkt m) (\<lambda>tgt_pkt.
      bindR (must_defer pkt tgt_pkt m) (\<lambda>d.
      if d then
        bindR (if qe_inService m then hasPostInvalidate m else ok False) (\<lambda>pi.
        bindR (if pi then replaceUpgrade fill pkt else ok pkt) (\<lambda>p.
        bindR (tl_add upm now p ready ord FromCPU True alloc_on_fill (deferredTargets m)) (\<lambda>(calls, l). ok (calls, m\<lparr>deferredTargets := l\<rparr>))))
      else
        bindR (tl_add upm now pkt ready ord FromCPU (\<not> qe_inService m) alloc_on_fill (ms_targets m)) (\<lambda>(calls, l).
          ok (calls, m\<lparr>ms_targets := l\<rparr>)))))"

text \<open>
  A snoop for the line. The snoops that precede the request of this register, because it is not in service or is still
  waiting below, are handled by the cache; those that follow it are recorded here. The result has the packet with
  the flags set on it.
\<close>

definition snoop_before :: "u8 \<Rightarrow> bool \<Rightarrow> MSHR \<Rightarrow> MSHR res" where
  "snoop_before fill invalidating m =
     (if invalidating then
        bindR (replaceUpgrades fill (ms_targets m)) (\<lambda>l. bindR (replaceUpgrades fill (deferredTargets m)) (\<lambda>d.
        ok (m\<lparr>ms_targets := l, deferredTargets := d\<rparr>)))
      else ok m)"

definition snoop_record :: "u8 \<Rightarrow> upper \<Rightarrow> Tick \<Rightarrow> Packet \<Rightarrow> u64 \<Rightarrow> bool \<Rightarrow> bool \<Rightarrow> MSHR \<Rightarrow> (Packet \<times> pending_call list \<times> MSHR) res" where
  "snoop_record fill upm now pkt ord w pm m =
     (let will_respond = (pm \<and> needsResponse (pcmd pkt) \<and> \<not> isClean (pcmd pkt)) in
      bindR (if will_respond then Packet_copy fill pkt True True
             else ok (Packet_block (preq pkt) (pcmd pkt) (sint (qe_blkSize m)))) (\<lambda>cp_pkt.
      bindR (if will_respond then bindR (setCacheResponding pkt) setResponderHadWritable else ok pkt) (\<lambda>pkt1.
      bindR (tl_add upm now cp_pkt now ord FromSnoop (downstreamPending m \<and> tl_needsWritable (ms_targets m)) False (ms_targets m)) (\<lambda>(calls, l).
      (let m1 = m\<lparr>ms_targets := l\<rparr>;
           m2 = (if w \<or> isInvalidate (pcmd pkt1) then m1\<lparr>postInvalidate := True\<rparr> else m1) in
       bindR (if pm \<and> isClean (pcmd pkt1) then setSatisfied pkt1 else ok pkt1) (\<lambda>pkt2. ok (pkt2, calls, m2)))))))"

definition snoop_after :: "u8 \<Rightarrow> upper \<Rightarrow> Tick \<Rightarrow> Packet \<Rightarrow> u64 \<Rightarrow> bool \<Rightarrow> MSHR \<Rightarrow> (bool \<times> Packet \<times> pending_call list \<times> MSHR) res" where
  "snoop_after fill upm now pkt ord w m =
     bindR (if w \<or> isCacheInvalidate (preq pkt) then bindR (replaceUpgrades fill (deferredTargets m)) (\<lambda>d. ok (m\<lparr>deferredTargets := d\<rparr>)) else ok m) (\<lambda>m1.
     bindR (front_pkt m1) (\<lambda>tgt_pkt.
     bindR (hasPostInvalidate m1) (\<lambda>pi.
     if pi \<or> isCacheInvalidate (preq tgt_pkt) then ok (True, pkt, [], m1)
     else
       bindR (isPendingModified m1) (\<lambda>pm.
       bindR (if pm \<or> isInvalidate (pcmd pkt) then snoop_record fill upm now pkt ord w pm m1 else ok (pkt, [], m1)) (\<lambda>(pkt1, calls, m2).
       if \<not> w \<and> \<not> isUncacheable (preq pkt1) then ok (True, setHasSharers pkt1, calls, m2\<lparr>postDowngrade := True\<rparr>)
       else ok (True, pkt1, calls, m2))))))"

definition mshr_handleSnoop :: "u8 \<Rightarrow> upper \<Rightarrow> Tick \<Rightarrow> Packet \<Rightarrow> u64 \<Rightarrow> MSHR \<Rightarrow> (bool \<times> Packet \<times> pending_call list \<times> MSHR) res" where
  "mshr_handleSnoop fill upm now pkt ord m =
     bindR (pkt_needsWritable pkt) (\<lambda>w.
     if w \<noteq> isInvalidate (pcmd pkt) \<and> \<not> isCacheMaintenance (preq pkt) then fail Panicked
     else if \<not> qe_inService m \<or> (isExpressSnoop pkt \<and> downstreamPending m) then
       bindR (snoop_before fill (w \<or> isCacheInvalidate (preq pkt)) m) (\<lambda>m1. ok (False, pkt, [], m1))
     else snoop_after fill upm now pkt ord w m)"

section \<open>Serving the targets\<close>

text \<open>With an invalidation that nobody expected only the first request is served, and all snoops.\<close>

definition extractServiceableTargets :: "Packet \<Rightarrow> MSHR \<Rightarrow> (TargetList \<times> MSHR) res" where
  "extractServiceableTargets pkt m =
     (let fresh = tl_init (qe_blkAddr m) (ucast (qe_blkSize m)) TargetList_new in
      bindR (if pcmd pkt = ReadRespWithInvalidate then
               (case tl_list (ms_targets m) of
                  [] \<Rightarrow> fail OutOfRange
                | t # ts \<Rightarrow>
                    assertR (mt_source t = FromCPU \<or> mt_source t = FromPrefetcher)
                    (assertR (list_all (\<lambda>u. mt_source u = FromCPU \<or> mt_source u = FromSnoop) ts)
                    (bindR (populateFlags (fresh\<lparr>tl_list := t # filter (\<lambda>u. mt_source u \<noteq> FromCPU) ts\<rparr>)) (\<lambda>ready.
                     ok (ready, (ms_targets m)\<lparr>tl_list := filter (\<lambda>u. mt_source u = FromCPU) ts\<rparr>)))))
             else ok (ms_targets m, fresh)) (\<lambda>(ready, rest).
      bindR (populateFlags rest) (\<lambda>l. ok (ready, m\<lparr>ms_targets := l\<rparr>))))"

definition is_maintenance :: "MTarget \<Rightarrow> bool" where "is_maintenance t \<longleftrightarrow> isCacheMaintenance (preq (mt_pkt t))"

definition promoteDeferredTargets :: "Tick \<Rightarrow> MSHR \<Rightarrow> (bool \<times> MSHR) res" where
  "promoteDeferredTargets now m =
     (let ts = tl_list (ms_targets m); ds = tl_list (deferredTargets m) in
      if ts = [] \<and> ds = [] then ok (False, m)
      else
        (let pre = takeWhile (\<lambda>t. \<not> is_maintenance t) ds;
             (ts1, ds1) =
               (if pre = [] \<and> ds \<noteq> [] then (if ts = [] then ([hd ds], tl ds) else (ts, ds))
                else (ts @ pre, drop (length pre) ds)) in
         bindR (populateFlags ((deferredTargets m)\<lparr>tl_list := ds1\<rparr>)) (\<lambda>d.
         bindR (populateFlags ((ms_targets m)\<lparr>tl_list := ts1\<rparr>)) (\<lambda>l.
         case ts1 of
           [] \<Rightarrow> fail OutOfRange
         | t # _ \<Rightarrow> ok (True, m\<lparr>ms_targets := l, deferredTargets := d, qe_order := mt_order t, qe_readyTime := max now (mt_readyTime t)\<rparr>)))))"

fun split_while :: "(MTarget \<Rightarrow> bool res) \<Rightarrow> MTarget list \<Rightarrow> (MTarget list \<times> MTarget list) res" where
  "split_while pred [] = ok ([], [])"
| "split_while pred (t # ts) =
     bindR (pred t) (\<lambda>b. if b then bindR (split_while pred ts) (\<lambda>(as, bs). ok (t # as, bs)) else ok ([], t # ts))"

definition promoteIf :: "upper \<Rightarrow> (MTarget \<Rightarrow> bool res) \<Rightarrow> MSHR \<Rightarrow> (pending_call list \<times> MSHR) res" where
  "promoteIf upm pred m =
     assertR (\<not> downstreamPending m)
     (bindR (split_while pred (tl_list (deferredTargets m))) (\<lambda>(as, bs).
      (let l = (ms_targets m)\<lparr>tl_list := tl_list (ms_targets m) @ map unmark as\<rparr> in
       bindR (populateFlags ((deferredTargets m)\<lparr>tl_list := bs\<rparr>)) (\<lambda>d. ok (clear_calls upm as, m\<lparr>ms_targets := l, deferredTargets := d\<rparr>)))))"

definition promoteReadable :: "upper \<Rightarrow> MSHR \<Rightarrow> (pending_call list \<times> MSHR) res" where
  "promoteReadable upm m =
     bindR (if tl_list (deferredTargets m) \<noteq> [] then bindR (hasPostInvalidate m) (\<lambda>b. ok (\<not> b)) else ok False) (\<lambda>go.
     if go then
       promoteIf upm (\<lambda>t. assertR (mt_source t = FromCPU)
         (if isCacheInvalidate (preq (mt_pkt t)) then ok False else bindR (pkt_needsWritable (mt_pkt t)) (\<lambda>w. ok (\<not> w)))) m
     else ok ([], m))"

definition promoteWritable :: "upper \<Rightarrow> MSHR \<Rightarrow> (pending_call list \<times> MSHR) res" where
  "promoteWritable upm m =
     bindR (if tl_needsWritable (deferredTargets m)
            then bindR (hasPostInvalidate m) (\<lambda>pi. if pi then ok False else bindR (hasPostDowngrade m) (\<lambda>pd. ok (\<not> pd))) else ok False) (\<lambda>go.
     if go then
       assertR (\<not> tl_needsWritable (ms_targets m))
       (promoteIf upm (\<lambda>t. assertR (mt_source t = FromCPU) (ok (\<not> isCacheInvalidate (preq (mt_pkt t)))))
         (m\<lparr>ms_targets := (ms_targets m)\<lparr>tl_needsWritable := True\<rparr>\<rparr>))
     else ok ([], m))"

definition mshr_popTarget :: "MSHR \<Rightarrow> MSHR res" where
  "mshr_popTarget m =
     (case tl_list (ms_targets m) of [] \<Rightarrow> fail OutOfRange | _ # ts \<Rightarrow> ok (m\<lparr>ms_targets := (ms_targets m)\<lparr>tl_list := ts\<rparr>\<rparr>))"

definition mshr_delay :: "Tick \<Rightarrow> Tick \<Rightarrow> MSHR \<Rightarrow> MSHR res" where
  "mshr_delay now delay_ticks m = assertR (qe_readyTime m \<le> now) (ok (m\<lparr>qe_readyTime := now + delay_ticks\<rparr>))"

definition mshr_trySatisfyFunctional :: "Packet \<Rightarrow> MSHR \<Rightarrow> (bool \<times> Packet \<times> MSHR) res" where
  "mshr_trySatisfyFunctional pkt m =
     (if isPrint (pcmd pkt) then
        bindR (trySatisfyFunctional (qe_blkAddr m) (qe_isSecure m) (uint (qe_blkSize m)) None pkt) (\<lambda>(_, p, _). ok (False, p, m))
      else bindR (satisfy_mtargets pkt (tl_list (ms_targets m))) (\<lambda>(f, p, ts).
        (let m1 = m\<lparr>ms_targets := (ms_targets m)\<lparr>tl_list := ts\<rparr>\<rparr> in
         if f then ok (True, p, m1)
         else bindR (satisfy_mtargets p (tl_list (deferredTargets m1))) (\<lambda>(g, p1, ds).
           ok (g, p1, m1\<lparr>deferredTargets := (deferredTargets m1)\<lparr>tl_list := ds\<rparr>\<rparr>)))))"

section \<open>The queue of registers\<close>

type_synonym MSHRQueue = "MSHR Queue"

definition MSHRQueue_new :: "nat \<Rightarrow> nat \<Rightarrow> DrainState \<Rightarrow> MSHRQueue" where
  "MSHRQueue_new n reserve ds = Queue_new MSHR_new n reserve ds"

definition mq_allocate :: "upper \<Rightarrow> Tick \<Rightarrow> Addr \<Rightarrow> u32 \<Rightarrow> Packet \<Rightarrow> Tick \<Rightarrow> u64 \<Rightarrow> bool \<Rightarrow> MSHRQueue \<Rightarrow> (nat \<times> MSHRQueue) res" where
  "mq_allocate upm now blk_addr blk_size pkt when_ready ord alloc_on_fill q =
     q_allocate (\<lambda>m. assertR (getNumTargets m = 0)
       (bindR (mshr_allocate upm now blk_addr blk_size pkt when_ready ord alloc_on_fill m) (\<lambda>(_, m1). ok m1))) q"

definition mq_update :: "(MSHR \<Rightarrow> MSHR res) \<Rightarrow> nat \<Rightarrow> MSHRQueue \<Rightarrow> MSHRQueue res" where
  "mq_update f i q = bindR (vec_at (qentries q) i) (\<lambda>m. bindR (f m) (\<lambda>m1. ok (q\<lparr>qentries := (qentries q)[i := m1]\<rparr>)))"

definition mq_moveToFront :: "nat \<Rightarrow> MSHRQueue \<Rightarrow> MSHRQueue res" where
  "mq_moveToFront i q =
     bindR (vec_at (qentries q) i) (\<lambda>m.
     if \<not> qe_inService m then
       assertR (i \<in> set (readyList q)) (ok (q\<lparr>readyList := i # remove1 i (readyList q)\<rparr>))
     else ok q)"

text \<open>\<^verbatim>\<open>find_if\<close> from the entry itself on, and \<^verbatim>\<open>splice\<close> of the entry before what it found, which does nothing if that is itself.\<close>

definition splice_before :: "nat \<Rightarrow> nat list \<Rightarrow> nat \<Rightarrow> nat list" where
  "splice_before i l k =
     (let p = length (takeWhile (\<lambda>j. j \<noteq> i) l) in
      if k = p then l else take p l @ take (k - p - 1) (drop (p + 1) l) @ [i] @ drop k l)"

definition mq_delay :: "Tick \<Rightarrow> nat \<Rightarrow> Tick \<Rightarrow> MSHRQueue \<Rightarrow> MSHRQueue res" where
  "mq_delay now i delay_ticks q =
     bindR (mq_update (mshr_delay now delay_ticks) i q) (\<lambda>q1.
     if i \<notin> set (readyList q1) then fail NullPointer
     else
       (let l = readyList q1; es = qentries q1; p = length (takeWhile (\<lambda>j. j \<noteq> i) l);
            k = p + length (takeWhile (\<lambda>j. \<not> qe_readyTime (es ! i) \<ge> qe_readyTime (es ! j)) (drop p l)) in
        ok (q1\<lparr>readyList := splice_before i l k\<rparr>)))"

definition mq_markInService :: "upper \<Rightarrow> nat \<Rightarrow> bool \<Rightarrow> MSHRQueue \<Rightarrow> (pending_call list \<times> MSHRQueue) res" where
  "mq_markInService upm i pending_modified_resp q =
     bindR (vec_at (qentries q) i) (\<lambda>m.
     bindR (mshr_markInService upm pending_modified_resp m) (\<lambda>(calls, m1).
     if i \<notin> set (readyList q) then fail NullPointer
     else ok (calls, q\<lparr>qentries := (qentries q)[i := m1], readyList := remove1 i (readyList q), q_numInService := q_numInService q + 1\<rparr>)))"

definition mq_markPending :: "nat \<Rightarrow> MSHRQueue \<Rightarrow> MSHRQueue res" where
  "mq_markPending i q =
     bindR (vec_at (qentries q) i) (\<lambda>m.
     assertR (qe_inService m)
     (addToReadyList i (q\<lparr>qentries := (qentries q)[i := m\<lparr>qe_inService := False\<rparr>], q_numInService := q_numInService q - 1\<rparr>)))"

definition mq_forceDeallocateTarget :: "Tick \<Rightarrow> nat \<Rightarrow> MSHRQueue \<Rightarrow> (bool \<times> MSHRQueue) res" where
  "mq_forceDeallocateTarget now i q =
     bindR (vec_at (qentries q) i) (\<lambda>m.
     assertR (hasTargets m)
     (bindR (mshr_popTarget m) (\<lambda>m1.
      bindR (if hasTargets m1 then ok (True, m1) else promoteDeferredTargets now m1) (\<lambda>(left, m2).
      (let q1 = q\<lparr>qentries := (qentries q)[i := m2]\<rparr> in
       bindR (if left then ok (False, q1) else q_deallocate mshr_deallocate i q1) (\<lambda>(_, q2). ok (q_isFull q \<and> \<not> q_isFull q2, q2)))))))"

definition havePending :: "MSHRQueue \<Rightarrow> bool" where "havePending q \<longleftrightarrow> readyList q \<noteq> []"

definition canPrefetch :: "int \<Rightarrow> MSHRQueue \<Rightarrow> bool" where
  "canPrefetch demandReserve q \<longleftrightarrow> q_allocated q < numEntries q - (numReserve q + 1 + demandReserve)"

section \<open>The books of the queue\<close>

lemma bindR_pair: "bindR m k = Inr y \<longleftrightarrow> (\<exists>a b. m = Inr (a, b) \<and> k (a, b) = Inr y)"
  by (cases m) auto

lemma mshr_allocate_idle: "mshr_allocate upm now blk_addr blk_size pkt ready ord al m = Inr (c, m') \<Longrightarrow> \<not> qe_inService m'"
  by (auto simp: mshr_allocate_def bindR_eq_Inr Let_def)

interpretation mq: entry_class "\<lambda>m. tl_list (ms_targets m) = []"
  "\<lambda>(upm, now, blk_addr, blk_size, pkt, ready, ord, al) m. assertR (getNumTargets m = 0)
     (bindR (mshr_allocate upm now blk_addr blk_size pkt ready ord al m) (\<lambda>(_, m1). ok m1))" mshr_deallocate
proof
  show "tl_list (ms_targets e) = [] \<and> \<not> qe_inService e'"
    if "(case x of (upm, now, blk_addr, blk_size, pkt, ready, ord, al) \<Rightarrow> \<lambda>m. assertR (getNumTargets m = 0)
      (bindR (mshr_allocate upm now blk_addr blk_size pkt ready ord al m) (\<lambda>(_, m1). ok m1))) e = Inr e'"
    for x :: "upper \<times> Tick \<times> Addr \<times> u32 \<times> Packet \<times> Tick \<times> u64 \<times> bool" and e e'
    using that by (cases x) (auto simp: assertR_eq_Inr bindR_pair getNumTargets_def dest: mshr_allocate_idle)
  show "tl_list (ms_targets e') = []" if "mshr_deallocate e = Inr e'" for e e'
    using that by (auto simp: mshr_deallocate_def assertR_eq_Inr resetFlags_def)
qed

text \<open>What is done to a register in use. The cache sets \<open>isForward\<close> when it only passes the request on.\<close>

inductive mshr_step :: "MSHR \<Rightarrow> MSHR \<Rightarrow> bool" where
  ms_target: "mshr_allocateTarget fill upm now pkt ready ord al m = Inr (c, m') \<Longrightarrow> mshr_step m m'"
| ms_snoop: "mshr_handleSnoop fill upm now pkt ord m = Inr (b, p, c, m') \<Longrightarrow> mshr_step m m'"
| ms_extract: "extractServiceableTargets pkt m = Inr (l, m') \<Longrightarrow> mshr_step m m'"
| ms_promote: "promoteDeferredTargets now m = Inr (b, m') \<Longrightarrow> mshr_step m m'"
| ms_readable: "promoteReadable upm m = Inr (c, m') \<Longrightarrow> mshr_step m m'"
| ms_writable: "promoteWritable upm m = Inr (c, m') \<Longrightarrow> mshr_step m m'"
| ms_set: "mshr_setDownstreamPending m = Inr m' \<Longrightarrow> mshr_step m m'"
| ms_clear: "mshr_clearDownstreamPending upm m = Inr (c, m') \<Longrightarrow> mshr_step m m'"
| ms_pop: "mshr_popTarget m = Inr m' \<Longrightarrow> mshr_step m m'"
| ms_functional: "mshr_trySatisfyFunctional pkt m = Inr (f, p, m') \<Longrightarrow> mshr_step m m'"
| ms_forward: "mshr_step m (m\<lparr>isForward := b\<rparr>)"

lemma split_while_append: "split_while pred ts = Inr (as, bs) \<Longrightarrow> ts = as @ bs"
proof (induction ts arbitrary: as)
  case (Cons t ts)
  obtain b where b: "pred t = Inr b" using Cons.prems by (cases "pred t") auto
  show ?case
  proof (cases b)
    case True
    then obtain cs ds where "split_while pred ts = Inr (cs, ds)" "as = t # cs" "bs = ds"
      using Cons.prems b by (cases "split_while pred ts") auto
    then show ?thesis using Cons.IH by simp
  next
    case False
    then show ?thesis using Cons.prems b by simp
  qed
qed simp

lemma promoteIf_cases:
  assumes "promoteIf upm pred m = Inr (c, m')"
  obtains as bs d where "tl_list (deferredTargets m) = as @ bs" "populateFlags ((deferredTargets m)\<lparr>tl_list := bs\<rparr>) = Inr d"
    "m' = m\<lparr>ms_targets := (ms_targets m)\<lparr>tl_list := tl_list (ms_targets m) @ map unmark as\<rparr>, deferredTargets := d\<rparr>"
proof -
  obtain as bs where s: "split_while pred (tl_list (deferredTargets m)) = Inr (as, bs)"
    "bindR (populateFlags ((deferredTargets m)\<lparr>tl_list := bs\<rparr>)) (\<lambda>d. ok (clear_calls upm as,
       m\<lparr>ms_targets := (ms_targets m)\<lparr>tl_list := tl_list (ms_targets m) @ map unmark as\<rparr>, deferredTargets := d\<rparr>)) = Inr (c, m')"
    using assms by (cases "split_while pred (tl_list (deferredTargets m))") (auto simp: promoteIf_def assertR_eq_Inr Let_def)
  obtain d where d: "populateFlags ((deferredTargets m)\<lparr>tl_list := bs\<rparr>) = Inr d"
    using s(2) by (cases "populateFlags ((deferredTargets m)\<lparr>tl_list := bs\<rparr>)") simp_all
  show thesis using that [OF split_while_append [OF s(1)] d] s(2) d by simp
qed

lemma promoteIf_inService: "promoteIf upm pred m = Inr (c, m') \<Longrightarrow> qe_inService m' = qe_inService m"
  by (erule promoteIf_cases) simp

lemma promoteDeferred_cases:
  assumes "promoteDeferredTargets now m = Inr (b, m')"
  obtains "\<not> b" "m' = m" "tl_list (ms_targets m) = []" "tl_list (deferredTargets m) = []"
  | ts1 ds1 d l where b "tl_list (ms_targets m) @ tl_list (deferredTargets m) = ts1 @ ds1" "ts1 \<noteq> []"
    "populateFlags ((deferredTargets m)\<lparr>tl_list := ds1\<rparr>) = Inr d" "populateFlags ((ms_targets m)\<lparr>tl_list := ts1\<rparr>) = Inr l"
    "m' = m\<lparr>ms_targets := l, deferredTargets := d, qe_order := mt_order (hd ts1), qe_readyTime := max now (mt_readyTime (hd ts1))\<rparr>"
proof (cases "tl_list (ms_targets m) = [] \<and> tl_list (deferredTargets m) = []")
  case True
  then show thesis using assms that(1) by (simp add: promoteDeferredTargets_def Let_def)
next
  case False
  let ?ts = "tl_list (ms_targets m)" and ?ds = "tl_list (deferredTargets m)"
  let ?pre = "takeWhile (\<lambda>t. \<not> is_maintenance t) ?ds"
  obtain ts1 ds1 where s: "(if ?pre = [] \<and> ?ds \<noteq> [] then (if ?ts = [] then ([hd ?ds], tl ?ds) else (?ts, ?ds))
                else (?ts @ ?pre, drop (length ?pre) ?ds)) = (ts1, ds1)" by fastforce
  have "?pre @ drop (length ?pre) ?ds = ?ds" by (metis append_take_drop_id takeWhile_eq_take)
  then have c: "?ts @ ?ds = ts1 @ ds1" using s by (auto split: if_splits)
  have r: "bindR (populateFlags ((deferredTargets m)\<lparr>tl_list := ds1\<rparr>)) (\<lambda>d.
         bindR (populateFlags ((ms_targets m)\<lparr>tl_list := ts1\<rparr>)) (\<lambda>l.
         case ts1 of
           [] \<Rightarrow> fail OutOfRange
         | t # _ \<Rightarrow> ok (True, m\<lparr>ms_targets := l, deferredTargets := d, qe_order := mt_order t, qe_readyTime := max now (mt_readyTime t)\<rparr>))) = Inr (b, m')"
    using assms False s by (simp add: promoteDeferredTargets_def Let_def)
  then obtain d l where d: "populateFlags ((deferredTargets m)\<lparr>tl_list := ds1\<rparr>) = Inr d" "populateFlags ((ms_targets m)\<lparr>tl_list := ts1\<rparr>) = Inr l"
    unfolding bindR_eq_Inr by blast
  then obtain t us where t: "ts1 = t # us" using r by (cases ts1) simp_all
  show thesis using that(2) [OF _ c _ d] r d t by simp
qed

lemma snoop_record_cases:
  assumes "snoop_record fill upm now pkt ord w pm m = Inr (p, c, m')"
  obtains cp mark l pi where "tl_add upm now cp now ord FromSnoop mark False (ms_targets m) = Inr (c, l)"
    "m' = m\<lparr>ms_targets := l, postInvalidate := pi\<rparr>"
proof -
  let ?will = "pm \<and> needsResponse (pcmd pkt) \<and> \<not> isClean (pcmd pkt)"
  let ?A = "if ?will then Packet_copy fill pkt True True else ok (Packet_block (preq pkt) (pcmd pkt) (sint (qe_blkSize m)))"
  let ?B = "if ?will then bindR (setCacheResponding pkt) setResponderHadWritable else ok pkt"
  obtain cp where cp: "?A = Inr cp" using assms by (cases ?A) (simp_all add: snoop_record_def Let_def)
  obtain p1 where p1: "?B = Inr p1" using assms cp by (cases ?B) (simp_all add: snoop_record_def Let_def)
  let ?D = "tl_add upm now cp now ord FromSnoop (downstreamPending m \<and> tl_needsWritable (ms_targets m)) False (ms_targets m)"
  let ?E = "if pm \<and> isClean (pcmd p1) then setSatisfied p1 else ok p1"
  obtain calls l where d: "?D = Inr (calls, l)" using assms cp p1 by (cases ?D) (auto simp: snoop_record_def Let_def)
  obtain p2 where "?E = Inr p2" using assms cp p1 d by (cases ?E) (simp_all add: snoop_record_def Let_def)
  then have "c = calls" "m' = (if w \<or> isInvalidate (pcmd p1) then (m\<lparr>ms_targets := l\<rparr>)\<lparr>postInvalidate := True\<rparr> else m\<lparr>ms_targets := l\<rparr>)"
    using assms cp p1 d by (simp_all add: snoop_record_def Let_def)
  moreover have "m\<lparr>ms_targets := l\<rparr> = m\<lparr>ms_targets := l, postInvalidate := postInvalidate m\<rparr>" by (cases m) simp
  ultimately have "m' = m\<lparr>ms_targets := l, postInvalidate := (w \<or> isInvalidate (pcmd p1) \<or> postInvalidate m)\<rparr>"
    by (cases w; cases "isInvalidate (pcmd p1)"; simp)
  with that d \<open>c = calls\<close> show thesis by blast
qed

lemma snoop_record_inService: "snoop_record fill upm now pkt ord w pm m = Inr (p, c, m') \<Longrightarrow> qe_inService m' = qe_inService m"
  by (erule snoop_record_cases) simp

lemma snoop_after_inService:
  assumes "snoop_after fill upm now pkt ord w m = Inr (b, p, c, m')"
  shows "qe_inService m' = qe_inService m"
proof -
  let ?A = "if w \<or> isCacheInvalidate (preq pkt) then bindR (replaceUpgrades fill (deferredTargets m)) (\<lambda>d. ok (m\<lparr>deferredTargets := d\<rparr>)) else ok m"
  obtain m1 tgt pi where m1: "?A = Inr m1" "front_pkt m1 = Inr tgt" "hasPostInvalidate m1 = Inr pi"
    "(if pi \<or> isCacheInvalidate (preq tgt) then ok (True, pkt, [], m1)
     else bindR (isPendingModified m1) (\<lambda>pm.
       bindR (if pm \<or> isInvalidate (pcmd pkt) then snoop_record fill upm now pkt ord w pm m1 else ok (pkt, [], m1)) (\<lambda>(pkt1, calls, m2).
       if \<not> w \<and> \<not> isUncacheable (preq pkt1) then ok (True, setHasSharers pkt1, calls, m2\<lparr>postDowngrade := True\<rparr>)
       else ok (True, pkt1, calls, m2)))) = Inr (b, p, c, m')"
    using assms unfolding snoop_after_def bindR_eq_Inr by blast
  have s1: "qe_inService m1 = qe_inService m" using m1(1) by (auto simp: bindR_eq_Inr split: if_splits)
  show ?thesis
  proof (cases "pi \<or> isCacheInvalidate (preq tgt)")
    case True
    then show ?thesis using m1(4) s1 by simp
  next
    case False
    then obtain pm pkt1 calls m2 where m2: "(if pm \<or> isInvalidate (pcmd pkt) then snoop_record fill upm now pkt ord w pm m1 else ok (pkt, [], m1)) = Inr (pkt1, calls, m2)"
      "(if \<not> w \<and> \<not> isUncacheable (preq pkt1) then ok (True, setHasSharers pkt1, calls, m2\<lparr>postDowngrade := True\<rparr>)
       else ok (True, pkt1, calls, m2)) = Inr (b, p, c, m')" using m1(4) by (auto simp: bindR_eq_Inr)
    have "qe_inService m2 = qe_inService m1" using m2(1) by (auto split: if_splits dest: snoop_record_inService)
    moreover have "qe_inService m' = qe_inService m2" using m2(2) by (auto split: if_splits)
    ultimately show ?thesis using s1 by simp
  qed
qed

lemma mshr_step_inService: "mshr_step m m' \<Longrightarrow> qe_inService m' = qe_inService m"
proof (induction rule: mshr_step.induct)
  case (ms_target fill upm now pkt ready ord al m c m')
  then show ?case by (auto simp: mshr_allocateTarget_def assertR_eq_Inr bindR_eq_Inr bindR_pair split: if_splits)
next
  case (ms_snoop fill upm now pkt ord m b p c m')
  then show ?case
    by (auto simp: mshr_handleSnoop_def snoop_before_def bindR_eq_Inr bindR_pair split: if_splits dest!: snoop_after_inService)
next
  case (ms_extract pkt m l m')
  then show ?case by (auto simp: extractServiceableTargets_def bindR_eq_Inr bindR_pair Let_def)
next
  case (ms_promote now m b m')
  then show ?case by (rule promoteDeferred_cases) simp_all
next
  case (ms_readable upm m c m')
  then show ?case by (auto simp: promoteReadable_def bindR_eq_Inr split: if_splits dest!: promoteIf_inService)
next
  case (ms_writable upm m c m')
  then show ?case by (auto simp: promoteWritable_def bindR_eq_Inr assertR_eq_Inr split: if_splits dest!: promoteIf_inService)
next
  case (ms_functional pkt m f p m')
  then show ?case by (auto simp: mshr_trySatisfyFunctional_def bindR_eq_Inr Let_def split: if_splits)
qed (auto simp: mshr_setDownstreamPending_def mshr_clearDownstreamPending_def mshr_popTarget_def assertR_eq_Inr case_prod_unfold Let_def split: list.splits)

inductive mq_reach :: "MSHRQueue \<Rightarrow> bool" where
  mq_start: "mq_reach (MSHRQueue_new n reserve ds)"
| mq_alloc: "mq_reach q \<Longrightarrow> mq_allocate upm now blk_addr blk_size pkt ready ord al q = Inr (i, q') \<Longrightarrow> mq_reach q'"
| mq_entry: "mq_reach q \<Longrightarrow> i \<in> set (allocatedList q) \<Longrightarrow> mshr_step (qentries q ! i) m \<Longrightarrow> mq_reach (q\<lparr>qentries := (qentries q)[i := m]\<rparr>)"
| mq_front: "mq_reach q \<Longrightarrow> mq_moveToFront i q = Inr q' \<Longrightarrow> i \<in> set (allocatedList q) \<Longrightarrow> mq_reach q'"
| mq_delayed: "mq_reach q \<Longrightarrow> mq_delay now i d q = Inr q' \<Longrightarrow> mq_reach q'"
| mq_service: "mq_reach q \<Longrightarrow> mq_markInService upm i pm q = Inr (c, q') \<Longrightarrow> mq_reach q'"
| mq_pending: "mq_reach q \<Longrightarrow> i \<in> set (allocatedList q) \<Longrightarrow> mq_markPending i q = Inr q' \<Longrightarrow> mq_reach q'"
| mq_free: "mq_reach q \<Longrightarrow> q_deallocate mshr_deallocate i q = Inr (b, q') \<Longrightarrow> mq_reach q'"
| mq_force: "mq_reach q \<Longrightarrow> i \<in> set (allocatedList q) \<Longrightarrow> mq_forceDeallocateTarget now i q = Inr (b, q') \<Longrightarrow> mq_reach q'"
| mq_draining: "mq_reach q \<Longrightarrow> mq_reach (q\<lparr>q_drain := d\<rparr>)"

abbreviation mq_ok :: "MSHRQueue \<Rightarrow> bool" where "mq_ok \<equiv> queue_ok (\<lambda>m. tl_list (ms_targets m) = [])"

lemma entry_keeps:
  assumes "mq_ok q" "i \<in> set (allocatedList q)" "qe_inService m = qe_inService (qentries q ! i)"
  shows "mq_ok (q\<lparr>qentries := (qentries q)[i := m]\<rparr>)"
proof (rule queue_ok_entries [OF assms(1)])
  have i: "i < length (qentries q)" "i \<notin> set (freeList q)" using queue_okD(3) [OF assms(1)] queue_okD(5) [OF assms(1,2)] assms(2) by auto
  show "\<forall>j. qe_inService ((qentries q)[i := m] ! j) = qe_inService (qentries q ! j)" using assms(3) by (metis nth_list_update_eq nth_list_update_neq i(1))
  show "\<forall>j \<in> set (freeList q). tl_list (ms_targets ((qentries q)[i := m] ! j)) = []" using queue_okD(12) [OF assms(1)] i(2) by (metis nth_list_update_neq)
qed simp

lemma count_update:
  "distinct l \<Longrightarrow> int (length (filter (\<lambda>j. if j = i then b else P j) l)) =
    int (length (filter P l)) + (if i \<in> set l then of_bool b - of_bool (P i) else 0)"
proof (induction l)
  case (Cons a l)
  show ?case
  proof (cases "a = i")
    case True
    then have "i \<notin> set l" using Cons.prems by simp
    then have "filter (\<lambda>j. if j = i then b else P j) l = filter P l" by (intro filter_cong) auto
    then show ?thesis using True \<open>i \<notin> set l\<close> by (cases b; cases "P i"; simp)
  next
    case False
    then show ?thesis using Cons by (cases "P a"; simp)
  qed
qed simp

lemma ready_permuted:
  assumes "mq_ok q" "set l = set (readyList q)" "distinct l"
  shows "mq_ok (q\<lparr>readyList := l\<rparr>)"
  using assms by (simp add: queue_ok_def)

lemma splice_set:
  assumes "i \<in> set l" "distinct l" "length (takeWhile (\<lambda>j. j \<noteq> i) l) \<le> k"
  shows "set (splice_before i l k) = set l \<and> distinct (splice_before i l k)"
proof -
  let ?p = "length (takeWhile (\<lambda>j. j \<noteq> i) l)"
  obtain as bs where l: "l = as @ i # bs" "i \<notin> set as" using split_list_first [OF assms(1)] by blast
  have "takeWhile (\<lambda>j. j \<noteq> i) (as @ i # bs) = as" using l(2) by (induction as) auto
  then have p: "?p = length as" using l(1) by simp
  show ?thesis
  proof (cases "k = ?p")
    case True
    then show ?thesis using assms(2) by (simp add: splice_before_def)
  next
    case False
    then obtain n where k: "k = length as + Suc n" using assms(3) p less_iff_Suc_add by (metis add_Suc_right le_neq_implies_less)
    have "splice_before i l k = as @ take n bs @ [i] @ drop n bs" using False p l(1) k by (simp add: splice_before_def)
    moreover have "set (take n bs) \<union> set (drop n bs) = set bs" "distinct (take n bs @ drop n bs)" using assms(2) l by (metis set_append append_take_drop_id, simp)
    moreover from this(2) have "set (take n bs) \<inter> set (drop n bs) = {}" by (simp only: distinct_append)
    ultimately show ?thesis using assms(2) l by (auto dest: in_set_takeD in_set_dropD)
  qed
qed

text \<open>The search of \<open>delay\<close> starts at the entry itself, which satisfies it, so that the entry is never moved.\<close>

lemma delay_moves_nothing:
  assumes "mq_delay now i d q = Inr q'"
  shows "readyList q' = readyList q \<and> (\<exists>m. mshr_delay now d (qentries q ! i) = Inr m \<and> qentries q' = (qentries q)[i := m] \<and>
    q' = q\<lparr>qentries := (qentries q)[i := m]\<rparr> \<and> i < length (qentries q) \<and> i \<in> set (readyList q))"
proof -
  obtain m where m: "i < length (qentries q)" "mshr_delay now d (qentries q ! i) = Inr m" and i: "i \<in> set (readyList q)"
    using assms by (auto simp: mq_delay_def mq_update_def bindR_eq_Inr vec_at_eq_Inr split: if_splits)
  let ?l = "readyList q" and ?es = "(qentries q)[i := m]"
  let ?p = "length (takeWhile (\<lambda>j. j \<noteq> i) ?l)"
  obtain as bs where l: "?l = as @ i # bs" "i \<notin> set as" using split_list_first [OF i] by blast
  have "takeWhile (\<lambda>j. j \<noteq> i) (as @ i # bs) = as" using l(2) by (induction as) auto
  then have "drop ?p ?l = i # bs" using l(1) by simp
  then have "takeWhile (\<lambda>j. \<not> qe_readyTime (?es ! i) \<ge> qe_readyTime (?es ! j)) (drop ?p ?l) = []" by simp
  then have "mq_delay now i d q = Inr (q\<lparr>qentries := ?es\<rparr>)"
    using m i unfolding mq_delay_def mq_update_def Let_def by (simp add: splice_before_def)
  then show ?thesis using assms m i by simp
qed

lemma mq_reach_ok: "mq_reach q \<Longrightarrow> mq_ok q"
proof (induction rule: mq_reach.induct)
  case (mq_start n reserve ds)
  show ?case unfolding MSHRQueue_new_def by (rule queue_ok_new) (simp add: MSHR_new_def TargetList_new_def)
next
  case (mq_alloc q upm now blk_addr blk_size pkt ready ord al i q')
  then show ?case using mq.allocate_keeps [of q "(upm, now, blk_addr, blk_size, pkt, ready, ord, al)" i q'] by (simp add: mq_allocate_def)
next
  case (mq_entry q i m)
  then show ?case using entry_keeps mshr_step_inService by blast
next
  case (mq_front q i q')
  show ?case
  proof (cases "qe_inService (qentries q ! i)")
    case True
    then show ?thesis using mq_front by (auto simp: mq_moveToFront_def bindR_eq_Inr vec_at_eq_Inr)
  next
    case False
    then have q': "i \<in> set (readyList q)" "q' = q\<lparr>readyList := i # remove1 i (readyList q)\<rparr>"
      using mq_front.hyps(2) by (auto simp: mq_moveToFront_def bindR_eq_Inr vec_at_eq_Inr assertR_eq_Inr)
    have "distinct (readyList q)" using queue_okD(9) [OF mq_front.IH] .
    then show ?thesis unfolding q'(2) using q'(1) by (intro ready_permuted [OF mq_front.IH]) auto
  qed
next
  case (mq_delayed q now i d q')
  then obtain m where m: "mshr_delay now d (qentries q ! i) = Inr m" "q' = q\<lparr>qentries := (qentries q)[i := m]\<rparr>" "i \<in> set (readyList q)"
    using delay_moves_nothing by blast
  have "i \<in> set (allocatedList q)" using m(3) queue_okD(10) [OF mq_delayed.IH] by simp
  moreover have "qe_inService m = qe_inService (qentries q ! i)" using m(1) by (auto simp: mshr_delay_def assertR_eq_Inr)
  ultimately show ?case unfolding m(2) by (intro entry_keeps [OF mq_delayed.IH])
next
  case (mq_service q upm i pm c q')
  obtain m where m: "mshr_markInService upm pm (qentries q ! i) = Inr (c, m)" "i \<in> set (readyList q)" "i < length (qentries q)"
    "q' = q\<lparr>qentries := (qentries q)[i := m], readyList := remove1 i (readyList q), q_numInService := q_numInService q + 1\<rparr>"
    using mq_service.hyps(2) by (auto simp: mq_markInService_def bindR_eq_Inr vec_at_eq_Inr split: if_splits)
  note ok = queue_okD [OF mq_service.IH]
  have i: "i \<in> set (allocatedList q)" "i \<notin> set (freeList q)" "\<not> qe_inService (qentries q ! i)" using m(2) ok(3,10) by auto
  have s: "qe_inService m" using m(1) by (auto simp: mshr_markInService_def assertR_eq_Inr case_prod_unfold Let_def)
  have "(\<lambda>j. qe_inService ((qentries q)[i := m] ! j)) = (\<lambda>j. if j = i then True else qe_inService (qentries q ! j))"
    using s m(3) by (auto simp: fun_eq_iff nth_list_update)
  then have "int (length (filter (\<lambda>j. qe_inService ((qentries q)[i := m] ! j)) (allocatedList q))) = q_numInService q + 1"
    using count_update [OF ok(1), of i True "\<lambda>j. qe_inService (qentries q ! j)"] i ok(11) by simp
  then show ?case unfolding m(4) using ok i s m(3) unfolding queue_ok_def by (auto simp: nth_list_update)
next
  case (mq_pending q i q')
  let ?q = "q\<lparr>qentries := (qentries q)[i := (qentries q ! i)\<lparr>qe_inService := False\<rparr>], q_numInService := q_numInService q - 1\<rparr>"
  note ok = queue_okD [OF mq_pending.IH]
  have s: "qe_inService (qentries q ! i)" "i < length (qentries q)" "addToReadyList i ?q = Inr q'"
    using mq_pending.hyps(3) by (auto simp: mq_markPending_def bindR_eq_Inr vec_at_eq_Inr assertR_eq_Inr)
  have i: "i \<notin> set (freeList q)" "i \<notin> set (readyList q)" using mq_pending.hyps(2) ok(3,10) s(1) by auto
  obtain as bs where r: "q' = ?q\<lparr>readyList := as @ i # bs\<rparr>" "readyList q = as @ bs" using addToReadyList_ok [of i ?q] s(3) by auto
  have "(\<lambda>j. qe_inService ((qentries q)[i := (qentries q ! i)\<lparr>qe_inService := False\<rparr>] ! j)) = (\<lambda>j. if j = i then False else qe_inService (qentries q ! j))"
    using s(2) by (auto simp: fun_eq_iff nth_list_update)
  then have "int (length (filter (\<lambda>j. qe_inService ((qentries q)[i := (qentries q ! i)\<lparr>qe_inService := False\<rparr>] ! j)) (allocatedList q))) = q_numInService q - 1"
    using count_update [OF ok(1), of i False "\<lambda>j. qe_inService (qentries q ! j)"] mq_pending.hyps(2) s(1) ok(11) by simp
  then show ?case unfolding r(1) using ok i s mq_pending.hyps(2) r(2) unfolding queue_ok_def by (auto simp: nth_list_update)
next
  case (mq_free q i b q')
  then show ?case using mq.deallocate_keeps by blast
next
  case (mq_force q i now b q')
  obtain m1 left m2 where m: "mshr_popTarget (qentries q ! i) = Inr m1" "(if hasTargets m1 then ok (True, m1) else promoteDeferredTargets now m1) = Inr (left, m2)"
    "bindR (if left then ok (False, q\<lparr>qentries := (qentries q)[i := m2]\<rparr>) else q_deallocate mshr_deallocate i (q\<lparr>qentries := (qentries q)[i := m2]\<rparr>))
       (\<lambda>(_, q2). ok (q_isFull q \<and> \<not> q_isFull q2, q2)) = Inr (b, q')"
    using mq_force.hyps(3) by (auto simp: mq_forceDeallocateTarget_def bindR_eq_Inr vec_at_eq_Inr assertR_eq_Inr Let_def)
  have "qe_inService m1 = qe_inService (qentries q ! i)" using mshr_step_inService [OF ms_pop [OF m(1)]] .
  moreover have "qe_inService m2 = qe_inService m1" using m(2) mshr_step_inService [OF ms_promote] by (auto split: if_splits)
  ultimately have ok: "mq_ok (q\<lparr>qentries := (qentries q)[i := m2]\<rparr>)" using entry_keeps [OF mq_force.IH mq_force.hyps(2)] by simp
  show ?case
  proof (cases left)
    case True
    then show ?thesis using m(3) ok by simp
  next
    case False
    then show ?thesis using m(3) mq.deallocate_keeps [OF ok] by (auto simp: bindR_eq_Inr)
  qed
next
  case (mq_draining q d)
  then show ?case by (simp add: queue_ok_def)
qed

end
