(* ===== verification/Spec2Isabelle.thy ===== *)
theory Spec2Isabelle
  imports PIM_Safety PIM_Events Mem_Checkpoint PIM_Host Cache_Alloc Mem_Bridge Port_Proxy Simple_Mem Snoop_Filter Cache_MSHR
begin

text \<open>
  A verification library for PIMSim, a simulator of processing in memory built on gem5. It covers the
  path of a PIM operation, from the instruction on the simulated processor through the caches and the
  memory to the unit in the memory that computes, together with the parts of the simulator this path rests
  on: packets, address decoding, physical memory and its checkpoints, and the event queue. All paths below
  are under \<^verbatim>\<open>src/GEM5Simulation/gem5/src\<close>.

  \<^bold>\<open>How the parts interact.\<close> A PIM instruction (\<^verbatim>\<open>sim/pseudo_inst.cc\<close>) calls the processor, which translates
  three addresses, flushes them from the caches and sends a command packet (\<^verbatim>\<open>cpu/simple/timing.cc\<close>). The kernel
  (\<^verbatim>\<open>pim/pim_kernel.cc\<close>) registers the operation with the memory, which from then on refuses the host's
  accesses to those addresses (\<^verbatim>\<open>mem/abstract_mem.cc\<close>, \<^verbatim>\<open>mem/dram_ctrl.cc\<close>); it reads the operands, computes,
  writes the result and tells the memory that it is done; the memory then flushes the caches of the
  processor and wakes it.

  \<^bold>\<open>Conventions.\<close> The simulator stops on a failed assertion, a panic, a fatal error, an access out of range or a
  null pointer: an operation that may stop returns \<open>fault + 'a\<close> (\<open>PIM_Prelude\<close>). State is passed explicitly in
  records that follow the classes. Machine integers are words of their width; \<^verbatim>\<open>Addr\<close> and \<^verbatim>\<open>Tick\<close> have 64 bits.
  The current tick, the contents of fresh buffers, random numbers and the answers of a port are arguments.

  \<^bold>\<open>Theories and what they model.\<close>
  \<^item> \<open>PIM_Prelude\<close>: results that may stop, buffers, bytes of a number.
  \<^item> \<open>Base_Flags\<close>, \<open>Bitfield\<close>, \<open>Int_Math\<close>: \<^verbatim>\<open>base/flags.hh\<close>, \<^verbatim>\<open>base/bitfield.hh\<close>, \<^verbatim>\<open>base/intmath.hh\<close>.
  \<^item> \<open>Addr_Range\<close>, \<open>Addr_Range_Map\<close>: \<^verbatim>\<open>base/addr_range.hh\<close> with interleaving, \<^verbatim>\<open>base/addr_range_map.hh\<close> with its
    lookup cache; the map refines the function that decodes an address.
  \<^item> \<open>Mem_Cmd\<close>, \<open>Mem_Request\<close>, \<open>Mem_Packet\<close>: \<^verbatim>\<open>mem/packet.hh\<close>, \<^verbatim>\<open>mem/packet.cc\<close>, \<^verbatim>\<open>mem/request.hh\<close>.
  \<^item> \<open>Clocked\<close>, \<open>Event_Queue\<close>: \<^verbatim>\<open>sim/clocked_object.hh\<close>, \<^verbatim>\<open>sim/eventq.cc\<close>; the linked bins of the queue, at the level
    of pointers, refine a list in order of service.
  \<^item> \<open>Abstract_Mem\<close>: \<^verbatim>\<open>mem/abstract_mem.cc\<close> with load-locked reservations and the queue of PIM operations.
  \<^item> \<open>Physical_Mem\<close>, \<open>Mem_Checkpoint\<close>: \<^verbatim>\<open>mem/physical.cc\<close>, its backing stores, and its checkpoints.
  \<^item> \<open>PIM_Kernel\<close>: every handler of \<^verbatim>\<open>pim/pim_kernel.cc\<close> and the units derived from it. \<open>PIM_Protocol\<close> puts kernel,
    memory and the packets in flight together as a step relation and proves its invariant; \<open>PIM_Safety\<close> has the
    consequences and a concrete run; \<open>PIM_Events\<close> ties the kernel's event fields to the event queue.
  \<^item> \<open>PIM_Host\<close>: the PIM part of \<^verbatim>\<open>cpu/simple/timing.cc\<close> and \<^verbatim>\<open>sim/pseudo_inst.cc\<close>.
  \<^item> \<open>Cache_Replacement\<close>, \<open>Cache_Tags\<close>, \<open>Cache_PIM\<close>: \<^verbatim>\<open>mem/cache/replacement_policies\<close>, the blocks and the
    set-associative tag store of \<^verbatim>\<open>mem/cache\<close>, and \<^verbatim>\<open>check_addr\<close> and \<^verbatim>\<open>flushPIM\<close>; the tag store refines a map from
    block address and security state to places.
  \<^item> \<open>Cache_Base\<close>, \<open>Cache_Alloc\<close>: the block operations of \<^verbatim>\<open>mem/cache/base.cc\<close>: reads, writes and exchanges served
    by a block, the packets of evicted blocks, draining, checkpoints, and allocation in place of a victim.
  \<^item> \<open>Cache_Queue\<close>: the queue template of \<^verbatim>\<open>mem/cache/queue.hh\<close> and the write queue; what the queue needs of its entries is the
    locale \<open>entry_class\<close>. \<open>Cache_MSHR\<close>: the miss registers of \<^verbatim>\<open>mem/cache/mshr.cc\<close>, their targets, and their queue, which
    satisfy the same locale.
  \<^item> \<open>Sim_Drain\<close>: the drain manager and the objects it drains, from \<^verbatim>\<open>sim/drain.cc\<close>.
  \<^item> \<open>Packet_Queue\<close>, \<open>Mem_Bridge\<close>: the queue of a port and the bridge between buses, from \<^verbatim>\<open>mem/packet_queue.cc\<close> and
    \<^verbatim>\<open>mem/bridge.cc\<close>; both refine queues that keep the order of arrival.
  \<^item> \<open>XBar_Layer\<close>: the layers of a crossbar and their arbitration, from \<^verbatim>\<open>mem/xbar.cc\<close>; \<open>XBar_Noncoherent\<close>: the
    crossbar of \<^verbatim>\<open>mem/noncoherent_xbar.cc\<close> built from them, its address ranges and its routes.
  \<^item> \<open>Snoop_Filter\<close>: the snoop filter of a coherent crossbar, from \<^verbatim>\<open>mem/snoop_filter.cc\<close>, with the copies and requests it covers.
  \<^item> \<open>Simple_Mem\<close>: the controller of \<^verbatim>\<open>mem/simple_mem.cc\<close> with its queue of responses; it refines the memory of
    \<open>Abstract_Mem\<close> without time.
  \<^item> \<open>Port_Proxy\<close>: accesses to blocks of memory cut into lines, from \<^verbatim>\<open>base/chunk_generator.hh\<close> and
    \<^verbatim>\<open>mem/port_proxy.cc\<close>, composed with the memory of \<open>Abstract_Mem\<close>.

  \<^bold>\<open>What the lemmas show.\<close> The properties are numbered C1, C2 and so on in the theories; the main ones are that the
  result of an operation is right in every interleaving and nothing else changes, that no handler stops the
  simulator (both as long as the port takes the write of the result; refused reads are retried), that the host is held back exactly while an operation is pending, and that the system is never stuck;
  that accesses and checkpoints are exact, byte for byte; that the data structures refine their abstract
  counterparts; that serving, flushing,
  draining and replacing blocks of a cache keeps what the processor sees, or changes it by exactly the bytes of a write; that
  the queues of ports and bridges keep order, lose nothing and are never stuck; that crossbars decode and route right and
  their snoop filter misses no copy. Errors of the code appear as theorems too: a
  rejected result write, a retried command that never leaves the queue, and others.

  \<^bold>\<open>Interfaces.\<close> The locales of the development state what a client relies on: among them \<open>replacement\<close>, the contract of
  a replacement policy, interpreted on the policies of the code and used by the tag store for every policy.

  \<^bold>\<open>Bounds and parameters.\<close> Loops of the code are structural recursions or have a termination proof; no fuel is used.
  The protocol is proved for clocks that do not overflow before the horizon \<open>p_horizon\<close>; tag and set of an address
  are regenerated right as long as the bits below the tag are at most 32 (a shift of 32 bits in the code). Compression,
  the operating system's memory mapping and the address translation of the processor are parameters.

  \<^bold>\<open>Not modelled.\<close> The part of the cache controller that drives its queues (hits, misses, fills and snoops), DRAM and HMC timing, the
  coherent crossbar around its snoop filter (the protocol of the operations is proved for every order of delivery
  instead), the out-of-order processor, instruction sets, devices, the Ruby memory system, statistics, printing and the Python configuration; the second simulator in C#.
\<close>

end
